(* ===== verification/Prelude.thy ===== *)
theory Prelude
  imports Main "HOL-Library.Word"
begin

text \<open>
  Shared vocabulary of the development: the machine integer types the kernel uses, the
  outcome type of operations that can panic, and the generic facts on words, lists and
  byte memories that the component theories share.

  The kernel is built for 64-bit targets, so \<open>std::size_t\<close>, \<open>std::uintptr_t\<close> and
  \<open>std::uint64_t\<close> are all \<open>64 word\<close>; addition, subtraction and shifts wrap as they
  do in the source.
\<close>

unbundle bit_operations_syntax

type_synonym u8 = "8 word"
type_synonym u16 = "16 word"
type_synonym u32 = "32 word"
type_synonym u64 = "64 word"

text \<open>
  \<open>lib::panic\<close>, \<open>lib::panic_if\<close> and, in debug builds, \<open>lib::bug_on\<close> do not return.
  A null pointer dereference faults, which ends in a panic too; a \<open>std::span\<close> view that
  reaches beyond its span is undefined behaviour, which is counted as a panic here.
  An operation that may reach one of them returns an \<open>outcome\<close>: \<open>Inl\<close> names the
  reason, \<open>Inr\<close> is the normal result.
\<close>

datatype panic = Bug_on | Null_deref | Out_of_span | Panic_msg string

type_synonym 'a outcome = "panic + 'a"

definition bug_on :: "bool \<Rightarrow> 'a outcome \<Rightarrow> 'a outcome" where
  "bug_on c k = (if c then Inl Bug_on else k)"

lemma bug_on_Inr_iff [simp]: "bug_on c k = Inr x \<longleftrightarrow> \<not> c \<and> k = Inr x"
  by (simp add: bug_on_def)

lemma bug_on_False [simp]: "bug_on False k = k"
  by (simp add: bug_on_def)

text \<open>
  Code that may also loop forever returns a \<open>run\<close>: \<open>None\<close> is a loop that does not end.
\<close>

type_synonym 'a run = "'a outcome option"

definition retR :: "'a \<Rightarrow> 'a run" where
  "retR x = Some (Inr x)"

definition failR :: "panic \<Rightarrow> 'a run" where
  "failR e = Some (Inl e)"

definition bindR :: "'a run \<Rightarrow> ('a \<Rightarrow> 'b run) \<Rightarrow> 'b run" where
  "bindR m f = Option.bind m (\<lambda>r. case r of Inl e \<Rightarrow> Some (Inl e) | Inr x \<Rightarrow> f x)"

lemma bindR_simps [simp]:
  "bindR (retR x) f = f x" "bindR (failR e) f = failR e" "bindR None f = None"
  "bindR (Some (Inr x)) f = f x" "bindR (Some (Inl e)) f = failR e"
  by (simp_all add: bindR_def retR_def failR_def)

lemma retR_eq [simp]: "retR x = retR y \<longleftrightarrow> x = y" "retR x \<noteq> failR e" "failR e \<noteq> retR x" "retR x \<noteq> None" "failR e \<noteq> None"
  by (auto simp: retR_def failR_def)

lemma bindR_retR_iff: "bindR m f = retR y \<longleftrightarrow> (\<exists>x. m = retR x \<and> f x = retR y)"
  by (cases m) (auto simp: bindR_def retR_def split: sum.splits)

lemma run_distinct [simp]:
  "retR x \<noteq> None" "None \<noteq> retR x" "failR e \<noteq> None" "None \<noteq> failR e" "retR x \<noteq> failR e" "failR e \<noteq> retR x"
  by (simp_all add: retR_def failR_def)

lemma bindR_failR_iff: "bindR m f = failR e \<longleftrightarrow> m = failR e \<or> (\<exists>x. m = retR x \<and> f x = failR e)"
  by (cases m) (auto simp: bindR_def retR_def failR_def split: sum.splits)

lemma bindR_assoc: "bindR (bindR m f) g = bindR m (\<lambda>x. bindR (f x) g)"
  by (cases m) (auto simp: bindR_def split: sum.splits)

lemma bindR_mono [partial_function_mono]:
  assumes "mono_option m" "\<And>x. mono_option (\<lambda>f. g x f)"
  shows "mono_option (\<lambda>f. bindR (m f) (\<lambda>x. g x f))"
  unfolding bindR_def
proof (rule bind_mono [OF assms(1)])
  fix r show "mono_option (\<lambda>f. case r of Inl e \<Rightarrow> Some (Inl e) | Inr x \<Rightarrow> g x f)"
    by (cases r) (simp_all add: assms(2) option.const_mono)
qed

declare of_nat_diff [simp del]

named_theorems word_nat \<open>moving word arithmetic to natural numbers\<close>

section \<open>Words read as natural numbers\<close>

lemma unat_add_no_wrap [word_nat]:
  "unat a + unat b < 2 ^ LENGTH('a) \<Longrightarrow> unat (a + b :: 'a::len word) = unat a + unat b"
  by (simp add: unat_word_ariths)

lemma unat_sub_no_wrap [word_nat]:
  "b \<le> a \<Longrightarrow> unat (a - b :: 'a::len word) = unat a - unat b"
  by (rule unat_sub)

lemma unat_of_nat_small [word_nat]:
  "n < 2 ^ LENGTH('a) \<Longrightarrow> unat (of_nat n :: 'a::len word) = n"
  by (simp add: unat_of_nat take_bit_nat_eq_self)

lemma unat_add_of_nat:
  "unat a + n < 2 ^ LENGTH('a) \<Longrightarrow> unat (a + of_nat n :: 'a::len word) = unat a + n"
  by (subst unat_add_no_wrap) (simp_all add: unat_of_nat_small)

lemma unat_succ_less [word_nat]: "i < j \<Longrightarrow> unat (i + 1 :: 'a::len word) = Suc (unat i)"
proof -
  assume "i < j"
  moreover have "unat j < 2 ^ LENGTH('a)" by (rule unsigned_less)
  ultimately have "Suc (unat i) < 2 ^ LENGTH('a)"
    unfolding word_less_nat_alt by linarith
  then show ?thesis by (subst unat_add_no_wrap) simp_all
qed

lemma unat_pred_greater [word_nat]: "i < j \<Longrightarrow> unat (j - 1 :: 'a::len word) = unat j - 1"
  by (subst unat_sub_no_wrap) (auto simp: word_less_nat_alt word_le_nat_alt)

lemma unat_lt_2p64: "unat (a :: u64) < 2 ^ 64"
  using unsigned_less [of a] by simp

lemma of_nat_u64_eq_iff:
  assumes "i < 2 ^ 64" "j < 2 ^ 64"
  shows "(of_nat i = (of_nat j :: u64)) \<longleftrightarrow> i = j"
proof
  assume "of_nat i = (of_nat j :: u64)"
  then have "unat (of_nat i :: u64) = unat (of_nat j :: u64)" by simp
  with assms show "i = j" by (simp add: unat_of_nat_small)
qed simp

lemma ptr_offset_inj:
  "i < 2 ^ 64 \<Longrightarrow> j < 2 ^ 64 \<Longrightarrow> (p + of_nat i = (p + of_nat j :: u64)) \<longleftrightarrow> i = j"
  by (simp add: of_nat_u64_eq_iff)

lemma of_nat_2p64: "(of_nat (2 ^ 64) :: u64) = 0"
  by (simp only: word_unat_eq_iff unat_of_nat) simp

lemma of_nat_max_u64: "of_nat (2 ^ 64 - 1) = (- 1 :: u64)"
proof -
  have "of_nat (2 ^ 64 - 1) = (of_nat (2 ^ 64) - of_nat 1 :: u64)" by (rule of_nat_diff) simp
  then show ?thesis by (simp only: of_nat_2p64) simp
qed

lemma unat_sub_of_nat:
  "k < 2 ^ 64 \<Longrightarrow>
   unat ((x :: u64) - of_nat k) = (if k \<le> unat x then unat x - k else unat x + 2 ^ 64 - k)"
  by (simp add: unat_sub_if' unat_of_nat_small)

lemma unat_uminus_u64: "x \<noteq> 0 \<Longrightarrow> unat (- x :: u64) = 2 ^ 64 - unat x"
  using unat_sub_if' [of 0 x] by (simp add: unat_eq_zero)

lemma sint_small: "n < 2 ^ 63 \<Longrightarrow> sint (of_nat n :: u64) = int n"
  by (simp add: sint_uint unsigned_of_nat take_bit_nat_eq_self signed_take_bit_int_eq_self)

end
