(* ===== verification/Libmath.thy ===== *)
theory Libmath
  imports Prelude
begin

text \<open>
  The arithmetic helpers of \<^verbatim>\<open>kernel/interfaces/lib/math.cppm\<close>: the higher-half
  direct map conversions, alignment and rounding, ranges, powers of two.
  \<open>get_hhdm_offset\<close> is a function pointer set by the boot code, so the offset is a
  parameter \<open>hhdm\<close> of the definitions that use it.
\<close>

section \<open>Definitions\<close>

definition kib :: "u64 \<Rightarrow> u64" where
  "kib num = num * 1024"

definition mib :: "u64 \<Rightarrow> u64" where
  "mib num = kib num * 1024"

definition gib :: "u64 \<Rightarrow> u64" where
  "gib num = mib num * 1024"

definition ishh :: "u64 \<Rightarrow> u64 \<Rightarrow> bool" where
  "ishh hhdm val \<longleftrightarrow> hhdm \<le> val"

definition tohh :: "u64 \<Rightarrow> u64 \<Rightarrow> u64" where
  "tohh hhdm val = (if ishh hhdm val then val else val + hhdm)"

definition fromhh :: "u64 \<Rightarrow> u64 \<Rightarrow> u64" where
  "fromhh hhdm val = (if \<not> ishh hhdm val then val else val - hhdm)"

definition align_down :: "u64 \<Rightarrow> u64 \<Rightarrow> u64" where
  "align_down n a = n AND NOT (a - 1)"

definition align_up :: "u64 \<Rightarrow> u64 \<Rightarrow> u64" where
  "align_up n a = align_down (n + a - 1) a"

definition div_roundup :: "u64 \<Rightarrow> u64 \<Rightarrow> u64" where
  "div_roundup n a = align_down (n + a - 1) a div a"

definition div_rounddown :: "u64 \<Rightarrow> u64 \<Rightarrow> u64" where
  "div_rounddown n a = align_down n a div a"

definition range_overlaps :: "u64 \<Rightarrow> u64 \<Rightarrow> u64 \<Rightarrow> u64 \<Rightarrow> bool" where
  "range_overlaps start1 end1 start2 end2 \<longleftrightarrow> start1 < end2 \<and> start2 < end1"

definition range_intersection :: "u64 \<Rightarrow> u64 \<Rightarrow> u64 \<Rightarrow> u64 \<Rightarrow> u64 \<times> u64" where
  "range_intersection start1 end1 start2 end2 =
     (if \<not> range_overlaps start1 end1 start2 end2 then (0, 0)
      else (max start1 start2, min end1 end2))"

text \<open>\<open>std::bit_width\<close>: the number of bits needed to write the value, 0 for 0.\<close>

fun bit_width_nat :: "nat \<Rightarrow> nat" where
  "bit_width_nat n = (if n = 0 then 0 else Suc (bit_width_nat (n div 2)))"

declare bit_width_nat.simps [simp del]

definition bit_width :: "u64 \<Rightarrow> u64" where
  "bit_width val = of_nat (bit_width_nat (unat val))"

definition log2 :: "u64 \<Rightarrow> u64" where
  "log2 val = bit_width val - 1"

definition pow2 :: "u64 \<Rightarrow> u64" where
  "pow2 val = push_bit (unat val) 1"

definition is_pow2 :: "u64 \<Rightarrow> bool" where
  "is_pow2 num \<longleftrightarrow> (num AND (num - 1)) = 0"

definition next_pow2 :: "u64 \<Rightarrow> u64" where
  "next_pow2 val0 =
     (let val = val0 - 1;
          val = val OR drop_bit 1 val;
          val = val OR drop_bit 2 val;
          val = val OR drop_bit 4 val;
          val = val OR drop_bit 8 val;
          val = val OR drop_bit 16 val;
          val = val OR drop_bit 32 val
      in val + 1)"

definition pre_pow2 :: "u64 \<Rightarrow> u64" where
  "pre_pow2 val = (let np2 = next_pow2 val in if np2 = val then np2 else drop_bit 1 np2)"

text \<open>
  The or-and-shift cascade inside \<open>next_pow2\<close>, named for the proofs below: it copies the
  highest set bit into every lower position.
\<close>

definition smear :: "u64 \<Rightarrow> u64" where
  "smear val =
     (let val = val OR drop_bit 1 val;
          val = val OR drop_bit 2 val;
          val = val OR drop_bit 4 val;
          val = val OR drop_bit 8 val;
          val = val OR drop_bit 16 val
      in val OR drop_bit 32 val)"

section \<open>Properties\<close>


lemma align_down_mask: "align_down n (2 ^ k) = n - take_bit k n"
proof -
  have "n AND NOT (mask k) = push_bit k (drop_bit k n)"
    by (rule bit_eqI) (auto simp: bit_simps bit_mask_iff)
  moreover have "push_bit k (drop_bit k n) + take_bit k n = n"
    by (rule bits_ident)
  ultimately show ?thesis
    by (simp add: align_down_def mask_eq_decr_exp[symmetric] algebra_simps)
qed

lemma unat_align_down: "unat (align_down n (2 ^ k)) = unat n - unat n mod 2 ^ k"
proof -
  have "unat (take_bit k n) = unat n mod 2 ^ k"
    by (metis unsigned_take_bit_eq take_bit_eq_mod)
  then show ?thesis
    by (simp add: align_down_mask unat_sub_no_wrap word_le_nat_alt)
qed

lemma unat_align_down_div: "unat (align_down n (2 ^ k)) = 2 ^ k * (unat n div 2 ^ k)"
  by (simp add: unat_align_down minus_mod_eq_mult_div)

lemma unat_2p: "k < 64 \<Longrightarrow> unat (2 ^ k :: u64) = 2 ^ k"
  using unat_of_nat_small [of "2 ^ k", where 'a = 64] power_strict_increasing [of k 64 "2::nat"]
  by simp

lemma unat_roundup_arg:
  assumes "k < 64" "unat n + 2 ^ k \<le> 2 ^ 64"
  shows "unat (n + 2 ^ k - 1 :: u64) = unat n + 2 ^ k - 1"
proof -
  have 1: "unat (2 ^ k - 1 :: u64) = 2 ^ k - 1"
    using assms(1) by (simp add: unat_sub_no_wrap word_le_nat_alt unat_2p)
  have "(2::nat) ^ k \<ge> 1" by simp
  then have "unat n + unat (2 ^ k - 1 :: u64) < 2 ^ 64"
    using assms(2) unfolding 1 by linarith
  then have "unat (n + (2 ^ k - 1)) = unat n + (2 ^ k - 1)"
    by (simp add: unat_add_no_wrap 1)
  then show ?thesis by (simp add: algebra_simps)
qed

lemma unat_align_up:
  "k < 64 \<Longrightarrow> unat n + 2 ^ k \<le> 2 ^ 64 \<Longrightarrow>
   unat (align_up n (2 ^ k)) = 2 ^ k * ((unat n + 2 ^ k - 1) div 2 ^ k)"
  by (simp add: align_up_def unat_align_down_div unat_roundup_arg)

lemma unat_div_roundup:
  "k < 64 \<Longrightarrow> unat n + 2 ^ k \<le> 2 ^ 64 \<Longrightarrow>
   unat (div_roundup n (2 ^ k)) = (unat n + 2 ^ k - 1) div 2 ^ k"
  by (simp add: div_roundup_def unat_div_distrib unat_align_down_div unat_roundup_arg unat_2p)

lemma bit_spread: "bit (w OR drop_bit s w :: u64) n \<longleftrightarrow> bit w n \<or> bit w (n + s)"
  by (simp add: bit_or_iff bit_drop_bit_eq add.commute)

lemma bit_spread_upto:
  fixes x :: u64
  assumes x: "\<And>n. bit x n \<longleftrightarrow> (\<exists>k<m. B (n + k))"
  shows "bit (x OR drop_bit m x) n \<longleftrightarrow> (\<exists>k<2 * m. B (n + k))"
proof
  assume "\<exists>k<2 * m. B (n + k)"
  then obtain k where k: "k < 2 * m" "B (n + k)" by blast
  show "bit (x OR drop_bit m x) n"
  proof (cases "k < m")
    case False
    then have "k - m < m" "B (n + m + (k - m))" using k by auto
    then show ?thesis using x by (auto simp: bit_spread)
  qed (use k x in \<open>auto simp: bit_spread\<close>)
next
  assume "bit (x OR drop_bit m x) n"
  then consider k where "k < m" "B (n + k)" | k where "k < m" "B (n + (m + k))"
    using x by (auto simp: bit_spread add.assoc)
  then show "\<exists>k<2 * m. B (n + k)"
  proof cases
    case (1 k) then show ?thesis by (intro exI [of _ k]) auto
  next
    case (2 k) then show ?thesis by (intro exI [of _ "m + k"]) auto
  qed
qed

lemma bit_smear: "bit (smear w) n \<longleftrightarrow> (\<exists>k<64. bit w (n + k))"
proof -
  have "\<And>n. bit w n \<longleftrightarrow> (\<exists>k<1. bit w (n + k))" by simp
  note bit_spread_upto [where B = "bit w", OF this, simplified mult_1_right]
  note bit_spread_upto [where B = "bit w", OF this]
  note bit_spread_upto [where B = "bit w", OF this]
  note bit_spread_upto [where B = "bit w", OF this]
  note bit_spread_upto [where B = "bit w", OF this]
  note bit_spread_upto [where B = "bit w", OF this]
  from this [of n] show ?thesis by (simp add: smear_def Let_def)
qed

lemma next_pow2_smear: "next_pow2 v = smear (v - 1) + 1"
  by (simp add: next_pow2_def smear_def Let_def)

text \<open>The highest set bit of a non-zero word.\<close>

lemma unat_between_powers:
  assumes "0 < unat (w :: u64)"
  obtains m where "m < 64" "2 ^ m \<le> unat w" "unat w < 2 ^ Suc m"
proof -
  obtain m where "2 ^ m \<le> unat w" "unat w < 2 ^ Suc m"
    using ex_power_ivl1 [of 2 "unat w"] assms by auto
  moreover have "m < 64"
  proof (rule ccontr)
    assume "\<not> m < 64"
    then have "(2::nat) ^ 64 \<le> 2 ^ m" by (intro power_increasing) auto
    with \<open>2 ^ m \<le> unat w\<close> unat_lt_2p64 [of w] show False by simp
  qed
  ultimately show ?thesis by (rule that [rotated])
qed

lemma bit_word_above:
  assumes "unat (w :: u64) < 2 ^ Suc m" "m < n" shows "\<not> bit w n"
proof
  assume "bit w n"
  then have "bit (unat w) n" by (simp add: bit_unsigned_iff)
  then have "odd (unat w div 2 ^ n)" by (simp add: bit_iff_odd)
  moreover have "unat w < 2 ^ n"
    using assms power_increasing [of "Suc m" n "2::nat"] by simp
  ultimately show False by simp
qed

lemma smear_mask:
  assumes "2 ^ m \<le> unat (w :: u64)" "unat w < 2 ^ Suc m" "m < 64"
  shows "smear w = mask (Suc m)"
proof (rule bit_eqI)
  fix n assume n: "possible_bit TYPE(u64) n"
  have "bit w m"
  proof -
    have "unat w div 2 ^ m = 1" using assms by (simp add: div_nat_eqI)
    then have "bit (unat w) m" by (simp add: bit_iff_odd)
    then show ?thesis by (simp add: bit_unsigned_iff)
  qed
  show "bit (smear w) n = bit (mask (Suc m) :: u64) n"
  proof (cases "n \<le> m")
    case True
    then have "m - n < 64" "bit w (n + (m - n))" using \<open>bit w m\<close> assms by auto
    with True n show ?thesis by (auto simp: bit_smear bit_mask_iff)
  next
    case False
    then have "\<not> bit w (n + k)" for k
      using assms by (intro bit_word_above) auto
    with False show ?thesis by (auto simp: bit_smear bit_mask_iff)
  qed
qed

lemma next_pow2_eq:
  assumes "k < 64" "2 ^ k < 2 * unat v" "unat v \<le> 2 ^ k"
  shows "next_pow2 v = 2 ^ k"
proof (cases "unat v = 1")
  case True
  then have "v = 1" by (simp add: word_unat_eq_iff)
  have "k = 0" using assms(2) True by (cases k) auto
  with \<open>v = 1\<close> show ?thesis by (simp add: next_pow2_def)
next
  case False
  with assms have v: "2 \<le> unat v" by (cases "unat v") auto
  with assms(3) obtain m where k: "k = Suc m" by (cases k) auto
  have "1 \<le> v" using v by (simp add: word_le_nat_alt)
  then have w: "unat (v - 1) = unat v - 1" by (simp add: unat_sub_no_wrap)
  have "smear (v - 1) = mask (Suc m)"
    using assms k v by (intro smear_mask) (auto simp: w)
  then show ?thesis
    using assms(1) by (simp add: next_pow2_smear k mask_eq_exp_minus_1)
qed

lemma next_pow2_big:
  assumes "2 ^ 63 < unat v" shows "next_pow2 v = 0"
proof -
  have "1 \<le> v" using assms by (simp add: word_le_nat_alt)
  then have w: "unat (v - 1) = unat v - 1" by (simp add: unat_sub_no_wrap)
  have "smear (v - 1) = mask (Suc 63)"
    using assms unat_lt_2p64 [of v] by (intro smear_mask) (auto simp: w)
  then have "next_pow2 v = mask 64 + 1" by (simp add: next_pow2_smear)
  also have "mask 64 + 1 = (0 :: u64)" by (simp add: mask_eq_exp_minus_1 flip: of_nat_2p64)
  finally show ?thesis .
qed

lemma bit_width_nat_eq: "2 ^ m \<le> n \<Longrightarrow> n < 2 ^ Suc m \<Longrightarrow> bit_width_nat n = Suc m"
proof (induction m arbitrary: n)
  case 0
  then have "n = 1" by simp
  then show ?case by (simp add: bit_width_nat.simps)
next
  case (Suc m)
  then have "2 ^ m \<le> n div 2" "n div 2 < 2 ^ Suc m" by auto
  then have "bit_width_nat (n div 2) = Suc m" by (rule Suc.IH)
  with Suc.prems show ?case by (subst bit_width_nat.simps) auto
qed

lemma log2_eq: "2 ^ m \<le> unat v \<Longrightarrow> unat v < 2 ^ Suc m \<Longrightarrow> log2 v = of_nat m"
  by (simp add: log2_def bit_width_def bit_width_nat_eq)

lemma log2_2p: "k < 64 \<Longrightarrow> log2 (2 ^ k) = of_nat k"
  by (rule log2_eq) (simp_all add: unat_2p)

lemma pre_pow2_eq:
  assumes "m < 63" "2 ^ m \<le> unat v" "unat v < 2 ^ Suc m"
  shows "pre_pow2 v = 2 ^ m"
proof (cases "unat v = 2 ^ m")
  case True
  with assms have "next_pow2 v = 2 ^ m" by (intro next_pow2_eq) auto
  moreover have "v = 2 ^ m"
    using True assms(1) by (simp add: word_unat_eq_iff unat_2p)
  ultimately show ?thesis by (simp add: pre_pow2_def)
next
  case False
  with assms have "next_pow2 v = 2 ^ Suc m" by (intro next_pow2_eq) auto
  moreover have "v \<noteq> 2 ^ Suc m" using assms unat_2p [of "Suc m"] by auto
  moreover have "drop_bit 1 (2 ^ Suc m :: u64) = 2 ^ m"
    using assms(1) unat_2p [of "Suc m"] unat_2p [of m]
    by (simp add: word_unat_eq_iff unsigned_drop_bit_eq drop_bit_eq_div unat_div_distrib del: power_Suc) simp
  ultimately show ?thesis by (simp add: pre_pow2_def Let_def)
qed

lemma pow2_eq: "pow2 k = 2 ^ unat k"
  by (simp add: pow2_def push_bit_eq_mult)

lemma tohh_fromhh: "ishh h v \<Longrightarrow> unat v < 2 * unat h \<Longrightarrow> tohh h (fromhh h v) = v"
  by (auto simp: tohh_def fromhh_def ishh_def word_le_nat_alt unat_sub_no_wrap)

lemma fromhh_tohh: "v < h \<Longrightarrow> unat v + unat h < 2 ^ 64 \<Longrightarrow> fromhh h (tohh h v) = v"
  by (auto simp: tohh_def fromhh_def ishh_def word_le_nat_alt word_less_nat_alt unat_add_no_wrap)

lemma range_intersection_mem:
  "x \<in> {fst (range_intersection s1 e1 s2 e2) ..< snd (range_intersection s1 e1 s2 e2)}
   \<longleftrightarrow> x \<in> {s1 ..< e1} \<and> x \<in> {s2 ..< e2}"
  by (auto simp: range_intersection_def range_overlaps_def)
end
