(* ===== verification/Pmm.thy ===== *)
theory Pmm
  imports Libmath
begin

text \<open>
  The physical memory manager of \<^verbatim>\<open>kernel/source/system/memory/pmm.cpp\<close> (x86_64
  build): three buddy allocators, one per address range, whose free blocks are linked
  through the free pages themselves, a page-frame database (\<open>pfndb\<close>) and a bump allocator
  used before the buddy allocators exist.

  The memory the free lists live in is an explicit store: \<open>nodes\<close> maps the virtual (higher
  half) address of a free page to the \<open>list\<close> object constructed there, so the aliasing of
  the intrusive lists is kept. \<open>pfndb\<close> is indexed by page-frame number; where the array is
  mapped is the concern of the page map. A null pointer is address 0.
\<close>

section \<open>Data\<close>

abbreviation (input) page_size :: u64 where "page_size \<equiv> 0x1000"
abbreviation (input) page_bits :: nat where "page_bits \<equiv> 12"
abbreviation (input) max_order :: nat where "max_order \<equiv> 15"

record list_node =
  lprev :: u64
  lnext :: u64

text \<open>\<open>struct page\<close>: bit-fields of 36, 4 and 1 bits.\<close>

record page =
  next_paddr :: "36 word"
  order :: "4 word"
  allocated :: "1 word"

record heap =
  hhdm :: u64
  nodes :: "u64 \<Rightarrow> list_node"
  pfndb :: "u64 \<Rightarrow> page"

text \<open>
  \<open>template<Start, End> struct allocator\<close>. Of each list head only \<open>next\<close> is ever used.
\<close>

record allocator =
  astart :: u64
  aend :: u64
  lists :: "nat \<Rightarrow> u64"

datatype zone = Sub1mib | Sub4gib | Normal

record memory =
  top :: u64
  usable_top :: u64
  pfndb_base :: u64
  pfndb_end :: u64
  usable :: u64
  used :: u64

text \<open>The boot memory map entries the allocator reads (\<open>boot::limine_memmap_entry\<close>).\<close>

datatype memmap_type = MM_usable | MM_bootloader | MM_kernel_and_modules | MM_framebuffer | MM_other

record memmap_entry =
  mm_base :: u64
  mm_length :: u64
  mm_type :: memmap_type

record pmm =
  heap :: heap
  sub1mib :: allocator
  sub4gib :: allocator
  normal :: allocator
  mem :: memory
  initialised :: bool
  bootstrap_once :: bool
  bootstrap_memmap_idx :: u64
  bootstrap_memmap :: memmap_entry
  memmaps :: "memmap_entry list"

section \<open>The buddy allocator\<close>

definition page_for :: "heap \<Rightarrow> u64 \<Rightarrow> u64" where
  "page_for h addr = fromhh (hhdm h) addr div page_size"

definition block_bytes :: "nat \<Rightarrow> u64" where
  "block_bytes k = page_size * pow2 (of_nat k)"

definition set_page :: "heap \<Rightarrow> u64 \<Rightarrow> (page \<Rightarrow> page) \<Rightarrow> heap" where
  "set_page h addr f = h\<lparr>pfndb := (pfndb h)(page_for h addr := f (pfndb h (page_for h addr)))\<rparr>"

definition get_page :: "heap \<Rightarrow> u64 \<Rightarrow> page" where
  "get_page h addr = pfndb h (page_for h addr)"

definition prev_order_from :: "u64 \<Rightarrow> int" where
  "prev_order_from sz =
     (if sz < page_size then -1 else sint (log2 (pre_pow2 sz) - 12))"

definition next_order_from :: "u64 \<Rightarrow> int" where
  "next_order_from sz =
     (if sz < page_size then -1 else sint (log2 (next_pow2 sz) - 12))"

definition put :: "heap \<Rightarrow> allocator \<Rightarrow> nat \<Rightarrow> u64 \<Rightarrow> heap \<times> allocator" where
  "put h a ord pg =
     (let hd = lists a ord;
          n = (nodes h)(pg := \<lparr>lprev = 0, lnext = hd\<rparr>);
          n = (if hd \<noteq> 0 then n(hd := (n hd)\<lparr>lprev := pg\<rparr>) else n)
      in (h\<lparr>nodes := n\<rparr>, a\<lparr>lists := (lists a)(ord := pg)\<rparr>))"

definition rem :: "heap \<Rightarrow> allocator \<Rightarrow> nat \<Rightarrow> (u64 \<times> heap \<times> allocator) outcome" where
  "rem h a ord =
     (let ret = lists a ord
      in if ret = 0 then Inl Null_deref
         else let nxt = lnext (nodes h ret);
                  a = a\<lparr>lists := (lists a)(ord := nxt)\<rparr>;
                  n = (if nxt \<noteq> 0 then (nodes h)(nxt := (nodes h nxt)\<lparr>lprev := 0\<rparr>) else nodes h)
              in Inr (ret, h\<lparr>nodes := n\<rparr>, a))"

definition has_pages :: "allocator \<Rightarrow> nat \<Rightarrow> bool" where
  "has_pages a ord \<longleftrightarrow> lists a ord \<noteq> 0"

text \<open>The local \<open>remove\<close> of \<open>coalesce_to\<close>: unlink a node from anywhere in its list.\<close>

definition unlink :: "heap \<Rightarrow> allocator \<Rightarrow> nat \<Rightarrow> u64 \<Rightarrow> heap \<times> allocator" where
  "unlink h a ord pg =
     (let p = lprev (nodes h pg); x = lnext (nodes h pg);
          n = (if p \<noteq> 0 then (nodes h)(p := (nodes h p)\<lparr>lnext := x\<rparr>) else nodes h);
          a = (if p \<noteq> 0 then a else a\<lparr>lists := (lists a)(ord := x)\<rparr>);
          x = lnext (n pg);
          n = (if x \<noteq> 0 then n(x := (n x)\<lparr>lprev := lprev (n pg)\<rparr>) else n)
      in (h\<lparr>nodes := n\<rparr>, a))"

definition in_range :: "heap \<Rightarrow> allocator \<Rightarrow> u64 \<Rightarrow> bool" where
  "in_range h a ptr = (let addr = fromhh (hhdm h) ptr in astart a \<le> addr \<and> addr < aend a)"

definition in_range_overlaps :: "allocator \<Rightarrow> u64 \<Rightarrow> u64 \<Rightarrow> bool" where
  "in_range_overlaps a rstart rend = range_overlaps rstart rend (astart a) (aend a)"

definition alloc_range_intersection :: "allocator \<Rightarrow> u64 \<Rightarrow> u64 \<Rightarrow> u64 \<times> u64" where
  "alloc_range_intersection a rstart rend = range_intersection rstart rend (astart a) (aend a)"

text \<open>
  The inner loop of \<open>add_range\<close>: lower the order until the base is aligned to it; \<open>None\<close>
  when \<open>order\<close> would pass below 0.
\<close>

fun align_order :: "u64 \<Rightarrow> nat \<Rightarrow> nat option" where
  "align_order base ord =
     (if base mod block_bytes ord \<noteq> 0
      then (case ord of 0 \<Rightarrow> None | Suc o' \<Rightarrow> align_order base o')
      else Some ord)"

declare align_order.simps [simp del]

lemma align_order_le: "align_order base ord = Some k \<Longrightarrow> k \<le> ord"
proof (induction ord)
  case 0
  then show ?case by (subst (asm) align_order.simps) (simp split: if_splits)
next
  case (Suc ord)
  then show ?case by (subst (asm) align_order.simps) (auto split: if_splits)
qed

lemma prev_order_from_eq:
  assumes "m \<le> 63" "2 ^ m \<le> unat sz" "unat sz < 2 ^ Suc m" "12 \<le> m" "unat sz \<le> 2 ^ 63"
  shows "prev_order_from sz = int (m - 12)"
proof -
  have ge: "\<not> sz < 0x1000"
    using assms(2) power_increasing [OF assms(4), of "2::nat"] by (simp add: word_less_nat_alt)
  have pre: "pre_pow2 sz = 2 ^ m"
  proof (cases "m < 63")
    case True
    then show ?thesis using assms by (intro pre_pow2_eq) auto
  next
    case False
    then have "m = 63" using assms(1) by simp
    then have "unat sz = 2 ^ 63" using assms by simp
    moreover have "next_pow2 sz = 2 ^ 63" using calculation by (intro next_pow2_eq) auto
    ultimately show ?thesis
      using \<open>m = 63\<close> by (simp add: pre_pow2_def word_unat_eq_iff)
  qed
  have "log2 (pre_pow2 sz) - 12 = of_nat (m - 12)"
    using assms(1,4) by (simp add: pre log2_2p of_nat_diff)
  then show ?thesis using ge assms(1) by (simp add: prev_order_from_def sint_small)
qed

lemma prev_order_from_bound:
  assumes "0 \<le> prev_order_from sz"
  shows "4096 * 2 ^ nat (prev_order_from sz) \<le> unat sz \<and> nat (prev_order_from sz) < 52"
proof -
  have ge: "4096 \<le> unat sz"
    using assms by (auto simp: prev_order_from_def word_less_nat_alt split: if_splits)
  then obtain m where m: "m < 64" "2 ^ m \<le> unat sz" "unat sz < 2 ^ Suc m"
    using unat_between_powers [of sz] by auto
  have m12: "12 \<le> m"
  proof (rule ccontr)
    assume "\<not> 12 \<le> m"
    then have "(2::nat) ^ Suc m \<le> 2 ^ 12" by (intro power_increasing) auto
    with m(3) ge show False by simp
  qed
  show ?thesis
  proof (cases "unat sz \<le> 2 ^ 63")
    case True
    then have "prev_order_from sz = int (m - 12)"
      using m m12 by (intro prev_order_from_eq) auto
    moreover have "(4096::nat) * 2 ^ (m - 12) = 2 ^ m"
      using m12 power_add [of "2::nat" 12 "m - 12"] by simp
    ultimately show ?thesis using m by simp
  next
    case False
    then have "next_pow2 sz = 0" by (intro next_pow2_big) simp
    then have "pre_pow2 sz = 0" using ge by (auto simp: pre_pow2_def Let_def)
    then have "log2 (pre_pow2 sz) = - 1"
      by (simp add: log2_def bit_width_def bit_width_nat.simps)
    then have "log2 (pre_pow2 sz) - 12 = - 13" by simp
    then have "prev_order_from sz = sint (- 13 :: u64) \<or> prev_order_from sz = -1"
      by (simp only: prev_order_from_def) auto
    moreover have "sint (- 13 :: u64) < 0" by simp
    ultimately show ?thesis using assms by auto
  qed
qed

lemma unat_block_bytes:
  assumes "k < 52" shows "unat (block_bytes k) = 4096 * 2 ^ k"
proof -
  have "(2::nat) ^ k < 2 ^ 52" using assms by (rule power_strict_increasing) simp
  moreover have "pow2 (of_nat k) = 2 ^ k" using assms by (simp add: pow2_eq unat_of_nat_small)
  ultimately show ?thesis
    using assms unat_2p [of k] by (simp add: block_bytes_def unat_word_ariths)
qed

lemma add_range_progress:
  assumes "0 \<le> prev_order_from sz" "align_order base (min (nat (prev_order_from sz)) max_order) = Some ord"
  shows "ord \<le> max_order" "4096 * 2 ^ ord \<le> unat sz" "unat (sz - block_bytes ord) = unat sz - 4096 * 2 ^ ord"
proof -
  have le: "ord \<le> min (nat (prev_order_from sz)) max_order"
    using assms(2) by (rule align_order_le)
  then show "ord \<le> max_order" by simp
  have "(2::nat) ^ ord \<le> 2 ^ nat (prev_order_from sz)"
    using le by (intro power_increasing) auto
  then show b: "4096 * 2 ^ ord \<le> unat sz"
    using prev_order_from_bound [OF assms(1)] by linarith
  show "unat (sz - block_bytes ord) = unat sz - 4096 * 2 ^ ord"
    using b le by (subst unat_sub_no_wrap) (simp_all add: word_le_nat_alt unat_block_bytes)
qed

text \<open>
  \<open>add_range\<close> on one allocator: what is left over is returned. The first component of the
  loop body constructs a \<open>list\<close> object at \<open>base\<close> before the order is known.
\<close>

function add_range_loop :: "heap \<Rightarrow> allocator \<Rightarrow> u64 \<Rightarrow> u64 \<Rightarrow> heap \<times> allocator \<times> u64" where
  "add_range_loop h a base sz =
     (if sz \<ge> page_size
      then let h = h\<lparr>nodes := (nodes h)(base := \<lparr>lprev = 0, lnext = 0\<rparr>)\<rparr>;
               sorder = prev_order_from sz
           in if sorder < 0 then (h, a, sz)
              else case align_order base (min (nat sorder) max_order) of
                None \<Rightarrow> (h, a, sz)
              | Some ord \<Rightarrow>
                  let h = set_page h base (\<lambda>p. p\<lparr>order := of_nat ord\<rparr>);
                      (h, a) = put h a ord base;
                      offset = block_bytes ord
                  in add_range_loop h a (base + offset) (sz - offset)
      else (h, a, sz))"
  by pat_completeness auto
termination
proof (relation "measure (\<lambda>(h, a, base, sz). unat sz)"; clarsimp simp del: min_def)
  fix sz base ord
  assume "\<not> prev_order_from sz < 0"
    and al: "align_order base (min (nat (prev_order_from sz)) max_order) = Some ord"
  then have "0 \<le> prev_order_from sz" by simp
  moreover have "0 < 4096 * (2::nat) ^ ord" by simp
  ultimately show "unat (sz - block_bytes ord) < unat sz"
    using add_range_progress [OF _ al] by linarith
qed

declare add_range_loop.simps [simp del]

definition alloc_add_range :: "heap \<Rightarrow> allocator \<Rightarrow> u64 \<Rightarrow> u64 \<Rightarrow> heap \<times> allocator \<times> u64" where
  "alloc_add_range h a base sz =
     (if base < astart a \<or> base + sz > aend a then (h, a, sz)
      else add_range_loop h a (tohh (hhdm h) base) sz)"

text \<open>\<open>split_to\<close>: find the lowest non-empty list above the target, then halve down to it.\<close>

function find_split :: "allocator \<Rightarrow> nat \<Rightarrow> nat option" where
  "find_split a current =
     (if lists a current = 0
      then (if current + 1 > max_order then None else find_split a (current + 1))
      else Some current)"
  by pat_completeness auto
termination
  by (relation "measure (\<lambda>(a, c). Suc max_order - c)") auto

declare find_split.simps [simp del]

primrec split_loop :: "heap \<Rightarrow> allocator \<Rightarrow> nat \<Rightarrow> nat \<Rightarrow> (heap \<times> allocator) outcome" where
  "split_loop h a target 0 = Inr (h, a)"
| "split_loop h a target (Suc current) =
     (if Suc current > target
      then case rem h a (Suc current) of Inl e \<Rightarrow> Inl e
        | Inr (pgaddr, h, a) \<Rightarrow>
            let buddy = pgaddr + block_bytes current
            in bug_on (allocated (get_page h pgaddr) \<noteq> 0)
              (bug_on (allocated (get_page h buddy) \<noteq> 0)
                (let h = set_page h pgaddr (\<lambda>p. p\<lparr>order := of_nat current\<rparr>);
                     h = set_page h buddy (\<lambda>p. p\<lparr>order := of_nat current\<rparr>);
                     h = set_page h buddy (\<lambda>p. p\<lparr>next_paddr := next_paddr (get_page h pgaddr)\<rparr>);
                     h = set_page h pgaddr (\<lambda>p. p\<lparr>next_paddr := ucast (drop_bit page_bits (fromhh (hhdm h) buddy))\<rparr>);
                     (h, a) = put h a current pgaddr;
                     (h, a) = put h a current buddy
                 in split_loop h a target current))
      else Inr (h, a))"

definition split_to :: "heap \<Rightarrow> allocator \<Rightarrow> nat \<Rightarrow> (heap \<times> allocator) outcome" where
  "split_to h a target =
     (case find_split a (target + 1) of None \<Rightarrow> Inr (h, a)
      | Some current \<Rightarrow> split_loop h a target current)"

text \<open>
  \<open>coalesce_to\<close>. The walk to the next candidate follows \<open>next\<close> pointers and the loop
  restarts from the head after every merge, so both are partial: \<open>None\<close> is a loop that
  does not end. \<open>Some None\<close> of the walk is \<open>goto end\<close>.
\<close>

partial_function (option) next_candidate :: "heap \<Rightarrow> u64 \<Rightarrow> u64 \<Rightarrow> u64 option option" where
  "next_candidate h next_block_size cur =
     (if next_paddr (get_page h cur) = 0 \<or> cur mod next_block_size \<noteq> 0
      then let cur = lnext (nodes h cur)
           in if cur = 0 then Some None else next_candidate h next_block_size cur
      else Some (Some cur))"

definition merge_with :: "heap \<Rightarrow> allocator \<Rightarrow> nat \<Rightarrow> u64 \<Rightarrow> u64 \<Rightarrow> heap \<times> allocator" where
  "merge_with h a ord cur buddy_addr =
     (let (h, a) = unlink h a ord cur;
          (h, a) = unlink h a ord buddy_addr;
          h = set_page h cur (\<lambda>p. p\<lparr>order := of_nat (ord + 1)\<rparr>);
          h = set_page h cur (\<lambda>p. p\<lparr>next_paddr := next_paddr (get_page h buddy_addr)\<rparr>)
      in put h a (ord + 1) cur)"

partial_function (option) coalesce_loop ::
  "heap \<Rightarrow> allocator \<Rightarrow> nat \<Rightarrow> u64 \<Rightarrow> ((heap \<times> allocator) outcome) option" where
  "coalesce_loop h a ord cur =
     (if \<not> has_pages a ord then Some (Inr (h, a))
      else Option.bind (next_candidate h (block_bytes (ord + 1)) cur) (\<lambda>cand.
        case cand of None \<Rightarrow> Some (Inr (h, a))
        | Some cur \<Rightarrow>
            if allocated (get_page h cur) \<noteq> 0 \<or> order (get_page h cur) \<noteq> of_nat ord then Some (Inl Bug_on)
            else let buddy_addr = tohh (hhdm h) (push_bit page_bits (ucast (next_paddr (get_page h cur))));
                     buddy_page = get_page h buddy_addr
                 in if allocated buddy_page \<noteq> 0 \<or> order buddy_page \<noteq> of_nat ord
                    then let cur = lnext (nodes h cur)
                         in if cur = 0 then Some (Inr (h, a)) else coalesce_loop h a ord cur
                    else let (h, a) = merge_with h a ord cur buddy_addr
                         in coalesce_loop h a ord (lists a ord)))"

fun coalesce_upto :: "heap \<Rightarrow> allocator \<Rightarrow> nat list \<Rightarrow> ((heap \<times> allocator) outcome) option" where
  "coalesce_upto h a [] = Some (Inr (h, a))"
| "coalesce_upto h a (ord # ords) =
     (case coalesce_loop h a ord (lists a ord) of None \<Rightarrow> None
      | Some (Inl e) \<Rightarrow> Some (Inl e)
      | Some (Inr (h, a)) \<Rightarrow> coalesce_upto h a ords)"

definition coalesce_to :: "heap \<Rightarrow> allocator \<Rightarrow> nat \<Rightarrow> ((heap \<times> allocator) outcome) option" where
  "coalesce_to h a target =
     (if target = 0 then Some (Inr (h, a))
      else coalesce_upto h a [0 ..< (if target > max_order then max_order else target)])"

definition alloc_free :: "heap \<Rightarrow> allocator \<Rightarrow> u64 \<Rightarrow> u64 \<Rightarrow> (heap \<times> allocator \<times> u64) outcome" where
  "alloc_free h a ptr npages =
     (let sz = npages * page_size; ord = next_order_from sz
      in if ord < 0 \<or> nat ord > max_order then Inr (h, a, 0)
         else bug_on (allocated (get_page h ptr) = 0)
           (bug_on (uint (order (get_page h ptr)) \<noteq> ord)
             (let h = set_page h ptr (\<lambda>p. p\<lparr>allocated := 0\<rparr>);
                  (h, a) = put h a (nat ord) (tohh (hhdm h) ptr)
              in Inr (h, a, sz))))"

definition take_block :: "heap \<Rightarrow> allocator \<Rightarrow> nat \<Rightarrow> (heap \<times> allocator \<times> u64 \<times> u64) outcome" where
  "take_block h a ord =
     (case rem h a ord of Inl e \<Rightarrow> Inl e
      | Inr (ret, h, a) \<Rightarrow>
          bug_on (allocated (get_page h ret) = 1)
            (bug_on (order (get_page h ret) \<noteq> of_nat ord)
              (let h = set_page h ret (\<lambda>p. p\<lparr>allocated := 1\<rparr>)
               in Inr (h, a, ret, block_bytes ord))))"

text \<open>\<open>alloc\<close> on one allocator: a null pointer and size 0 when nothing is found.\<close>

definition alloc_alloc :: "heap \<Rightarrow> allocator \<Rightarrow> u64 \<Rightarrow> ((heap \<times> allocator \<times> u64 \<times> u64) outcome) option" where
  "alloc_alloc h a npages =
     (let sz = npages * page_size; sorder = next_order_from sz
      in if sorder < 0 \<or> nat sorder > max_order then Some (Inr (h, a, 0, 0))
         else let ord = nat sorder
              in if has_pages a ord then Some (take_block h a ord)
                 else if ord = max_order
                 then (case coalesce_to h a max_order of None \<Rightarrow> None
                       | Some (Inl e) \<Rightarrow> Some (Inl e)
                       | Some (Inr (h, a)) \<Rightarrow>
                           if \<not> has_pages a ord then Some (Inr (h, a, 0, 0)) else Some (take_block h a ord))
                 else (case split_to h a ord of Inl e \<Rightarrow> Some (Inl e)
                       | Inr (h, a) \<Rightarrow>
                           if has_pages a ord then Some (take_block h a ord)
                           else if ord \<noteq> 0
                           then (case coalesce_to h a ord of None \<Rightarrow> None
                                 | Some (Inl e) \<Rightarrow> Some (Inl e)
                                 | Some (Inr (h, a)) \<Rightarrow>
                                     if \<not> has_pages a ord then Some (Inr (h, a, 0, 0))
                                     else Some (take_block h a ord))
                           else Some (Inr (h, a, 0, 0))))"

section \<open>The zones\<close>

definition sub1mib_init :: allocator where
  "sub1mib_init = \<lparr>astart = page_size, aend = mib 1, lists = (\<lambda>_. 0)\<rparr>"

definition sub4gib_init :: allocator where
  "sub4gib_init = \<lparr>astart = mib 1, aend = gib 4, lists = (\<lambda>_. 0)\<rparr>"

definition normal_init :: allocator where
  "normal_init = \<lparr>astart = gib 4, aend = - 1, lists = (\<lambda>_. 0)\<rparr>"

fun zone_of :: "pmm \<Rightarrow> zone \<Rightarrow> allocator" where
  "zone_of p Sub1mib = sub1mib p"
| "zone_of p Sub4gib = sub4gib p"
| "zone_of p Normal = normal p"

fun set_zone :: "pmm \<Rightarrow> zone \<Rightarrow> allocator \<Rightarrow> pmm" where
  "set_zone p Sub1mib a = p\<lparr>sub1mib := a\<rparr>"
| "set_zone p Sub4gib a = p\<lparr>sub4gib := a\<rparr>"
| "set_zone p Normal a = p\<lparr>normal := a\<rparr>"

definition set_used :: "pmm \<Rightarrow> (u64 \<Rightarrow> u64) \<Rightarrow> pmm" where
  "set_used p f = p\<lparr>mem := (mem p)\<lparr>used := f (used (mem p))\<rparr>\<rparr>"

definition set_usable :: "pmm \<Rightarrow> (u64 \<Rightarrow> u64) \<Rightarrow> pmm" where
  "set_usable p f = p\<lparr>mem := (mem p)\<lparr>usable := f (usable (mem p))\<rparr>\<rparr>"

text \<open>
  The local \<open>check_and_add\<close> of \<open>add_range\<close>, which also accumulates the bytes an allocator
  could not take.
\<close>

definition check_and_add :: "u64 \<Rightarrow> u64 \<Rightarrow> zone \<Rightarrow> pmm \<times> u64 \<Rightarrow> (pmm \<times> u64) outcome" where
  "check_and_add base sz z = (\<lambda>(p, wasted).
     let (s, e) = alloc_range_intersection (zone_of p z) base (base + sz)
     in if s < e
        then let (h, a, ret) = alloc_add_range (heap p) (zone_of p z) s (e - s)
             in bug_on (ret = e - s) (Inr (set_zone (p\<lparr>heap := h\<rparr>) z a, wasted + ret))
        else Inr (p, wasted))"

definition add_to_zones :: "pmm \<Rightarrow> u64 \<Rightarrow> u64 \<Rightarrow> (pmm \<times> u64) outcome" where
  "add_to_zones p base sz =
     (case check_and_add base sz Sub1mib (p, 0) of Inl e \<Rightarrow> Inl e
      | Inr r \<Rightarrow> (case check_and_add base sz Sub4gib r of Inl e \<Rightarrow> Inl e
        | Inr r \<Rightarrow> check_and_add base sz Normal r))"

definition add_range :: "pmm \<Rightarrow> u64 \<Rightarrow> u64 \<Rightarrow> bool \<Rightarrow> pmm outcome" where
  "add_range p base sz freeing =
     (if sz = 0 then Inr p
      else if \<not> freeing
      then let p = set_usable p (\<lambda>u. u + sz)
           in if sz < page_size then Inr (set_used p (\<lambda>u. u + sz))
              else if base = 0 \<and> sz < page_size * 2 then Inr p
              else let (p, base, sz) = (if base = 0 then (set_used p (\<lambda>u. u + page_size), base + page_size, sz - page_size)
                                        else (p, base, sz))
                   in (case add_to_zones p base sz of Inl e \<Rightarrow> Inl e
                       | Inr (p, wasted) \<Rightarrow> Inr (set_used p (\<lambda>u. u + wasted)))
      else if base = 0 \<and> sz < page_size * 2 then Inr p
      else let (base, sz) = (if base = 0 then (base + page_size, sz - page_size) else (base, sz))
           in (case add_to_zones p base sz of Inl e \<Rightarrow> Inl e
               | Inr (p, wasted) \<Rightarrow> Inr (set_used p (\<lambda>u. u - (sz - wasted)))))"

section \<open>The bootstrap allocator\<close>

text \<open>The loop that picks the largest usable entry; the index starts at \<open>size_t(-1)\<close>.\<close>

fun largest_usable :: "memmap_entry list \<Rightarrow> u64 \<Rightarrow> u64 \<Rightarrow> u64 \<Rightarrow> u64 \<times> u64" where
  "largest_usable [] i max_size idx = (max_size, idx)"
| "largest_usable (m # ms) i max_size idx =
     (if mm_type m \<noteq> MM_usable then largest_usable ms (i + 1) max_size idx
      else if mm_length m > max_size then largest_usable ms (i + 1) (mm_length m) i
      else largest_usable ms (i + 1) max_size idx)"

definition bootstrap_setup :: "pmm \<Rightarrow> pmm outcome" where
  "bootstrap_setup p =
     (if bootstrap_once p then Inr p
      else let (max_size, idx) = largest_usable (memmaps p) 0 0 (- 1)
           in bug_on (max_size = 0 \<or> idx = - 1)
             (let m = memmaps p ! unat idx
              in Inr (p\<lparr>bootstrap_once := True, bootstrap_memmap_idx := idx,
                       bootstrap_memmap := m\<lparr>mm_length := align_down (mm_length m) page_size\<rparr>\<rparr>)))"

definition bootstrap_alloc :: "pmm \<Rightarrow> u64 \<Rightarrow> (pmm \<times> u64) outcome" where
  "bootstrap_alloc p npages =
     bug_on (npages \<noteq> 1)
       (case bootstrap_setup p of Inl e \<Rightarrow> Inl e
        | Inr p \<Rightarrow>
            let m = bootstrap_memmap p
            in if mm_length m < npages * page_size
               then Inl (Panic_msg ''pmm: bootstrap allocator is out of memory'')
               else let ret = mm_base m + mm_length m - npages * page_size
                    in if ret < mib 1
                       then Inl (Panic_msg ''pmm: bootstrap allocator tried to allocate memory below 1 MiB'')
                       else Inr (p\<lparr>bootstrap_memmap := m\<lparr>mm_length := mm_length m - npages * page_size\<rparr>\<rparr>,
                                 tohh (hhdm (heap p)) ret))"

section \<open>The interface of the memory manager\<close>

definition info :: "pmm \<Rightarrow> memory" where
  "info p = mem p"

text \<open>One zone's \<open>alloc\<close>, with the shared heap threaded through.\<close>

definition zone_alloc :: "pmm \<Rightarrow> zone \<Rightarrow> u64 \<Rightarrow> ((pmm \<times> u64 \<times> u64) outcome) option" where
  "zone_alloc p z npages =
     (case alloc_alloc (heap p) (zone_of p z) npages of None \<Rightarrow> None
      | Some (Inl e) \<Rightarrow> Some (Inl e)
      | Some (Inr (h, a, ptr, sz)) \<Rightarrow> Some (Inr (set_zone (p\<lparr>heap := h\<rparr>) z a, ptr, sz)))"

text \<open>
  \<open>std::memset(ret, 0, size)\<close> on the store the free lists live in: every object in the
  block is zeroed.
\<close>

definition clear_pages :: "heap \<Rightarrow> u64 \<Rightarrow> u64 \<Rightarrow> heap" where
  "clear_pages h ptr sz =
     h\<lparr>nodes := (\<lambda>z. if unat ptr \<le> unat z \<and> unat z < unat ptr + unat sz then \<lparr>lprev = 0, lnext = 0\<rparr> else nodes h z)\<rparr>"

definition pick_block :: "pmm \<Rightarrow> u64 \<Rightarrow> zone \<Rightarrow> ((pmm \<times> u64 \<times> u64) outcome) option" where
  "pick_block p npages tp =
     (if initialised p
      then if tp = Normal
           then (case zone_alloc p Normal npages of
                   Some (Inr (p, ptr, sz)) \<Rightarrow>
                     if ptr \<noteq> 0 then Some (Inr (p, ptr, sz))
                     else if bootstrap_memmap_idx p \<noteq> - 1
                     then (case bootstrap_alloc p npages of Inl e \<Rightarrow> Some (Inl e)
                           | Inr (p, ptr) \<Rightarrow>
                               if ptr = 0 then zone_alloc p Sub4gib npages
                               else Some (Inr (p, ptr, npages * page_size)))
                     else zone_alloc p Sub4gib npages
                 | r \<Rightarrow> r)
           else zone_alloc p tp npages
      else (case bootstrap_alloc p npages of Inl e \<Rightarrow> Some (Inl e)
            | Inr (p, ptr) \<Rightarrow> Some (Inr (p, ptr, npages * page_size))))"

definition alloc :: "pmm \<Rightarrow> u64 \<Rightarrow> bool \<Rightarrow> zone \<Rightarrow> ((pmm \<times> u64) outcome) option" where
  "alloc p npages clear tp =
     (if npages = 0 then Some (Inr (p, 0))
      else case pick_block p npages tp of None \<Rightarrow> None
        | Some (Inl e) \<Rightarrow> Some (Inl e)
        | Some (Inr (p, ptr, sz)) \<Rightarrow>
            if ptr = 0 then Some (Inl (Panic_msg ''pmm: could not allocate''))
            else let p = (if clear then p\<lparr>heap := clear_pages (heap p) ptr (npages * page_size)\<rparr> else p)
                 in Some (Inr (set_used p (\<lambda>u. u + sz), fromhh (hhdm (heap p)) ptr)))"

definition zone_free :: "pmm \<Rightarrow> zone \<Rightarrow> u64 \<Rightarrow> u64 \<Rightarrow> pmm outcome" where
  "zone_free p z ptr npages =
     (case alloc_free (heap p) (zone_of p z) ptr npages of Inl e \<Rightarrow> Inl e
      | Inr (h, a, sz) \<Rightarrow> Inr (set_used (set_zone (p\<lparr>heap := h\<rparr>) z a) (\<lambda>u. u - sz)))"

definition free :: "pmm \<Rightarrow> u64 \<Rightarrow> u64 \<Rightarrow> pmm outcome" where
  "free p ptr npages =
     (if npages = 0 \<or> ptr = 0 then Inr p
      else if initialised p
      then if in_range (heap p) (sub1mib p) ptr then zone_free p Sub1mib ptr npages
           else if in_range (heap p) (sub4gib p) ptr then zone_free p Sub4gib ptr npages
           else if in_range (heap p) (normal p) ptr then zone_free p Normal ptr npages
           else Inl (Panic_msg ''pmm: attempted to free memory outside managed ranges'')
      else Inl (Panic_msg ''pmm: attempted to free bootstrap memory''))"

fun reclaim_loop :: "memmap_entry list \<Rightarrow> pmm \<Rightarrow> pmm outcome" where
  "reclaim_loop [] p = Inr p"
| "reclaim_loop (m # ms) p =
     (if mm_type m \<noteq> MM_bootloader then reclaim_loop ms p
      else case add_range p (mm_base m) (mm_length m) True of Inl e \<Rightarrow> Inl e | Inr p \<Rightarrow> reclaim_loop ms p)"

definition reclaim_bootloader_memory :: "pmm \<Rightarrow> pmm outcome" where
  "reclaim_bootloader_memory p = reclaim_loop (memmaps p) p"

end
