(* ===== verification/Pmm_Lists.thy ===== *)
theory Pmm_Lists
  imports Pmm
begin

text \<open>
  The free lists of the buddy allocator. \<open>lists_ok h a fl\<close> says that the doubly linked lists
  in the heap \<open>h\<close> headed by the allocator \<open>a\<close> hold, order by order, exactly the addresses
  \<open>fl\<close>; the operations \<open>put\<close>, \<open>rem\<close> and \<open>unlink\<close> are related to cons, tail and deletion on
  \<open>fl\<close>.
\<close>

fun dll :: "(u64 \<Rightarrow> list_node) \<Rightarrow> u64 \<Rightarrow> u64 \<Rightarrow> u64 list \<Rightarrow> bool" where
  "dll n p x [] \<longleftrightarrow> x = 0"
| "dll n p x (y # ys) \<longleftrightarrow> x = y \<and> y \<noteq> 0 \<and> lprev (n y) = p \<and> dll n y (lnext (n y)) ys"

definition disjoint_lists :: "(nat \<Rightarrow> u64 list) \<Rightarrow> bool" where
  "disjoint_lists fl \<longleftrightarrow>
     (\<forall>k. distinct (fl k)) \<and> (\<forall>j k x. x \<in> set (fl j) \<longrightarrow> x \<in> set (fl k) \<longrightarrow> j = k)"

definition lists_ok :: "heap \<Rightarrow> allocator \<Rightarrow> (nat \<Rightarrow> u64 list) \<Rightarrow> bool" where
  "lists_ok h a fl \<longleftrightarrow>
     (\<forall>k. dll (nodes h) 0 (lists a k) (fl k)) \<and> disjoint_lists fl"

definition same_pages :: "heap \<Rightarrow> heap \<Rightarrow> bool" where
  "same_pages h h' \<longleftrightarrow> hhdm h' = hhdm h \<and> pfndb h' = pfndb h"

section \<open>Doubly linked lists\<close>

lemma dll_cong: "(\<And>x. x \<in> set xs \<Longrightarrow> n' x = n x) \<Longrightarrow> dll n' p h xs = dll n p h xs"
  by (induction xs arbitrary: p h) auto

lemma dll_nonzero: "dll n p h xs \<Longrightarrow> 0 \<notin> set xs"
  by (induction xs arbitrary: p h) auto

lemma dll_head: "dll n p h xs \<Longrightarrow> h = (case xs of [] \<Rightarrow> 0 | x # _ \<Rightarrow> x)"
  by (cases xs) auto

lemma dll_empty_iff: "dll n p h xs \<Longrightarrow> h = 0 \<longleftrightarrow> xs = []"
  by (cases xs) auto

lemma dll_set_prev:
  "dll n p h (y # ys) \<Longrightarrow> y \<notin> set ys \<Longrightarrow> dll (n(y := (n y)\<lparr>lprev := q\<rparr>)) q h (y # ys)"
proof -
  assume y: "y \<notin> set ys" and d: "dll n p h (y # ys)"
  have "dll (n(y := (n y)\<lparr>lprev := q\<rparr>)) y (lnext (n y)) ys = dll n y (lnext (n y)) ys"
    using y by (intro dll_cong) auto
  with d show ?thesis by simp
qed

lemma dll_unlink:
  assumes "dll n p h (us @ x # vs)" "distinct (us @ x # vs)"
  defines "q \<equiv> lprev (n x)" and "y \<equiv> lnext (n x)"
  defines "n1 \<equiv> (if us = [] then n else n(q := (n q)\<lparr>lnext := y\<rparr>))"
  shows "dll (if y = 0 then n1 else n1(y := (n1 y)\<lparr>lprev := q\<rparr>)) p (if us = [] then y else h) (us @ vs)"
    and "us = [] \<Longrightarrow> q = p" and "us \<noteq> [] \<Longrightarrow> q = last us"
  using assms(1,2) unfolding n1_def
proof (induction us arbitrary: p h)
  case Nil
  {
    case 1
    then show ?case
    proof (cases vs)
      case (Cons v vs')
      with 1 have "dll n x y (v # vs')" "v \<notin> set vs'" "y = v" "y \<noteq> 0" by (auto simp: y_def)
      with dll_set_prev [of n x y v vs' p] 1 Cons show ?thesis by (simp add: q_def fun_upd_def)
    qed (auto simp: y_def)
  next
    case 2 then show ?case by (simp add: q_def)
  next
    case 3 then show ?case by simp
  }
next
  case (Cons u us)
  {
    case 1
    have tl: "dll n u (lnext (n u)) (us @ x # vs)" "distinct (us @ x # vs)" using 1 by auto
    have yv: "y \<in> set vs \<or> y = 0"
    proof -
      have "dll n p' h' (ws @ x # vs) \<Longrightarrow> lnext (n x) \<in> set vs \<or> lnext (n x) = 0" for p' h' ws
        by (induction ws arbitrary: p' h') (cases vs; auto)+
      then show ?thesis using tl(1) by (auto simp: y_def)
    qed
    show ?case
    proof (cases "us = []")
      case True
      then have "q = u" using Cons.IH(2) [OF _ tl] by simp
      moreover have "dll (if y = 0 then n else n(y := (n y)\<lparr>lprev := q\<rparr>)) u y vs"
        using Cons.IH(1) [OF tl] True by (simp add: fun_upd_def split: if_splits)
      then have "dll (if y = 0 then n(u := (n u)\<lparr>lnext := y\<rparr>) else (n(u := (n u)\<lparr>lnext := y\<rparr>))(y := ((n(u := (n u)\<lparr>lnext := y\<rparr>)) y)\<lparr>lprev := q\<rparr>)) u y vs"
        by (rule dll_cong [THEN iffD1, rotated]) (use 1 True yv in auto)
      ultimately show ?thesis using 1 True yv by auto
    next
      case False
      then have "q \<in> set us" using Cons.IH(3) [OF _ tl] by simp
      moreover have "u \<notin> set us" "u \<noteq> y" using 1 yv by auto
      ultimately show ?thesis using 1 False Cons.IH(1) [OF tl] by (auto simp: fun_upd_def)
    qed
  next
    case 2 then show ?case by simp
  next
    case 3
    then have tl: "dll n u (lnext (n u)) (us @ x # vs)" "distinct (us @ x # vs)" by auto
    show ?case using Cons.IH(2,3) [OF _ tl] by auto
  }
qed

lemma dll_neighbours:
  assumes "dll n p h (us @ x # vs)"
  shows "lnext (n x) \<in> set vs \<or> lnext (n x) = 0 \<and> vs = []" "dll n x (lnext (n x)) vs"
proof -
  have "dll n x (lnext (n x)) vs" using assms by (induction us arbitrary: p h) auto
  then show "dll n x (lnext (n x)) vs" "lnext (n x) \<in> set vs \<or> lnext (n x) = 0 \<and> vs = []"
    by (cases vs; auto)+
qed

section \<open>The list operations\<close>

lemma lists_ok_unique: "lists_ok h a fl \<Longrightarrow> x \<in> set (fl j) \<Longrightarrow> x \<in> set (fl k) \<Longrightarrow> j = k"
  unfolding lists_ok_def disjoint_lists_def by blast

lemma disjoint_lists_push:
  "disjoint_lists fl \<Longrightarrow> (\<And>k. x \<notin> set (fl k)) \<Longrightarrow> disjoint_lists (fl(k := x # fl k))"
  unfolding disjoint_lists_def by (auto split: if_splits)

lemma disjoint_lists_shrink:
  "disjoint_lists fl \<Longrightarrow> set xs \<subseteq> set (fl k) \<Longrightarrow> distinct xs \<Longrightarrow> disjoint_lists (fl(k := xs))"
  unfolding disjoint_lists_def by (auto split: if_splits)


lemma put_lists:
  assumes ok: "lists_ok h a fl" and pg: "pg \<noteq> 0" "\<And>k. pg \<notin> set (fl k)" and r: "put h a k pg = (h', a')"
  shows "lists_ok h' a' (fl(k := pg # fl k))" "same_pages h h'"
    "\<And>x. x \<noteq> pg \<Longrightarrow> x \<notin> set (fl k) \<Longrightarrow> nodes h' x = nodes h x"
    "astart a' = astart a" "aend a' = aend a"
proof -
  define hd where "hd = lists a k"
  define n1 where "n1 = (nodes h)(pg := \<lparr>lprev = 0, lnext = hd\<rparr>)"
  define n2 where "n2 = (if hd \<noteq> 0 then n1(hd := (n1 hd)\<lparr>lprev := pg\<rparr>) else n1)"
  have h': "h' = h\<lparr>nodes := n2\<rparr>" "a' = a\<lparr>lists := (lists a)(k := pg)\<rparr>"
    using r by (auto simp: put_def Let_def hd_def n1_def n2_def)
  have dll: "dll (nodes h) 0 (lists a j) (fl j)" and dist: "distinct (fl j)" and dl: "disjoint_lists fl" for j
    using ok by (auto simp: lists_ok_def disjoint_lists_def)
  have hdk: "hd = (case fl k of [] \<Rightarrow> 0 | x # _ \<Rightarrow> x)"
    using dll [of k] by (simp add: hd_def dll_head)
  have n1: "dll n1 0 (lists a j) (fl j)" for j
    using dll [of j] pg by (subst dll_cong [where n = "nodes h"]) (auto simp: n1_def)
  have other: "dll n2 0 (lists a j) (fl j)" if "j \<noteq> k" for j
  proof -
    have "hd \<noteq> 0 \<Longrightarrow> hd \<notin> set (fl j)"
      using lists_ok_unique [OF ok, of hd j k] that hdk by (cases "fl k") auto
    then show ?thesis
      using n1 [of j] by (subst dll_cong [where n = n1]) (auto simp: n2_def)
  qed
  have "dll n2 pg hd (fl k)"
  proof (cases "fl k")
    case Nil
    then show ?thesis using hdk by simp
  next
    case (Cons y ys)
    then have "hd = y" "y \<notin> set ys" "y \<noteq> 0"
      using hdk dist [of k] dll_nonzero [OF dll [of k]] by auto
    then show ?thesis using dll_set_prev [of n1 0 hd y ys pg] n1 [of k] Cons
      by (simp add: n2_def hd_def)
  qed
  moreover have "n2 pg = \<lparr>lprev = 0, lnext = hd\<rparr>"
    using pg(1) pg(2) [of k] hdk by (cases "fl k") (auto simp: n2_def n1_def)
  ultimately have "dll n2 0 pg (pg # fl k)" using pg by simp
  then show "lists_ok h' a' (fl(k := pg # fl k))"
    using disjoint_lists_push [OF dl pg(2)] other by (simp add: lists_ok_def h')
  show "same_pages h h'" by (simp add: same_pages_def h')
  show "nodes h' x = nodes h x" if "x \<noteq> pg" "x \<notin> set (fl k)" for x
    using that hdk by (cases "fl k") (auto simp: h' n2_def n1_def)
qed (use r in \<open>auto simp: put_def Let_def\<close>)

lemma rem_lists:
  assumes ok: "lists_ok h a fl" and k: "fl k = x # xs"
  obtains h' a' where "rem h a k = Inr (x, h', a')" "lists_ok h' a' (fl(k := xs))" "same_pages h h'"
    "\<And>y. y \<notin> set (fl k) \<Longrightarrow> nodes h' y = nodes h y"
    "astart a' = astart a" "aend a' = aend a"
proof -
  have dll: "dll (nodes h) 0 (lists a j) (fl j)" and dist: "distinct (fl j)" and dl: "disjoint_lists fl" for j
    using ok by (auto simp: lists_ok_def disjoint_lists_def)
  have x: "lists a k = x" "x \<noteq> 0" "dll (nodes h) x (lnext (nodes h x)) xs"
    using dll [of k] k by auto
  define nx where "nx = lnext (nodes h x)"
  define n where "n = (if nx \<noteq> 0 then (nodes h)(nx := (nodes h nx)\<lparr>lprev := 0\<rparr>) else nodes h)"
  define h' where "h' = h\<lparr>nodes := n\<rparr>"
  define a' where "a' = a\<lparr>lists := (lists a)(k := nx)\<rparr>"
  have nx: "nx = (case xs of [] \<Rightarrow> 0 | y # _ \<Rightarrow> y)" using x(3) by (simp add: nx_def dll_head)
  have xk: "dll n 0 nx xs"
  proof (cases xs)
    case (Cons y ys)
    then have "nx = y" "y \<noteq> 0" "y \<notin> set ys" using nx x(3) dist [of k] k by auto
    then show ?thesis using dll_set_prev [of "nodes h" x y y ys 0] x(3) Cons by (simp add: n_def nx_def)
  qed (simp add: nx)
  have "dll n 0 (lists a j) (fl j)" if "j \<noteq> k" for j
  proof -
    have "nx \<noteq> 0 \<Longrightarrow> nx \<notin> set (fl j)"
      using lists_ok_unique [OF ok, of nx j k] that nx k by (cases xs) auto
    then show ?thesis using dll [of j] by (subst dll_cong [where n = "nodes h"]) (auto simp: n_def)
  qed
  with xk have "lists_ok h' a' (fl(k := xs))"
    using disjoint_lists_shrink [OF dl, of xs k] k dist [of k] by (auto simp: lists_ok_def h'_def a'_def)
  moreover have "rem h a k = Inr (x, h', a')"
    using x by (simp add: rem_def Let_def h'_def a'_def n_def nx_def)
  moreover have "nodes h' y = nodes h y" if "y \<notin> set (fl k)" for y
    using that nx k by (cases xs) (auto simp: h'_def n_def)
  moreover have "same_pages h h'" "astart a' = astart a" "aend a' = aend a"
    by (simp_all add: same_pages_def h'_def a'_def)
  ultimately show ?thesis using that by blast
qed

lemma unlink_lists:
  assumes ok: "lists_ok h a fl" and x: "x \<in> set (fl k)" and r: "unlink h a k x = (h', a')"
  shows "lists_ok h' a' (fl(k := remove1 x (fl k)))" "same_pages h h'"
    "\<And>y. y \<notin> set (fl k) \<Longrightarrow> nodes h' y = nodes h y"
    "astart a' = astart a" "aend a' = aend a"
proof -
  have dll: "dll (nodes h) 0 (lists a j) (fl j)" and dist: "distinct (fl j)" and dl: "disjoint_lists fl" for j
    using ok by (auto simp: lists_ok_def disjoint_lists_def)
  obtain us vs where flk: "fl k = us @ x # vs" using split_list [OF x] by blast
  define n where "n = nodes h"
  define q where "q = lprev (n x)"
  define y where "y = lnext (n x)"
  define n1 where "n1 = (if us = [] then n else n(q := (n q)\<lparr>lnext := y\<rparr>))"
  define n2 where "n2 = (if y = 0 then n1 else n1(y := (n1 y)\<lparr>lprev := q\<rparr>))"
  have d: "dll n 0 (lists a k) (us @ x # vs)" "distinct (us @ x # vs)"
    using dll [of k] dist [of k] by (simp_all add: n_def flk)
  note U = dll_unlink [OF d, folded q_def y_def, folded n1_def n2_def]
  have q: "q = 0 \<longleftrightarrow> us = []"
    using U(2,3) dll_nonzero [OF d(1)] last_in_set [of us] by (cases "us = []") force+
  have "q \<noteq> x" "y \<noteq> x \<or> y = 0"
    using U(2,3) d(2) dll_neighbours(1) [OF d(1)] dll_nonzero [OF d(1)] last_in_set [of us]
    by (cases "us = []"; auto simp: y_def)+
  then have nx: "n1 x = n x" by (simp add: n1_def)
  have h': "h' = h\<lparr>nodes := n2\<rparr>" "a' = (if us = [] then a\<lparr>lists := (lists a)(k := y)\<rparr> else a)"
    using r q nx unfolding unlink_def Let_def n_def [symmetric] q_def [symmetric] y_def [symmetric]
    by (auto simp: n1_def n2_def q_def y_def)
  have out: "n2 z = n z" if "z \<notin> set (fl k)" for z
  proof -
    have "us \<noteq> [] \<Longrightarrow> q \<in> set us" using U(3) by simp
    moreover have "y \<noteq> 0 \<Longrightarrow> y \<in> set vs" using dll_neighbours(1) [OF d(1)] by (auto simp: y_def)
    ultimately show ?thesis using that flk by (auto simp: n2_def n1_def)
  qed
  have "dll n2 0 (lists a j) (fl j)" if "j \<noteq> k" for j
    using dll [of j] out lists_ok_unique [OF ok, of _ j k] that
    by (subst dll_cong [where n = n]) (auto simp: n_def)
  moreover have "us @ vs = remove1 x (fl k)" using d(2) flk by (simp add: remove1_append)
  ultimately show "lists_ok h' a' (fl(k := remove1 x (fl k)))"
    using U(1) disjoint_lists_shrink [OF dl, of "remove1 x (fl k)" k] dist [of k] set_remove1_subset [of x "fl k"]
    by (auto simp: lists_ok_def h')
  show "same_pages h h'" by (simp add: same_pages_def h')
  show "nodes h' y = nodes h y" if "y \<notin> set (fl k)" for y
    using out [OF that] by (simp add: h' n_def)
qed (use r in \<open>auto simp: unlink_def Let_def\<close>)

lemma has_pages_lists: "lists_ok h a fl \<Longrightarrow> has_pages a k \<longleftrightarrow> fl k \<noteq> []"
  using dll_empty_iff [of "nodes h" 0 "lists a k" "fl k"] by (simp add: lists_ok_def has_pages_def)

end
