(* ===== verification/Pmm_Blocks.thy ===== *)
theory Pmm_Blocks
  imports Pmm_Lists
begin

text \<open>
  The block structure of an allocator: the free blocks \<open>F\<close> and the allocated blocks \<open>A\<close> are
  aligned, pairwise disjoint and described correctly by the page-frame database. The lemmas
  say how the database changes of a split, a merge, an allocation, a release and an added
  range carry this invariant over.
\<close>

section \<open>The invariant\<close>

definition bsize :: "nat \<Rightarrow> nat" where
  "bsize k = 4096 * 2 ^ k"

definition brange :: "u64 \<times> nat \<Rightarrow> nat set" where
  "brange b = {unat (fst b) ..< unat (fst b) + bsize (snd b)}"

definition region :: "(u64 \<times> nat) set \<Rightarrow> nat set" where
  "region B = (\<Union>b\<in>B. brange b)"

definition free_blocks :: "(nat \<Rightarrow> u64 list) \<Rightarrow> (u64 \<times> nat) set" where
  "free_blocks fl = {(x, k). x \<in> set (fl k)}"

definition hhdm_ok :: "heap \<Rightarrow> bool" where
  "hhdm_ok h \<longleftrightarrow> 2 ^ 48 \<le> unat (hhdm h) \<and> unat (hhdm h) + 2 ^ 47 \<le> 2 ^ 64 \<and> 4096 dvd unat (hhdm h)"

text \<open>A page-aligned address in the direct map.\<close>

definition hpage :: "heap \<Rightarrow> u64 \<Rightarrow> bool" where
  "hpage h z \<longleftrightarrow> 4096 dvd unat z \<and> unat (hhdm h) \<le> unat z \<and> unat z < unat (hhdm h) + 2 ^ 46"

definition block_ok :: "heap \<Rightarrow> allocator \<Rightarrow> u64 \<times> nat \<Rightarrow> bool" where
  "block_ok h a b \<longleftrightarrow>
     snd b \<le> max_order \<and> bsize (snd b) dvd unat (fst b) \<and>
     unat (hhdm h) + unat (astart a) \<le> unat (fst b) \<and>
     unat (fst b) + bsize (snd b) \<le> unat (hhdm h) + unat (aend a) \<and>
     unat (fst b) + bsize (snd b) \<le> unat (hhdm h) + 2 ^ 46"

definition page_frame :: "heap \<Rightarrow> u64 \<Rightarrow> 36 word" where
  "page_frame h z = ucast (drop_bit page_bits (fromhh (hhdm h) z))"

definition next_ok :: "heap \<Rightarrow> (u64 \<times> nat) set \<Rightarrow> u64 \<times> nat \<Rightarrow> bool" where
  "next_ok h L b \<longleftrightarrow>
     next_paddr (get_page h (fst b)) = 0 \<or>
     (let y = fst b + block_bytes (snd b)
      in next_paddr (get_page h (fst b)) = page_frame h y \<and> y \<in> fst ` L)"

definition pairwise_apart :: "(u64 \<times> nat) set \<Rightarrow> bool" where
  "pairwise_apart L \<longleftrightarrow> (\<forall>b\<in>L. \<forall>c\<in>L. b \<noteq> c \<longrightarrow> brange b \<inter> brange c = {})"

definition blocks_ok :: "heap \<Rightarrow> allocator \<Rightarrow> (u64 \<times> nat) set \<Rightarrow> (u64 \<times> nat) set \<Rightarrow> bool" where
  "blocks_ok h a F A \<longleftrightarrow>
     hhdm_ok h \<and> (\<forall>b\<in>F \<union> A. block_ok h a b) \<and> pairwise_apart (F \<union> A) \<and> F \<inter> A = {} \<and>
     (\<forall>b\<in>F \<union> A. order (get_page h (fst b)) = of_nat (snd b)) \<and>
     (\<forall>b\<in>F. allocated (get_page h (fst b)) = 0) \<and> (\<forall>b\<in>A. allocated (get_page h (fst b)) = 1) \<and>
     (\<forall>b\<in>F \<union> A. \<forall>z. unat z \<in> brange b \<longrightarrow> 4096 dvd unat z \<longrightarrow> z \<noteq> fst b \<longrightarrow> allocated (get_page h z) = 0) \<and>
     (\<forall>b\<in>F \<union> A. next_ok h (F \<union> A) b)"

definition buddy_inv :: "heap \<Rightarrow> allocator \<Rightarrow> (nat \<Rightarrow> u64 list) \<Rightarrow> (u64 \<times> nat) set \<Rightarrow> bool" where
  "buddy_inv h a fl A \<longleftrightarrow> lists_ok h a fl \<and> blocks_ok h a (free_blocks fl) A"

definition only_touches :: "nat set \<Rightarrow> heap \<Rightarrow> heap \<Rightarrow> bool" where
  "only_touches R h h' \<longleftrightarrow> hhdm h' = hhdm h \<and>
     (\<forall>z. unat z \<notin> R \<longrightarrow> nodes h' z = nodes h z \<and> (hpage h z \<longrightarrow> get_page h' z = get_page h z))"

section \<open>Geometry\<close>

lemma bsize_pos [simp]: "0 < bsize k" by (simp add: bsize_def)

lemma bsize_Suc: "bsize (Suc k) = 2 * bsize k" by (simp add: bsize_def)

lemma page_dvd_bsize: "4096 dvd bsize k" by (simp add: bsize_def)

lemma bsize_dvd_Suc: "bsize k dvd bsize (Suc k)" by (simp add: bsize_def)

lemma unat_block_bytes_bsize: "k \<le> Suc max_order \<Longrightarrow> unat (block_bytes k) = bsize k"
  by (simp add: unat_block_bytes bsize_def)

lemma brange_fst [simp]: "unat x \<in> brange (x, k)" by (simp add: brange_def)

lemma brange_halves:
  "unat y = unat x + bsize k \<Longrightarrow> brange (x, Suc k) = brange (x, k) \<union> brange (y, k)"
  by (auto simp: brange_def bsize_Suc)

lemma block_ok_hpage:
  assumes "hhdm_ok h" "block_ok h a (x, k)" shows "hpage h x"
proof -
  have "4096 dvd unat x" using assms(2) page_dvd_bsize dvd_trans by (fastforce simp: block_ok_def)
  moreover have "0 < bsize k" by simp
  ultimately show ?thesis using assms(2) unfolding hpage_def block_ok_def fst_conv snd_conv by linarith
qed

lemma hpage_fromhh: "hpage h z \<Longrightarrow> unat (fromhh (hhdm h) z) = unat z - unat (hhdm h)"
  by (simp add: fromhh_def ishh_def hpage_def word_le_nat_alt unat_sub_no_wrap)

lemma unat_page_for: "hpage h z \<Longrightarrow> unat (page_for h z) = (unat z - unat (hhdm h)) div 4096"
  by (simp add: page_for_def unat_div_distrib hpage_fromhh)

lemma page_for_inj:
  assumes "hhdm_ok h" "hpage h x" "hpage h y"
  shows "page_for h x = page_for h y \<longleftrightarrow> x = y"
proof
  assume "page_for h x = page_for h y"
  then have "unat (page_for h x) = unat (page_for h y)" by simp
  then have "(unat x - unat (hhdm h)) div 4096 = (unat y - unat (hhdm h)) div 4096"
    using assms by (simp add: unat_page_for)
  moreover have "4096 dvd unat x - unat (hhdm h)" "4096 dvd unat y - unat (hhdm h)"
    using assms by (auto simp: hpage_def hhdm_ok_def intro: dvd_diff_nat)
  ultimately have "unat x - unat (hhdm h) = unat y - unat (hhdm h)"
    by (metis dvd_div_eq_iff)
  moreover have "unat (hhdm h) \<le> unat x" "unat (hhdm h) \<le> unat y" using assms by (auto simp: hpage_def)
  ultimately have "unat x = unat y" by linarith
  then show "x = y" by (simp add: word_unat_eq_iff)
qed simp

lemma frame_roundtrip:
  assumes "hhdm_ok h" "hpage h y"
  shows "tohh (hhdm h) (push_bit page_bits (ucast (page_frame h y))) = y"
proof -
  define v where "v = fromhh (hhdm h) y"
  have v: "unat v = unat y - unat (hhdm h)" "unat v < 2 ^ 47" "4096 dvd unat v"
    using assms hpage_fromhh [OF assms(2)]
    by (auto simp: v_def hpage_def hhdm_ok_def intro: dvd_diff_nat)
  have "unat (drop_bit 12 v) = unat v div 4096"
    by (simp add: unsigned_drop_bit_eq drop_bit_eq_div unat_div_distrib)
  then have "unat (ucast (ucast (drop_bit 12 v) :: 36 word) :: u64) = unat v div 4096"
    using v(2) by (simp add: unsigned_ucast_eq unsigned_take_bit_eq take_bit_nat_eq_self less_mult_imp_div_less)
  then have "unat (push_bit 12 (ucast (ucast (drop_bit 12 v) :: 36 word)) :: u64) = unat v"
    using v(2,3) by (simp add: push_bit_eq_mult unat_word_ariths mult.commute)
  then have "push_bit page_bits (ucast (page_frame h y)) = v"
    by (simp add: page_frame_def v_def [symmetric] word_unat_eq_iff)
  moreover have "tohh (hhdm h) v = y"
    unfolding v_def using assms
    by (intro tohh_fromhh) (auto simp: ishh_def hpage_def hhdm_ok_def word_le_nat_alt)
  ultimately show ?thesis by simp
qed

lemma get_set_page:
  assumes "hhdm_ok h" "hpage h x" "hpage h z"
  shows "get_page (set_page h x f) z = (if z = x then f (get_page h x) else get_page h z)"
  using page_for_inj [OF assms(1,3,2)]
  by (simp add: get_page_def set_page_def page_for_def)

lemma set_page_simps [simp]:
  "hhdm (set_page h x f) = hhdm h" "nodes (set_page h x f) = nodes h"
  by (simp_all add: set_page_def)

definition pages_except :: "u64 set \<Rightarrow> heap \<Rightarrow> heap \<Rightarrow> bool" where
  "pages_except X h h' \<longleftrightarrow> hhdm h' = hhdm h \<and> (\<forall>z. hpage h z \<longrightarrow> z \<notin> X \<longrightarrow> get_page h' z = get_page h z)"

lemma blocks_okD:
  assumes "blocks_ok h a F A"
  shows "hhdm_ok h" "b \<in> F \<union> A \<Longrightarrow> block_ok h a b" "b \<in> F \<union> A \<Longrightarrow> hpage h (fst b)"
    "b \<in> F \<union> A \<Longrightarrow> c \<in> F \<union> A \<Longrightarrow> b \<noteq> c \<Longrightarrow> brange b \<inter> brange c = {}"
    "F \<inter> A = {}" "b \<in> F \<union> A \<Longrightarrow> order (get_page h (fst b)) = of_nat (snd b)"
    "b \<in> F \<Longrightarrow> allocated (get_page h (fst b)) = 0" "b \<in> A \<Longrightarrow> allocated (get_page h (fst b)) = 1"
    "b \<in> F \<union> A \<Longrightarrow> unat z \<in> brange b \<Longrightarrow> 4096 dvd unat z \<Longrightarrow> z \<noteq> fst b \<Longrightarrow> allocated (get_page h z) = 0"
    "b \<in> F \<union> A \<Longrightarrow> next_ok h (F \<union> A) b"
  using assms block_ok_hpage [of h a "fst b" "snd b"] unfolding blocks_ok_def pairwise_apart_def by (auto 4 3)

lemma in_brange: "unat (fst b) \<in> brange b" by (simp add: brange_def)

lemma block_ok_hpage_in:
  assumes "hhdm_ok h" "block_ok h a b" "unat z \<in> brange b" "4096 dvd unat z" shows "hpage h z"
  using assms unfolding block_ok_def hpage_def brange_def by auto

lemma block_ok_cong: "hhdm h' = hhdm h \<Longrightarrow> block_ok h' a b = block_ok h a b"
  by (simp add: block_ok_def)

lemma hpage_cong: "hhdm h' = hhdm h \<Longrightarrow> hpage h' z = hpage h z"
  by (simp add: hpage_def)

lemma hhdm_ok_cong: "hhdm h' = hhdm h \<Longrightarrow> hhdm_ok h' = hhdm_ok h"
  by (simp add: hhdm_ok_def)

lemma page_frame_cong: "hhdm h' = hhdm h \<Longrightarrow> page_frame h' z = page_frame h z"
  by (simp add: page_frame_def)

lemmas heap_congs = block_ok_cong hpage_cong hhdm_ok_cong page_frame_cong

lemma block_bytes_step:
  assumes "hhdm_ok h" "block_ok h a (x, k)"
  shows "unat (x + block_bytes k) = unat x + bsize k"
proof -
  have "unat (block_bytes k) = bsize k" using assms(2) by (simp add: block_ok_def unat_block_bytes_bsize)
  moreover have "unat x + bsize k < 2 ^ 64" using assms by (auto simp: block_ok_def hhdm_ok_def)
  ultimately show ?thesis by (subst unat_add_no_wrap) simp_all
qed

lemma block_bytes_double: "k \<le> max_order \<Longrightarrow> block_bytes k + block_bytes k = block_bytes (Suc k)"
proof -
  assume k: "k \<le> max_order"
  have "bsize k \<le> 4096 * 2 ^ 15" using k power_increasing [of k 15 "2::nat"] by (simp add: bsize_def)
  then have "unat (block_bytes k + block_bytes k) = unat (block_bytes (Suc k))"
    using k by (subst unat_add_no_wrap) (simp_all add: unat_block_bytes_bsize bsize_Suc)
  then show ?thesis by (simp add: word_unat_eq_iff)
qed

lemma halves_ok:
  assumes "hhdm_ok h" "block_ok h a (x, Suc k)" and y: "y = x + block_bytes k"
  shows "block_ok h a (x, k)" "block_ok h a (y, k)" "unat y = unat x + bsize k" "x \<noteq> y"
    "y + block_bytes k = x + block_bytes (Suc k)"
proof -
  have d: "bsize k dvd unat x" using assms(2) bsize_dvd_Suc [of k] by (auto simp: block_ok_def intro: dvd_trans)
  then show xk: "block_ok h a (x, k)" using assms(2) by (auto simp: block_ok_def bsize_Suc)
  show uy: "unat y = unat x + bsize k" using block_bytes_step [OF assms(1) xk] y by simp
  then show "block_ok h a (y, k)" using assms(2) d by (auto simp: block_ok_def bsize_Suc)
  show "x \<noteq> y" using uy by (auto simp: bsize_def)
  have "k \<le> max_order" using assms(2) by (simp add: block_ok_def)
  then show "y + block_bytes k = x + block_bytes (Suc k)"
    using block_bytes_double [of k] by (simp add: y algebra_simps)
qed

lemma merged_ok:
  assumes "hhdm_ok h" "block_ok h a (x, k)" "block_ok h a (x + block_bytes k, k)" "k < max_order" "bsize (Suc k) dvd unat x"
  shows "block_ok h a (x, Suc k)"
  using assms block_bytes_step [OF assms(1,2)] by (auto simp: block_ok_def bsize_Suc)

lemma blocks_split:
  assumes ok: "blocks_ok h a F A" and x: "(x, Suc k) \<in> F" and y: "y = x + block_bytes k"
    and h': "pages_except {x, y} h h'"
      "get_page h' x = (get_page h x)\<lparr>order := of_nat k, next_paddr := page_frame h y\<rparr>"
      "get_page h' y = (get_page h y)\<lparr>order := of_nat k, next_paddr := next_paddr (get_page h x)\<rparr>"
  defines "F' \<equiv> insert (x, k) (insert (y, k) (F - {(x, Suc k)}))"
  shows "blocks_ok h' a F' A"
proof -
  note D = blocks_okD [OF ok]
  have hh: "hhdm h' = hhdm h" using h' by (simp add: pages_except_def)
  have bx: "block_ok h a (x, Suc k)" using D(2) x by blast
  note H = halves_ok [OF D(1) bx y]
  note R = brange_halves [OF H(3)]
  have yx: "allocated (get_page h y) = 0" "allocated (get_page h x) = 0"
    using D(9) [of "(x, Suc k)" y] D(7) [OF x] x H(2,4) R page_dvd_bsize [of k]
    by (auto simp: block_ok_def intro: dvd_trans)
  have out: "fst b \<noteq> x" "fst b \<noteq> y" "brange b \<inter> brange (x, k) = {}" "brange b \<inter> brange (y, k) = {}"
    if "b \<in> F \<union> A" "b \<noteq> (x, Suc k)" for b
    using D(4) [OF that(1), of "(x, Suc k)"] that x R in_brange [of b] by auto
  have xA: "(x, Suc k) \<notin> A" using D(5) x by blast
  have same: "get_page h' z = get_page h z" if "hpage h z" "z \<noteq> x" "z \<noteq> y" for z
    using h'(1) that by (simp add: pages_except_def)
  have outp: "get_page h' (fst b) = get_page h (fst b)" if "b \<in> F \<union> A" "b \<noteq> (x, Suc k)" for b
    using out [OF that] D(3) [OF that(1)] same by simp
  have cases: "b = (x, k) \<or> b = (y, k) \<or> b \<in> F \<union> A \<and> b \<noteq> (x, Suc k)" if "b \<in> F' \<union> A" for b
    using that D(5) x by (auto simp: F'_def)
  have xy: "brange (x, k) \<inter> brange (y, k) = {}" using H(3) by (auto simp: brange_def)
  have starts: "fst ` (F \<union> A) \<subseteq> fst ` (F' \<union> A)" "y \<in> fst ` (F' \<union> A)" by (force simp: F'_def)+
  have in1: "\<forall>b\<in>F' \<union> A. block_ok h' a b" using cases D(2) H(1,2) by (auto simp: block_ok_cong [OF hh])
  have in2: "pairwise_apart (F' \<union> A)"
    unfolding pairwise_apart_def using cases out(3,4) xy D(4) by (metis inf_commute)
  have in3: "F' \<inter> A = {}" using out(1) [of "(x, k)"] out(2) [of "(y, k)"] D(5) by (auto simp: F'_def)
  have in4: "\<forall>b\<in>F' \<union> A. order (get_page h' (fst b)) = of_nat (snd b)"
    using cases outp D(6) h'(2,3) by (metis fst_conv snd_conv page.select_convs(2) page.surjective page.update_convs(1,2))
  have in5: "\<forall>b\<in>F'. allocated (get_page h' (fst b)) = 0"
    using outp D(7) h'(2,3) yx by (auto simp: F'_def)
  have in6: "\<forall>b\<in>A. allocated (get_page h' (fst b)) = 1"
    using outp D(8) xA by (metis UnI2)
  have in7: "allocated (get_page h' z) = 0"
    if b: "b \<in> F' \<union> A" and z: "unat z \<in> brange b" "4096 dvd unat z" "z \<noteq> fst b" for b z
  proof -
    have "hpage h z" using in1 b block_ok_hpage_in [OF D(1) _ z(1,2)] block_ok_cong [OF hh] by blast
    then have keep: "allocated (get_page h' z) = allocated (get_page h z)"
      using same h'(2,3) by (cases "z = x \<or> z = y") auto
    from cases [OF b] have "allocated (get_page h z) = 0"
    proof (elim disjE conjE)
      assume "b = (x, k)" then show ?thesis using D(9) [of "(x, Suc k)" z] x z R by auto
    next
      assume "b = (y, k)" then show ?thesis using D(9) [of "(x, Suc k)" z] x z R yx by (cases "z = x") auto
    next
      assume "b \<in> F \<union> A" then show ?thesis using D(9) z by blast
    qed
    with keep show ?thesis by simp
  qed
  have in8: "next_ok h' (F' \<union> A) b" if b: "b \<in> F' \<union> A" for b
    using cases [OF b]
  proof (elim disjE conjE)
    assume "b = (x, k)" then show ?thesis
      using h'(2) starts y by (simp add: next_ok_def Let_def page_frame_cong [OF hh])
  next
    assume "b = (y, k)" then show ?thesis
      using D(10) [of "(x, Suc k)"] x h'(3) starts H(5) by (auto simp: next_ok_def Let_def page_frame_cong [OF hh])
  next
    assume "b \<in> F \<union> A" "b \<noteq> (x, Suc k)" then show ?thesis
      using D(10) [of b] outp [of b] starts by (auto simp: next_ok_def Let_def page_frame_cong [OF hh])
  qed
  show ?thesis
    unfolding blocks_ok_def using in1 in2 in3 in4 in5 in6 in7 in8 D(1) hhdm_ok_cong [OF hh] by blast
qed

lemma blocks_merge:
  assumes ok: "blocks_ok h a F A" and x: "(x, k) \<in> F" "(y, k) \<in> F" and y: "y = x + block_bytes k"
    and k: "k < max_order" "bsize (Suc k) dvd unat x"
    and h': "pages_except {x} h h'"
      "get_page h' x = (get_page h x)\<lparr>order := of_nat (Suc k), next_paddr := next_paddr (get_page h y)\<rparr>"
  defines "F' \<equiv> insert (x, Suc k) (F - {(x, k), (y, k)})"
  shows "blocks_ok h' a F' A"
proof -
  note D = blocks_okD [OF ok]
  have hh: "hhdm h' = hhdm h" using h' by (simp add: pages_except_def)
  have xA: "(x, k) \<notin> A" "(y, k) \<notin> A" using D(5) x by blast+
  have bm: "block_ok h a (x, Suc k)" using merged_ok [OF D(1)] D(2) x y k by blast
  note H = halves_ok [OF D(1) bm y]
  note R = brange_halves [OF H(3)]
  have out: "fst b \<noteq> x" "fst b \<noteq> y" "brange b \<inter> brange (x, Suc k) = {}"
    if "b \<in> F \<union> A" "b \<noteq> (x, k)" "b \<noteq> (y, k)" for b
    using D(4) [OF that(1), of "(x, k)"] D(4) [OF that(1), of "(y, k)"] that x R in_brange [of b] by auto
  have same: "get_page h' z = get_page h z" if "hpage h z" "z \<noteq> x" for z
    using h'(1) that by (simp add: pages_except_def)
  have outp: "get_page h' (fst b) = get_page h (fst b)" if "b \<in> F \<union> A" "b \<noteq> (x, k)" "b \<noteq> (y, k)" for b
    using out [OF that] D(3) [OF that(1)] same by simp
  have cases: "b = (x, Suc k) \<or> b \<in> F \<union> A \<and> b \<noteq> (x, k) \<and> b \<noteq> (y, k)" if "b \<in> F' \<union> A" for b
    using that xA by (auto simp: F'_def)
  have in1: "\<forall>b\<in>F' \<union> A. block_ok h' a b" using cases D(2) bm by (auto simp: block_ok_cong [OF hh])
  have in2: "pairwise_apart (F' \<union> A)"
    unfolding pairwise_apart_def using cases out(3) D(4) by (metis inf_commute)
  have in3: "F' \<inter> A = {}" using out(1) [of "(x, Suc k)"] H(4) D(5) by (auto simp: F'_def)
  have in4: "\<forall>b\<in>F' \<union> A. order (get_page h' (fst b)) = of_nat (snd b)"
    using cases outp D(6) h'(2) by (metis fst_conv snd_conv page.select_convs(2) page.surjective page.update_convs(1,2))
  have in5: "\<forall>b\<in>F'. allocated (get_page h' (fst b)) = 0"
    using outp D(7) h'(2) x by (auto simp: F'_def)
  have in6: "\<forall>b\<in>A. allocated (get_page h' (fst b)) = 1"
    using outp D(8) xA by (metis UnI2)
  have in7: "allocated (get_page h' z) = 0"
    if b: "b \<in> F' \<union> A" and z: "unat z \<in> brange b" "4096 dvd unat z" "z \<noteq> fst b" for b z
  proof -
    have "hpage h z" using in1 b block_ok_hpage_in [OF D(1) _ z(1,2)] block_ok_cong [OF hh] by blast
    then have keep: "allocated (get_page h' z) = allocated (get_page h z)"
      using same h'(2) by (cases "z = x") auto
    from cases [OF b] have "allocated (get_page h z) = 0"
    proof (elim disjE conjE)
      assume "b = (x, Suc k)" then show ?thesis
        using D(9) [of "(x, k)" z] D(9) [of "(y, k)" z] D(7) [OF x(2)] x z R by (cases "z = y") auto
    next
      assume "b \<in> F \<union> A" then show ?thesis using D(9) z by blast
    qed
    with keep show ?thesis by simp
  qed
  have starts: "w \<in> fst ` (F' \<union> A)" if "w \<in> fst ` (F \<union> A)" "w \<noteq> y" for w
    using that by (auto simp: F'_def image_iff)
  have not_y: "fst b + block_bytes (snd b) \<noteq> y" if "b \<in> F \<union> A" "b \<noteq> (x, k)" for b
  proof
    assume "fst b + block_bytes (snd b) = y"
    then have "unat (fst b) + bsize (snd b) = unat x + bsize k"
      using block_bytes_step [OF D(1), of a "fst b" "snd b"] D(2) [OF that(1)] H(3) by simp
    then have "unat x + bsize k - 1 \<in> brange b \<inter> brange (x, k)"
      using bsize_pos [of k] bsize_pos [of "snd b"]
      unfolding brange_def fst_conv snd_conv Int_iff atLeastLessThan_iff by (intro conjI; linarith)
    then show False using D(4) [OF that(1), of "(x, k)"] that(2) x by auto
  qed
  have in8: "next_ok h' (F' \<union> A) b" if b: "b \<in> F' \<union> A" for b
    using cases [OF b]
  proof (elim disjE conjE)
    assume "b = (x, Suc k)" then show ?thesis
      using D(10) [of "(y, k)"] x h'(2) starts H(5) not_y [of "(y, k)"] H(4)
      by (auto simp: next_ok_def Let_def page_frame_cong [OF hh])
  next
    assume "b \<in> F \<union> A" "b \<noteq> (x, k)" "b \<noteq> (y, k)" then show ?thesis
      using D(10) [of b] outp [of b] starts not_y [of b] by (simp add: next_ok_def Let_def page_frame_cong [OF hh]) blast
  qed
  show ?thesis
    unfolding blocks_ok_def using in1 in2 in3 in4 in5 in6 in7 in8 D(1) hhdm_ok_cong [OF hh] by blast
qed

text \<open>Moving a block between the free and the allocated set: only its \<open>allocated\<close> bit changes.\<close>

lemma blocks_recolour:
  assumes ok: "blocks_ok h a F A" and U: "F' \<union> A' = F \<union> A" "F' \<inter> A' = {}"
    and FA: "F' - {(x, k)} = F - {(x, k)}" "A' - {(x, k)} = A - {(x, k)}" "(x, k) \<in> F \<union> A"
    and h': "pages_except {x} h h'" "get_page h' x = (get_page h x)\<lparr>allocated := (if (x, k) \<in> F' then 0 else 1)\<rparr>"
  shows "blocks_ok h' a F' A'"
proof -
  note D = blocks_okD [OF ok]
  have hh: "hhdm h' = hhdm h" using h' by (simp add: pages_except_def)
  have out: "fst b \<noteq> x" "unat x \<notin> brange b" if "b \<in> F \<union> A" "b \<noteq> (x, k)" for b
    using D(4) [OF that(1) FA(3)] that in_brange [of b] in_brange [of "(x, k)"] by auto
  have same: "get_page h' z = get_page h z" if "hpage h z" "z \<noteq> x" for z
    using h'(1) that by (simp add: pages_except_def)
  have outp: "get_page h' (fst b) = get_page h (fst b)" if "b \<in> F \<union> A" "b \<noteq> (x, k)" for b
    using out [OF that] D(3) [OF that(1)] same by simp
  have on: "order (get_page h' (fst b)) = order (get_page h (fst b)) \<and>
      next_paddr (get_page h' (fst b)) = next_paddr (get_page h (fst b))" if "b \<in> F \<union> A" for b
    using outp [OF that] h'(2) by (cases "b = (x, k)") auto
  have in5: "\<forall>b\<in>F'. allocated (get_page h' (fst b)) = 0"
  proof
    fix b assume b: "b \<in> F'"
    show "allocated (get_page h' (fst b)) = 0"
    proof (cases "b = (x, k)")
      case False
      then have "b \<in> F" using b FA(1) by blast
      then show ?thesis using outp [of b] False D(7) [of b] by simp
    qed (use b h'(2) in simp)
  qed
  have in6: "\<forall>b\<in>A'. allocated (get_page h' (fst b)) = 1"
  proof
    fix b assume b: "b \<in> A'"
    show "allocated (get_page h' (fst b)) = 1"
    proof (cases "b = (x, k)")
      case True
      then have "(x, k) \<notin> F'" using b U(2) by blast
      then show ?thesis using h'(2) True by simp
    next
      case False
      then have "b \<in> A" using b FA(2) by blast
      then show ?thesis using outp [of b] False D(8) [of b] by simp
    qed
  qed
  have in7: "allocated (get_page h' z) = 0"
    if b: "b \<in> F \<union> A" and z: "unat z \<in> brange b" "4096 dvd unat z" "z \<noteq> fst b" for b z
  proof -
    have "z \<noteq> x" using out(2) [OF b] z by (cases "b = (x, k)") auto
    moreover have "hpage h z" using b z D(2) block_ok_hpage_in [OF D(1)] by blast
    ultimately show ?thesis using D(9) [OF b z] same by simp
  qed
  have in8: "next_ok h' (F \<union> A) b" if b: "b \<in> F \<union> A" for b
    using D(10) [OF b] on [OF b] by (simp add: next_ok_def page_frame_cong [OF hh])
  show ?thesis
    unfolding blocks_ok_def U(1)
    using D(1,2,4,6) U(2) in5 in6 in7 in8 on hhdm_ok_cong [OF hh] block_ok_cong [OF hh]
    by (simp add: pairwise_apart_def)
qed

lemma blocks_take:
  assumes "blocks_ok h a F A" "(x, k) \<in> F" "pages_except {x} h h'" "get_page h' x = (get_page h x)\<lparr>allocated := 1\<rparr>"
  shows "blocks_ok h' a (F - {(x, k)}) (insert (x, k) A)"
  by (rule blocks_recolour [OF assms(1) _ _ _ _ _ assms(3), of _ _ k])
    (use assms(2,4) blocks_okD(5) [OF assms(1)] in auto)

lemma blocks_give:
  assumes "blocks_ok h a F A" "(x, k) \<in> A" "pages_except {x} h h'" "get_page h' x = (get_page h x)\<lparr>allocated := 0\<rparr>"
  shows "blocks_ok h' a (insert (x, k) F) (A - {(x, k)})"
  by (rule blocks_recolour [OF assms(1) _ _ _ _ _ assms(3), of _ _ k])
    (use assms(2,4) blocks_okD(5) [OF assms(1)] in auto)

end
