(* ===== verification/Pmm_Buddy.thy ===== *)
theory Pmm_Buddy
  imports Pmm_Blocks
begin

text \<open>
  Correctness of the buddy allocator: every operation of \<open>allocator\<close> runs without reaching a
  \<open>bug_on\<close>, terminates (\<open>coalesce_to\<close> included), keeps the invariant and accounts for every
  byte of the region it manages.
\<close>

lemma free_blocks_push: "free_blocks (fl(k := x # fl k)) = insert (x, k) (free_blocks fl)"
  by (auto simp: free_blocks_def split: if_splits)

lemma free_blocks_drop:
  "distinct (fl k) \<Longrightarrow> set xs = set (fl k) - {x} \<Longrightarrow> free_blocks (fl(k := xs)) = free_blocks fl - {(x, k)}"
  by (auto simp: free_blocks_def split: if_splits)

lemma free_blocks_iff: "(x, k) \<in> free_blocks fl \<longleftrightarrow> x \<in> set (fl k)"
  by (simp add: free_blocks_def)

lemma region_insert [simp]: "region (insert b B) = brange b \<union> region B" by (auto simp: region_def)

lemma region_mem: "b \<in> B \<Longrightarrow> brange b \<subseteq> region B" by (auto simp: region_def)

lemma region_Diff:
  "pairwise_apart L \<Longrightarrow> B \<subseteq> L \<Longrightarrow> b \<in> B \<Longrightarrow> region (B - {b}) = region B - brange b"
proof -
  assume L: "pairwise_apart L" "B \<subseteq> L" "b \<in> B"
  have "brange c \<inter> brange b = {}" if "c \<in> B - {b}" for c using L that unfolding pairwise_apart_def by blast
  then show ?thesis unfolding region_def using L(3) by blast
qed

lemma lists_ok_distinct: "lists_ok h a fl \<Longrightarrow> distinct (fl k)"
  by (simp add: lists_ok_def disjoint_lists_def)

lemma lists_ok_cong: "nodes h' = nodes h \<Longrightarrow> lists a' = lists a \<Longrightarrow> lists_ok h' a' fl = lists_ok h a fl"
  by (simp add: lists_ok_def)

lemma same_pages_get: "same_pages h h' \<Longrightarrow> get_page h' z = get_page h z"
  by (simp add: same_pages_def get_page_def page_for_def)

lemma same_pages_except: "same_pages h h' \<Longrightarrow> pages_except X h h'"
  by (simp add: pages_except_def same_pages_get) (simp add: same_pages_def)

lemma pages_except_trans: "pages_except X h h' \<Longrightarrow> pages_except X h' h'' \<Longrightarrow> pages_except X h h''"
  by (simp add: pages_except_def hpage_def)

lemma pages_except_set: "hhdm_ok h \<Longrightarrow> hpage h x \<Longrightarrow> x \<in> X \<Longrightarrow> pages_except X h (set_page h x f)"
  by (auto simp: pages_except_def get_set_page)

lemma blocks_ok_cong:
  assumes "same_pages h h'" "astart a' = astart a" "aend a' = aend a"
  shows "blocks_ok h' a' F A = blocks_ok h a F A"
proof -
  have g: "get_page h' z = get_page h z" and hh: "hhdm h' = hhdm h" for z
    using assms by (simp_all add: same_pages_get) (simp add: same_pages_def)
  have "block_ok h' a' b = block_ok h a b" for b using assms(2,3) hh by (simp add: block_ok_def)
  then show ?thesis
    by (simp add: blocks_ok_def g hhdm_ok_cong [OF hh] next_ok_def page_frame_cong [OF hh])
qed

definition rearranged :: "heap \<Rightarrow> allocator \<Rightarrow> (nat \<Rightarrow> u64 list) \<Rightarrow> (u64 \<times> nat) set \<Rightarrow> heap \<Rightarrow> allocator \<Rightarrow> (nat \<Rightarrow> u64 list) \<Rightarrow> bool" where
  "rearranged h a fl A h' a' fl' \<longleftrightarrow>
     buddy_inv h' a' fl' A \<and> region (free_blocks fl') = region (free_blocks fl) \<and>
     only_touches (region (free_blocks fl)) h h' \<and> astart a' = astart a \<and> aend a' = aend a"

lemma only_touches_refl: "only_touches R h h" by (simp add: only_touches_def)

lemma only_touches_trans: "only_touches R h h' \<Longrightarrow> only_touches R h' h'' \<Longrightarrow> only_touches R h h''"
  by (simp add: only_touches_def hpage_def)

lemma only_touches_mono: "only_touches R h h' \<Longrightarrow> R \<subseteq> R' \<Longrightarrow> only_touches R' h h'"
  by (auto simp: only_touches_def)

lemma only_touchesI:
  "pages_except X h h' \<Longrightarrow> (\<And>x. x \<in> X \<Longrightarrow> unat x \<in> R) \<Longrightarrow> (\<And>z. unat z \<notin> R \<Longrightarrow> nodes h' z = nodes h z) \<Longrightarrow> only_touches R h h'"
  by (auto simp: only_touches_def pages_except_def)

lemma rearranged_refl: "buddy_inv h a fl A \<Longrightarrow> rearranged h a fl A h a fl"
  by (simp add: rearranged_def only_touches_refl)

lemma rearranged_trans:
  "rearranged h a fl A h' a' fl' \<Longrightarrow> rearranged h' a' fl' A h'' a'' fl'' \<Longrightarrow> rearranged h a fl A h'' a'' fl''"
  by (auto simp: rearranged_def intro: only_touches_trans)

lemma free_node_region: "unat z \<notin> region (free_blocks fl) \<Longrightarrow> z \<notin> set (fl k)"
  using region_mem [of "(z, k)" "free_blocks fl"] brange_fst [of z k] unfolding free_blocks_iff by blast

lemma block_start_nonzero:
  assumes "hhdm_ok h" "block_ok h a (x, k)" shows "x \<noteq> 0"
proof
  assume "x = 0"
  then show False using block_ok_hpage [OF assms] assms(1) by (simp add: hpage_def hhdm_ok_def)
qed

lemma blocks_same_start:
  assumes "blocks_ok h a F A" "(x, j) \<in> F \<union> A" "(x, k) \<in> F \<union> A" shows "j = k"
proof (rule ccontr)
  assume "j \<noteq> k"
  then have "brange (x, j) \<inter> brange (x, k) = {}" using blocks_okD(4) [OF assms(1,2,3)] by simp
  then show False using brange_fst [of x j] brange_fst [of x k] by blast
qed

definition split_body :: "heap \<Rightarrow> nat \<Rightarrow> u64 \<Rightarrow> u64 \<Rightarrow> heap" where
  "split_body h k x y =
    (let h = set_page h x (\<lambda>p. p\<lparr>order := of_nat k\<rparr>);
         h = set_page h y (\<lambda>p. p\<lparr>order := of_nat k\<rparr>);
         h = set_page h y (\<lambda>p. p\<lparr>next_paddr := next_paddr (get_page h x)\<rparr>)
     in set_page h x (\<lambda>p. p\<lparr>next_paddr := ucast (drop_bit page_bits (fromhh (hhdm h) y))\<rparr>))"

lemma split_body_pages:
  assumes "hhdm_ok h" "hpage h x" "hpage h y" "x \<noteq> y"
  shows "pages_except {x, y} h (split_body h k x y)" "nodes (split_body h k x y) = nodes h"
    "get_page (split_body h k x y) x = (get_page h x)\<lparr>order := of_nat k, next_paddr := page_frame h y\<rparr>"
    "get_page (split_body h k x y) y = (get_page h y)\<lparr>order := of_nat k, next_paddr := next_paddr (get_page h x)\<rparr>"
proof -
  have ok: "hhdm_ok (set_page h' z f) = hhdm_ok h'" "hpage (set_page h' z f) w = hpage h' w" for h' z f w
    by (simp_all add: hhdm_ok_def hpage_def)
  show "pages_except {x, y} h (split_body h k x y)" "nodes (split_body h k x y) = nodes h"
    using assms by (simp_all add: split_body_def Let_def pages_except_def get_set_page ok)
  show "get_page (split_body h k x y) x = (get_page h x)\<lparr>order := of_nat k, next_paddr := page_frame h y\<rparr>"
    "get_page (split_body h k x y) y = (get_page h y)\<lparr>order := of_nat k, next_paddr := next_paddr (get_page h x)\<rparr>"
    using assms by (simp_all add: split_body_def Let_def get_set_page ok page_frame_def)
qed

lemma split_step:
  assumes inv: "buddy_inv h a fl A" and fl: "fl (Suc k) = x # xs" and r: "rem h a (Suc k) = Inr (x, h1, a1)"
    and y: "y = x + block_bytes k"
    and p1: "put (split_body h1 k x y) a1 k x = (h2, a2)" and p2: "put h2 a2 k y = (h3, a3)"
  shows "rearranged h a fl A h3 a3 (fl(Suc k := xs, k := y # x # fl k))"
    "allocated (get_page h1 x) = 0" "allocated (get_page h1 y) = 0"
proof -
  let ?F = "free_blocks fl"
  let ?fl1 = "fl(Suc k := xs)" let ?fl2 = "?fl1(k := x # fl k)" let ?fl3 = "?fl2(k := y # x # fl k)"
  have lo: "lists_ok h a fl" and bo: "blocks_ok h a ?F A" using inv by (auto simp: buddy_inv_def)
  note D = blocks_okD [OF bo]
  obtain h1' a1' where "rem h a (Suc k) = Inr (x, h1', a1')" and l1: "lists_ok h1' a1' ?fl1" "same_pages h h1'"
      "\<And>y. y \<notin> set (fl (Suc k)) \<Longrightarrow> nodes h1' y = nodes h y" "astart a1' = astart a" "aend a1' = aend a"
    using rem_lists [OF lo fl] by metis
  with r have e1: "h1' = h1" "a1' = a1" by auto
  note l1 = l1 [unfolded e1]
  have x: "(x, Suc k) \<in> ?F" using fl by (simp add: free_blocks_iff)
  have bx: "block_ok h a (x, Suc k)" using D(2) x by blast
  note H = halves_ok [OF D(1) bx y]
  note R = brange_halves [OF H(3)]
  have hh1: "hhdm h1 = hhdm h" using l1(2) by (simp add: same_pages_def)
  have hp: "hhdm_ok h1" "hpage h1 x" "hpage h1 y"
    using D(1) block_ok_hpage [OF D(1) H(1)] block_ok_hpage [OF D(1) H(2)] by (simp_all add: heap_congs [OF hh1])
  note B = split_body_pages [OF hp H(4), of k]
  let ?h1 = "split_body h1 k x y"
  have yr: "unat y \<in> brange (x, Suc k)" using R by simp
  then show "allocated (get_page h1 y) = 0" "allocated (get_page h1 x) = 0"
    using D(9) [of "(x, Suc k)" y] D(7) [OF x] x H(2,4) page_dvd_bsize [of k]
    by (auto simp: same_pages_get [OF l1(2)] block_ok_def intro: dvd_trans)
  have px: "pages_except {x, y} h ?h1" using same_pages_except [OF l1(2)] B(1) by (rule pages_except_trans)
  have b1: "blocks_ok ?h1 a (insert (x, k) (insert (y, k) (?F - {(x, Suc k)}))) A"
    using blocks_split [OF bo x y px] B(3,4) by (simp add: same_pages_get [OF l1(2)] page_frame_cong [OF hh1])
  have dist: "distinct (x # xs)" using lists_ok_distinct [OF lo, of "Suc k"] fl by simp
  have xnot: "x \<notin> set (?fl1 j)" for j
    using lists_ok_unique [OF lo, of x j "Suc k"] fl dist by (cases "j = Suc k") auto
  have ynot: "y \<notin> set (fl j)" for j
  proof
    assume "y \<in> set (fl j)"
    then have "(y, j) \<in> ?F" by (simp add: free_blocks_iff)
    moreover from this have "(y, j) \<noteq> (x, Suc k)" using H(4) by auto
    ultimately show False using D(4) [of "(y, j)" "(x, Suc k)"] x yr brange_fst [of y j] by blast
  qed
  have z: "x \<noteq> 0" "y \<noteq> 0" using block_start_nonzero [OF D(1)] H(1,2) by blast+
  have l2: "lists_ok ?h1 a1 ?fl1" using l1(1) lists_ok_cong [OF B(2)] by simp
  note P1 = put_lists [OF l2 z(1) xnot p1]
  have "lists_ok h2 a2 ?fl2" using P1(1) by (simp add: fun_upd_def)
  moreover have "y \<notin> set (?fl2 j)" for j
    using ynot [of j] ynot [of k] ynot [of "Suc k"] H(4) fl by auto
  ultimately have P2: "lists_ok h3 a3 ?fl3" "same_pages h2 h3" "\<And>w. w \<noteq> y \<Longrightarrow> w \<notin> set (?fl2 k) \<Longrightarrow> nodes h3 w = nodes h2 w"
    "astart a3 = astart a2" "aend a3 = aend a2"
    using put_lists [OF _ z(2) _ p2, of ?fl2] by simp_all
  have fl3: "?fl3 = fl(Suc k := xs, k := y # x # fl k)" by (simp add: fun_upd_twist)
  have F1: "free_blocks ?fl1 = ?F - {(x, Suc k)}"
    by (rule free_blocks_drop) (use dist fl in \<open>simp_all add: insert_Diff_if\<close>)
  then have F3: "free_blocks ?fl3 = insert (x, k) (insert (y, k) (?F - {(x, Suc k)}))"
    using free_blocks_push [of ?fl1 k x] free_blocks_push [of ?fl2 k y] by (simp add: insert_commute)
  have sp: "same_pages ?h1 h3" using P1(2) P2(2) by (simp add: same_pages_def)
  have "buddy_inv h3 a3 ?fl3 A"
    using P2(1,4,5) P1(4,5) l1(4,5) b1 F3 blocks_ok_cong [OF sp, of a3 a] by (simp add: buddy_inv_def)
  moreover have "pairwise_apart (?F \<union> A)" using bo by (simp add: blocks_ok_def)
  then have "region (free_blocks ?fl3) = region ?F"
    unfolding F3 region_insert using R x region_mem [OF x] by (subst region_Diff [OF _ _ x]) auto
  moreover have "only_touches (region ?F) h h3"
  proof (rule only_touchesI)
    show "pages_except {x, y} h h3" using px same_pages_except [OF sp] by (rule pages_except_trans)
    show "unat w \<in> region ?F" if "w \<in> {x, y}" for w
      using that yr region_mem [OF x] brange_fst [of x "Suc k"] by blast
    then have xy: "unat x \<in> region ?F" "unat y \<in> region ?F" by auto
    show "nodes h3 w = nodes h w" if w: "unat w \<notin> region ?F" for w
    proof -
      have "w \<noteq> x" "w \<noteq> y" "w \<notin> set (?fl2 k)" "w \<notin> set (?fl1 k)" "w \<notin> set (fl (Suc k))"
        using w xy free_node_region [OF w, of k] free_node_region [OF w, of "Suc k"] by auto
      then show ?thesis using P2(3) P1(3) B(2) l1(3) by simp
    qed
  qed
  ultimately show "rearranged h a fl A h3 a3 (fl(Suc k := xs, k := y # x # fl k))"
    using P2(4,5) P1(4,5) l1(4,5) unfolding rearranged_def fl3 by simp
qed

lemma of_nat_order_eq: "j \<le> max_order \<Longrightarrow> k \<le> max_order \<Longrightarrow> (of_nat j :: 4 word) = of_nat k \<longleftrightarrow> j = k"
  by (simp add: word_unat_eq_iff unat_of_nat)

lemma split_loop_ok:
  "buddy_inv h a fl A \<Longrightarrow> target < current \<longrightarrow> fl current \<noteq> [] \<Longrightarrow>
   \<exists>h' a' fl'. split_loop h a target current = Inr (h', a') \<and> rearranged h a fl A h' a' fl' \<and>
     (target < current \<longrightarrow> fl' target \<noteq> [])"
proof (induction current arbitrary: h a fl)
  case 0
  then show ?case by (auto intro: rearranged_refl)
next
  case (Suc k)
  show ?case
  proof (cases "target < Suc k")
    case False
    then show ?thesis using Suc.prems by (auto intro: rearranged_refl)
  next
    case True
    then obtain x xs where fl: "fl (Suc k) = x # xs" using Suc.prems by (cases "fl (Suc k)") auto
    have lo: "lists_ok h a fl" using Suc.prems by (simp add: buddy_inv_def)
    obtain h1 a1 where r: "rem h a (Suc k) = Inr (x, h1, a1)" using rem_lists [OF lo fl] by metis
    define y where "y = x + block_bytes k"
    obtain h2 a2 where p1: "put (split_body h1 k x y) a1 k x = (h2, a2)" by fastforce
    obtain h3 a3 where p2: "put h2 a2 k y = (h3, a3)" by fastforce
    note S = split_step [OF Suc.prems(1) fl r y_def p1 p2]
    define fl3 where "fl3 = fl(Suc k := xs, k := y # x # fl k)"
    note S = S [folded fl3_def]
    have fl3k: "fl3 k \<noteq> []" by (simp add: fl3_def)
    have "buddy_inv h3 a3 fl3 A" using S(1) by (simp add: rearranged_def)
    from Suc.IH [OF this] fl3k obtain h' a' fl' where
      I: "split_loop h3 a3 target k = Inr (h', a')" "rearranged h3 a3 fl3 A h' a' fl'" "target < k \<longrightarrow> fl' target \<noteq> []"
      by blast
    have eq: "split_loop h a target (Suc k) = split_loop h3 a3 target k"
      using True r S(2,3) p1 p2 by (simp add: bug_on_def y_def [symmetric] split_body_def Let_def)
    have "fl' target \<noteq> []" if "target = k"
    proof -
      have "split_loop h3 a3 k k = Inr (h3, a3)" by (cases k) simp_all
      then have "h' = h3" "a' = a3" using I(1) that by auto
      then have "lists_ok h3 a3 fl'" "lists_ok h3 a3 fl3"
        using I(2) S(1) by (simp_all add: rearranged_def buddy_inv_def)
      then show ?thesis using has_pages_lists [of h3 a3 fl' k] has_pages_lists [of h3 a3 fl3 k] that fl3k by simp
    qed
    then show ?thesis using eq I rearranged_trans [OF S(1) I(2)] True by (metis less_antisym)
  qed
qed

lemma find_split_ok:
  assumes "lists_ok h a fl" "c \<le> max_order"
  shows "case find_split a c of None \<Rightarrow> (\<forall>j. c \<le> j \<and> j \<le> max_order \<longrightarrow> fl j = [])
         | Some k \<Rightarrow> c \<le> k \<and> k \<le> max_order \<and> fl k \<noteq> []"
  using assms
proof (induction a c rule: find_split.induct)
  case (1 a c)
  have e: "lists a c = 0 \<longleftrightarrow> fl c = []" using has_pages_lists [OF 1(2), of c] by (simp add: has_pages_def)
  show ?case
  proof (cases "lists a c = 0 \<and> c + 1 \<le> max_order")
    case True
    then have "find_split a c = find_split a (c + 1)" by (subst find_split.simps) simp
    moreover have "(\<forall>j. c + 1 \<le> j \<and> j \<le> max_order \<longrightarrow> fl j = []) \<Longrightarrow> (\<forall>j. c \<le> j \<and> j \<le> max_order \<longrightarrow> fl j = [])"
      using True e by (metis Suc_eq_plus1 le_antisym not_less_eq_eq)
    ultimately show ?thesis using 1(1) True 1(2) by (auto split: option.splits)
  next
    case False
    then consider "lists a c \<noteq> 0" | "lists a c = 0" "c = max_order" using 1(3) by fastforce
    then show ?thesis using e 1(3) by cases (subst find_split.simps, auto dest: le_antisym)+
  qed
qed

lemma split_to_ok:
  assumes inv: "buddy_inv h a fl A" and t: "target < max_order"
  shows "\<exists>h' a' fl'. split_to h a target = Inr (h', a') \<and> rearranged h a fl A h' a' fl' \<and>
     ((\<exists>j>target. j \<le> max_order \<and> fl j \<noteq> []) \<longrightarrow> fl' target \<noteq> [])"
proof (cases "find_split a (target + 1)")
  case None
  then have "\<not> (\<exists>j>target. j \<le> max_order \<and> fl j \<noteq> [])"
    using find_split_ok [of h a fl "target + 1"] inv t by (auto simp: buddy_inv_def Suc_le_eq)
  then show ?thesis using None rearranged_refl [OF inv] by (auto simp: split_to_def)
next
  case (Some c)
  then have "target < c" "fl c \<noteq> []"
    using find_split_ok [of h a fl "target + 1"] inv t by (auto simp: buddy_inv_def)
  then show ?thesis using split_loop_ok [OF inv, of target c] Some by (auto simp: split_to_def)
qed

lemma dll_next: "dll n p h (us @ y # ys) \<Longrightarrow> lnext (n y) = (case ys of [] \<Rightarrow> 0 | z # _ \<Rightarrow> z)"
proof (induction us arbitrary: p h)
  case Nil
  then show ?case by (cases ys) auto
qed auto

lemma next_candidate_ok:
  assumes "dll (nodes h) p hd0 (us @ y # ys)"
  shows "\<exists>r. next_candidate h bs y = Some r \<and>
     (case r of None \<Rightarrow> True
      | Some c \<Rightarrow> \<exists>us' ys'. us @ y # ys = us' @ c # ys' \<and> length ys' \<le> length ys \<and>
          next_paddr (get_page h c) \<noteq> 0 \<and> c mod bs = 0)"
  using assms
proof (induction ys arbitrary: us y)
  case Nil
  then show ?case using dll_next [OF Nil]
    by (subst next_candidate.simps) auto
next
  case (Cons z zs)
  show ?case
  proof (cases "next_paddr (get_page h y) = 0 \<or> y mod bs \<noteq> 0")
    case True
    have z: "lnext (nodes h y) = z" "z \<noteq> 0" using dll_next [OF Cons.prems] dll_nonzero [OF Cons.prems] by auto
    then have "next_candidate h bs y = next_candidate h bs z"
      using True by (subst next_candidate.simps) simp
    moreover have "dll (nodes h) p hd0 ((us @ [y]) @ z # zs)" using Cons.prems by simp
    ultimately obtain r where "next_candidate h bs y = Some r"
      "case r of None \<Rightarrow> True
      | Some c \<Rightarrow> \<exists>us' ys'. us @ y # z # zs = us' @ c # ys' \<and> length ys' \<le> length zs \<and>
          next_paddr (get_page h c) \<noteq> 0 \<and> c mod bs = 0"
      using Cons.IH [of "us @ [y]" z] by (simp only: append_assoc append.simps) blast
    then show ?thesis by (intro exI [of _ r]) (cases r; simp; metis le_SucI)
  next
    case False
    then have "next_candidate h bs y = Some (Some y)" by (subst next_candidate.simps) auto
    then show ?thesis using False by (intro exI [of _ "Some y"], unfold option.case, intro conjI exI [of _ us] exI [of _ "z # zs"]) auto
  qed
qed

lemma merge_step:
  assumes inv: "buddy_inv h a fl A" and x: "x \<in> set (fl k)" and yk: "y \<in> set (fl k)" and y: "y = x + block_bytes k"
    and k: "k < max_order" "bsize (Suc k) dvd unat x" and m: "merge_with h a k x y = (h', a')"
  shows "rearranged h a fl A h' a' (fl(k := remove1 y (remove1 x (fl k)), Suc k := x # fl (Suc k)))"
proof -
  let ?F = "free_blocks fl"
  have lo: "lists_ok h a fl" and bo: "blocks_ok h a ?F A" using inv by (auto simp: buddy_inv_def)
  note D = blocks_okD [OF bo]
  have xF: "(x, k) \<in> ?F" and yF: "(y, k) \<in> ?F" using x yk by (simp_all add: free_blocks_iff)
  have bx: "block_ok h a (x, Suc k)" using merged_ok [OF D(1)] D(2) xF yF y k by blast
  note H = halves_ok [OF D(1) bx y]
  note R = brange_halves [OF H(3)]
  obtain h1 a1 where u1: "unlink h a k x = (h1, a1)" by fastforce
  note U1 = unlink_lists [OF lo x u1]
  define fl1 where "fl1 = fl(k := remove1 x (fl k))"
  note U1 = U1 [folded fl1_def]
  have y1: "y \<in> set (fl1 k)" using yk H(4) lists_ok_distinct [OF lo] by (simp add: fl1_def)
  obtain h2 a2 where u2: "unlink h1 a1 k y = (h2, a2)" by fastforce
  note U2 = unlink_lists [OF U1(1) y1 u2]
  define fl2 where "fl2 = fl1(k := remove1 y (fl1 k))"
  note U2 = U2 [folded fl2_def]
  have sp2: "same_pages h h2" using U1(2) U2(2) by (simp add: same_pages_def)
  then have hh2: "hhdm h2 = hhdm h" by (simp add: same_pages_def)
  have hp: "hhdm_ok h2" "hpage h2 x" "hpage h2 y"
    using D(1) block_ok_hpage [OF D(1) H(1)] block_ok_hpage [OF D(1) H(2)] by (simp_all add: heap_congs [OF hh2])
  define h3 where "h3 = set_page (set_page h2 x (\<lambda>p. p\<lparr>order := of_nat (k + 1)\<rparr>)) x
      (\<lambda>p. p\<lparr>next_paddr := next_paddr (get_page (set_page h2 x (\<lambda>p. p\<lparr>order := of_nat (k + 1)\<rparr>)) y)\<rparr>)"
  have p: "put h3 a2 (Suc k) x = (h', a')" using m u1 u2 by (simp add: merge_with_def h3_def Let_def)
  have okc: "hhdm_ok (set_page h2 x f)" "hpage (set_page h2 x f) z = hpage h2 z" for f z
    using hp(1) by (simp_all add: hhdm_ok_def hpage_def)
  have h3: "pages_except {x} h2 h3" "nodes h3 = nodes h2"
    "get_page h3 x = (get_page h2 x)\<lparr>order := of_nat (Suc k), next_paddr := next_paddr (get_page h2 y)\<rparr>"
    using hp H(4) by (simp_all add: h3_def pages_except_def get_set_page okc)
  have px: "pages_except {x} h h3" using same_pages_except [OF sp2] h3(1) by (rule pages_except_trans)
  have b3: "blocks_ok h3 a (insert (x, Suc k) (?F - {(x, k), (y, k)})) A"
    using blocks_merge [OF bo xF yF y k px] h3(3) by (simp add: same_pages_get [OF sp2])
  have l3: "lists_ok h3 a2 fl2" using U2(1) lists_ok_cong [OF h3(2)] by simp
  have sub: "set (fl2 j) \<subseteq> set (fl j)" for j
    by (auto simp: fl2_def fl1_def dest!: set_remove1_subset [THEN subsetD] split: if_splits)
  have xnot: "x \<notin> set (fl2 j)" for j
    using lists_ok_unique [OF lo, of x j k] x sub [of j] lists_ok_distinct [OF lo, of k]
    by (cases "j = k") (auto simp: fl2_def fl1_def)
  note P = put_lists [OF l3 block_start_nonzero [OF D(1) H(1)] xnot p]
  define fl3 where "fl3 = fl2(Suc k := x # fl2 (Suc k))"
  note P = P [folded fl3_def]
  have e3: "fl3 = fl(k := remove1 y (remove1 x (fl k)), Suc k := x # fl (Suc k))"
    by (simp add: fl3_def fl2_def fl1_def)
  have F1: "free_blocks fl1 = ?F - {(x, k)}" unfolding fl1_def
    by (rule free_blocks_drop) (simp_all add: lists_ok_distinct [OF lo])
  have F2: "free_blocks fl2 = free_blocks fl1 - {(y, k)}" unfolding fl2_def
    by (rule free_blocks_drop) (simp_all add: lists_ok_distinct [OF U1(1)])
  have F3: "free_blocks fl3 = insert (x, Suc k) (?F - {(x, k), (y, k)})"
    unfolding fl3_def free_blocks_push F2 F1 by auto
  have "buddy_inv h' a' fl3 A"
    using P b3 F3 U1 U2 blocks_ok_cong [OF P(2), of a' a] by (simp add: buddy_inv_def)
  moreover have ap: "pairwise_apart (?F \<union> A)" using bo by (simp add: blocks_ok_def)
  have rF: "region (?F - {(x, k)} - {(y, k)}) = region ?F - brange (x, k) - brange (y, k)"
    using region_Diff [OF ap, of ?F "(x, k)"] region_Diff [OF ap, of "?F - {(x, k)}" "(y, k)"] H(4) xF yF by auto
  have "?F - {(x, k), (y, k)} = ?F - {(x, k)} - {(y, k)}" by blast
  then have "region (free_blocks fl3) = brange (x, Suc k) \<union> (region ?F - brange (x, k) - brange (y, k))"
    by (simp only: F3 region_insert rF)
  then have "region (free_blocks fl3) = region ?F"
    using R region_mem [OF xF] region_mem [OF yF] by blast
  moreover have "only_touches (region ?F) h h'"
  proof (rule only_touchesI)
    show "pages_except {x} h h'" using px same_pages_except [OF P(2)] by (rule pages_except_trans)
    show xr: "unat w \<in> region ?F" if "w \<in> {x}" for w
      using that region_mem [OF xF] brange_fst [of x k] by blast
    show "nodes h' w = nodes h w" if w: "unat w \<notin> region ?F" for w
    proof -
      have "w \<noteq> x" using w xr by auto
      moreover have "w \<notin> set (fl2 (Suc k))" "w \<notin> set (fl1 k)" "w \<notin> set (fl k)"
        using free_node_region [OF w] sub set_remove1_subset by (fastforce simp: fl1_def)+
      ultimately show ?thesis using P(3) h3(2) U2(3) U1(3) by simp
    qed
  qed
  ultimately show ?thesis
    using P(4,5) U1(4,5) U2(4,5) unfolding rearranged_def e3 [symmetric] by simp
qed

lemma next_block_found:
  assumes bo: "blocks_ok h a F A" and x: "(x, k) \<in> F" and n: "next_paddr (get_page h x) \<noteq> 0"
  defines "y \<equiv> x + block_bytes k"
  shows "tohh (hhdm h) (push_bit page_bits (ucast (next_paddr (get_page h x)))) = y"
    "allocated (get_page h y) = 0 \<Longrightarrow> order (get_page h y) = of_nat k \<Longrightarrow> (y, k) \<in> F"
proof -
  note D = blocks_okD [OF bo]
  from D(10) [of "(x, k)"] x n have e: "next_paddr (get_page h x) = page_frame h y" "y \<in> fst ` (F \<union> A)"
    by (auto simp: next_ok_def Let_def y_def)
  then obtain j where j: "(y, j) \<in> F \<union> A" by force
  then have "hpage h y" using D(3) by fastforce
  then show "tohh (hhdm h) (push_bit page_bits (ucast (next_paddr (get_page h x)))) = y"
    using frame_roundtrip [OF D(1)] e(1) by simp
  assume y: "allocated (get_page h y) = 0" "order (get_page h y) = of_nat k"
  have "j \<le> max_order" "k \<le> max_order" using D(2) [OF j] D(2) [of "(x, k)"] x by (auto simp: block_ok_def)
  then have "j = k" using D(6) [OF j] y(2) of_nat_order_eq [of j k] by simp
  then show "(y, k) \<in> F" using j D(8) [of "(y, j)"] y(1) by auto
qed

lemma mod_block_bytes:
  "k \<le> max_order \<Longrightarrow> x mod block_bytes (Suc k) = 0 \<longleftrightarrow> bsize (Suc k) dvd unat x"
  using unat_block_bytes_bsize [of "Suc k"]
  by (simp add: word_unat_eq_iff unat_mod_distrib dvd_eq_mod_eq_0 del: mod_0_imp_dvd)

lemma length_remove_two:
  "x \<in> set xs \<Longrightarrow> y \<in> set xs \<Longrightarrow> x \<noteq> y \<Longrightarrow> Suc (Suc (length (remove1 y (remove1 x xs)))) = length xs"
proof -
  assume a: "x \<in> set xs" "y \<in> set xs" "x \<noteq> y"
  then have "y \<in> set (remove1 x xs)" by simp
  moreover have "0 < length (remove1 x xs)" using calculation by (cases "remove1 x xs") auto
  ultimately show ?thesis using a by (simp add: length_remove1)
qed

lemma coalesce_loop_ok:
  assumes "buddy_inv h a fl A" "k < max_order" "fl k = us @ cur # ys"
  shows "\<exists>h' a' fl'. coalesce_loop h a k cur = Some (Inr (h', a')) \<and> rearranged h a fl A h' a' fl'"
  using assms
proof (induction "length (fl k) * length (fl k) + length ys" arbitrary: h a fl us cur ys rule: less_induct)
  case less
  note inv = less.prems(1) and k = less.prems(2) and flk = less.prems(3)
  have lo: "lists_ok h a fl" and bo: "blocks_ok h a (free_blocks fl) A" using inv by (auto simp: buddy_inv_def)
  note D = blocks_okD [OF bo]
  have dl: "dll (nodes h) 0 (lists a k) (us @ cur # ys)" using lo flk by (metis lists_ok_def)
  have hp: "has_pages a k" using has_pages_lists [OF lo] flk by simp
  from next_candidate_ok [OF dl, of "block_bytes (k + 1)"] obtain r where
    nc: "next_candidate h (block_bytes (k + 1)) cur = Some r" and
    r: "case r of None \<Rightarrow> True | Some c \<Rightarrow> \<exists>us' ys'. us @ cur # ys = us' @ c # ys' \<and> length ys' \<le> length ys \<and>
          next_paddr (get_page h c) \<noteq> 0 \<and> c mod block_bytes (k + 1) = 0" by blast
  show ?case
  proof (cases r)
    case None
    then show ?thesis using hp nc rearranged_refl [OF inv] by (subst coalesce_loop.simps) auto
  next
    case (Some c)
    then obtain us' ys' where c: "fl k = us' @ c # ys'" "length ys' \<le> length ys"
      "next_paddr (get_page h c) \<noteq> 0" "c mod block_bytes (k + 1) = 0" using r [unfolded Some option.case] flk by metis
    have cF: "(c, k) \<in> free_blocks fl" and ck: "c \<in> set (fl k)" using c(1) by (simp_all add: free_blocks_iff)
    have cal: "allocated (get_page h c) = 0" "order (get_page h c) = of_nat k"
      using D(7) [OF cF] D(6) [of "(c, k)"] cF by auto
    define y where "y = c + block_bytes k"
    note N = next_block_found [OF bo cF c(3), folded y_def]
    show ?thesis
    proof (cases "allocated (get_page h y) \<noteq> 0 \<or> order (get_page h y) \<noteq> of_nat k")
      case True
      have dl': "dll (nodes h) 0 (lists a k) (us' @ c # ys')" using lo c(1) by (metis lists_ok_def)
      show ?thesis
      proof (cases ys')
        case Nil
        then have "lnext (nodes h c) = 0" using dll_next [OF dl'] by simp
        then show ?thesis using hp nc Some cal N(1) True rearranged_refl [OF inv]
          by (subst coalesce_loop.simps) (auto simp: Let_def)
      next
        case (Cons z zs)
        then have z: "lnext (nodes h c) = z" "z \<noteq> 0" using dll_next [OF dl'] dll_nonzero [OF dl'] by auto
        then have "coalesce_loop h a k cur = coalesce_loop h a k z"
          using hp nc Some cal N(1) True by (subst coalesce_loop.simps) (auto simp: Let_def)
        moreover have "fl k = (us' @ [c]) @ z # zs" using c(1) Cons by simp
        ultimately show ?thesis using less.hyps [of fl zs h a "us' @ [c]" z] inv k c(2) Cons by simp
      qed
    next
      case False
      then have yF: "y \<in> set (fl k)" using N(2) by (simp add: free_blocks_iff)
      obtain h1 a1 where m: "merge_with h a k c y = (h1, a1)" by fastforce
      have dv: "bsize (Suc k) dvd unat c" using c(4) mod_block_bytes [of k c] k by simp
      define fl1 where "fl1 = fl(k := remove1 y (remove1 c (fl k)), Suc k := c # fl (Suc k))"
      have R: "rearranged h a fl A h1 a1 fl1"
        using merge_step [OF inv ck yF y_def k dv m] by (simp add: fl1_def)
      then have inv1: "buddy_inv h1 a1 fl1 A" by (simp add: rearranged_def)
      have "block_bytes k \<noteq> 0" using unat_block_bytes_bsize [of k] k bsize_pos [of k] by (metis less_imp_le le_SucI unat_0 less_numeral_extra(3))
      then have "c \<noteq> y" by (simp add: y_def)
      then have len: "Suc (Suc (length (fl1 k))) = length (fl k)"
        using length_remove_two [OF ck yF] by (simp add: fl1_def)
      have eq: "coalesce_loop h a k cur = coalesce_loop h1 a1 k (lists a1 k)"
        using hp nc Some cal N(1) False m by (subst coalesce_loop.simps) (auto simp: Let_def)
      have lo1: "lists_ok h1 a1 fl1" using inv1 by (simp add: buddy_inv_def)
      show ?thesis
      proof (cases "fl1 k")
        case Nil
        then have "\<not> has_pages a1 k" using has_pages_lists [OF lo1] by simp
        then have "coalesce_loop h1 a1 k (lists a1 k) = Some (Inr (h1, a1))"
          by (subst coalesce_loop.simps) simp
        then show ?thesis using eq R by auto
      next
        case (Cons z zs)
        have lt: "length (fl1 k) * length (fl1 k) + length zs < length (fl k) * length (fl k) + length ys"
          using len [symmetric] Cons by simp
        have "lists a1 k = z"
          using lo1 Cons by (metis dll.simps(2) lists_ok_def)
        then show ?thesis
          using less.hyps [OF lt inv1 k, of "[]" z] Cons eq rearranged_trans [OF R] by fastforce
      qed
    qed
  qed
qed

lemma coalesce_upto_ok:
  "buddy_inv h a fl A \<Longrightarrow> (\<forall>k\<in>set ks. k < max_order) \<Longrightarrow>
   \<exists>h' a' fl'. coalesce_upto h a ks = Some (Inr (h', a')) \<and> rearranged h a fl A h' a' fl'"
proof (induction ks arbitrary: h a fl)
  case Nil
  then show ?case using rearranged_refl [OF Nil(1)] by auto
next
  case (Cons k ks)
  have "\<exists>h' a' fl'. coalesce_loop h a k (lists a k) = Some (Inr (h', a')) \<and> rearranged h a fl A h' a' fl'"
  proof (cases "fl k")
    case Nil
    then have "\<not> has_pages a k" using has_pages_lists [of h a fl k] Cons.prems by (simp add: buddy_inv_def)
    then have "coalesce_loop h a k (lists a k) = Some (Inr (h, a))" by (subst coalesce_loop.simps) simp
    then show ?thesis using rearranged_refl [OF Cons.prems(1)] by auto
  next
    case (Cons z zs)
    then have "lists a k = z" using Cons.prems(1) by (metis buddy_inv_def dll.simps(2) lists_ok_def)
    then show ?thesis using coalesce_loop_ok [OF Cons.prems(1), of k "[]" z zs] Cons Cons.prems(2) by simp
  qed
  then obtain h1 a1 fl1 where 1: "coalesce_loop h a k (lists a k) = Some (Inr (h1, a1))" "rearranged h a fl A h1 a1 fl1" by blast
  then have "buddy_inv h1 a1 fl1 A" by (simp add: rearranged_def)
  from Cons.IH [OF this] Cons.prems(2) obtain h2 a2 fl2 where
    2: "coalesce_upto h1 a1 ks = Some (Inr (h2, a2))" "rearranged h1 a1 fl1 A h2 a2 fl2" by auto
  then show ?case using 1 rearranged_trans [OF 1(2) 2(2)] by auto
qed

lemma coalesce_to_ok:
  assumes "buddy_inv h a fl A"
  shows "\<exists>h' a' fl'. coalesce_to h a target = Some (Inr (h', a')) \<and> rearranged h a fl A h' a' fl'"
proof (cases "target = 0")
  case True
  then show ?thesis using rearranged_refl [OF assms] by (auto simp: coalesce_to_def)
next
  case False
  then show ?thesis using coalesce_upto_ok [OF assms, of "[0..<min target max_order]"]
    by (auto simp: coalesce_to_def min_def split: if_splits)
qed

lemma order_of_count: "0 < n \<Longrightarrow> \<exists>k. n \<le> 2 ^ k \<and> (2::nat) ^ k < 2 * n"
proof -
  assume n: "0 < n"
  define k where "k = (LEAST k. n \<le> 2 ^ k)"
  have "\<exists>k. n \<le> 2 ^ k" using less_exp [of n] by (intro exI [of _ n]) simp
  then have k: "n \<le> 2 ^ k" unfolding k_def by (rule LeastI_ex)
  moreover have "2 ^ k < 2 * n"
  proof (cases k)
    case (Suc j)
    then have "\<not> n \<le> 2 ^ j" using not_less_Least [of j "\<lambda>k. n \<le> 2 ^ k"] by (simp add: k_def)
    then show ?thesis using Suc by simp
  qed (use n in simp)
  ultimately show ?thesis by blast
qed

lemma unat_bytes: "unat n < 2 ^ 52 \<Longrightarrow> unat (n * page_size) = unat n * 4096"
  by (simp add: unat_word_ariths)

lemma next_order_from_eq:
  assumes "k < 52" "2 ^ k < 2 * unat n" "unat n \<le> 2 ^ k" "unat n < 2 ^ 52"
  shows "next_order_from (n * page_size) = int k"
proof -
  note b = unat_bytes [OF assms(4)]
  have p: "(2::nat) ^ (k + 12) = 2 ^ k * 4096" by (simp add: power_add)
  have "next_pow2 (n * page_size) = 2 ^ (k + 12)"
    using assms by (intro next_pow2_eq) (simp_all add: b p)
  then have "log2 (next_pow2 (n * page_size)) - 12 = of_nat k"
    using assms(1) log2_2p [of "k + 12"] by simp
  moreover have "\<not> n * page_size < page_size" using assms(2) by (simp add: word_less_nat_alt b)
  ultimately show ?thesis using assms(1) by (simp add: next_order_from_def sint_small)
qed

lemma next_order_from_neg:
  assumes "unat n < 2 ^ 52" "n = 0 \<or> 2 ^ 51 < unat n"
  shows "next_order_from (n * page_size) < 0"
proof (cases "n = 0")
  case True
  then show ?thesis by (simp add: next_order_from_def)
next
  case False
  then have "next_pow2 (n * page_size) = 0" using assms by (intro next_pow2_big) (simp add: unat_bytes)
  then have "log2 (next_pow2 (n * page_size)) - 12 = - 13"
    by (simp add: log2_def bit_width_def bit_width_nat.simps)
  then have "next_order_from (n * page_size) = -1 \<or> next_order_from (n * page_size) = sint (- 13 :: u64)"
    by (simp only: next_order_from_def) auto
  moreover have "sint (- 13 :: u64) < 0" by simp
  ultimately show ?thesis by auto
qed

lemma next_order_from_cases [consumes 1, case_names small none]:
  assumes "unat n < 2 ^ 52"
  obtains (small) k where "next_order_from (n * page_size) = int k" "k \<le> max_order" "0 < unat n" "unat n \<le> 2 ^ k" "2 ^ k < 2 * unat n"
  | (none) "next_order_from (n * page_size) < 0 \<or> nat (next_order_from (n * page_size)) > max_order"
      "n = 0 \<or> 2 ^ max_order < unat n"
proof -
  consider "n = 0" | "2 ^ 51 < unat n" | k where "0 < unat n" "unat n \<le> 2 ^ k" "2 ^ k < 2 * unat n" "unat n \<le> 2 ^ 51"
    using order_of_count [of "unat n"] by (metis not_less unat_eq_zero neq0_conv)
  then show ?thesis
  proof cases
    case 1 then show ?thesis using next_order_from_neg [OF assms] none by blast
  next
    case 2
    moreover from 2 have "2 ^ max_order < unat n" by simp
    ultimately show ?thesis using next_order_from_neg [OF assms] none by blast
  next
    case 3
    have "(2::nat) ^ k < 2 ^ 52" using 3 by simp
    then have k: "k < 52" by (rule power_less_imp_less_exp [rotated]) simp
    note e = next_order_from_eq [OF k 3(3,2) assms]
    show ?thesis
    proof (cases "k \<le> max_order")
      case True then show ?thesis using small e 3 by blast
    next
      case False
      then have "(2::nat) * 2 ^ max_order \<le> 2 ^ k" using power_increasing [of "Suc max_order" k "2::nat"] by simp
      then have "2 ^ max_order < unat n" using 3 by linarith
      then show ?thesis using none e False by simp
    qed
  qed
qed

lemma take_block_ok:
  assumes inv: "buddy_inv h a fl A" and ne: "fl k \<noteq> []"
  shows "\<exists>h' a' x fl'. take_block h a k = Inr (h', a', x, block_bytes k) \<and> (x, k) \<in> free_blocks fl \<and>
     buddy_inv h' a' fl' (insert (x, k) A) \<and> region (free_blocks fl') = region (free_blocks fl) - brange (x, k) \<and>
     only_touches (region (free_blocks fl)) h h' \<and> astart a' = astart a \<and> aend a' = aend a"
proof -
  let ?F = "free_blocks fl"
  obtain x xs where fl: "fl k = x # xs" using ne by (cases "fl k") auto
  have lo: "lists_ok h a fl" and bo: "blocks_ok h a ?F A" using inv by (auto simp: buddy_inv_def)
  note D = blocks_okD [OF bo]
  obtain h1 a1 where r: "rem h a k = Inr (x, h1, a1)" and l1: "lists_ok h1 a1 (fl(k := xs))" "same_pages h h1"
      "\<And>y. y \<notin> set (fl k) \<Longrightarrow> nodes h1 y = nodes h y" "astart a1 = astart a" "aend a1 = aend a"
    using rem_lists [OF lo fl] by metis
  have x: "(x, k) \<in> ?F" using fl by (simp add: free_blocks_iff)
  have hh1: "hhdm h1 = hhdm h" using l1(2) by (simp add: same_pages_def)
  have hp: "hhdm_ok h1" "hpage h1 x" using D(1) D(3) [of "(x, k)"] x by (simp_all add: heap_congs [OF hh1])
  define h2 where "h2 = set_page h1 x (\<lambda>p. p\<lparr>allocated := 1\<rparr>)"
  have pg: "allocated (get_page h1 x) = 0" "order (get_page h1 x) = of_nat k"
    using D(6) [of "(x, k)"] D(7) [OF x] x by (simp_all add: same_pages_get [OF l1(2)])
  have t: "take_block h a k = Inr (h2, a1, x, block_bytes k)"
    using r pg by (simp add: take_block_def bug_on_def h2_def Let_def)
  have px: "pages_except {x} h h2"
    using same_pages_except [OF l1(2)] pages_except_set [OF hp] unfolding h2_def by (rule pages_except_trans) simp
  have g2: "get_page h2 x = (get_page h x)\<lparr>allocated := 1\<rparr>"
    using get_set_page [OF hp hp(2)] by (simp add: h2_def same_pages_get [OF l1(2)])
  have F1: "free_blocks (fl(k := xs)) = ?F - {(x, k)}"
    by (rule free_blocks_drop) (use lists_ok_distinct [OF lo, of k] fl in \<open>simp_all add: insert_Diff_if\<close>)
  have "blocks_ok h2 a (?F - {(x, k)}) (insert (x, k) A)" by (rule blocks_take [OF bo x px g2])
  moreover have "same_pages h2 h2" by (simp add: same_pages_def)
  ultimately have "buddy_inv h2 a1 (fl(k := xs)) (insert (x, k) A)"
    using l1(1,4,5) F1 lists_ok_cong [of h2 h1 a1 a1] blocks_ok_cong [of h2 h2 a1 a] by (simp add: buddy_inv_def h2_def)
  moreover have "pairwise_apart (?F \<union> A)" using bo by (simp add: blocks_ok_def)
  then have "region (free_blocks (fl(k := xs))) = region ?F - brange (x, k)"
    unfolding F1 by (rule region_Diff) (use x in auto)
  moreover have "only_touches (region ?F) h h2"
    using px
  proof (rule only_touchesI)
    show "unat w \<in> region ?F" if "w \<in> {x}" for w using that region_mem [OF x] brange_fst [of x k] by blast
    show "nodes h2 w = nodes h w" if w: "unat w \<notin> region ?F" for w
      using l1(3) free_node_region [OF w] by (simp add: h2_def)
  qed
  ultimately show ?thesis using t x l1(4,5) by blast
qed

lemma alloc_free_ok:
  assumes inv: "buddy_inv h a fl A" and x: "(x, k) \<in> A" and n: "unat n \<le> 2 ^ k" "2 ^ k < 2 * unat n"
  shows "\<exists>h' a' fl'. alloc_free h a x n = Inr (h', a', n * page_size) \<and>
     buddy_inv h' a' fl' (A - {(x, k)}) \<and> free_blocks fl' = insert (x, k) (free_blocks fl) \<and>
     only_touches (region (insert (x, k) (free_blocks fl))) h h' \<and> astart a' = astart a \<and> aend a' = aend a"
proof -
  let ?F = "free_blocks fl"
  have lo: "lists_ok h a fl" and bo: "blocks_ok h a ?F A" using inv by (auto simp: buddy_inv_def)
  note D = blocks_okD [OF bo]
  have bx: "block_ok h a (x, k)" using D(2) x by blast
  then have k: "k \<le> max_order" by (simp add: block_ok_def)
  then have "(2::nat) ^ k \<le> 2 ^ max_order" by (rule power_increasing) simp
  then have o: "next_order_from (n * page_size) = int k"
    using k n by (intro next_order_from_eq) auto
  have hp: "hpage h x" using D(3) [of "(x, k)"] x by simp
  have pg: "allocated (get_page h x) = 1" "order (get_page h x) = of_nat k"
    using D(6) [of "(x, k)"] D(8) [OF x] x by simp_all
  have uo: "uint (of_nat k :: 4 word) = int k" using k by (simp add: unsigned_of_nat take_bit_nat_eq_self uint_nat)
  define h1 where "h1 = set_page h x (\<lambda>p. p\<lparr>allocated := 0\<rparr>)"
  have px: "pages_except {x} h h1" using pages_except_set [OF D(1) hp] by (simp add: h1_def)
  have g1: "get_page h1 x = (get_page h x)\<lparr>allocated := 0\<rparr>" using get_set_page [OF D(1) hp hp] by (simp add: h1_def)
  have b1: "blocks_ok h1 a (insert (x, k) ?F) (A - {(x, k)})" by (rule blocks_give [OF bo x px g1])
  have l1: "lists_ok h1 a fl" using lo lists_ok_cong [of h1 h a a] by (simp add: h1_def)
  have xnot: "x \<notin> set (fl j)" for j
    using blocks_same_start [OF bo, of x j k] D(5) x by (auto simp: free_blocks_iff [symmetric])
  have hx: "tohh (hhdm h1) x = x" using hp by (simp add: tohh_def ishh_def hpage_def word_le_nat_alt h1_def)
  obtain h2 a2 where p: "put h1 a k x = (h2, a2)" by fastforce
  note P = put_lists [OF l1 block_start_nonzero [OF D(1) bx] xnot p]
  have "alloc_free h a x n = Inr (h2, a2, n * page_size)"
    using o k pg uo p hx by (simp add: alloc_free_def bug_on_def Let_def h1_def)
  moreover have "buddy_inv h2 a2 (fl(k := x # fl k)) (A - {(x, k)})"
    using P b1 blocks_ok_cong [OF P(2), of a2 a] unfolding buddy_inv_def free_blocks_push by simp
  moreover have "only_touches (region (insert (x, k) ?F)) h h2"
  proof (rule only_touchesI)
    show "pages_except {x} h h2" using px same_pages_except [OF P(2)] by (rule pages_except_trans)
    show "unat w \<in> region (insert (x, k) ?F)" if "w \<in> {x}" for w using that brange_fst [of x k] by simp
    show "nodes h2 w = nodes h w" if w: "unat w \<notin> region (insert (x, k) ?F)" for w
    proof -
      have "w \<noteq> x" "w \<notin> set (fl k)" using w free_node_region [of w fl k] brange_fst [of x k] by auto
      then show ?thesis using P(3) by (simp add: h1_def)
    qed
  qed
  ultimately show ?thesis using P(4,5) free_blocks_push [of fl k x] by blast
qed

lemma take_after:
  assumes R: "rearranged h a fl A h1 a1 fl1" and ne: "fl1 k \<noteq> []"
  shows "\<exists>h' a' x fl'. take_block h1 a1 k = Inr (h', a', x, block_bytes k) \<and> x \<noteq> 0 \<and> (x, k) \<notin> A \<and>
     brange (x, k) \<subseteq> region (free_blocks fl) \<and>
     buddy_inv h' a' fl' (insert (x, k) A) \<and> region (free_blocks fl') = region (free_blocks fl) - brange (x, k) \<and>
     only_touches (region (free_blocks fl)) h h' \<and> astart a' = astart a \<and> aend a' = aend a"
proof -
  have inv: "buddy_inv h1 a1 fl1 A" and reg: "region (free_blocks fl1) = region (free_blocks fl)"
    and ot: "only_touches (region (free_blocks fl)) h h1" "astart a1 = astart a" "aend a1 = aend a"
    using R by (auto simp: rearranged_def)
  from take_block_ok [OF inv ne] obtain h' a' x fl' where
    t: "take_block h1 a1 k = Inr (h', a', x, block_bytes k)" "(x, k) \<in> free_blocks fl1"
     "buddy_inv h' a' fl' (insert (x, k) A)" "region (free_blocks fl') = region (free_blocks fl1) - brange (x, k)"
     "only_touches (region (free_blocks fl1)) h1 h'" "astart a' = astart a1" "aend a' = aend a1" by blast
  have bo: "blocks_ok h1 a1 (free_blocks fl1) A" using inv by (simp add: buddy_inv_def)
  have "(x, k) \<notin> A" using blocks_okD(5) [OF bo] t(2) by blast
  moreover have "x \<noteq> 0"
    using block_start_nonzero [OF blocks_okD(1) [OF bo] blocks_okD(2) [OF bo, of "(x, k)"]] t(2) by blast
  moreover have "only_touches (region (free_blocks fl)) h h'"
    using ot(1) t(5) unfolding reg by (rule only_touches_trans)
  ultimately show ?thesis using t region_mem [OF t(2)] reg ot by auto
qed

text \<open>What one allocation does to the blocks of one allocator.\<close>

definition alloc_result :: "heap \<Rightarrow> allocator \<Rightarrow> (nat \<Rightarrow> u64 list) \<Rightarrow> (u64 \<times> nat) set \<Rightarrow> u64 \<Rightarrow>
    heap \<Rightarrow> allocator \<Rightarrow> u64 \<Rightarrow> u64 \<Rightarrow> (nat \<Rightarrow> u64 list) \<Rightarrow> (u64 \<times> nat) set \<Rightarrow> bool" where
  "alloc_result h a fl A n h' a' p s fl' A' \<longleftrightarrow>
     buddy_inv h' a' fl' A' \<and> only_touches (region (free_blocks fl)) h h' \<and> astart a' = astart a \<and> aend a' = aend a \<and>
     (if p = 0 then s = 0 \<and> A' = A \<and> region (free_blocks fl') = region (free_blocks fl)
      else \<exists>k. A' = insert (p, k) A \<and> (p, k) \<notin> A \<and> s = block_bytes k \<and> k \<le> max_order \<and>
        unat n \<le> 2 ^ k \<and> 2 ^ k < 2 * unat n \<and> brange (p, k) \<subseteq> region (free_blocks fl) \<and>
        region (free_blocks fl') = region (free_blocks fl) - brange (p, k))"

lemma rearranged_failed: "rearranged h a fl A h' a' fl' \<Longrightarrow> alloc_result h a fl A n h' a' 0 0 fl' A"
  by (simp add: rearranged_def alloc_result_def)

lemma rearranged_taken:
  assumes "rearranged h a fl A h1 a1 fl1" "fl1 k \<noteq> []" "k \<le> max_order" "unat n \<le> 2 ^ k" "2 ^ k < 2 * unat n"
  obtains h' a' x fl' where "take_block h1 a1 k = Inr (h', a', x, block_bytes k)" "x \<noteq> 0"
    "alloc_result h a fl A n h' a' x (block_bytes k) fl' (insert (x, k) A)"
proof -
  from take_after [OF assms(1,2)] obtain h' a' x fl' where
    t: "take_block h1 a1 k = Inr (h', a', x, block_bytes k)" "x \<noteq> 0" "(x, k) \<notin> A"
     "brange (x, k) \<subseteq> region (free_blocks fl)"
     "buddy_inv h' a' fl' (insert (x, k) A)" "region (free_blocks fl') = region (free_blocks fl) - brange (x, k)"
     "only_touches (region (free_blocks fl)) h h'" "astart a' = astart a" "aend a' = aend a" by blast
  have "alloc_result h a fl A n h' a' x (block_bytes k) fl' (insert (x, k) A)"
    unfolding alloc_result_def using t assms(3-5) by (auto intro!: exI [of _ k])
  then show ?thesis using that t(1,2) by blast
qed

lemma take_or_fail:
  assumes R: "rearranged h a fl A h1 a1 fl1" and k: "k \<le> max_order" "unat n \<le> 2 ^ k" "2 ^ k < 2 * unat n"
  shows "\<exists>h' a' p s fl' A'. (if \<not> has_pages a1 k then Some (Inr (h1, a1, 0, 0)) else Some (take_block h1 a1 k)) =
       Some (Inr (h', a', p, s)) \<and> alloc_result h a fl A n h' a' p s fl' A' \<and> (fl1 k \<noteq> [] \<longrightarrow> p \<noteq> 0)"
proof -
  have hp: "has_pages a1 k \<longleftrightarrow> fl1 k \<noteq> []"
    using R has_pages_lists [of h1 a1 fl1 k] by (simp add: rearranged_def buddy_inv_def)
  show ?thesis
  proof (cases "fl1 k = []")
    case True
    then show ?thesis using hp rearranged_failed [OF R] by auto
  next
    case False
    then show ?thesis using hp rearranged_taken [OF R False k] by (metis (no_types, lifting))
  qed
qed

lemma alloc_alloc_ok:
  assumes inv: "buddy_inv h a fl A" and n: "unat n < 2 ^ 52"
  shows "\<exists>h' a' p s fl' A'. alloc_alloc h a n = Some (Inr (h', a', p, s)) \<and> alloc_result h a fl A n h' a' p s fl' A' \<and>
     (0 < unat n \<and> (\<exists>j\<le>max_order. unat n \<le> 2 ^ j \<and> fl j \<noteq> []) \<longrightarrow> p \<noteq> 0)"
  using n
proof (cases rule: next_order_from_cases)
  case none
  have "\<not> (0 < unat n \<and> (\<exists>j\<le>max_order. unat n \<le> 2 ^ j \<and> fl j \<noteq> []))"
  proof
    assume "0 < unat n \<and> (\<exists>j\<le>max_order. unat n \<le> 2 ^ j \<and> fl j \<noteq> [])"
    then obtain j where "j \<le> max_order" "unat n \<le> 2 ^ j" "0 < unat n" by blast
    then show False using none(2) power_increasing [of j max_order "2::nat"] by auto
  qed
  then show ?thesis
    using none(1) rearranged_failed [OF rearranged_refl [OF inv]] by (auto simp: alloc_alloc_def Let_def)
next
  case (small k)
  have ord: "next_order_from (n * page_size) = int k" "nat (int k) = k" using small by simp_all
  have lo: "lists_ok h a fl" using inv by (simp add: buddy_inv_def)
  note k = small(2,4,5)
  have above: "k \<le> j" if "unat n \<le> 2 ^ j" for j
  proof (rule ccontr)
    assume "\<not> k \<le> j"
    then have "(2::nat) * 2 ^ j \<le> 2 ^ k" using power_increasing [of "Suc j" k "2::nat"] by simp
    then show False using that k(3) by linarith
  qed
  consider (avail) "fl k \<noteq> []" | (top) "fl k = []" "k = max_order" | (low) "fl k = []" "k < max_order" using k(1) by linarith
  then show ?thesis
  proof cases
    case avail
    then have "alloc_alloc h a n = (if \<not> has_pages a k then Some (Inr (h, a, 0, 0)) else Some (take_block h a k))"
      using ord k(1) has_pages_lists [OF lo, of k] by (simp add: alloc_alloc_def Let_def)
    then show ?thesis using take_or_fail [OF rearranged_refl [OF inv] k] avail by metis
  next
    case top
    from coalesce_to_ok [OF inv, of max_order] obtain h1 a1 fl1 where
      c: "coalesce_to h a max_order = Some (Inr (h1, a1))" "rearranged h a fl A h1 a1 fl1" by blast
    have "alloc_alloc h a n = (if \<not> has_pages a1 k then Some (Inr (h1, a1, 0, 0)) else Some (take_block h1 a1 k))"
      using ord top c(1) has_pages_lists [OF lo, of k] by (simp add: alloc_alloc_def Let_def)
    moreover have "\<not> (\<exists>j\<le>max_order. unat n \<le> 2 ^ j \<and> fl j \<noteq> [])" using above top le_antisym by blast
    ultimately show ?thesis using take_or_fail [OF c(2) k] by metis
  next
    case low
    from split_to_ok [OF inv low(2)] obtain h1 a1 fl1 where
      s: "split_to h a k = Inr (h1, a1)" "rearranged h a fl A h1 a1 fl1"
        "(\<exists>j>k. j \<le> max_order \<and> fl j \<noteq> []) \<longrightarrow> fl1 k \<noteq> []" by blast
    have inv1: "buddy_inv h1 a1 fl1 A" using s(2) by (simp add: rearranged_def)
    have suff: "fl1 k \<noteq> []" if "\<exists>j\<le>max_order. unat n \<le> 2 ^ j \<and> fl j \<noteq> []"
      using that s(3) above low by (metis le_neq_implies_less)
    have hp: "\<not> has_pages a k" "has_pages a1 k \<longleftrightarrow> fl1 k \<noteq> []"
      using has_pages_lists [OF lo, of k] has_pages_lists [of h1 a1 fl1 k] inv1 low by (simp_all add: buddy_inv_def)
    show ?thesis
    proof (cases "fl1 k \<noteq> [] \<or> k = 0")
      case True
      then have "alloc_alloc h a n = (if \<not> has_pages a1 k then Some (Inr (h1, a1, 0, 0)) else Some (take_block h1 a1 k))"
        using ord low hp s(1) by (auto simp: alloc_alloc_def Let_def)
      then show ?thesis using take_or_fail [OF s(2) k] suff by metis
    next
      case False
      from coalesce_to_ok [OF inv1, of k] obtain h2 a2 fl2 where
        c: "coalesce_to h1 a1 k = Some (Inr (h2, a2))" "rearranged h1 a1 fl1 A h2 a2 fl2" by blast
      have "alloc_alloc h a n = (if \<not> has_pages a2 k then Some (Inr (h2, a2, 0, 0)) else Some (take_block h2 a2 k))"
        using ord low hp s(1) c(1) False by (simp add: alloc_alloc_def Let_def)
      then show ?thesis using take_or_fail [OF rearranged_trans [OF s(2) c(2)] k] suff False by metis
    qed
  qed
qed

lemma buddy_inv_frame:
  assumes inv: "buddy_inv h a fl A" and t: "only_touches R h h'" and d: "R \<inter> region (free_blocks fl \<union> A) = {}"
  shows "buddy_inv h' a fl A"
proof -
  let ?F = "free_blocks fl"
  have lo: "lists_ok h a fl" and bo: "blocks_ok h a ?F A" using inv by (auto simp: buddy_inv_def)
  note D = blocks_okD [OF bo]
  have hh: "hhdm h' = hhdm h" using t by (simp add: only_touches_def)
  have out: "unat z \<notin> R" if "b \<in> ?F \<union> A" "unat z \<in> brange b" for b z
    using region_mem [OF that(1)] that(2) d by blast
  have n: "nodes h' x = nodes h x" if "x \<in> set (fl k)" for x k
    using out [of "(x, k)" x] that t by (simp add: only_touches_def free_blocks_iff)
  have "dll (nodes h') 0 (lists a k) (fl k)" for k
    using lo n by (subst dll_cong [where n = "nodes h"]) (auto simp: lists_ok_def)
  then have "lists_ok h' a fl" using lo by (simp add: lists_ok_def)
  moreover have g: "get_page h' z = get_page h z" if "b \<in> ?F \<union> A" "unat z \<in> brange b" "4096 dvd unat z" for b z
    using out [OF that(1,2)] block_ok_hpage_in [OF D(1) D(2) [OF that(1)] that(2,3)] t by (simp add: only_touches_def)
  have g0: "get_page h' (fst b) = get_page h (fst b)" if "b \<in> ?F \<union> A" for b
    using g [OF that in_brange] D(3) [OF that] by (simp add: hpage_def)
  have nx: "next_ok h' (?F \<union> A) b = next_ok h (?F \<union> A) b" if "b \<in> ?F \<union> A" for b
    using g0 [OF that] by (simp add: next_ok_def page_frame_cong [OF hh])
  have "blocks_ok h' a ?F A"
    unfolding blocks_ok_def
    using D(1,2,4-10) g g0 nx hhdm_ok_cong [OF hh] block_ok_cong [OF hh]
    by (intro conjI ballI allI impI) (simp_all add: pairwise_apart_def)
  ultimately show ?thesis by (simp add: buddy_inv_def)
qed

text \<open>Pages that no block has used yet.\<close>

definition fresh_pages :: "heap \<Rightarrow> nat set \<Rightarrow> bool" where
  "fresh_pages h R \<longleftrightarrow>
     (\<forall>z. unat z \<in> R \<longrightarrow> 4096 dvd unat z \<longrightarrow> allocated (get_page h z) = 0 \<and> next_paddr (get_page h z) = 0)"

lemma blocks_add:
  assumes ok: "blocks_ok h a F A" and x: "block_ok h a (x, k)" "brange (x, k) \<inter> region (F \<union> A) = {}"
    and fresh: "fresh_pages h (brange (x, k))"
    and h': "pages_except {x} h h'" "get_page h' x = (get_page h x)\<lparr>order := of_nat k\<rparr>"
  shows "blocks_ok h' a (insert (x, k) F) A"
proof -
  note D = blocks_okD [OF ok]
  have hh: "hhdm h' = hhdm h" using h' by (simp add: pages_except_def)
  have xp: "hpage h x" using block_ok_hpage [OF D(1) x(1)] .
  have fx: "allocated (get_page h z) = 0 \<and> next_paddr (get_page h z) = 0" if "unat z \<in> brange (x, k)" "4096 dvd unat z" for z
    using fresh that by (simp add: fresh_pages_def)
  have f0: "allocated (get_page h x) = 0" "next_paddr (get_page h x) = 0"
    using fx [of x] xp by (simp_all add: hpage_def)
  have out: "fst b \<noteq> x" "brange b \<inter> brange (x, k) = {}" if "b \<in> F \<union> A" for b
  proof -
    show d: "brange b \<inter> brange (x, k) = {}" using region_mem [OF that] x(2) by blast
    show "fst b \<noteq> x" using d in_brange [of b] brange_fst [of x k] by blast
  qed
  have same: "get_page h' z = get_page h z" if "hpage h z" "z \<noteq> x" for z
    using h'(1) that by (simp add: pages_except_def)
  have outp: "get_page h' (fst b) = get_page h (fst b)" if "b \<in> F \<union> A" for b
    using out [OF that] D(3) [OF that] same by simp
  have in7: "allocated (get_page h' z) = 0"
    if b: "b \<in> insert (x, k) (F \<union> A)" and z: "unat z \<in> brange b" "4096 dvd unat z" "z \<noteq> fst b" for b z
  proof (cases "b = (x, k)")
    case True
    then show ?thesis
      using z same block_ok_hpage_in [OF D(1) x(1)] fx by simp
  next
    case False
    then have bF: "b \<in> F \<union> A" using b by blast
    then have "z \<noteq> x" using out(2) [OF bF] z brange_fst [of x k] by blast
    moreover have "hpage h z" using bF z D(2) block_ok_hpage_in [OF D(1)] by blast
    ultimately show ?thesis using D(9) [OF bF z] same by simp
  qed
  have in8: "next_ok h' (insert (x, k) (F \<union> A)) b" if b: "b \<in> insert (x, k) (F \<union> A)" for b
  proof (cases "b = (x, k)")
    case True
    then show ?thesis using h'(2) f0 by (simp add: next_ok_def)
  next
    case False
    then have bF: "b \<in> F \<union> A" using b by blast
    show ?thesis using D(10) [OF bF] outp [OF bF] by (auto simp: next_ok_def Let_def page_frame_cong [OF hh])
  qed
  have U: "insert (x, k) F \<union> A = insert (x, k) (F \<union> A)" by simp
  have "(x, k) \<notin> A" using out(1) [of "(x, k)"] by auto
  then have in3: "insert (x, k) F \<inter> A = {}" using D(5) by blast
  have in2: "pairwise_apart (insert (x, k) (F \<union> A))"
    unfolding pairwise_apart_def using out(2) D(4) by (metis inf_commute insert_iff)
  have in1: "block_ok h' a b" if "b \<in> insert (x, k) (F \<union> A)" for b
    using that D(2) x(1) block_ok_cong [OF hh] by blast
  have in4: "order (get_page h' (fst b)) = of_nat (snd b)" if "b \<in> insert (x, k) (F \<union> A)" for b
    using that D(6) [of b] outp [of b] h'(2) by (cases "b = (x, k)") auto
  have in5: "\<forall>b\<in>insert (x, k) F. allocated (get_page h' (fst b)) = 0" using outp D(7) h'(2) f0 by auto
  have in6: "\<forall>b\<in>A. allocated (get_page h' (fst b)) = 1" using outp D(8) by auto
  show ?thesis
    unfolding blocks_ok_def U
    by (intro conjI ballI allI impI; (rule in1 in2 in3 in4 in5 [rule_format] in6 [rule_format] in7 in8)?;
        (assumption | simp add: D(1) hhdm_ok_cong [OF hh])?)
qed

lemma align_order_total: "4096 dvd unat base \<Longrightarrow> ord \<le> max_order \<Longrightarrow>
  \<exists>k. align_order base ord = Some k \<and> k \<le> ord \<and> bsize k dvd unat base"
proof (induction ord)
  case 0
  have "unat (block_bytes 0) = 4096" by (simp add: unat_block_bytes)
  then show ?case using 0
    by (subst align_order.simps) (auto simp: word_unat_eq_iff unat_mod_distrib bsize_def dvd_eq_mod_eq_0)
next
  case (Suc ord)
  have "base mod block_bytes (Suc ord) = 0 \<longleftrightarrow> bsize (Suc ord) dvd unat base"
    using mod_block_bytes [of ord base] Suc.prems by simp
  then show ?case using Suc
    by (subst align_order.simps) (fastforce split: if_splits)
qed

lemma prev_order_from_nonneg:
  assumes "4096 \<le> unat sz" "unat sz \<le> 2 ^ 63" shows "0 \<le> prev_order_from sz"
proof -
  obtain m where m: "m < 64" "2 ^ m \<le> unat sz" "unat sz < 2 ^ Suc m"
    using unat_between_powers [of sz] assms(1) by auto
  have "12 \<le> m"
  proof (rule ccontr)
    assume "\<not> 12 \<le> m"
    then have "(2::nat) ^ Suc m \<le> 2 ^ 12" by (intro power_increasing) auto
    with m(3) assms(1) show False by simp
  qed
  then show ?thesis using prev_order_from_eq [of m sz] m assms by simp
qed

text \<open>One round of the loop of \<open>add_range\<close>.\<close>

lemma add_block_ok:
  assumes inv: "buddy_inv h a fl A" and x: "block_ok h a (x, k)"
    and R: "brange (x, k) \<inter> region (free_blocks fl \<union> A) = {}" and fresh: "fresh_pages h (brange (x, k))"
    and h1: "h1 = h\<lparr>nodes := (nodes h)(x := nd)\<rparr>"
    and p: "put (set_page h1 x (\<lambda>p. p\<lparr>order := of_nat k\<rparr>)) a k x = (h', a')"
  shows "buddy_inv h' a' (fl(k := x # fl k)) A" "only_touches (brange (x, k) \<union> region (free_blocks fl)) h h'"
    "astart a' = astart a" "aend a' = aend a" "pages_except {x} h h'"
proof -
  let ?F = "free_blocks fl"
  have lo: "lists_ok h a fl" and bo: "blocks_ok h a ?F A" using inv by (auto simp: buddy_inv_def)
  note D = blocks_okD [OF bo]
  have xp: "hpage h x" using block_ok_hpage [OF D(1) x] .
  have xnot: "x \<notin> set (fl j)" for j
    using region_mem [of "(x, j)" "?F \<union> A"] brange_fst [of x j] brange_fst [of x k] R
    unfolding free_blocks_iff [symmetric] by blast
  have sp1: "same_pages h h1" by (simp add: h1 same_pages_def)
  have hh1: "hhdm h1 = hhdm h" by (simp add: h1)
  have hp1: "hhdm_ok h1" "hpage h1 x" using D(1) xp by (simp_all add: heap_congs [OF hh1])
  define h2 where "h2 = set_page h1 x (\<lambda>p. p\<lparr>order := of_nat k\<rparr>)"
  have px: "pages_except {x} h h2"
    using same_pages_except [OF sp1] pages_except_set [OF hp1] unfolding h2_def by (rule pages_except_trans) simp
  have g2: "get_page h2 x = (get_page h x)\<lparr>order := of_nat k\<rparr>"
    using get_set_page [OF hp1 hp1(2)] by (simp add: h2_def same_pages_get [OF sp1])
  have b2: "blocks_ok h2 a (insert (x, k) ?F) A" by (rule blocks_add [OF bo x R fresh px g2])
  have "dll (nodes h2) 0 (lists a j) (fl j)" for j
    using lo xnot by (subst dll_cong [where n = "nodes h"]) (auto simp: lists_ok_def h2_def h1)
  then have l2: "lists_ok h2 a fl" using lo by (simp add: lists_ok_def)
  note P = put_lists [OF l2 block_start_nonzero [OF D(1) x] xnot p [folded h2_def]]
  show "buddy_inv h' a' (fl(k := x # fl k)) A"
    using P b2 blocks_ok_cong [OF P(2), of a' a] unfolding buddy_inv_def free_blocks_push by simp
  show px': "pages_except {x} h h'" using px same_pages_except [OF P(2)] by (rule pages_except_trans)
  show "only_touches (brange (x, k) \<union> region ?F) h h'"
    using px'
  proof (rule only_touchesI)
    show "unat w \<in> brange (x, k) \<union> region ?F" if "w \<in> {x}" for w using that brange_fst [of x k] by simp
    show "nodes h' w = nodes h w" if w: "unat w \<notin> brange (x, k) \<union> region ?F" for w
    proof -
      have "w \<noteq> x" "w \<notin> set (fl k)" using w free_node_region [of w fl k] brange_fst [of x k] by auto
      then show ?thesis using P(3) by (simp add: h2_def h1)
    qed
  qed
qed (use put_lists(4,5) p in \<open>auto simp: put_def Let_def\<close>)

lemma fresh_pages_except:
  assumes "fresh_pages h R" "pages_except {x} h h'" "unat x \<notin> R" "\<And>z. unat z \<in> R \<Longrightarrow> 4096 dvd unat z \<Longrightarrow> hpage h z"
  shows "fresh_pages h' R"
  using assms unfolding fresh_pages_def pages_except_def by (metis singletonD)

lemma add_range_loop_ok:
  assumes "buddy_inv h a fl A" "4096 dvd unat base"
    "unat (hhdm h) + unat (astart a) \<le> unat base"
    "unat base + unat sz \<le> unat (hhdm h) + unat (aend a)" "unat base + unat sz \<le> unat (hhdm h) + 2 ^ 46"
    "{unat base ..< unat base + unat sz} \<inter> region (free_blocks fl \<union> A) = {}"
    "fresh_pages h {unat base ..< unat base + unat sz}"
  shows "\<exists>h' a' fl' left. add_range_loop h a base sz = (h', a', left) \<and> unat left = unat sz mod 4096 \<and>
     buddy_inv h' a' fl' A \<and>
     region (free_blocks fl') = region (free_blocks fl) \<union> {unat base ..< unat base + (unat sz - unat left)} \<and>
     only_touches ({unat base ..< unat base + unat sz} \<union> region (free_blocks fl)) h h' \<and>
     astart a' = astart a \<and> aend a' = aend a"
  using assms
proof (induction "unat sz" arbitrary: h a fl base sz rule: less_induct)
  case less
  note inv = less.prems(1) and dv = less.prems(2) and lo = less.prems(3) and hi = less.prems(4,5)
    and dis = less.prems(6) and fresh = less.prems(7)
  have hok: "hhdm_ok h" using inv blocks_okD(1) by (auto simp: buddy_inv_def)
  show ?case
  proof (cases "4096 \<le> unat sz")
    case False
    then have "add_range_loop h a base sz = (h, a, sz)"
      by (subst add_range_loop.simps) (simp add: word_le_nat_alt)
    then show ?thesis using False inv only_touches_refl by auto
  next
    case True
    have "unat sz \<le> 2 ^ 63" using hi(2) lo hok by simp
    then have pn: "0 \<le> prev_order_from sz" using prev_order_from_nonneg True by simp
    obtain k where k: "align_order base (min (nat (prev_order_from sz)) max_order) = Some k" "bsize k dvd unat base"
      using align_order_total [OF dv, of "min (nat (prev_order_from sz)) max_order"] by auto
    note pr = add_range_progress [OF pn k(1), folded bsize_def]
    have bx: "block_ok h a (base, k)" using pr k(2) lo hi by (auto simp: block_ok_def)
    have sub: "brange (base, k) \<subseteq> {unat base ..< unat base + unat sz}" using pr(2) by (auto simp: brange_def)
    define h1 where "h1 = h\<lparr>nodes := (nodes h)(base := \<lparr>lprev = 0, lnext = 0\<rparr>)\<rparr>"
    obtain h2 a2 where p: "put (set_page h1 base (\<lambda>p. p\<lparr>order := of_nat k\<rparr>)) a k base = (h2, a2)" by fastforce
    have "brange (base, k) \<inter> region (free_blocks fl \<union> A) = {}" using sub dis by blast
    moreover have "fresh_pages h (brange (base, k))" using fresh sub by (auto simp: fresh_pages_def)
    ultimately have B: "buddy_inv h2 a2 (fl(k := base # fl k)) A" "only_touches (brange (base, k) \<union> region (free_blocks fl)) h h2"
      "astart a2 = astart a" "aend a2 = aend a" "pages_except {base} h h2"
      using add_block_ok [OF inv bx _ _ h1_def p] by blast+
    have hh: "hhdm h2 = hhdm h" using B(2) by (simp add: only_touches_def)
    define base' where "base' = base + block_bytes k"
    define sz' where "sz' = sz - block_bytes k"
    have eq: "add_range_loop h a base sz = add_range_loop h2 a2 base' sz'"
      using True pn k(1) p
      by (subst add_range_loop.simps) (simp add: word_le_nat_alt Let_def h1_def base'_def sz'_def not_less del: min_def)
    have ub: "unat base' = unat base + bsize k" using block_bytes_step [OF hok bx] by (simp add: base'_def)
    have us: "unat sz' = unat sz - bsize k" using pr(3) by (simp add: sz'_def)
    have F: "free_blocks (fl(k := base # fl k)) = insert (base, k) (free_blocks fl)" by (rule free_blocks_push)
    have rest: "{unat base' ..< unat base' + unat sz'} = {unat base ..< unat base + unat sz} - brange (base, k)"
      using pr(2) ub us by (auto simp: brange_def)
    have "unat sz' < unat sz" using us pr(2) bsize_pos [of k] by linarith
    moreover have "4096 dvd unat base'" using dv page_dvd_bsize ub by simp
    moreover have "{unat base' ..< unat base' + unat sz'} \<inter> region (free_blocks (fl(k := base # fl k)) \<union> A) = {}"
      using dis unfolding rest F by auto
    moreover have "fresh_pages h2 {unat base' ..< unat base' + unat sz'}"
    proof (rule fresh_pages_except [OF _ B(5)])
      show "fresh_pages h {unat base' ..< unat base' + unat sz'}" using fresh unfolding rest by (simp add: fresh_pages_def)
      show "unat base \<notin> {unat base' ..< unat base' + unat sz'}" using ub by simp
      show "hpage h z" if "unat z \<in> {unat base' ..< unat base' + unat sz'}" "4096 dvd unat z" for z
        using that lo hi us ub pr(2) by (auto simp: hpage_def)
    qed
    ultimately obtain h' a' fl' lft where I: "add_range_loop h2 a2 base' sz' = (h', a', lft)" "unat lft = unat sz' mod 4096"
      "buddy_inv h' a' fl' A"
      "region (free_blocks fl') = region (free_blocks (fl(k := base # fl k))) \<union> {unat base' ..< unat base' + (unat sz' - unat lft)}"
      "only_touches ({unat base' ..< unat base' + unat sz'} \<union> region (free_blocks (fl(k := base # fl k)))) h2 h'"
      "astart a' = astart a2" "aend a' = aend a2"
      using less.hyps [of sz' h2 a2 "fl(k := base # fl k)" base'] B(1,3,4) lo hi hh ub us pr(2) by auto
    obtain q where q: "bsize k = 4096 * q" using page_dvd_bsize [of k] by (auto simp: dvd_def)
    have "unat sz = unat sz' + 4096 * q" using us pr(2) q by linarith
    then have m: "unat lft = unat sz mod 4096" using I(2) by simp
    have lle: "unat lft \<le> unat sz'" using I(2) mod_less_eq_dividend [of "unat sz'" 4096] by simp
    have "region (free_blocks fl') = (brange (base, k) \<union> {unat base' ..< unat base' + (unat sz' - unat lft)}) \<union> region (free_blocks fl)"
      using I(4) unfolding F by auto
    moreover have "brange (base, k) \<union> {unat base' ..< unat base' + (unat sz' - unat lft)} = {unat base ..< unat base + (unat sz - unat lft)}"
      using lle us ub pr(2) by (auto simp: brange_def)
    ultimately have "region (free_blocks fl') = region (free_blocks fl) \<union> {unat base ..< unat base + (unat sz - unat lft)}"
      by (simp add: Un_commute)
    moreover have "only_touches ({unat base ..< unat base + unat sz} \<union> region (free_blocks fl)) h h'"
    proof (rule only_touches_trans)
      show "only_touches ({unat base ..< unat base + unat sz} \<union> region (free_blocks fl)) h h2"
        using sub by (intro only_touches_mono [OF B(2)]) blast
      show "only_touches ({unat base ..< unat base + unat sz} \<union> region (free_blocks fl)) h2 h'"
        using sub unfolding F by (intro only_touches_mono [OF I(5)]) (auto simp: rest F)
    qed
    moreover have "add_range_loop h a base sz = (h', a', lft)" "astart a' = astart a" "aend a' = aend a"
      using eq I(1,6,7) B(3,4) by simp_all
    ultimately show ?thesis using m I(3) by blast
  qed
qed

end
