(* ===== verification/Pmm_Zones.thy ===== *)
theory Pmm_Zones
  imports Pmm_Buddy
begin

text \<open>
  The memory manager as its clients see it: the three zones share one heap and one
  page-frame database; runs of \<open>alloc\<close> and \<open>free\<close> are a step relation whose invariant ties the
  live pointers to allocated blocks. The locale \<open>page_source\<close> is the contract the page map
  relies on, interpreted on \<open>alloc\<close> and \<open>free\<close> of the model.
\<close>

section \<open>The three zones together\<close>

definition zones_ok :: "pmm \<Rightarrow> bool" where
  "zones_ok p \<longleftrightarrow>
     astart (sub1mib p) = page_size \<and> aend (sub1mib p) = mib 1 \<and>
     astart (sub4gib p) = mib 1 \<and> aend (sub4gib p) = gib 4 \<and>
     astart (normal p) = gib 4 \<and> aend (normal p) = - 1"

definition pmm_inv :: "pmm \<Rightarrow> (zone \<Rightarrow> nat \<Rightarrow> u64 list) \<Rightarrow> (zone \<Rightarrow> (u64 \<times> nat) set) \<Rightarrow> bool" where
  "pmm_inv p FL AL \<longleftrightarrow>
     zones_ok p \<and> (\<forall>z. buddy_inv (heap p) (zone_of p z) (FL z) (AL z))"

lemma zone_of_set_zone: "zone_of (set_zone p z a) y = (if y = z then a else zone_of p y)"
  by (cases z; cases y) simp_all

lemma set_zone_simps [simp]:
  "heap (set_zone p z a) = heap p" "mem (set_zone p z a) = mem p"
  "initialised (set_zone p z a) = initialised p" "bootstrap_memmap_idx (set_zone p z a) = bootstrap_memmap_idx p"
  "bootstrap_memmap (set_zone p z a) = bootstrap_memmap p" "memmaps (set_zone p z a) = memmaps p"
  "bootstrap_once (set_zone p z a) = bootstrap_once p"
  by (cases z; simp)+

lemma zone_of_heap [simp]: "zone_of (p\<lparr>heap := h\<rparr>) z = zone_of p z"
  by (cases z) simp_all

lemma set_used_simps [simp]:
  "heap (set_used p f) = heap p" "zone_of (set_used p f) z = zone_of p z"
  "initialised (set_used p f) = initialised p" "bootstrap_memmap_idx (set_used p f) = bootstrap_memmap_idx p"
  "mem (set_used p f) = (mem p)\<lparr>used := f (used (mem p))\<rparr>"
  by (cases z; simp add: set_used_def)+

lemma zones_ok_iff:
  "zones_ok p \<longleftrightarrow> astart (zone_of p Sub1mib) = page_size \<and> aend (zone_of p Sub1mib) = mib 1 \<and>
     astart (zone_of p Sub4gib) = mib 1 \<and> aend (zone_of p Sub4gib) = gib 4 \<and>
     astart (zone_of p Normal) = gib 4 \<and> aend (zone_of p Normal) = - 1"
  by (simp add: zones_ok_def)

lemma zones_ok_set: "zones_ok p \<Longrightarrow> astart a = astart (zone_of p z) \<Longrightarrow> aend a = aend (zone_of p z) \<Longrightarrow> zones_ok (set_zone (p\<lparr>heap := h\<rparr>) z a)"
  unfolding zones_ok_iff zone_of_set_zone zone_of_heap by simp

lemma region_bounds:
  assumes "buddy_inv h a fl A" "v \<in> region (free_blocks fl \<union> A)"
  shows "unat (hhdm h) + unat (astart a) \<le> v \<and> v < unat (hhdm h) + unat (aend a)"
proof -
  obtain b where b: "b \<in> free_blocks fl \<union> A" "v \<in> brange b" using assms(2) by (auto simp: region_def)
  then have "block_ok h a b" using assms(1) blocks_okD(2) unfolding buddy_inv_def by blast
  then show ?thesis using b(2) unfolding block_ok_def brange_def atLeastLessThan_iff by linarith
qed

lemma zones_apart:
  assumes "zones_ok p" "y \<noteq> z"
  shows "unat (aend (zone_of p y)) \<le> unat (astart (zone_of p z)) \<or> unat (aend (zone_of p z)) \<le> unat (astart (zone_of p y))"
  using assms by (cases y; cases z) (simp_all add: zones_ok_def mib_def gib_def kib_def)

lemma zones_disjoint:
  assumes "zones_ok p" "y \<noteq> z" "buddy_inv (heap p) (zone_of p y) fl A" "buddy_inv (heap p) (zone_of p z) fl' A'"
  shows "region (free_blocks fl \<union> A) \<inter> region (free_blocks fl' \<union> A') = {}"
proof (rule ccontr)
  assume "\<not> ?thesis"
  then obtain v where "v \<in> region (free_blocks fl \<union> A)" "v \<in> region (free_blocks fl' \<union> A')" by blast
  then show False
    using region_bounds [OF assms(3)] region_bounds [OF assms(4)] zones_apart [OF assms(1,2)] by fastforce
qed

lemma region_Un: "region (B \<union> C) = region B \<union> region C" by (auto simp: region_def)

lemma pmm_inv_set_used: "pmm_inv (set_used p f) FL AL = pmm_inv p FL AL"
  by (simp add: pmm_inv_def zones_ok_def) (simp add: set_used_def)

text \<open>
  Replacing one zone's allocator after an operation that touched only memory of that zone.
\<close>

lemma zone_bounded_apart:
  assumes "zones_ok p" "y \<noteq> z" "buddy_inv (heap p) (zone_of p y) fl A"
    "R \<subseteq> {unat (hhdm (heap p)) + unat (astart (zone_of p z)) ..< unat (hhdm (heap p)) + unat (aend (zone_of p z))}"
  shows "R \<inter> region (free_blocks fl \<union> A) = {}"
proof (rule ccontr)
  assume "\<not> ?thesis"
  then obtain v where "v \<in> R" "v \<in> region (free_blocks fl \<union> A)" by blast
  then show False
    using region_bounds [OF assms(3)] assms(4) zones_apart [OF assms(1,2)] by fastforce
qed

lemma pmm_inv_update:
  assumes inv: "pmm_inv p FL AL" and z: "buddy_inv h a fl A"
    and t: "only_touches R (heap p) h"
      "R \<subseteq> {unat (hhdm (heap p)) + unat (astart (zone_of p z)) ..< unat (hhdm (heap p)) + unat (aend (zone_of p z))}"
    and r: "astart a = astart (zone_of p z)" "aend a = aend (zone_of p z)"
  shows "pmm_inv (set_zone (p\<lparr>heap := h\<rparr>) z a) (FL(z := fl)) (AL(z := A))"
proof -
  have zo: "zones_ok p" and bi: "buddy_inv (heap p) (zone_of p y) (FL y) (AL y)" for y
    using inv by (auto simp: pmm_inv_def)
  have "buddy_inv h (zone_of p y) (FL y) (AL y)" if "y \<noteq> z" for y
    by (rule buddy_inv_frame [OF bi t(1) zone_bounded_apart [OF zo that bi t(2)]])
  then show ?thesis using z zones_ok_set [OF zo r] by (simp add: pmm_inv_def zone_of_set_zone)
qed

lemma region_in_zone:
  assumes "pmm_inv p FL AL"
  shows "region (free_blocks (FL z) \<union> AL z) \<subseteq>
    {unat (hhdm (heap p)) + unat (astart (zone_of p z)) ..< unat (hhdm (heap p)) + unat (aend (zone_of p z))}"
  using assms region_bounds [of "heap p" "zone_of p z" "FL z" "AL z"] by (auto simp: pmm_inv_def)

lemma zone_alloc_ok:
  assumes inv: "pmm_inv p FL AL" and n: "unat n < 2 ^ 52"
  shows "\<exists>p' x s fl A. zone_alloc p z n = Some (Inr (p', x, s)) \<and> pmm_inv p' (FL(z := fl)) (AL(z := A)) \<and>
    alloc_result (heap p) (zone_of p z) (FL z) (AL z) n (heap p') (zone_of p' z) x s fl A \<and>
    mem p' = mem p \<and> initialised p' = initialised p \<and> bootstrap_memmap_idx p' = bootstrap_memmap_idx p \<and>
    (0 < unat n \<and> (\<exists>j\<le>max_order. unat n \<le> 2 ^ j \<and> FL z j \<noteq> []) \<longrightarrow> x \<noteq> 0)"
proof -
  have bi: "buddy_inv (heap p) (zone_of p z) (FL z) (AL z)" using inv by (simp add: pmm_inv_def)
  from alloc_alloc_ok [OF bi n] obtain h a x s fl A where
    r: "alloc_alloc (heap p) (zone_of p z) n = Some (Inr (h, a, x, s))"
     "alloc_result (heap p) (zone_of p z) (FL z) (AL z) n h a x s fl A"
     "0 < unat n \<and> (\<exists>j\<le>max_order. unat n \<le> 2 ^ j \<and> FL z j \<noteq> []) \<longrightarrow> x \<noteq> 0" by blast
  have "pmm_inv (set_zone (p\<lparr>heap := h\<rparr>) z a) (FL(z := fl)) (AL(z := A))"
    by (rule pmm_inv_update [OF inv, of h a fl A "region (free_blocks (FL z))"])
      (use r(2) region_in_zone [OF inv, of z] in \<open>auto simp: alloc_result_def region_Un\<close>)
  then show ?thesis using r by (auto simp: zone_alloc_def zone_of_set_zone intro!: exI [of _ fl] exI [of _ A])
qed

text \<open>Clearing an allocated block cannot damage a free list.\<close>

lemma clear_pages_inv:
  assumes inv: "pmm_inv p FL AL" and x: "(x, k) \<in> AL z" and s: "unat s \<le> bsize k"
  shows "pmm_inv (p\<lparr>heap := clear_pages (heap p) x s\<rparr>) FL AL"
proof -
  let ?h = "clear_pages (heap p) x s"
  have zo: "zones_ok p" and bi: "buddy_inv (heap p) (zone_of p y) (FL y) (AL y)" for y
    using inv by (auto simp: pmm_inv_def)
  have xr: "brange (x, k) \<subseteq> region (free_blocks (FL z) \<union> AL z)" by (rule region_mem) (use x in simp)
  have out: "unat w \<notin> brange (x, k)" if w: "w \<in> set (FL y j)" for w y j
  proof -
    have wF: "(w, j) \<in> free_blocks (FL y)" using w by (simp add: free_blocks_iff)
    have bo: "blocks_ok (heap p) (zone_of p y) (free_blocks (FL y)) (AL y)" using bi by (simp add: buddy_inv_def)
    show ?thesis
    proof (cases "y = z")
      case True
      then have "(w, j) \<noteq> (x, k)" using blocks_okD(5) [OF bo] wF x by auto
      then have "brange (w, j) \<inter> brange (x, k) = {}" using blocks_okD(4) [OF bo, of "(w, j)" "(x, k)"] wF x True by simp
      then show ?thesis using brange_fst [of w j] by blast
    next
      case False
      have "unat w \<in> region (free_blocks (FL y) \<union> AL y)" using region_mem [of "(w, j)"] wF brange_fst [of w j] by blast
      then show ?thesis using zones_disjoint [OF zo False bi bi] xr by blast
    qed
  qed
  have sp: "same_pages (heap p) ?h" by (simp add: same_pages_def clear_pages_def)
  have n: "nodes ?h w = nodes (heap p) w" if "unat w \<notin> brange (x, k)" for w
    using that s by (auto simp: clear_pages_def brange_def)
  have "buddy_inv ?h (zone_of p y) (FL y) (AL y)" for y
  proof -
    have "dll (nodes ?h) 0 (lists (zone_of p y) j) (FL y j)" for j
      using bi [of y] n out by (subst dll_cong [where n = "nodes (heap p)"]) (auto simp: lists_ok_def buddy_inv_def)
    then show ?thesis using bi [of y] blocks_ok_cong [OF sp, of "zone_of p y" "zone_of p y"] by (simp add: buddy_inv_def lists_ok_def)
  qed
  then show ?thesis using zo by (simp add: pmm_inv_def zones_ok_def)
qed

lemma fromhh_fromhh:
  assumes "hhdm_ok h" "hpage h x" shows "fromhh (hhdm h) (fromhh (hhdm h) x) = fromhh (hhdm h) x"
proof -
  have "\<not> ishh (hhdm h) (fromhh (hhdm h) x)"
    using hpage_fromhh [OF assms(2)] assms by (auto simp: ishh_def hpage_def hhdm_ok_def word_le_nat_alt)
  then show ?thesis by (simp add: fromhh_def)
qed

lemma tohh_fromhh_page:
  assumes "hhdm_ok h" "hpage h x" shows "tohh (hhdm h) (fromhh (hhdm h) x) = x"
  using assms by (intro tohh_fromhh) (auto simp: ishh_def hpage_def hhdm_ok_def word_le_nat_alt)

lemma alloc_free_fromhh:
  assumes "hhdm_ok h" "hpage h x" shows "alloc_free h a (fromhh (hhdm h) x) n = alloc_free h a x n"
proof -
  have "tohh (hhdm h) x = x" using assms by (simp add: tohh_def ishh_def hpage_def word_le_nat_alt)
  moreover have "page_for h (fromhh (hhdm h) x) = page_for h x" using fromhh_fromhh [OF assms] by (simp add: page_for_def)
  ultimately show ?thesis using tohh_fromhh_page [OF assms] by (simp add: alloc_free_def get_page_def set_page_def Let_def)
qed

lemma in_range_zone:
  assumes inv: "pmm_inv p FL AL" and x: "(x, k) \<in> AL z"
  shows "in_range (heap p) (zone_of p y) (fromhh (hhdm (heap p)) x) \<longleftrightarrow> y = z"
proof -
  have zo: "zones_ok p" and bi: "buddy_inv (heap p) (zone_of p z) (FL z) (AL z)"
    using inv by (auto simp: pmm_inv_def)
  then have bo: "blocks_ok (heap p) (zone_of p z) (free_blocks (FL z)) (AL z)" by (simp add: buddy_inv_def)
  note D = blocks_okD [OF bo]
  have hp: "hpage (heap p) x" and bx: "block_ok (heap p) (zone_of p z) (x, k)" using D(2,3) [of "(x, k)"] x by auto
  define v where "v = unat (fromhh (hhdm (heap p)) x)"
  have v: "unat (astart (zone_of p z)) \<le> v" "v < unat (aend (zone_of p z))"
    using hpage_fromhh [OF hp] bx bsize_pos [of k] unfolding block_ok_def v_def fst_conv snd_conv by linarith+
  have "in_range (heap p) (zone_of p y) (fromhh (hhdm (heap p)) x) \<longleftrightarrow>
      unat (astart (zone_of p y)) \<le> v \<and> v < unat (aend (zone_of p y))"
    using fromhh_fromhh [OF D(1) hp] by (simp add: in_range_def Let_def v_def word_le_nat_alt word_less_nat_alt)
  then show ?thesis using v zones_apart [OF zo, of y z] by (cases "y = z") auto
qed

lemma free_ok:
  assumes inv: "pmm_inv p FL AL" and i: "initialised p" and x: "(x, k) \<in> AL z" and n: "unat n \<le> 2 ^ k" "2 ^ k < 2 * unat n"
  shows "\<exists>p' fl. free p (fromhh (hhdm (heap p)) x) n = Inr p' \<and>
     pmm_inv p' (FL(z := fl)) (AL(z := AL z - {(x, k)})) \<and> free_blocks fl = insert (x, k) (free_blocks (FL z)) \<and>
     mem p' = (mem p)\<lparr>used := used (mem p) - n * page_size\<rparr> \<and>
     initialised p' \<and> bootstrap_memmap_idx p' = bootstrap_memmap_idx p \<and> hhdm (heap p') = hhdm (heap p)"
proof -
  have zo: "zones_ok p" and bi: "buddy_inv (heap p) (zone_of p z) (FL z) (AL z)"
    using inv by (auto simp: pmm_inv_def)
  then have bo: "blocks_ok (heap p) (zone_of p z) (free_blocks (FL z)) (AL z)" by (simp add: buddy_inv_def)
  note D = blocks_okD [OF bo]
  have hp: "hpage (heap p) x" using D(3) [of "(x, k)"] x by auto
  define v where "v = fromhh (hhdm (heap p)) x"
  have "0 < unat (astart (zone_of p z))"
    using zo by (cases z) (simp_all add: zones_ok_def mib_def gib_def kib_def)
  then have v0: "v \<noteq> 0"
    using hpage_fromhh [OF hp] D(2) [of "(x, k)"] x by (auto simp: v_def block_ok_def)
  from alloc_free_ok [OF bi x n] obtain h a fl where
    f: "alloc_free (heap p) (zone_of p z) x n = Inr (h, a, n * page_size)" "buddy_inv h a fl (AL z - {(x, k)})"
     "free_blocks fl = insert (x, k) (free_blocks (FL z))"
     "only_touches (region (insert (x, k) (free_blocks (FL z)))) (heap p) h" "astart a = astart (zone_of p z)" "aend a = aend (zone_of p z)"
    by blast
  have inv': "pmm_inv (set_zone (p\<lparr>heap := h\<rparr>) z a) (FL(z := fl)) (AL(z := AL z - {(x, k)}))"
    by (rule pmm_inv_update [OF inv f(2,4) _ f(5,6)])
      (use region_mem [of "(x, k)" "AL z"] x region_in_zone [OF inv, of z] in \<open>auto simp: region_Un\<close>)
  have "free p v n = zone_free p z v n"
    using in_range_zone [OF inv x, folded v_def, of Sub1mib] in_range_zone [OF inv x, folded v_def, of Sub4gib]
      in_range_zone [OF inv x, folded v_def, of Normal] v0 i n by (cases z) (auto simp: free_def)
  also have "\<dots> = Inr (set_used (set_zone (p\<lparr>heap := h\<rparr>) z a) (\<lambda>u. u - n * page_size))"
    using f(1) alloc_free_fromhh [OF D(1) hp] by (simp add: zone_free_def v_def)
  finally have "free p v n = Inr (set_used (set_zone (p\<lparr>heap := h\<rparr>) z a) (\<lambda>u. u - n * page_size))" .
  moreover have "pmm_inv (set_used (set_zone (p\<lparr>heap := h\<rparr>) z a) (\<lambda>u. u - n * page_size)) (FL(z := fl)) (AL(z := AL z - {(x, k)}))"
    using inv' pmm_inv_set_used by blast
  moreover have "hhdm h = hhdm (heap p)" using f(4) by (simp add: only_touches_def)
  ultimately show ?thesis using f(3) i unfolding v_def by (intro exI conjI) (assumption | simp)+
qed

definition free_region :: "(zone \<Rightarrow> nat \<Rightarrow> u64 list) \<Rightarrow> nat set" where
  "free_region FL = (\<Union>z. region (free_blocks (FL z)))"

text \<open>
  What an allocation from zone \<open>z\<close> (returning the virtual address \<open>x\<close> and the size \<open>s\<close>)
  did to the free and allocated blocks; address 0 is a failed allocation.
\<close>

definition picked :: "(zone \<Rightarrow> nat \<Rightarrow> u64 list) \<Rightarrow> (zone \<Rightarrow> (u64 \<times> nat) set) \<Rightarrow> u64 \<Rightarrow> zone \<Rightarrow>
    (zone \<Rightarrow> nat \<Rightarrow> u64 list) \<Rightarrow> (zone \<Rightarrow> (u64 \<times> nat) set) \<Rightarrow> u64 \<Rightarrow> u64 \<Rightarrow> bool" where
  "picked FL AL n z FL' AL' x s \<longleftrightarrow>
     (if x = 0 then s = 0 \<and> AL' = AL \<and> free_region FL' = free_region FL
      else \<exists>k. AL' = AL(z := insert (x, k) (AL z)) \<and> s = block_bytes k \<and> k \<le> max_order \<and>
        unat n \<le> 2 ^ k \<and> 2 ^ k < 2 * unat n \<and> brange (x, k) \<subseteq> free_region FL \<and>
        free_region FL' = free_region FL - brange (x, k))"

lemma zone_alloc_picked:
  assumes inv: "pmm_inv p FL AL" and n: "unat n < 2 ^ 52"
  shows "\<exists>p' x s FL' AL'. zone_alloc p z n = Some (Inr (p', x, s)) \<and> pmm_inv p' FL' AL' \<and> picked FL AL n z FL' AL' x s \<and>
    mem p' = mem p \<and> initialised p' = initialised p \<and> bootstrap_memmap_idx p' = bootstrap_memmap_idx p \<and>
    hhdm (heap p') = hhdm (heap p) \<and> (0 < unat n \<and> (\<exists>j\<le>max_order. unat n \<le> 2 ^ j \<and> FL z j \<noteq> []) \<longrightarrow> x \<noteq> 0)"
proof -
  from zone_alloc_ok [OF assms, of z] obtain p' x s fl A where
    r: "zone_alloc p z n = Some (Inr (p', x, s))" "pmm_inv p' (FL(z := fl)) (AL(z := A))"
      "alloc_result (heap p) (zone_of p z) (FL z) (AL z) n (heap p') (zone_of p' z) x s fl A"
      "mem p' = mem p" "initialised p' = initialised p" "bootstrap_memmap_idx p' = bootstrap_memmap_idx p"
      "0 < unat n \<and> (\<exists>j\<le>max_order. unat n \<le> 2 ^ j \<and> FL z j \<noteq> []) \<longrightarrow> x \<noteq> 0" by blast
  have zo: "zones_ok p" and bi: "buddy_inv (heap p) (zone_of p y) (FL y) (AL y)" for y
    using inv by (auto simp: pmm_inv_def)
  have fr: "free_region (FL(z := f)) = region (free_blocks f) \<union> (\<Union>y\<in>UNIV - {z}. region (free_blocks (FL y)))" for f
    by (auto simp: free_region_def split: if_splits)
  have fr0: "free_region FL = region (free_blocks (FL z)) \<union> (\<Union>y\<in>UNIV - {z}. region (free_blocks (FL y)))"
    using fr [of "FL z"] by simp
  have other: "brange b \<inter> (\<Union>y\<in>UNIV - {z}. region (free_blocks (FL y))) = {}" if "brange b \<subseteq> region (free_blocks (FL z))" for b
  proof -
    have "region (free_blocks (FL z)) \<inter> region (free_blocks (FL y)) = {}" if "y \<noteq> z" for y
      using zones_disjoint [OF zo that bi bi] by (auto simp: region_Un)
    then show ?thesis using that by blast
  qed
  have "picked FL AL n z (FL(z := fl)) (AL(z := A)) x s"
  proof (cases "x = 0")
    case True
    then show ?thesis using r(3) by (simp add: picked_def alloc_result_def fr fr0)
  next
    case False
    then obtain k where k: "A = insert (x, k) (AL z)" "s = block_bytes k" "k \<le> max_order" "unat n \<le> 2 ^ k" "2 ^ k < 2 * unat n"
      "brange (x, k) \<subseteq> region (free_blocks (FL z))" "region (free_blocks fl) = region (free_blocks (FL z)) - brange (x, k)"
      using r(3) by (auto simp: alloc_result_def)
    then show ?thesis using False other [OF k(6)] by (auto simp: picked_def fr fr0 intro!: exI [of _ k])
  qed
  moreover have "hhdm (heap p') = hhdm (heap p)" using r(3) by (simp add: alloc_result_def only_touches_def)
  ultimately show ?thesis using r by blast
qed

definition served_by :: "zone \<Rightarrow> zone \<Rightarrow> bool" where
  "served_by tp z \<longleftrightarrow> z = tp \<or> tp = Normal \<and> z = Sub4gib"

lemma pick_block_ok:
  assumes inv: "pmm_inv p FL AL" and i: "initialised p" "bootstrap_memmap_idx p = - 1" and n: "unat n < 2 ^ 52"
  shows "\<exists>p' x s z FL' AL'. pick_block p n tp = Some (Inr (p', x, s)) \<and> pmm_inv p' FL' AL' \<and> served_by tp z \<and>
    picked FL AL n z FL' AL' x s \<and>
    mem p' = mem p \<and> initialised p' \<and> bootstrap_memmap_idx p' = - 1 \<and> hhdm (heap p') = hhdm (heap p) \<and>
    (0 < unat n \<and> (\<exists>j\<le>max_order. unat n \<le> 2 ^ j \<and> FL tp j \<noteq> []) \<longrightarrow> x \<noteq> 0)"
proof -
  from zone_alloc_picked [OF inv n, of tp] obtain p1 x s FL1 AL1 where
    r: "zone_alloc p tp n = Some (Inr (p1, x, s))" "pmm_inv p1 FL1 AL1" "picked FL AL n tp FL1 AL1 x s"
      "mem p1 = mem p" "initialised p1 = initialised p" "bootstrap_memmap_idx p1 = bootstrap_memmap_idx p"
      "hhdm (heap p1) = hhdm (heap p)"
      "0 < unat n \<and> (\<exists>j\<le>max_order. unat n \<le> 2 ^ j \<and> FL tp j \<noteq> []) \<longrightarrow> x \<noteq> 0" by blast
  show ?thesis
  proof (cases "tp = Normal \<and> x = 0")
    case False
    then have "pick_block p n tp = Some (Inr (p1, x, s))" using r(1) i by (auto simp: pick_block_def)
    then show ?thesis using r i by (intro exI [of _ tp] exI conjI) (assumption | simp add: served_by_def)+
  next
    case True
    from zone_alloc_picked [OF r(2) n, of Sub4gib] obtain p2 x2 s2 FL2 AL2 where
      q: "zone_alloc p1 Sub4gib n = Some (Inr (p2, x2, s2))" "pmm_inv p2 FL2 AL2" "picked FL1 AL1 n Sub4gib FL2 AL2 x2 s2"
        "mem p2 = mem p1" "initialised p2 = initialised p1" "bootstrap_memmap_idx p2 = bootstrap_memmap_idx p1"
        "hhdm (heap p2) = hhdm (heap p1)" by blast
    have "pick_block p n tp = Some (Inr (p2, x2, s2))" using r(1) q(1) i r(6) True by (simp add: pick_block_def)
    moreover have same: "AL1 = AL" "free_region FL1 = free_region FL" using r(3) True by (simp_all add: picked_def)
    have "picked FL AL n Sub4gib FL2 AL2 x2 s2" using q(3) unfolding picked_def same .
    moreover have "\<not> (0 < unat n \<and> (\<exists>j\<le>max_order. unat n \<le> 2 ^ j \<and> FL tp j \<noteq> []))" using r(8) True by blast
    moreover have "served_by tp Sub4gib" using True by (simp add: served_by_def)
    moreover have "mem p2 = mem p" "initialised p2" "bootstrap_memmap_idx p2 = - 1" "hhdm (heap p2) = hhdm (heap p)"
      using q r i by simp_all
    ultimately show ?thesis using q(2) by blast
  qed
qed

lemma alloc_ok:
  assumes inv: "pmm_inv p FL AL" and i: "initialised p" "bootstrap_memmap_idx p = - 1" and n: "0 < unat n" "unat n < 2 ^ 52"
  shows "alloc p n clear tp = Some (Inl (Panic_msg ''pmm: could not allocate'')) \<and>
      \<not> (\<exists>j\<le>max_order. unat n \<le> 2 ^ j \<and> FL tp j \<noteq> []) \<or>
    (\<exists>p' x k z FL' AL'. alloc p n clear tp = Some (Inr (p', fromhh (hhdm (heap p)) x)) \<and> x \<noteq> 0 \<and> pmm_inv p' FL' AL' \<and>
      served_by tp z \<and> picked FL AL n z FL' AL' x (block_bytes k) \<and> k \<le> max_order \<and> AL' = AL(z := insert (x, k) (AL z)) \<and>
      unat n \<le> 2 ^ k \<and> 2 ^ k < 2 * unat n \<and>
      mem p' = (mem p)\<lparr>used := used (mem p) + block_bytes k\<rparr> \<and>
      initialised p' \<and> bootstrap_memmap_idx p' = - 1 \<and> hhdm (heap p') = hhdm (heap p))"
proof -
  have n0: "n \<noteq> 0" using n by auto
  from pick_block_ok [OF inv i n(2), of tp] obtain p1 x s z FL1 AL1 where
    r: "pick_block p n tp = Some (Inr (p1, x, s))" "pmm_inv p1 FL1 AL1" "served_by tp z" "picked FL AL n z FL1 AL1 x s"
      "mem p1 = mem p" "initialised p1" "bootstrap_memmap_idx p1 = - 1" "hhdm (heap p1) = hhdm (heap p)"
      "0 < unat n \<and> (\<exists>j\<le>max_order. unat n \<le> 2 ^ j \<and> FL tp j \<noteq> []) \<longrightarrow> x \<noteq> 0" by blast
  show ?thesis
  proof (cases "x = 0")
    case True
    then show ?thesis using r(1,9) n n0 by (simp add: alloc_def)
  next
    case False
    then obtain k where k: "AL1 = AL(z := insert (x, k) (AL z))" "s = block_bytes k" "k \<le> max_order" "unat n \<le> 2 ^ k" "2 ^ k < 2 * unat n"
      using r(4) by (auto simp: picked_def)
    define p2 where "p2 = (if clear then p1\<lparr>heap := clear_pages (heap p1) x (n * page_size)\<rparr> else p1)"
    have x1: "(x, k) \<in> AL1 z" using k(1) by simp
    have "unat (n * page_size) \<le> bsize k" using unat_bytes [OF n(2)] k(4) by (simp add: bsize_def)
    then have "pmm_inv p2 FL1 AL1" using clear_pages_inv [OF r(2) x1] r(2) by (simp add: p2_def)
    then have inv2: "pmm_inv (set_used p2 (\<lambda>u. u + s)) FL1 AL1" by (simp add: pmm_inv_set_used)
    have p2: "mem p2 = mem p1" "initialised p2" "bootstrap_memmap_idx p2 = - 1" "hhdm (heap p2) = hhdm (heap p)"
      using r by (simp_all add: p2_def clear_pages_def)
    have "alloc p n clear tp = Some (Inr (set_used p2 (\<lambda>u. u + s), fromhh (hhdm (heap p)) x))"
      using r(1) n0 False p2(4) by (simp add: alloc_def p2_def)
    then show ?thesis using False inv2 r(3-5) k p2 by (intro disjI2 exI conjI) (assumption | simp)+
  qed
qed

section \<open>Runs of the memory manager\<close>

text \<open>
  \<open>pmm_run p0 p live\<close>: from \<open>p0\<close> a sequence of successful \<open>alloc\<close> and \<open>free\<close> calls leads to
  \<open>p\<close>; \<open>live\<close> maps every pointer handed out and not yet freed to its page count. A client
  only frees what it got, with the count it asked for.
\<close>

inductive pmm_run :: "pmm \<Rightarrow> pmm \<Rightarrow> (u64 \<rightharpoonup> u64) \<Rightarrow> bool" for p0 where
  start: "pmm_run p0 p0 Map.empty"
| run_alloc: "pmm_run p0 p live \<Longrightarrow> 0 < unat n \<Longrightarrow> unat n < 2 ^ 52 \<Longrightarrow>
    alloc p n clear tp = Some (Inr (p', x)) \<Longrightarrow> pmm_run p0 p' (live(x \<mapsto> n))"
| run_free: "pmm_run p0 p live \<Longrightarrow> live x = Some n \<Longrightarrow> free p x n = Inr p' \<Longrightarrow> pmm_run p0 p' (live(x := None))"

definition used_region :: "(zone \<Rightarrow> (u64 \<times> nat) set) \<Rightarrow> nat set" where
  "used_region AL = (\<Union>z. region (AL z))"

definition live_ok :: "pmm \<Rightarrow> (u64 \<rightharpoonup> u64) \<Rightarrow> (zone \<Rightarrow> nat \<Rightarrow> u64 list) \<Rightarrow> (zone \<Rightarrow> (u64 \<times> nat) set) \<Rightarrow> bool" where
  "live_ok p live FL AL \<longleftrightarrow>
     pmm_inv p FL AL \<and> initialised p \<and> bootstrap_memmap_idx p = - 1 \<and>
     (\<forall>x n. live x = Some n \<longrightarrow>
        (\<exists>z v k. (v, k) \<in> AL z \<and> x = fromhh (hhdm (heap p)) v \<and> unat n \<le> 2 ^ k \<and> 2 ^ k < 2 * unat n))"

definition ready :: "pmm \<Rightarrow> (zone \<Rightarrow> nat \<Rightarrow> u64 list) \<Rightarrow> bool" where
  "ready p FL \<longleftrightarrow> pmm_inv p FL (\<lambda>_. {}) \<and> initialised p \<and> bootstrap_memmap_idx p = - 1"

lemma same_start_zone:
  assumes inv: "pmm_inv p FL AL" and v: "(v, k) \<in> AL z" "(v, j) \<in> AL y" shows "y = z \<and> j = k"
proof -
  have zo: "zones_ok p" and bi: "buddy_inv (heap p) (zone_of p y) (FL y) (AL y)" for y
    using inv by (auto simp: pmm_inv_def)
  have "unat v \<in> region (AL z)" "unat v \<in> region (AL y)"
    using region_mem [OF v(1)] region_mem [OF v(2)] brange_fst by blast+
  then have "y = z" using zones_disjoint [OF zo _ bi bi, of y z] by (auto simp: region_Un)
  moreover have "blocks_ok (heap p) (zone_of p z) (free_blocks (FL z)) (AL z)" using bi by (simp add: buddy_inv_def)
  ultimately show ?thesis using blocks_same_start v by blast
qed

lemma AL_page:
  assumes inv: "pmm_inv p FL AL" and v: "(v, k) \<in> AL z"
  shows "hhdm_ok (heap p)" "hpage (heap p) v" "block_ok (heap p) (zone_of p z) (v, k)"
proof -
  have bo: "blocks_ok (heap p) (zone_of p z) (free_blocks (FL z)) (AL z)" using inv by (simp add: pmm_inv_def buddy_inv_def)
  show "hhdm_ok (heap p)" "hpage (heap p) v" "block_ok (heap p) (zone_of p z) (v, k)"
    using blocks_okD(1) [OF bo] blocks_okD(2,3) [OF bo, of "(v, k)"] v by auto
qed

lemma used_region_remove:
  assumes "b \<in> AL z" shows "used_region AL = brange b \<union> used_region (AL(z := AL z - {b}))"
proof -
  have "AL z = insert b (AL z - {b})" using assms by blast
  then have "region (AL z) = brange b \<union> region (AL z - {b})" by (metis region_insert)
  moreover have "used_region AL = region (AL z) \<union> (\<Union>y\<in>UNIV - {z}. region (AL y))" by (auto simp: used_region_def)
  moreover have "used_region (AL(z := AL z - {b})) = region (AL z - {b}) \<union> (\<Union>y\<in>UNIV - {z}. region (AL y))"
    by (auto simp: used_region_def split: if_splits)
  ultimately show ?thesis by (simp only: Un_assoc)
qed

lemma live_okD:
  assumes "live_ok p live FL AL" "live x = Some n"
  obtains z v k where "(v, k) \<in> AL z" "x = fromhh (hhdm (heap p)) v" "unat n \<le> 2 ^ k" "2 ^ k < 2 * unat n"
  using assms unfolding live_ok_def by blast

lemma live_ok_alloc:
  assumes L: "live_ok p live FL AL" and n: "0 < unat n" "unat n < 2 ^ 52" and al: "alloc p n clear tp = Some (Inr (p', x))"
  shows "\<exists>FL' AL' v k z. live_ok p' (live(x \<mapsto> n)) FL' AL' \<and> free_region FL' \<union> used_region AL' = free_region FL \<union> used_region AL \<and>
    x = fromhh (hhdm (heap p)) v \<and> brange (v, k) \<subseteq> free_region FL \<and> (v, k) \<in> AL' z \<and> unat n \<le> 2 ^ k \<and> pmm_inv p' FL' AL' \<and>
    hhdm (heap p') = hhdm (heap p) \<and> (\<forall>y. AL y \<subseteq> AL' y)"
proof -
  have inv: "pmm_inv p FL AL" and i: "initialised p" "bootstrap_memmap_idx p = - 1" using L by (auto simp: live_ok_def)
  from alloc_ok [OF inv i n, of clear tp] al obtain v k z FL' AL' where
    r: "x = fromhh (hhdm (heap p)) v" "v \<noteq> 0" "pmm_inv p' FL' AL'" "picked FL AL n z FL' AL' v (block_bytes k)"
      "AL' = AL(z := insert (v, k) (AL z))" "unat n \<le> 2 ^ k" "2 ^ k < 2 * unat n"
      "initialised p'" "bootstrap_memmap_idx p' = - 1" "hhdm (heap p') = hhdm (heap p)" by auto
  have "live_ok p' (live(x \<mapsto> n)) FL' AL'"
    unfolding live_ok_def
  proof (intro conjI allI impI)
    fix y m assume y: "(live(x \<mapsto> n)) y = Some m"
    show "\<exists>z v k. (v, k) \<in> AL' z \<and> y = fromhh (hhdm (heap p')) v \<and> unat m \<le> 2 ^ k \<and> 2 ^ k < 2 * unat m"
    proof (cases "y = x")
      case True
      then show ?thesis using y r by (intro exI [of _ z] exI [of _ v] exI [of _ k]) simp
    next
      case False
      then have "live y = Some m" using y by simp
      then obtain z' v' k' where "(v', k') \<in> AL z'" "y = fromhh (hhdm (heap p)) v'" "unat m \<le> 2 ^ k'" "2 ^ k' < 2 * unat m"
        by (rule live_okD [OF L])
      then show ?thesis using r(5,10) by (intro exI [of _ z'] exI [of _ v'] exI [of _ k']) auto
    qed
  qed (use r in auto)
  moreover obtain k' where k': "AL' = AL(z := insert (v, k') (AL z))" "brange (v, k') \<subseteq> free_region FL" "free_region FL' = free_region FL - brange (v, k')"
      "unat n \<le> 2 ^ k'"
    using r(2,4) by (auto simp: picked_def)
  have "used_region AL' = brange (v, k') \<union> used_region AL"
    unfolding k'(1) used_region_def by (auto split: if_splits)
  then have "free_region FL' \<union> used_region AL' = free_region FL \<union> used_region AL" using k' by blast
  moreover have "(v, k') \<in> AL' z" "\<forall>y. AL y \<subseteq> AL' y" using k'(1) by auto
  ultimately show ?thesis using r(1,3,10) k'(2,4) by blast
qed

lemma live_ok_free:
  assumes L: "live_ok p live FL AL" and x: "live x = Some n"
  shows "\<exists>p' FL' AL'. free p x n = Inr p' \<and> live_ok p' (live(x := None)) FL' AL' \<and>
    free_region FL' \<union> used_region AL' = free_region FL \<union> used_region AL \<and>
    used (mem p') = used (mem p) - n * page_size \<and> hhdm (heap p') = hhdm (heap p)"
proof -
  have inv: "pmm_inv p FL AL" and i: "initialised p" "bootstrap_memmap_idx p = - 1" using L by (auto simp: live_ok_def)
  obtain z v k where v: "(v, k) \<in> AL z" "x = fromhh (hhdm (heap p)) v" "unat n \<le> 2 ^ k" "2 ^ k < 2 * unat n"
    using live_okD [OF L x] .
  from free_ok [OF inv i(1) v(1,3,4)] v(2) obtain p' fl where
    r: "free p x n = Inr p'" "pmm_inv p' (FL(z := fl)) (AL(z := AL z - {(v, k)}))" "free_blocks fl = insert (v, k) (free_blocks (FL z))"
      "initialised p'" "bootstrap_memmap_idx p' = - 1" "hhdm (heap p') = hhdm (heap p)"
      "mem p' = (mem p)\<lparr>used := used (mem p) - n * page_size\<rparr>" using i by auto
  let ?AL = "AL(z := AL z - {(v, k)})"
  have "live_ok p' (live(x := None)) (FL(z := fl)) ?AL"
    unfolding live_ok_def
  proof (intro conjI allI impI)
    fix y m assume y: "(live(x := None)) y = Some m"
    then have "live y = Some m" by (simp split: if_splits)
    then obtain z' v' k' where w: "(v', k') \<in> AL z'" "y = fromhh (hhdm (heap p)) v'" "unat m \<le> 2 ^ k'" "2 ^ k' < 2 * unat m"
      by (rule live_okD [OF L])
    then have "v' \<noteq> v" using y v(2) by auto
    then show "\<exists>z v k. (v, k) \<in> ?AL z \<and> y = fromhh (hhdm (heap p')) v \<and> unat m \<le> 2 ^ k \<and> 2 ^ k < 2 * unat m"
      using w r(6) by (intro exI [of _ z'] exI [of _ v'] exI [of _ k']) auto
  qed (use r in auto)
  moreover have "free_region (FL(z := fl)) = brange (v, k) \<union> free_region FL"
    using r(3) unfolding free_region_def by (auto split: if_splits)
  moreover have "used_region AL = brange (v, k) \<union> used_region ?AL"
    using used_region_remove [of "(v, k)" AL z] v(1) by simp
  ultimately show ?thesis using r(1,6,7) by (intro exI [of _ p'] exI [of _ "FL(z := fl)"] exI [of _ ?AL]) auto
qed

lemma run_inv:
  assumes "pmm_run p0 p live" "ready p0 FL0"
  shows "\<exists>FL AL. live_ok p live FL AL \<and> free_region FL \<union> used_region AL = free_region FL0"
  using assms
proof (induction rule: pmm_run.induct)
  case start
  then show ?case by (auto simp: ready_def live_ok_def used_region_def region_def intro!: exI [of _ FL0] exI [of _ "\<lambda>_. {}"])
next
  case (run_alloc p live n clear tp p' x)
  then obtain FL AL where L: "live_ok p live FL AL" "free_region FL \<union> used_region AL = free_region FL0" by blast
  from live_ok_alloc [OF L(1) run_alloc(2-4)] L(2) show ?case by metis
next
  case (run_free p live x n p')
  then obtain FL AL where L: "live_ok p live FL AL" "free_region FL \<union> used_region AL = free_region FL0" by blast
  from live_ok_free [OF L(1) run_free(2)] run_free(3) L(2) show ?case by (metis sum.inject(2))
qed

lemma live_block:
  assumes inv: "pmm_inv p FL AL" and v: "(v, k) \<in> AL z" and n: "unat n \<le> 2 ^ k"
  shows "{unat (fromhh (hhdm (heap p)) v) ..< unat (fromhh (hhdm (heap p)) v) + unat n * 4096}
    \<subseteq> (\<lambda>a. a - unat (hhdm (heap p))) ` brange (v, k)"
proof -
  note P = AL_page [OF inv v]
  have ge: "unat (hhdm (heap p)) \<le> unat v" using P(2) by (simp add: hpage_def)
  show ?thesis
  proof
    fix a assume a: "a \<in> {unat (fromhh (hhdm (heap p)) v) ..< unat (fromhh (hhdm (heap p)) v) + unat n * 4096}"
    have "unat n * 4096 \<le> bsize k" using n by (simp add: bsize_def)
    then have "a + unat (hhdm (heap p)) \<in> brange (v, k)"
      using a ge hpage_fromhh [OF P(2)] unfolding brange_def fst_conv snd_conv atLeastLessThan_iff by linarith
    then show "a \<in> (\<lambda>a. a - unat (hhdm (heap p))) ` brange (v, k)" by (rule rev_image_eqI) simp
  qed
qed

lemma blocks_apart:
  assumes inv: "pmm_inv p FL AL" and v: "(v, k) \<in> AL z" "(w, j) \<in> AL y" "v \<noteq> w"
  shows "brange (v, k) \<inter> brange (w, j) = {}"
proof (cases "y = z")
  case True
  have "blocks_ok (heap p) (zone_of p z) (free_blocks (FL z)) (AL z)" using inv by (simp add: pmm_inv_def buddy_inv_def)
  then show ?thesis using blocks_okD(4) [of "heap p" "zone_of p z" "free_blocks (FL z)" "AL z" "(v, k)" "(w, j)"] v True by simp
next
  case False
  have zo: "zones_ok p" and bi: "buddy_inv (heap p) (zone_of p y) (FL y) (AL y)" for y
    using inv by (auto simp: pmm_inv_def)
  show ?thesis
    using zones_disjoint [OF zo False bi bi] region_mem [OF v(1)] region_mem [OF v(2)] by (auto simp: region_Un)
qed

lemma brange_above: "pmm_inv p FL AL \<Longrightarrow> (v, k) \<in> AL z \<Longrightarrow> a \<in> brange (v, k) \<Longrightarrow> unat (hhdm (heap p)) \<le> a"
  using AL_page(2) [of p FL AL v k z] by (auto simp: hpage_def brange_def)

lemma live_ok_apart:
  assumes L: "live_ok p live FL AL" and x: "live x = Some n" and y: "live y = Some m" and ne: "x \<noteq> y"
  shows "{unat x ..< unat x + unat n * 4096} \<inter> {unat y ..< unat y + unat m * 4096} = {}"
proof -
  have inv: "pmm_inv p FL AL" using L by (simp add: live_ok_def)
  obtain z v k where v: "(v, k) \<in> AL z" "x = fromhh (hhdm (heap p)) v" "unat n \<le> 2 ^ k" using live_okD [OF L x] .
  obtain z' w j where w: "(w, j) \<in> AL z'" "y = fromhh (hhdm (heap p)) w" "unat m \<le> 2 ^ j" using live_okD [OF L y] .
  have "v \<noteq> w" using v(2) w(2) ne by auto
  then have "brange (v, k) \<inter> brange (w, j) = {}" by (rule blocks_apart [OF inv v(1) w(1)])
  then have "(\<lambda>a. a - unat (hhdm (heap p))) ` brange (v, k) \<inter> (\<lambda>a. a - unat (hhdm (heap p))) ` brange (w, j) = {}"
    using brange_above [OF inv v(1)] brange_above [OF inv w(1)] by (auto simp: eq_diff_iff)
  then show ?thesis using live_block [OF inv v(1,3)] live_block [OF inv w(1,3)] unfolding v(2) w(2) by blast
qed

lemma free_used_disjoint:
  assumes inv: "pmm_inv p FL AL" shows "free_region FL \<inter> used_region AL = {}"
proof -
  have zo: "zones_ok p" and bi: "buddy_inv (heap p) (zone_of p y) (FL y) (AL y)" for y
    using inv by (auto simp: pmm_inv_def)
  have "region (free_blocks (FL y)) \<inter> region (AL z) = {}" for y z
  proof (cases "y = z")
    case True
    have bo: "blocks_ok (heap p) (zone_of p z) (free_blocks (FL z)) (AL z)" using bi by (simp add: buddy_inv_def)
    have "brange b \<inter> brange c = {}" if "b \<in> free_blocks (FL z)" "c \<in> AL z" for b c
      using that blocks_okD(4,5) [OF bo] by blast
    then show ?thesis unfolding True region_def by blast
  next
    case False
    then show ?thesis using zones_disjoint [OF zo False bi bi] by (auto simp: region_Un)
  qed
  then show ?thesis unfolding free_region_def used_region_def by blast
qed

lemma live_ok_new:
  assumes L: "live_ok p live FL AL" and v: "brange (v, k) \<subseteq> free_region FL" and x: "x = fromhh (hhdm (heap p)) v"
    and hp: "hpage (heap p) v"
  shows "live x = None"
proof (rule ccontr)
  assume "live x \<noteq> None"
  then obtain n where n: "live x = Some n" by auto
  have inv: "pmm_inv p FL AL" using L by (simp add: live_ok_def)
  obtain z w j where w: "(w, j) \<in> AL z" "x = fromhh (hhdm (heap p)) w" using live_okD [OF L n] .
  note P = AL_page [OF inv w(1)]
  have "w = v" using tohh_fromhh_page [OF P(1,2)] tohh_fromhh_page [OF P(1) hp] w(2) x by metis
  then have "unat v \<in> region (AL z)" using region_mem [OF w(1)] brange_fst by blast
  moreover obtain y where "unat v \<in> region (free_blocks (FL y))"
    using v brange_fst [of v k] unfolding free_region_def by blast
  ultimately have "unat v \<in> free_region FL \<inter> used_region AL" by (auto simp: free_region_def used_region_def)
  then show False using free_used_disjoint [OF inv] by blast
qed

section \<open>Adding memory\<close>

text \<open>The part of the physical range \<open>[b, b + n)\<close> that lies in zone \<open>z\<close>, in the direct map.\<close>

definition zone_part :: "pmm \<Rightarrow> zone \<Rightarrow> nat \<Rightarrow> nat \<Rightarrow> nat set" where
  "zone_part p z b n =
     {unat (hhdm (heap p)) + max b (unat (astart (zone_of p z))) ..< unat (hhdm (heap p)) + min (b + n) (unat (aend (zone_of p z)))}"

lemma max_unat: "unat (max a b) = max (unat a) (unat (b :: u64))"
  by (auto simp: max_def word_le_nat_alt)

lemma min_unat: "unat (min a b) = min (unat a) (unat (b :: u64))"
  by (auto simp: min_def word_le_nat_alt)

lemma zone_page_bounds:
  assumes "zones_ok p" shows "4096 dvd unat (astart (zone_of p z))" "4096 dvd unat (aend (zone_of p z)) \<or> 2 ^ 46 \<le> unat (aend (zone_of p z))"
    "4096 \<le> unat (astart (zone_of p z))"
proof -
  have "(4096::nat) dvd 4096 * 256" "(4096::nat) dvd 4096 * 1048576" by (rule dvd_triv_left)+
  then have d: "(4096::nat) dvd 1048576" "(4096::nat) dvd 4294967296" by simp_all
  show "4096 dvd unat (astart (zone_of p z))" "4096 \<le> unat (astart (zone_of p z))"
    using assms d by (cases z; simp add: zones_ok_def mib_def gib_def kib_def)+
  have "2 ^ 46 \<le> unat (- 1 :: u64)" using unat_uminus_u64 [of 1] by simp
  then show "4096 dvd unat (aend (zone_of p z)) \<or> 2 ^ 46 \<le> unat (aend (zone_of p z))"
    using assms d by (cases z) (simp_all add: zones_ok_def mib_def gib_def kib_def)
qed

lemma check_and_add_ok:
  assumes inv: "pmm_inv p FL AL" and b: "4096 dvd unat base" "4096 dvd unat sz" "unat base + unat sz \<le> 2 ^ 46"
    and R: "zone_part p z (unat base) (unat sz) \<inter> region (free_blocks (FL z) \<union> AL z) = {}"
      "fresh_pages (heap p) (zone_part p z (unat base) (unat sz))"
  shows "\<exists>p' fl. check_and_add base sz z (p, w) = Inr (p', w) \<and> pmm_inv p' (FL(z := fl)) AL \<and>
     region (free_blocks fl) = region (free_blocks (FL z)) \<union> zone_part p z (unat base) (unat sz) \<and>
     only_touches (zone_part p z (unat base) (unat sz) \<union> region (free_blocks (FL z))) (heap p) (heap p') \<and>
     mem p' = mem p \<and> initialised p' = initialised p \<and> bootstrap_memmap_idx p' = bootstrap_memmap_idx p"
proof -
  have zo: "zones_ok p" and bi: "buddy_inv (heap p) (zone_of p z) (FL z) (AL z)" using inv by (auto simp: pmm_inv_def)
  define a where "a = zone_of p z"
  define H where "H = unat (hhdm (heap p))"
  note P = zone_page_bounds [OF zo, of z, folded a_def]
  have hok: "hhdm_ok (heap p)" using bi blocks_okD(1) by (auto simp: buddy_inv_def)
  have be: "unat (base + sz) = unat base + unat sz" using b(3) by (intro unat_add_no_wrap) simp
  have part: "zone_part p z (unat base) (unat sz) = {H + max (unat base) (unat (astart a)) ..< H + min (unat base + unat sz) (unat (aend a))}"
    by (simp add: zone_part_def H_def a_def)
  show ?thesis
  proof (cases "max base (astart a) < min (base + sz) (aend a)")
    case False
    then have "check_and_add base sz z (p, w) = Inr (p, w)"
      by (auto simp: check_and_add_def alloc_range_intersection_def range_intersection_def a_def Let_def split: prod.splits)
    moreover have "zone_part p z (unat base) (unat sz) = {}"
      using False unfolding part by (simp add: word_less_nat_alt max_unat min_unat be)
    moreover have "pmm_inv p (FL(z := FL z)) AL" using inv by simp
    ultimately show ?thesis using only_touches_refl by (intro exI [of _ p] exI [of _ "FL z"]) simp
  next
    case True
    define s where "s = max base (astart a)"
    define e where "e = min (base + sz) (aend a)"
    have se: "s < e" using True by (simp add: s_def e_def)
    have us: "unat s = max (unat base) (unat (astart a))" and ue: "unat e = min (unat base + unat sz) (unat (aend a))"
      by (simp_all add: s_def e_def max_unat min_unat be)
    have ues: "unat (e - s) = unat e - unat s" using se by (intro unat_sub_no_wrap) simp
    have ds: "4096 dvd unat s" using us b(1) P(1) by (simp add: max_def)
    have de: "4096 dvd unat e"
    proof (cases "4096 dvd unat (aend a)")
      case True then show ?thesis using ue b(1,2) by (simp add: min_def)
    next
      case False then show ?thesis using ue b P(2) by (simp add: min_def)
    qed
    have lt: "unat s < unat e" "unat e \<le> 2 ^ 46" using se ue b(3) by (simp_all add: word_less_nat_alt)
    have hs: "unat (tohh (hhdm (heap p)) s) = H + unat s"
    proof -
      have "\<not> ishh (hhdm (heap p)) s" using lt hok by (auto simp: ishh_def hhdm_ok_def word_le_nat_alt)
      moreover have "unat s + unat (hhdm (heap p)) < 2 ^ 64" using lt hok by (auto simp: hhdm_ok_def)
      ultimately show ?thesis using unat_add_no_wrap [of s "hhdm (heap p)"] by (simp add: tohh_def H_def)
    qed
    have eq: "zone_part p z (unat base) (unat sz) = {H + unat s ..< H + unat s + unat (e - s)}"
      unfolding part us ues using lt us ue by auto
    have "alloc_add_range (heap p) a s (e - s) = add_range_loop (heap p) a (tohh (hhdm (heap p)) s) (e - s)"
    proof -
      have "\<not> s < astart a" "\<not> aend a < s + (e - s)" by (simp_all add: s_def e_def)
      then show ?thesis by (simp add: alloc_add_range_def)
    qed
    moreover obtain h' a' fl lft where r: "add_range_loop (heap p) a (tohh (hhdm (heap p)) s) (e - s) = (h', a', lft)"
       "unat lft = unat (e - s) mod 4096" "buddy_inv h' a' fl (AL z)"
       "region (free_blocks fl) = region (free_blocks (FL z)) \<union> {H + unat s ..< H + unat s + (unat (e - s) - unat lft)}"
       "only_touches ({H + unat s ..< H + unat s + unat (e - s)} \<union> region (free_blocks (FL z))) (heap p) h'"
       "astart a' = astart a" "aend a' = aend a"
    proof -
      have "4096 dvd H" using hok by (simp add: hhdm_ok_def H_def)
      then have c1: "4096 dvd unat (tohh (hhdm (heap p)) s)" using hs ds by simp
      have c2: "unat (hhdm (heap p)) + unat (astart a) \<le> unat (tohh (hhdm (heap p)) s)" using hs us by (simp add: H_def)
      have c3: "unat (tohh (hhdm (heap p)) s) + unat (e - s) \<le> unat (hhdm (heap p)) + unat (aend a)"
        using hs ues ue lt by (simp add: H_def)
      have c4: "unat (tohh (hhdm (heap p)) s) + unat (e - s) \<le> unat (hhdm (heap p)) + 2 ^ 46"
        using hs ues lt by (simp add: H_def)
      show ?thesis using add_range_loop_ok [OF bi [folded a_def] c1 c2 c3 c4] R that unfolding hs eq by blast
    qed
    ultimately have ar: "alloc_add_range (heap p) a s (e - s) = (h', a', lft)" by simp
    have "4096 dvd unat (e - s)" using ds de by (simp add: ues dvd_diff_nat)
    then have l0: "lft = 0" using r(2) by (simp add: word_unat_eq_iff dvd_eq_mod_eq_0)
    have "alloc_range_intersection a base (base + sz) = (s, e)"
      using se by (auto simp: alloc_range_intersection_def range_intersection_def range_overlaps_def s_def e_def)
    moreover have "e - s \<noteq> 0" using se by auto
    ultimately have "check_and_add base sz z (p, w) = Inr (set_zone (p\<lparr>heap := h'\<rparr>) z a', w)"
      using ar se l0 by (simp add: check_and_add_def a_def bug_on_def Let_def)
    moreover have "pmm_inv (set_zone (p\<lparr>heap := h'\<rparr>) z a') (FL(z := fl)) (AL(z := AL z))"
    proof (rule pmm_inv_update [OF inv r(3,5)])
      show "{H + unat s ..< H + unat s + unat (e - s)} \<union> region (free_blocks (FL z))
        \<subseteq> {unat (hhdm (heap p)) + unat (astart (zone_of p z)) ..< unat (hhdm (heap p)) + unat (aend (zone_of p z))}"
        using region_in_zone [OF inv, of z] us ue ues unfolding H_def a_def by (auto simp: region_Un)
    qed (use r(6,7) in \<open>simp_all add: a_def\<close>)
    ultimately show ?thesis using r(4,5) l0 eq
      by (intro exI [of _ "set_zone (p\<lparr>heap := h'\<rparr>) z a'"] exI [of _ fl]) simp
  qed
qed

definition adding :: "pmm \<Rightarrow> (zone \<Rightarrow> nat \<Rightarrow> u64 list) \<Rightarrow> (zone \<Rightarrow> (u64 \<times> nat) set) \<Rightarrow> nat \<Rightarrow> nat \<Rightarrow> zone set \<Rightarrow> bool" where
  "adding p FL AL b n Z \<longleftrightarrow> (\<forall>y\<in>Z. zone_part p y b n \<inter> region (free_blocks (FL y) \<union> AL y) = {} \<and>
     fresh_pages (heap p) (zone_part p y b n))"

lemma zone_part_in_zone:
  "zone_part p z b n \<subseteq> {unat (hhdm (heap p)) + unat (astart (zone_of p z)) ..< unat (hhdm (heap p)) + unat (aend (zone_of p z))}"
  by (auto simp: zone_part_def)

lemma zone_parts_apart: "zones_ok p \<Longrightarrow> y \<noteq> z \<Longrightarrow> zone_part p y b n \<inter> zone_part p z b n = {}"
  using zones_apart [of p y z] by (fastforce simp: zone_part_def)

lemma zone_part_page:
  assumes "unat z \<in> zone_part p y b n" "4096 dvd unat z" "b + n \<le> 2 ^ 46" shows "hpage (heap p) z"
  using assms by (auto simp: hpage_def zone_part_def)

lemma fresh_pages_frame:
  "fresh_pages h R \<Longrightarrow> only_touches T h h' \<Longrightarrow> T \<inter> R = {} \<Longrightarrow> (\<And>z. unat z \<in> R \<Longrightarrow> 4096 dvd unat z \<Longrightarrow> hpage h z) \<Longrightarrow> fresh_pages h' R"
  unfolding fresh_pages_def only_touches_def by (metis IntI empty_iff)

lemma check_and_add_step:
  assumes inv: "pmm_inv p FL AL" and b: "4096 dvd unat base" "4096 dvd unat sz" "unat base + unat sz \<le> 2 ^ 46"
    and ad: "adding p FL AL (unat base) (unat sz) Z" "z \<in> Z"
  shows "\<exists>p' FL'. check_and_add base sz z (p, w) = Inr (p', w) \<and> pmm_inv p' FL' AL \<and>
     free_region FL' = free_region FL \<union> zone_part p z (unat base) (unat sz) \<and>
     adding p' FL' AL (unat base) (unat sz) (Z - {z}) \<and> (\<forall>y. zone_part p' y (unat base) (unat sz) = zone_part p y (unat base) (unat sz)) \<and>
     mem p' = mem p \<and> initialised p' = initialised p \<and> bootstrap_memmap_idx p' = bootstrap_memmap_idx p \<and> hhdm (heap p') = hhdm (heap p)"
proof -
  let ?part = "\<lambda>p z. zone_part p z (unat base) (unat sz)"
  have R: "?part p z \<inter> region (free_blocks (FL z) \<union> AL z) = {}" "fresh_pages (heap p) (?part p z)"
    using ad by (auto simp: adding_def)
  obtain p' fl where r: "check_and_add base sz z (p, w) = Inr (p', w)" "pmm_inv p' (FL(z := fl)) AL"
     "region (free_blocks fl) = region (free_blocks (FL z)) \<union> ?part p z"
     "only_touches (?part p z \<union> region (free_blocks (FL z))) (heap p) (heap p')"
     "mem p' = mem p" "initialised p' = initialised p" "bootstrap_memmap_idx p' = bootstrap_memmap_idx p"
    using check_and_add_ok [OF inv b R] by blast
  have zo: "zones_ok p" "zones_ok p'" using inv r(2) by (auto simp: pmm_inv_def)
  have hh: "hhdm (heap p') = hhdm (heap p)" using r(4) by (simp add: only_touches_def)
  have zp: "?part p' y = ?part p y" for y
    using zo hh by (cases y) (simp_all add: zone_part_def zones_ok_def)
  have "adding p' (FL(z := fl)) AL (unat base) (unat sz) (Z - {z})"
    unfolding adding_def
  proof (intro ballI conjI)
    fix y assume y: "y \<in> Z - {z}"
    then have yz: "y \<noteq> z" and old: "?part p y \<inter> region (free_blocks (FL y) \<union> AL y) = {}" "fresh_pages (heap p) (?part p y)"
      using ad by (auto simp: adding_def)
    show "?part p' y \<inter> region (free_blocks ((FL(z := fl)) y) \<union> AL y) = {}" using old(1) yz by (simp add: zp)
    have "region (free_blocks (FL z) \<union> AL z) \<inter> ?part p y = {}"
      using zone_bounded_apart [OF zo(1), of z y "FL z" "AL z", OF _ _ zone_part_in_zone] yz inv by (auto simp: pmm_inv_def)
    then have "(?part p z \<union> region (free_blocks (FL z))) \<inter> ?part p y = {}"
      using zone_parts_apart [OF zo(1) yz] by (auto simp: region_Un)
    then show "fresh_pages (heap p') (?part p' y)"
      unfolding zp by (rule fresh_pages_frame [OF old(2) r(4)]) (rule zone_part_page [OF _ _ b(3)])
  qed
  moreover have "free_region (FL(z := fl)) = free_region FL \<union> ?part p z"
  proof -
    have "free_region (FL(z := f)) = region (free_blocks f) \<union> (\<Union>y\<in>UNIV - {z}. region (free_blocks (FL y)))" for f
      by (auto simp: free_region_def split: if_splits)
    from this [of fl] this [of "FL z"] show ?thesis using r(3) by auto
  qed
  ultimately show ?thesis using r zp hh by blast
qed

lemma zone_parts_cover:
  assumes "zones_ok p" "4096 \<le> b" "b + n \<le> 2 ^ 46"
  shows "zone_part p Sub1mib b n \<union> zone_part p Sub4gib b n \<union> zone_part p Normal b n =
    {unat (hhdm (heap p)) + b ..< unat (hhdm (heap p)) + b + n}"
proof -
  have "unat (- 1 :: u64) = 2 ^ 64 - 1" using unat_uminus_u64 [of 1] by simp
  then show ?thesis using assms by (auto simp: zone_part_def zones_ok_def mib_def gib_def kib_def)
qed

lemma add_to_zones_ok:
  assumes inv: "pmm_inv p FL AL" and b: "4096 dvd unat base" "4096 dvd unat sz" "unat base + unat sz \<le> 2 ^ 46" "4096 \<le> unat base"
    and R: "{unat (hhdm (heap p)) + unat base ..< unat (hhdm (heap p)) + unat base + unat sz} \<inter> (free_region FL \<union> used_region AL) = {}"
      "fresh_pages (heap p) {unat (hhdm (heap p)) + unat base ..< unat (hhdm (heap p)) + unat base + unat sz}"
  shows "\<exists>p' FL'. add_to_zones p base sz = Inr (p', 0) \<and> pmm_inv p' FL' AL \<and>
     free_region FL' = free_region FL \<union> {unat (hhdm (heap p)) + unat base ..< unat (hhdm (heap p)) + unat base + unat sz} \<and>
     mem p' = mem p \<and> initialised p' = initialised p \<and> bootstrap_memmap_idx p' = bootstrap_memmap_idx p \<and> hhdm (heap p') = hhdm (heap p)"
proof -
  let ?part = "\<lambda>p z. zone_part p z (unat base) (unat sz)"
  have zo: "zones_ok p" using inv by (auto simp: pmm_inv_def)
  note cover = zone_parts_cover [OF zo b(4,3)]
  have sub: "?part p y \<subseteq> {unat (hhdm (heap p)) + unat base ..< unat (hhdm (heap p)) + unat base + unat sz}" for y
    using cover by (cases y) auto
  have "region (free_blocks (FL y) \<union> AL y) \<subseteq> free_region FL \<union> used_region AL" for y
    by (auto simp: region_Un free_region_def used_region_def)
  then have ad: "adding p FL AL (unat base) (unat sz) UNIV"
    using R sub unfolding adding_def fresh_pages_def by blast
  from check_and_add_step [OF inv b(1-3) ad, where z = Sub1mib and w = 0, OF UNIV_I] obtain p1 FL1 where
    1: "check_and_add base sz Sub1mib (p, 0) = Inr (p1, 0)" "pmm_inv p1 FL1 AL" "free_region FL1 = free_region FL \<union> ?part p Sub1mib"
      "adding p1 FL1 AL (unat base) (unat sz) (UNIV - {Sub1mib})" "\<And>y. ?part p1 y = ?part p y"
      "mem p1 = mem p" "initialised p1 = initialised p" "bootstrap_memmap_idx p1 = bootstrap_memmap_idx p" "hhdm (heap p1) = hhdm (heap p)"
    by blast
  have m: "Sub4gib \<in> UNIV - {Sub1mib}" "Normal \<in> UNIV - {Sub1mib} - {Sub4gib}" by simp_all
  from check_and_add_step [OF 1(2) b(1-3) 1(4) m(1), where w = 0] obtain p2 FL2 where
    2: "check_and_add base sz Sub4gib (p1, 0) = Inr (p2, 0)" "pmm_inv p2 FL2 AL" "free_region FL2 = free_region FL1 \<union> ?part p1 Sub4gib"
      "adding p2 FL2 AL (unat base) (unat sz) (UNIV - {Sub1mib} - {Sub4gib})" "\<And>y. ?part p2 y = ?part p1 y"
      "mem p2 = mem p1" "initialised p2 = initialised p1" "bootstrap_memmap_idx p2 = bootstrap_memmap_idx p1" "hhdm (heap p2) = hhdm (heap p1)"
    by blast
  from check_and_add_step [OF 2(2) b(1-3) 2(4) m(2), where w = 0] obtain p3 FL3 where
    3: "check_and_add base sz Normal (p2, 0) = Inr (p3, 0)" "pmm_inv p3 FL3 AL" "free_region FL3 = free_region FL2 \<union> ?part p2 Normal"
      "mem p3 = mem p2" "initialised p3 = initialised p2" "bootstrap_memmap_idx p3 = bootstrap_memmap_idx p2" "hhdm (heap p3) = hhdm (heap p2)"
    by blast
  have "add_to_zones p base sz = Inr (p3, 0)" using 1(1) 2(1) 3(1) by (simp add: add_to_zones_def)
  moreover have "free_region FL3 = free_region FL \<union> {unat (hhdm (heap p)) + unat base ..< unat (hhdm (heap p)) + unat base + unat sz}"
    using 1(3,5) 2(3,5) 3(3) cover by (simp add: Un_assoc)
  ultimately show ?thesis using 1(6-9) 2(6-9) 3(2,4-7) by (intro exI [of _ p3] exI [of _ FL3]) simp
qed

lemma set_usable_simps [simp]:
  "heap (set_usable p f) = heap p" "mem (set_usable p f) = (mem p)\<lparr>usable := f (usable (mem p))\<rparr>"
  "initialised (set_usable p f) = initialised p" "bootstrap_memmap_idx (set_usable p f) = bootstrap_memmap_idx p"
  "pmm_inv (set_usable p f) FL AL = pmm_inv p FL AL"
proof -
  have "zone_of (set_usable p f) z = zone_of p z" for z by (cases z) (simp_all add: set_usable_def)
  then show "pmm_inv (set_usable p f) FL AL = pmm_inv p FL AL"
    by (simp add: pmm_inv_def zones_ok_def set_usable_def)
qed (simp_all add: set_usable_def)

lemma add_range_ok:
  assumes inv: "pmm_inv p FL AL" and b: "4096 dvd unat base" "4096 dvd unat sz" "unat base + unat sz \<le> 2 ^ 46" "4096 \<le> unat base" "0 < unat sz"
    and R: "{unat (hhdm (heap p)) + unat base ..< unat (hhdm (heap p)) + unat base + unat sz} \<inter> (free_region FL \<union> used_region AL) = {}"
      "fresh_pages (heap p) {unat (hhdm (heap p)) + unat base ..< unat (hhdm (heap p)) + unat base + unat sz}"
  shows "\<exists>p' FL'. add_range p base sz freeing = Inr p' \<and> pmm_inv p' FL' AL \<and>
     free_region FL' = free_region FL \<union> {unat (hhdm (heap p)) + unat base ..< unat (hhdm (heap p)) + unat base + unat sz} \<and>
     mem p' = (if freeing then (mem p)\<lparr>used := used (mem p) - sz\<rparr> else (mem p)\<lparr>usable := usable (mem p) + sz\<rparr>) \<and>
     initialised p' = initialised p \<and> bootstrap_memmap_idx p' = bootstrap_memmap_idx p \<and> hhdm (heap p') = hhdm (heap p)"
proof -
  have sz: "sz \<noteq> 0" "\<not> sz < page_size" "base \<noteq> 0"
    using b dvd_imp_le [OF b(2)] by (auto simp: word_less_nat_alt)
  show ?thesis
  proof (cases freeing)
    case True
    from add_to_zones_ok [OF inv b(1-4) R] obtain p' FL' where r: "add_to_zones p base sz = Inr (p', 0)" "pmm_inv p' FL' AL"
     "free_region FL' = free_region FL \<union> {unat (hhdm (heap p)) + unat base ..< unat (hhdm (heap p)) + unat base + unat sz}"
     "mem p' = mem p" "initialised p' = initialised p" "bootstrap_memmap_idx p' = bootstrap_memmap_idx p" "hhdm (heap p') = hhdm (heap p)" by blast
    then have "add_range p base sz freeing = Inr (set_used p' (\<lambda>u. u - sz))" using sz True by (simp add: add_range_def)
    then show ?thesis using r True by (intro exI [of _ "set_used p' (\<lambda>u. u - sz)"] exI [of _ FL']) (simp add: pmm_inv_set_used)
  next
    case False
    let ?p = "set_usable p (\<lambda>u. u + sz)"
    have inv1: "pmm_inv ?p FL AL" using inv by simp
    from add_to_zones_ok [OF inv1 b(1-4)] R obtain p' FL' where r: "add_to_zones ?p base sz = Inr (p', 0)" "pmm_inv p' FL' AL"
     "free_region FL' = free_region FL \<union> {unat (hhdm (heap p)) + unat base ..< unat (hhdm (heap p)) + unat base + unat sz}"
     "mem p' = mem ?p" "initialised p' = initialised p" "bootstrap_memmap_idx p' = bootstrap_memmap_idx p" "hhdm (heap p') = hhdm (heap p)"
      unfolding set_usable_simps by blast
    then have "add_range p base sz freeing = Inr (set_used p' (\<lambda>u. u + 0))" using sz False by (simp add: add_range_def)
    then show ?thesis using r False by (intro exI [of _ "set_used p' (\<lambda>u. u + 0)"] exI [of _ FL']) (simp add: pmm_inv_set_used)
  qed
qed
lemma add_range_loop_single:
  assumes "k \<le> max_order" "bsize k dvd unat base"
  shows "\<exists>h' a'. add_range_loop h a base (block_bytes k) = (h', a', 0) \<and> lists a' k = base"
proof -
  have u: "unat (block_bytes k) = 2 ^ (k + 12)" using assms(1) unat_block_bytes [of k] by (simp add: power_add)
  have k27: "k + 12 < 28" using assms(1) by simp
  then have "(2::nat) ^ (k + 12) < 2 ^ 28" by (intro power_strict_increasing) auto
  then have "prev_order_from (block_bytes k) = int (k + 12 - 12)"
    using u assms(1) by (intro prev_order_from_eq) auto
  then have po: "prev_order_from (block_bytes k) = int k" by simp
  have al: "align_order base k = Some k"
    using assms unat_block_bytes_bsize [of k]
    by (subst align_order.simps) (simp add: word_unat_eq_iff unat_mod_distrib dvd_eq_mod_eq_0 del: mod_0_imp_dvd)
  have ge: "page_size \<le> block_bytes k" using u power_increasing [of 12 "k + 12" "2::nat"] by (simp add: word_le_nat_alt)
  have mn: "min k max_order = k" using assms(1) by simp
  obtain h' a' where p: "put (set_page (h\<lparr>nodes := (nodes h)(base := \<lparr>lprev = 0, lnext = 0\<rparr>)\<rparr>) base (\<lambda>p. p\<lparr>order := of_nat k\<rparr>)) a k base = (h', a')"
    by fastforce
  then have la: "lists a' k = base" by (auto simp: put_def Let_def)
  have "add_range_loop h a base (block_bytes k) = add_range_loop h' a' (base + block_bytes k) 0"
    using ge po al mn p by (subst add_range_loop.simps) (simp add: Let_def del: min_def)
  also have "\<dots> = (h', a', 0)" by (subst add_range_loop.simps) simp
  finally show ?thesis using la by blast
qed

section \<open>The state at boot\<close>

text \<open>The \<open>constinit\<close> values, over a zeroed page-frame database.\<close>

definition pmm_empty :: "u64 \<Rightarrow> memmap_entry list \<Rightarrow> pmm" where
  "pmm_empty H mms =
     \<lparr>heap = \<lparr>hhdm = H, nodes = (\<lambda>_. \<lparr>lprev = 0, lnext = 0\<rparr>), pfndb = (\<lambda>_. \<lparr>next_paddr = 0, order = 0, allocated = 0\<rparr>)\<rparr>,
      sub1mib = sub1mib_init, sub4gib = sub4gib_init, normal = normal_init,
      mem = \<lparr>top = 0, usable_top = 0, pfndb_base = 0, pfndb_end = 0, usable = 0, used = 0\<rparr>,
      initialised = False, bootstrap_once = False, bootstrap_memmap_idx = - 1,
      bootstrap_memmap = \<lparr>mm_base = 0, mm_length = 0, mm_type = MM_other\<rparr>, memmaps = mms\<rparr>"

lemma pmm_empty_hhdm [simp]: "hhdm (heap (pmm_empty H mms)) = H"
  by (simp add: pmm_empty_def)

lemma pmm_empty_inv:
  assumes "hhdm_ok \<lparr>hhdm = H, nodes = n, pfndb = d\<rparr>"
  shows "pmm_inv (pmm_empty H mms) (\<lambda>_ _. []) (\<lambda>_. {})"
proof -
  have "lists (zone_of (pmm_empty H mms) z) k = 0" for z k
    by (cases z) (simp_all add: pmm_empty_def sub1mib_init_def sub4gib_init_def normal_init_def)
  moreover have "zones_ok (pmm_empty H mms)"
    by (simp add: zones_ok_def pmm_empty_def sub1mib_init_def sub4gib_init_def normal_init_def)
  moreover have "free_blocks (\<lambda>_. []) = {}" by (simp add: free_blocks_def)
  moreover have "hhdm_ok (heap (pmm_empty H mms))" using assms by (simp add: hhdm_ok_def pmm_empty_def)
  ultimately show ?thesis
    by (simp add: pmm_inv_def buddy_inv_def lists_ok_def disjoint_lists_def blocks_ok_def pairwise_apart_def)
qed

lemma fresh_pmm_empty: "fresh_pages (heap (pmm_empty H mms)) R"
  by (simp add: fresh_pages_def get_page_def pmm_empty_def)

text \<open>A free byte of any zone that serves the type makes a one-page allocation succeed.\<close>

lemma free_byte_list:
  assumes "pmm_inv p FL AL" "v \<in> region (free_blocks (FL z))"
  shows "\<exists>j\<le>max_order. unat (1 :: u64) \<le> 2 ^ j \<and> FL z j \<noteq> []"
proof -
  obtain x j where j: "(x, j) \<in> free_blocks (FL z)" using assms(2) by (auto simp: region_def)
  have "buddy_inv (heap p) (zone_of p z) (FL z) (AL z)" using assms(1) by (simp add: pmm_inv_def)
  then have "block_ok (heap p) (zone_of p z) (x, j)" using j blocks_okD(2) unfolding buddy_inv_def by blast
  then show ?thesis using j by (intro exI [of _ j]) (auto simp: block_ok_def free_blocks_iff)
qed

lemma free_byte_zone:
  assumes "pmm_inv p FL AL" "v \<in> free_region FL"
  shows "v < unat (hhdm (heap p)) + unat (mib 1) \<and> v \<in> region (free_blocks (FL Sub1mib)) \<or>
    unat (hhdm (heap p)) + unat (mib 1) \<le> v \<and> v < unat (hhdm (heap p)) + unat (gib 4) \<and> v \<in> region (free_blocks (FL Sub4gib)) \<or>
    unat (hhdm (heap p)) + unat (gib 4) \<le> v \<and> v \<in> region (free_blocks (FL Normal))"
proof -
  obtain z where z: "v \<in> region (free_blocks (FL z))" using assms(2) by (auto simp: free_region_def)
  have bi: "buddy_inv (heap p) (zone_of p z) (FL z) (AL z)" and zo: "zones_ok p" using assms(1) by (auto simp: pmm_inv_def)
  have "unat (hhdm (heap p)) + unat (astart (zone_of p z)) \<le> v \<and> v < unat (hhdm (heap p)) + unat (aend (zone_of p z))"
    using region_bounds [OF bi, of v] z by (simp add: region_Un)
  then show ?thesis using z zo by (cases z) (auto simp: zones_ok_def)
qed

lemma pick_page_succeeds:
  assumes inv: "pmm_inv p FL AL" and i: "initialised p" "bootstrap_memmap_idx p = - 1"
    and z: "served_by tp z" "v \<in> region (free_blocks (FL z))"
  shows "\<exists>p' x s. pick_block p 1 tp = Some (Inr (p', x, s)) \<and> x \<noteq> 0"
proof -
  have n: "unat (1 :: u64) < 2 ^ 52" by simp
  from zone_alloc_picked [OF inv n, of tp] obtain p1 x s FL1 AL1 where
    r: "zone_alloc p tp 1 = Some (Inr (p1, x, s))" "pmm_inv p1 FL1 AL1" "picked FL AL 1 tp FL1 AL1 x s"
      "initialised p1 = initialised p" "bootstrap_memmap_idx p1 = bootstrap_memmap_idx p" "hhdm (heap p1) = hhdm (heap p)"
      "0 < unat (1 :: u64) \<and> (\<exists>j\<le>max_order. unat (1 :: u64) \<le> 2 ^ j \<and> FL tp j \<noteq> []) \<longrightarrow> x \<noteq> 0" by blast
  show ?thesis
  proof (cases "x = 0")
    case False
    then show ?thesis using r(1) i by (auto simp: pick_block_def)
  next
    case True
    have "z \<noteq> tp" using r(7) True free_byte_list [OF inv z(2)] by auto
    then have t: "tp = Normal" "z = Sub4gib" using z(1) by (auto simp: served_by_def)
    have vf: "v \<in> free_region FL" using z(2) by (auto simp: free_region_def)
    then have "v \<in> free_region FL1" using r(3) True by (simp add: picked_def)
    moreover have "unat (hhdm (heap p)) + unat (mib 1) \<le> v \<and> v < unat (hhdm (heap p)) + unat (gib 4)"
    proof -
      have bi: "buddy_inv (heap p) (zone_of p z) (FL z) (AL z)" and zo: "zones_ok p" using inv by (auto simp: pmm_inv_def)
      show ?thesis using region_bounds [OF bi, of v] z(2) zo t(2) by (simp add: region_Un zones_ok_def)
    qed
    ultimately have "v \<in> region (free_blocks (FL1 Sub4gib))" using free_byte_zone [OF r(2), of v] r(6) by auto
    note ne = free_byte_list [OF r(2) this]
    from zone_alloc_picked [OF r(2) n, of Sub4gib] obtain p2 x2 s2 where
      q: "zone_alloc p1 Sub4gib 1 = Some (Inr (p2, x2, s2))"
        "0 < unat (1 :: u64) \<and> (\<exists>j\<le>max_order. unat (1 :: u64) \<le> 2 ^ j \<and> FL1 Sub4gib j \<noteq> []) \<longrightarrow> x2 \<noteq> 0" by blast
    have "x2 \<noteq> 0" using q(2) ne by simp
    moreover have "pick_block p 1 tp = Some (Inr (p2, x2, s2))" using r(1,4,5) q(1) i True t(1) by (simp add: pick_block_def)
    ultimately show ?thesis by blast
  qed
qed

lemma alloc_page_from:
  assumes inv: "pmm_inv p FL AL" and i: "initialised p" "bootstrap_memmap_idx p = - 1"
    and z: "served_by tp z" "v \<in> region (free_blocks (FL z))"
  shows "\<exists>p' x FL' AL' y. alloc p 1 clear tp = Some (Inr (p', fromhh (hhdm (heap p)) x)) \<and> pmm_inv p' FL' AL' \<and>
    brange (x, 0) \<subseteq> free_region FL \<and> free_region FL' = free_region FL - brange (x, 0) \<and> AL' = AL(y := insert (x, 0) (AL y)) \<and>
    initialised p' \<and> bootstrap_memmap_idx p' = - 1 \<and> hhdm (heap p') = hhdm (heap p) \<and>
    used (mem p') = used (mem p) + 4096"
proof -
  from pick_page_succeeds [OF assms] have "alloc p 1 clear tp \<noteq> Some (Inl (Panic_msg ''pmm: could not allocate''))"
    by (auto simp: alloc_def Let_def)
  then obtain p' x k y FL' AL' where r: "alloc p 1 clear tp = Some (Inr (p', fromhh (hhdm (heap p)) x))" "x \<noteq> 0" "pmm_inv p' FL' AL'"
      "picked FL AL 1 y FL' AL' x (block_bytes k)" "k \<le> max_order" "AL' = AL(y := insert (x, k) (AL y))" "2 ^ k < 2 * unat (1 :: u64)"
      "mem p' = (mem p)\<lparr>used := used (mem p) + block_bytes k\<rparr>"
      "initialised p'" "bootstrap_memmap_idx p' = - 1" "hhdm (heap p') = hhdm (heap p)"
    using alloc_ok [OF inv i, of 1 clear tp] by (simp only: unat_1) fastforce
  have k0: "k = 0" using r(7) by (cases k) auto
  obtain k' where k': "2 ^ k' < 2 * unat (1 :: u64)" "brange (x, k') \<subseteq> free_region FL" "free_region FL' = free_region FL - brange (x, k')"
    using r(2,4) by (auto simp: picked_def)
  have k'0: "k' = 0" using k'(1) by (cases k') auto
  have "block_bytes 0 = 4096" using unat_block_bytes [of 0] by (simp add: word_unat_eq_iff)
  then show ?thesis using r k0 k'(2,3) k'0 by (intro exI conjI) (assumption | simp)+
qed

lemma alloc_page_succeeds:
  assumes inv: "pmm_inv p FL AL" and i: "initialised p" "bootstrap_memmap_idx p = - 1"
    and v: "v \<in> free_region FL" "unat (hhdm (heap p)) + unat (gib 4) \<le> v"
  shows "\<exists>p' x FL' AL' z. alloc p 1 clear Normal = Some (Inr (p', fromhh (hhdm (heap p)) x)) \<and> pmm_inv p' FL' AL' \<and>
    brange (x, 0) \<subseteq> free_region FL \<and> free_region FL' = free_region FL - brange (x, 0) \<and> AL' = AL(z := insert (x, 0) (AL z)) \<and>
    initialised p' \<and> bootstrap_memmap_idx p' = - 1 \<and> hhdm (heap p') = hhdm (heap p) \<and>
    used (mem p') = used (mem p) + 4096"
proof -
  have "unat (mib 1) \<le> unat (gib 4)" by (simp add: mib_def gib_def kib_def)
  then have "v \<in> region (free_blocks (FL Normal))" using free_byte_zone [OF inv v(1)] v(2) by auto
  then show ?thesis using alloc_page_from [OF inv i, of Normal Normal v clear] by (simp add: served_by_def)
qed

lemma sample_lists:
  assumes "add_range ((pmm_empty 0xffff800000000000 [])\<lparr>initialised := True\<rparr>) 0x100000000 0x4000 False = Inr p'"
  shows "lists (normal p') 2 = 0xffff800100000000"
proof -
  let ?p = "(pmm_empty 0xffff800000000000 [])\<lparr>initialised := True\<rparr>"
  have bb: "block_bytes 2 = 0x4000" using unat_block_bytes [of 2] by (simp add: word_unat_eq_iff)
  have "bsize 2 dvd unat (0xffff800100000000 :: u64)"
    using dvd_triv_left [of "16384::nat" "1125891317170176"] by (simp add: bsize_def)
  then obtain h a where l: "add_range_loop (heap ?p) normal_init 0xffff800100000000 0x4000 = (h, a, 0)" "lists a 2 = 0xffff800100000000"
    using add_range_loop_single [of 2 "0xffff800100000000" "heap ?p" normal_init] unfolding bb by auto
  let ?q = "set_usable ?p (\<lambda>u. u + 0x4000)"
  have q: "heap ?q = heap ?p" "zone_of ?q Sub1mib = sub1mib_init" "zone_of ?q Sub4gib = sub4gib_init" "zone_of ?q Normal = normal_init"
    "hhdm (heap ?p) = 0xffff800000000000"
    by (simp_all add: set_usable_def pmm_empty_def)
  have "check_and_add 0x100000000 0x4000 Sub1mib (?q, 0) = Inr (?q, 0)"
    by (simp add: check_and_add_def q alloc_range_intersection_def range_intersection_def range_overlaps_def sub1mib_init_def mib_def kib_def Let_def del: zone_of.simps)
  moreover have "check_and_add 0x100000000 0x4000 Sub4gib (?q, 0) = Inr (?q, 0)"
    by (simp add: check_and_add_def q alloc_range_intersection_def range_intersection_def range_overlaps_def sub4gib_init_def gib_def mib_def kib_def Let_def del: zone_of.simps)
  moreover have "alloc_range_intersection normal_init 0x100000000 0x100004000 = (0x100000000, 0x100004000)"
    by (simp add: alloc_range_intersection_def range_intersection_def range_overlaps_def normal_init_def gib_def mib_def kib_def)
  then have "check_and_add 0x100000000 0x4000 Normal (?q, 0) = Inr (set_zone (?q\<lparr>heap := h\<rparr>) Normal a, 0)"
    using l(1) by (simp add: check_and_add_def q alloc_add_range_def tohh_def ishh_def bug_on_def Let_def normal_init_def gib_def mib_def kib_def del: zone_of.simps)
  ultimately have "add_to_zones ?q 0x100000000 0x4000 = Inr (set_zone (?q\<lparr>heap := h\<rparr>) Normal a, 0)"
    by (simp add: add_to_zones_def)
  then have "p' = set_used (set_zone (?q\<lparr>heap := h\<rparr>) Normal a) (\<lambda>u. u + 0)" using assms by (simp add: add_range_def)
  then show ?thesis using l(2) by (simp add: set_used_def)
qed

text \<open>A boot with four pages at 4 GiB.\<close>

lemma ready_range:
  assumes "unat len \<le> 2 ^ 32" "(4096 :: nat) dvd unat len" "0 < unat len"
  shows "\<exists>p FL. add_range ((pmm_empty 0xffff800000000000 [])\<lparr>initialised := True\<rparr>) 0x100000000 len False = Inr p \<and>
     ready p FL \<and> free_region FL = {0xffff800100000000 ..< 0xffff800100000000 + unat len} \<and> hhdm (heap p) = 0xffff800000000000"
proof -
  let ?p = "(pmm_empty 0xffff800000000000 [])\<lparr>initialised := True\<rparr>"
  have zo: "zone_of ?p z = zone_of (pmm_empty 0xffff800000000000 []) z" for z by (cases z) simp_all
  have hp: "heap ?p = heap (pmm_empty 0xffff800000000000 [])" by simp
  have d: "(4096::nat) dvd 18446603336221196288"
    using dvd_triv_left [of "4096::nat" "4503565267631152"] by simp
  have "hhdm_ok \<lparr>hhdm = 0xffff800000000000, nodes = n, pfndb = f\<rparr>" for n f using d by (simp add: hhdm_ok_def)
  then have "pmm_inv (pmm_empty 0xffff800000000000 []) (\<lambda>_ _. []) (\<lambda>_. {})" by (rule pmm_empty_inv)
  then have inv: "pmm_inv ?p (\<lambda>_ _. []) (\<lambda>_. {})" unfolding pmm_inv_def zones_ok_iff zo hp .
  have fr: "free_region (\<lambda>_ _. []) = {}" "used_region (\<lambda>_. {}) = {}"
    by (simp_all add: free_region_def used_region_def region_def free_blocks_def)
  have d2: "(4096::nat) dvd 0x100000000" using dvd_triv_left [of "4096::nat" 1048576] by simp
  have fr2: "fresh_pages (heap ?p) {unat (hhdm (heap ?p)) + unat (0x100000000 :: u64) ..< unat (hhdm (heap ?p)) + unat (0x100000000 :: u64) + unat len}"
    using fresh_pmm_empty by simp
  obtain p' FL' where ar: "add_range ?p 0x100000000 len False = Inr p'" and r: "pmm_inv p' FL' (\<lambda>_. {})" "initialised p' = initialised ?p" "bootstrap_memmap_idx p' = bootstrap_memmap_idx ?p"
     "free_region FL' = {} \<union> {unat (hhdm (heap ?p)) + unat (0x100000000 :: u64) ..< unat (hhdm (heap ?p)) + unat (0x100000000 :: u64) + unat len}"
     "hhdm (heap p') = hhdm (heap ?p)"
    using add_range_ok [OF inv _ assms(2) _ _ assms(3) _ fr2, of False] d2 assms(1) unfolding fr by auto
  then show ?thesis by (intro exI [of _ p'] exI [of _ FL']) (simp add: ready_def pmm_empty_def)
qed

lemma sample_ready:
  "\<exists>p FL. ready p FL \<and> free_region FL = {0xffff800100000000 ..< 0xffff800100004000} \<and> hhdm (heap p) = 0xffff800000000000 \<and>
     FL Normal 2 \<noteq> []"
proof -
  have "(4096::nat) dvd unat (0x4000 :: u64)" using dvd_triv_left [of "4096::nat" 4] by simp
  then obtain p FL where
    r: "add_range ((pmm_empty 0xffff800000000000 [])\<lparr>initialised := True\<rparr>) 0x100000000 0x4000 False = Inr p" "ready p FL"
      "free_region FL = {0xffff800100000000 ..< 0xffff800100004000}" "hhdm (heap p) = 0xffff800000000000"
    using ready_range [of "0x4000"] by auto
  have "lists (zone_of p Normal) 2 \<noteq> 0" using sample_lists [OF r(1)] by simp
  moreover have "lists_ok (heap p) (zone_of p Normal) (FL Normal)" using r(2) unfolding ready_def pmm_inv_def buddy_inv_def by blast
  ultimately have "FL Normal 2 \<noteq> []" using has_pages_lists by (metis has_pages_def)
  then show ?thesis using r by blast
qed

section \<open>The interface clients rely on\<close>

text \<open>
  A source of physical pages as the page map and the object manager use it: \<open>inv s live\<close> ties
  a state to the pointers handed out. An allocation gives a block apart from every live one;
  a live block can always be returned.
\<close>

definition apart :: "u64 \<Rightarrow> u64 \<Rightarrow> u64 \<Rightarrow> u64 \<Rightarrow> bool" where
  "apart x n y m \<longleftrightarrow> {unat x ..< unat x + unat n * 4096} \<inter> {unat y ..< unat y + unat m * 4096} = {}"

locale page_source =
  fixes get :: "'s \<Rightarrow> u64 \<Rightarrow> ('s \<times> u64) option"
    and give :: "'s \<Rightarrow> u64 \<Rightarrow> u64 \<Rightarrow> 's option"
    and inv :: "'s \<Rightarrow> (u64 \<rightharpoonup> u64) \<Rightarrow> bool"
  assumes get_inv: "inv s live \<Longrightarrow> 0 < unat n \<Longrightarrow> unat n < 2 ^ 52 \<Longrightarrow> get s n = Some (s', x) \<Longrightarrow> inv s' (live(x \<mapsto> n))"
    and get_fresh: "inv s live \<Longrightarrow> 0 < unat n \<Longrightarrow> unat n < 2 ^ 52 \<Longrightarrow> get s n = Some (s', x) \<Longrightarrow> live y = Some m \<Longrightarrow> apart x n y m"
    and give_inv: "inv s live \<Longrightarrow> live x = Some n \<Longrightarrow> \<exists>s'. give s x n = Some s' \<and> inv s' (live(x := None))"
    and live_pos: "inv s live \<Longrightarrow> live x = Some n \<Longrightarrow> 0 < unat n"
begin

lemma get_new: "inv s live \<Longrightarrow> 0 < unat n \<Longrightarrow> unat n < 2 ^ 52 \<Longrightarrow> get s n = Some (s', x) \<Longrightarrow> live x = None"
proof (rule ccontr)
  assume a: "inv s live" "0 < unat n" "unat n < 2 ^ 52" "get s n = Some (s', x)" "live x \<noteq> None"
  then obtain m where m: "live x = Some m" by auto
  then have "apart x n x m" "0 < unat m" using a get_fresh live_pos by blast+
  then show False using a(2) by (auto simp: apart_def)
qed

text \<open>Collecting single pages one after the other, as the page map does for its tables.\<close>

primrec get_pages :: "nat \<Rightarrow> 's \<Rightarrow> ('s \<times> u64 list) option" where
  "get_pages 0 s = Some (s, [])"
| "get_pages (Suc i) s =
     (case get s 1 of None \<Rightarrow> None
      | Some (s, x) \<Rightarrow> (case get_pages i s of None \<Rightarrow> None | Some (s, xs) \<Rightarrow> Some (s, x # xs)))"

primrec give_pages :: "u64 list \<Rightarrow> 's \<Rightarrow> 's option" where
  "give_pages [] s = Some s"
| "give_pages (x # xs) s = (case give s x 1 of None \<Rightarrow> None | Some s \<Rightarrow> give_pages xs s)"

definition hold :: "u64 list \<Rightarrow> (u64 \<rightharpoonup> u64) \<Rightarrow> (u64 \<rightharpoonup> u64)" where
  "hold xs live = (\<lambda>x. if x \<in> set xs then Some 1 else live x)"

lemma get_pages_distinct:
  "inv s live \<Longrightarrow> get_pages i s = Some (s', xs) \<Longrightarrow>
   inv s' (hold xs live) \<and> distinct xs \<and> (\<forall>x\<in>set xs. live x = None) \<and> length xs = i"
proof (induction i arbitrary: s live xs)
  case 0
  then show ?case by (simp add: hold_def)
next
  case (Suc i)
  then obtain s1 x ys where g: "get s 1 = Some (s1, x)" "get_pages i s1 = Some (s', ys)" "xs = x # ys"
    by (auto split: option.splits)
  have x: "live x = None" "inv s1 (live(x \<mapsto> 1))"
    using get_new [OF Suc.prems(1) _ _ g(1)] get_inv [OF Suc.prems(1) _ _ g(1)] by simp_all
  have I: "inv s' (hold ys (live(x \<mapsto> 1)))" "distinct ys" "\<forall>y\<in>set ys. (live(x \<mapsto> 1)) y = None" "length ys = i"
    using Suc.IH [OF x(2) g(2)] by blast+
  have "hold ys (live(x \<mapsto> 1)) = hold xs live" by (auto simp: hold_def g(3))
  moreover have "x \<notin> set ys" using I(3) by auto
  ultimately show ?case using I x g(3) by (auto split: if_splits)
qed

lemma give_pages_total:
  "inv s (hold xs live) \<Longrightarrow> distinct xs \<Longrightarrow> \<forall>x\<in>set xs. live x = None \<Longrightarrow> \<exists>s'. give_pages xs s = Some s' \<and> inv s' live"
proof (induction xs arbitrary: s)
  case Nil
  then show ?case by (simp add: hold_def)
next
  case (Cons x xs)
  have "hold (x # xs) live x = Some 1" by (simp add: hold_def)
  then obtain s1 where s1: "give s x 1 = Some s1" "inv s1 ((hold (x # xs) live)(x := None))"
    using give_inv [OF Cons.prems(1)] by blast
  have "(hold (x # xs) live)(x := None) = hold xs live" using Cons.prems(2,3) by (auto simp: hold_def)
  then show ?case using Cons.IH [of s1] s1 Cons.prems by simp
qed

text \<open>Taking pages and returning all of them, in any order, gives the first state's contract back.\<close>

lemma get_give_pages:
  assumes "inv s live" "get_pages i s = Some (s', xs)" "distinct ys" "set ys = set xs"
  shows "\<exists>s''. give_pages ys s' = Some s'' \<and> inv s'' live"
proof (rule give_pages_total)
  note G = get_pages_distinct [OF assms(1,2)]
  show "inv s' (hold ys live)" using G by (simp add: hold_def assms(4))
  show "distinct ys" by (rule assms(3))
  show "\<forall>x\<in>set ys. live x = None" using G assms(4) by simp
qed

end

text \<open>The memory manager is such a source, for every zone and with or without clearing.\<close>

definition pmm_get :: "bool \<Rightarrow> zone \<Rightarrow> pmm \<Rightarrow> u64 \<Rightarrow> (pmm \<times> u64) option" where
  "pmm_get clear tp p n = (case alloc p n clear tp of Some (Inr r) \<Rightarrow> Some r | _ \<Rightarrow> None)"

definition pmm_give :: "pmm \<Rightarrow> u64 \<Rightarrow> u64 \<Rightarrow> pmm option" where
  "pmm_give p x n = (case free p x n of Inr p' \<Rightarrow> Some p' | Inl _ \<Rightarrow> None)"

definition pmm_live :: "pmm \<Rightarrow> (u64 \<rightharpoonup> u64) \<Rightarrow> bool" where
  "pmm_live p live \<longleftrightarrow> (\<exists>FL AL. live_ok p live FL AL)"

lemma pmm_get_live:
  assumes "pmm_live p live" "0 < unat n" "unat n < 2 ^ 52" "pmm_get clear tp p n = Some (p', x)"
  shows "pmm_live p' (live(x \<mapsto> n))" "live x = None"
proof -
  obtain FL AL where L: "live_ok p live FL AL" using assms(1) by (auto simp: pmm_live_def)
  have al: "alloc p n clear tp = Some (Inr (p', x))" using assms(4) by (auto simp: pmm_get_def split: option.splits sum.splits)
  from live_ok_alloc [OF L assms(2,3) al] obtain FL' AL' v k z where
    r: "live_ok p' (live(x \<mapsto> n)) FL' AL'" "x = fromhh (hhdm (heap p)) v" "brange (v, k) \<subseteq> free_region FL" "(v, k) \<in> AL' z"
      "pmm_inv p' FL' AL'" "hhdm (heap p') = hhdm (heap p)" by blast
  then show "pmm_live p' (live(x \<mapsto> n))" by (auto simp: pmm_live_def)
  have "hpage (heap p) v" using AL_page(2) [OF r(5,4)] hpage_cong [OF r(6)] by simp
  then show "live x = None" using live_ok_new [OF L r(3,2)] by simp
qed

interpretation pages: page_source "pmm_get clear tp" pmm_give pmm_live for clear tp
proof
  fix s live n s' x
  assume a: "pmm_live s live" "0 < unat n" "unat n < 2 ^ 52" "pmm_get clear tp s n = Some (s', x)"
  note G = pmm_get_live [OF a]
  show "pmm_live s' (live(x \<mapsto> n))" by (rule G)
  fix y m assume y: "live y = Some m"
  then have ne: "x \<noteq> y" using G(2) by auto
  obtain FL AL where L: "live_ok s' (live(x \<mapsto> n)) FL AL" using G(1) by (auto simp: pmm_live_def)
  show "apart x n y m" unfolding apart_def by (rule live_ok_apart [OF L _ _ ne]) (use y ne in auto)
next
  fix s live x n assume "pmm_live s live" "live x = Some n"
  then show "\<exists>s'. pmm_give s x n = Some s' \<and> pmm_live s' (live(x := None))"
    using live_ok_free by (fastforce simp: pmm_live_def pmm_give_def)
next
  fix s live x n assume a: "pmm_live s live" "live x = Some n"
  then obtain FL AL where "live_ok s live FL AL" by (auto simp: pmm_live_def)
  from live_okD [OF this a(2)] obtain k where "2 ^ k < 2 * unat n" by metis
  then show "0 < unat n" by (cases "unat n") auto
qed

section \<open>The bootstrap allocator\<close>

definition usable_lengths :: "memmap_entry list \<Rightarrow> u64 set" where
  "usable_lengths ms = {mm_length m |m. m \<in> set ms \<and> mm_type m = MM_usable}"

lemma largest_usable_inv:
  assumes "pre @ ms = all" "length all < 2 ^ 63" "largest_usable ms (of_nat (length pre)) mx idx = (mx', idx')"
    "\<forall>l\<in>usable_lengths pre. l \<le> mx"
    "mx = 0 \<and> idx = - 1 \<or> unat idx < length pre \<and> mm_type (all ! unat idx) = MM_usable \<and> mm_length (all ! unat idx) = mx \<and> 0 < mx"
  shows "(\<forall>l\<in>usable_lengths all. l \<le> mx') \<and>
    (mx' = 0 \<and> idx' = - 1 \<or>
     unat idx' < length all \<and> mm_type (all ! unat idx') = MM_usable \<and> mm_length (all ! unat idx') = mx' \<and> 0 < mx')"
  using assms
proof (induction ms arbitrary: pre mx idx)
  case Nil
  then show ?case by auto
next
  case (Cons m ms)
  have pre: "(pre @ [m]) @ ms = all" using Cons.prems(1) by simp
  have m: "all ! length pre = m" using Cons.prems(1) by (metis nth_append_length)
  have len: "length pre < 2 ^ 63" using Cons.prems(1,2) by (metis length_append le_add1 le_less_trans)
  then have ui: "unat (of_nat (length pre) :: u64) = length pre" by (intro unat_of_nat_small) simp
  have nx: "of_nat (length pre) + 1 = (of_nat (length (pre @ [m])) :: u64)" by simp
  have ul: "usable_lengths (pre @ [m]) = usable_lengths pre \<union> (if mm_type m = MM_usable then {mm_length m} else {})"
    by (auto simp: usable_lengths_def)
  have keep: "unat idx < length (pre @ [m])" if "unat idx < length pre" using that by simp
  show ?case
  proof (cases "mm_type m = MM_usable \<and> mm_length m > mx")
    case True
    then have r: "largest_usable ms (of_nat (length (pre @ [m]))) (mm_length m) (of_nat (length pre)) = (mx', idx')"
      using Cons.prems(3) nx by simp
    have "\<forall>l\<in>usable_lengths (pre @ [m]). l \<le> mm_length m" using Cons.prems(4) True by (auto simp: ul)
    moreover have "0 < mm_length m" using True by (metis word_neq_0_conv word_not_simps(1))
    ultimately show ?thesis
      using Cons.IH [OF pre Cons.prems(2) r] True m ui by simp
  next
    case False
    then have r: "largest_usable ms (of_nat (length (pre @ [m]))) mx idx = (mx', idx')"
      using Cons.prems(3) by (auto simp: add.commute split: if_splits)
    have "\<forall>l\<in>usable_lengths (pre @ [m]). l \<le> mx" using Cons.prems(4) False by (auto simp: ul)
    then show ?thesis using Cons.IH [OF pre Cons.prems(2) r] Cons.prems(5) keep by auto
  qed
qed

lemma largest_usable_max:
  assumes "length ms < 2 ^ 63" "largest_usable ms 0 0 (- 1) = (mx, idx)"
  shows "(\<forall>l\<in>usable_lengths ms. l \<le> mx) \<and> (mx = 0 \<and> idx = - 1 \<or>
     unat idx < length ms \<and> mm_type (ms ! unat idx) = MM_usable \<and> mm_length (ms ! unat idx) = mx \<and> 0 < mx)"
  by (rule largest_usable_inv [of "[]" ms]) (use assms in \<open>auto simp: usable_lengths_def\<close>)

lemma bootstrap_setup_ok:
  assumes "\<not> bootstrap_once p" "length (memmaps p) < 2 ^ 63" "\<exists>m\<in>set (memmaps p). mm_type m = MM_usable \<and> mm_length m \<noteq> 0"
  shows "\<exists>p' m. bootstrap_setup p = Inr p' \<and> bootstrap_once p' \<and> m \<in> set (memmaps p) \<and> mm_type m = MM_usable \<and>
    (\<forall>l\<in>usable_lengths (memmaps p). l \<le> mm_length m) \<and>
    bootstrap_memmap p' = m\<lparr>mm_length := align_down (mm_length m) page_size\<rparr> \<and> heap p' = heap p \<and> memmaps p' = memmaps p"
proof -
  obtain mx idx where e: "largest_usable (memmaps p) 0 0 (- 1) = (mx, idx)" by fastforce
  obtain l where "l \<in> usable_lengths (memmaps p)" "l \<noteq> 0" using assms(3) by (auto simp: usable_lengths_def)
  then have "mx \<noteq> 0" using largest_usable_max [OF assms(2) e] by (auto simp: word_le_0_iff)
  then have m: "unat idx < length (memmaps p)" "mm_type (memmaps p ! unat idx) = MM_usable" "mm_length (memmaps p ! unat idx) = mx"
    "\<forall>l\<in>usable_lengths (memmaps p). l \<le> mx" using largest_usable_max [OF assms(2) e] by auto
  have "idx \<noteq> - 1"
  proof
    assume "idx = - 1"
    then have "unat idx = 2 ^ 64 - 1" using unat_uminus_u64 [of 1] by simp
    then show False using m(1) assms(2) by simp
  qed
  then show ?thesis using assms(1) e \<open>mx \<noteq> 0\<close> m nth_mem [OF m(1)]
    by (auto simp: bootstrap_setup_def bug_on_def Let_def intro!: exI [of _ "memmaps p ! unat idx"])
qed

text \<open>Each bootstrap page is cut off the top of what is left.\<close>

lemma bootstrap_alloc_ok:
  assumes once: "bootstrap_once p" and m: "bootstrap_memmap p = m"
    and len: "4096 \<le> unat (mm_length m)" "unat (mm_base m) + unat (mm_length m) < 2 ^ 64"
      "2 ^ 20 \<le> unat (mm_base m) + unat (mm_length m) - 4096"
  shows "\<exists>p' x. bootstrap_alloc p 1 = Inr (p', x) \<and> bootstrap_once p' \<and> heap p' = heap p \<and>
    x = tohh (hhdm (heap p)) (mm_base m + mm_length m - 4096) \<and>
    unat (mm_base m + mm_length m - 4096) = unat (mm_base m) + unat (mm_length m) - 4096 \<and>
    bootstrap_memmap p' = m\<lparr>mm_length := mm_length m - 4096\<rparr> \<and> unat (mm_length m - 4096) = unat (mm_length m) - 4096"
proof -
  have l: "unat (mm_length m - 4096) = unat (mm_length m) - 4096"
    using len(1) by (subst unat_sub_no_wrap) (simp_all add: word_le_nat_alt)
  have s: "unat (mm_base m + mm_length m) = unat (mm_base m) + unat (mm_length m)" using len(2) by (intro unat_add_no_wrap) simp
  have r: "unat (mm_base m + mm_length m - 4096) = unat (mm_base m) + unat (mm_length m) - 4096"
    using len(1) s by (subst unat_sub_no_wrap) (simp_all add: word_le_nat_alt)
  have "\<not> mm_base m + mm_length m - 4096 < mib 1"
    using r len(3) by (simp add: word_less_nat_alt mib_def kib_def)
  moreover have "\<not> mm_length m < 4096" using len(1) by (simp add: word_less_nat_alt)
  ultimately show ?thesis
    using once m l r by (simp add: bootstrap_alloc_def bootstrap_setup_def bug_on_def Let_def)
qed

section \<open>Witness states\<close>

text \<open>Two pages taken after boot: both live, at different addresses.\<close>

lemma sample_run:
  "\<exists>p0 FL0 p live x y. ready p0 FL0 \<and> pmm_run p0 p live \<and> live x = Some 1 \<and> live y = Some 1 \<and> x \<noteq> y"
proof -
  obtain p0 FL0 where p0: "ready p0 FL0" "free_region FL0 = {0xffff800100000000 ..< 0xffff800100004000}" "hhdm (heap p0) = 0xffff800000000000"
    using sample_ready by blast
  have i0: "pmm_inv p0 FL0 (\<lambda>_. {})" "initialised p0" "bootstrap_memmap_idx p0 = - 1" using p0(1) by (auto simp: ready_def)
  have g: "unat (gib 4) = 4294967296" by (simp add: gib_def mib_def kib_def)
  have "0xffff800100000000 \<in> free_region FL0" unfolding p0(2) by simp
  then obtain p1 x FL1 AL1 where r1: "alloc p0 1 False Normal = Some (Inr (p1, fromhh (hhdm (heap p0)) x))" "pmm_inv p1 FL1 AL1"
      "brange (x, 0) \<subseteq> free_region FL0" "free_region FL1 = free_region FL0 - brange (x, 0)"
      "initialised p1" "bootstrap_memmap_idx p1 = - 1" "hhdm (heap p1) = hhdm (heap p0)" "\<exists>z. (x, 0) \<in> AL1 z"
    using alloc_page_succeeds [OF i0, where v = "0xffff800100000000" and clear = False] p0(3) g by (auto intro: that)
  have bx: "brange (x, 0) = {unat x ..< unat x + 4096}" by (simp add: brange_def bsize_def)
  have "\<exists>v\<in>free_region FL0. v \<notin> brange (x, 0) \<and> 0xffff800100000000 \<le> v"
  proof (cases "0xffff800100000000 \<in> brange (x, 0)")
    case True
    then have "0xffff800100001000 \<notin> brange (x, 0)"
      using r1(3) unfolding bx p0(2) by auto
    then show ?thesis unfolding p0(2) by (intro bexI [of _ "0xffff800100001000"]) auto
  qed (use p0(2) in auto)
  then obtain v where v: "v \<in> free_region FL1" "0xffff800100000000 \<le> v" using r1(4) by auto
  have c: "unat (hhdm (heap p1)) + unat (gib 4) \<le> v" using v(2) p0(3) r1(7) g by simp
  from alloc_page_succeeds [OF r1(2,5,6) v(1) c, where clear = False]
  obtain p2 y FL2 AL2 z2 where r2: "alloc p1 1 False Normal = Some (Inr (p2, fromhh (hhdm (heap p1)) y))" "pmm_inv p2 FL2 AL2"
      "brange (y, 0) \<subseteq> free_region FL1" "hhdm (heap p2) = hhdm (heap p1)" "AL2 = AL1(z2 := insert (y, 0) (AL1 z2))" by blast
  have yin: "(y, 0) \<in> AL2 z2" using r2(5) by simp
  let ?x = "fromhh (hhdm (heap p0)) x" and ?y = "fromhh (hhdm (heap p0)) y"
  have "y \<noteq> x" using r2(3) r1(4) brange_fst [of y 0] by blast
  have hx: "hhdm_ok (heap p0)" "hpage (heap p0) x" using AL_page [OF r1(2)] r1(8) by (auto simp: heap_congs [OF r1(7)])
  have hy: "hpage (heap p0) y" using AL_page(2) [OF r2(2) yin] r1(7) r2(4) by (simp add: hpage_def)
  have ne: "?x \<noteq> ?y" using tohh_fromhh_page [OF hx] tohh_fromhh_page [OF hx(1) hy] \<open>y \<noteq> x\<close> by metis
  have run1: "pmm_run p0 p1 ([?x \<mapsto> 1])" by (rule run_alloc [OF start _ _ r1(1)]) simp_all
  have "pmm_run p0 p2 ([?x \<mapsto> 1, ?y \<mapsto> 1])" by (rule run_alloc [OF run1 _ _ r2(1) [unfolded r1(7)]]) simp_all
  then show ?thesis using p0(1) ne by (intro exI [of _ p0] exI [of _ FL0] exI [of _ p2] exI [of _ "[?x \<mapsto> 1, ?y \<mapsto> 1]"] exI [of _ ?x] exI [of _ ?y]) auto
qed

lemma sample_buddy: "\<exists>h a fl. buddy_inv h a fl {}"
  using sample_ready by (auto simp: ready_def pmm_inv_def)

lemma sample_taken: "\<exists>h a fl A x. buddy_inv h a fl A \<and> (x, 0) \<in> A"
proof -
  obtain p0 FL0 p live x y where "ready p0 FL0" "pmm_run p0 p live" "live x = Some 1" using sample_run by blast
  then obtain FL AL where L: "live_ok p live FL AL" "live x = Some 1" using run_inv by blast
  obtain z v k where v: "(v, k) \<in> AL z" "2 ^ k < 2 * unat (1 :: u64)" using live_okD [OF L] by metis
  have "k = 0" using v(2) by (cases k) auto
  moreover have "buddy_inv (heap p) (zone_of p z) (FL z) (AL z)" using L(1) by (simp add: live_ok_def pmm_inv_def)
  ultimately show ?thesis using v(1) by blast
qed

section \<open>Properties\<close>

text \<open>
  Property C1. One buddy allocator, any free-list state, any page count below \<open>2^52\<close>:
  \<open>alloc\<close> always returns (splitting and coalescing end and no assertion fails) and keeps the
  invariant. Either it returns a null pointer, and then no free block was large enough and
  no byte changed hands; or it returns a block of the smallest sufficient power-of-two
  size, cut out of memory that was free and is afterwards free no more.
\<close>

theorem buddy_alloc_correct:
  assumes "buddy_inv h a fl A" "unat n < 2 ^ 52"
  shows "\<exists>h' a' p s fl' A'. alloc_alloc h a n = Some (Inr (h', a', p, s)) \<and> buddy_inv h' a' fl' A' \<and>
     (if p = 0
      then s = 0 \<and> A' = A \<and> region (free_blocks fl') = region (free_blocks fl) \<and>
        (n = 0 \<or> (\<forall>j\<le>max_order. unat n \<le> 2 ^ j \<longrightarrow> fl j = []))
      else \<exists>k\<le>max_order. A' = insert (p, k) A \<and> (p, k) \<notin> A \<and> s = block_bytes k \<and>
        unat n \<le> 2 ^ k \<and> 2 ^ k < 2 * unat n \<and> brange (p, k) \<subseteq> region (free_blocks fl) \<and>
        region (free_blocks fl') = region (free_blocks fl) - brange (p, k))"
proof -
  obtain h' a' p s fl' A' where r: "alloc_alloc h a n = Some (Inr (h', a', p, s))" "alloc_result h a fl A n h' a' p s fl' A'"
     "0 < unat n \<and> (\<exists>j\<le>max_order. unat n \<le> 2 ^ j \<and> fl j \<noteq> []) \<longrightarrow> p \<noteq> 0"
    using alloc_alloc_ok [OF assms] by blast
  show ?thesis
  proof (cases "p = 0")
    case True
    then have "n = 0 \<or> (\<forall>j\<le>max_order. unat n \<le> 2 ^ j \<longrightarrow> fl j = [])" using r(3) by (auto simp: unat_gt_0)
    then show ?thesis using r(1,2) True unfolding alloc_result_def by auto
  next
    case False
    then show ?thesis using r(1,2) unfolding alloc_result_def by auto
  qed
qed

theorem buddy_alloc_correct_witness:
  "\<exists>h a fl. buddy_inv h a fl {} \<and> (\<exists>r. alloc_alloc h a 3 = Some (Inr r))"
proof -
  obtain h a fl where i: "buddy_inv h a fl {}" using sample_buddy by blast
  have "unat (3 :: u64) < 2 ^ 52" by simp
  from buddy_alloc_correct [OF i this] i show ?thesis by blast
qed

text \<open>
  Returning an allocated block with the page count it was requested with never
  trips an assertion; the block, whole, is the only memory that becomes free, and the size
  reported is the requested one.
\<close>

theorem buddy_free_correct:
  assumes "buddy_inv h a fl A" "(x, k) \<in> A" "unat n \<le> 2 ^ k" "2 ^ k < 2 * unat n"
  shows "\<exists>h' a' fl'. alloc_free h a x n = Inr (h', a', n * page_size) \<and> buddy_inv h' a' fl' (A - {(x, k)}) \<and>
    region (free_blocks fl') = region (free_blocks fl) \<union> brange (x, k)"
proof -
  obtain h' a' fl' where "alloc_free h a x n = Inr (h', a', n * page_size)" "buddy_inv h' a' fl' (A - {(x, k)})"
    "free_blocks fl' = insert (x, k) (free_blocks fl)" using alloc_free_ok [OF assms] by blast
  then show ?thesis by (intro exI conjI) (assumption | simp add: Un_commute)+
qed

theorem buddy_free_correct_witness:
  "\<exists>h a fl A x. buddy_inv h a fl A \<and> (x, 0) \<in> A \<and> (\<exists>h' a'. alloc_free h a x 1 = Inr (h', a', page_size))"
proof -
  obtain h a fl A x where s: "buddy_inv h a fl A" "(x, 0) \<in> A" using sample_taken by blast
  from buddy_free_correct [OF s, of 1] s show ?thesis by simp blast
qed

text \<open>
  Property C5. \<open>coalesce_to\<close> ends from every state, whatever the order of the free lists:
  merging never fails an assertion, never touches an allocated block and leaves exactly the
  same bytes free.
\<close>

theorem coalesce_total:
  assumes "buddy_inv h a fl A"
  shows "\<exists>h' a' fl'. coalesce_to h a target = Some (Inr (h', a')) \<and> buddy_inv h' a' fl' A \<and>
    region (free_blocks fl') = region (free_blocks fl)"
  using coalesce_to_ok [OF assms, of target] unfolding rearranged_def by blast

theorem coalesce_total_witness:
  "\<exists>h a fl. buddy_inv h a fl {} \<and> (\<exists>h' a'. coalesce_to h a 15 = Some (Inr (h', a')))"
proof -
  obtain h a fl where i: "buddy_inv h a fl {}" using sample_buddy by blast
  from coalesce_total [OF i, of 15] i show ?thesis by blast
qed

text \<open>
  Property C2. After any sequence of successful \<open>alloc\<close> and \<open>free\<close> calls, with any sizes and
  from any zones, two pointers that are both still allocated denote disjoint physical
  ranges.
\<close>

theorem live_blocks_disjoint:
  assumes "pmm_run p0 p live" "ready p0 FL0" "live x = Some n" "live y = Some m" "x \<noteq> y"
  shows "{unat x ..< unat x + unat n * 4096} \<inter> {unat y ..< unat y + unat m * 4096} = {}"
proof -
  obtain FL AL where L: "live_ok p live FL AL" using run_inv [OF assms(1,2)] by blast
  show ?thesis by (rule live_ok_apart [OF L assms(3-5)])
qed

theorem live_blocks_disjoint_witness:
  "\<exists>p0 FL0 p live x y. ready p0 FL0 \<and> pmm_run p0 p live \<and> live x = Some 1 \<and> live y = Some 1 \<and>
     {unat x ..< unat x + 4096} \<inter> {unat y ..< unat y + 4096} = {}"
proof -
  obtain p0 FL0 p live x y where s: "ready p0 FL0" "pmm_run p0 p live" "live x = Some 1" "live y = Some 1" "x \<noteq> y"
    using sample_run by blast
  from live_blocks_disjoint [OF s(2,1,3,4,5)] s show ?thesis by (intro exI conjI) (assumption | simp)+
qed

text \<open>
  Property C3. In every such state \<open>free\<close> of a live pointer with its page count succeeds: it
  finds the zone the block came from and passes both assertions of the allocator.
\<close>

theorem free_of_live_succeeds:
  assumes "pmm_run p0 p live" "ready p0 FL0" "live x = Some n"
  shows "\<exists>p'. free p x n = Inr p' \<and> pmm_run p0 p' (live(x := None))"
proof -
  obtain FL AL where L: "live_ok p live FL AL" using run_inv [OF assms(1,2)] by blast
  obtain p' where "free p x n = Inr p'" using live_ok_free [OF L assms(3)] by blast
  then show ?thesis using run_free [OF assms(1,3)] by blast
qed

theorem free_of_live_succeeds_witness:
  "\<exists>p0 FL0 p live x p'. ready p0 FL0 \<and> pmm_run p0 p live \<and> live x = Some 1 \<and> free p x 1 = Inr p'"
proof -
  obtain p0 FL0 p live x y where s: "ready p0 FL0" "pmm_run p0 p live" "live x = Some 1"
    using sample_run by blast
  from free_of_live_succeeds [OF s(2,1,3)] s show ?thesis by blast
qed

text \<open>
  Property C4. In every reachable state the free blocks and the blocks marked as allocated partition
  the memory that was free at the start, and every live allocation is one of the blocks marked as allocated.
\<close>

theorem memory_conserved:
  assumes "pmm_run p0 p live" "ready p0 FL0"
  shows "\<exists>FL AL. pmm_inv p FL AL \<and> free_region FL \<union> used_region AL = free_region FL0 \<and> free_region FL \<inter> used_region AL = {} \<and>
    (\<forall>x n. live x = Some n \<longrightarrow> (\<exists>z k. (tohh (hhdm (heap p)) x, k) \<in> AL z \<and> unat n \<le> 2 ^ k))"
proof -
  obtain FL AL where L: "live_ok p live FL AL" "free_region FL \<union> used_region AL = free_region FL0"
    using run_inv [OF assms] by blast
  have inv: "pmm_inv p FL AL" using L(1) by (simp add: live_ok_def)
  have "\<exists>z k. (tohh (hhdm (heap p)) x, k) \<in> AL z \<and> unat n \<le> 2 ^ k" if lx: "live x = Some n" for x n
  proof -
    obtain z v k where v: "(v, k) \<in> AL z" "x = fromhh (hhdm (heap p)) v" "unat n \<le> 2 ^ k" using live_okD [OF L(1) lx] .
    then show ?thesis using tohh_fromhh_page [OF AL_page(1,2) [OF inv v(1)]] by auto
  qed
  then show ?thesis using inv L(2) free_used_disjoint [OF inv] by blast
qed

theorem memory_conserved_witness:
  "\<exists>p0 FL0 p live FL AL. ready p0 FL0 \<and> pmm_run p0 p live \<and> free_region FL \<union> used_region AL = free_region FL0"
proof -
  obtain p0 FL0 p live x y where s: "ready p0 FL0" "pmm_run p0 p live" using sample_run by blast
  from memory_conserved [OF s(2,1)] s show ?thesis by blast
qed

text \<open>
  \<open>add_range\<close> on page-aligned, so far unmanaged memory hands exactly that memory
  to the zones it lies in, across zone borders, without waste; \<open>usable\<close> grows (or, when
  memory is given back, \<open>used\<close> shrinks) by exactly its size.
\<close>

theorem add_range_exact:
  assumes "pmm_inv p FL AL" "4096 dvd unat base" "4096 dvd unat sz" "unat base + unat sz \<le> 2 ^ 46" "4096 \<le> unat base" "0 < unat sz"
    and "{unat (hhdm (heap p)) + unat base ..< unat (hhdm (heap p)) + unat base + unat sz} \<inter> (free_region FL \<union> used_region AL) = {}"
    and "fresh_pages (heap p) {unat (hhdm (heap p)) + unat base ..< unat (hhdm (heap p)) + unat base + unat sz}"
  shows "\<exists>p' FL'. add_range p base sz freeing = Inr p' \<and> pmm_inv p' FL' AL \<and>
     free_region FL' = free_region FL \<union> {unat (hhdm (heap p)) + unat base ..< unat (hhdm (heap p)) + unat base + unat sz} \<and>
     mem p' = (if freeing then (mem p)\<lparr>used := used (mem p) - sz\<rparr> else (mem p)\<lparr>usable := usable (mem p) + sz\<rparr>)"
  using add_range_ok [OF assms, of freeing] by blast

theorem add_range_exact_witness:
  "\<exists>p p'. pmm_inv p (\<lambda>_ _. []) (\<lambda>_. {}) \<and> add_range p 0x1000 0x1000 False = Inr p'"
proof -
  let ?p = "pmm_empty 0xffff800000000000 []"
  have "hhdm_ok \<lparr>hhdm = 0xffff800000000000, nodes = n, pfndb = f\<rparr>" for n f
    using dvd_triv_left [of "4096::nat" "4503565267631152"] by (simp add: hhdm_ok_def)
  then have inv: "pmm_inv ?p (\<lambda>_ _. []) (\<lambda>_. {})" by (rule pmm_empty_inv)
  have fr: "free_region (\<lambda>_ _. []) = {}" "used_region (\<lambda>_. {}) = {}"
    by (simp_all add: free_region_def used_region_def region_def free_blocks_def)
  show ?thesis using add_range_exact [OF inv, of "0x1000" "0x1000" False] fresh_pmm_empty inv unfolding fr by fastforce
qed

text \<open>
  The \<open>used\<close> counter drifts: an allocation adds the size of the block, a release
  subtracts the size asked for, so taking three pages and giving them back leaves \<open>used\<close> one
  page higher although the same memory is free again.
\<close>

theorem used_counter_drifts:
  assumes "pmm_run p0 p live" "ready p0 FL0" "alloc p 3 clear tp = Some (Inr (p', x))"
  shows "\<exists>p''. free p' x 3 = Inr p'' \<and> used (mem p'') = used (mem p) + page_size"
proof -
  obtain FL AL where L: "live_ok p live FL AL" using run_inv [OF assms(1,2)] by blast
  have inv: "pmm_inv p FL AL" "initialised p" "bootstrap_memmap_idx p = - 1" using L by (auto simp: live_ok_def)
  obtain k where k: "mem p' = (mem p)\<lparr>used := used (mem p) + block_bytes k\<rparr>" "unat (3 :: u64) \<le> 2 ^ k" "2 ^ k < 2 * unat (3 :: u64)"
    using alloc_ok [OF inv, of 3 clear tp] assms(3) by auto
  have "k = 2"
  proof (rule ccontr)
    assume "k \<noteq> 2"
    then consider "k \<le> 1" | "3 \<le> k" by linarith
    then show False using k(2,3) power_increasing [of k 1 "2::nat"] power_increasing [of 3 k "2::nat"] by cases auto
  qed
  then have bb: "block_bytes k = 4 * page_size" using unat_block_bytes [of 2] by (simp add: word_unat_eq_iff)
  obtain FL' AL' where L': "live_ok p' (live(x \<mapsto> 3)) FL' AL'" using live_ok_alloc [OF L _ _ assms(3)] by auto
  obtain p'' where "free p' x 3 = Inr p''" "used (mem p'') = used (mem p') - 3 * page_size"
    using live_ok_free [OF L', of x 3] by auto
  then show ?thesis using k(1) bb by simp
qed

theorem used_counter_drifts_witness:
  "\<exists>p x p' p''. alloc p 3 False Normal = Some (Inr (p', x)) \<and> free p' x 3 = Inr p'' \<and> used (mem p'') = used (mem p) + page_size"
proof -
  obtain p0 FL0 where p0: "ready p0 FL0" "FL0 Normal 2 \<noteq> []" using sample_ready by blast
  have i0: "pmm_inv p0 FL0 (\<lambda>_. {})" "initialised p0" "bootstrap_memmap_idx p0 = - 1" using p0(1) by (auto simp: ready_def)
  have "\<exists>j\<le>max_order. unat (3 :: u64) \<le> 2 ^ j \<and> FL0 Normal j \<noteq> []" using p0(2) by (intro exI [of _ 2]) simp
  then obtain p' x where al: "alloc p0 3 False Normal = Some (Inr (p', x))"
    using alloc_ok [OF i0, of 3 False Normal] by auto
  with used_counter_drifts [OF pmm_run.start p0(1) al] show ?thesis by blast
qed
text \<open>
  The first bootstrap allocation picks a largest usable entry of the boot
  memory map, rounds its length down to pages and hands out its topmost page; what is left
  of the entry ends right below that page, so no two bootstrap pages overlap.
\<close>

theorem bootstrap_first_page:
  assumes "\<not> bootstrap_once p" "length (memmaps p) < 2 ^ 63"
    and "\<exists>m\<in>set (memmaps p). mm_type m = MM_usable \<and> page_size \<le> mm_length m"
    and "\<forall>m\<in>set (memmaps p). mm_type m = MM_usable \<longrightarrow> 2 ^ 20 \<le> unat (mm_base m) \<and> unat (mm_base m) + unat (mm_length m) < 2 ^ 64"
  shows "\<exists>p' x m. bootstrap_alloc p 1 = Inr (p', tohh (hhdm (heap p)) x) \<and> m \<in> set (memmaps p) \<and> mm_type m = MM_usable \<and>
    (\<forall>m'\<in>set (memmaps p). mm_type m' = MM_usable \<longrightarrow> mm_length m' \<le> mm_length m) \<and>
    unat x + 4096 = unat (mm_base m) + unat (mm_length m) div 4096 * 4096 \<and>
    mm_base (bootstrap_memmap p') + mm_length (bootstrap_memmap p') = x \<and> mm_base (bootstrap_memmap p') = mm_base m"
proof -
  have "\<exists>m\<in>set (memmaps p). mm_type m = MM_usable \<and> mm_length m \<noteq> 0" using assms(3) by (force simp: word_le_nat_alt)
  from bootstrap_setup_ok [OF assms(1,2) this] obtain q m where
    q: "bootstrap_setup p = Inr q" "bootstrap_once q" "m \<in> set (memmaps p)" "mm_type m = MM_usable"
      "\<forall>l\<in>usable_lengths (memmaps p). l \<le> mm_length m"
      "bootstrap_memmap q = m\<lparr>mm_length := align_down (mm_length m) page_size\<rparr>" "heap q = heap p" by blast
  have big: "4096 \<le> unat (mm_length m)" using q(5) assms(3) by (force simp: usable_lengths_def word_le_nat_alt)
  have u: "unat (align_down (mm_length m) page_size) = unat (mm_length m) div 4096 * 4096"
    using unat_align_down_div [of "mm_length m" 12] by simp
  have "1 \<le> unat (mm_length m) div 4096" using div_le_mono [OF big, of 4096] by simp
  then have dv: "4096 \<le> unat (mm_length m) div 4096 * 4096" by linarith
  have ge: "2 ^ 20 \<le> unat (mm_base m)" "unat (mm_base m) + unat (mm_length m) < 2 ^ 64" using assms(4) q(3,4) by auto
  have le: "unat (mm_length m) div 4096 * 4096 \<le> unat (mm_length m)" by simp
  define m' where "m' = m\<lparr>mm_length := align_down (mm_length m) page_size\<rparr>"
  have "2 ^ 20 \<le> unat (mm_base m') + unat (mm_length m') - 4096" "unat (mm_base m') + unat (mm_length m') < 2 ^ 64" "4096 \<le> unat (mm_length m')"
    using u dv ge le by (simp_all add: m'_def)
  with bootstrap_alloc_ok [OF q(2) q(6) [folded m'_def]] obtain p' x where
    r: "bootstrap_alloc q 1 = Inr (p', x)" "x = tohh (hhdm (heap q)) (mm_base m' + mm_length m' - 4096)"
      "unat (mm_base m' + mm_length m' - 4096) = unat (mm_base m') + unat (mm_length m') - 4096"
      "bootstrap_memmap p' = m'\<lparr>mm_length := mm_length m' - 4096\<rparr>" by blast
  have "bootstrap_alloc p 1 = bootstrap_alloc q 1"
    using q(1,2) by (simp add: bootstrap_alloc_def) (simp add: bootstrap_setup_def)
  moreover have "\<forall>m'\<in>set (memmaps p). mm_type m' = MM_usable \<longrightarrow> mm_length m' \<le> mm_length m" using q(5) by (auto simp: usable_lengths_def)
  moreover have "unat (mm_base m' + mm_length m' - 4096) + 4096 = unat (mm_base m) + unat (mm_length m) div 4096 * 4096"
    using r(3) u dv by (simp add: m'_def)
  moreover have "mm_base (bootstrap_memmap p') + mm_length (bootstrap_memmap p') = mm_base m' + mm_length m' - 4096"
    "mm_base (bootstrap_memmap p') = mm_base m" using r(4) by (simp_all add: m'_def)
  ultimately show ?thesis using r(1,2) q(3,4,7) by (intro exI [of _ p'] exI [of _ "mm_base m' + mm_length m' - 4096"] exI [of _ m]) simp
qed

theorem bootstrap_first_page_witness:
  "\<exists>p' x. bootstrap_alloc (pmm_empty 0xffff800000000000 [\<lparr>mm_base = 0x100000, mm_length = 0x3800, mm_type = MM_usable\<rparr>]) 1 =
     Inr (p', tohh 0xffff800000000000 x) \<and> unat x + 4096 = 0x103000"
proof -
  let ?p = "pmm_empty 0xffff800000000000 [\<lparr>mm_base = 0x100000, mm_length = 0x3800, mm_type = MM_usable\<rparr>]"
  have m: "memmaps ?p = [\<lparr>mm_base = 0x100000, mm_length = 0x3800, mm_type = MM_usable\<rparr>]" "\<not> bootstrap_once ?p" by (simp_all add: pmm_empty_def)
  from bootstrap_first_page [of ?p] m show ?thesis by auto
qed

end
