(* ===== verification/Pagemap.thy ===== *)
theory Pagemap
  imports Pmm_Zones
begin

text \<open>
  The x86_64 page map: \<^verbatim>\<open>kernel/source/system/memory/pagemap.cpp\<close> (the generic walk, map,
  unmap, protect, translate), \<^verbatim>\<open>arch/x86_64/system/pagemap.cpp\<close> (flag conversion, tables,
  page sizes) and the entry accessors of \<^verbatim>\<open>interfaces/system/memory/pagemap.cppm\<close>.

  Page tables live in physical memory: \<open>words\<close> maps the direct-map address of a 64-bit word
  to its contents, and tables come from the physical memory manager. Memory handed out
  without clearing still holds the free-list node the allocator kept in it, which
  \<open>pmm_alloc\<close> makes visible. \<open>invalidated\<close> records the \<open>invlpg\<close> instructions executed.
\<close>

section \<open>Data\<close>

datatype caching =
    Uncacheable | Uncacheable_strong | Write_through | Write_protected | Write_combining | Write_back | Device

datatype page_size = Small | Medium | Large

datatype vm_error = Addr_not_aligned | Addr_in_use | Not_mapped | Invalid_entry

text \<open>\<open>pflag\<close> is a set of bits.\<close>

type_synonym pflag = u32

abbreviation (input) pf_read :: pflag where "pf_read \<equiv> 1"
abbreviation (input) pf_write :: pflag where "pf_write \<equiv> 2"
abbreviation (input) pf_exec :: pflag where "pf_exec \<equiv> 4"
abbreviation (input) pf_user :: pflag where "pf_user \<equiv> 8"
abbreviation (input) pf_global :: pflag where "pf_global \<equiv> 16"

record vm =
  pm :: pmm
  words :: "u64 \<Rightarrow> u64"
  large_pages :: bool
  pagemap_use_lowmem :: bool
  invalidated :: "u64 list"
  kernel_table :: u64
  vspace_base :: u64

section \<open>Architecture\<close>

abbreviation (input) fl_present :: u64 where "fl_present \<equiv> 0x1"
abbreviation (input) fl_write :: u64 where "fl_write \<equiv> 0x2"
abbreviation (input) fl_user :: u64 where "fl_user \<equiv> 0x4"
abbreviation (input) fl_pwt :: u64 where "fl_pwt \<equiv> 0x8"
abbreviation (input) fl_pcd :: u64 where "fl_pcd \<equiv> 0x10"
abbreviation (input) fl_lpages :: u64 where "fl_lpages \<equiv> 0x80"
abbreviation (input) fl_pat :: u64 where "fl_pat \<equiv> 0x80"
abbreviation (input) fl_global :: u64 where "fl_global \<equiv> 0x100"
abbreviation (input) fl_lpat :: u64 where "fl_lpat \<equiv> 0x1000"
abbreviation (input) fl_no_exec :: u64 where "fl_no_exec \<equiv> 0x8000000000000000"

definition pa_mask :: u64 where "pa_mask = 0x000FFFFFFFFFF000"

definition valid_table_flags :: u64 where "valid_table_flags = fl_present"

definition new_table_flags :: u64 where "new_table_flags = fl_present OR fl_write OR fl_user"

definition fixpsize :: "vm \<Rightarrow> page_size \<Rightarrow> page_size" where
  "fixpsize st psize = (if psize = Large \<and> \<not> large_pages st then Medium else psize)"

definition invalidate :: "vm \<Rightarrow> u64 \<Rightarrow> vm" where
  "invalidate st vaddr = st\<lparr>invalidated := invalidated st @ [vaddr]\<rparr>"

fun cache_bits :: "caching \<Rightarrow> page_size \<Rightarrow> u64" where
  "cache_bits Uncacheable psize = fl_pcd"
| "cache_bits Uncacheable_strong psize = fl_pcd OR fl_pwt"
| "cache_bits Device psize = fl_pcd OR fl_pwt"
| "cache_bits Write_through psize = fl_pwt"
| "cache_bits Write_protected psize = (if psize = Small then fl_pat else fl_lpat)"
| "cache_bits Write_combining psize = (if psize = Small then fl_pat else fl_lpat) OR fl_pwt"
| "cache_bits Write_back psize = 0"

definition to_arch :: "pflag \<Rightarrow> caching \<Rightarrow> page_size \<Rightarrow> u64" where
  "to_arch flags cache psize =
     (let ret = 0;
          ret = (if flags AND pf_read \<noteq> 0 then ret OR fl_present else ret);
          ret = (if flags AND pf_write \<noteq> 0 then ret OR fl_write else ret);
          ret = (if flags AND pf_user \<noteq> 0 then ret OR fl_user else ret);
          ret = (if flags AND pf_global \<noteq> 0 then ret OR fl_global else ret);
          ret = (if flags AND pf_exec = 0 then ret OR fl_no_exec else ret);
          ret = (if psize \<noteq> Small then ret OR fl_lpages else ret)
      in ret OR cache_bits cache psize)"

definition from_arch :: "u64 \<Rightarrow> page_size \<Rightarrow> pflag \<times> caching" where
  "from_arch flags psize =
     (let ret = pf_exec;
          ret = (if flags AND fl_present \<noteq> 0 then ret OR pf_read else ret);
          ret = (if flags AND fl_write \<noteq> 0 then ret OR pf_write else ret);
          ret = (if flags AND fl_user \<noteq> 0 then ret OR pf_user else ret);
          ret = (if flags AND fl_global \<noteq> 0 then ret OR pf_global else ret);
          ret = (if flags AND fl_no_exec \<noteq> 0 then ret AND NOT pf_exec else ret);
          is_pat = (if psize = Small then flags AND fl_pat \<noteq> 0 else flags AND fl_lpat \<noteq> 0);
          is_pcd = (flags AND fl_pcd \<noteq> 0);
          is_pwt = (flags AND fl_pwt \<noteq> 0);
          cache = (if \<not> is_pat \<and> \<not> is_pcd \<and> \<not> is_pwt then Write_back
                   else if \<not> is_pat \<and> \<not> is_pcd \<and> is_pwt then Write_through
                   else if \<not> is_pat \<and> is_pcd \<and> \<not> is_pwt then Uncacheable
                   else if \<not> is_pat \<and> is_pcd \<and> is_pwt then Uncacheable_strong
                   else if is_pat \<and> \<not> is_pcd \<and> \<not> is_pwt then Write_protected
                   else if is_pat \<and> \<not> is_pcd \<and> is_pwt then Write_combining
                   else Write_back)
      in (ret, cache))"

definition is_canonical :: "u64 \<Rightarrow> bool" where
  "is_canonical addr \<longleftrightarrow> addr < 0x0000800000000000 \<or> 0xFFFF800000000000 \<le> addr"

fun from_page_size :: "page_size \<Rightarrow> u64" where
  "from_page_size Small = kib 4"
| "from_page_size Medium = mib 2"
| "from_page_size Large = gib 1"

definition max_page_size :: "u64 \<Rightarrow> page_size" where
  "max_page_size sz =
     (if sz > from_page_size Large then Large else if sz > from_page_size Medium then Medium else Small)"

text \<open>The overload that also respects the alignment of an address.\<close>

fun lower_page_size :: "u64 \<Rightarrow> page_size \<Rightarrow> page_size" where
  "lower_page_size addr Small = Small"
| "lower_page_size addr Medium = (if addr mod from_page_size Medium \<noteq> 0 then Small else Medium)"
| "lower_page_size addr Large =
     (if addr mod from_page_size Large \<noteq> 0
      then (if addr mod from_page_size Medium \<noteq> 0 then Small else Medium)
      else Large)"

definition max_page_size_at :: "u64 \<Rightarrow> u64 \<Rightarrow> page_size" where
  "max_page_size_at addr sz = lower_page_size addr (max_page_size sz)"

section \<open>Table entries\<close>

definition entry_clearflags :: "u64 \<Rightarrow> u64" where "entry_clearflags v = v AND pa_mask"

definition entry_setflags :: "u64 \<Rightarrow> u64 \<Rightarrow> bool \<Rightarrow> u64" where
  "entry_setflags v aflags enabled = (if enabled then v OR aflags else v AND NOT aflags)"

definition entry_hasflags :: "u64 \<Rightarrow> u64 \<Rightarrow> bool" where
  "entry_hasflags v aflags \<longleftrightarrow> v AND aflags = aflags"

definition entry_getflags :: "u64 \<Rightarrow> u64" where "entry_getflags v = v AND NOT pa_mask"

definition entry_setaddr :: "u64 \<Rightarrow> u64 \<Rightarrow> u64" where
  "entry_setaddr v paddr = (v AND NOT pa_mask) OR (paddr AND pa_mask)"

definition entry_getaddr :: "u64 \<Rightarrow> u64" where "entry_getaddr v = v AND pa_mask"

definition set_word :: "vm \<Rightarrow> u64 \<Rightarrow> u64 \<Rightarrow> vm" where
  "set_word st a v = st\<lparr>words := (words st)(a := v)\<rparr>"

abbreviation hh :: "vm \<Rightarrow> u64" where "hh st \<equiv> hhdm (heap (pm st))"

section \<open>Tables\<close>

definition pmm_alloc :: "vm \<Rightarrow> u64 \<Rightarrow> bool \<Rightarrow> zone \<Rightarrow> (vm \<times> u64) run" where
  "pmm_alloc st npages clear tp =
     bindR (alloc (pm st) npages clear tp) (\<lambda>(p, x).
       let v = tohh (hhdm (heap p)) x;
           w = (if x = 0 then words st
                else if clear then (\<lambda>a. if unat (a - v) < unat npages * 4096 then 0 else words st a)
                else (words st)(v := lprev (nodes (heap p) v), v + 8 := lnext (nodes (heap p) v)))
       in retR (st\<lparr>pm := p, words := w\<rparr>, x))"

definition pmm_free :: "vm \<Rightarrow> u64 \<Rightarrow> u64 \<Rightarrow> vm run" where
  "pmm_free st ptr npages = (case free (pm st) ptr npages of Inl e \<Rightarrow> failR e | Inr p \<Rightarrow> retR (st\<lparr>pm := p\<rparr>))"

definition new_table :: "vm \<Rightarrow> (vm \<times> u64) run" where
  "new_table st = pmm_alloc st 1 True (if pagemap_use_lowmem st then Sub4gib else Normal)"

definition free_table :: "vm \<Rightarrow> u64 \<Rightarrow> vm run" where
  "free_table st ptr = pmm_free st ptr 1"

text \<open>\<open>getlvl\<close> takes the address of the entry; a null pointer is address 0.\<close>

definition getlvl :: "vm \<Rightarrow> u64 \<Rightarrow> bool \<Rightarrow> (vm \<times> u64) run" where
  "getlvl st e allocate =
     (let v = words st e; addr = entry_getaddr v
      in if entry_hasflags v valid_table_flags \<and> is_canonical addr then retR (st, tohh (hh st) addr)
         else if \<not> allocate then retR (st, 0)
         else bindR (new_table st) (\<lambda>(st, t).
           retR (set_word st e (entry_setflags (entry_setaddr 0 t) new_table_flags True), tohh (hh st) t)))"

definition entry_index :: "u64 \<Rightarrow> nat \<Rightarrow> u64" where
  "entry_index vaddr shift = drop_bit shift vaddr AND 0x1FF"

definition entry_addr :: "u64 \<Rightarrow> u64 \<Rightarrow> u64" where
  "entry_addr pml i = pml + 8 * i"

text \<open>
  The loop of \<open>getpte\<close>, counted by the levels left above the returned entry: \<open>retidx - i\<close>.
\<close>

primrec getpte_loop :: "nat \<Rightarrow> vm \<Rightarrow> u64 \<Rightarrow> u64 \<Rightarrow> nat \<Rightarrow> bool \<Rightarrow> (vm \<times> (vm_error + u64)) run" where
  "getpte_loop 0 st pml vaddr shift allocate = retR (st, Inr (entry_addr pml (entry_index vaddr shift)))"
| "getpte_loop (Suc k) st pml vaddr shift allocate =
     bindR (getlvl st (entry_addr pml (entry_index vaddr shift)) allocate) (\<lambda>(st, pml).
       if pml = 0 then retR (st, Inl Invalid_entry)
       else getpte_loop k st pml vaddr (shift - 9) allocate)"

fun page_size_num :: "page_size \<Rightarrow> nat" where
  "page_size_num Small = 0"
| "page_size_num Medium = 1"
| "page_size_num Large = 2"

definition getpte :: "vm \<Rightarrow> u64 \<Rightarrow> u64 \<Rightarrow> page_size \<Rightarrow> bool \<Rightarrow> (vm \<times> (vm_error + u64)) run" where
  "getpte st root vaddr psize allocate =
     getpte_loop (4 - page_size_num psize - 1) st (tohh (hh st) root) vaddr (12 + (4 - 1) * 9) allocate"

section \<open>Operations of the page map\<close>

text \<open>
  An operation that returns \<open>std::expected<void, error>\<close> gives an error or \<open>None\<close> for success.
  The byte counter of the loops is a \<open>size_t\<close>, so a loop may fail to end.
\<close>

partial_function (option) map_undo :: "vm \<Rightarrow> u64 \<Rightarrow> u64 \<Rightarrow> page_size \<Rightarrow> u64 \<Rightarrow> u64 \<Rightarrow> (vm \<times> vm_error option) run" where
  "map_undo st root vaddr psize ii i =
     (if ii < i
      then bindR (getpte st root (vaddr + ii) psize True) (\<lambda>(st, r).
        case r of Inl e \<Rightarrow> retR (st, Some e)
        | Inr pte \<Rightarrow>
            map_undo (invalidate (set_word st pte 0) (vaddr + ii)) root vaddr psize (ii + from_page_size psize) i)
      else retR (st, None))"

partial_function (option) map_loop ::
  "vm \<Rightarrow> u64 \<Rightarrow> u64 \<Rightarrow> u64 \<Rightarrow> u64 \<Rightarrow> u64 \<Rightarrow> page_size \<Rightarrow> u64 \<Rightarrow> (vm \<times> vm_error option) run" where
  "map_loop st root vaddr paddr len aflags psize i =
     (if i < len
      then bindR (getpte st root (vaddr + i) psize True) (\<lambda>(st, r).
        case r of
          Inl e \<Rightarrow> bindR (map_undo st root vaddr psize 0 i) (\<lambda>(st, u).
            case u of Some e1 \<Rightarrow> retR (st, Some e1) | None \<Rightarrow> retR (st, Some e))
        | Inr pte \<Rightarrow>
            map_loop (set_word st pte (entry_setflags (entry_setaddr 0 (paddr + i)) aflags True))
              root vaddr paddr len aflags psize (i + from_page_size psize))
      else retR (st, None))"

definition map_pages :: "vm \<Rightarrow> u64 \<Rightarrow> u64 \<Rightarrow> u64 \<Rightarrow> u64 \<Rightarrow> pflag \<Rightarrow> page_size \<Rightarrow> caching \<Rightarrow> (vm \<times> vm_error option) run" where
  "map_pages st root vaddr paddr len flags psize cache =
     (let psize = fixpsize st psize
      in if vaddr mod from_page_size psize \<noteq> 0 then retR (st, Some Addr_not_aligned)
         else map_loop st root vaddr paddr len (to_arch flags cache psize) psize 0)"

partial_function (option) protect_loop :: "vm \<Rightarrow> u64 \<Rightarrow> u64 \<Rightarrow> u64 \<Rightarrow> u64 \<Rightarrow> page_size \<Rightarrow> u64 \<Rightarrow> (vm \<times> vm_error option) run" where
  "protect_loop st root vaddr len aflags psize i =
     (if i < len
      then bindR (getpte st root (vaddr + i) psize False) (\<lambda>(st, r).
        case r of
          Inl e \<Rightarrow> retR (st, Some e)
        | Inr pte \<Rightarrow>
            protect_loop
              (invalidate (set_word st pte (entry_setflags (entry_clearflags (words st pte)) aflags True)) (vaddr + i))
              root vaddr len aflags psize (i + from_page_size psize))
      else retR (st, None))"

definition protect :: "vm \<Rightarrow> u64 \<Rightarrow> u64 \<Rightarrow> u64 \<Rightarrow> pflag \<Rightarrow> page_size \<Rightarrow> caching \<Rightarrow> (vm \<times> vm_error option) run" where
  "protect st root vaddr len flags psize cache =
     (let psize = fixpsize st psize
      in if vaddr mod from_page_size psize \<noteq> 0 then retR (st, Some Addr_not_aligned)
         else protect_loop st root vaddr len (to_arch flags cache psize) psize 0)"

partial_function (option) unmap_loop :: "vm \<Rightarrow> u64 \<Rightarrow> u64 \<Rightarrow> u64 \<Rightarrow> page_size \<Rightarrow> u64 \<Rightarrow> (vm \<times> vm_error option) run" where
  "unmap_loop st root vaddr len psize i =
     (if i < len
      then bindR (getpte st root (vaddr + i) psize False) (\<lambda>(st, r).
        case r of
          Inl e \<Rightarrow> unmap_loop st root vaddr len psize (i + from_page_size psize)
        | Inr pte \<Rightarrow>
            unmap_loop (invalidate (set_word st pte 0) (vaddr + i)) root vaddr len psize (i + from_page_size psize))
      else retR (st, None))"

definition unmap :: "vm \<Rightarrow> u64 \<Rightarrow> u64 \<Rightarrow> u64 \<Rightarrow> page_size \<Rightarrow> (vm \<times> vm_error option) run" where
  "unmap st root vaddr len psize =
     (let psize = fixpsize st psize
      in if vaddr mod from_page_size psize \<noteq> 0 then retR (st, Some Addr_not_aligned)
         else unmap_loop st root vaddr len psize 0)"

definition translate :: "vm \<Rightarrow> u64 \<Rightarrow> u64 \<Rightarrow> page_size \<Rightarrow> (vm \<times> (vm_error + u64)) run" where
  "translate st root vaddr psize =
     (let psize = fixpsize st psize
      in if vaddr mod from_page_size psize \<noteq> 0 then retR (st, Inl Addr_not_aligned)
         else bindR (getpte st root vaddr psize False) (\<lambda>(st, r).
           case r of Inl e \<Rightarrow> retR (st, Inl e)
           | Inr pte \<Rightarrow>
               let addr = entry_getaddr (words st pte)
               in if \<not> is_canonical addr then retR (st, Inl Invalid_entry) else retR (st, Inr addr)))"

partial_function (option) unmap_dealloc_loop :: "vm \<Rightarrow> u64 \<Rightarrow> u64 \<Rightarrow> u64 \<Rightarrow> page_size \<Rightarrow> u64 \<Rightarrow> (vm \<times> vm_error option) run" where
  "unmap_dealloc_loop st root vaddr len psize i =
     (if i < len
      then bindR (translate st root (vaddr + i) psize) (\<lambda>(st, rett).
        case rett of Inl e \<Rightarrow> retR (st, Some e)
        | Inr pa \<Rightarrow>
            bindR (unmap st root (vaddr + i) (from_page_size psize) psize) (\<lambda>(st, retu).
              case retu of Some e \<Rightarrow> retR (st, Some e)
              | None \<Rightarrow> bindR (pmm_free st pa 1) (\<lambda>st.
                  unmap_dealloc_loop st root vaddr len psize (i + from_page_size psize))))
      else retR (st, None))"

definition unmap_dealloc :: "vm \<Rightarrow> u64 \<Rightarrow> u64 \<Rightarrow> u64 \<Rightarrow> page_size \<Rightarrow> (vm \<times> vm_error option) run" where
  "unmap_dealloc st root vaddr len psize =
     (let psize = fixpsize st psize in unmap_dealloc_loop st root vaddr len psize 0)"

text \<open>
  \<open>map_alloc\<close> links the pages it takes through their first word, starting at \<open>head\<close>; both
  clean-up loops follow these links.
\<close>

partial_function (option) free_chain :: "vm \<Rightarrow> u64 \<Rightarrow> u64 \<Rightarrow> vm run" where
  "free_chain st current npages =
     (if current \<noteq> 0
      then let nxt = words st current
           in bindR (pmm_free st current npages) (\<lambda>st. free_chain st nxt npages)
      else retR st)"

partial_function (option) clear_chain :: "vm \<Rightarrow> u64 \<Rightarrow> u64 \<Rightarrow> vm run" where
  "clear_chain st current npages =
     (if current \<noteq> 0
      then let nxt = words st current;
               st = st\<lparr>words := (\<lambda>a. if unat (a - current) < unat (npages * 0x1000) then 0 else words st a)\<rparr>
           in clear_chain st nxt npages
      else retR st)"

partial_function (option) map_alloc_loop ::
  "vm \<Rightarrow> u64 \<Rightarrow> u64 \<Rightarrow> u64 \<Rightarrow> pflag \<Rightarrow> page_size \<Rightarrow> caching \<Rightarrow> u64 \<Rightarrow> u64 \<Rightarrow> u64 \<Rightarrow> (vm \<times> (vm_error + u64)) run" where
  "map_alloc_loop st root vaddr len flags psize cache head current i =
     (if i < len
      then let npages = div_roundup (from_page_size psize) 0x1000
           in bindR (pmm_alloc st npages False Normal) (\<lambda>(st, paddr).
             let pg = tohh (hh st) paddr;
                 (st, head, current) = (if head = 0 then (st, pg, pg) else (set_word st current pg, head, pg))
             in bindR (map_pages st root (vaddr + i) paddr (from_page_size psize) flags psize cache) (\<lambda>(st, r).
                  case r of Some e \<Rightarrow> bindR (free_chain st head npages) (\<lambda>st. retR (st, Inl e))
                  | None \<Rightarrow> map_alloc_loop st root vaddr len flags psize cache head current (i + from_page_size psize)))
      else retR (st, Inr head))"

definition map_alloc :: "vm \<Rightarrow> u64 \<Rightarrow> u64 \<Rightarrow> u64 \<Rightarrow> pflag \<Rightarrow> page_size \<Rightarrow> caching \<Rightarrow> (vm \<times> vm_error option) run" where
  "map_alloc st root vaddr len flags psize cache =
     (let psize = fixpsize st psize;
          npages = div_roundup (from_page_size psize) 0x1000
      in bindR (map_alloc_loop st root vaddr len flags psize cache 0 0 0) (\<lambda>(st, r).
           case r of Inl e \<Rightarrow> retR (st, Some e)
           | Inr head \<Rightarrow> bindR (clear_chain st head npages) (\<lambda>st. retR (st, None))))"

section \<open>Construction and destruction\<close>

text \<open>The recursive lambda of \<open>~pagemap\<close>: the entries \<open>is\<close> of a table at the given level.\<close>

fun destroy :: "nat \<Rightarrow> vm \<Rightarrow> u64 \<Rightarrow> nat list \<Rightarrow> vm run" where
  "destroy 0 st ptr is = retR st"
| "destroy (Suc level) st ptr [] = free_table st (fromhh (hh st) ptr)"
| "destroy (Suc level) st ptr (i # is) =
     bindR (getlvl st (entry_addr ptr (of_nat i)) False) (\<lambda>(st, lvl).
       if lvl = 0 then destroy (Suc level) st ptr is
       else bindR (destroy level st lvl [0..<512]) (\<lambda>st. destroy (Suc level) st ptr is))"

definition pagemap_destroy :: "vm \<Rightarrow> u64 \<Rightarrow> vm run" where
  "pagemap_destroy st root = destroy 4 st (tohh (hh st) root) [0..<256]"

fun prealloc_loop :: "vm \<Rightarrow> u64 \<Rightarrow> nat list \<Rightarrow> vm run" where
  "prealloc_loop st table [] = retR st"
| "prealloc_loop st table (i # is) =
     bindR (getlvl st (entry_addr table (of_nat i)) True) (\<lambda>(st, _). prealloc_loop st table is)"

definition pagemap_new :: "vm \<Rightarrow> bool \<Rightarrow> (vm \<times> u64) run" where
  "pagemap_new st cpuid_large =
     bindR (new_table st) (\<lambda>(st, root).
       let table = tohh (hh st) root
       in if kernel_table st = 0
          then bindR (prealloc_loop (st\<lparr>large_pages := cpuid_large\<rparr>) table [256..<512]) (\<lambda>st. retR (st, root))
          else let ktable = tohh (hh st) (kernel_table st)
               in retR (st\<lparr>words := (\<lambda>a. if 2048 \<le> unat (a - table) \<and> unat (a - table) < 4096
                                          then words st (ktable + (a - table)) else words st a)\<rparr>, root))"

section \<open>The kernel page map\<close>

definition mapped_type :: "memmap_type \<Rightarrow> bool" where
  "mapped_type t \<longleftrightarrow> t = MM_usable \<or> t = MM_bootloader \<or> t = MM_kernel_and_modules \<or> t = MM_framebuffer"

fun init_memmaps :: "vm \<Rightarrow> u64 \<Rightarrow> memmap_entry list \<Rightarrow> vm run" where
  "init_memmaps st root [] = retR st"
| "init_memmaps st root (m # ms) =
     (if \<not> mapped_type (mm_type m) then init_memmaps st root ms
      else if mm_length m = 0 then init_memmaps st root ms
      else let psize = max_page_size (mm_length m);
               npsize = from_page_size psize;
               base = align_down (mm_base m) npsize;
               e = align_up (mm_base m + mm_length m) npsize;
               cache = (if mm_type m = MM_framebuffer then Write_combining else Write_back);
               vaddr = tohh (hh st) base;
               len = e - base
           in if len = 0 then init_memmaps st root ms
              else bindR (map_pages st root vaddr base len (pf_read OR pf_write) psize cache) (\<lambda>(st, r).
                case r of Some _ \<Rightarrow> failR (Panic_msg ''could not map virtual memory'')
                | None \<Rightarrow> init_memmaps st root ms))"

text \<open>The program headers of the kernel binary, as the loop reads them.\<close>

record phdr =
  p_load :: bool
  p_r :: bool
  p_w :: bool
  p_x :: bool
  p_vaddr :: u64
  p_memsz :: u64

fun init_kernel :: "vm \<Rightarrow> u64 \<Rightarrow> u64 \<Rightarrow> u64 \<Rightarrow> phdr list \<Rightarrow> vm run" where
  "init_kernel st root vbase pbase [] = retR st"
| "init_kernel st root vbase pbase (p # ps) =
     (if \<not> p_load p then init_kernel st root vbase pbase ps
      else let paddr = p_vaddr p - vbase + pbase;
               flags = pf_global;
               flags = (if p_r p then flags OR pf_read else flags);
               flags = (if p_w p then flags OR pf_write else flags);
               flags = (if p_x p then flags OR pf_exec else flags)
           in bindR (map_pages st root (p_vaddr p) paddr (p_memsz p) flags Small Write_back) (\<lambda>(st, r).
                case r of Some _ \<Rightarrow> failR (Panic_msg ''could not map virtual memory'')
                | None \<Rightarrow> init_kernel st root vbase pbase ps))"

definition vmm_init :: "vm \<Rightarrow> bool \<Rightarrow> u64 \<Rightarrow> u64 \<Rightarrow> phdr list \<Rightarrow> vm run" where
  "vmm_init st cpuid_large vbase pbase phdrs =
     bindR (pagemap_new st cpuid_large) (\<lambda>(st, root).
       bindR (init_memmaps st root (memmaps (pm st))) (\<lambda>st.
         bindR (init_kernel st root vbase pbase phdrs) (\<lambda>st. retR (st\<lparr>kernel_table := root\<rparr>))))"

definition init_vspaces :: "vm \<Rightarrow> vm" where
  "init_vspaces st = st\<lparr>vspace_base := tohh (hh st) (align_up (pfndb_end (info (pm st))) (gib 1))\<rparr>"

definition alloc_vspace :: "vm \<Rightarrow> u64 \<Rightarrow> vm \<times> u64" where
  "alloc_vspace st pages = (st\<lparr>vspace_base := vspace_base st + pages * 0x1000\<rparr>, vspace_base st)"

section \<open>Setting up the page-frame database\<close>

text \<open>
  \<open>pmm::init\<close> and \<open>pfndb_add\<close> of \<^verbatim>\<open>pmm.cpp\<close> map the database through the kernel page map, so
  they are modelled here. \<open>page_for_addr\<close> is the address \<open>pmm::page_for\<close> computes.
\<close>

definition page_for_addr :: "pmm \<Rightarrow> u64 \<Rightarrow> u64" where
  "page_for_addr p addr = pfndb_base (mem p) + page_for (heap p) addr * 16"

partial_function (option) pfndb_loop :: "vm \<Rightarrow> u64 \<Rightarrow> u64 \<Rightarrow> u64 \<Rightarrow> vm run" where
  "pfndb_loop st idx vend vaddr =
     (if vaddr < vend
      then if idx = bootstrap_memmap_idx (pm st) \<and> mm_length (bootstrap_memmap (pm st)) < 0x1000 * 5
           then failR (Panic_msg ''pmm: could not map pfndb: out of memory'')
           else bindR (translate st (kernel_table st) vaddr Small) (\<lambda>(st, ret).
             if (case ret of Inr pa \<Rightarrow> pa \<noteq> 0 | Inl _ \<Rightarrow> False) then pfndb_loop st idx vend (vaddr + 0x1000)
             else bindR (pmm_alloc st 1 True Normal) (\<lambda>(st, paddr).
               bindR (map_pages st (kernel_table st) vaddr paddr 0x1000 (pf_read OR pf_write OR pf_global) Small Write_back)
                 (\<lambda>(st, r). case r of Some _ \<Rightarrow> failR (Panic_msg ''pmm: could not map pfndb'')
                    | None \<Rightarrow> pfndb_loop st idx vend (vaddr + 0x1000))))
      else retR st)"

definition pfndb_add :: "vm \<Rightarrow> u64 \<Rightarrow> vm run" where
  "pfndb_add st idx =
     (let m = memmaps (pm st) ! unat idx;
          vstart = align_down (page_for_addr (pm st) (mm_base m)) 0x1000;
          max_length = align_up (mm_length m div 0x1000 * 16) 0x1000 + 0x1000
      in pfndb_loop st idx (vstart + max_length) vstart)"

fun tops :: "memmap_entry list \<Rightarrow> memory \<Rightarrow> memory" where
  "tops [] mm = mm"
| "tops (m # ms) mm =
     (let e = mm_base m + mm_length m;
          mm = mm\<lparr>top := max (top mm) e\<rparr>;
          mm = (if mm_type m = MM_usable then mm\<lparr>usable_top := max (usable_top mm) e\<rparr> else mm)
      in tops ms mm)"

fun pfndb_entries :: "vm \<Rightarrow> memmap_entry list \<Rightarrow> u64 \<Rightarrow> vm run" where
  "pfndb_entries st [] i = retR st"
| "pfndb_entries st (m # ms) i =
     (if i = bootstrap_memmap_idx (pm st) then pfndb_entries st ms (i + 1)
      else if mm_type m \<noteq> MM_usable \<and> mm_type m \<noteq> MM_bootloader then pfndb_entries st ms (i + 1)
      else bindR (pfndb_add st i) (\<lambda>st. pfndb_entries st ms (i + 1)))"

fun init_ranges :: "pmm \<Rightarrow> memmap_entry list \<Rightarrow> u64 \<Rightarrow> pmm outcome" where
  "init_ranges p [] i = Inr p"
| "init_ranges p (m # ms) i =
     (if i = bootstrap_memmap_idx p then init_ranges p ms (i + 1)
      else if mm_type m \<noteq> MM_usable
      then if mm_type m = MM_kernel_and_modules \<or> mm_type m = MM_bootloader
           then init_ranges (set_usable (set_used p (\<lambda>u. u + mm_length m)) (\<lambda>u. u + mm_length m)) ms (i + 1)
           else init_ranges p ms (i + 1)
      else case add_range p (mm_base m) (mm_length m) False of Inl e \<Rightarrow> Inl e | Inr p \<Rightarrow> init_ranges p ms (i + 1))"

definition pmm_init :: "vm \<Rightarrow> vm run" where
  "pmm_init st =
     (let p = pm st;
          mm = tops (memmaps p) (mem p);
          base = tohh (hhdm (heap p)) (align_up (top mm) (gib 1));
          num_pages = div_roundup (usable_top mm) 0x1000;
          mm = mm\<lparr>pfndb_base := base, pfndb_end := base + num_pages * 16\<rparr>;
          st = st\<lparr>pm := p\<lparr>mem := mm\<rparr>\<rparr>
      in bindR (pfndb_entries st (memmaps (pm st)) 0) (\<lambda>st.
           case init_ranges (pm st) (memmaps (pm st)) 0 of Inl e \<Rightarrow> failR e
           | Inr p \<Rightarrow>
               let p = p\<lparr>initialised := True\<rparr>;
                   p = p\<lparr>memmaps := (memmaps p)[unat (bootstrap_memmap_idx p) := bootstrap_memmap p]\<rparr>
               in bindR (pfndb_add (st\<lparr>pm := p\<rparr>) (bootstrap_memmap_idx p)) (\<lambda>st.
                    case add_range (pm st) (mm_base (bootstrap_memmap (pm st))) (mm_length (bootstrap_memmap (pm st))) False of
                      Inl e \<Rightarrow> failR e
                    | Inr p \<Rightarrow> retR (st\<lparr>pm := p\<lparr>bootstrap_memmap_idx := - 1\<rparr>\<rparr>))))"

end
