(* ===== verification/Pagemap_Tree.thy ===== *)
theory Pagemap_Tree
  imports Pagemap
begin

text \<open>
  Facts about the page tables of \<^verbatim>\<open>Pagemap\<close>: the flag bits and their conversion, the tree
  of tables a root spans (\<open>walk\<close>, \<open>leaf\<close>), the invariant \<open>pt_inv\<close> that every table is
  a live page of the physical memory manager reached along one path, and what \<open>getlvl\<close>,
  \<open>getpte\<close> and the write of a last-level entry do to it.
\<close>

section \<open>Flags\<close>

lemma exp_bits:
  "bit (0x1 :: u64) n \<longleftrightarrow> n = 0" "bit (0x2 :: u64) n \<longleftrightarrow> n = 1" "bit (0x4 :: u64) n \<longleftrightarrow> n = 2" "bit (0x8 :: u64) n \<longleftrightarrow> n = 3"
  "bit (0x10 :: u64) n \<longleftrightarrow> n = 4" "bit (0x80 :: u64) n \<longleftrightarrow> n = 7" "bit (0x100 :: u64) n \<longleftrightarrow> n = 8"
  "bit (0x1000 :: u64) n \<longleftrightarrow> n = 12" "bit (0x8000000000000000 :: u64) n \<longleftrightarrow> n = 63"
proof -
  have e: "bit (2 ^ k :: u64) n \<longleftrightarrow> n = k" if "k < 64" for k using that by (auto simp: bit_simps)
  show "bit (0x1 :: u64) n \<longleftrightarrow> n = 0" "bit (0x2 :: u64) n \<longleftrightarrow> n = 1" "bit (0x4 :: u64) n \<longleftrightarrow> n = 2" "bit (0x8 :: u64) n \<longleftrightarrow> n = 3"
  "bit (0x10 :: u64) n \<longleftrightarrow> n = 4" "bit (0x80 :: u64) n \<longleftrightarrow> n = 7" "bit (0x100 :: u64) n \<longleftrightarrow> n = 8"
  "bit (0x1000 :: u64) n \<longleftrightarrow> n = 12" "bit (0x8000000000000000 :: u64) n \<longleftrightarrow> n = 63"
    using e [of 0] e [of 1] e [of 2] e [of 3] e [of 4] e [of 7] e [of 8] e [of 12] e [of 63] by simp_all
qed

lemma pf_bits:
  "bit (1 :: pflag) n \<longleftrightarrow> n = 0" "bit (2 :: pflag) n \<longleftrightarrow> n = 1" "bit (4 :: pflag) n \<longleftrightarrow> n = 2"
  "bit (8 :: pflag) n \<longleftrightarrow> n = 3" "bit (16 :: pflag) n \<longleftrightarrow> n = 4"
proof -
  have e: "bit (2 ^ k :: pflag) n \<longleftrightarrow> n = k" if "k < 32" for k using that by (auto simp: bit_simps)
  show "bit (1 :: pflag) n \<longleftrightarrow> n = 0" "bit (2 :: pflag) n \<longleftrightarrow> n = 1" "bit (4 :: pflag) n \<longleftrightarrow> n = 2"
  "bit (8 :: pflag) n \<longleftrightarrow> n = 3" "bit (16 :: pflag) n \<longleftrightarrow> n = 4"
    using e [of 0] e [of 1] e [of 2] e [of 3] e [of 4] by simp_all
qed

lemma and_flag:
  "x AND 0x1 = 0 \<longleftrightarrow> \<not> bit x 0" "x AND 0x2 = 0 \<longleftrightarrow> \<not> bit x 1" "x AND 0x4 = 0 \<longleftrightarrow> \<not> bit x 2" "x AND 0x8 = 0 \<longleftrightarrow> \<not> bit x 3"
  "x AND 0x10 = 0 \<longleftrightarrow> \<not> bit x 4" "x AND 0x80 = 0 \<longleftrightarrow> \<not> bit x 7" "x AND 0x100 = 0 \<longleftrightarrow> \<not> bit x 8"
  "x AND 0x1000 = 0 \<longleftrightarrow> \<not> bit x 12" "x AND 0x8000000000000000 = 0 \<longleftrightarrow> \<not> bit (x :: u64) 63"
  using and_exp_eq_0_iff_not_bit [of x 0] and_exp_eq_0_iff_not_bit [of x 1] and_exp_eq_0_iff_not_bit [of x 2]
    and_exp_eq_0_iff_not_bit [of x 3] and_exp_eq_0_iff_not_bit [of x 4] and_exp_eq_0_iff_not_bit [of x 7]
    and_exp_eq_0_iff_not_bit [of x 8] and_exp_eq_0_iff_not_bit [of x 12] and_exp_eq_0_iff_not_bit [of x 63]
  by simp_all

lemma and_pf:
  "x AND 1 = 0 \<longleftrightarrow> \<not> bit x 0" "x AND 2 = 0 \<longleftrightarrow> \<not> bit x 1" "x AND 4 = 0 \<longleftrightarrow> \<not> bit x 2"
  "x AND 8 = 0 \<longleftrightarrow> \<not> bit x 3" "x AND 16 = 0 \<longleftrightarrow> \<not> bit (x :: pflag) 4"
  using and_exp_eq_0_iff_not_bit [of x 0] and_exp_eq_0_iff_not_bit [of x 1] and_exp_eq_0_iff_not_bit [of x 2]
    and_exp_eq_0_iff_not_bit [of x 3] and_exp_eq_0_iff_not_bit [of x 4] by simp_all

lemma bit_or_if: "bit (if c then r OR k else r :: 'a::len word) n \<longleftrightarrow> bit r n \<or> c \<and> bit k n"
  by (simp add: bit_or_iff)

lemma bit_andn_if: "bit (if c then r AND NOT k else r :: 'a::len word) n \<longleftrightarrow> bit r n \<and> \<not> (c \<and> bit k n)"
  using bit_imp_le_length [of r n] by (auto simp: bit_and_iff bit_not_iff)

lemma bit_to_arch:
  "bit (to_arch f c p) n \<longleftrightarrow>
     n = 0 \<and> bit f 0 \<or> n = 1 \<and> bit f 1 \<or> n = 2 \<and> bit f 3 \<or> n = 8 \<and> bit f 4 \<or> n = 63 \<and> \<not> bit f 2 \<or>
     n = 7 \<and> p \<noteq> Small \<or> bit (cache_bits c p) n"
  by (simp only: to_arch_def Let_def and_pf bit_or_if bit_or_iff exp_bits bit_0_eq bot_apply simp_thms) (auto simp del: One_nat_def)

lemma bit_cache_bits:
  "bit (cache_bits c p) n \<longleftrightarrow>
     n = 3 \<and> c \<in> {Uncacheable_strong, Device, Write_through, Write_combining} \<or>
     n = 4 \<and> c \<in> {Uncacheable, Uncacheable_strong, Device} \<or>
     n = (if p = Small then 7 else 12) \<and> c \<in> {Write_protected, Write_combining}"
  by (cases c; cases "p = Small"; simp only: cache_bits.simps simp_thms if_True if_False bit_or_iff exp_bits; auto)

fun normal_cache :: "caching \<Rightarrow> caching" where
  "normal_cache Device = Uncacheable_strong"
| "normal_cache c = c"

lemma from_to_arch:
  assumes "f < 32" shows "from_arch (to_arch f c p) p = (f, normal_cache c)"
proof -
  have hi: "\<not> bit f n" if "5 \<le> n" for n
  proof -
    have "(32::nat) \<le> 2 ^ n" using power_increasing [OF that, of "2::nat"] by simp
    then have "unat f div 2 ^ n = 0" using assms by (simp add: word_less_nat_alt)
    then have "\<not> bit (unat f) n" by (simp add: bit_iff_odd)
    then show ?thesis by (simp add: bit_unsigned_iff)
  qed
  have "fst (from_arch (to_arch f c p) p) = f"
  proof (rule bit_eqI)
    fix n show "bit (fst (from_arch (to_arch f c p) p)) n = bit f n"
      using hi [of n]
      by (simp only: from_arch_def Let_def and_flag fst_conv bit_to_arch bit_cache_bits bit_andn_if bit_or_if pf_bits)
        (cases "n = 0"; cases "n = 1"; cases "n = 2"; cases "n = 3"; cases "n = 4"; auto)
  qed
  moreover have "snd (from_arch (to_arch f c p) p) = normal_cache c"
    unfolding from_arch_def Let_def and_flag snd_conv bit_to_arch bit_cache_bits by (cases c; cases "p = Small") auto
  ultimately show ?thesis by (metis prod.collapse)
qed

section \<open>Entries\<close>

lemma bit_pa_mask: "bit pa_mask n \<longleftrightarrow> 12 \<le> n \<and> n < 52"
proof -
  have e: "pa_mask = push_bit 12 (mask 40)" by (simp add: pa_mask_def mask_eq_exp_minus_1 push_bit_eq_mult)
  show ?thesis unfolding e by (auto simp: bit_push_bit_iff bit_mask_iff)
qed

lemma getaddr_setaddr [simp]: "entry_getaddr (entry_setaddr v a) = a AND pa_mask"
  by (rule bit_eqI) (auto simp: entry_getaddr_def entry_setaddr_def bit_simps)

lemma getflags_setaddr [simp]: "entry_getflags (entry_setaddr v a) = entry_getflags v"
  by (rule bit_eqI) (auto simp: entry_getflags_def entry_setaddr_def bit_simps)

lemma setflags_split:
  "entry_getaddr (entry_setflags v f True) = entry_getaddr v OR (f AND pa_mask)"
  "entry_getflags (entry_setflags v f True) = entry_getflags v OR (f AND NOT pa_mask)"
  by (rule bit_eqI, auto simp: entry_getaddr_def entry_getflags_def entry_setflags_def bit_simps)+

lemma to_arch_no_addr:
  assumes "p = Small \<or> c \<notin> {Write_protected, Write_combining}"
  shows "to_arch f c p AND pa_mask = 0"
proof (rule bit_eqI)
  fix n show "bit (to_arch f c p AND pa_mask) n = bit (0 :: u64) n"
    unfolding bit_and_iff bit_pa_mask bit_to_arch bit_cache_bits using assms by (cases "p = Small") auto
qed

lemma to_arch_lpat:
  assumes "p \<noteq> Small" "c \<in> {Write_protected, Write_combining}"
  shows "to_arch f c p AND pa_mask = fl_lpat"
proof (rule bit_eqI)
  fix n show "bit (to_arch f c p AND pa_mask) n = bit (fl_lpat :: u64) n"
    unfolding bit_and_iff bit_pa_mask bit_to_arch bit_cache_bits exp_bits using assms by (cases "n = 12") auto
qed

section \<open>Walking the tables\<close>

text \<open>
  The table an entry links to: present, not a large page, canonical. \<open>getlvl\<close> follows
  exactly these links when the entry is not a large page.
\<close>

definition next_table :: "(u64 \<Rightarrow> u64) \<Rightarrow> u64 \<Rightarrow> u64 \<Rightarrow> u64 \<Rightarrow> u64 option" where
  "next_table W H t i =
     (let v = W (entry_addr t i)
      in if bit v 0 \<and> \<not> bit v 7 \<and> is_canonical (entry_getaddr v) then Some (tohh H (entry_getaddr v)) else None)"

fun walk :: "(u64 \<Rightarrow> u64) \<Rightarrow> u64 \<Rightarrow> u64 \<Rightarrow> u64 list \<Rightarrow> u64 option" where
  "walk W H t [] = Some t"
| "walk W H t (i # is) = Option.bind (next_table W H t i) (\<lambda>t'. walk W H t' is)"

text \<open>
  The paths of the user half: the root table has 512 entries, of which the upper 256 belong to
  the kernel. They are shared by all page maps, link to tables taken at boot, and are no part
  of what is said about the page map of a process.
\<close>

definition indices :: "u64 list \<Rightarrow> bool" where
  "indices p \<longleftrightarrow> (\<forall>i\<in>set p. unat i < 512) \<and> (p \<noteq> [] \<longrightarrow> unat (hd p) < 256)"

text \<open>The leaf entry at a path of two to four indices: a 1 GiB, 2 MiB or 4 KiB page.\<close>

definition leaf :: "(u64 \<Rightarrow> u64) \<Rightarrow> u64 \<Rightarrow> u64 \<Rightarrow> u64 list \<Rightarrow> u64 option" where
  "leaf W H r q =
     (case walk W H r (butlast q) of None \<Rightarrow> None
      | Some t \<Rightarrow> let v = W (entry_addr t (last q))
                 in if bit v 0 \<and> (length q = 4 \<or> bit v 7) then Some v else None)"

text \<open>
  Tables reached along different paths are different pages of the direct map.
\<close>

definition tree_ok :: "(u64 \<Rightarrow> u64) \<Rightarrow> heap \<Rightarrow> u64 \<Rightarrow> bool" where
  "tree_ok W h r \<longleftrightarrow>
     (\<forall>p q t. length p \<le> 3 \<longrightarrow> length q \<le> 3 \<longrightarrow> indices p \<longrightarrow> indices q \<longrightarrow>
        walk W (hhdm h) r p = Some t \<longrightarrow> walk W (hhdm h) r q = Some t \<longrightarrow> p = q) \<and>
     (\<forall>p t. length p \<le> 3 \<longrightarrow> indices p \<longrightarrow> walk W (hhdm h) r p = Some t \<longrightarrow> hpage h t)"

lemma tree_path_unique:
  assumes "tree_ok W h r" "length p \<le> 3" "indices p" "walk W (hhdm h) r p = Some t" "length q \<le> 3" "indices q" "walk W (hhdm h) r q = Some t"
  shows "p = q"
  using assms unfolding tree_ok_def by blast

lemma tree_hpage:
  assumes "tree_ok W h r" "length p \<le> 3" "indices p" "walk W (hhdm h) r p = Some t" shows "hpage h t"
  using assms unfolding tree_ok_def by blast

lemma walk_append: "walk W H t (p @ q) = Option.bind (walk W H t p) (\<lambda>t'. walk W H t' q)"
  by (induction p arbitrary: t) (auto split: bind_splits)

lemma indices_Nil [simp]: "indices []" by (simp add: indices_def)

lemma indices_snocD: "indices (p @ [i]) \<Longrightarrow> indices p \<and> unat i < 512"
  by (cases p) (auto simp: indices_def)

lemma indices_appendD: "indices (p @ q) \<Longrightarrow> indices p"
  by (cases p) (auto simp: indices_def)

lemma indices_snoc: "indices p \<Longrightarrow> p \<noteq> [] \<Longrightarrow> unat i < 512 \<Longrightarrow> indices (p @ [i])"
  by (cases p) (auto simp: indices_def)

lemma indices_butlast: "indices q \<Longrightarrow> indices (butlast q)"
  by (cases q rule: rev_cases) (auto dest: indices_appendD)

lemma leaf_snoc:
  "leaf W H r (b @ [j]) =
     (case walk W H r b of None \<Rightarrow> None
      | Some t \<Rightarrow> if bit (W (entry_addr t j)) 0 \<and> (length b = 3 \<or> bit (W (entry_addr t j)) 7) then Some (W (entry_addr t j)) else None)"
  by (cases "walk W H r b") (simp_all add: leaf_def Let_def)

lemma unat_entry_addr:
  assumes "hhdm_ok h" "hpage h t" "unat i < 512"
  shows "unat (entry_addr t i) = unat t + 8 * unat i"
proof -
  have 8: "unat (8 * i) = 8 * unat i" using assms(3) by (simp add: unat_word_ariths)
  have "unat t + 8 * unat i < 2 ^ 64" using assms by (auto simp: hpage_def hhdm_ok_def)
  then show ?thesis by (simp add: entry_addr_def unat_add_no_wrap 8)
qed

lemma page_offset_unique:
  assumes "(4096::nat) dvd t" "4096 dvd t'" "t \<le> a" "a < t + 4096" "t' \<le> a" "a < t' + 4096" shows "t = t'"
proof -
  obtain m n where "t = 4096 * m" "t' = 4096 * n" using assms(1,2) by (auto simp: dvd_def)
  then show ?thesis using assms(3-6) by simp
qed

lemma entry_addr_inj:
  assumes "hhdm_ok h" "hpage h t" "hpage h t'" "unat i < 512" "unat i' < 512" "entry_addr t i = entry_addr t' i'"
  shows "t = t' \<and> i = i'"
proof -
  have e: "unat t + 8 * unat i = unat t' + 8 * unat i'"
    using assms unat_entry_addr by metis
  then have "unat t = unat t'"
    by (intro page_offset_unique [where a = "unat t + 8 * unat i"]) (use assms e in \<open>auto simp: hpage_def\<close>)
  then show ?thesis using e by (simp add: word_unat_eq_iff)
qed

lemma entry_outside_page:
  assumes "hhdm_ok h" "hpage h t" "hpage h v" "t \<noteq> v" "unat i < 512"
  shows "\<not> unat (entry_addr t i - v) < 4096"
proof
  assume a: "unat (entry_addr t i - v) < 4096"
  define e where "e = entry_addr t i"
  have ue: "unat e = unat t + 8 * unat i" using unat_entry_addr [OF assms(1,2,5)] by (simp add: e_def)
  have "unat v \<le> unat e"
  proof (rule ccontr)
    assume "\<not> unat v \<le> unat e"
    then have "unat (e - v) = unat e + 2 ^ 64 - unat v" by (simp add: unat_sub_if' word_le_nat_alt)
    moreover have "unat v < 2 ^ 64 - 4096" using assms(1,3) by (auto simp: hpage_def hhdm_ok_def)
    ultimately show False using a by (simp add: e_def)
  qed
  then have "unat (e - v) = unat e - unat v" by (simp add: unat_sub_if' word_le_nat_alt)
  then have "unat t = unat v" using a ue assms \<open>unat v \<le> unat e\<close>
    by (intro page_offset_unique [where a = "unat e"]) (auto simp: hpage_def e_def)
  then show False using assms(4) by (simp add: word_unat_eq_iff)
qed

text \<open>Storing into a slot that is no link, before or after, changes no walk.\<close>

lemma walk_leaf_write:
  assumes ok: "tree_ok W h r" "hhdm_ok h" and p: "length p \<le> 3" "indices p" "walk W (hhdm h) r p = Some t" and i: "unat i < 512"
    and W': "W' = W(entry_addr t i := v)"
    and nolink: "length p = 3 \<or> next_table W (hhdm h) t i = None \<and> next_table W' (hhdm h) t i = None"
  shows "length q \<le> 3 \<Longrightarrow> indices q \<Longrightarrow> walk W' (hhdm h) r q = walk W (hhdm h) r q"
proof (induction q rule: rev_induct)
  case (snoc j q)
  then have IH: "walk W' (hhdm h) r q = walk W (hhdm h) r q" using indices_snocD [of q j] by simp
  show ?case
  proof (cases "walk W (hhdm h) r q")
    case None
    then show ?thesis using IH by (simp add: walk_append)
  next
    case (Some s)
    have q: "length q \<le> 3" "indices q" "unat j < 512" using snoc.prems indices_snocD [of q j] by auto
    have hs: "hpage h s" "hpage h t" using tree_hpage [OF ok(1) q(1,2) Some] tree_hpage [OF ok(1) p] by blast+
    have "next_table W' (hhdm h) s j = next_table W (hhdm h) s j"
    proof (cases "s = t \<and> j = i")
      case True
      then have "q = p" using tree_path_unique [OF ok(1) q(1,2) Some p(1,2)] p(3) by blast
      then show ?thesis using snoc.prems nolink True by auto
    next
      case False
      then have "entry_addr s j \<noteq> entry_addr t i"
        using entry_addr_inj [OF ok(2) hs q(3) i] by blast
      then show ?thesis by (simp add: next_table_def W')
    qed
    then show ?thesis using IH Some by (simp add: walk_append)
  qed
qed simp

lemma tree_leaf_write:
  assumes "tree_ok W h r" "hhdm_ok h" "length p \<le> 3" "indices p" "walk W (hhdm h) r p = Some t" "unat i < 512"
    "W' = W(entry_addr t i := v)"
    "length p = 3 \<or> next_table W (hhdm h) t i = None \<and> next_table W' (hhdm h) t i = None"
  shows "tree_ok W' h r"
  unfolding tree_ok_def using walk_leaf_write [OF assms] assms(1) unfolding tree_ok_def by metis

lemma leaf_leaf_write:
  assumes ok: "tree_ok W h r" "hhdm_ok h" "length p \<le> 3" "indices p" "walk W (hhdm h) r p = Some t" "unat i < 512"
    "W' = W(entry_addr t i := v)"
    "length p = 3 \<or> next_table W (hhdm h) t i = None \<and> next_table W' (hhdm h) t i = None"
    and q: "length q \<le> 4" "indices q" "q \<noteq> []"
  shows "leaf W' (hhdm h) r q =
    (if q = p @ [i] then if bit v 0 \<and> (length p = 3 \<or> bit v 7) then Some v else None else leaf W (hhdm h) r q)"
proof -
  obtain b j where bj: "q = b @ [j]" using q(3) by (metis rev_exhaust)
  have b: "length b \<le> 3" "indices b" "unat j < 512" using q bj indices_snocD [of b j] by auto
  have wb: "walk W' (hhdm h) r b = walk W (hhdm h) r b" using walk_leaf_write [OF ok] b by blast
  show ?thesis
  proof (cases "walk W (hhdm h) r b")
    case None
    then have "b \<noteq> p" using ok(5) by auto
    then show ?thesis using None wb bj by (simp add: leaf_def)
  next
    case (Some s)
    have hs: "hpage h s" "hpage h t" using tree_hpage [OF ok(1) b(1,2) Some] tree_hpage [OF ok(1,3-5)] by blast+
    show ?thesis
    proof (cases "s = t \<and> j = i")
      case True
      then have "b = p" using tree_path_unique [OF ok(1) b(1,2) Some ok(3,4)] ok(5) by blast
      then show ?thesis using Some wb bj True ok(7) by (auto simp: leaf_def Let_def)
    next
      case False
      then have ne: "entry_addr s j \<noteq> entry_addr t i" and "\<not> (b = p \<and> j = i)"
        using entry_addr_inj [OF ok(2) hs b(3) ok(6)] Some ok(5) by auto
      then have "q \<noteq> p @ [i]" using bj by simp
      moreover have "W' (entry_addr s j) = W (entry_addr s j)" using ne ok(7) by simp
      then have "leaf W' (hhdm h) r q = leaf W (hhdm h) r q" using Some wb bj by (simp add: leaf_def)
      ultimately show ?thesis by presburger
    qed
  qed
qed

text \<open>Linking a fresh, zeroed table into a slot that was no link.\<close>

lemma zero_table_next: "W (entry_addr T i) = 0 \<Longrightarrow> next_table W H T i = None"
  by (simp add: next_table_def)

lemma walk_link:
  assumes ok: "tree_ok W h r" "hhdm_ok h" and p: "length p \<le> 2" "indices p" "walk W (hhdm h) r p = Some t" and i: "unat i < 512"
    and nolink: "next_table W (hhdm h) t i = None"
    and T: "hpage h T" "\<And>q s. length q \<le> 3 \<Longrightarrow> indices q \<Longrightarrow> walk W (hhdm h) r q = Some s \<Longrightarrow> s \<noteq> T"
    and zero: "\<And>j. unat j < 512 \<Longrightarrow> W' (entry_addr T j) = 0"
    and link: "next_table W' (hhdm h) t i = Some T"
    and same: "\<And>a. \<not> unat (a - T) < 4096 \<Longrightarrow> a \<noteq> entry_addr t i \<Longrightarrow> W' a = W a"
  shows "length q \<le> 3 \<Longrightarrow> indices q \<Longrightarrow>
    walk W' (hhdm h) r q = (if q = p @ [i] then Some T else walk W (hhdm h) r q)"
proof (induction q rule: rev_induct)
  case (snoc j q)
  then have q: "length q \<le> 3" "length q \<le> 2" "indices q" "unat j < 512" using indices_snocD [of q j] by auto
  have IH: "walk W' (hhdm h) r q = (if q = p @ [i] then Some T else walk W (hhdm h) r q)" using snoc.IH q by simp
  have pi: "walk W (hhdm h) r (p @ [i]) = None" using p nolink by (simp add: walk_append)
  have p3: "length p \<le> 3" using p(1) by simp
  show ?case
  proof (cases "q = p @ [i]")
    case True
    then have "walk W' (hhdm h) r q = Some T" using IH by simp
    then have "walk W' (hhdm h) r (q @ [j]) = None"
      using zero_table_next [of W' T j, OF zero [OF q(4)]] by (subst walk_append) simp
    moreover have "walk W (hhdm h) r (q @ [j]) = None" using pi True by (subst walk_append) simp
    ultimately show ?thesis using True by simp
  next
    case False
    then have IH': "walk W' (hhdm h) r q = walk W (hhdm h) r q" using IH by simp
    show ?thesis
    proof (cases "walk W (hhdm h) r q")
      case None
      then have "q \<noteq> p" using p(3) by auto
      then show ?thesis using None IH' by (simp add: walk_append)
    next
      case (Some s)
      have hs: "hpage h s" "hpage h t" using tree_hpage [OF ok(1) q(1,3) Some] tree_hpage [OF ok(1) p3 p(2,3)] by blast+
      show ?thesis
      proof (cases "s = t \<and> j = i")
        case True
        then have "q = p" using tree_path_unique [OF ok(1) q(1,3) Some p3 p(2)] p(3) by blast
        then show ?thesis using IH' Some True link by (simp add: walk_append)
      next
        case F: False
        then have "entry_addr s j \<noteq> entry_addr t i" using entry_addr_inj [OF ok(2) hs q(4) i] by blast
        moreover have "\<not> unat (entry_addr s j - T) < 4096"
          using entry_outside_page [OF ok(2) hs(1) T(1) _ q(4)] T(2) [OF q(1,3) Some] by blast
        ultimately have "W' (entry_addr s j) = W (entry_addr s j)" using same by blast
        then have "walk W' (hhdm h) r (q @ [j]) = walk W (hhdm h) r (q @ [j])" using IH' Some by (simp add: walk_append next_table_def)
        moreover have "q @ [j] \<noteq> p @ [i]" using F Some p(3) by auto
        ultimately show ?thesis by presburger
      qed
    qed
  qed
qed simp

lemma tree_link:
  assumes "tree_ok W h r" "hhdm_ok h" "length p \<le> 2" "indices p" "walk W (hhdm h) r p = Some t" "unat i < 512"
    "next_table W (hhdm h) t i = None"
    "hpage h T" "\<And>q s. length q \<le> 3 \<Longrightarrow> indices q \<Longrightarrow> walk W (hhdm h) r q = Some s \<Longrightarrow> s \<noteq> T"
    "\<And>j. unat j < 512 \<Longrightarrow> W' (entry_addr T j) = 0" "next_table W' (hhdm h) t i = Some T"
    "\<And>a. \<not> unat (a - T) < 4096 \<Longrightarrow> a \<noteq> entry_addr t i \<Longrightarrow> W' a = W a"
  shows "tree_ok W' h r"
proof -
  have w: "walk W' (hhdm h) r q = (if q = p @ [i] then Some T else walk W (hhdm h) r q)" if "length q \<le> 3" "indices q" for q
    by (rule walk_link [where T = T and p = p and t = t]) (use assms that in auto)
  show ?thesis
    unfolding tree_ok_def
  proof (intro conjI allI impI)
    fix q q' s assume a: "length q \<le> 3" "length q' \<le> 3" "indices q" "indices q'" "walk W' (hhdm h) r q = Some s" "walk W' (hhdm h) r q' = Some s"
    then show "q = q'"
      using w [of q] w [of q'] assms(9) [of q s] assms(9) [of q' s] tree_path_unique [OF assms(1), of q s q'] by (auto split: if_splits)
  next
    fix q s assume "length q \<le> 3" "indices q" "walk W' (hhdm h) r q = Some s"
    then show "hpage h s" using w [of q] assms(8) tree_hpage [OF assms(1)] by (auto split: if_splits)
  qed
qed

lemma leaf_link:
  assumes ok: "tree_ok W h r" "hhdm_ok h" "length p \<le> 2" "indices p" "walk W (hhdm h) r p = Some t" "unat i < 512"
    "next_table W (hhdm h) t i = None"
    "hpage h T" "\<And>q s. length q \<le> 3 \<Longrightarrow> indices q \<Longrightarrow> walk W (hhdm h) r q = Some s \<Longrightarrow> s \<noteq> T"
    "\<And>j. unat j < 512 \<Longrightarrow> W' (entry_addr T j) = 0" "next_table W' (hhdm h) t i = Some T"
    "\<And>a. \<not> unat (a - T) < 4096 \<Longrightarrow> a \<noteq> entry_addr t i \<Longrightarrow> W' a = W a"
    and np: "\<not> bit (W (entry_addr t i)) 0"
    and q: "length q \<le> 4" "indices q" "q \<noteq> []"
  shows "leaf W' (hhdm h) r q = leaf W (hhdm h) r q"
proof -
  obtain b j where bj: "q = b @ [j]" using q(3) by (metis rev_exhaust)
  have b: "length b \<le> 3" "indices b" "unat j < 512" using q bj indices_snocD [of b j] by auto
  have wb: "walk W' (hhdm h) r b = (if b = p @ [i] then Some T else walk W (hhdm h) r b)"
    by (rule walk_link [where T = T and p = p and t = t]) (use ok b in auto)
  have p3: "length p \<le> 3" using ok(3) by simp
  show ?thesis
  proof (cases "b = p @ [i]")
    case True
    then have "walk W (hhdm h) r b = None" using ok(5,7) by (simp add: walk_append)
    moreover have "walk W' (hhdm h) r b = Some T" using True wb by simp
    ultimately show ?thesis using ok(10) [OF b(3)] unfolding bj leaf_snoc by simp
  next
    case False
    then have wb': "walk W' (hhdm h) r b = walk W (hhdm h) r b" using wb by simp
    show ?thesis
    proof (cases "walk W (hhdm h) r b")
      case None
      then show ?thesis using wb' bj by (simp add: leaf_def)
    next
      case (Some s)
      have hs: "hpage h s" "hpage h t" using tree_hpage [OF ok(1) b(1,2) Some] tree_hpage [OF ok(1) p3 ok(4,5)] by blast+
      show ?thesis
      proof (cases "s = t \<and> j = i")
        case True
        then have "b = p" using tree_path_unique [OF ok(1) b(1,2) Some p3 ok(4)] ok(5) by blast
        then have "length q \<noteq> 4" using bj ok(3) by simp
        moreover have "\<not> bit (W' (entry_addr t i)) 7" using ok(11) by (auto simp: next_table_def Let_def split: if_splits)
        ultimately show ?thesis using np Some wb' bj True by (simp add: leaf_def Let_def)
      next
        case F: False
        then have "entry_addr s j \<noteq> entry_addr t i" using entry_addr_inj [OF ok(2) hs b(3) ok(6)] by blast
        moreover have "\<not> unat (entry_addr s j - T) < 4096"
          using entry_outside_page [OF ok(2) hs(1) ok(8) _ b(3)] ok(9) [OF b(1,2) Some] by blast
        ultimately have "W' (entry_addr s j) = W (entry_addr s j)" using ok(12) by blast
        then show ?thesis using Some wb' bj by (simp add: leaf_def)
      qed
    qed
  qed
qed

section \<open>The invariant of a page map\<close>

text \<open>Present entries of the user half above the last level link to a table or map a large page.\<close>

definition links_ok :: "(u64 \<Rightarrow> u64) \<Rightarrow> u64 \<Rightarrow> u64 \<Rightarrow> bool" where
  "links_ok W H r \<longleftrightarrow>
     (\<forall>p t i. length p \<le> 2 \<longrightarrow> indices (p @ [i]) \<longrightarrow> walk W H r p = Some t \<longrightarrow>
        bit (W (entry_addr t i)) 0 \<longrightarrow> \<not> bit (W (entry_addr t i)) 7 \<longrightarrow> is_canonical (entry_getaddr (W (entry_addr t i))))"

text \<open>
  The root and the tables below its lower half are pages taken from the physical memory manager,
  each reached along one path. The upper half of the root may hold anything.
\<close>

definition pt_inv :: "vm \<Rightarrow> u64 \<Rightarrow> (u64 \<rightharpoonup> u64) \<Rightarrow> bool" where
  "pt_inv st root live \<longleftrightarrow>
     pmm_live (pm st) live \<and> hhdm_ok (heap (pm st)) \<and> tree_ok (words st) (heap (pm st)) (tohh (hh st) root) \<and>
     links_ok (words st) (hh st) (tohh (hh st) root) \<and>
     (\<forall>p t. length p \<le> 3 \<longrightarrow> indices p \<longrightarrow> walk (words st) (hh st) (tohh (hh st) root) p = Some t \<longrightarrow>
        live (fromhh (hh st) t) = Some 1)"

abbreviation walk_st :: "vm \<Rightarrow> u64 \<Rightarrow> u64 list \<Rightarrow> u64 option" where
  "walk_st st root \<equiv> walk (words st) (hh st) (tohh (hh st) root)"

abbreviation leaf_st :: "vm \<Rightarrow> u64 \<Rightarrow> u64 list \<Rightarrow> u64 option" where
  "leaf_st st root \<equiv> leaf (words st) (hh st) (tohh (hh st) root)"

abbreviation oom :: panic where "oom \<equiv> Panic_msg ''pmm: could not allocate''"

lemma pt_invD:
  assumes "pt_inv st root live"
  shows "pmm_live (pm st) live" "hhdm_ok (heap (pm st))" "tree_ok (words st) (heap (pm st)) (tohh (hh st) root)"
    "length p \<le> 3 \<Longrightarrow> indices p \<Longrightarrow> walk_st st root p = Some t \<Longrightarrow> live (fromhh (hh st) t) = Some 1"
    "length p \<le> 3 \<Longrightarrow> indices p \<Longrightarrow> walk_st st root p = Some t \<Longrightarrow> hpage (heap (pm st)) t"
    "links_ok (words st) (hh st) (tohh (hh st) root)"
  using assms tree_hpage unfolding pt_inv_def by blast+

lemma tree_ok_cong: "hhdm h' = hhdm h \<Longrightarrow> tree_ok W h' r = tree_ok W h r"
  by (simp add: tree_ok_def hpage_def)

lemma alloc_new_page:
  assumes live: "pmm_live p live"
  shows "alloc p 1 clear tp = Some (Inl oom) \<or>
    (\<exists>p' v. alloc p 1 clear tp = Some (Inr (p', fromhh (hhdm (heap p)) v)) \<and> hhdm (heap p') = hhdm (heap p) \<and>
      hhdm_ok (heap p) \<and> hpage (heap p) v \<and> live (fromhh (hhdm (heap p)) v) = None \<and>
      pmm_live p' (live(fromhh (hhdm (heap p)) v \<mapsto> 1)))"
proof -
  obtain FL AL where L: "live_ok p live FL AL" using live by (auto simp: pmm_live_def)
  have i: "pmm_inv p FL AL" "initialised p" "bootstrap_memmap_idx p = - 1" using L by (auto simp: live_ok_def)
  show ?thesis
  proof (cases "alloc p 1 clear tp = Some (Inl oom)")
    case False
    then obtain p' x where al: "alloc p 1 clear tp = Some (Inr (p', x))" using alloc_ok [OF i, of 1 clear tp] by auto
    from live_ok_alloc [OF L _ _ al] obtain FL' AL' v k z where
      r: "live_ok p' (live(x \<mapsto> 1)) FL' AL'" "x = fromhh (hhdm (heap p)) v" "brange (v, k) \<subseteq> free_region FL" "(v, k) \<in> AL' z"
        "pmm_inv p' FL' AL'" "hhdm (heap p') = hhdm (heap p)" by auto
    have hp: "hhdm_ok (heap p)" "hpage (heap p) v" using AL_page(1,2) [OF r(5,4)] heap_congs [OF r(6)] by auto
    have "live x = None" using live_ok_new [OF L r(3,2) hp(2)] .
    then show ?thesis using al r hp by (auto simp: pmm_live_def)
  qed simp
qed

text \<open>
  Room for \<open>n\<close> more pages: bytes that are free, above the first megabyte, and below 4 GiB when
  page tables have to be (\<open>pagemap_use_lowmem\<close>). An allocation of normal memory falls back to
  the memory below 4 GiB, so that all of them count.
\<close>

definition page_source :: "vm \<Rightarrow> nat set" where
  "page_source st =
     (if pagemap_use_lowmem st then {unat (hh st) + unat (mib 1) ..< unat (hh st) + unat (gib 4)}
      else {unat (hh st) + unat (mib 1)..})"

definition vroom :: "vm \<Rightarrow> (u64 \<rightharpoonup> u64) \<Rightarrow> nat \<Rightarrow> bool" where
  "vroom st live n \<longleftrightarrow>
     n = 0 \<or> (\<exists>FL AL. live_ok (pm st) live FL AL \<and> n * 4096 \<le> card (free_region FL \<inter> page_source st))"

lemma live_ok_page:
  assumes L: "live_ok p live FL AL" and p': "pmm_inv p' FL' AL'" "initialised p'" "bootstrap_memmap_idx p' = - 1"
    "hhdm (heap p') = hhdm (heap p)" "AL' = AL(z := insert (x, 0) (AL z))"
  shows "live_ok p' (live(fromhh (hhdm (heap p)) x \<mapsto> 1)) FL' AL'"
  unfolding live_ok_def
proof (intro conjI allI impI)
  let ?x = "fromhh (hhdm (heap p)) x"
  fix y m assume y: "(live(?x \<mapsto> 1)) y = Some m"
  show "\<exists>z v k. (v, k) \<in> AL' z \<and> y = fromhh (hhdm (heap p')) v \<and> unat m \<le> 2 ^ k \<and> 2 ^ k < 2 * unat m"
  proof (cases "y = ?x")
    case True
    then show ?thesis using y p'(4,5) by (intro exI [of _ z] exI [of _ x] exI [of _ 0]) simp
  next
    case False
    then have "live y = Some m" using y by simp
    from live_okD [OF L this] obtain z' v k where "(v, k) \<in> AL z'" "y = fromhh (hhdm (heap p)) v" "unat m \<le> 2 ^ k" "2 ^ k < 2 * unat m" by metis
    then show ?thesis using p'(4,5) by (intro exI [of _ z'] exI [of _ v] exI [of _ k]) auto
  qed
qed (use p' in auto)

text \<open>Tables come from \<open>table_zone\<close>, the pages of objects from normal memory.\<close>

abbreviation table_zone :: "vm \<Rightarrow> zone" where
  "table_zone st \<equiv> if pagemap_use_lowmem st then Sub4gib else Normal"

lemma room_alloc:
  assumes room: "vroom st live (Suc n)" and tp: "tp = Normal \<or> tp = table_zone st"
  shows "\<exists>p' x. alloc (pm st) 1 clear tp = Some (Inr (p', x)) \<and>
    (\<forall>st'. pm st' = p' \<longrightarrow> pagemap_use_lowmem st' = pagemap_use_lowmem st \<longrightarrow> vroom st' (live(x \<mapsto> 1)) n)"
proof -
  let ?p = "pm st" and ?U = "page_source st"
  obtain FL AL where L: "live_ok ?p live FL AL" and c: "Suc n * 4096 \<le> card (free_region FL \<inter> ?U)" (is "_ \<le> card (?A \<inter> ?U)")
    using room by (auto simp: vroom_def)
  have i: "pmm_inv ?p FL AL" "initialised ?p" "bootstrap_memmap_idx ?p = - 1" using L by (auto simp: live_ok_def)
  have "?A \<inter> ?U \<noteq> {}" using c by auto
  then obtain v where v: "v \<in> ?A" "v \<in> ?U" by blast
  have "\<exists>z. served_by tp z \<and> v \<in> region (free_blocks (FL z))"
    using free_byte_zone [OF i(1) v(1)] v(2) tp by (auto simp: served_by_def page_source_def split: if_splits)
  then obtain z where z: "served_by tp z" "v \<in> region (free_blocks (FL z))" by blast
  from alloc_page_from [OF i z] obtain p' x FL' AL' y where
    r: "alloc ?p 1 clear tp = Some (Inr (p', fromhh (hh st) x))" "pmm_inv p' FL' AL'"
      "free_region FL' = ?A - brange (x, 0)" "AL' = AL(y := insert (x, 0) (AL y))"
      "initialised p'" "bootstrap_memmap_idx p' = - 1" "hhdm (heap p') = hh st" by blast
  have L': "live_ok p' (live(fromhh (hh st) x \<mapsto> 1)) FL' AL'" by (rule live_ok_page [OF L r(2,5,6,7,4)])
  have n: "n * 4096 \<le> card (free_region FL' \<inter> ?U)"
  proof -
    have "card (?A \<inter> ?U) - card (brange (x, 0)) \<le> card (?A \<inter> ?U - brange (x, 0))"
      by (rule diff_card_le_card_Diff) (simp add: brange_def)
    moreover have "?A \<inter> ?U - brange (x, 0) = free_region FL' \<inter> ?U" using r(3) by auto
    moreover have "card (brange (x, 0)) = 4096" by (simp add: brange_def bsize_def)
    ultimately show ?thesis using c by simp
  qed
  have "vroom st' (live(fromhh (hh st) x \<mapsto> 1)) n" if "pm st' = p'" "pagemap_use_lowmem st' = pagemap_use_lowmem st" for st'
  proof -
    have "page_source st' = ?U" using that r(7) by (simp add: page_source_def)
    then show ?thesis unfolding vroom_def that(1) using L' n by auto
  qed
  then show ?thesis using r(1) by blast
qed

lemma vroom_le: "vroom st live n \<Longrightarrow> m \<le> n \<Longrightarrow> vroom st live m"
  by (fastforce simp: vroom_def intro: order_trans [OF mult_le_mono1])

lemma vroom_cong: "pm st' = pm st \<Longrightarrow> pagemap_use_lowmem st' = pagemap_use_lowmem st \<Longrightarrow> vroom st' live n = vroom st live n"
  by (simp add: vroom_def page_source_def)

lemma page_alloc_room:
  assumes "vroom st live (Suc n)" "tp = Normal \<or> tp = table_zone st"
  shows "\<exists>st' x. pmm_alloc st 1 True tp = retR (st', x) \<and> vroom st' (live(x \<mapsto> 1)) n"
proof -
  from room_alloc [OF assms, of True] obtain p' x where
    "alloc (pm st) 1 True tp = Some (Inr (p', x))"
    "\<And>st'. pm st' = p' \<Longrightarrow> pagemap_use_lowmem st' = pagemap_use_lowmem st \<Longrightarrow> vroom st' (live(x \<mapsto> 1)) n" by blast
  then show ?thesis by (simp add: pmm_alloc_def Let_def)
qed

lemma live_nonzero:
  assumes "pmm_live p live" "live x = Some n" shows "x \<noteq> 0"
proof
  assume z: "x = 0"
  obtain FL AL where L: "live_ok p live FL AL" using assms(1) by (auto simp: pmm_live_def)
  from live_okD [OF L assms(2)] obtain zn w k where w: "(w, k) \<in> AL zn" "x = fromhh (hhdm (heap p)) w" by metis
  have inv: "pmm_inv p FL AL" using L by (simp add: live_ok_def)
  note P = AL_page [OF inv w(1)]
  have "0 < unat (astart (zone_of p zn))" using inv zone_page_bounds(3) [of p zn] by (auto simp: pmm_inv_def)
  then have "0 < unat (fromhh (hhdm (heap p)) w)" using hpage_fromhh [OF P(2)] P(3) by (simp add: block_ok_def)
  then show False using w(2) z by simp
qed

lemma page_alloc_ok:
  assumes "pmm_live (pm st) live" and tp: "tp = Normal \<or> tp = table_zone st"
  shows "pmm_alloc st 1 True tp = failR oom \<and> \<not> vroom st live 1 \<or>
    (\<exists>st' v. pmm_alloc st 1 True tp = retR (st', fromhh (hh st) v) \<and> (\<forall>n. vroom st live (Suc n) \<longrightarrow> vroom st' (live(fromhh (hh st) v \<mapsto> 1)) n) \<and>
      fromhh (hh st) v \<noteq> 0 \<and> pagemap_use_lowmem st' = pagemap_use_lowmem st \<and> hh st' = hh st \<and> hhdm_ok (heap (pm st)) \<and> hpage (heap (pm st)) v \<and>
      live (fromhh (hh st) v) = None \<and> pmm_live (pm st') (live(fromhh (hh st) v \<mapsto> 1)) \<and>
      words st' = (\<lambda>a. if unat (a - v) < 4096 then 0 else words st a) \<and> large_pages st' = large_pages st \<and>
      invalidated st' = invalidated st)"
proof -
  from alloc_new_page [OF assms(1), of True tp] consider "alloc (pm st) 1 True tp = Some (Inl oom)"
    | p' v where "alloc (pm st) 1 True tp = Some (Inr (p', fromhh (hh st) v))" "hhdm (heap p') = hh st" "hhdm_ok (heap (pm st))"
      "hpage (heap (pm st)) v" "live (fromhh (hh st) v) = None" "pmm_live p' (live(fromhh (hh st) v \<mapsto> 1))" by blast
  then show ?thesis
  proof cases
    case 1
    then have f: "pmm_alloc st 1 True tp = failR oom" by (simp add: pmm_alloc_def)
    then show ?thesis using page_alloc_room [of st live 0, OF _ tp] by auto
  next
    case 2
    obtain FL AL where L: "live_ok p' (live(fromhh (hh st) v \<mapsto> 1)) FL AL" using 2(6) by (auto simp: pmm_live_def)
    have nz: "fromhh (hh st) v \<noteq> 0" using live_nonzero [OF 2(6)] by simp
    then obtain st' where nt: "pmm_alloc st 1 True tp = retR (st', fromhh (hh st) v)" "hh st' = hh st" "pm st' = p'"
      "words st' = (\<lambda>a. if unat (a - v) < 4096 then 0 else words st a)" "large_pages st' = large_pages st" "invalidated st' = invalidated st"
      "pagemap_use_lowmem st' = pagemap_use_lowmem st"
      using 2 tohh_fromhh_page [OF 2(3,4)] by (auto simp: pmm_alloc_def Let_def)
    moreover have "vroom st' (live(fromhh (hh st) v \<mapsto> 1)) n" if "vroom st live (Suc n)" for n
      using page_alloc_room [OF that tp] nt(1) by auto
    ultimately show ?thesis using 2 nz by (intro disjI2 exI [of _ st'] exI [of _ v]) simp
  qed
qed

lemma new_table_ok:
  assumes "pmm_live (pm st) live"
  shows "new_table st = failR oom \<and> \<not> vroom st live 1 \<or>
    (\<exists>st' v. new_table st = retR (st', fromhh (hh st) v) \<and> (\<forall>n. vroom st live (Suc n) \<longrightarrow> vroom st' (live(fromhh (hh st) v \<mapsto> 1)) n) \<and>
      fromhh (hh st) v \<noteq> 0 \<and> pagemap_use_lowmem st' = pagemap_use_lowmem st \<and> hh st' = hh st \<and> hhdm_ok (heap (pm st)) \<and> hpage (heap (pm st)) v \<and>
      live (fromhh (hh st) v) = None \<and> pmm_live (pm st') (live(fromhh (hh st) v \<mapsto> 1)) \<and>
      words st' = (\<lambda>a. if unat (a - v) < 4096 then 0 else words st a) \<and> large_pages st' = large_pages st \<and>
      invalidated st' = invalidated st)"
  unfolding new_table_def by (rule page_alloc_ok [OF assms]) simp

lemma pa_mask_id:
  assumes "4096 dvd unat x" "unat x < 2 ^ 52" shows "x AND pa_mask = x"
proof -
  have lo: "\<not> bit x n" if "n < 12" for n
  proof -
    obtain m where "unat x = 2 ^ 12 * m" using assms(1) by (auto simp: dvd_def)
    then have "unat x = push_bit 12 m" by (simp add: push_bit_eq_mult mult.commute)
    then have "\<not> bit (unat x) n" using that by (simp add: bit_push_bit_iff)
    then show ?thesis by (simp add: bit_unsigned_iff)
  qed
  have hi: "\<not> bit x n" if "52 \<le> n" for n
  proof -
    have "(2::nat) ^ 52 \<le> 2 ^ n" using that by (intro power_increasing) auto
    then have "unat x div 2 ^ n = 0" using assms(2) by simp
    then have "\<not> bit (unat x) n" by (simp add: bit_iff_odd)
    then show ?thesis by (simp add: bit_unsigned_iff)
  qed
  show ?thesis
  proof (rule bit_eqI)
    fix n show "bit (x AND pa_mask) n = bit x n"
      unfolding bit_and_iff bit_pa_mask using lo [of n] hi [of n] by fastforce
  qed
qed

lemma phys_page:
  assumes "hhdm_ok h" "hpage h v"
  shows "fromhh (hhdm h) v AND pa_mask = fromhh (hhdm h) v" "is_canonical (fromhh (hhdm h) v)"
proof -
  let ?x = "fromhh (hhdm h) v"
  have u: "unat ?x < 2 ^ 46" "4096 dvd unat ?x"
    using hpage_fromhh [OF assms(2)] assms by (auto simp: hpage_def hhdm_ok_def intro: dvd_diff_nat)
  then show "is_canonical ?x" by (simp add: is_canonical_def word_less_nat_alt)
  show "?x AND pa_mask = ?x" using u by (intro pa_mask_id) simp_all
qed

lemma new_entry:
  assumes "hhdm_ok h" "hpage h v"
  defines "E \<equiv> entry_setflags (entry_setaddr 0 (fromhh (hhdm h) v)) new_table_flags True"
  shows "bit E 0" "\<not> bit E 7" "entry_getaddr E = fromhh (hhdm h) v"
proof -
  have f: "new_table_flags = 7" by (simp add: new_table_flags_def)
  have "bit (7 :: u64) n \<longleftrightarrow> n < 3" for n using bit_mask_iff [of 3 n, where 'a = u64] by (auto simp: mask_eq_exp_minus_1)
  then have bE: "bit E n \<longleftrightarrow> bit (fromhh (hhdm h) v) n \<and> 12 \<le> n \<and> n < 52 \<or> n < 3" for n
    unfolding E_def f entry_setflags_def entry_setaddr_def by (simp only: if_True bit_or_iff bit_and_iff bit_pa_mask) simp
  show "bit E 0" "\<not> bit E 7" using bE [of 0] bE [of 7] by simp_all
  have "entry_getaddr E = fromhh (hhdm h) v AND pa_mask"
    by (rule bit_eqI) (auto simp: entry_getaddr_def bit_and_iff bit_pa_mask bE)
  then show "entry_getaddr E = fromhh (hhdm h) v" using phys_page(1) [OF assms(1,2)] by simp
qed

fun open_path :: "(u64 \<Rightarrow> u64) \<Rightarrow> u64 \<Rightarrow> u64 \<Rightarrow> u64 list \<Rightarrow> bool" where
  "open_path W H t [] \<longleftrightarrow> True"
| "open_path W H t [i] \<longleftrightarrow> True"
| "open_path W H t (i # j # is) \<longleftrightarrow>
     (bit (W (entry_addr t i)) 0 \<longrightarrow> (case next_table W H t i of None \<Rightarrow> False | Some t' \<Rightarrow> open_path W H t' (j # is)))"

lemma hasflags_valid: "entry_hasflags v valid_table_flags \<longleftrightarrow> bit v 0"
proof -
  have "v AND 1 = 0 \<or> v AND 1 = 1"
  proof -
    have "v AND 1 = of_bool (bit v 0)" by (simp add: and_one_eq odd_iff_mod_2_eq_one bit_0)
    then show ?thesis by simp
  qed
  then show ?thesis using and_flag(1) [of v] by (auto simp: entry_hasflags_def valid_table_flags_def)
qed

text \<open>\<open>getlvl\<close> follows an existing link without changing anything.\<close>

lemma getlvl_follow:
  assumes "next_table (words st) (hh st) t i = Some t'"
  shows "getlvl st (entry_addr t i) b = retR (st, t')"
  using assms by (auto simp: getlvl_def next_table_def hasflags_valid Let_def split: if_splits)

lemma getlvl_absent:
  assumes "\<not> bit (words st (entry_addr t i)) 0"
  shows "getlvl st (entry_addr t i) False = retR (st, 0)"
  using assms by (simp add: getlvl_def hasflags_valid Let_def)

text \<open>The entries of the upper half of the root table.\<close>

definition kernel_kept :: "vm \<Rightarrow> vm \<Rightarrow> u64 \<Rightarrow> bool" where
  "kernel_kept st st' root \<longleftrightarrow>
     (\<forall>i. 256 \<le> unat i \<longrightarrow> unat i < 512 \<longrightarrow>
        words st' (entry_addr (tohh (hh st) root) i) = words st (entry_addr (tohh (hh st) root) i))"

text \<open>What an operation that only adds tables keeps.\<close>

definition extends :: "vm \<Rightarrow> vm \<Rightarrow> u64 \<Rightarrow> bool" where
  "extends st st' root \<longleftrightarrow> hh st' = hh st \<and> large_pages st' = large_pages st \<and> invalidated st' = invalidated st \<and>
     pagemap_use_lowmem st' = pagemap_use_lowmem st \<and> kernel_kept st st' root \<and>
     (\<forall>q t. length q \<le> 3 \<longrightarrow> indices q \<longrightarrow> walk_st st root q = Some t \<longrightarrow> walk_st st' root q = Some t) \<and>
     (\<forall>q. length q \<le> 4 \<longrightarrow> indices q \<longrightarrow> q \<noteq> [] \<longrightarrow> leaf_st st' root q = leaf_st st root q)"

lemma extends_refl: "extends st st root" by (simp add: extends_def kernel_kept_def)

lemma extends_trans: "extends st st' root \<Longrightarrow> extends st' st'' root \<Longrightarrow> extends st st'' root"
  unfolding extends_def kernel_kept_def by auto

lemma hh_set_word [simp]: "pm (set_word st a v) = pm st" "words (set_word st a v) = (words st)(a := v)"
  "large_pages (set_word st a v) = large_pages st" "invalidated (set_word st a v) = invalidated st"
  by (simp_all add: set_word_def)

text \<open>
  The physical pages of the tables, and what an operation that takes at most \<open>k\<close> pages for new
  tables does: it frees nothing, and no page that was in use before becomes a table.
\<close>

definition tables :: "vm \<Rightarrow> u64 \<Rightarrow> u64 set" where
  "tables st root = {fromhh (hh st) t |t q. length q \<le> 3 \<and> indices q \<and> walk_st st root q = Some t}"

definition grows :: "nat \<Rightarrow> u64 \<Rightarrow> vm \<Rightarrow> (u64 \<rightharpoonup> u64) \<Rightarrow> vm \<Rightarrow> (u64 \<rightharpoonup> u64) \<Rightarrow> bool" where
  "grows k root st live st' live' \<longleftrightarrow>
     (\<forall>n. vroom st live (n + k) \<longrightarrow> vroom st' live' n) \<and> live \<subseteq>\<^sub>m live' \<and> tables st' root \<inter> dom live \<subseteq> tables st root"

lemma grows_refl: "grows 0 root st live st live"
  by (simp add: grows_def)

lemma grows_trans:
  assumes "grows k root st live st1 live1" "grows l root st1 live1 st2 live2" shows "grows (k + l) root st live st2 live2"
proof -
  have "dom live \<subseteq> dom live1" using assms(1) map_le_implies_dom_le unfolding grows_def by blast
  moreover have "vroom st2 live2 n" if "vroom st live (n + (k + l))" for n
  proof -
    have "vroom st live ((n + l) + k)" using that by (simp add: add.assoc add.commute [of k l])
    then show ?thesis using assms unfolding grows_def by blast
  qed
  moreover have "tables st2 root \<inter> dom live \<subseteq> tables st root"
    using assms \<open>dom live \<subseteq> dom live1\<close> unfolding grows_def by blast
  ultimately show ?thesis using assms map_le_trans unfolding grows_def by blast
qed

lemma grows_mono: "grows k root st live st' live' \<Longrightarrow> k \<le> l \<Longrightarrow> grows l root st live st' live'"
  unfolding grows_def using vroom_le by (metis add_le_mono order_refl)

lemma getlvl_alloc:
  assumes inv: "pt_inv st root live" and p: "length p \<le> 2" "indices p" "walk_st st root p = Some t" and pi: "indices (p @ [i])"
    and np: "\<not> bit (words st (entry_addr t i)) 0"
  shows "getlvl st (entry_addr t i) True = failR oom \<and> \<not> vroom st live 1 \<or>
    (\<exists>st' live' T. getlvl st (entry_addr t i) True = retR (st', T) \<and> grows 1 root st live st' live' \<and> T \<noteq> 0 \<and> pt_inv st' root live' \<and> extends st st' root \<and>
       walk_st st' root (p @ [i]) = Some T \<and> (\<forall>j. unat j < 512 \<longrightarrow> words st' (entry_addr T j) = 0))"
proof -
  note I = pt_invD [OF inv]
  have i: "unat i < 512" using indices_snocD [OF pi] by blast
  let ?H = "hh st" and ?r = "tohh (hh st) root" and ?h = "heap (pm st)"
  from new_table_ok [OF I(1)] consider "new_table st = failR oom" "\<not> vroom st live 1"
    | s v where "new_table st = retR (s, fromhh ?H v)" "hh s = ?H" "hpage ?h v" "live (fromhh ?H v) = None"
      "pmm_live (pm s) (live(fromhh ?H v \<mapsto> 1))" "words s = (\<lambda>a. if unat (a - v) < 4096 then 0 else words st a)"
      "large_pages s = large_pages st" "invalidated s = invalidated st"
      "\<forall>n. vroom st live (Suc n) \<longrightarrow> vroom s (live(fromhh ?H v \<mapsto> 1)) n" "pagemap_use_lowmem s = pagemap_use_lowmem st" by blast
  then show ?thesis
  proof cases
    case 1
    then show ?thesis using np by (simp add: getlvl_def hasflags_valid Let_def)
  next
    case 2
    define E where "E = entry_setflags (entry_setaddr 0 (fromhh ?H v)) new_table_flags True"
    define st' where "st' = set_word s (entry_addr t i) E"
    note NE = new_entry [OF I(2) 2(3), folded E_def]
    have tv: "tohh ?H (fromhh ?H v) = v" using tohh_fromhh_page [OF I(2) 2(3)] .
    have ret: "getlvl st (entry_addr t i) True = retR (st', v)"
      using np 2(1,2) tv by (simp add: getlvl_def hasflags_valid Let_def st'_def E_def)
    have p3: "length p \<le> 3" using p(1) by simp
    have ht: "hpage ?h t" using I(5) [OF p3 p(2,3)] .
    have fresh: "s' \<noteq> v" if "length q \<le> 3" "indices q" "walk_st st root q = Some s'" for q s'
      using I(4) [OF that] 2(4) by auto
    have tv': "t \<noteq> v" using fresh [OF p3 p(2,3)] .
    have nolink: "next_table (words st) ?H t i = None" using np by (simp add: next_table_def)
    have zero: "words st' (entry_addr v j) = 0" if "unat j < 512" for j
    proof -
      have "entry_addr v j \<noteq> entry_addr t i" using entry_addr_inj [OF I(2) 2(3) ht that i] tv' by blast
      moreover have "unat (entry_addr v j - v) < 4096" using that by (simp add: entry_addr_def unat_word_ariths)
      ultimately show ?thesis using 2(6) by (simp add: st'_def)
    qed
    have link: "next_table (words st') ?H t i = Some v"
      using NE tv phys_page(2) [OF I(2) 2(3)] by (simp add: next_table_def st'_def)
    have same: "words st' a = words st a" if "\<not> unat (a - v) < 4096" "a \<noteq> entry_addr t i" for a
      using that 2(6) by (simp add: st'_def)
    have hh': "hh st' = ?H" using 2(2) by (simp add: st'_def)
    have w: "walk (words st') ?H ?r q = (if q = p @ [i] then Some v else walk (words st) ?H ?r q)" if "length q \<le> 3" "indices q" for q
      by (rule walk_link [OF I(3,2) p i nolink 2(3) fresh zero link same that]) assumption+
    have tree: "tree_ok (words st') ?h ?r"
      by (rule tree_link [OF I(3,2) p i nolink 2(3) fresh zero link same]) assumption+
    have lf: "leaf (words st') ?H ?r q = leaf (words st) ?H ?r q" if "length q \<le> 4" "indices q" "q \<noteq> []" for q
      by (rule leaf_link [OF I(3,2) p i nolink 2(3) fresh zero link same np that]) assumption+
    have pinv: "pt_inv st' root (live(fromhh ?H v \<mapsto> 1))"
      unfolding pt_inv_def hh'
    proof (intro conjI allI impI)
      show "pmm_live (pm st') (live(fromhh ?H v \<mapsto> 1))" using 2(5) by (simp add: st'_def)
      show "hhdm_ok (heap (pm st'))" using I(2) hhdm_ok_cong [OF hh'] by simp
      show "tree_ok (words st') (heap (pm st')) ?r" using tree tree_ok_cong [OF hh'] by simp
      show "links_ok (words st') ?H ?r"
        unfolding links_ok_def
      proof (intro allI impI)
        fix q s' j assume "length q \<le> 2" and qj: "indices (q @ [j])" and "walk (words st') ?H ?r q = Some s'"
          "bit (words st' (entry_addr s' j)) 0" "\<not> bit (words st' (entry_addr s' j)) 7"
        then have a: "length q \<le> 2" "indices q" "walk (words st') ?H ?r q = Some s'" "unat j < 512"
          "bit (words st' (entry_addr s' j)) 0" "\<not> bit (words st' (entry_addr s' j)) 7" using indices_snocD [OF qj] by auto
        have q3: "length q \<le> 3" using a(1) by simp
        show "is_canonical (entry_getaddr (words st' (entry_addr s' j)))"
        proof (cases "q = p @ [i]")
          case True
          then have "s' = v" using w [OF q3 a(2)] a(3) by simp
          then show ?thesis using zero [OF a(4)] a(5) by simp
        next
          case False
          then have ws: "walk_st st root q = Some s'" using w [OF q3 a(2)] a(3) by simp
          have hs: "hpage ?h s'" using I(5) [OF q3 a(2) ws] .
          show ?thesis
          proof (cases "s' = t \<and> j = i")
            case True
            then show ?thesis using NE phys_page(2) [OF I(2) 2(3)] by (simp add: st'_def)
          next
            case F: False
            have "entry_addr s' j \<noteq> entry_addr t i" using entry_addr_inj [OF I(2) hs ht a(4) i] F by blast
            moreover have "\<not> unat (entry_addr s' j - v) < 4096"
              using entry_outside_page [OF I(2) hs 2(3) _ a(4)] fresh [OF q3 a(2) ws] by blast
            ultimately have "words st' (entry_addr s' j) = words st (entry_addr s' j)" using same by blast
            then show ?thesis using I(6) a qj ws unfolding links_ok_def by metis
          qed
        qed
      qed
      fix q s' assume q: "length q \<le> 3" "indices q" "walk (words st') ?H ?r q = Some s'"
      show "(live(fromhh ?H v \<mapsto> 1)) (fromhh ?H s') = Some 1"
        using w [OF q(1,2)] q(3) I(4) [OF q(1,2)] by (auto split: if_splits)
    qed
    have "extends st st' root"
      unfolding extends_def hh'
    proof (intro conjI allI impI)
      show "large_pages st' = large_pages st" "invalidated st' = invalidated st" "pagemap_use_lowmem st' = pagemap_use_lowmem st"
        using 2(7,8,10) by (simp_all add: st'_def set_word_def)
      show "kernel_kept st st' root"
        unfolding kernel_kept_def
      proof (intro allI impI)
        fix j :: u64 assume j: "256 \<le> unat j" "unat j < 512"
        have r: "hpage ?h ?r" "?r \<noteq> v" using I(5) [of "[]" ?r] fresh [of "[]" ?r] by simp_all
        have "\<not> (?r = t \<and> j = i)"
        proof
          assume a: "?r = t \<and> j = i"
          then have "p = []" using tree_path_unique [OF I(3) p3 p(2,3), of "[]"] by simp
          then show False using pi a j by (simp add: indices_def)
        qed
        then have "entry_addr ?r j \<noteq> entry_addr t i" using entry_addr_inj [OF I(2) r(1) ht j(2) i] by blast
        moreover have "\<not> unat (entry_addr ?r j - v) < 4096" using entry_outside_page [OF I(2) r(1) 2(3) r(2) j(2)] .
        ultimately show "words st' (entry_addr ?r j) = words st (entry_addr ?r j)" using same by blast
      qed
      fix q s' assume q: "length q \<le> 3" "indices q" "walk_st st root q = Some s'"
      then have "q \<noteq> p @ [i]" using p(3) nolink by (auto simp: walk_append)
      then show "walk (words st') ?H ?r q = Some s'" using w [OF q(1,2)] q(3) by simp
    qed (use lf in auto)
    moreover have "walk_st st' root (p @ [i]) = Some v" using w [OF _ pi] p(1) unfolding hh' by simp
    moreover have "v \<noteq> 0" using 2(3) I(2) by (auto simp: hpage_def hhdm_ok_def)
    moreover have "grows 1 root st live st' (live(fromhh ?H v \<mapsto> 1))"
      unfolding grows_def
    proof (intro conjI allI impI)
      show "vroom st' (live(fromhh ?H v \<mapsto> 1)) n" if "vroom st live (n + 1)" for n
        using 2(9) that vroom_cong [of st' s] by (simp add: st'_def set_word_def)
      show "live \<subseteq>\<^sub>m live(fromhh ?H v \<mapsto> 1)" using 2(4) by (auto simp: map_le_def)
      show "tables st' root \<inter> dom live \<subseteq> tables st root"
      proof
        fix x assume x: "x \<in> tables st' root \<inter> dom live"
        then obtain q t' where q: "length q \<le> 3" "indices q" "walk (words st') ?H ?r q = Some t'" "x = fromhh ?H t'"
          unfolding tables_def hh' by blast
        have "x \<noteq> fromhh ?H v" using x 2(4) by auto
        then have "walk (words st) ?H ?r q = Some t'" using w [OF q(1,2)] q(3,4) by (auto split: if_splits)
        then show "x \<in> tables st root" unfolding tables_def using q(1,2,4) by blast
      qed
    qed
    ultimately show ?thesis using ret pinv zero by blast
  qed
qed

primrec idxs :: "nat \<Rightarrow> u64 \<Rightarrow> nat \<Rightarrow> u64 list" where
  "idxs 0 vaddr shift = [entry_index vaddr shift]"
| "idxs (Suc k) vaddr shift = entry_index vaddr shift # idxs k vaddr (shift - 9)"

lemma entry_index_less: "unat (entry_index vaddr s) < 512"
proof -
  have "(0x1FF :: u64) = mask 9" by (simp add: mask_eq_exp_minus_1)
  then have "entry_index vaddr s = take_bit 9 (drop_bit s vaddr)" by (simp add: entry_index_def take_bit_eq_mask)
  then show ?thesis by (simp add: unsigned_take_bit_eq take_bit_nat_less_exp [of 9, simplified])
qed

lemma idxs_simps [simp]: "length (idxs k vaddr shift) = Suc k" "idxs k vaddr shift \<noteq> []"
  by (induction k arbitrary: shift) simp_all

lemma idxs_less: "i \<in> set (idxs k vaddr shift) \<Longrightarrow> unat i < 512"
  by (induction k arbitrary: shift) (auto simp: entry_index_less)

lemma idxs_append: "(p @ [entry_index vaddr shift]) @ idxs k vaddr (shift - 9) = p @ idxs (Suc k) vaddr shift" by simp

lemma indices_idxs_Suc:
  assumes "indices (p @ idxs (Suc k) vaddr shift)"
  shows "indices p" "indices (p @ [entry_index vaddr shift])" "indices ((p @ [entry_index vaddr shift]) @ idxs k vaddr (shift - 9))"
  using assms indices_appendD [of "p @ [entry_index vaddr shift]" "idxs k vaddr (shift - 9)"] indices_appendD [of p] unfolding idxs_append by blast+

lemma idxs_Cons: "\<exists>j js. idxs k vaddr shift = j # js"
  by (cases k) auto

lemma getpte_loop_ok:
  assumes "pt_inv st root live" "indices (p @ idxs k vaddr shift)" "walk_st st root p = Some pml" "length p + k \<le> 3"
    "open_path (words st) (hh st) pml (idxs k vaddr shift)"
  shows "getpte_loop k st pml vaddr shift True = failR oom \<and> \<not> vroom st live k \<or>
    (\<exists>st' live' t. getpte_loop k st pml vaddr shift True = retR (st', Inr (entry_addr t (last (idxs k vaddr shift)))) \<and>
       grows k root st live st' live' \<and>
       pt_inv st' root live' \<and> extends st st' root \<and> walk_st st' root (p @ butlast (idxs k vaddr shift)) = Some t)"
  using assms
proof (induction k arbitrary: st live p pml shift)
  case 0
  then show ?case using extends_refl grows_refl [of root st live] by auto
next
  case (Suc k)
  let ?i = "entry_index vaddr shift"
  obtain j js where js: "idxs k vaddr (shift - 9) = j # js" using idxs_Cons by blast
  note ix = indices_idxs_Suc [OF Suc.prems(2)]
  have p2: "length p \<le> 2" using Suc.prems(4) by simp
  have lb: "last (idxs (Suc k) vaddr shift) = last (idxs k vaddr (shift - 9))"
    "butlast (idxs (Suc k) vaddr shift) = ?i # butlast (idxs k vaddr (shift - 9))" by simp_all
  have step: "?case" if g: "getlvl st (entry_addr pml ?i) True = retR (s, T)" "T \<noteq> 0" "pt_inv s root live1" "extends st s root"
      "walk_st s root (p @ [?i]) = Some T" "open_path (words s) (hh s) T (idxs k vaddr (shift - 9))"
      "grows 1 root st live s live1" for s T live1
  proof -
    have eq: "getpte_loop (Suc k) st pml vaddr shift True = getpte_loop k s T vaddr (shift - 9) True" using g(1,2) by simp
    have "length (p @ [?i]) + k \<le> 3" using Suc.prems(4) by simp
    from Suc.IH [OF g(3) ix(3) g(5) this g(6)]
    consider "getpte_loop k s T vaddr (shift - 9) True = failR oom" "\<not> vroom s live1 k"
      | st' live' t where "getpte_loop k s T vaddr (shift - 9) True = retR (st', Inr (entry_addr t (last (idxs k vaddr (shift - 9)))))"
        "grows k root s live1 st' live'" "pt_inv st' root live'" "extends s st' root"
        "walk_st st' root (p @ ?i # butlast (idxs k vaddr (shift - 9))) = Some t"
      by (simp only: append_assoc append_Cons append_Nil) blast
    then show ?thesis
    proof cases
      case 1
      then show ?thesis unfolding eq using g(7) by (auto simp: grows_def)
    next
      case 2
      then show ?thesis unfolding eq lb using extends_trans [OF g(4) 2(4)] grows_trans [OF g(7) 2(2)] by auto
    qed
  qed
  show ?case
  proof (cases "bit (words st (entry_addr pml ?i)) 0")
    case True
    then obtain T where T: "next_table (words st) (hh st) pml ?i = Some T" "open_path (words st) (hh st) T (idxs k vaddr (shift - 9))"
      using Suc.prems(5) js by (auto split: option.splits)
    have w: "walk_st st root (p @ [?i]) = Some T" using Suc.prems(3) T(1) by (simp add: walk_append)
    have "hpage (heap (pm st)) T"
      using pt_invD(5) [OF Suc.prems(1) _ ix(2) w] p2 by simp
    then have "T \<noteq> 0" using pt_invD(2) [OF Suc.prems(1)] by (auto simp: hpage_def hhdm_ok_def)
    then show ?thesis using step [OF getlvl_follow [OF T(1)] _ Suc.prems(1) extends_refl w T(2) grows_mono [OF grows_refl]] by simp
  next
    case False
    from getlvl_alloc [OF Suc.prems(1) p2 ix(1) Suc.prems(3) ix(2) False]
    consider "getlvl st (entry_addr pml ?i) True = failR oom" "\<not> vroom st live 1"
      | s live1 T where "getlvl st (entry_addr pml ?i) True = retR (s, T)" "T \<noteq> 0" "pt_inv s root live1" "extends st s root"
        "walk_st s root (p @ [?i]) = Some T" "\<forall>j. unat j < 512 \<longrightarrow> words s (entry_addr T j) = 0"
        "grows 1 root st live s live1" by blast
    then show ?thesis
    proof cases
      case 1 then show ?thesis using vroom_le [of st live "Suc k" 1] by auto
    next
      case 2
      have "unat j < 512" using idxs_less [of j k vaddr "shift - 9"] unfolding js by simp
      then have "open_path (words s) (hh s) T (idxs k vaddr (shift - 9))"
        unfolding js using 2(6) by (cases js) auto
      then show ?thesis using step [OF 2(1-5) _ 2(7)] by blast
    qed
  qed
qed

lemma getpte_loop_lookup:
  assumes "pt_inv st root live" "indices (p @ idxs k vaddr shift)" "walk_st st root p = Some pml" "length p + k \<le> 3"
    "open_path (words st) (hh st) pml (idxs k vaddr shift)"
  shows "getpte_loop k st pml vaddr shift False =
    retR (st, case walk_st st root (p @ butlast (idxs k vaddr shift)) of None \<Rightarrow> Inl Invalid_entry
              | Some t \<Rightarrow> Inr (entry_addr t (last (idxs k vaddr shift))))"
  using assms
proof (induction k arbitrary: p pml shift)
  case (Suc k)
  let ?i = "entry_index vaddr shift"
  obtain j js where js: "idxs k vaddr (shift - 9) = j # js" using idxs_Cons by blast
  have lb: "last (idxs (Suc k) vaddr shift) = last (idxs k vaddr (shift - 9))"
    "butlast (idxs (Suc k) vaddr shift) = ?i # butlast (idxs k vaddr (shift - 9))" by simp_all
  note ix = indices_idxs_Suc [OF Suc.prems(2)]
  have pi: "length (p @ [?i]) + k \<le> 3" "length (p @ [?i]) \<le> 3" using Suc.prems(4) by simp_all
  show ?case
  proof (cases "bit (words st (entry_addr pml ?i)) 0")
    case True
    then obtain T where T: "next_table (words st) (hh st) pml ?i = Some T" "open_path (words st) (hh st) T (idxs k vaddr (shift - 9))"
      using Suc.prems(5) js by (auto split: option.splits)
    have w: "walk_st st root (p @ [?i]) = Some T" using Suc.prems(3) T(1) by (simp add: walk_append)
    have "hpage (heap (pm st)) T" using pt_invD(5) [OF Suc.prems(1) pi(2) ix(2) w] .
    then have "T \<noteq> 0" using pt_invD(2) [OF Suc.prems(1)] by (auto simp: hpage_def hhdm_ok_def)
    then have "getpte_loop (Suc k) st pml vaddr shift False = getpte_loop k st T vaddr (shift - 9) False"
      using getlvl_follow [OF T(1)] by simp
    then show ?thesis using Suc.IH [OF Suc.prems(1) ix(3) w pi(1) T(2)] unfolding lb by simp
  next
    case False
    then have "next_table (words st) (hh st) pml ?i = None" by (simp add: next_table_def)
    then have "walk_st st root (p @ ?i # butlast (idxs k vaddr (shift - 9))) = None"
      using Suc.prems(3) by (simp add: walk_append)
    then show ?thesis using getlvl_absent [OF False] unfolding lb by simp
  qed
qed simp

section \<open>Paths of addresses\<close>

definition path :: "u64 \<Rightarrow> u64 list" where
  "path va = idxs 3 va 39"

definition page_no :: "u64 \<Rightarrow> u64" where
  "page_no va = take_bit 36 (drop_bit 12 va)"

lemma entry_index_bits: "entry_index va s = take_bit 9 (drop_bit s va)"
proof -
  have "(0x1FF :: u64) = mask 9" by (simp add: mask_eq_exp_minus_1)
  then show ?thesis by (simp add: entry_index_def take_bit_eq_mask)
qed

lemma path_eq: "path va = [entry_index va 39, entry_index va 30, entry_index va 21, entry_index va 12]"
  by (simp add: path_def numeral_3_eq_3)

lemma path_eq_iff: "path x = path y \<longleftrightarrow> page_no x = page_no y"
proof
  assume e: "path x = path y"
  have ix: "bit x n = bit y n" if "entry_index x s = entry_index y s" "s \<le> n" "n < s + 9" "n < 64" for s n
  proof -
    have "bit (entry_index x s) (n - s) = bit (entry_index y s) (n - s)" using that(1) by simp
    moreover have "n - s < 9" using that(2,3) by arith
    ultimately show ?thesis using that(2,4) by (simp add: entry_index_bits bit_take_bit_iff bit_drop_bit_eq)
  qed
  have all: "bit x n = bit y n" if "12 \<le> n" "n < 48" for n
  proof -
    consider "39 \<le> n" | "30 \<le> n" "n < 39" | "21 \<le> n" "n < 30" | "n < 21" using that by linarith
    then show ?thesis using ix [of 39 n] ix [of 30 n] ix [of 21 n] ix [of 12 n] e that by cases (auto simp: path_eq)
  qed
  show "page_no x = page_no y"
    by (rule bit_eqI) (use all in \<open>auto simp: page_no_def bit_take_bit_iff bit_drop_bit_eq\<close>)
next
  assume e: "page_no x = page_no y"
  have all: "bit x n = bit y n" if "12 \<le> n" "n < 48" for n
  proof -
    have "bit (page_no x) (n - 12) = bit (page_no y) (n - 12)" using e by simp
    moreover have "n - 12 < 36" using that by arith
    ultimately show ?thesis using that by (simp add: page_no_def bit_take_bit_iff bit_drop_bit_eq)
  qed
  have "entry_index x s = entry_index y s" if "12 \<le> s" "s \<le> 39" for s
    by (rule bit_eqI) (use all that in \<open>auto simp: entry_index_bits bit_take_bit_iff bit_drop_bit_eq\<close>)
  then show "path x = path y" by (simp add: path_eq)
qed

lemma unat_page_no: "unat (page_no va) = unat va div 4096 mod 2 ^ 36"
proof -
  have "unat va < 2 ^ LENGTH(64)" by (rule unsigned_less)
  then have "unat va mod 2 ^ 64 = unat va" by simp
  then show ?thesis unfolding page_no_def unsigned_take_bit_eq unsigned_drop_bit_eq
    by (simp add: take_bit_eq_mod drop_bit_eq_div)
qed

abbreviation page_at :: "u64 \<Rightarrow> nat \<Rightarrow> u64" where
  "page_at va j \<equiv> va + of_nat (4096 * j)"

lemma mod_div_pages: "(4096 * n :: nat) mod 2 ^ 64 div 4096 = n mod 2 ^ 52"
proof -
  have "(4096 * n :: nat) mod (4096 * 2 ^ 52) = 4096 * (n mod 2 ^ 52)" by (rule mult_mod_right [symmetric])
  moreover have "(4096 * 2 ^ 52 :: nat) = 2 ^ 64" by simp
  ultimately show ?thesis by simp
qed

lemma unat_page_no_at:
  assumes "4096 dvd unat va" shows "unat (page_no (page_at va j)) = (unat va div 4096 + j) mod 2 ^ 36"
proof -
  obtain m where m: "unat va = 4096 * m" using assms by (auto simp: dvd_def)
  have "unat (page_at va j) = (unat va + 4096 * j mod 2 ^ 64) mod 2 ^ 64"
    by (subst unat_word_ariths(1), subst unat_of_nat) simp
  also have "\<dots> = (4096 * (m + j)) mod 2 ^ 64" by (simp only: m mod_add_right_eq distrib_left)
  finally have "unat (page_at va j) div 4096 = (m + j) mod 2 ^ 52" by (simp only: mod_div_pages)
  moreover have "(m + j) mod 2 ^ 52 mod 2 ^ 36 = (m + j) mod (2 ^ 36 :: nat)"
    by (rule mod_mod_cancel) (simp add: le_imp_power_dvd)
  ultimately show ?thesis by (simp only: m unat_page_no) simp
qed

lemma mod_add_cancel_less:
  assumes "(a + i) mod n = (a + j) mod (n :: nat)" "i < n" "j < n" shows "i = j"
proof -
  have "i mod n = j mod n" using assms(1) by (simp add: nat_mod_eq_iff)
  then show ?thesis using assms(2,3) by simp
qed

lemma page_paths_distinct:
  assumes "4096 dvd unat va" "i < 2 ^ 36" "j < 2 ^ 36" "path (page_at va i) = path (page_at va j)"
  shows "i = j"
proof -
  have "unat (page_no (page_at va i)) = unat (page_no (page_at va j))" using assms(4) by (simp only: path_eq_iff)
  then show ?thesis unfolding unat_page_no_at [OF assms(1)] by (rule mod_add_cancel_less [OF _ assms(2,3)])
qed

lemma path_props [simp]: "length (path va) = 4" "path va \<noteq> []"
  by (simp_all add: path_def)

text \<open>Addresses of the user half.\<close>

definition user_va :: "u64 \<Rightarrow> bool" where "user_va va \<longleftrightarrow> unat va < 2 ^ 47"

lemma user_index: "user_va va \<Longrightarrow> unat (entry_index va 39) < 256"
proof -
  assume "user_va va"
  then have "unat va div 2 ^ 39 < 256" by (simp add: user_va_def less_mult_imp_div_less)
  moreover have "unat (entry_index va 39) \<le> unat va div 2 ^ 39"
    unfolding entry_index_bits unsigned_take_bit_eq unsigned_drop_bit_eq by (simp add: drop_bit_eq_div take_bit_eq_mod)
  ultimately show ?thesis by simp
qed

lemma user_path [simp]: "user_va va \<Longrightarrow> indices (path va)"
  by (simp add: indices_def path_eq entry_index_less user_index)

lemma user_path_take: "user_va va \<Longrightarrow> indices (take m (path va))"
  by (metis append_take_drop_id indices_appendD user_path)

lemma user_path_butlast [simp]: "user_va va \<Longrightarrow> indices (butlast (path va))"
  by (simp add: indices_butlast)

section \<open>One page\<close>

text \<open>A user address that no large page covers.\<close>

definition small_ok :: "vm \<Rightarrow> u64 \<Rightarrow> u64 \<Rightarrow> bool" where
  "small_ok st root va \<longleftrightarrow> user_va va \<and> (\<forall>m\<in>{1, 2, 3}. leaf_st st root (take m (path va)) = None)"

lemma open_path_small:
  assumes "links_ok W H r" "\<forall>m\<in>{1, 2, 3}. leaf W H r (take m [a, b, c, d]) = None" "indices [a, b, c, d]"
  shows "open_path W H r [a, b, c, d]"
proof -
  have lk: "next_table W H t i \<noteq> None" if "length p \<le> 2" "indices (p @ [i])" "walk W H r p = Some t" "bit (W (entry_addr t i)) 0"
      "leaf W H r (p @ [i]) = None" for p t i
  proof -
    have "\<not> bit (W (entry_addr t i)) 7" using that(3,4,5) by (simp add: leaf_snoc split: if_splits)
    moreover from this have "is_canonical (entry_getaddr (W (entry_addr t i)))"
      using assms(1) that unfolding links_ok_def by blast
    ultimately show ?thesis using that(4) by (simp add: next_table_def)
  qed
  have l: "leaf W H r ([] @ [a]) = None" "leaf W H r ([a] @ [b]) = None" "leaf W H r ([a, b] @ [c]) = None"
    using assms(2) by (simp_all add: numeral_2_eq_2 numeral_3_eq_3)
  have i: "indices ([] @ [a])" "indices ([a] @ [b])" "indices ([a, b] @ [c])" using assms(3) by (simp_all add: indices_def)
  show ?thesis
    using lk [of "[]" a r] lk [of "[a]" b] lk [of "[a, b]" c] l i
    by (auto split: option.splits)
qed

lemma small_open:
  assumes "pt_inv st root live" "small_ok st root va"
  shows "open_path (words st) (hh st) (tohh (hh st) root) (idxs 3 va 39)"
  using open_path_small [OF pt_invD(6) [OF assms(1)], of "entry_index va 39" "entry_index va 30" "entry_index va 21" "entry_index va 12"]
    assms(2) user_path [of va] unfolding path_def [symmetric] path_eq small_ok_def by simp

lemma small_ok_extends: "extends st st' root \<Longrightarrow> small_ok st' root va = small_ok st root va"
proof -
  assume e: "extends st st' root"
  have "leaf_st st' root (take m (path va)) = leaf_st st root (take m (path va))" if "user_va va" "m \<in> {1, 2, 3}" for m
  proof -
    have "length (take m (path va)) \<le> 4" "take m (path va) \<noteq> []" using that(2) by auto
    then show ?thesis using e user_path_take [OF that(1)] unfolding extends_def by blast
  qed
  then show ?thesis by (auto simp: small_ok_def)
qed

lemma getpte_small: "getpte st root va Small b = getpte_loop 3 st (tohh (hh st) root) va 39 b"
  by (simp add: getpte_def)

text \<open>Writing the last-level entry the walk found.\<close>

lemma set_leaf_ok:
  assumes inv: "pt_inv st root live" and u: "user_va va" and w: "walk_st st root (butlast (path va)) = Some t"
    and st'_def: "st' = set_word st (entry_addr t (last (path va))) v"
  shows "pt_inv st' root live"
    "\<And>q. length q \<le> 4 \<Longrightarrow> indices q \<Longrightarrow> q \<noteq> [] \<Longrightarrow>
       leaf_st st' root q = (if q = path va then if bit v 0 then Some v else None else leaf_st st root q)"
    "\<And>q. length q \<le> 3 \<Longrightarrow> indices q \<Longrightarrow> walk_st st' root q = walk_st st root q"
    "kernel_kept st st' root"
proof -
  note I = pt_invD [OF inv]
  let ?p = "butlast (path va)" and ?i = "last (path va)"
  have p: "length ?p = 3" "indices ?p" "unat ?i < 512" "?p @ [?i] = path va"
    using u user_path_butlast [OF u] by (simp_all add: path_eq entry_index_less)
  have p3: "length ?p \<le> 3" using p(1) by simp
  have nl: "length ?p = 3 \<or> next_table (words st) (hh st) t ?i = None \<and> next_table (words st') (hh st) t ?i = None" using p(1) by simp
  have W': "words st' = (words st)(entry_addr t ?i := v)" "hh st' = hh st" "pm st' = pm st" by (simp_all add: st'_def)
  note A = I(3,2) p3 p(2) w p(3) W'(1) nl
  have ww: "walk (words st') (hh st) (tohh (hh st) root) q = walk_st st root q" if "length q \<le> 3" "indices q" for q
    by (rule walk_leaf_write [OF A that])
  have ht: "hpage (heap (pm st)) t" using I(5) [OF p3 p(2) w] .
  have lk: "links_ok (words st') (hh st) (tohh (hh st) root)"
    unfolding links_ok_def
  proof (intro allI impI)
    fix q s j assume "length q \<le> 2" and qj: "indices (q @ [j])" and "walk (words st') (hh st) (tohh (hh st) root) q = Some s"
      "bit (words st' (entry_addr s j)) 0" "\<not> bit (words st' (entry_addr s j)) 7"
    then have a: "length q \<le> 2" "indices q" "walk (words st') (hh st) (tohh (hh st) root) q = Some s" "unat j < 512"
      "bit (words st' (entry_addr s j)) 0" "\<not> bit (words st' (entry_addr s j)) 7" using indices_snocD [OF qj] by auto
    have q3: "length q \<le> 3" using a(1) by simp
    have ws: "walk_st st root q = Some s" using ww [OF q3 a(2)] a(3) by simp
    have "s \<noteq> t"
    proof
      assume "s = t"
      then have "q = ?p" using tree_path_unique [OF I(3) q3 a(2) ws p3 p(2)] w by blast
      then show False using a(1) p(1) by simp
    qed
    then have "entry_addr s j \<noteq> entry_addr t ?i"
      using entry_addr_inj [OF I(2) I(5) [OF q3 a(2) ws] ht a(4) p(3)] by blast
    then show "is_canonical (entry_getaddr (words st' (entry_addr s j)))"
      using I(6) a(1,5,6) qj ws unfolding links_ok_def W'(1) by (metis fun_upd_other)
  qed
  show "pt_inv st' root live"
    unfolding pt_inv_def W'(2) W'(3)
  proof (intro conjI allI impI)
    show "tree_ok (words st') (heap (pm st)) (tohh (hh st) root)" by (rule tree_leaf_write [OF A])
    fix q s assume q: "length q \<le> 3" "indices q" "walk (words st') (hh st) (tohh (hh st) root) q = Some s"
    then show "live (fromhh (hh st) s) = Some 1" using ww I(4) by metis
  qed (use I lk in auto)
  show "leaf_st st' root q = (if q = path va then if bit v 0 then Some v else None else leaf_st st root q)"
    if "length q \<le> 4" "indices q" "q \<noteq> []" for q
    using leaf_leaf_write [OF A that] p(1,4) unfolding W'(2) by simp
  show "walk_st st' root q = walk_st st root q" if "length q \<le> 3" "indices q" for q using ww [OF that] unfolding W'(2) .
  show "kernel_kept st st' root"
    unfolding kernel_kept_def
  proof (intro allI impI)
    fix j :: u64 assume j: "256 \<le> unat j" "unat j < 512"
    have "tohh (hh st) root \<noteq> t"
    proof
      assume "tohh (hh st) root = t"
      then have "?p = []" using tree_path_unique [OF I(3) p3 p(2) w, of "[]"] by simp
      then have "length ?p = 0" by (simp only: list.size)
      then show False using p(1) by (simp only:)
    qed
    then have "entry_addr (tohh (hh st) root) j \<noteq> entry_addr t ?i"
      using entry_addr_inj [OF I(2) I(5) [of "[]"] ht j(2) p(3)] by auto
    then show "words st' (entry_addr (tohh (hh st) root) j) = words st (entry_addr (tohh (hh st) root) j)" by (simp add: W'(1))
  qed
qed

lemma grows_write:
  assumes "pt_inv st root live" "user_va va" "walk_st st root (butlast (path va)) = Some t"
  shows "grows 0 root st live (set_word st (entry_addr t (last (path va))) v) live"
proof -
  have "tables (set_word st (entry_addr t (last (path va))) v) root = tables st root"
  proof -
    have "walk_st (set_word st (entry_addr t (last (path va))) v) root q = walk_st st root q" if "length q \<le> 3" "indices q" for q
      using set_leaf_ok(3) [OF assms refl that] .
    then show ?thesis unfolding tables_def hh_set_word(1) by (auto 0 4)
  qed
  then show ?thesis using vroom_cong [of "set_word st (entry_addr t (last (path va))) v" st] by (simp add: grows_def set_word_def)
qed

lemma small_take_neq: "m \<in> {1, 2, 3} \<Longrightarrow> take m (path va) \<noteq> path va'"
  by (rule ccontr, drule not_not [THEN iffD1], drule arg_cong [of _ _ length]) auto

lemma small_ok_write:
  assumes "pt_inv st root live" "user_va va" "walk_st st root (butlast (path va)) = Some t"
  shows "small_ok (set_word st (entry_addr t (last (path va))) v) root va = small_ok st root va"
proof -
  have "leaf_st (set_word st (entry_addr t (last (path va))) v) root (take m (path va)) = leaf_st st root (take m (path va))"
    if "m \<in> {1, 2, 3}" for m
    using set_leaf_ok(2) [OF assms refl, of "take m (path va)" v] that user_path_take [OF assms(2), of m] small_take_neq [OF that, of va] by auto
  then show ?thesis by (simp add: small_ok_def)
qed

end
