(* ===== verification/Pagemap_Ops.thy ===== *)
theory Pagemap_Ops
  imports Pagemap_Tree
begin

text \<open>
  Correctness of the page-map operations on 4 KiB pages. The loops of \<open>map\<close>, \<open>unmap\<close> and
  \<open>protect\<close> share one shape, stated as the locale \<open>page_loop\<close> and interpreted for each of
  them; the theorems say which leaf entries each operation changes and how, and when it can
  run out of memory. The last section has the flag round trip and two defects.
\<close>

section \<open>Loops over the pages of a range\<close>

text \<open>
  The effect of an operation on the pages \<open>A\<close> counted from \<open>va\<close>: their leaves change by
  \<open>F\<close>, every other leaf of the user half and the kernel half of the root stay; \<open>flush\<close> says
  that each page that was mapped is invalidated.
\<close>

definition leaf_update :: "vm \<Rightarrow> vm \<Rightarrow> u64 \<Rightarrow> u64 \<Rightarrow> nat set \<Rightarrow> (nat \<Rightarrow> u64 option \<Rightarrow> u64 option) \<Rightarrow> bool \<Rightarrow> bool" where
  "leaf_update st st' root va A F flush \<longleftrightarrow> hh st' = hh st \<and> large_pages st' = large_pages st \<and>
     pagemap_use_lowmem st' = pagemap_use_lowmem st \<and> kernel_kept st st' root \<and> (\<forall>j\<in>A. user_va (page_at va j)) \<and>
     (\<forall>j\<in>A. leaf_st st' root (path (page_at va j)) = F j (leaf_st st root (path (page_at va j)))) \<and>
     (\<forall>q. length q \<le> 4 \<longrightarrow> indices q \<longrightarrow> q \<noteq> [] \<longrightarrow> (\<forall>j\<in>A. q \<noteq> path (page_at va j)) \<longrightarrow>
        leaf_st st' root q = leaf_st st root q) \<and>
     set (invalidated st) \<subseteq> set (invalidated st') \<and>
     (flush \<longrightarrow> (\<forall>j\<in>A. leaf_st st root (path (page_at va j)) \<noteq> None \<longrightarrow> page_at va j \<in> set (invalidated st')))"

lemma leaf_update_empty: "leaf_update st st root va {} F flush"
  by (simp add: leaf_update_def kernel_kept_def)

lemma leaf_updateD:
  assumes "leaf_update st st' root va A F flush"
  shows "hh st' = hh st" "large_pages st' = large_pages st"
    "j \<in> A \<Longrightarrow> leaf_st st' root (path (page_at va j)) = F j (leaf_st st root (path (page_at va j)))"
    "length q \<le> 4 \<Longrightarrow> indices q \<Longrightarrow> q \<noteq> [] \<Longrightarrow> (\<And>j. j \<in> A \<Longrightarrow> q \<noteq> path (page_at va j)) \<Longrightarrow>
       leaf_st st' root q = leaf_st st root q"
    "set (invalidated st) \<subseteq> set (invalidated st')"
    "flush \<Longrightarrow> j \<in> A \<Longrightarrow> leaf_st st root (path (page_at va j)) \<noteq> None \<Longrightarrow> page_at va j \<in> set (invalidated st')"
    "pagemap_use_lowmem st' = pagemap_use_lowmem st"
    "kernel_kept st st' root" "j \<in> A \<Longrightarrow> user_va (page_at va j)"
  using assms unfolding leaf_update_def by blast+

lemma leaf_update_other:
  assumes u: "leaf_update st st' root va A F flush" and va: "4096 dvd unat va" and A: "A \<subseteq> {..<2 ^ 36}" "i < 2 ^ 36" "i \<notin> A"
    and i: "user_va (page_at va i)"
  shows "leaf_st st' root (path (page_at va i)) = leaf_st st root (path (page_at va i))"
proof (rule leaf_updateD(4) [OF u])
  fix j assume "j \<in> A"
  then show "path (page_at va i) \<noteq> path (page_at va j)" using page_paths_distinct [OF va A(2), of j] A by blast
qed (use i in simp_all)

lemma leaf_update_Un:
  assumes u: "leaf_update st st1 root va A F flush" "leaf_update st1 st2 root va B F flush"
    and va: "4096 dvd unat va" and d: "A \<inter> B = {}" "A \<union> B \<subseteq> {..<2 ^ 36}"
  shows "leaf_update st st2 root va (A \<union> B) F flush"
  unfolding leaf_update_def
proof (intro conjI ballI allI impI)
  note U = leaf_updateD [OF u(1)] and V = leaf_updateD [OF u(2)]
  have A: "leaf_st st2 root (path (page_at va j)) = leaf_st st1 root (path (page_at va j))" if "j \<in> A" for j
    using leaf_update_other [OF u(2) va, of j] d that U(9) by blast
  have B: "leaf_st st1 root (path (page_at va j)) = leaf_st st root (path (page_at va j))" if "j \<in> B" for j
    using leaf_update_other [OF u(1) va, of j] d that V(9) by blast
  show "hh st2 = hh st" "large_pages st2 = large_pages st" "pagemap_use_lowmem st2 = pagemap_use_lowmem st" using U(1,2,7) V(1,2,7) by simp_all
  show "kernel_kept st st2 root" using U(1,8) V(8) unfolding kernel_kept_def by simp
  show "user_va (page_at va j)" if "j \<in> A \<union> B" for j using that U(9) V(9) by blast
  show "set (invalidated st) \<subseteq> set (invalidated st2)" using U(5) V(5) by blast
  show "leaf_st st2 root (path (page_at va j)) = F j (leaf_st st root (path (page_at va j)))" if "j \<in> A \<union> B" for j
    using that
  proof
    assume "j \<in> A" then show ?thesis by (simp only: A U(3))
  next
    assume "j \<in> B" then show ?thesis by (simp only: V(3) B)
  qed
  show "page_at va j \<in> set (invalidated st2)" if "flush" "j \<in> A \<union> B" "leaf_st st root (path (page_at va j)) \<noteq> None" for j
    using that(2)
  proof
    assume "j \<in> A" then show ?thesis using U(6) [OF that(1) _ that(3)] V(5) by blast
  next
    assume j: "j \<in> B" then show ?thesis using V(6) [OF that(1) j] that(3) B [OF j] by simp
  qed
  show "leaf_st st2 root q = leaf_st st root q" if "length q \<le> 4" "indices q" "q \<noteq> []" "\<forall>j\<in>A \<union> B. q \<noteq> path (page_at va j)" for q
    using U(4) [OF that(1-3)] V(4) [OF that(1-3)] that(4) by simp
qed

definition page_count :: "u64 \<Rightarrow> nat" where "page_count len = (unat len + 4095) div 4096"

text \<open>
  What a loop over the 4 KiB pages of a range promises: it visits the pages in turn and stops
  at the first failure.
\<close>

locale page_loop =
  fixes loop :: "vm \<Rightarrow> u64 \<Rightarrow> (vm \<times> vm_error option) run"
    and visit :: "vm \<Rightarrow> u64 \<Rightarrow> vm run"
    and va len root :: u64
    and ok :: "vm \<Rightarrow> nat \<Rightarrow> bool"
    and F :: "nat \<Rightarrow> u64 option \<Rightarrow> u64 option"
    and flush :: bool
    and cost :: nat
  assumes stop: "\<not> i < len \<Longrightarrow> loop st i = retR (st, None)"
    and go: "i < len \<Longrightarrow> visit st i = retR st' \<Longrightarrow> loop st i = loop st' (i + 0x1000)"
    and fails: "i < len \<Longrightarrow> visit st i = failR e \<Longrightarrow> loop st i = failR e"
    and visit_ok: "pt_inv st root live \<Longrightarrow> ok st j \<Longrightarrow> visit st (of_nat (4096 * j)) = failR oom \<and> \<not> vroom st live cost \<or>
      (\<exists>st' live'. visit st (of_nat (4096 * j)) = retR st' \<and> grows cost root st live st' live' \<and> pt_inv st' root live' \<and> leaf_update st st' root va {j} F flush)"
    and ok_keep: "leaf_update st st' root va {j} F flush \<Longrightarrow> 4096 dvd unat va \<Longrightarrow> m \<noteq> j \<Longrightarrow> m < 2 ^ 36 \<Longrightarrow> j < 2 ^ 36 \<Longrightarrow>
      ok st m \<Longrightarrow> ok st' m"
begin

lemma index_less: "page_count len \<le> 2 ^ 36 \<Longrightarrow> j \<le> page_count len \<Longrightarrow> (of_nat (4096 * j) :: u64) < len \<longleftrightarrow> j < page_count len"
proof -
  assume a: "page_count len \<le> 2 ^ 36" "j \<le> page_count len"
  then have "4096 * j < 2 ^ 64" by simp
  then have "unat (of_nat (4096 * j) :: u64) = 4096 * j" unfolding unat_of_nat by simp
  then show ?thesis unfolding page_count_def word_less_nat_alt by auto
qed

lemma loop_ok:
  assumes "4096 dvd unat va" "page_count len \<le> 2 ^ 36" "pt_inv st root live" "\<forall>j. n \<le> j \<and> j < page_count len \<longrightarrow> ok st j" "n \<le> page_count len"
  shows "loop st (of_nat (4096 * n)) = failR oom \<and> \<not> vroom st live (cost * (page_count len - n)) \<or>
    (\<exists>st' live'. loop st (of_nat (4096 * n)) = retR (st', None) \<and> grows (cost * (page_count len - n)) root st live st' live' \<and> pt_inv st' root live' \<and>
       leaf_update st st' root va {n..<page_count len} F flush)"
  using assms(3-5)
proof (induction "page_count len - n" arbitrary: n st live)
  case 0
  then have "n = page_count len" by simp
  then show ?case using stop index_less [OF assms(2), of n] 0 leaf_update_empty grows_refl [of root st live] by auto
next
  case (Suc k)
  have n: "n < page_count len" using Suc.hyps(2) by simp
  have lt: "(of_nat (4096 * n) :: u64) < len" using index_less [OF assms(2)] n by simp
  have ok: "ok st n" using Suc.prems(2) n by simp
  from visit_ok [OF Suc.prems(1) ok] consider "visit st (of_nat (4096 * n)) = failR oom" "\<not> vroom st live cost"
    | s live1 where "visit st (of_nat (4096 * n)) = retR s" "pt_inv s root live1" "leaf_update st s root va {n} F flush"
      "grows cost root st live s live1" by blast
  then show ?case
  proof cases
    case 1
    have "cost \<le> cost * (page_count len - n)" using n by (cases "page_count len - n") simp_all
    then have "\<not> vroom st live (cost * (page_count len - n))" using 1(2) vroom_le by blast
    then show ?thesis using fails [OF lt 1(1)] by blast
  next
    case 2
    have nxt: "of_nat (4096 * n) + 0x1000 = (of_nat (4096 * Suc n) :: u64)" by simp
    have oks: "\<forall>j. Suc n \<le> j \<and> j < page_count len \<longrightarrow> ok s j"
      using ok_keep [OF 2(3) assms(1)] Suc.prems(2) assms(2) n by auto
    have split: "{n..<page_count len} = {n} \<union> {Suc n..<page_count len}" using n by auto
    have eq: "loop st (of_nat (4096 * n)) = loop s (of_nat (4096 * Suc n))" using go [OF lt 2(1)] unfolding nxt .
    have d: "{n} \<inter> {Suc n..<page_count len} = {}" "{n} \<union> {Suc n..<page_count len} \<subseteq> {..<2 ^ 36}" using n assms(2) by auto
    have "page_count len - Suc n = k" using Suc.hyps(2) by simp
    note IH = Suc.hyps(1) [OF this [symmetric] 2(2) oks]
    from IH n consider "loop s (of_nat (4096 * Suc n)) = failR oom" "\<not> vroom s live1 (cost * (page_count len - Suc n))"
      | s' live' where "loop s (of_nat (4096 * Suc n)) = retR (s', None)" "pt_inv s' root live'"
        "leaf_update s s' root va {Suc n..<page_count len} F flush"
        "grows (cost * (page_count len - Suc n)) root s live1 s' live'" by auto
    note cs = this
    have total: "cost * (page_count len - n) = cost + cost * (page_count len - Suc n)"
      using n by (simp add: Suc_diff_Suc [symmetric] algebra_simps)
    from cs show ?thesis
    proof cases
      case 1
      then show ?thesis unfolding eq total using 2(4) by (auto simp: grows_def add.commute)
    next
      case b: 2
      have "leaf_update st s' root va {n..<page_count len} F flush"
        unfolding split by (rule leaf_update_Un [OF 2(3) b(3) assms(1) d])
      then show ?thesis unfolding eq total using b grows_trans [OF 2(4) b(4)] by blast
    qed
  qed
qed

lemma run_ok:
  assumes "4096 dvd unat va" "page_count len \<le> 2 ^ 36" "pt_inv st root live" "\<forall>j<page_count len. ok st j"
  shows "loop st 0 = failR oom \<and> \<not> vroom st live (cost * page_count len) \<or>
    (\<exists>st' live'. loop st 0 = retR (st', None) \<and> grows (cost * page_count len) root st live st' live' \<and> pt_inv st' root live' \<and> leaf_update st st' root va {..<page_count len} F flush)"
  using loop_ok [of st live 0] assms by (simp add: lessThan_atLeast0)

end

section \<open>The three loops\<close>

text \<open>The leaf an entry built from an address and flags makes.\<close>

definition new_leaf :: "u64 \<Rightarrow> u64 \<Rightarrow> u64 option" where
  "new_leaf pa fl = (let v = entry_setflags (entry_setaddr 0 pa) fl True in if bit v 0 then Some v else None)"

definition map_visit :: "u64 \<Rightarrow> u64 \<Rightarrow> u64 \<Rightarrow> u64 \<Rightarrow> vm \<Rightarrow> u64 \<Rightarrow> vm run" where
  "map_visit root vaddr paddr aflags st i =
     bindR (getpte st root (vaddr + i) Small True) (\<lambda>(st, r).
       case r of Inl e \<Rightarrow> None
       | Inr pte \<Rightarrow> retR (set_word st pte (entry_setflags (entry_setaddr 0 (paddr + i)) aflags True)))"

definition unmap_visit :: "u64 \<Rightarrow> u64 \<Rightarrow> vm \<Rightarrow> u64 \<Rightarrow> vm run" where
  "unmap_visit root vaddr st i =
     bindR (getpte st root (vaddr + i) Small False) (\<lambda>(st, r).
       case r of Inl e \<Rightarrow> retR st | Inr pte \<Rightarrow> retR (invalidate (set_word st pte 0) (vaddr + i)))"

definition protect_visit :: "u64 \<Rightarrow> u64 \<Rightarrow> u64 \<Rightarrow> vm \<Rightarrow> u64 \<Rightarrow> vm run" where
  "protect_visit root vaddr aflags st i =
     bindR (getpte st root (vaddr + i) Small False) (\<lambda>(st, r).
       case r of Inl e \<Rightarrow> None
       | Inr pte \<Rightarrow> retR (invalidate (set_word st pte (entry_setflags (entry_clearflags (words st pte)) aflags True)) (vaddr + i)))"

lemma small_user: "small_ok st root va \<Longrightarrow> indices (path va) \<and> user_va va"
  by (simp add: small_ok_def)

lemma getpte_alloc_ok:
  assumes "pt_inv st root live" "small_ok st root va"
  shows "getpte st root va Small True = failR oom \<and> \<not> vroom st live 3 \<or>
    (\<exists>st' live' t. getpte st root va Small True = retR (st', Inr (entry_addr t (last (path va)))) \<and>
       grows 3 root st live st' live' \<and>
       pt_inv st' root live' \<and> extends st st' root \<and> walk_st st' root (butlast (path va)) = Some t)"
  unfolding getpte_small path_def
  using getpte_loop_ok [OF assms(1) _ walk.simps(1) _ small_open [OF assms]] small_user [OF assms(2)] by (simp add: path_def)

lemma getpte_find_ok:
  assumes "pt_inv st root live" "small_ok st root va"
  shows "getpte st root va Small False =
    retR (st, case walk_st st root (butlast (path va)) of None \<Rightarrow> Inl Invalid_entry | Some t \<Rightarrow> Inr (entry_addr t (last (path va))))"
  unfolding getpte_small path_def
  using getpte_loop_lookup [OF assms(1) _ walk.simps(1) _ small_open [OF assms]] small_user [OF assms(2)] by (simp add: path_def)

lemma leaf_path:
  "leaf_st st root (path va) =
     (case walk_st st root (butlast (path va)) of None \<Rightarrow> None
      | Some t \<Rightarrow> if bit (words st (entry_addr t (last (path va)))) 0 then Some (words st (entry_addr t (last (path va)))) else None)"
  by (simp add: leaf_def Let_def split: option.splits)

text \<open>The invalidation record is no part of the tables.\<close>

lemma invalidate_simps [simp]:
  "pm (invalidate st a) = pm st" "words (invalidate st a) = words st" "large_pages (invalidate st a) = large_pages st"
  "invalidated (invalidate st a) = invalidated st @ [a]" "pagemap_use_lowmem (invalidate st a) = pagemap_use_lowmem st"
  "pagemap_use_lowmem (set_word st b v) = pagemap_use_lowmem st"
  by (simp_all add: invalidate_def set_word_def)

lemma grows_invalidate [simp]: "grows k root st live (invalidate st' a) live' = grows k root st live st' live'"
  using vroom_cong [of "invalidate st' a" st'] by (simp add: grows_def tables_def)

lemma pt_inv_invalidate [simp]: "pt_inv (invalidate st a) root live = pt_inv st root live"
  by (simp add: pt_inv_def)

lemma small_ok_update:
  assumes "leaf_update st st' root va A F flush" "small_ok st root x" shows "small_ok st' root x"
proof -
  have "leaf_st st' root (take m (path x)) = leaf_st st root (take m (path x))" if "m \<in> {1, 2, 3}" for m
  proof (rule leaf_updateD(4) [OF assms(1)])
    have l: "length (take m (path x)) < 4" using that by auto
    show "length (take m (path x)) \<le> 4" "indices (take m (path x))" "take m (path x) \<noteq> []"
      using that user_path_take small_user [OF assms(2)] by auto
    show "take m (path x) \<noteq> path (page_at va j)" for j using l path_props(1) [of "page_at va j"] by (metis less_irrefl)
  qed
  then show ?thesis using assms(2) by (simp add: small_ok_def)
qed

text \<open>Writing the entry of one page is an update of its leaf.\<close>

lemma leaf_write_update:
  assumes inv: "pt_inv st1 root live" and u: "user_va (page_at va j)" and ext: "extends st st1 root"
    and w: "walk_st st1 root (butlast (path (page_at va j))) = Some t"
    and st': "st' = set_word st1 (entry_addr t (last (path (page_at va j)))) v"
    and F: "F j (leaf_st st root (path (page_at va j))) = (if bit v 0 then Some v else None)"
  shows "leaf_update st st' root va {j} F False" "leaf_update st (invalidate st' (page_at va j)) root va {j} F True"
proof -
  have e: "hh st1 = hh st" "large_pages st1 = large_pages st" "invalidated st1 = invalidated st" "pagemap_use_lowmem st1 = pagemap_use_lowmem st"
    "length q \<le> 4 \<Longrightarrow> indices q \<Longrightarrow> q \<noteq> [] \<Longrightarrow> leaf_st st1 root q = leaf_st st root q" for q
    using ext unfolding extends_def by metis+
  have k: "kernel_kept st st' root"
    using ext set_leaf_ok(4) [OF inv u w st'] e(1) unfolding extends_def kernel_kept_def by simp
  have l: "leaf_st st' root q = (if q = path (page_at va j) then if bit v 0 then Some v else None else leaf_st st root q)"
    if "length q \<le> 4" "indices q" "q \<noteq> []" for q
    using set_leaf_ok(2) [OF inv u w st' that] e(5) [OF that] by simp
  have hh: "hh st' = hh st1" "invalidated st' = invalidated st1" "large_pages st' = large_pages st1" "pagemap_use_lowmem st' = pagemap_use_lowmem st1"
    by (simp_all add: st')
  show "leaf_update st st' root va {j} F False" "leaf_update st (invalidate st' (page_at va j)) root va {j} F True"
    unfolding leaf_update_def using l [of "path (page_at va j)"] l F e hh k u by (simp_all add: subset_insertI kernel_kept_def)
qed

lemma map_visit_ok:
  assumes "pt_inv st root live" "small_ok st root (page_at va j)"
  shows "map_visit root va pa fl st (of_nat (4096 * j)) = failR oom \<and> \<not> vroom st live 3 \<or>
    (\<exists>st' live'. map_visit root va pa fl st (of_nat (4096 * j)) = retR st' \<and> grows 3 root st live st' live' \<and> pt_inv st' root live' \<and>
       leaf_update st st' root va {j} (\<lambda>j _. new_leaf (page_at pa j) fl) False)"
proof -
  note u = small_user [OF assms(2), THEN conjunct2]
  from getpte_alloc_ok [OF assms] consider "getpte st root (page_at va j) Small True = failR oom" "\<not> vroom st live 3"
    | s l t where "getpte st root (page_at va j) Small True = retR (s, Inr (entry_addr t (last (path (page_at va j)))))"
      "pt_inv s root l" "extends st s root" "walk_st s root (butlast (path (page_at va j))) = Some t"
      "grows 3 root st live s l" by blast
  then show ?thesis
  proof cases
    case 1 then show ?thesis by (simp add: map_visit_def del: of_nat_mult)
  next
    case 2
    let ?v = "entry_setflags (entry_setaddr 0 (page_at pa j)) fl True"
    let ?s = "set_word s (entry_addr t (last (path (page_at va j)))) ?v"
    have "map_visit root va pa fl st (of_nat (4096 * j)) = retR ?s" using 2(1) by (simp add: map_visit_def del: of_nat_mult)
    moreover have "pt_inv ?s root l" by (rule set_leaf_ok(1) [OF 2(2) u 2(4) refl])
    moreover have "leaf_update st ?s root va {j} (\<lambda>j _. new_leaf (page_at pa j) fl) False"
      by (rule leaf_write_update(1) [OF 2(2) u 2(3,4) refl]) (simp add: new_leaf_def Let_def)
    moreover have "grows 3 root st live ?s l" using grows_trans [OF 2(5) grows_write [OF 2(2) u 2(4)]] by simp
    ultimately show ?thesis by blast
  qed
qed

lemma unmap_visit_ok:
  assumes "pt_inv st root live" "small_ok st root (page_at va j)"
  shows "\<exists>st' live'. unmap_visit root va st (of_nat (4096 * j)) = retR st' \<and> grows 0 root st live st' live' \<and> pt_inv st' root live' \<and>
       leaf_update st st' root va {j} (\<lambda>_ _. None) True"
proof (cases "walk_st st root (butlast (path (page_at va j)))")
  case None
  then have "unmap_visit root va st (of_nat (4096 * j)) = retR st"
    using getpte_find_ok [OF assms] by (simp add: unmap_visit_def del: of_nat_mult)
  moreover have "leaf_update st st root va {j} (\<lambda>_ _. None) True"
    using None small_user [OF assms(2)] by (simp add: leaf_update_def leaf_path kernel_kept_def del: of_nat_mult)
  ultimately show ?thesis using assms(1) grows_refl by blast
next
  case (Some t)
  note u = small_user [OF assms(2), THEN conjunct2]
  let ?s = "set_word st (entry_addr t (last (path (page_at va j)))) 0"
  have "unmap_visit root va st (of_nat (4096 * j)) = retR (invalidate ?s (page_at va j))"
    using getpte_find_ok [OF assms] Some by (simp add: unmap_visit_def del: of_nat_mult)
  moreover have "pt_inv (invalidate ?s (page_at va j)) root live" using set_leaf_ok(1) [OF assms(1) u Some refl] by simp
  moreover have "leaf_update st (invalidate ?s (page_at va j)) root va {j} (\<lambda>_ _. None) True"
    by (rule leaf_write_update(2) [OF assms(1) u extends_refl Some refl]) simp
  moreover have "grows 0 root st live (invalidate ?s (page_at va j)) live" using grows_write [OF assms(1) u Some] by simp
  ultimately show ?thesis by blast
qed

lemma protect_visit_ok:
  assumes "pt_inv st root live" "small_ok st root (page_at va j)" "leaf_st st root (path (page_at va j)) \<noteq> None"
  shows "\<exists>st' live'. protect_visit root va fl st (of_nat (4096 * j)) = retR st' \<and> grows 0 root st live st' live' \<and> pt_inv st' root live' \<and>
       leaf_update st st' root va {j} (\<lambda>_ old. Option.bind old (\<lambda>v. new_leaf (entry_getaddr v) fl)) True"
proof -
  obtain t v where t: "walk_st st root (butlast (path (page_at va j))) = Some t"
    "words st (entry_addr t (last (path (page_at va j)))) = v" "leaf_st st root (path (page_at va j)) = Some v"
    using assms(3) by (auto simp: leaf_path simp del: of_nat_mult split: option.splits if_splits)
  note u = small_user [OF assms(2), THEN conjunct2]
  let ?v = "entry_setflags (entry_clearflags v) fl True"
  let ?s = "set_word st (entry_addr t (last (path (page_at va j)))) ?v"
  have "protect_visit root va fl st (of_nat (4096 * j)) = retR (invalidate ?s (page_at va j))"
    using getpte_find_ok [OF assms(1,2)] t by (simp add: protect_visit_def del: of_nat_mult)
  moreover have "pt_inv (invalidate ?s (page_at va j)) root live" using set_leaf_ok(1) [OF assms(1) u t(1) refl] by simp
  moreover have "leaf_update st (invalidate ?s (page_at va j)) root va {j} (\<lambda>_ old. Option.bind old (\<lambda>v. new_leaf (entry_getaddr v) fl)) True"
    by (rule leaf_write_update(2) [OF assms(1) u extends_refl t(1) refl])
      (simp add: t(3) new_leaf_def entry_setaddr_def entry_getaddr_def entry_clearflags_def and.assoc Let_def del: of_nat_mult)
  moreover have "grows 0 root st live (invalidate ?s (page_at va j)) live" using grows_write [OF assms(1) u t(1)] by simp
  ultimately show ?thesis by blast
qed

interpretation map_pages: page_loop "\<lambda>st. map_loop st root va pa len fl Small" "map_visit root va pa fl" va len root
  "\<lambda>st j. small_ok st root (page_at va j)" "\<lambda>j _. new_leaf (page_at pa j) fl" False 3
  for root va pa len fl
proof (unfold_locales, goal_cases)
  case (1 i st) then show ?case by (simp add: map_loop.simps)
next
  case (2 i st st')
  then obtain a r where g: "getpte st root (va + i) Small True = retR (a, r)" by (auto simp: map_visit_def bindR_retR_iff)
  then show ?case using 2 by (cases r) (auto simp: map_visit_def map_loop.simps [of st root va pa len fl Small i] kib_def)
next
  case (3 i st e)
  then have "getpte st root (va + i) Small True = failR e"
    by (auto simp: map_visit_def bindR_failR_iff split: sum.split_asm) (metis sum.exhaust)
  then show ?case using 3 by (simp add: map_loop.simps [of st root va pa len fl Small i])
next
  case (4 st live j) then show ?case by (rule map_visit_ok)
next
  case (5 st st' j m) then show ?case using small_ok_update by blast
qed

interpretation unmap_pages: page_loop "\<lambda>st. unmap_loop st root va len Small" "unmap_visit root va" va len root
  "\<lambda>st j. small_ok st root (page_at va j)" "\<lambda>_ _. None" True 0
  for root va len
proof (unfold_locales, goal_cases)
  case (1 i st) then show ?case by (simp add: unmap_loop.simps)
next
  case (2 i st st')
  then obtain a r where g: "getpte st root (va + i) Small False = retR (a, r)" by (auto simp: unmap_visit_def bindR_retR_iff)
  then show ?case using 2 by (cases r) (auto simp: unmap_visit_def unmap_loop.simps [of st root va len Small i] kib_def)
next
  case (3 i st e)
  then have "getpte st root (va + i) Small False = failR e"
    by (auto simp: unmap_visit_def bindR_failR_iff split: sum.split_asm) (metis sum.exhaust)
  then show ?case using 3 by (simp add: unmap_loop.simps [of st root va len Small i])
next
  case (4 st live j) then show ?case using unmap_visit_ok by blast
next
  case (5 st st' j m) then show ?case using small_ok_update by blast
qed

interpretation protect_pages: page_loop "\<lambda>st. protect_loop st root va len fl Small" "protect_visit root va fl" va len root
  "\<lambda>st j. small_ok st root (page_at va j) \<and> leaf_st st root (path (page_at va j)) \<noteq> None"
  "\<lambda>_ old. Option.bind old (\<lambda>v. new_leaf (entry_getaddr v) fl)" True 0
  for root va len fl
proof (unfold_locales, goal_cases)
  case (1 i st) then show ?case by (simp add: protect_loop.simps)
next
  case (2 i st st')
  then obtain a r where g: "getpte st root (va + i) Small False = retR (a, r)" by (auto simp: protect_visit_def bindR_retR_iff)
  then show ?case using 2 by (cases r) (auto simp: protect_visit_def protect_loop.simps [of st root va len fl Small i] kib_def)
next
  case (3 i st e)
  then have "getpte st root (va + i) Small False = failR e"
    by (auto simp: protect_visit_def bindR_failR_iff split: sum.split_asm) (metis sum.exhaust)
  then show ?case using 3 by (simp add: protect_loop.simps [of st root va len fl Small i])
next
  case (4 st live j) then show ?case using protect_visit_ok by blast
next
  case (5 st st' j m)
  then have "user_va (page_at va m)" using small_user by blast
  then show ?case using 5 small_ok_update [OF 5(1)] leaf_update_other [OF 5(1,2), of m] by (simp del: of_nat_mult)
qed

lemma aligned_small: "va mod from_page_size Small = 0 \<longleftrightarrow> 4096 dvd unat va"
proof -
  have "unat (va mod 4096) = unat va mod 4096" by (simp add: unat_mod_distrib)
  then show ?thesis by (simp add: kib_def dvd_eq_mod_eq_0 unat_eq_0 [symmetric] del: unat_eq_0)
qed

lemma fixpsize_small [simp]: "fixpsize st Small = Small" by (simp add: fixpsize_def)

lemma new_leaf_to_arch:
  assumes "flags AND pf_read \<noteq> 0" shows "new_leaf pa (to_arch flags cache Small) = Some (pa AND pa_mask OR to_arch flags cache Small)"
proof -
  have "bit flags 0" using assms and_pf(1) by blast
  then have "bit (to_arch flags cache Small) 0" by (simp add: bit_to_arch)
  then show ?thesis by (simp add: new_leaf_def Let_def entry_setflags_def entry_setaddr_def bit_or_iff)
qed

lemma small_entry_addr: "entry_getaddr (pa AND pa_mask OR to_arch flags cache Small) = pa AND pa_mask"
proof -
  have "entry_getaddr (pa AND pa_mask OR to_arch flags cache Small) = pa AND pa_mask OR (to_arch flags cache Small AND pa_mask)"
    by (rule bit_eqI) (auto simp: entry_getaddr_def bit_simps)
  then show ?thesis using to_arch_no_addr [of Small] by simp
qed

lemma translate_small:
  assumes "pt_inv st root live" "small_ok st root va" "4096 dvd unat va" "leaf_st st root (path va) = Some v" "is_canonical (entry_getaddr v)"
  shows "translate st root va Small = retR (st, Inr (entry_getaddr v))"
proof -
  obtain t where "walk_st st root (butlast (path va)) = Some t" "words st (entry_addr t (last (path va))) = v"
    using assms(4) by (auto simp: leaf_path split: option.splits if_splits)
  then show ?thesis using getpte_find_ok [OF assms(1,2)] assms(3,5) aligned_small [of va] by (simp add: translate_def Let_def)
qed

lemma page_at_dvd:
  assumes "4096 dvd unat va" shows "4096 dvd unat (page_at va j)"
proof -
  have "(4096 :: nat) dvd 2 ^ 64" using dvd_triv_left [of "4096 :: nat" "2 ^ 52"] by simp
  then show ?thesis unfolding unat_word_ariths(1) unat_of_nat using assms
    by (auto intro!: dvd_mod dvd_add)
qed

text \<open>The four kilobyte pages of a range.\<close>

abbreviation leaf_at :: "vm \<Rightarrow> u64 \<Rightarrow> u64 \<Rightarrow> u64 option" where
  "leaf_at st root va \<equiv> leaf_st st root (path va)"

lemma page_count_bounds:
  assumes "unat len \<le> 2 ^ 48" shows "page_count len \<le> 2 ^ 36"
  using assms by (simp add: page_count_def)

lemma page_at_phys:
  assumes "4096 dvd unat pa" "unat pa + unat len \<le> 2 ^ 47" "j < page_count len"
  shows "page_at pa j AND pa_mask = page_at pa j" "is_canonical (page_at pa j)"
proof -
  have j: "4096 * j < unat len" using assms(3) by (simp add: page_count_def)
  have "unat (page_at pa j) = unat pa + 4096 * j"
    unfolding unat_word_ariths(1) unat_of_nat using j assms(2) by simp
  then have u: "4096 dvd unat (page_at pa j)" "unat (page_at pa j) < 2 ^ 47"
    using assms(1,2) j by (auto simp del: of_nat_mult)
  then show "page_at pa j AND pa_mask = page_at pa j" by (intro pa_mask_id) simp_all
  show "is_canonical (page_at pa j)" using u(2) by (simp add: is_canonical_def word_less_nat_alt)
qed

lemma from_arch_leaf:
  assumes "flags < 32"
  shows "from_arch (entry_getflags (pa AND pa_mask OR to_arch flags cache Small)) Small = (flags, normal_cache cache)"
proof -
  have "entry_getflags (pa AND pa_mask OR to_arch flags cache Small) = to_arch flags cache Small"
  proof (rule bit_word_eqI)
    fix n assume "n < LENGTH(64)"
    have "\<not> (bit (to_arch flags cache Small) n \<and> bit pa_mask n)"
      using to_arch_no_addr [of Small cache flags] by (metis (no_types) bit_and_iff bit_0_eq bot_apply bot_bool_def)
    then show "bit (entry_getflags (pa AND pa_mask OR to_arch flags cache Small)) n = bit (to_arch flags cache Small) n"
      using \<open>n < LENGTH(64)\<close> by (auto simp: entry_getflags_def bit_simps)
  qed
  then show ?thesis using from_to_arch [OF assms] by simp
qed

text \<open>
  Property C7. The 4 KiB pages of a user range with no large page in the way are mapped in turn:
  \<open>map\<close> runs out of memory only when fewer than three free pages per mapped page are left in the
  zones page tables may come from, and otherwise returns success; then \<open>translate\<close> gives the
  physical address of every page of the range, its entry decodes to the flags and caching asked
  for, and no other entry of the user half and no entry of the root for the kernel half has changed.
\<close>

theorem map_then_translate:
  assumes "pt_inv st root live" "4096 dvd unat va" "4096 dvd unat pa" "unat pa + unat len \<le> 2 ^ 47"
    and "flags AND pf_read \<noteq> 0" "flags < 32" and "\<forall>j<page_count len. small_ok st root (page_at va j)"
  shows "map_pages st root va pa len flags Small cache = failR oom \<and> \<not> vroom st live (3 * page_count len) \<or>
    (\<exists>st' live'. map_pages st root va pa len flags Small cache = retR (st', None) \<and> pt_inv st' root live' \<and>
       (\<forall>j<page_count len. translate st' root (page_at va j) Small = retR (st', Inr (page_at pa j)) \<and>
          map_option (\<lambda>v. from_arch (entry_getflags v) Small) (leaf_at st' root (page_at va j)) = Some (flags, normal_cache cache)) \<and>
       (\<forall>q. length q \<le> 4 \<longrightarrow> indices q \<longrightarrow> q \<noteq> [] \<longrightarrow> (\<forall>j<page_count len. q \<noteq> path (page_at va j)) \<longrightarrow>
          leaf_st st' root q = leaf_st st root q) \<and> kernel_kept st st' root)"
proof -
  let ?fl = "to_arch flags cache Small"
  have N: "page_count len \<le> 2 ^ 36" using assms(4) by (intro page_count_bounds) simp
  have eq: "map_pages st root va pa len flags Small cache = map_loop st root va pa len ?fl Small 0"
    using assms(2) aligned_small [of va] by (simp add: map_pages_def)
  from map_pages.run_ok [OF assms(2) N assms(1,7), of pa ?fl]
  consider "map_loop st root va pa len ?fl Small 0 = failR oom" "\<not> vroom st live (3 * page_count len)"
    | st' live' where "map_loop st root va pa len ?fl Small 0 = retR (st', None)" "pt_inv st' root live'"
      "leaf_update st st' root va {..<page_count len} (\<lambda>j _. new_leaf (page_at pa j) ?fl) False" by blast
  then show ?thesis
  proof cases
    case 1 then show ?thesis using eq by simp
  next
    case 2
    have leaf: "leaf_at st' root (page_at va j) = Some (page_at pa j AND pa_mask OR ?fl)" if "j < page_count len" for j
      using leaf_updateD(3) [OF 2(3), of j] that new_leaf_to_arch [OF assms(5)] by (simp del: of_nat_mult)
    have "translate st' root (page_at va j) Small = retR (st', Inr (page_at pa j))" if j: "j < page_count len" for j
    proof -
      note P = page_at_phys [OF assms(3,4) j]
      have a: "entry_getaddr (page_at pa j AND pa_mask OR ?fl) = page_at pa j"
        using small_entry_addr [of "page_at pa j" flags cache] P(1) by (rule trans)
      have "small_ok st' root (page_at va j)" using small_ok_update [OF 2(3)] assms(7) j by blast
      moreover have "4096 dvd unat (page_at va j)" by (rule page_at_dvd [OF assms(2)])
      ultimately show ?thesis
        using translate_small [OF 2(2) _ _ leaf [OF j]] P(2) unfolding a by blast
    qed
    moreover have "map_option (\<lambda>v. from_arch (entry_getflags v) Small) (leaf_at st' root (page_at va j)) = Some (flags, normal_cache cache)"
      if "j < page_count len" for j using leaf [OF that] from_arch_leaf [OF assms(6)] by (simp del: of_nat_mult)
    moreover have "leaf_st st' root q = leaf_st st root q"
      if "length q \<le> 4" "indices q" "q \<noteq> []" "\<forall>j<page_count len. q \<noteq> path (page_at va j)" for q
      using leaf_updateD(4) [OF 2(3) that(1-3)] that(4) by blast
    ultimately show ?thesis using eq 2(1,2) leaf_updateD(8) [OF 2(3)] by (intro disjI2 exI [of _ st'] exI [of _ live']) (simp del: of_nat_mult)
  qed
qed


text \<open>
  Property C8. \<open>unmap\<close> of 4 KiB pages always succeeds on an aligned user range that no large page
  covers, removes every entry of the range, executes an invalidation for every page that was
  mapped and leaves every other entry of the user half and the root entries of the kernel half
  as they were.
\<close>

theorem unmap_correct:
  assumes "pt_inv st root live" "4096 dvd unat va" "unat len \<le> 2 ^ 48" and "\<forall>j<page_count len. small_ok st root (page_at va j)"
  shows "\<exists>st' live'. unmap st root va len Small = retR (st', None) \<and> pt_inv st' root live' \<and>
       (\<forall>j<page_count len. leaf_at st' root (page_at va j) = None \<and>
          (leaf_at st root (page_at va j) \<noteq> None \<longrightarrow> page_at va j \<in> set (invalidated st'))) \<and>
       (\<forall>q. length q \<le> 4 \<longrightarrow> indices q \<longrightarrow> q \<noteq> [] \<longrightarrow> (\<forall>j<page_count len. q \<noteq> path (page_at va j)) \<longrightarrow>
          leaf_st st' root q = leaf_st st root q) \<and> kernel_kept st st' root"
proof -
  have eq: "unmap st root va len Small = unmap_loop st root va len Small 0"
    using assms(2) aligned_small [of va] by (simp add: unmap_def)
  have "vroom st live (0 * page_count len)" by (simp add: vroom_def)
  with unmap_pages.run_ok [OF assms(2) page_count_bounds [OF assms(3)] assms(1,4)]
  obtain st' live' where r: "unmap_loop st root va len Small 0 = retR (st', None)" "pt_inv st' root live'"
      "leaf_update st st' root va {..<page_count len} (\<lambda>_ _. None) True" by blast
  note U = leaf_updateD [OF r(3)]
  show ?thesis unfolding eq using r(1,2) U(3,6,8) U(4) by (intro exI [of _ st'] exI [of _ live']) (simp del: of_nat_mult)
qed

text \<open>
  Property C9. \<open>protect\<close> on a user range whose pages are all mapped as 4 KiB pages succeeds, keeps the
  physical address of every page, replaces its flags, invalidates it and leaves every other entry
  of the user half and the root entries of the kernel half as they were. Large pages are left out:
  for them \<open>large_page_pat_corrupts_address\<close> shows that the address is not kept.
\<close>

theorem protect_correct:
  assumes "pt_inv st root live" "4096 dvd unat va" "unat len \<le> 2 ^ 48" "flags AND pf_read \<noteq> 0"
    and "\<forall>j<page_count len. small_ok st root (page_at va j) \<and> leaf_at st root (page_at va j) \<noteq> None"
  shows "\<exists>st' live'. protect st root va len flags Small cache = retR (st', None) \<and> pt_inv st' root live' \<and>
       (\<forall>j<page_count len. page_at va j \<in> set (invalidated st') \<and>
          leaf_at st' root (page_at va j) = map_option (\<lambda>v. entry_getaddr v OR to_arch flags cache Small) (leaf_at st root (page_at va j))) \<and>
       (\<forall>q. length q \<le> 4 \<longrightarrow> indices q \<longrightarrow> q \<noteq> [] \<longrightarrow> (\<forall>j<page_count len. q \<noteq> path (page_at va j)) \<longrightarrow>
          leaf_st st' root q = leaf_st st root q) \<and> kernel_kept st st' root"
proof -
  let ?fl = "to_arch flags cache Small"
  have eq: "protect st root va len flags Small cache = protect_loop st root va len ?fl Small 0"
    using assms(2) aligned_small [of va] by (simp add: protect_def)
  have "vroom st live (0 * page_count len)" by (simp add: vroom_def)
  with protect_pages.run_ok [OF assms(2) page_count_bounds [OF assms(3)] assms(1,5)]
  obtain st' live' where r: "protect_loop st root va len ?fl Small 0 = retR (st', None)" "pt_inv st' root live'"
      "leaf_update st st' root va {..<page_count len} (\<lambda>_ old. Option.bind old (\<lambda>v. new_leaf (entry_getaddr v) ?fl)) True" by blast
  note U = leaf_updateD [OF r(3)]
  have m: "Option.bind old (\<lambda>v. new_leaf (entry_getaddr v) ?fl) = map_option (\<lambda>v. entry_getaddr v OR ?fl) old" for old
    by (cases old) (simp_all add: new_leaf_to_arch [OF assms(4)] entry_getaddr_def and.assoc)
  show ?thesis unfolding eq using r(1,2) U(3,6,8) U(4) assms(5) m by (intro exI [of _ st'] exI [of _ live']) (simp del: of_nat_mult)
qed

text \<open>
  \<open>protect\<close> does not look whether the last-level entry it finds is present. On an address that is
  not mapped but whose last-level table exists it succeeds and makes the page present at
  physical address 0.
\<close>

theorem protect_maps_frame_zero:
  assumes "pt_inv st root live" "small_ok st root va" "4096 dvd unat va" "flags AND pf_read \<noteq> 0"
    and "walk_st st root (butlast (path va)) = Some t" "words st (entry_addr t (last (path va))) = 0"
  shows "leaf_at st root va = None \<and>
    (\<exists>st'. protect st root va 0x1000 flags Small cache = retR (st', None) \<and>
       leaf_at st' root va = Some (to_arch flags cache Small) \<and> translate st' root va Small = retR (st', Inr 0))"
proof -
  let ?fl = "to_arch flags cache Small"
  define s where "s = set_word st (entry_addr t (last (path va))) ?fl"
  have b: "bit ?fl 0" using assms(4) and_pf(1) by (auto simp: bit_to_arch)
  have p: "protect st root va 0x1000 flags Small cache = retR (invalidate s va, None)"
    using aligned_small [of va] assms(3,6) getpte_find_ok [OF assms(1,2)] assms(5)
    by (simp add: protect_def protect_loop.simps kib_def s_def entry_clearflags_def entry_setflags_def)
  note u = small_user [OF assms(2), THEN conjunct2]
  note S = set_leaf_ok [OF assms(1) u assms(5) s_def]
  have l: "leaf_at s root va = Some ?fl" using S(2) [of "path va"] b u by simp
  have so: "small_ok (invalidate s va) root va" using small_ok_write [OF assms(1) u assms(5)] assms(2) by (simp add: small_ok_def s_def)
  have a0: "entry_getaddr ?fl = 0" using to_arch_no_addr [of Small] by (simp add: entry_getaddr_def)
  have "translate (invalidate s va) root va Small = retR (invalidate s va, Inr 0)"
    using translate_small [OF _ so assms(3), of live ?fl] S(1) l a0 by (simp add: is_canonical_def)
  moreover have "leaf_at st root va = None" using assms(5,6) by (simp add: leaf_path)
  ultimately show ?thesis using p l by simp
qed

text \<open>
  The PAT bit of a large page (bit 12) lies inside the address mask. The entry of a 2 MiB or
  1 GiB page with write-protected or write-combining memory reads back an address that is
  4 KiB too high, and a later change to write-back memory cannot clear the bit.
\<close>

theorem large_page_pat_corrupts_address:
  assumes "p \<noteq> Small" "c \<in> {Write_protected, Write_combining}"
  shows "entry_getaddr (entry_setflags (entry_setaddr 0 pa) (to_arch f c p) True) = pa AND pa_mask OR 0x1000 \<and>
    snd (from_arch (entry_setflags (entry_clearflags (entry_setflags (entry_setaddr 0 pa) (to_arch f c p) True))
       (to_arch f' Write_back p) True) p) = Write_protected"
proof -
  define e where "e = entry_setflags (entry_setaddr 0 pa) (to_arch f c p) True"
  have a: "entry_getaddr e = pa AND pa_mask OR 0x1000"
    unfolding e_def setflags_split(1) getaddr_setaddr to_arch_lpat [OF assms(1,2)] ..
  have b12: "bit (entry_clearflags e) 12"
  proof -
    have "bit (entry_getaddr e) 12" unfolding a bit_or_iff exp_bits by simp
    then show ?thesis by (simp add: entry_getaddr_def entry_clearflags_def)
  qed
  have lo: "\<not> bit (entry_clearflags e) n" if "n < 12" for n using that by (simp add: entry_clearflags_def bit_and_iff bit_pa_mask)
  have "snd (from_arch (entry_setflags (entry_clearflags e) (to_arch f' Write_back p) True) p) = Write_protected"
    using b12 lo [of 3] lo [of 4] assms(1)
    by (simp add: from_arch_def Let_def and_flag entry_setflags_def bit_or_iff bit_to_arch)
  then show ?thesis using a unfolding e_def by blast
qed


section \<open>A new page map\<close>

text \<open>
  The constructor of a process's page map: a fresh root whose lower half is empty and whose upper
  half is that of the kernel's root, whatever the kernel's tables are. The new page map
  satisfies the invariant.
\<close>

lemma empty_user_half:
  assumes h: "pmm_live (pm st) live" "hhdm_ok (heap (pm st))" "hpage (heap (pm st)) v" "live (fromhh (hh st) v) = Some 1"
    and z: "\<And>j. unat j < 256 \<Longrightarrow> words st (entry_addr v j) = 0"
  defines "r \<equiv> fromhh (hh st) v"
  shows "pt_inv st r live" "user_va va \<Longrightarrow> small_ok st r va" "indices p \<Longrightarrow> p \<noteq> [] \<Longrightarrow> walk_st st r p = None"
    "user_va va \<Longrightarrow> leaf_at st r va = None"
proof -
  have rv: "tohh (hh st) r = v" using tohh_fromhh_page [OF h(2,3)] by (simp add: r_def)
  have nt: "next_table (words st) (hh st) v j = None" if "unat j < 256" for j using z [OF that] by (simp add: next_table_def)
  have w: "walk (words st) (hh st) v p = (if p = [] then Some v else None)" if "indices p" for p
    using that nt by (cases p) (simp_all add: indices_def)
  have l: "leaf (words st) (hh st) v q = None" if q: "indices q" "q \<noteq> []" for q
  proof (cases "butlast q = []")
    case True
    then have "unat (last q) < 256" using q by (cases q) (auto simp: indices_def split: if_splits)
    then show ?thesis using True z by (simp add: leaf_def)
  next
    case False
    then show ?thesis using w [OF indices_butlast [OF q(1)]] by (simp add: leaf_def)
  qed
  show "small_ok st r va" if "user_va va"
    unfolding small_ok_def rv using that l [OF user_path_take [OF that]] by auto
  show "leaf_at st r va = None" if "user_va va" using l that rv by simp
  show "walk_st st r p = None" if "indices p" "p \<noteq> []" using w that rv by simp
  have "links_ok (words st) (hh st) v"
    unfolding links_ok_def
  proof (intro allI impI)
    fix p t i assume a: "indices (p @ [i])" "walk (words st) (hh st) v p = Some t" "bit (words st (entry_addr t i)) 0"
    have "p = []" "t = v" using w [of p] a(2) indices_appendD [OF a(1)] by (auto split: if_splits)
    then show "is_canonical (entry_getaddr (words st (entry_addr t i)))" using z [of i] a(1,3) by (simp add: indices_def)
  qed
  then show "pt_inv st r live"
    unfolding pt_inv_def rv using h w by (auto simp: tree_ok_def split: if_splits)
qed

lemma new_table_free:
  assumes "live_ok (pm st) live FL AL" "new_table st = retR (s, x)"
  shows "\<exists>v. x = fromhh (hh st) v \<and> hpage (heap (pm st)) v \<and> unat v \<in> free_region FL" "kernel_table s = kernel_table st"
proof -
  obtain p' where p': "alloc (pm st) 1 True (table_zone st) = Some (Inr (p', x))" "kernel_table s = kernel_table st"
    using assms(2) unfolding new_table_def pmm_alloc_def Let_def bindR_retR_iff by (auto simp: retR_def)
  from live_ok_alloc [OF assms(1) _ _ p'(1)] obtain FL' AL' v k z where
    r: "x = fromhh (hh st) v" "brange (v, k) \<subseteq> free_region FL" "(v, k) \<in> AL' z" "pmm_inv p' FL' AL'" "hhdm (heap p') = hh st" by auto
  have "hpage (heap (pm st)) v" using AL_page(2) [OF r(4,3)] r(5) by (simp add: hpage_def)
  then show "\<exists>v. x = fromhh (hh st) v \<and> hpage (heap (pm st)) v \<and> unat v \<in> free_region FL" using r(1,2) brange_fst [of v k] by blast
  show "kernel_table s = kernel_table st" by (rule p'(2))
qed

lemma pagemap_new_ok:
  assumes L: "live_ok (pm st) live FL AL"
    and k: "kernel_table st \<noteq> 0" "hpage (heap (pm st)) (tohh (hh st) (kernel_table st))" "unat (tohh (hh st) (kernel_table st)) \<notin> free_region FL"
  shows "pagemap_new st b = failR oom \<and> \<not> vroom st live 1 \<or>
    (\<exists>st' root. pagemap_new st b = retR (st', root) \<and> live root = None \<and> pt_inv st' root (live(root \<mapsto> 1)) \<and>
       (\<forall>n. vroom st live (Suc n) \<longrightarrow> vroom st' (live(root \<mapsto> 1)) n) \<and>
       (\<forall>va. user_va va \<longrightarrow> small_ok st' root va \<and> leaf_at st' root va = None) \<and>
       (\<forall>p. indices p \<longrightarrow> p \<noteq> [] \<longrightarrow> walk_st st' root p = None) \<and>
       (\<forall>i. 256 \<le> unat i \<longrightarrow> unat i < 512 \<longrightarrow>
          words st' (entry_addr (tohh (hh st) root) i) = words st (entry_addr (tohh (hh st) (kernel_table st)) i)) \<and>
       (\<forall>a. \<not> unat (a - tohh (hh st) root) < 4096 \<longrightarrow> words st' a = words st a) \<and>
       hh st' = hh st \<and> pagemap_use_lowmem st' = pagemap_use_lowmem st)"
proof -
  have live: "pmm_live (pm st) live" using L by (auto simp: pmm_live_def)
  from new_table_ok [OF live] consider "new_table st = failR oom" "\<not> vroom st live 1"
    | s v where "new_table st = retR (s, fromhh (hh st) v)"
      "\<forall>n. vroom st live (Suc n) \<longrightarrow> vroom s (live(fromhh (hh st) v \<mapsto> 1)) n"
      "hh s = hh st" "hhdm_ok (heap (pm st))" "hpage (heap (pm st)) v" "live (fromhh (hh st) v) = None"
      "pmm_live (pm s) (live(fromhh (hh st) v \<mapsto> 1))" "words s = (\<lambda>a. if unat (a - v) < 4096 then 0 else words st a)"
      "pagemap_use_lowmem s = pagemap_use_lowmem st" by blast
  then show ?thesis
  proof cases
    case 1 then show ?thesis by (simp add: pagemap_new_def)
  next
    case 2
    let ?r = "fromhh (hh st) v" and ?k = "tohh (hh st) (kernel_table st)"
    note F = new_table_free [OF L 2(1)]
    define st' where "st' = s\<lparr>words := (\<lambda>a. if 2048 \<le> unat (a - v) \<and> unat (a - v) < 4096 then words s (?k + (a - v)) else words s a)\<rparr>"
    have rv: "tohh (hh st) ?r = v" using tohh_fromhh_page [OF 2(4,5)] .
    have vk: "v \<noteq> ?k" using F(1) k(3) tohh_fromhh_page [OF 2(4)] rv by metis
    have ret: "pagemap_new st b = retR (st', ?r)" unfolding pagemap_new_def 2(1) bindR_simps prod.case Let_def 2(3) rv F(2) st'_def using k(1) by (simp only: if_False)
    have h: "hhdm_ok (heap (pm st'))" "hpage (heap (pm st')) v" "hh st' = hh st" "pagemap_use_lowmem st' = pagemap_use_lowmem st"
      using heap_congs [OF 2(3)] 2(3,4,5,9) by (auto simp: st'_def)
    have off: "unat (entry_addr v j - v) = 8 * unat j" if "unat j < 512" for j
      using that by (simp add: entry_addr_def unat_word_ariths)
    have z: "words st' (entry_addr v j) = 0" if "unat j < 256" for j using off [of j] that 2(8) by (simp add: st'_def)
    have up: "words st' (entry_addr v j) = words st (entry_addr ?k j)" if j: "256 \<le> unat j" "unat j < 512" for j
    proof -
      have "words st' (entry_addr v j) = words s (entry_addr ?k j)" using off [OF j(2)] j by (simp add: st'_def entry_addr_def)
      also have "\<dots> = words st (entry_addr ?k j)" using entry_outside_page [OF 2(4) k(2) 2(5) _ j(2)] vk 2(8) by auto
      finally show ?thesis .
    qed
    have E: "pt_inv st' ?r (live(?r \<mapsto> 1))" "\<And>va. user_va va \<Longrightarrow> small_ok st' ?r va"
      "\<And>p. indices p \<Longrightarrow> p \<noteq> [] \<Longrightarrow> walk_st st' ?r p = None" "\<And>va. user_va va \<Longrightarrow> leaf_at st' ?r va = None"
      using empty_user_half [of st' "live(?r \<mapsto> 1)" v] 2(7) h z by (auto simp: st'_def)
    have "\<forall>n. vroom st live (Suc n) \<longrightarrow> vroom st' (live(?r \<mapsto> 1)) n"
      using 2(2) vroom_cong [of st' s] by (simp add: st'_def)
    moreover have "\<forall>a. \<not> unat (a - v) < 4096 \<longrightarrow> words st' a = words st a" using 2(8) by (auto simp: st'_def)
    ultimately show ?thesis using ret 2(6) E h(3,4) up rv by (intro disjI2 exI [of _ st'] exI [of _ ?r]) auto
  qed
qed

text \<open>
  A process page map for the witnesses: the kernel's root at 4 KiB links in its upper half to a
  table taken at boot, which maps a large page; neither belongs to the allocator.
\<close>

definition sample_words :: "u64 \<Rightarrow> u64" where
  "sample_words = (\<lambda>_. 0)(0xffff800000001800 := 0x2003, 0xffff800000002000 := 0x83)"

lemma sample_kernel_half:
  "\<exists>st live FL AL. live_ok (pm st) live FL AL \<and> vroom st live (Suc 7) \<and> \<not> pagemap_use_lowmem st \<and> kernel_table st \<noteq> 0 \<and>
     hpage (heap (pm st)) (tohh (hh st) (kernel_table st)) \<and> unat (tohh (hh st) (kernel_table st)) \<notin> free_region FL \<and>
     words st (entry_addr (tohh (hh st) (kernel_table st)) 256) = 0x2003"
proof -
  have "(4096::nat) dvd unat (0x8000 :: u64)" using dvd_triv_left [of "4096::nat" 8] by simp
  then obtain p FL where p: "ready p FL" "free_region FL = {0xffff800100000000 ..< 0xffff800100008000}" "hhdm (heap p) = 0xffff800000000000"
    using ready_range [of "0x8000"] by auto
  let ?st = "\<lparr>pm = p, words = sample_words, large_pages = True, pagemap_use_lowmem = False, invalidated = [], kernel_table = 0x1000, vspace_base = 0\<rparr>"
  have L: "live_ok p (\<lambda>_. None) FL (\<lambda>_. {})" using p(1) by (simp add: live_ok_def ready_def)
  have "page_source ?st = {0xffff800000100000..}" using p(3) by (simp add: page_source_def mib_def kib_def)
  then have "free_region FL \<inter> page_source ?st = {0xffff800100000000 ..< 0xffff800100008000}" unfolding p(2) by auto
  then have "vroom ?st (\<lambda>_. None) (Suc 7)" unfolding vroom_def using L by (intro disjI2 exI [of _ FL] exI [of _ "\<lambda>_. {}"]) simp
  moreover have "tohh (hh ?st) (kernel_table ?st) = 0xffff800000001000" using p(3) by (simp add: tohh_def ishh_def)
  moreover have "hpage (heap p) 0xffff800000001000"
  proof -
    have "unat (0xffff800000001000 :: u64) = 4096 * 4503565267632129" by simp
    then have "4096 dvd unat (0xffff800000001000 :: u64)" by (simp only: dvd_triv_left)
    then show ?thesis unfolding hpage_def p(3) by simp
  qed
  moreover have "unat (0xffff800000001000 :: u64) \<notin> free_region FL" unfolding p(2) by simp
  moreover have "words ?st (entry_addr 0xffff800000001000 256) = 0x2003" by (simp add: sample_words_def entry_addr_def)
  ultimately show ?thesis using L p(1)
    by (intro exI [of _ ?st] exI [of _ "\<lambda>_. None"] exI [of _ FL] exI [of _ "\<lambda>_. {}"]) simp
qed

lemma sample_root:
  "\<exists>st0 st root live. pagemap_new st0 True = retR (st, root) \<and> words st (entry_addr (tohh (hh st) root) 256) = 0x2003 \<and>
     pt_inv st root live \<and> vroom st live 7 \<and> (\<forall>va. user_va va \<longrightarrow> small_ok st root va) \<and>
     (\<forall>p. indices p \<longrightarrow> p \<noteq> [] \<longrightarrow> walk_st st root p = None) \<and> \<not> pagemap_use_lowmem st"
proof -
  obtain st0 live FL AL where s: "live_ok (pm st0) live FL AL" "vroom st0 live (Suc 7)" "\<not> pagemap_use_lowmem st0" "kernel_table st0 \<noteq> 0"
    "hpage (heap (pm st0)) (tohh (hh st0) (kernel_table st0))" "unat (tohh (hh st0) (kernel_table st0)) \<notin> free_region FL"
    "words st0 (entry_addr (tohh (hh st0) (kernel_table st0)) 256) = 0x2003"
    using sample_kernel_half by blast
  have "vroom st0 live 1" using vroom_le [OF s(2), of 1] by simp
  with pagemap_new_ok [OF s(1,4-6), of True] obtain st root where
    r: "pagemap_new st0 True = retR (st, root)" "pt_inv st root (live(root \<mapsto> 1))" "vroom st (live(root \<mapsto> 1)) 7"
      "\<forall>va. user_va va \<longrightarrow> small_ok st root va" "\<forall>p. indices p \<longrightarrow> p \<noteq> [] \<longrightarrow> walk_st st root p = None"
      "\<forall>i. 256 \<le> unat i \<longrightarrow> unat i < 512 \<longrightarrow> words st (entry_addr (tohh (hh st0) root) i) = words st0 (entry_addr (tohh (hh st0) (kernel_table st0)) i)"
      "hh st = hh st0" "pagemap_use_lowmem st = pagemap_use_lowmem st0"
    using s(2) by blast
  have "words st (entry_addr (tohh (hh st) root) 256) = 0x2003" using r(6) [rule_format, of 256] r(7) s(7) by simp
  then show ?thesis using r(1-5,8) s(3) by blast
qed

lemma page_count_one [simp]: "page_count 0x1000 = 1" by (simp add: page_count_def)

lemma unat_dvd_sample: "(4096::nat) dvd unat (0x400000 :: u64)" "(4096::nat) dvd unat (0x200000 :: u64)"
  by (simp_all add: dvd_eq_mod_eq_0)

lemma user_sample: "user_va 0x400000" by (simp add: user_va_def)

lemma sample_mapped:
  "\<exists>st0 s st root live v. pagemap_new st0 True = retR (s, root) \<and>
     map_pages s root 0x400000 0x200000 0x1000 3 Small Write_back = retR (st, None) \<and>
     pt_inv st root live \<and> small_ok st root 0x400000 \<and> leaf_at st root 0x400000 = Some v"
proof -
  obtain st0 s root live where s: "pagemap_new st0 True = retR (s, root)" "pt_inv s root live" "vroom s live 7"
    "\<forall>va. user_va va \<longrightarrow> small_ok s root va" using sample_root by blast
  let ?fl = "to_arch 3 Write_back Small"
  have so: "small_ok s root 0x400000" and r3: "vroom s live 3" using s(4) user_sample vroom_le [OF s(3), of 3] by auto
  have eq: "map_pages s root 0x400000 0x200000 0x1000 3 Small Write_back = map_loop s root 0x400000 0x200000 0x1000 ?fl Small 0"
    using aligned_small [of "0x400000"] unat_dvd_sample by (simp add: map_pages_def)
  have "\<forall>j<page_count 0x1000. small_ok s root (page_at 0x400000 j)" using so by simp
  from map_pages.run_ok [OF unat_dvd_sample(1) _ s(2) this, of "0x200000" ?fl] r3
  obtain st live' where r: "map_loop s root 0x400000 0x200000 0x1000 ?fl Small 0 = retR (st, None)" "pt_inv st root live'"
    "leaf_update s st root 0x400000 {..<1} (\<lambda>j _. new_leaf (page_at 0x200000 j) ?fl) False" by fastforce
  have "(3 :: pflag) AND pf_read \<noteq> 0" by simp
  then have "leaf_at st root (page_at 0x400000 0) \<noteq> None"
    using leaf_updateD(3) [OF r(3), of 0] new_leaf_to_arch [of 3 "page_at 0x200000 0" Write_back] by (simp del: of_nat_mult of_nat_0)
  then obtain v where "leaf_at st root 0x400000 = Some v" by auto
  moreover have "map_pages s root 0x400000 0x200000 0x1000 3 Small Write_back = retR (st, None)" using eq r(1) by simp
  ultimately show ?thesis using s(1) r(2) small_ok_update [OF r(3) so] by blast
qed

text \<open>
  Property C6. The constructor of a process's page map takes one page for the root, or runs out of
  memory when none is free. The new page map satisfies the invariant the other operations need: its
  user half is empty, its upper half holds the entries of the kernel's root, and no other memory
  has changed. The kernel's tables are arbitrary, only its root is not free memory.
\<close>

theorem pagemap_new_correct:
  assumes "live_ok (pm st) live FL AL" "kernel_table st \<noteq> 0" "hpage (heap (pm st)) (tohh (hh st) (kernel_table st))"
    "unat (tohh (hh st) (kernel_table st)) \<notin> free_region FL"
  shows "pagemap_new st b = failR oom \<and> \<not> vroom st live 1 \<or>
    (\<exists>st' root. pagemap_new st b = retR (st', root) \<and> live root = None \<and> pt_inv st' root (live(root \<mapsto> 1)) \<and>
       (\<forall>va. user_va va \<longrightarrow> small_ok st' root va \<and> leaf_at st' root va = None) \<and>
       (\<forall>i. 256 \<le> unat i \<longrightarrow> unat i < 512 \<longrightarrow>
          words st' (entry_addr (tohh (hh st) root) i) = words st (entry_addr (tohh (hh st) (kernel_table st)) i)) \<and>
       (\<forall>a. \<not> unat (a - tohh (hh st) root) < 4096 \<longrightarrow> words st' a = words st a))"
  using pagemap_new_ok [OF assms, of b] by blast

theorem pagemap_new_correct_witness:
  "\<exists>st0 st root live. kernel_table st0 \<noteq> 0 \<and> words st0 (entry_addr (tohh (hh st0) (kernel_table st0)) 256) = 0x2003 \<and>
     pagemap_new st0 True = retR (st, root) \<and> pt_inv st root live \<and> words st (entry_addr (tohh (hh st0) root) 256) = 0x2003"
proof -
  obtain st0 live FL AL where s: "live_ok (pm st0) live FL AL" "vroom st0 live (Suc 7)" "kernel_table st0 \<noteq> 0"
    "hpage (heap (pm st0)) (tohh (hh st0) (kernel_table st0))" "unat (tohh (hh st0) (kernel_table st0)) \<notin> free_region FL"
    "words st0 (entry_addr (tohh (hh st0) (kernel_table st0)) 256) = 0x2003" using sample_kernel_half by blast
  have "vroom st0 live 1" using vroom_le [OF s(2), of 1] by simp
  with pagemap_new_correct [OF s(1,3-5), of True] obtain st root where
    r: "pagemap_new st0 True = retR (st, root)" "pt_inv st root (live(root \<mapsto> 1))"
      "\<forall>i. 256 \<le> unat i \<longrightarrow> unat i < 512 \<longrightarrow> words st (entry_addr (tohh (hh st0) root) i) = words st0 (entry_addr (tohh (hh st0) (kernel_table st0)) i)"
    by blast
  moreover have "words st (entry_addr (tohh (hh st0) root) 256) = 0x2003" using r(3) [rule_format, of 256] s(6) by simp
  ultimately show ?thesis using s(3,6) by blast
qed

theorem map_then_translate_witness:
  "\<exists>st0 st root st'. pagemap_new st0 True = retR (st, root) \<and> words st (entry_addr (tohh (hh st) root) 256) = 0x2003 \<and>
     map_pages st root 0x400000 0x200000 0x1000 3 Small Write_back = retR (st', None) \<and>
     translate st' root 0x400000 Small = retR (st', Inr 0x200000)"
proof -
  obtain st0 st root live where s: "pagemap_new st0 True = retR (st, root)" "words st (entry_addr (tohh (hh st) root) 256) = 0x2003"
    "pt_inv st root live" "vroom st live 7" "\<forall>va. user_va va \<longrightarrow> small_ok st root va" using sample_root by blast
  have n: "unat (0x200000 :: u64) + unat (0x1000 :: u64) \<le> 2 ^ 47" "(3 :: pflag) AND pf_read \<noteq> 0" "(3 :: pflag) < 32" by simp_all
  have so: "\<forall>j<page_count 0x1000. small_ok st root (page_at 0x400000 j)" using s(5) user_sample by simp
  have "vroom st live (3 * page_count 0x1000)" using vroom_le [OF s(4), of 3] by simp
  with map_then_translate [OF s(3) unat_dvd_sample n so, of Write_back] obtain st' where
    "map_pages st root 0x400000 0x200000 0x1000 3 Small Write_back = retR (st', None)"
    "translate st' root (page_at 0x400000 0) Small = retR (st', Inr (page_at 0x200000 0))" by fastforce
  then show ?thesis using s(1,2) by auto
qed

theorem unmap_correct_witness:
  "\<exists>st0 s st root st'. pagemap_new st0 True = retR (s, root) \<and>
     map_pages s root 0x400000 0x200000 0x1000 3 Small Write_back = retR (st, None) \<and> leaf_at st root 0x400000 \<noteq> None \<and>
     unmap st root 0x400000 0x1000 Small = retR (st', None) \<and>
     leaf_at st' root 0x400000 = None \<and> 0x400000 \<in> set (invalidated st')"
proof -
  obtain st0 s st root live v where s: "pagemap_new st0 True = retR (s, root)"
    "map_pages s root 0x400000 0x200000 0x1000 3 Small Write_back = retR (st, None)"
    "pt_inv st root live" "small_ok st root 0x400000" "leaf_at st root 0x400000 = Some v"
    using sample_mapped by blast
  have so: "\<forall>j<page_count 0x1000. small_ok st root (page_at 0x400000 j)" "unat (0x1000 :: u64) \<le> 2 ^ 48" using s(4) by simp_all
  from unmap_correct [OF s(3) unat_dvd_sample(1) so(2,1)] obtain st' where
    r: "unmap st root 0x400000 0x1000 Small = retR (st', None)"
      "\<forall>j<page_count 0x1000. leaf_at st' root (page_at 0x400000 j) = None \<and>
         (leaf_at st root (page_at 0x400000 j) \<noteq> None \<longrightarrow> page_at 0x400000 j \<in> set (invalidated st'))" by blast
  have "leaf_at st' root 0x400000 = None" "0x400000 \<in> set (invalidated st')" using r(2) [rule_format, of 0] s(5) by simp_all
  then show ?thesis using s(1,2,5) r(1) by blast
qed

theorem protect_correct_witness:
  "\<exists>st0 s st root st' v. pagemap_new st0 True = retR (s, root) \<and>
     map_pages s root 0x400000 0x200000 0x1000 3 Small Write_back = retR (st, None) \<and> leaf_at st root 0x400000 = Some v \<and>
     protect st root 0x400000 0x1000 1 Small Write_back = retR (st', None) \<and>
     leaf_at st' root 0x400000 = Some (entry_getaddr v OR to_arch 1 Write_back Small)"
proof -
  obtain st0 s st root live v where s: "pagemap_new st0 True = retR (s, root)"
    "map_pages s root 0x400000 0x200000 0x1000 3 Small Write_back = retR (st, None)"
    "pt_inv st root live" "small_ok st root 0x400000" "leaf_at st root 0x400000 = Some v"
    using sample_mapped by blast
  have so: "\<forall>j<page_count 0x1000. small_ok st root (page_at 0x400000 j) \<and> leaf_at st root (page_at 0x400000 j) \<noteq> None"
    "unat (0x1000 :: u64) \<le> 2 ^ 48" "(1 :: pflag) AND pf_read \<noteq> 0" using s(4,5) by simp_all
  from protect_correct [OF s(3) unat_dvd_sample(1) so(2,3,1), of Write_back] obtain st' where
    r: "protect st root 0x400000 0x1000 1 Small Write_back = retR (st', None)"
      "\<forall>j<page_count 0x1000. page_at 0x400000 j \<in> set (invalidated st') \<and>
         leaf_at st' root (page_at 0x400000 j) = map_option (\<lambda>v. entry_getaddr v OR to_arch 1 Write_back Small) (leaf_at st root (page_at 0x400000 j))" by blast
  have "leaf_at st' root 0x400000 = Some (entry_getaddr v OR to_arch 1 Write_back Small)" using r(2) [rule_format, of 0] s(5) by simp
  then show ?thesis using s(1,2,5) r(1) by blast
qed

theorem protect_maps_frame_zero_witness:
  "\<exists>st root st'. leaf_at st root 0x400000 = None \<and> protect st root 0x400000 0x1000 1 Small Write_back = retR (st', None) \<and>
     translate st' root 0x400000 Small = retR (st', Inr 0)"
proof -
  obtain st root live v where s: "pt_inv st root live" "small_ok st root 0x400000" "leaf_at st root 0x400000 = Some v"
    using sample_mapped by blast
  note u = user_sample
  obtain t where t: "walk_st st root (butlast (path 0x400000)) = Some t" using s(3) by (auto simp: leaf_path split: option.splits)
  define s0 where "s0 = set_word st (entry_addr t (last (path 0x400000))) 0"
  note S = set_leaf_ok [OF s(1) u t s0_def]
  have so: "small_ok s0 root 0x400000" using small_ok_write [OF s(1) u t] s(2) unfolding s0_def by simp
  have "walk_st s0 root (butlast (path 0x400000)) = Some t"
    using S(3) [of "butlast (path 0x400000)"] t u by simp
  moreover have "words s0 (entry_addr t (last (path 0x400000))) = 0" by (simp add: s0_def)
  ultimately show ?thesis using protect_maps_frame_zero [OF S(1) so unat_dvd_sample(1), of 1 t Write_back] by auto
qed

theorem large_page_pat_corrupts_address_witness:
  "entry_getaddr (entry_setflags (entry_setaddr 0 0x200000) (to_arch 3 Write_combining Medium) True) = 0x201000"
proof -
  have "0x200000 AND pa_mask OR 0x1000 = 0x201000" by (simp add: pa_mask_def)
  then show ?thesis using large_page_pat_corrupts_address [of Medium Write_combining "0x200000" 3 3] by simp
qed

text \<open>
  Converting page flags and caching to architecture bits and back gives the flags
  and the caching mode; \<open>Device\<close> reads back as its alias \<open>Uncacheable_strong\<close>.
\<close>

theorem flags_roundtrip:
  assumes "f < 32" shows "from_arch (to_arch f c p) p = (f, normal_cache c)"
  using assms by (rule from_to_arch)

theorem flags_roundtrip_witness: "from_arch (to_arch 0x13 Device Medium) Medium = (0x13, Uncacheable_strong)"
  using flags_roundtrip [of "0x13" Device Medium] by simp

end
