(* ===== verification/Libc_String.thy ===== *)
theory Libc_String
  imports Libmath "HOL-Library.Sublist"
begin

text \<open>
  The freestanding C library of \<^verbatim>\<open>kernel/source/libc/string.cpp\<close> and
  \<^verbatim>\<open>kernel/source/libc/ctype.cpp\<close>.

  A byte memory is a function from 64-bit addresses to bytes; pointer arithmetic wraps.
  Lengths (\<open>std::size_t\<close>) that only count down under a guard are natural numbers inside
  the loops. A loop that scans for a terminating NUL need not end, so it is a
  \<^theory_text>\<open>partial_function (option)\<close>. Plain \<open>char\<close> is signed, as on x86_64.
  A null pointer is address 0.
\<close>

type_synonym bytemem = "u64 \<Rightarrow> u8"

section \<open>Word-sized accesses\<close>

text \<open>
  \<open>alias_load\<close> and \<open>alias_store\<close> read and write an unaligned little-endian integer of
  \<open>k\<close> bytes and advance the pointer past it.
\<close>

fun load_le :: "nat \<Rightarrow> bytemem \<Rightarrow> u64 \<Rightarrow> 'a::len word" where
  "load_le 0 m p = 0"
| "load_le (Suc k) m p = ucast (m p) OR push_bit 8 (load_le k m (p + 1))"

definition store_le :: "nat \<Rightarrow> bytemem \<Rightarrow> u64 \<Rightarrow> 'a::len word \<Rightarrow> bytemem" where
  "store_le k m p v = (\<lambda>a. if unat (a - p) < k then ucast (drop_bit (8 * unat (a - p)) v) else m a)"

definition alias_load :: "nat \<Rightarrow> bytemem \<Rightarrow> u64 \<Rightarrow> 'a::len word \<times> u64" where
  "alias_load k m p = (load_le k m p, p + of_nat k)"

definition alias_store :: "nat \<Rightarrow> bytemem \<Rightarrow> u64 \<Rightarrow> 'a::len word \<Rightarrow> bytemem \<times> u64" where
  "alias_store k m p v = (store_le k m p v, p + of_nat k)"

section \<open>Copying and filling: the unrolled versions\<close>

fun load_words :: "nat \<Rightarrow> bytemem \<Rightarrow> u64 \<Rightarrow> u64 list \<times> u64" where
  "load_words 0 m p = ([], p)"
| "load_words (Suc c) m p =
     (let (w, p1) = alias_load 8 m p; (ws, p2) = load_words c m p1 in (w # ws, p2))"

fun store_words :: "u64 list \<Rightarrow> bytemem \<Rightarrow> u64 \<Rightarrow> bytemem \<times> u64" where
  "store_words [] m p = (m, p)"
| "store_words (w # ws) m p = (let (m1, p1) = alias_store 8 m p w in store_words ws m1 p1)"

text \<open>\<open>c\<close> loads into \<open>w1 .. wc\<close>, then \<open>c\<close> stores.\<close>

definition copy64 :: "nat \<Rightarrow> bytemem \<Rightarrow> u64 \<Rightarrow> u64 \<Rightarrow> bytemem \<times> u64 \<times> u64" where
  "copy64 c m d s =
     (let (ws, s1) = load_words c m s; (m1, d1) = store_words ws m d in (m1, d1, s1))"

function memcpy_max_loop :: "bytemem \<Rightarrow> u64 \<Rightarrow> u64 \<Rightarrow> nat \<Rightarrow> bytemem \<times> u64 \<times> u64 \<times> nat" where
  "memcpy_max_loop m d s n =
     (if n \<ge> 8 * 8
      then (let (m1, d1, s1) = copy64 8 m d s in memcpy_max_loop m1 d1 s1 (n - 8 * 8))
      else (m, d, s, n))"
  by pat_completeness auto
termination
  by (relation "measure (\<lambda>(m, d, s, n). n)") auto

declare memcpy_max_loop.simps [simp del]

text \<open>
  \<open>if (n >= b) { loads; stores; n -= b; }\<close>, the shape of the tail of \<open>memcpy\<close>, and the
  load-store pair of the 4 and 2 byte tails.
\<close>

fun copy_block :: "nat \<Rightarrow> (bytemem \<Rightarrow> u64 \<Rightarrow> u64 \<Rightarrow> bytemem \<times> u64 \<times> u64) \<Rightarrow>
    bytemem \<times> u64 \<times> u64 \<times> nat \<Rightarrow> bytemem \<times> u64 \<times> u64 \<times> nat" where
  "copy_block b f (m, d, s, n) =
     (if n \<ge> b then (let (m, d, s) = f m d s in (m, d, s, n - b)) else (m, d, s, n))"

definition copy32 :: "bytemem \<Rightarrow> u64 \<Rightarrow> u64 \<Rightarrow> bytemem \<times> u64 \<times> u64" where
  "copy32 m d s =
     (let (w :: u32, s) = alias_load 4 m s; (m, d) = alias_store 4 m d w in (m, d, s))"

definition copy16 :: "bytemem \<Rightarrow> u64 \<Rightarrow> u64 \<Rightarrow> bytemem \<times> u64 \<times> u64" where
  "copy16 m d s =
     (let (w :: u16, s) = alias_load 2 m s; (m, d) = alias_store 2 m d w in (m, d, s))"

definition memcpy_max :: "bytemem \<Rightarrow> u64 \<Rightarrow> u64 \<Rightarrow> u64 \<Rightarrow> bytemem \<times> u64" where
  "memcpy_max m dest src len =
     (let st = memcpy_max_loop m dest src (unat len);
          st = copy_block (4 * 8) (copy64 4) st;
          st = copy_block (2 * 8) (copy64 2) st;
          st = copy_block 8 (copy64 1) st;
          st = copy_block 4 copy32 st;
          st = copy_block 2 copy16 st;
          (m, d, s, n) = st
      in (if n \<noteq> 0 then m(d := m s) else m, dest))"

function memset_align_loop :: "bytemem \<Rightarrow> u64 \<Rightarrow> u8 \<Rightarrow> nat \<Rightarrow> bytemem \<times> u64 \<times> nat" where
  "memset_align_loop m d byte n =
     (if n \<noteq> 0 \<and> d AND 7 \<noteq> 0 then memset_align_loop (m(d := byte)) (d + 1) byte (n - 1)
      else (m, d, n))"
  by pat_completeness auto
termination
  by (relation "measure (\<lambda>(m, d, b, n). n)") auto

declare memset_align_loop.simps [simp del]

definition pattern64 :: "u8 \<Rightarrow> u64" where
  "pattern64 byte =
     (let b = ucast byte :: u64
      in b OR push_bit 8 b OR push_bit 16 b OR push_bit 24 b
         OR push_bit 32 b OR push_bit 40 b OR push_bit 48 b OR push_bit 56 b)"

definition pattern32 :: "u8 \<Rightarrow> u32" where
  "pattern32 byte =
     (let b = ucast byte :: u32 in b OR push_bit 8 b OR push_bit 16 b OR push_bit 24 b)"

definition pattern16 :: "u8 \<Rightarrow> u16" where
  "pattern16 byte = (let b = ucast byte :: u16 in b OR push_bit 8 b)"

function memset_max_loop :: "bytemem \<Rightarrow> u64 \<Rightarrow> u64 \<Rightarrow> nat \<Rightarrow> bytemem \<times> u64 \<times> nat" where
  "memset_max_loop m d pat n =
     (if n \<ge> 8 * 8
      then (let (m1, d1) = store_words (replicate 8 pat) m d in memset_max_loop m1 d1 pat (n - 8 * 8))
      else (m, d, n))"
  by pat_completeness auto
termination
  by (relation "measure (\<lambda>(m, d, p, n). n)") auto

declare memset_max_loop.simps [simp del]

fun fill_block :: "nat \<Rightarrow> (bytemem \<Rightarrow> u64 \<Rightarrow> bytemem \<times> u64) \<Rightarrow>
    bytemem \<times> u64 \<times> nat \<Rightarrow> bytemem \<times> u64 \<times> nat" where
  "fill_block b f (m, d, n) =
     (if n \<ge> b then (let (m, d) = f m d in (m, d, n - b)) else (m, d, n))"

definition memset_max :: "bytemem \<Rightarrow> u64 \<Rightarrow> u32 \<Rightarrow> u64 \<Rightarrow> bytemem \<times> u64" where
  "memset_max m dest val len =
     (let byte = ucast val :: u8;
          (m, d, n) = memset_align_loop m dest byte (unat len);
          p64 = pattern64 byte; p32 = pattern32 byte; p16 = pattern16 byte;
          st = memset_max_loop m d p64 n;
          st = fill_block (4 * 8) (store_words (replicate 4 p64)) st;
          st = fill_block (2 * 8) (store_words (replicate 2 p64)) st;
          st = fill_block 8 (\<lambda>m d. alias_store 8 m d p64) st;
          st = fill_block 4 (\<lambda>m d. alias_store 4 m d p32) st;
          st = fill_block 2 (\<lambda>m d. alias_store 2 m d p16) st;
          (m, d, n) = st
      in (if n \<noteq> 0 then m(d := byte) else m, dest))"

section \<open>Copying and filling: the byte loops\<close>

function memcpy_loop :: "bytemem \<Rightarrow> u64 \<Rightarrow> u64 \<Rightarrow> nat \<Rightarrow> nat \<Rightarrow> bytemem" where
  "memcpy_loop m pdest psrc i len =
     (if i < len
      then memcpy_loop (m(pdest + of_nat i := m (psrc + of_nat i))) pdest psrc (i + 1) len
      else m)"
  by pat_completeness auto
termination
  by (relation "measure (\<lambda>(m, d, s, i, len). len - i)") auto

declare memcpy_loop.simps [simp del]

definition memcpy :: "bytemem \<Rightarrow> u64 \<Rightarrow> u64 \<Rightarrow> u64 \<Rightarrow> bytemem \<times> u64" where
  "memcpy m dest src len = (memcpy_loop m dest src 0 (unat len), dest)"

function memset_loop :: "bytemem \<Rightarrow> u64 \<Rightarrow> u32 \<Rightarrow> nat \<Rightarrow> nat \<Rightarrow> bytemem" where
  "memset_loop m ptr ch i len =
     (if i < len then memset_loop (m(ptr + of_nat i := ucast ch)) ptr ch (i + 1) len else m)"
  by pat_completeness auto
termination
  by (relation "measure (\<lambda>(m, d, c, i, len). len - i)") auto

declare memset_loop.simps [simp del]

definition memset :: "bytemem \<Rightarrow> u64 \<Rightarrow> u32 \<Rightarrow> u64 \<Rightarrow> bytemem \<times> u64" where
  "memset m dest ch len = (memset_loop m dest ch 0 (unat len), dest)"

primrec memmove_back_loop :: "bytemem \<Rightarrow> u64 \<Rightarrow> u64 \<Rightarrow> nat \<Rightarrow> bytemem" where
  "memmove_back_loop m pdest psrc 0 = m"
| "memmove_back_loop m pdest psrc (Suc i) =
     memmove_back_loop (m(pdest + of_nat i := m (psrc + of_nat i))) pdest psrc i"

definition memmove :: "bytemem \<Rightarrow> u64 \<Rightarrow> u64 \<Rightarrow> u64 \<Rightarrow> bytemem \<times> u64" where
  "memmove m dest src len =
     (if src > dest then memcpy_loop m dest src 0 (unat len)
      else if src < dest then memmove_back_loop m dest src (unat len)
      else m, dest)"

section \<open>Comparing and searching bytes\<close>

function memcmp_loop :: "bytemem \<Rightarrow> u64 \<Rightarrow> u64 \<Rightarrow> nat \<Rightarrow> nat \<Rightarrow> int" where
  "memcmp_loop m p1 p2 i len =
     (if i < len
      then (if m (p1 + of_nat i) \<noteq> m (p2 + of_nat i)
            then (if m (p1 + of_nat i) < m (p2 + of_nat i) then -1 else 1)
            else memcmp_loop m p1 p2 (i + 1) len)
      else 0)"
  by pat_completeness auto
termination
  by (relation "measure (\<lambda>(m, p, q, i, len). len - i)") auto

declare memcmp_loop.simps [simp del]

definition memcmp :: "bytemem \<Rightarrow> u64 \<Rightarrow> u64 \<Rightarrow> u64 \<Rightarrow> int" where
  "memcmp m ptr1 ptr2 len = memcmp_loop m ptr1 ptr2 0 (unat len)"

text \<open>\<open>*psrc == ch\<close> compares the byte, promoted to \<open>int\<close>, with the whole argument.\<close>

primrec memchr_loop :: "bytemem \<Rightarrow> u64 \<Rightarrow> int \<Rightarrow> nat \<Rightarrow> u64" where
  "memchr_loop m psrc ch 0 = 0"
| "memchr_loop m psrc ch (Suc len) =
     (if uint (m psrc) = ch then psrc else memchr_loop m (psrc + 1) ch len)"

definition memchr :: "bytemem \<Rightarrow> u64 \<Rightarrow> int \<Rightarrow> u64 \<Rightarrow> u64" where
  "memchr m ptr ch len = memchr_loop m ptr ch (unat len)"

section \<open>Strings\<close>

partial_function (option) strlen_loop :: "bytemem \<Rightarrow> u64 \<Rightarrow> u64 \<Rightarrow> u64 option" where
  "strlen_loop m str l =
     (if m (str + l) \<noteq> 0 then strlen_loop m str (l + 1) else Some l)"

definition strlen :: "bytemem \<Rightarrow> u64 \<Rightarrow> u64 option" where
  "strlen m str = strlen_loop m str 0"

function strnlen_loop :: "bytemem \<Rightarrow> u64 \<Rightarrow> u64 \<Rightarrow> u64 \<Rightarrow> u64" where
  "strnlen_loop m str len l =
     (if l < len \<and> m (str + l) \<noteq> 0 then strnlen_loop m str len (l + 1) else l)"
  by pat_completeness auto
termination
  by (relation "measure (\<lambda>(m, str, len, l). unat len - unat l)")
    (auto simp: word_nat, simp add: word_less_nat_alt)

declare strnlen_loop.simps [simp del]

definition strnlen :: "bytemem \<Rightarrow> u64 \<Rightarrow> u64 \<Rightarrow> u64" where
  "strnlen m str len = strnlen_loop m str len 0"

text \<open>\<open>lib::alloc\<close> is the slab allocator: a parameter, null when it has no memory.\<close>

definition strdup :: "(u64 \<Rightarrow> u64) \<Rightarrow> bytemem \<Rightarrow> u64 \<Rightarrow> (bytemem \<times> u64) option" where
  "strdup lib_alloc m str =
     (case strlen m str of None \<Rightarrow> None
      | Some l \<Rightarrow>
          let len = l + 1; newstr = lib_alloc len
          in if newstr = 0 then Some (m, 0) else Some (memcpy m newstr str len))"

partial_function (option) strcpy_loop :: "bytemem \<Rightarrow> u64 \<Rightarrow> u64 \<Rightarrow> bytemem option" where
  "strcpy_loop m dest src =
     (if m src \<noteq> 0 then strcpy_loop (m(dest := m src)) (dest + 1) (src + 1)
      else Some (m(dest := 0)))"

definition strcpy :: "bytemem \<Rightarrow> u64 \<Rightarrow> u64 \<Rightarrow> (bytemem \<times> u64) option" where
  "strcpy m dest src = map_option (\<lambda>m'. (m', dest)) (strcpy_loop m dest src)"

text \<open>\<open>while (*src != 0 && len--)\<close>: at most \<open>len\<close> bytes, then the terminator.\<close>

fun strncpy_loop :: "bytemem \<Rightarrow> u64 \<Rightarrow> u64 \<Rightarrow> nat \<Rightarrow> bytemem" where
  "strncpy_loop m dest src len =
     (if m src \<noteq> 0
      then (case len of 0 \<Rightarrow> m(dest := 0)
            | Suc len' \<Rightarrow> strncpy_loop (m(dest := m src)) (dest + 1) (src + 1) len')
      else m(dest := 0))"

declare strncpy_loop.simps [simp del]

definition strncpy :: "bytemem \<Rightarrow> u64 \<Rightarrow> u64 \<Rightarrow> u64 \<Rightarrow> bytemem \<times> u64" where
  "strncpy m dest src len = (strncpy_loop m dest src (unat len), dest)"

definition strcat :: "bytemem \<Rightarrow> u64 \<Rightarrow> u64 \<Rightarrow> (bytemem \<times> u64) option" where
  "strcat m dest src =
     (case strlen m dest of None \<Rightarrow> None
      | Some l \<Rightarrow> map_option (\<lambda>m'. (m', dest)) (strcpy_loop m (dest + l) src))"

definition strncat :: "bytemem \<Rightarrow> u64 \<Rightarrow> u64 \<Rightarrow> u64 \<Rightarrow> (bytemem \<times> u64) option" where
  "strncat m dest src len =
     (case strlen m dest of None \<Rightarrow> None
      | Some l \<Rightarrow> Some (strncpy_loop m (dest + l) src (unat len), dest))"

partial_function (option) strchr :: "bytemem \<Rightarrow> u64 \<Rightarrow> int \<Rightarrow> u64 option" where
  "strchr m str ch =
     (if m str \<noteq> 0 \<and> sint (m str) \<noteq> ch then strchr m (str + 1) ch
      else Some (if ch = sint (m str) then str else 0))"

partial_function (option) strcmp :: "bytemem \<Rightarrow> u64 \<Rightarrow> u64 \<Rightarrow> int option" where
  "strcmp m str1 str2 =
     (if m str1 \<noteq> 0 \<and> m str2 \<noteq> 0 \<and> m str1 = m str2 then strcmp m (str1 + 1) (str2 + 1)
      else Some (sint (m str1) - sint (m str2)))"

text \<open>
  \<open>len--\<close> is evaluated last in the loop condition; when it reads 0 the loop ends with
  \<open>len\<close> wrapped to the largest value.
\<close>

definition strncmp_end :: "bytemem \<Rightarrow> u64 \<Rightarrow> u64 \<Rightarrow> u64 \<Rightarrow> int" where
  "strncmp_end m str1 str2 len = (if len = 0 then 0 else sint (m str1) - sint (m str2))"

function strncmp :: "bytemem \<Rightarrow> u64 \<Rightarrow> u64 \<Rightarrow> u64 \<Rightarrow> int" where
  "strncmp m str1 str2 len =
     (if m str1 \<noteq> 0 \<and> m str2 \<noteq> 0 \<and> m str1 = m str2
      then (if len \<noteq> 0 then strncmp m (str1 + 1) (str2 + 1) (len - 1)
            else strncmp_end m str1 str2 (len - 1))
      else strncmp_end m str1 str2 len)"
  by pat_completeness auto
termination
  by (relation "measure (\<lambda>(m, p, q, len). unat len)") (auto simp: unat_minus_one unat_gt_0)

declare strncmp.simps [simp del]

partial_function (option) strstr_loop ::
  "bytemem \<Rightarrow> u64 \<Rightarrow> u64 \<Rightarrow> u64 \<Rightarrow> u64 \<Rightarrow> u64 option" where
  "strstr_loop m str a b substr =
     (if m b = 0 then Some str
      else if m a = 0 then Some 0
      else if m a \<noteq> m b then strstr_loop m (str + 1) (str + 1) substr substr
      else strstr_loop m str (a + 1) (b + 1) substr)"

definition strstr :: "bytemem \<Rightarrow> u64 \<Rightarrow> u64 \<Rightarrow> u64 option" where
  "strstr m str substr = strstr_loop m str str substr substr"

function strrev_loop :: "bytemem \<Rightarrow> u64 \<Rightarrow> u64 \<Rightarrow> u64 \<Rightarrow> bytemem" where
  "strrev_loop m str i j =
     (if i < j
      then (let a = m (str + i); m = m(str + i := m (str + j)); m = m(str + j := a)
            in strrev_loop m str (i + 1) (j - 1))
      else m)"
  by pat_completeness auto
termination
  by (relation "measure (\<lambda>(m, str, i, j). unat j - unat i)")
    (auto simp: word_nat, simp add: word_less_nat_alt)

declare strrev_loop.simps [simp del]

definition strrev :: "bytemem \<Rightarrow> u64 \<Rightarrow> bytemem option" where
  "strrev m str =
     (case strlen m str of None \<Rightarrow> None | Some len \<Rightarrow> Some (strrev_loop m str 0 (len - 1)))"

section \<open>Character classes\<close>

text \<open>
  \<^verbatim>\<open>kernel/source/libc/ctype.cpp\<close>; the arguments are \<open>int\<close>. Character literals are
  written as their codes.
\<close>

definition isalnum :: "int \<Rightarrow> bool" where
  "isalnum c \<longleftrightarrow> (c \<ge> 48 \<and> c \<le> 57) \<or> (c \<ge> 97 \<and> c \<le> 122) \<or> (c \<ge> 65 \<and> c \<le> 90)"

definition isalpha :: "int \<Rightarrow> bool" where
  "isalpha c \<longleftrightarrow> (c \<ge> 97 \<and> c \<le> 122) \<or> (c \<ge> 65 \<and> c \<le> 90)"

definition islower :: "int \<Rightarrow> bool" where
  "islower c \<longleftrightarrow> c \<ge> 97 \<and> c \<le> 122"

definition isupper :: "int \<Rightarrow> bool" where
  "isupper c \<longleftrightarrow> c \<ge> 65 \<and> c \<le> 90"

definition isdigit :: "int \<Rightarrow> bool" where
  "isdigit c \<longleftrightarrow> c \<ge> 48 \<and> c \<le> 57"

definition isxdigit :: "int \<Rightarrow> bool" where
  "isxdigit c \<longleftrightarrow> (c \<ge> 48 \<and> c \<le> 57) \<or> (c \<ge> 97 \<and> c \<le> 102) \<or> (c \<ge> 65 \<and> c \<le> 70)"

definition iscntrl :: "int \<Rightarrow> bool" where
  "iscntrl c \<longleftrightarrow> (c \<ge> 0x00 \<and> c \<le> 0x1F) \<or> c = 0x7F"

definition isgraph :: "int \<Rightarrow> bool" where
  "isgraph c \<longleftrightarrow> c \<ge> 33 \<and> c \<le> 126"

definition isspace :: "int \<Rightarrow> bool" where
  "isspace c \<longleftrightarrow> c = 32 \<or> c = 12 \<or> c = 10 \<or> c = 13 \<or> c = 9 \<or> c = 11"

definition isblank :: "int \<Rightarrow> bool" where
  "isblank c \<longleftrightarrow> c = 32 \<or> c = 9"

definition isprint :: "int \<Rightarrow> bool" where
  "isprint c \<longleftrightarrow> (c \<ge> 33 \<and> c \<le> 126) \<or> c = 32"

definition ispunct :: "int \<Rightarrow> bool" where
  "ispunct c \<longleftrightarrow> (c \<ge> 33 \<and> c \<le> 47) \<or> (c \<ge> 58 \<and> c \<le> 64) \<or> (c \<ge> 91 \<and> c \<le> 96) \<or> (c \<ge> 123 \<and> c \<le> 126)"

definition toupper :: "int \<Rightarrow> int" where
  "toupper c = (if c \<ge> 97 \<and> c \<le> 122 then c - 0x20 else c)"

definition tolower :: "int \<Rightarrow> int" where
  "tolower c = (if c \<ge> 65 \<and> c \<le> 90 then c + 0x20 else c)"

lemmas ctype_defs = isalnum_def isalpha_def islower_def isupper_def isdigit_def isxdigit_def
  iscntrl_def isgraph_def isspace_def isblank_def isprint_def ispunct_def toupper_def tolower_def

section \<open>Specifications\<close>

text \<open>
  \<open>copied m0 m d s n\<close> is \<open>m\<close> with \<open>n\<close> bytes of \<open>m0\<close> from \<open>s\<close> written at \<open>d\<close>;
  \<open>filled m d v n\<close> is \<open>m\<close> with \<open>n\<close> bytes at \<open>d\<close> set to \<open>v\<close>. Distances are taken
  modulo the address space.
\<close>

definition copied :: "bytemem \<Rightarrow> bytemem \<Rightarrow> u64 \<Rightarrow> u64 \<Rightarrow> nat \<Rightarrow> bytemem" where
  "copied m0 m d s n = (\<lambda>a. if unat (a - d) < n then m0 (s + (a - d)) else m a)"

definition filled :: "bytemem \<Rightarrow> u64 \<Rightarrow> u8 \<Rightarrow> nat \<Rightarrow> bytemem" where
  "filled m d v n = (\<lambda>a. if unat (a - d) < n then v else m a)"

definition nonoverlapping :: "u64 \<Rightarrow> u64 \<Rightarrow> nat \<Rightarrow> bool" where
  "nonoverlapping d s n \<longleftrightarrow> n \<le> unat (s - d) \<and> n \<le> unat (d - s)"

text \<open>
  A piece of straight-line code that moves \<open>b\<close> bytes and both cursors, and the state of
  a copy of \<open>N\<close> bytes that has \<open>n\<close> left to do.
\<close>

definition moves :: "nat \<Rightarrow> (bytemem \<Rightarrow> u64 \<Rightarrow> u64 \<Rightarrow> bytemem \<times> u64 \<times> u64) \<Rightarrow> bool" where
  "moves b f \<longleftrightarrow> (\<forall>m d s. f m d s = (copied m m d s b, d + of_nat b, s + of_nat b))"

definition copy_left :: "bytemem \<Rightarrow> u64 \<Rightarrow> u64 \<Rightarrow> nat \<Rightarrow> nat \<Rightarrow> bytemem \<times> u64 \<times> u64 \<times> nat" where
  "copy_left m d s N n = (copied m m d s (N - n), d + of_nat (N - n), s + of_nat (N - n), n)"

definition fill_left :: "bytemem \<Rightarrow> u64 \<Rightarrow> u8 \<Rightarrow> nat \<Rightarrow> nat \<Rightarrow> bytemem \<times> u64 \<times> nat" where
  "fill_left m d v N n = (filled m d v (N - n), d + of_nat (N - n), n)"

definition fills :: "nat \<Rightarrow> u8 \<Rightarrow> (bytemem \<Rightarrow> u64 \<Rightarrow> bytemem \<times> u64) \<Rightarrow> bool" where
  "fills b v f \<longleftrightarrow> (\<forall>m d. f m d = (filled m d v b, d + of_nat b))"

fun cstr :: "bytemem \<Rightarrow> u64 \<Rightarrow> u8 list \<Rightarrow> bool" where
  "cstr m p [] \<longleftrightarrow> m p = 0"
| "cstr m p (c # cs) \<longleftrightarrow> m p = c \<and> c \<noteq> 0 \<and> cstr m (p + 1) cs"

text \<open>The C library's comparison of two strings, on signed characters.\<close>

fun cmp_bytes :: "u8 list \<Rightarrow> u8 list \<Rightarrow> int" where
  "cmp_bytes [] [] = 0"
| "cmp_bytes [] (d # ds) = - sint d"
| "cmp_bytes (c # cs) [] = sint c"
| "cmp_bytes (c # cs) (d # ds) = (if c = d then cmp_bytes cs ds else sint c - sint d)"

text \<open>The first position where a string occurs in another.\<close>

fun find_sub :: "u8 list \<Rightarrow> u8 list \<Rightarrow> nat option" where
  "find_sub [] t = (if t = [] then Some 0 else None)"
| "find_sub (c # cs) t = (if prefix t (c # cs) then Some 0 else map_option Suc (find_sub cs t))"

section \<open>Copying\<close>



lemma bit_load_le:
  "bit (load_le k m p :: 'a::len word) n \<longleftrightarrow> n < LENGTH('a) \<and> n < 8 * k \<and> bit (m (p + of_nat (n div 8))) (n mod 8)"
proof (induction k arbitrary: p n)
  case 0
  then show ?case by simp
next
  case (Suc k)
  show ?case
  proof (cases "n < 8")
    case True
    then show ?thesis by (auto simp: bit_simps Suc.IH)
  next
    case False
    then have "n div 8 = Suc ((n - 8) div 8)" "n mod 8 = (n - 8) mod 8"
      by (simp_all add: le_div_geq le_mod_geq)
    moreover have "\<not> bit (m p) n" using False bit_imp_le_length [of "m p" n] by auto
    ultimately show ?thesis using False
      by (auto simp: bit_simps Suc.IH algebra_simps)
  qed
qed

lemma load_le_byte:
  assumes "i < k" "LENGTH('a::len) = 8 * k"
  shows "(ucast (drop_bit (8 * i) (load_le k m p :: 'a word)) :: u8) = m (p + of_nat i)"
proof (rule bit_eqI)
  fix n assume "possible_bit TYPE(u8) n"
  then have "n < 8" by simp
  then show "bit (ucast (drop_bit (8 * i) (load_le k m p :: 'a word)) :: u8) n = bit (m (p + of_nat i)) n"
    using assms by (auto simp: bit_simps bit_load_le)
qed

lemma store_load_copied:
  "LENGTH('a::len) = 8 * k \<Longrightarrow> store_le k m d (load_le k m0 s :: 'a word) = copied m0 m d s k"
  by (auto simp: store_le_def copied_def load_le_byte)

lemma unat_diff_shift:
  fixes a d :: u64
  assumes "k < 2 ^ 64"
  shows "unat (a - (d + of_nat k)) = (if k \<le> unat (a - d) then unat (a - d) - k else unat (a - d) + 2 ^ 64 - k)"
proof -
  have "a - (d + of_nat k) = a - d - of_nat k" by (simp add: algebra_simps)
  then show ?thesis
    using unat_sub_of_nat [OF assms, of "a - d"] by (simp only:)
qed

lemma shift_less_iff:
  fixes a d :: u64
  assumes "k + l < 2 ^ 64"
  shows "unat (a - (d + of_nat k)) < l \<longleftrightarrow> k \<le> unat (a - d) \<and> unat (a - d) < k + l"
  using assms by (subst unat_diff_shift) auto

lemma copied_append:
  assumes "k + l < 2 ^ 64"
  shows "copied m0 (copied m0 m d s k) (d + of_nat k) (s + of_nat k) l = copied m0 m d s (k + l)"
proof
  fix a
  show "copied m0 (copied m0 m d s k) (d + of_nat k) (s + of_nat k) l a = copied m0 m d s (k + l) a"
    by (auto simp: copied_def shift_less_iff [OF assms])
qed

lemma nonoverlapping_source:
  assumes "nonoverlapping d s n" "x < n"
  shows "n \<le> unat (s + of_nat x - d)"
proof -
  have n: "n \<le> unat (s - d)" "n \<le> unat (d - s)" using assms(1) by (auto simp: nonoverlapping_def)
  have "s - d \<noteq> 0" using n assms(2) by auto
  moreover have "d - s = - (s - d)" by simp
  ultimately have "unat (d - s) = 2 ^ 64 - unat (s - d)"
    using unat_uminus_u64 by (simp only:)
  then have "unat (s - d) + x < 2 ^ 64"
    using n assms(2) by linarith
  then have "unat (s - d + of_nat x) = unat (s - d) + x"
    by (simp add: unat_add_of_nat)
  moreover have "s + of_nat x - d = s - d + of_nat x" by simp
  ultimately show ?thesis using n(1) by (simp only:)
qed

lemma nonoverlapping_mono: "nonoverlapping d s n \<Longrightarrow> k \<le> n \<Longrightarrow> nonoverlapping d s k"
  by (auto simp: nonoverlapping_def)

lemma copied_twice:
  assumes "k + l < 2 ^ 64" "nonoverlapping d s (k + l)"
  shows "copied (copied m m d s k) (copied m m d s k) (d + of_nat k) (s + of_nat k) l = copied m m d s (k + l)"
proof
  fix a
  let ?m = "copied m m d s k"
  have "?m (s + (a - d)) = m (s + (a - d))" if "unat (a - d) < k + l"
  proof -
    from that have "k + l \<le> unat (s + (a - d) - d)"
      using nonoverlapping_source [OF assms(2), of "unat (a - d)"] by simp
    then show ?thesis by (auto simp: copied_def)
  qed
  then show "copied ?m ?m (d + of_nat k) (s + of_nat k) l a = copied m m d s (k + l) a"
    unfolding copied_def [of ?m] shift_less_iff [OF assms(1)] by (auto simp: copied_def)
qed

lemma copied_0 [simp]: "copied m0 m d s 0 = m"
  by (simp add: copied_def)

lemma store_words_load_words:
  "8 * c < 2 ^ 64 \<Longrightarrow> store_words (fst (load_words c m0 s)) m d = (copied m0 m d s (8 * c), d + of_nat (8 * c))"
proof (induction c arbitrary: s d m)
  case 0
  then show ?case by simp
next
  case (Suc c)
  have "store_words (fst (load_words (Suc c) m0 s)) m d
    = store_words (fst (load_words c m0 (s + of_nat 8))) (copied m0 m d s 8) (d + of_nat 8)"
    by (simp add: alias_load_def alias_store_def store_load_copied split: prod.splits)
  also have "\<dots> = (copied m0 (copied m0 m d s 8) (d + of_nat 8) (s + of_nat 8) (8 * c), d + of_nat 8 + of_nat (8 * c))"
    using Suc by (subst Suc.IH) auto
  also have "\<dots> = (copied m0 m d s (8 * Suc c), d + of_nat (8 * Suc c))"
    using Suc.prems copied_append [of 8 "8 * c"] by (simp add: algebra_simps)
  finally show ?case .
qed

lemma load_words_snd: "snd (load_words c m s) = s + of_nat (8 * c)"
proof (induction c arbitrary: s)
  case (Suc c)
  show ?case
    using Suc [of "s + 8"]
    by (cases "load_words c m (s + 8)") (simp add: alias_load_def algebra_simps)
qed simp

lemma copy64_copied:
  "8 * c < 2 ^ 64 \<Longrightarrow>
   copy64 c m d s = (copied m m d s (8 * c), d + of_nat (8 * c), s + of_nat (8 * c))"
  using store_words_load_words [of c m s m d] load_words_snd [of c m s]
  by (auto simp: copy64_def split: prod.splits)

lemma moves_copy64: "8 * c < 2 ^ 64 \<Longrightarrow> moves (8 * c) (copy64 c)"
  by (simp add: moves_def copy64_copied)

lemma moves_copy32: "moves 4 copy32"
  by (simp add: moves_def copy32_def alias_load_def alias_store_def store_load_copied)

lemma moves_copy16: "moves 2 copy16"
  by (simp add: moves_def copy16_def alias_load_def alias_store_def store_load_copied)

lemma copy_left_step:
  assumes "moves b f" "b \<le> n" "n \<le> N" "N < 2 ^ 64" "nonoverlapping d s N"
  shows "(case copy_left m d s N n of (m1, d1, s1, n1) \<Rightarrow>
            case f m1 d1 s1 of (m2, d2, s2) \<Rightarrow> (m2, d2, s2, n1 - b)) = copy_left m d s N (n - b)"
proof -
  have N: "N - (n - b) = (N - n) + b" using assms(2,3) by simp
  have "copied (copied m m d s (N - n)) (copied m m d s (N - n)) (d + of_nat (N - n)) (s + of_nat (N - n)) b
        = copied m m d s (N - n + b)"
    using assms by (intro copied_twice nonoverlapping_mono [OF assms(5)]) auto
  with assms(1) show ?thesis
    by (simp add: moves_def copy_left_def N add.assoc)
qed

lemma copy_left_block:
  assumes "moves b f" "n < 2 * b" "n \<le> N" "N < 2 ^ 64" "nonoverlapping d s N"
  shows "copy_block b f (copy_left m d s N n) = copy_left m d s N (n mod b)"
proof (cases "b \<le> n")
  case True
  then have "n mod b = n - b" using assms(2) by (simp add: le_mod_geq)
  with True copy_left_step [OF assms(1) True assms(3-5)] show ?thesis
    by (simp add: copy_left_def split: prod.splits)
next
  case False
  then show ?thesis by (simp add: copy_left_def)
qed

lemma memcpy_max_loop_left:
  assumes "n \<le> N" "N < 2 ^ 64" "nonoverlapping d s N"
  shows "(case copy_left m d s N n of (m1, d1, s1, n1) \<Rightarrow> memcpy_max_loop m1 d1 s1 n1)
         = copy_left m d s N (n mod 64)"
  using assms(1)
proof (induction n rule: less_induct)
  case (less n)
  show ?case
  proof (cases "64 \<le> n")
    case False
    then show ?thesis by (simp add: copy_left_def memcpy_max_loop.simps)
  next
    case True
    have step: "(case copy_left m d s N n of (m1, d1, s1, n1) \<Rightarrow>
            case copy64 8 m1 d1 s1 of (m2, d2, s2) \<Rightarrow> (m2, d2, s2, n1 - 64)) = copy_left m d s N (n - 64)"
      using copy_left_step [OF moves_copy64 [of 8]] True less.prems assms by simp
    have "(case copy_left m d s N n of (m1, d1, s1, n1) \<Rightarrow> memcpy_max_loop m1 d1 s1 n1)
        = (case copy_left m d s N (n - 64) of (m1, d1, s1, n1) \<Rightarrow> memcpy_max_loop m1 d1 s1 n1)"
      unfolding step [symmetric] using True
      by (subst memcpy_max_loop.simps) (simp add: copy_left_def split: prod.splits)
    also have "\<dots> = copy_left m d s N ((n - 64) mod 64)"
      using True less.prems by (intro less.IH) auto
    finally show ?thesis using True by (simp add: le_mod_geq)
  qed
qed

lemma copied_one: "copied m0 m d s (Suc 0) = m(d := m0 s)"
  by (auto simp: copied_def unat_eq_zero)

lemma copied_last_byte:
  "nonoverlapping d s (Suc k) \<Longrightarrow> Suc k < 2 ^ 64 \<Longrightarrow>
   (copied m m d s k)(d + of_nat k := copied m m d s k (s + of_nat k)) = copied m m d s (Suc k)"
  using copied_twice [of k 1 d s m] by (simp add: copied_one)

lemma memcpy_max_copied:
  assumes "nonoverlapping dest src (unat len)"
  shows "memcpy_max m dest src len = (copied m m dest src (unat len), dest)"
proof -
  define N where "N = unat len"
  have N: "N < 2 ^ 64" "nonoverlapping dest src N"
    using assms unat_lt_2p64 [of len] by (simp_all add: N_def)
  let ?L = "copy_left m dest src N"
  have loop: "memcpy_max_loop m dest src N = ?L (N mod 64)"
    using memcpy_max_loop_left [OF order_refl N, of m] by (simp add: copy_left_def [of _ _ _ N N])
  have 5: "copy_block (4 * 8) (copy64 4) (?L (N mod 64)) = ?L (N mod 32)"
    using copy_left_block [OF moves_copy64 [of 4] _ _ N, of "N mod 64"] by (simp add: mod_mod_cancel)
  have 4: "copy_block (2 * 8) (copy64 2) (?L (N mod 32)) = ?L (N mod 16)"
    using copy_left_block [OF moves_copy64 [of 2] _ _ N, of "N mod 32"] by (simp add: mod_mod_cancel)
  have 3: "copy_block 8 (copy64 1) (?L (N mod 16)) = ?L (N mod 8)"
    using copy_left_block [OF moves_copy64 [of 1] _ _ N, of "N mod 16"] by (simp add: mod_mod_cancel)
  have 2: "copy_block 4 copy32 (?L (N mod 8)) = ?L (N mod 4)"
    using copy_left_block [OF moves_copy32 _ _ N, of "N mod 8"] by (simp add: mod_mod_cancel)
  have 1: "copy_block 2 copy16 (?L (N mod 4)) = ?L (N mod 2)"
    using copy_left_block [OF moves_copy16 _ _ N, of "N mod 4"] by (simp add: mod_mod_cancel)
  have stages: "memcpy_max m dest src len = (case ?L (N mod 2) of (m, d, s, n) \<Rightarrow> (if n \<noteq> 0 then m(d := m s) else m, dest))"
    by (simp only: memcpy_max_def Let_def N_def [symmetric] loop 5 4 3 2 1)
  show ?thesis
  proof (cases "N mod 2 = 0")
    case True
    then show ?thesis by (simp add: stages copy_left_def N_def)
  next
    case False
    then have "N mod 2 = 1" "Suc (N - 1) = N" by presburger+
    then show ?thesis
      using copied_last_byte [of dest src "N - 1" m] N
      by (simp add: stages copy_left_def N_def)
  qed
qed

lemma memcpy_loop_copied:
  "k \<le> n \<Longrightarrow> n < 2 ^ 64 \<Longrightarrow> nonoverlapping d s n \<Longrightarrow>
   memcpy_loop (copied m m d s k) d s k n = copied m m d s n"
proof (induction "n - k" arbitrary: k)
  case 0
  then show ?case by (simp add: memcpy_loop.simps)
next
  case (Suc x)
  then have "nonoverlapping d s (Suc k)" by (auto intro: nonoverlapping_mono)
  then have "(copied m m d s k)(d + of_nat k := copied m m d s k (s + of_nat k)) = copied m m d s (Suc k)"
    using Suc.prems Suc.hyps(2) by (intro copied_last_byte) auto
  moreover have "memcpy_loop (copied m m d s (Suc k)) d s (Suc k) n = copied m m d s n"
    using Suc.prems Suc.hyps(2) by (intro Suc.hyps(1)) auto
  ultimately show ?case
    using Suc.hyps(2) by (subst memcpy_loop.simps) auto
qed

lemma memcpy_copied:
  "nonoverlapping dest src (unat len) \<Longrightarrow> memcpy m dest src len = (copied m m dest src (unat len), dest)"
  using memcpy_loop_copied [of 0 "unat len" dest src m] unat_lt_2p64 [of len]
  by (simp add: memcpy_def)

section \<open>Filling\<close>

lemma filled_0 [simp]: "filled m d v 0 = m"
  by (simp add: filled_def)

lemma filled_one: "filled m d v (Suc 0) = m(d := v)"
  by (auto simp: filled_def unat_eq_zero)

lemma filled_append:
  assumes "k + l < 2 ^ 64"
  shows "filled (filled m d v k) (d + of_nat k) v l = filled m d v (k + l)"
  by (auto simp: filled_def shift_less_iff [OF assms])

lemma filled_last_byte:
  "Suc k < 2 ^ 64 \<Longrightarrow> (filled m d v k)(d + of_nat k := v) = filled m d v (Suc k)"
  using filled_append [of k 1 m d v] by (simp add: filled_one)

lemma pattern_load_le:
  "pattern64 b = load_le 8 (\<lambda>_. b) p" "pattern32 b = load_le 4 (\<lambda>_. b) p" "pattern16 b = load_le 2 (\<lambda>_. b) p"
  by (simp_all add: pattern64_def pattern32_def pattern16_def eval_nat_numeral push_bit_or push_bit_push_bit
      or.assoc Let_def)

lemma store_pattern:
  "store_le 8 m d (pattern64 b) = filled m d b 8"
  "store_le 4 m d (pattern32 b) = filled m d b 4"
  "store_le 2 m d (pattern16 b) = filled m d b 2"
  unfolding pattern_load_le [where p = 0]
  by (simp_all add: store_load_copied copied_def filled_def)

lemma store_words_pattern:
  "8 * c < 2 ^ 64 \<Longrightarrow> store_words (replicate c (pattern64 b)) m d = (filled m d b (8 * c), d + of_nat (8 * c))"
proof (induction c arbitrary: m d)
  case (Suc c)
  then show ?case
    using filled_append [of 8 "8 * c" m d b]
    by (simp add: alias_store_def store_pattern algebra_simps)
qed simp

lemma fill_left_step:
  assumes "fills b v f" "b \<le> n" "n \<le> N" "N < 2 ^ 64"
  shows "(case fill_left m d v N n of (m1, d1, n1) \<Rightarrow> case f m1 d1 of (m2, d2) \<Rightarrow> (m2, d2, n1 - b))
         = fill_left m d v N (n - b)"
proof -
  have N: "N - (n - b) = (N - n) + b" using assms(2,3) by simp
  have "filled (filled m d v (N - n)) (d + of_nat (N - n)) v b = filled m d v (N - n + b)"
    using assms by (intro filled_append) auto
  with assms(1) show ?thesis by (simp add: fills_def fill_left_def N add.assoc)
qed

lemma fill_left_block:
  assumes "fills b v f" "n < 2 * b" "n \<le> N" "N < 2 ^ 64"
  shows "fill_block b f (fill_left m d v N n) = fill_left m d v N (n mod b)"
proof (cases "b \<le> n")
  case True
  then have "n mod b = n - b" using assms(2) by (simp add: le_mod_geq)
  with True fill_left_step [OF assms(1) True assms(3,4)] show ?thesis
    by (simp add: fill_left_def split: prod.splits)
next
  case False
  then show ?thesis by (simp add: fill_left_def)
qed

lemma fills_pattern:
  "8 * c < 2 ^ 64 \<Longrightarrow> fills (8 * c) v (store_words (replicate c (pattern64 v)))"
  "fills 8 v (\<lambda>m d. alias_store 8 m d (pattern64 v))"
  "fills 4 v (\<lambda>m d. alias_store 4 m d (pattern32 v))"
  "fills 2 v (\<lambda>m d. alias_store 2 m d (pattern16 v))"
  by (simp_all add: fills_def store_words_pattern alias_store_def store_pattern)

lemma memset_align_loop_left:
  assumes "n \<le> N" "N < 2 ^ 64"
  shows "\<exists>n' \<le> n. (case fill_left m d v N n of (m1, d1, n1) \<Rightarrow> memset_align_loop m1 d1 v n1) = fill_left m d v N n'"
  using assms(1)
proof (induction n)
  case 0
  then show ?case by (auto simp: fill_left_def memset_align_loop.simps)
next
  case (Suc n)
  let ?d = "d + of_nat (N - Suc n)"
  show ?case
  proof (cases "?d AND 7 = 0")
    case True
    then show ?thesis
      by (intro exI [of _ "Suc n"]) (simp add: fill_left_def memset_align_loop.simps)
  next
    case False
    have "N - n = Suc (N - Suc n)" using Suc.prems by simp
    moreover have "(filled m d v (N - Suc n))(?d := v) = filled m d v (Suc (N - Suc n))"
      using assms Suc.prems by (intro filled_last_byte) auto
    moreover have "?d + 1 = d + of_nat (Suc (N - Suc n))" by (simp del: of_nat_diff)
    ultimately have "(filled m d v (N - Suc n))(?d := v) = filled m d v (N - n)" "?d + 1 = d + of_nat (N - n)"
      by simp_all
    then have "(case fill_left m d v N (Suc n) of (m1, d1, n1) \<Rightarrow> memset_align_loop m1 d1 v n1)
      = (case fill_left m d v N n of (m1, d1, n1) \<Rightarrow> memset_align_loop m1 d1 v n1)"
      using False by (simp add: fill_left_def memset_align_loop.simps [of _ ?d] add.assoc)
    then show ?thesis using Suc by (metis Suc_leD le_SucI)
  qed
qed

lemma memset_max_loop_left:
  assumes "n \<le> N" "N < 2 ^ 64"
  shows "(case fill_left m d v N n of (m1, d1, n1) \<Rightarrow> memset_max_loop m1 d1 (pattern64 v) n1)
         = fill_left m d v N (n mod 64)"
  using assms(1)
proof (induction n rule: less_induct)
  case (less n)
  show ?case
  proof (cases "64 \<le> n")
    case False
    then show ?thesis by (simp add: fill_left_def memset_max_loop.simps)
  next
    case True
    have step: "(case fill_left m d v N n of (m1, d1, n1) \<Rightarrow>
            case store_words (replicate 8 (pattern64 v)) m1 d1 of (m2, d2) \<Rightarrow> (m2, d2, n1 - 64)) = fill_left m d v N (n - 64)"
      using fill_left_step [OF fills_pattern(1) [of 8]] True less.prems assms by simp
    have "(case fill_left m d v N n of (m1, d1, n1) \<Rightarrow> memset_max_loop m1 d1 (pattern64 v) n1)
        = (case fill_left m d v N (n - 64) of (m1, d1, n1) \<Rightarrow> memset_max_loop m1 d1 (pattern64 v) n1)"
      unfolding step [symmetric] using True
      by (subst memset_max_loop.simps) (simp add: fill_left_def split: prod.splits)
    also have "\<dots> = fill_left m d v N ((n - 64) mod 64)"
      using True less.prems by (intro less.IH) auto
    finally show ?thesis using True by (simp add: le_mod_geq)
  qed
qed

lemma memset_max_filled:
  "memset_max m dest val len = (filled m dest (ucast val) (unat len), dest)"
proof -
  define N where "N = unat len"
  have N: "N < 2 ^ 64" using unat_lt_2p64 [of len] by (simp add: N_def)
  define v where "v = (ucast val :: u8)"
  let ?L = "fill_left m dest v N"
  obtain n where n: "n \<le> N" "memset_align_loop m dest v N = ?L n"
    using memset_align_loop_left [OF order_refl N, where m = m and d = dest and v = v] by (auto simp: fill_left_def [of _ _ _ N N])
  obtain m1 d1 where L: "?L n = (m1, d1, n)" by (simp add: fill_left_def)
  have loop: "memset_max_loop m1 d1 (pattern64 v) n = ?L (n mod 64)"
    using memset_max_loop_left [OF n(1) N, where m = m and d = dest and v = v] L by simp
  have le: "n mod k \<le> N" for k using n(1) mod_less_eq_dividend order_trans by blast
  have 5: "fill_block (4 * 8) (store_words (replicate 4 (pattern64 v))) (?L (n mod 64)) = ?L (n mod 32)"
    using fill_left_block [OF fills_pattern(1) [of 4] _ le N, of 64] by (simp add: mod_mod_cancel)
  have 4: "fill_block (2 * 8) (store_words (replicate 2 (pattern64 v))) (?L (n mod 32)) = ?L (n mod 16)"
    using fill_left_block [OF fills_pattern(1) [of 2] _ le N, of 32] by (simp add: mod_mod_cancel)
  have 3: "fill_block 8 (\<lambda>m d. alias_store 8 m d (pattern64 v)) (?L (n mod 16)) = ?L (n mod 8)"
    using fill_left_block [OF fills_pattern(2) _ le N, of 16] by (simp add: mod_mod_cancel)
  have 2: "fill_block 4 (\<lambda>m d. alias_store 4 m d (pattern32 v)) (?L (n mod 8)) = ?L (n mod 4)"
    using fill_left_block [OF fills_pattern(3) _ le N, of 8] by (simp add: mod_mod_cancel)
  have 1: "fill_block 2 (\<lambda>m d. alias_store 2 m d (pattern16 v)) (?L (n mod 4)) = ?L (n mod 2)"
    using fill_left_block [OF fills_pattern(4) _ le N, of 4] by (simp add: mod_mod_cancel)
  have stages: "memset_max m dest val len = (case ?L (n mod 2) of (m, d, k) \<Rightarrow> (if k \<noteq> 0 then m(d := v) else m, dest))"
    by (simp only: memset_max_def Let_def N_def [symmetric] v_def [symmetric] n(2) L loop prod.case 5 4 3 2 1)
  have "(case ?L (n mod 2) of (m, d, k) \<Rightarrow> (if k \<noteq> 0 then m(d := v) else m, dest)) = (filled m dest v N, dest)"
  proof (cases "n mod 2 = 0")
    case True
    then show ?thesis by (simp add: fill_left_def)
  next
    case False
    then have "n mod 2 = 1" "Suc (N - 1) = N" using n(1) by auto
    then show ?thesis
      using filled_last_byte [where k = "N - 1" and m = m and d = dest and v = v] N by (simp add: fill_left_def)
  qed
  then show ?thesis by (simp add: stages N_def v_def)
qed

lemma memset_loop_filled:
  "k \<le> n \<Longrightarrow> n < 2 ^ 64 \<Longrightarrow> memset_loop (filled m d (ucast c) k) d c k n = filled m d (ucast c) n"
proof (induction "n - k" arbitrary: k)
  case 0
  then show ?case by (simp add: memset_loop.simps)
next
  case (Suc x)
  moreover have "(filled m d (ucast c) k)(d + of_nat k := ucast c) = filled m d (ucast c) (Suc k)"
    using Suc.prems Suc.hyps(2) by (intro filled_last_byte) auto
  moreover have "memset_loop (filled m d (ucast c) (Suc k)) d c (Suc k) n = filled m d (ucast c) n"
    using Suc.prems Suc.hyps(2) by (intro Suc.hyps(1)) auto
  ultimately show ?case by (subst memset_loop.simps) auto
qed

lemma memset_filled: "memset m dest ch len = (filled m dest (ucast ch) (unat len), dest)"
  using memset_loop_filled [of 0 "unat len" m dest ch] unat_lt_2p64 [of len] by (simp add: memset_def)

section \<open>Overlapping moves\<close>

text \<open>
  Copying upwards is right when the destination lies below the source, also when the
  regions overlap: the bytes already written are not read again.
\<close>

lemma memcpy_loop_below:
  assumes "unat src + n \<le> 2 ^ 64" "dest < src"
  shows "k \<le> n \<Longrightarrow> memcpy_loop (copied m m dest src k) dest src k n = copied m m dest src n"
proof (induction "n - k" arbitrary: k)
  case 0
  then show ?case by (simp add: memcpy_loop.simps)
next
  case (Suc x)
  have lt: "k < 2 ^ 64" "Suc k < 2 ^ 64"
    using Suc.hyps(2) assms by (auto simp: word_less_nat_alt)
  have src: "unat (src - dest) = unat src - unat dest" 
    using assms(2) by (simp add: unat_sub_no_wrap)
  have "unat (src - dest + of_nat k) = unat (src - dest) + k"
    using assms Suc.hyps(2) by (intro unat_add_of_nat) (auto simp: src)
  then have "copied m m dest src k (src + of_nat k) = m (src + of_nat k)"
    by (simp add: copied_def algebra_simps)
  then have "(copied m m dest src k)(dest + of_nat k := copied m m dest src k (src + of_nat k))
    = copied m (copied m m dest src k) (dest + of_nat k) (src + of_nat k) 1"
    by (simp add: copied_one)
  also have "\<dots> = copied m m dest src (Suc k)"
    using copied_append [of k 1 m m dest src] lt by simp
  finally show ?case
    using Suc by (subst memcpy_loop.simps) auto
qed

lemma memmove_back_loop_above:
  assumes "unat dest + n \<le> 2 ^ 64" "src < dest"
  shows "k \<le> n \<Longrightarrow> memmove_back_loop (copied m m (dest + of_nat k) (src + of_nat k) (n - k)) dest src k = copied m m dest src n"
proof (induction k)
  case 0
  then show ?case by simp
next
  case (Suc k)
  let ?m = "copied m m (dest + of_nat (Suc k)) (src + of_nat (Suc k)) (n - Suc k)"
  have lt: "Suc (n - Suc k) < 2 ^ 64" 
    using Suc.prems assms by (auto simp: word_less_nat_alt)
  have d: "unat (dest + of_nat (Suc k)) = unat dest + Suc k \<or> n = Suc k"
    using Suc.prems assms(1) unat_add_of_nat [of dest "Suc k"] by (cases "n = Suc k") simp_all
  have "?m (src + of_nat k) = m (src + of_nat k)"
  proof (cases "n = Suc k")
    case False
    have s: "unat (src + of_nat k) = unat src + k"
      using Suc.prems assms by (intro unat_add_of_nat) (auto simp: word_less_nat_alt)
    have "unat (src + of_nat k - (dest + of_nat (Suc k))) = unat (src + of_nat k) + 2 ^ 64 - unat (dest + of_nat (Suc k))"
      using False d s assms(2) unfolding unat_sub_if' by (simp add: word_less_nat_alt)
    also have "\<dots> \<ge> n - Suc k"
      using False d s assms by simp
    finally show ?thesis by (simp add: copied_def)
  qed simp
  then have "?m(dest + of_nat k := ?m (src + of_nat k)) = ?m(dest + of_nat k := m (src + of_nat k))"
    by simp
  also have "\<dots> = copied m m (dest + of_nat k) (src + of_nat k) (n - k)"
  proof
    fix a
    have nk: "n - k = 1 + (n - Suc k)" using Suc.prems by simp
    have "unat (a - (dest + of_nat (Suc k))) < n - Suc k \<longleftrightarrow>
        1 \<le> unat (a - (dest + of_nat k)) \<and> unat (a - (dest + of_nat k)) < 1 + (n - Suc k)"
      using shift_less_iff [of 1 "n - Suc k" a "dest + of_nat k"] lt by (simp add: algebra_simps)
    moreover have "unat (a - (dest + of_nat k)) = 0 \<longleftrightarrow> a = dest + of_nat k"
      by (simp add: unat_eq_zero)
    ultimately show "(?m(dest + of_nat k := m (src + of_nat k))) a = copied m m (dest + of_nat k) (src + of_nat k) (n - k) a"
      unfolding nk copied_def by (auto simp: algebra_simps)
  qed
  finally show ?case using Suc by simp
qed

lemma memmove_copied:
  assumes "unat dest + unat len \<le> 2 ^ 64" "unat src + unat len \<le> 2 ^ 64"
  shows "memmove m dest src len = (copied m m dest src (unat len), dest)"
proof -
  consider "dest < src" | "src < dest" | "src = dest" by (meson linorder_less_linear)
  then show ?thesis
  proof cases
    case 1
    then show ?thesis
      using memcpy_loop_below [OF assms(2) 1, of 0 m] by (simp add: memmove_def)
  next
    case 2
    then show ?thesis
      using memmove_back_loop_above [OF assms(1) 2 order_refl, of m] by (auto simp: memmove_def)
  next
    case 3
    then show ?thesis by (auto simp: memmove_def copied_def)
  qed
qed


section \<open>NUL-terminated strings\<close>

lemma cstr_nth:
  "cstr m p s \<longleftrightarrow> (\<forall>i<length s. m (p + of_nat i) = s ! i \<and> s ! i \<noteq> 0) \<and> m (p + of_nat (length s)) = 0"
proof (induction s arbitrary: p)
  case (Cons c s)
  have "(\<forall>i<length (c # s). P i) \<longleftrightarrow> P 0 \<and> (\<forall>i<length s. P (Suc i))" for P
    by (auto simp: less_Suc_eq_0_disj)
  then show ?case by (simp add: Cons algebra_simps)
qed simp

lemma cstr_length:
  assumes "cstr m p s" shows "length s < 2 ^ 64"
proof (rule ccontr)
  assume "\<not> length s < 2 ^ 64"
  then obtain i where i: "length s = i + 2 ^ 64" by (metis le_add_diff_inverse2 not_less)
  have "of_nat (length s) = (of_nat i :: u64)" by (simp only: i of_nat_add of_nat_2p64 add_0_right)
  moreover have "m (p + of_nat (length s)) = 0" using assms unfolding cstr_nth by blast
  moreover have "m (p + of_nat i) \<noteq> 0" using assms i unfolding cstr_nth by auto
  ultimately show False by (simp only:)
qed

lemma strlen_loop_cstr: "cstr m (p + l) s \<Longrightarrow> strlen_loop m p l = Some (l + of_nat (length s))"
proof (induction s arbitrary: l)
  case Nil
  then show ?case by (simp add: strlen_loop.simps)
next
  case (Cons c s)
  then have "strlen_loop m p (l + 1) = Some (l + 1 + of_nat (length s))"
    by (intro Cons.IH) (simp add: add.assoc)
  with Cons.prems show ?case by (subst strlen_loop.simps) (simp add: algebra_simps)
qed

lemma strlen_cstr: "cstr m p s \<Longrightarrow> strlen m p = Some (of_nat (length s))"
  by (simp add: strlen_def strlen_loop_cstr)

lemma strcmp_cstr: "cstr m p s \<Longrightarrow> cstr m q t \<Longrightarrow> strcmp m p q = Some (cmp_bytes s t)"
proof (induction s t arbitrary: p q rule: cmp_bytes.induct)
  case (4 c cs d ds)
  then show ?case by (subst strcmp.simps) auto
qed (subst strcmp.simps; auto)+

lemma strncmp_cstr:
  "cstr m p s \<Longrightarrow> cstr m q t \<Longrightarrow> strncmp m p q len = cmp_bytes (take (unat len) s) (take (unat len) t)"
proof (induction s t arbitrary: p q len rule: cmp_bytes.induct)
  case 1
  then show ?case by (subst strncmp.simps) (simp add: strncmp_end_def)
next
  case (2 d ds)
  then show ?case
    by (cases "unat len") (subst strncmp.simps, auto simp: strncmp_end_def unat_eq_zero)+
next
  case (3 c cs)
  then show ?case
    by (cases "unat len") (subst strncmp.simps, auto simp: strncmp_end_def unat_eq_zero)+
next
  case (4 c cs d ds)
  show ?case
  proof (cases "len = 0")
    case True
    with 4 show ?thesis by (subst strncmp.simps) (auto simp: strncmp_end_def)
  next
    case False
    then obtain n where n: "unat len = Suc n" by (metis unat_eq_zero not0_implies_Suc)
    with False have "unat (len - 1) = n" by (simp add: unat_minus_one)
    with 4 False n show ?thesis by (subst strncmp.simps) (auto simp: strncmp_end_def)
  qed
qed

lemma strstr_inner:
  "cstr m a s \<Longrightarrow> cstr m b t \<Longrightarrow>
   strstr_loop m str a b sub =
     (if prefix t s then Some str
      else if prefix s t then Some 0
      else strstr_loop m (str + 1) (str + 1) sub sub)"
proof (induction t arbitrary: s a b)
  case Nil
  then show ?case by (subst strstr_loop.simps) simp
next
  case (Cons d t)
  show ?case
  proof (cases s)
    case Nil
    with Cons.prems show ?thesis by (subst strstr_loop.simps) simp
  next
    case (Cons c cs)
    with Cons.prems Cons.IH [of "a + 1" cs "b + 1"] show ?thesis
      by (cases "c = d") (subst strstr_loop.simps, simp)+
  qed
qed

lemma find_sub_too_short: "length s < length t \<Longrightarrow> find_sub s t = None"
  by (induction s) (auto dest: prefix_length_le)

lemma strstr_cstr:
  assumes "cstr m q t"
  shows "cstr m p s \<Longrightarrow> strstr m p q = Some (case find_sub s t of None \<Rightarrow> 0 | Some i \<Rightarrow> p + of_nat i)"
  unfolding strstr_def
proof (induction s arbitrary: p)
  case Nil
  then show ?case using strstr_inner [OF Nil.prems assms] by simp
next
  case (Cons c cs)
  have loop: "strstr_loop m p p q q =
     (if prefix t (c # cs) then Some p else if prefix (c # cs) t then Some 0
      else strstr_loop m (p + 1) (p + 1) q q)"
    by (rule strstr_inner [OF Cons.prems assms])
  have "find_sub cs t = None" if "prefix (c # cs) t"
    using prefix_length_le [OF that] by (intro find_sub_too_short) simp
  with Cons show ?case by (auto simp: loop algebra_simps split: option.splits)
qed

lemma find_sub_Some:
  "find_sub s t = Some i \<Longrightarrow> prefix t (drop i s) \<and> (\<forall>j<i. \<not> prefix t (drop j s))"
proof (induction s arbitrary: i)
  case (Cons c cs)
  show ?case
  proof (cases "prefix t (c # cs)")
    case False
    with Cons.prems obtain k where k: "find_sub cs t = Some k" "i = Suc k" by auto
    have "\<not> prefix t (drop j (c # cs))" if "j < i" for j
      using that Cons.IH [OF k(1)] False k(2) by (cases j) auto
    with Cons.IH [OF k(1)] k(2) show ?thesis by simp
  qed (use Cons.prems in auto)
qed (auto split: if_splits)

lemma find_sub_None: "find_sub s t = None \<Longrightarrow> \<not> prefix t (drop i s)"
proof (induction s arbitrary: i)
  case (Cons c cs)
  then show ?case by (cases i) (auto split: if_splits)
qed (auto split: if_splits)

lemma strrev_loop_mirror:
  "x < 2 ^ 64 \<Longrightarrow> y < 2 ^ 64 \<Longrightarrow>
   strrev_loop m str (of_nat x) (of_nat y) =
     (\<lambda>a. let k = unat (a - str) in if x \<le> k \<and> k \<le> y then m (str + of_nat (x + y - k)) else m a)"
proof (induction "y - x" arbitrary: x y m rule: less_induct)
  case less
  show ?case
  proof (cases "x < y")
    case False
    then have "\<not> (of_nat x :: u64) < of_nat y"
      using less.prems by (simp add: word_less_nat_alt unat_of_nat_small)
    moreover have "m (str + of_nat (x + y - unat (a - str))) = m a" if "x \<le> unat (a - str)" "unat (a - str) \<le> y" for a
    proof -
      have "x + y - unat (a - str) = unat (a - str)" using that False by simp
      then show ?thesis by (simp only:) simp
    qed
    ultimately show ?thesis by (subst strrev_loop.simps) (auto simp: Let_def)
  next
    case True
    then have lt: "(of_nat x :: u64) < of_nat y"
      using less.prems by (simp add: word_less_nat_alt unat_of_nat_small)
    define m1 where "m1 = m(str + of_nat x := m (str + of_nat y), str + of_nat y := m (str + of_nat x))"
    have at: "unat (a - str) = k \<longleftrightarrow> a = str + of_nat k" if "k < 2 ^ 64" for a k
      using that by (auto simp: unat_of_nat_small)
    have "strrev_loop m str (of_nat x) (of_nat y) = strrev_loop m1 str (of_nat (x + 1)) (of_nat (y - 1))"
      using lt True by (subst strrev_loop.simps) (simp add: m1_def Let_def add.commute)
    also have "\<dots> = (\<lambda>a. let k = unat (a - str) in
        if x + 1 \<le> k \<and> k \<le> y - 1 then m1 (str + of_nat (x + 1 + (y - 1) - k)) else m1 a)"
      using less.prems True by (intro less.hyps) auto
    also have "\<dots> = (\<lambda>a. let k = unat (a - str) in if x \<le> k \<and> k \<le> y then m (str + of_nat (x + y - k)) else m a)"
    proof
      fix a
      define k where "k = unat (a - str)"
      have a: "a = str + of_nat k" by (simp add: k_def)
      have k: "k < 2 ^ 64" unfolding k_def by (rule unat_lt_2p64)
      have m1: "m1 (str + of_nat j) = (if j = y then m (str + of_nat x) else if j = x then m (str + of_nat y) else m (str + of_nat j))"
        if "j < 2 ^ 64" for j
        using that less.prems by (simp add: m1_def ptr_offset_inj of_nat_u64_eq_iff)
      have "(if x + 1 \<le> k \<and> k \<le> y - 1 then m1 (str + of_nat (x + 1 + (y - 1) - k)) else m1 (str + of_nat k))
        = (if x \<le> k \<and> k \<le> y then m (str + of_nat (x + y - k)) else m (str + of_nat k))"
        using m1 [of k] m1 [of "x + y - k"] k True less.prems by auto
      then show "(let k = unat (a - str) in if x + 1 \<le> k \<and> k \<le> y - 1 then m1 (str + of_nat (x + 1 + (y - 1) - k)) else m1 a)
        = (let k = unat (a - str) in if x \<le> k \<and> k \<le> y then m (str + of_nat (x + y - k)) else m a)"
        unfolding k_def [symmetric] Let_def by (simp only: a [symmetric])
    qed
    finally show ?thesis .
  qed
qed

lemma strrev_cstr:
  assumes "cstr m p s" "s \<noteq> []"
  shows "\<exists>m'. strrev m p = Some m' \<and> cstr m' p (rev s) \<and> (\<forall>a. unat (a - p) \<ge> length s \<longrightarrow> m' a = m a)"
proof -
  have n: "length s < 2 ^ 64" by (rule cstr_length [OF assms(1)])
  define y where "y = length s - 1"
  have y: "length s = Suc y" using assms(2) by (simp add: y_def)
  define m' where "m' = strrev_loop m p (of_nat 0) (of_nat y)"
  have rev: "strrev m p = Some m'"
    using strlen_cstr [OF assms(1)] by (simp add: strrev_def y m'_def)
  have m': "m' = (\<lambda>a. let k = unat (a - p) in if 0 \<le> k \<and> k \<le> y then m (p + of_nat (0 + y - k)) else m a)"
    unfolding m'_def using n y by (intro strrev_loop_mirror) auto
  have at: "m' (p + of_nat i) = (if i \<le> y then m (p + of_nat (y - i)) else m (p + of_nat i))" if "i \<le> length s" for i
    unfolding m' using that n by (simp add: unat_of_nat_small Let_def del: of_nat_diff)
  have "m' (p + of_nat i) = rev s ! i \<and> rev s ! i \<noteq> 0" if "i < length s" for i
    using that assms(1) y by (simp add: at cstr_nth rev_nth del: of_nat_diff of_nat_Suc)
  moreover have "m' (p + of_nat (length s)) = 0"
    using assms(1) at [of "length s"] y by (simp add: cstr_nth)
  ultimately have "cstr m' p (rev s)" by (simp add: cstr_nth)
  moreover have "\<forall>a. unat (a - p) \<ge> length s \<longrightarrow> m' a = m a"
    unfolding m' by (simp add: y)
  ultimately show ?thesis using rev by blast
qed

lemma strrev_empty:
  assumes "cstr m p []"
  shows "strrev m p = Some (\<lambda>a. m (p - 1 - (a - p)))"
proof -
  have "strrev m p = Some (strrev_loop m p (of_nat 0) (- 1))"
    using strlen_cstr [OF assms] by (simp add: strrev_def)
  also have "strrev_loop m p (of_nat 0) (- 1) =
     (\<lambda>a. let k = unat (a - p) in if 0 \<le> k \<and> k \<le> 2 ^ 64 - 1 then m (p + of_nat (0 + (2 ^ 64 - 1) - k)) else m a)"
    unfolding of_nat_max_u64 [symmetric] by (rule strrev_loop_mirror) simp_all
  also have "\<dots> = (\<lambda>a. m (p - 1 - (a - p)))"
  proof
    fix a
    have k: "unat (a - p) \<le> 2 ^ 64 - 1" using unat_lt_2p64 [of "a - p"] by simp
    have "of_nat (2 ^ 64 - 1 - unat (a - p)) = (of_nat (2 ^ 64 - 1) - of_nat (unat (a - p)) :: u64)"
      by (rule of_nat_diff [OF k])
    also have "\<dots> = - 1 - (a - p)" unfolding of_nat_max_u64 by simp
    finally have "p + of_nat (2 ^ 64 - 1 - unat (a - p)) = p - 1 - (a - p)"
      by (simp only: add_diff_eq add_uminus_conv_diff)
    then show "(let k = unat (a - p) in if 0 \<le> k \<and> k \<le> 2 ^ 64 - 1 then m (p + of_nat (0 + (2 ^ 64 - 1) - k)) else m a)
      = m (p - 1 - (a - p))"
      by (simp only: Let_def add_0_left k le0 simp_thms if_True)
  qed
  finally show ?thesis .
qed

lemma copied_source:
  assumes "nonoverlapping d s n" "x < n" "k \<le> n"
  shows "copied m m d s k (s + of_nat x) = m (s + of_nat x)"
  using nonoverlapping_source [OF assms(1,2)] assms(3) by (auto simp: copied_def)

lemma nonoverlapping_lt: "nonoverlapping d s n \<Longrightarrow> n < 2 ^ 64"
  using unat_lt_2p64 [of "s - d"] by (simp add: nonoverlapping_def)

lemma strcpy_loop_copied:
  assumes "cstr m src s" "nonoverlapping dest src (Suc (length s))"
  shows "k \<le> length s \<Longrightarrow>
    strcpy_loop (copied m m dest src k) (dest + of_nat k) (src + of_nat k) = Some (copied m m dest src (Suc (length s)))"
proof (induction "length s - k" arbitrary: k)
  case 0
  then have k: "k = length s" by simp
  have z: "copied m m dest src k (src + of_nat k) = 0" "m (src + of_nat k) = 0"
    using assms k by (simp_all add: copied_source cstr_nth)
  moreover have "(copied m m dest src k)(dest + of_nat k := copied m m dest src k (src + of_nat k)) = copied m m dest src (Suc k)"
    using assms(2) nonoverlapping_lt [OF assms(2)] k by (intro copied_last_byte) simp_all
  ultimately show ?case unfolding k by (subst strcpy_loop.simps) simp
next
  case (Suc x)
  then have k: "k < length s" by simp
  have "nonoverlapping dest src (Suc k)" using assms(2) k by (auto intro: nonoverlapping_mono)
  then have "(copied m m dest src k)(dest + of_nat k := copied m m dest src k (src + of_nat k)) = copied m m dest src (Suc k)"
    using nonoverlapping_lt by (intro copied_last_byte)
  moreover have "copied m m dest src k (src + of_nat k) \<noteq> 0"
    using assms k by (simp add: copied_source cstr_nth)
  moreover have "strcpy_loop (copied m m dest src (Suc k)) (dest + of_nat (Suc k)) (src + of_nat (Suc k)) = Some (copied m m dest src (Suc (length s)))"
    using Suc by (intro Suc.hyps(1)) auto
  ultimately show ?case by (subst strcpy_loop.simps) (simp add: algebra_simps)
qed

lemma strcpy_cstr:
  assumes "cstr m src s" "nonoverlapping dest src (Suc (length s))"
  shows "strcpy m dest src = Some (copied m m dest src (Suc (length s)), dest)"
  using strcpy_loop_copied [OF assms, of 0] by (simp add: strcpy_def)

lemma copied_cstr:
  assumes "cstr m0 src s" "Suc (length s) < 2 ^ 64"
  shows "cstr (copied m0 m dest src (Suc (length s))) dest s"
  using assms by (simp add: cstr_nth copied_def unat_of_nat_small del: of_nat_Suc)

lemma strncpy_loop_copied:
  assumes "cstr m src s" "nonoverlapping dest src (Suc (length s))"
  shows "k \<le> length s \<Longrightarrow>
    strncpy_loop (copied m m dest src k) (dest + of_nat k) (src + of_nat k) n
    = (let l = min (k + n) (length s) in (copied m m dest src l)(dest + of_nat l := 0))"
proof (induction n arbitrary: k)
  case 0
  then show ?case
    by (subst strncpy_loop.simps) (simp add: Let_def)
next
  case (Suc n)
  show ?case
  proof (cases "k = length s")
    case True
    then have "copied m m dest src k (src + of_nat k) = 0"
      using assms by (simp add: copied_source cstr_nth)
    with True show ?thesis by (subst strncpy_loop.simps) (simp add: Let_def)
  next
    case False
    with Suc.prems have k: "k < length s" by simp
    have "nonoverlapping dest src (Suc k)" using assms(2) k by (auto intro: nonoverlapping_mono)
    then have "(copied m m dest src k)(dest + of_nat k := copied m m dest src k (src + of_nat k)) = copied m m dest src (Suc k)"
      using nonoverlapping_lt by (intro copied_last_byte)
    moreover have "copied m m dest src k (src + of_nat k) \<noteq> 0"
      using assms k by (simp add: copied_source cstr_nth)
    moreover note Suc.IH [of "Suc k"]
    ultimately show ?thesis
      using k by (subst strncpy_loop.simps) (simp add: algebra_simps Let_def fun_upd_def)
  qed
qed

lemma strncpy_cstr:
  assumes "cstr m src s" "nonoverlapping dest src (Suc (length s))"
  shows "strncpy m dest src len =
    (let l = min (unat len) (length s) in ((copied m m dest src l)(dest + of_nat l := 0), dest))"
  using strncpy_loop_copied [OF assms, of 0 "unat len"] by (simp add: strncpy_def Let_def)

lemma memcmp_loop_eq:
  "k \<le> n \<Longrightarrow> (memcmp_loop m p q k n = 0) \<longleftrightarrow> (\<forall>i. k \<le> i \<and> i < n \<longrightarrow> m (p + of_nat i) = m (q + of_nat i))"
proof (induction "n - k" arbitrary: k)
  case 0
  then show ?case by (subst memcmp_loop.simps) auto
next
  case (Suc x)
  then have IH: "m (p + of_nat k) = m (q + of_nat k) \<Longrightarrow> (memcmp_loop m p q k n = 0) \<longleftrightarrow>
      (\<forall>i. Suc k \<le> i \<and> i < n \<longrightarrow> m (p + of_nat i) = m (q + of_nat i))"
    using Suc.hyps(1) [of "Suc k"] by (subst memcmp_loop.simps) auto
  show ?case
  proof (cases "m (p + of_nat k) = m (q + of_nat k)")
    case True
    with IH show ?thesis by (metis Suc_leI le_neq_implies_less le_Suc_eq Suc_leD)
  next
    case False
    with Suc show ?thesis by (subst memcmp_loop.simps) auto
  qed
qed

section \<open>Properties\<close>

lemma sint_eq_0: "sint (c :: u8) = 0 \<longleftrightarrow> c = 0"
  by (metis signed_word_eqI signed_0)

lemma cmp_bytes_0:
  "0 \<notin> set s \<Longrightarrow> 0 \<notin> set t \<Longrightarrow> cmp_bytes s t = 0 \<longleftrightarrow> s = t"
proof (induction s t rule: cmp_bytes.induct)
  case (2 d ds)
  then show ?case by (auto simp: sint_eq_0)
next
  case (3 c cs)
  then show ?case by (auto simp: sint_eq_0)
next
  case (4 c cs d ds)
  have "sint c - sint d = 0 \<longleftrightarrow> c = d" by (auto intro: signed_word_eqI)
  then show ?case using 4 by auto
qed simp

lemma cstr_no_zero: "cstr m p s \<Longrightarrow> 0 \<notin> set s"
  by (induction s arbitrary: p) auto

text \<open>
  Property C15. The widened copy \<open>memcpy_max\<close> (64-, 32-, 16-bit words chosen by length and
  alignment, then single bytes) does exactly what the byte loop \<open>memcpy\<close> does on regions
  that do not overlap, at every alignment and every length: the destination holds the
  source's bytes and no other byte of memory changes.
\<close>

theorem memcpy_max_equals_memcpy:
  assumes "nonoverlapping dest src (unat len)"
  shows "memcpy_max m dest src len = memcpy m dest src len \<and>
    memcpy m dest src len = (\<lambda>a. if unat (a - dest) < unat len then m (src + (a - dest)) else m a, dest)"
  using memcpy_max_copied [OF assms, of m] memcpy_copied [OF assms, of m] by (simp_all add: copied_def)

theorem memcpy_max_equals_memcpy_witness:
  "memcpy_max (\<lambda>a. ucast a) 0x1003 0x2001 100 = memcpy (\<lambda>a. ucast a) 0x1003 0x2001 100"
proof -
  have "nonoverlapping 0x1003 0x2001 (unat (100 :: u64))" by (simp add: nonoverlapping_def)
  from memcpy_max_equals_memcpy [OF this] show ?thesis by blast
qed

text \<open>
  Property C16. The widened fill \<open>memset_max\<close> (byte steps up to an 8-byte border, then words of
  a replicated pattern, then the rest) equals the byte loop \<open>memset\<close> for every address,
  length and value, and both fill exactly \<open>len\<close> bytes with the low byte of the value.
\<close>

theorem memset_max_equals_memset:
  "memset_max m dest ch len = memset m dest ch len \<and>
   memset m dest ch len = (\<lambda>a. if unat (a - dest) < unat len then ucast ch else m a, dest)"
  using memset_max_filled [of m dest ch len] memset_filled [of m dest ch len] by (simp add: filled_def)

text \<open>
  Property C17. \<open>memmove\<close> is right when the regions overlap in either direction: afterwards the
  destination holds what the source held before.
\<close>

theorem memmove_overlap_correct:
  assumes "unat dest + unat len \<le> 2 ^ 64" "unat src + unat len \<le> 2 ^ 64"
  shows "memmove m dest src len = (\<lambda>a. if unat (a - dest) < unat len then m (src + (a - dest)) else m a, dest)"
  using memmove_copied [OF assms] by (simp add: copied_def)

theorem memmove_overlap_correct_witness:
  "fst (memmove (\<lambda>a. ucast a) 0x1002 0x1000 8) 0x1009 = 7 \<and> \<not> nonoverlapping 0x1002 0x1000 8"
  by (subst memmove_overlap_correct) (simp_all add: nonoverlapping_def)

text \<open>
  On terminated strings \<open>strcmp\<close> and \<open>strncmp\<close> return (the loops end) and give 0
  exactly when the strings, respectively their first \<open>len\<close> characters, are equal.
\<close>

theorem strcmp_strncmp_zero_iff:
  assumes "cstr m p s" "cstr m q t"
  shows "(\<exists>r. strcmp m p q = Some r \<and> (r = 0 \<longleftrightarrow> s = t)) \<and>
    (strncmp m p q len = 0 \<longleftrightarrow> take (unat len) s = take (unat len) t)"
proof -
  have z: "0 \<notin> set s" "0 \<notin> set t" using assms cstr_no_zero by blast+
  then have "0 \<notin> set (take (unat len) s)" "0 \<notin> set (take (unat len) t)" by (auto dest: in_set_takeD)
  then show ?thesis using strcmp_cstr [OF assms] strncmp_cstr [OF assms] cmp_bytes_0 z by auto
qed

definition sample_mem :: bytemem where
  "sample_mem = (\<lambda>_. 0)(16 := 97, 17 := 98, 18 := 99, 32 := 98, 33 := 99)"

theorem strcmp_strncmp_zero_iff_witness:
  "cstr sample_mem 16 [97, 98, 99] \<and> cstr sample_mem 32 [98, 99] \<and> (\<exists>r. strcmp sample_mem 16 32 = Some r \<and> r \<noteq> 0)"
proof -
  have c: "cstr sample_mem 16 [97, 98, 99]" "cstr sample_mem 32 [98, 99]" by (simp_all add: sample_mem_def)
  from strcmp_strncmp_zero_iff [OF c] c show ?thesis by auto
qed

text \<open>
  \<open>strstr\<close> ends on terminated strings and points at the first occurrence of the
  needle; it returns null exactly when there is none.
\<close>

theorem strstr_first_occurrence:
  assumes "cstr m p s" "cstr m q t"
  shows "\<exists>r. strstr m p q = Some r \<and>
    (if \<exists>i. prefix t (drop i s)
     then \<exists>i. r = p + of_nat i \<and> prefix t (drop i s) \<and> (\<forall>j<i. \<not> prefix t (drop j s))
     else r = 0)"
proof (cases "find_sub s t")
  case None
  then show ?thesis using strstr_cstr [OF assms(2,1)] find_sub_None by auto
next
  case (Some i)
  then show ?thesis using strstr_cstr [OF assms(2,1)] find_sub_Some [OF Some] by auto
qed

theorem strstr_first_occurrence_witness: "strstr sample_mem 16 32 = Some 17"
proof -
  have c: "cstr sample_mem 16 [97, 98, 99]" "cstr sample_mem 32 [98, 99]" by (simp_all add: sample_mem_def)
  have p1: "prefix [98, 99] (drop 1 [97, 98, 99 :: u8])" and p0: "\<not> prefix [98, 99] (drop 0 [97, 98, 99 :: u8])"
    by (simp_all add: prefix_def)
  obtain i where "strstr sample_mem 16 32 = Some (16 + of_nat i)" "prefix [98, 99] (drop i [97, 98, 99 :: u8])"
    "\<forall>j<i. \<not> prefix [98, 99] (drop j [97, 98, 99 :: u8])"
    using strstr_first_occurrence [OF c] exI [of "\<lambda>i. prefix [98, 99] (drop i [97, 98, 99 :: u8])", OF p1] by (simp only: if_True) blast
  moreover from this p0 p1 have "i = 1" by (metis less_one linorder_neqE_nat)
  ultimately show ?thesis by simp
qed

text \<open>
  \<open>strcpy\<close> of a terminated string into memory it does not overlap ends, makes the
  destination the same string and writes nothing beyond its terminator.
\<close>

theorem strcpy_correct:
  assumes "cstr m src s" "nonoverlapping dest src (Suc (length s))"
  shows "\<exists>m'. strcpy m dest src = Some (m', dest) \<and> cstr m' dest s \<and> strlen m' dest = Some (of_nat (length s)) \<and>
    (\<forall>a. length s < unat (a - dest) \<longrightarrow> m' a = m a)"
proof -
  have "cstr (copied m m dest src (Suc (length s))) dest s" using copied_cstr [OF assms(1) nonoverlapping_lt [OF assms(2)]] .
  then show ?thesis using strcpy_cstr [OF assms] strlen_cstr by (auto simp: copied_def)
qed

theorem strcpy_correct_witness:
  "\<exists>m'. strcpy sample_mem 64 16 = Some (m', 64) \<and> cstr m' 64 [97, 98, 99]"
proof -
  have "cstr sample_mem 16 [97, 98, 99]" "nonoverlapping 64 16 (Suc (length [97, 98, 99 :: u8]))"
    by (simp_all add: sample_mem_def nonoverlapping_def)
  from strcpy_correct [OF this] show ?thesis by blast
qed

text \<open>
  \<open>strrev\<close> of a non-empty string reverses it in place and leaves the rest of
  memory alone.
\<close>

theorem strrev_reverses:
  assumes "cstr m p s" "s \<noteq> []"
  shows "\<exists>m'. strrev m p = Some m' \<and> cstr m' p (rev s) \<and> (\<forall>a. length s \<le> unat (a - p) \<longrightarrow> m' a = m a)"
  using strrev_cstr [OF assms] by blast

theorem strrev_reverses_witness: "\<exists>m'. strrev sample_mem 16 = Some m' \<and> cstr m' 16 [99, 98, 97]"
proof -
  have c: "cstr sample_mem 16 [97, 98, 99]" by (simp add: sample_mem_def)
  from strrev_reverses [OF c] show ?thesis by auto
qed

text \<open>
  On the empty string the index \<open>len - 1\<close> of \<open>strrev\<close> wraps around and the loop
  mirrors the whole address space about the string: the bytes right before and right after
  the terminator are exchanged, and so on.
\<close>

theorem strrev_empty_mirrors_memory:
  assumes "m p = 0" shows "strrev m p = Some (\<lambda>a. m (2 * p - 1 - a))"
proof -
  have "p - 1 - (a - p) = 2 * p - 1 - a" for a by simp
  then have "(\<lambda>a. m (p - 1 - (a - p))) = (\<lambda>a. m (2 * p - 1 - a))" by presburger
  then show ?thesis using strrev_empty [of m p] assms by simp
qed

theorem strrev_empty_mirrors_memory_witness:
  "\<exists>m'. strrev sample_mem 15 = Some m' \<and> m' 13 = 97 \<and> sample_mem 13 = 0"
proof -
  have "sample_mem 15 = 0" by (simp add: sample_mem_def)
  from strrev_empty_mirrors_memory [of sample_mem 15, OF this] show ?thesis by (simp add: sample_mem_def)
qed

text \<open>
  \<open>strncpy\<close> copies at most \<open>len\<close> characters and then always stores a terminator:
  when the source has at least \<open>len\<close> characters it writes \<open>dest[len]\<close>, one byte past the
  buffer the caller gave it.
\<close>

theorem strncpy_writes_past_buffer:
  assumes "cstr m src s" "nonoverlapping dest src (Suc (length s))" "unat len \<le> length s"
  shows "fst (strncpy m dest src len) (dest + len) = 0 \<and>
    (\<forall>a. unat len < unat (a - dest) \<longrightarrow> fst (strncpy m dest src len) a = m a)"
  using strncpy_cstr [OF assms(1,2), of len] assms(3) by (auto simp: Let_def min_def copied_def)

theorem strncpy_writes_past_buffer_witness:
  "fst (strncpy (sample_mem(66 := 7)) 64 16 2) 66 = 0"
proof -
  have "cstr (sample_mem(66 := 7)) 16 [97, 98, 99]" "nonoverlapping 64 16 (Suc (length [97, 98, 99 :: u8]))"
    by (simp_all add: sample_mem_def nonoverlapping_def)
  from strncpy_writes_past_buffer [OF this, of 2] show ?thesis by simp
qed

end
