(* ===== verification/Vmm.thy ===== *)
theory Vmm
  imports Pagemap_Ops Libc_String
begin

text \<open>
  Memory objects and address spaces: \<^verbatim>\<open>kernel/source/system/memory/vmm.cpp\<close> with the types of
  \<^verbatim>\<open>interfaces/system/memory/vmm.cppm\<close>.

  Every object of the kernel is a \<open>memobject\<close>. Objects are numbered; an object is the ordered
  map from page indices to physical pages it keeps. A mapping holds a reference to its object;
  \<open>held\<close> counts the references kept elsewhere (by inodes and other address spaces), so that
  the use count of an object is \<open>held\<close> plus its mappings. The state describes one address
  space: \<open>pmap\<close> is the physical address of its root table and \<open>tree\<close> its mappings in the
  order of the multiset. Physical memory is seen by the page tables as the words of \<open>vmm\<close>
  and by objects as the bytes of \<open>ram\<close>; both come from the same allocator.
\<close>

section \<open>Data\<close>

record mapping =
  startp :: u64
  endp :: u64
  obj :: nat
  offsetp :: u64
  prot :: u8
  mflags :: u8

record vms =
  vmm :: vm
  ram :: bytemem
  objects :: "nat \<Rightarrow> (u64 \<times> u64) list"
  next_object :: nat
  held :: "nat \<Rightarrow> nat"
  pmap :: u64
  tree :: "mapping list"

abbreviation (input) prot_read :: u8 where "prot_read \<equiv> 1"
abbreviation (input) prot_write :: u8 where "prot_write \<equiv> 2"
abbreviation (input) prot_exec :: u8 where "prot_exec \<equiv> 4"

abbreviation (input) fl_shared :: u8 where "fl_shared \<equiv> 0x01"
abbreviation (input) fl_private :: u8 where "fl_private \<equiv> 0x02"
abbreviation (input) fl_fixed :: u8 where "fl_fixed \<equiv> 0x10"
abbreviation (input) fl_anonymous :: u8 where "fl_anonymous \<equiv> 0x20"
abbreviation (input) fl_untouchable :: u8 where "fl_untouchable \<equiv> 0x40"

definition default_page_size :: u64 where
  "default_page_size = from_page_size Small"

section \<open>Objects\<close>

text \<open>
  The pages of an object are a \<open>lib::btree::map\<close>, an ordered map of a library with the interface of \<open>std::map\<close>: the list of its
  pairs in the order of the index.
\<close>

fun pages_insert :: "u64 \<Rightarrow> u64 \<Rightarrow> (u64 \<times> u64) list \<Rightarrow> (u64 \<times> u64) list" where
  "pages_insert i p [] = [(i, p)]"
| "pages_insert i p ((j, q) # xs) = (if i < j then (i, p) # (j, q) # xs else (j, q) # pages_insert i p xs)"

definition set_pages :: "vms \<Rightarrow> nat \<Rightarrow> (u64 \<times> u64) list \<Rightarrow> vms" where
  "set_pages st ob ps = st\<lparr>objects := (objects st)(ob := ps)\<rparr>"

definition vhh :: "vms \<Rightarrow> u64 \<Rightarrow> u64" where
  "vhh st a = tohh (hh (vmm st)) a"

text \<open>\<open>memobject::request_page\<close>: a cleared page.\<close>

definition request_page :: "vms \<Rightarrow> (vms \<times> u64) run" where
  "request_page st =
     bindR (pmm_alloc (vmm st) 1 True Normal) (\<lambda>(v, page).
       let st = st\<lparr>vmm := v\<rparr>
       in retR (if page = 0 then st else st\<lparr>ram := fst (memset (ram st) (vhh st page) 0 0x1000)\<rparr>, page))"

definition object_get_page :: "vms \<Rightarrow> nat \<Rightarrow> u64 \<Rightarrow> (vms \<times> u64) run" where
  "object_get_page st ob idx =
     (case map_of (objects st ob) idx of
        Some page \<Rightarrow> retR (st, page)
      | None \<Rightarrow> bindR (request_page st) (\<lambda>(st, page).
          if page \<noteq> 0 then retR (set_pages st ob (pages_insert idx page (objects st ob)), page)
          else retR (st, 0)))"

text \<open>A buffer is the list of its bytes; copying to and from it does not touch other memory.\<close>

definition peek :: "bytemem \<Rightarrow> u64 \<Rightarrow> u64 \<Rightarrow> u8 list" where
  "peek m a n = map (\<lambda>i. m (a + of_nat i)) [0..<unat n]"

definition poke :: "bytemem \<Rightarrow> u64 \<Rightarrow> u8 list \<Rightarrow> bytemem" where
  "poke m a bs = (\<lambda>x. if unat (x - a) < length bs then bs ! unat (x - a) else m x)"

definition csize :: "u64 \<Rightarrow> u64 \<Rightarrow> u64 \<Rightarrow> u64" where
  "csize offset len progress = min (default_page_size - (progress + offset) mod default_page_size) (len - progress)"

partial_function (option) object_read_loop :: "vms \<Rightarrow> nat \<Rightarrow> u64 \<Rightarrow> u64 \<Rightarrow> u64 \<Rightarrow> u8 list \<Rightarrow> (vms \<times> u64 \<times> u8 list) run" where
  "object_read_loop st ob offset len progress buffer =
     (if progress < len
      then let misalign = (progress + offset) mod default_page_size;
               idx = (progress + offset) div default_page_size;
               cs = csize offset len progress
           in bindR (object_get_page st ob idx) (\<lambda>(st, page).
                if page = 0 then retR (st, progress, buffer)
                else object_read_loop st ob offset len (progress + cs) (buffer @ peek (ram st) (vhh st page + misalign) cs))
      else retR (st, progress, buffer))"

text \<open>The bytes read come with the number of bytes, which is their length.\<close>

definition object_read :: "vms \<Rightarrow> nat \<Rightarrow> u64 \<Rightarrow> u64 \<Rightarrow> (vms \<times> u64 \<times> u8 list) run" where
  "object_read st ob offset len = object_read_loop st ob offset len 0 []"

partial_function (option) object_write_loop :: "vms \<Rightarrow> nat \<Rightarrow> u64 \<Rightarrow> u8 list \<Rightarrow> u64 \<Rightarrow> u64 \<Rightarrow> (vms \<times> u64) run" where
  "object_write_loop st ob offset buffer len progress =
     (if progress < len
      then let misalign = (progress + offset) mod default_page_size;
               idx = (progress + offset) div default_page_size;
               cs = csize offset len progress
           in bindR (object_get_page st ob idx) (\<lambda>(st, page).
                if page = 0 then retR (st, progress)
                else object_write_loop
                       (st\<lparr>ram := poke (ram st) (vhh st page + misalign) (take (unat cs) (drop (unat progress) buffer))\<rparr>)
                       ob offset buffer len (progress + cs))
      else retR (st, progress))"

definition object_write :: "vms \<Rightarrow> nat \<Rightarrow> u64 \<Rightarrow> u8 list \<Rightarrow> (vms \<times> u64) run" where
  "object_write st ob offset buffer = object_write_loop st ob offset buffer (of_nat (length buffer)) 0"

partial_function (option) object_clear_loop :: "vms \<Rightarrow> nat \<Rightarrow> u64 \<Rightarrow> u8 \<Rightarrow> u64 \<Rightarrow> u64 \<Rightarrow> (vms \<times> u64) run" where
  "object_clear_loop st ob offset val len progress =
     (if progress < len
      then let misalign = (progress + offset) mod default_page_size;
               idx = (progress + offset) div default_page_size;
               cs = csize offset len progress
           in bindR (object_get_page st ob idx) (\<lambda>(st, page).
                if page = 0 then retR (st, progress)
                else object_clear_loop (st\<lparr>ram := fst (memset (ram st) (vhh st page + misalign) (ucast val) cs)\<rparr>)
                       ob offset val len (progress + cs))
      else retR (st, progress))"

definition object_clear :: "vms \<Rightarrow> nat \<Rightarrow> u64 \<Rightarrow> u8 \<Rightarrow> u64 \<Rightarrow> (vms \<times> u64) run" where
  "object_clear st ob offset val len = object_clear_loop st ob offset val len 0"

partial_function (option) copy_to_loop :: "vms \<Rightarrow> nat \<Rightarrow> nat \<Rightarrow> u64 \<Rightarrow> u64 \<Rightarrow> u64 \<Rightarrow> (vms \<times> u64) run" where
  "copy_to_loop st ob other offset len progress =
     (if progress < len
      then let misalign = (progress + offset) mod default_page_size;
               idx = (progress + offset) div default_page_size;
               cs = csize offset len progress
           in bindR (object_get_page st ob idx) (\<lambda>(st, our_page).
                if our_page = 0 then retR (st, progress)
                else bindR (object_get_page st other idx) (\<lambda>(st, their_page).
                  if their_page = 0 then retR (st, progress)
                  else copy_to_loop
                         (st\<lparr>ram := fst (memcpy (ram st) (vhh st their_page + misalign) (vhh st our_page + misalign) cs)\<rparr>)
                         ob other offset len (progress + cs)))
      else retR (st, progress))"

definition copy_to :: "vms \<Rightarrow> nat \<Rightarrow> nat \<Rightarrow> u64 \<Rightarrow> u64 \<Rightarrow> (vms \<times> u64) run" where
  "copy_to st ob other offset len = copy_to_loop st ob other offset len 0"

text \<open>\<open>new memobject\<close> and its destructor.\<close>

definition new_memobject :: "vms \<Rightarrow> vms \<times> nat" where
  "new_memobject st =
     (st\<lparr>objects := (objects st)(next_object st := []), next_object := next_object st + 1\<rparr>, next_object st)"

fun free_pages :: "vm \<Rightarrow> (u64 \<times> u64) list \<Rightarrow> vm run" where
  "free_pages v [] = retR v"
| "free_pages v ((i, page) # ps) = bindR (pmm_free v page 1) (\<lambda>v. free_pages v ps)"

definition memobject_destroy :: "vms \<Rightarrow> nat \<Rightarrow> vms run" where
  "memobject_destroy st ob =
     bindR (free_pages (vmm st) (objects st ob)) (\<lambda>v. retR (set_pages (st\<lparr>vmm := v\<rparr>) ob []))"

definition use_count :: "vms \<Rightarrow> nat \<Rightarrow> nat" where
  "use_count st ob = held st ob + length (filter (\<lambda>m. obj m = ob) (tree st))"

text \<open>Dropping the last reference to an object destroys it.\<close>

fun release :: "vms \<Rightarrow> nat list \<Rightarrow> vms run" where
  "release st [] = retR st"
| "release st (ob # obs) =
     (if use_count st ob = 0 \<and> ob \<notin> set obs then bindR (memobject_destroy st ob) (\<lambda>st. release st obs)
      else release st obs)"

section \<open>The tree of mappings\<close>

text \<open>
  The tree is a \<open>lib::btree::multiset\<close>, a library container with the interface of \<open>std::multiset\<close>, ordered by \<open>startp\<close>. It is the list of its elements
  in order, with the behaviour the standard documents: an element equivalent to others is inserted behind them, \<open>erase\<close> of a key removes every equivalent element.
\<close>

fun emplace :: "mapping \<Rightarrow> mapping list \<Rightarrow> mapping list" where
  "emplace m [] = [m]"
| "emplace m (x # xs) = (if startp m < startp x then m # x # xs else x # emplace m xs)"

definition erase :: "mapping \<Rightarrow> mapping list \<Rightarrow> mapping list" where
  "erase m xs = filter (\<lambda>x. startp x \<noteq> startp m) xs"

definition overlaps :: "u64 \<Rightarrow> u64 \<Rightarrow> mapping \<Rightarrow> bool" where
  "overlaps s e m \<longleftrightarrow> s < endp m \<and> startp m < e"

definition untouchable :: "mapping \<Rightarrow> bool" where
  "untouchable m \<longleftrightarrow> mflags m AND fl_untouchable \<noteq> 0"

definition to_pflags :: "u8 \<Rightarrow> pflag" where
  "to_pflags p =
     (let ret = pf_user;
          ret = (if p AND prot_read \<noteq> 0 then ret OR pf_read else ret);
          ret = (if p AND prot_write \<noteq> 0 then ret OR pf_write else ret)
      in if p AND prot_exec \<noteq> 0 then ret OR pf_exec else ret)"

text \<open>A call of \<open>pmap->unmap\<close> or \<open>pmap->protect\<close> whose failure is a panic.\<close>

definition pmap_unmap :: "vms \<Rightarrow> u64 \<Rightarrow> u64 \<Rightarrow> vms run" where
  "pmap_unmap st addr sz =
     bindR (unmap (vmm st) (pmap st) addr sz Small) (\<lambda>(v, r).
       case r of None \<Rightarrow> retR (st\<lparr>vmm := v\<rparr>) | Some _ \<Rightarrow> failR (Panic_msg ''vmm: could not unmap region''))"

definition pmap_protect :: "vms \<Rightarrow> u64 \<Rightarrow> u64 \<Rightarrow> pflag \<Rightarrow> vms run" where
  "pmap_protect st addr sz fl =
     bindR (protect (vmm st) (pmap st) addr sz fl Small Write_back) (\<lambda>(v, r).
       case r of None \<Rightarrow> retR (st\<lparr>vmm := v\<rparr>) | Some _ \<Rightarrow> failR (Panic_msg ''vmm: could not change protection flags''))"

definition put_mapping :: "mapping \<Rightarrow> vms \<Rightarrow> vms" where
  "put_mapping m st = st\<lparr>tree := emplace m (tree st)\<rparr>"

section \<open>Operations of an address space\<close>

text \<open>The body of the loop of \<open>vmspace::map\<close> over the overlapping mappings.\<close>

definition map_entry :: "u64 \<Rightarrow> u64 \<Rightarrow> mapping \<Rightarrow> vms \<Rightarrow> (vms \<times> vm_error option) run" where
  "map_entry s e m st =
     (if untouchable m then retR (st, Some Addr_in_use)
      else let st = st\<lparr>tree := erase m (tree st)\<rparr>; psize = default_page_size
           in if s \<le> startp m \<and> endp m \<le> e
              then let addr = startp m * psize; sz = endp m * psize - addr
                   in bindR (pmap_unmap st addr sz) (\<lambda>st. retR (st, None))
              else let addr = max s (startp m) * psize; sz = min e (endp m) * psize - addr
                   in bindR (pmap_unmap st addr sz) (\<lambda>st.
                        let headp = (if s < startp m then 0 else s - startp m);
                            tailp = (if e \<ge> endp m then 0 else endp m - e);
                            st = (if headp \<noteq> 0 then put_mapping (m\<lparr>endp := startp m + headp\<rparr>) st else st);
                            st = (if e \<noteq> 0
                                  then put_mapping (m\<lparr>startp := endp m - tailp, offsetp := offsetp m + headp + (e - s)\<rparr>) st
                                  else st)
                        in retR (st, None)))"

fun map_entries :: "u64 \<Rightarrow> u64 \<Rightarrow> mapping list \<Rightarrow> vms \<Rightarrow> (vms \<times> vm_error option) run" where
  "map_entries s e [] st = retR (st, None)"
| "map_entries s e (m # ms) st =
     bindR (map_entry s e m st) (\<lambda>(st, r). case r of Some er \<Rightarrow> retR (st, Some er) | None \<Rightarrow> map_entries s e ms st)"

definition vmspace_map :: "vms \<Rightarrow> u64 \<Rightarrow> u64 \<Rightarrow> u8 \<Rightarrow> u8 \<Rightarrow> nat option \<Rightarrow> u64 \<Rightarrow> (vms \<times> vm_error option) run" where
  "vmspace_map st address len pr flags ob offset =
     (case ob of None \<Rightarrow> failR Bug_on
      | Some ob \<Rightarrow>
          let psize = default_page_size
          in if address mod psize \<noteq> 0 then retR (st, Some Addr_not_aligned)
             else if offset mod psize \<noteq> 0 then retR (st, Some Addr_not_aligned)
             else let off = offset div psize; s = address div psize; e = div_roundup (address + len) psize;
                      overlapping = filter (overlaps s e) (tree st)
                  in bindR (map_entries s e overlapping st) (\<lambda>(st, r).
                       case r of Some er \<Rightarrow> bindR (release st (map obj overlapping)) (\<lambda>st. retR (st, Some er))
                       | None \<Rightarrow>
                           let st = put_mapping \<lparr>startp = s, endp = e, obj = ob, offsetp = off, prot = pr, mflags = flags\<rparr> st
                           in bindR (release st (map obj overlapping)) (\<lambda>st. retR (st, None))))"

definition unmap_entry :: "u64 \<Rightarrow> u64 \<Rightarrow> mapping \<Rightarrow> vms \<Rightarrow> vms run" where
  "unmap_entry s e m st =
     (let st = st\<lparr>tree := erase m (tree st)\<rparr>; psize = default_page_size
      in if s \<le> startp m \<and> endp m \<le> e
         then let addr = startp m * psize; sz = endp m * psize - addr in pmap_unmap st addr sz
         else let headp = (if s > startp m then s - startp m else 0);
                  tailp = (if e < endp m then endp m - e else 0);
                  st = (if headp \<noteq> 0 then put_mapping (m\<lparr>endp := startp m + headp\<rparr>) st else st);
                  st = (if tailp \<noteq> 0
                        then put_mapping (m\<lparr>startp := endp m - tailp, offsetp := offsetp m + (endp m - startp m) - tailp\<rparr>) st
                        else st);
                  addr = max s (startp m) * psize; sz = min e (endp m) * psize - addr
              in pmap_unmap st addr sz)"

fun unmap_entries :: "u64 \<Rightarrow> u64 \<Rightarrow> mapping list \<Rightarrow> vms \<Rightarrow> vms run" where
  "unmap_entries s e [] st = retR st"
| "unmap_entries s e (m # ms) st = bindR (unmap_entry s e m st) (\<lambda>st. unmap_entries s e ms st)"

definition vmspace_unmap :: "vms \<Rightarrow> u64 \<Rightarrow> u64 \<Rightarrow> (vms \<times> vm_error option) run" where
  "vmspace_unmap st address len =
     (let psize = default_page_size
      in if address mod psize \<noteq> 0 then retR (st, Some Addr_not_aligned)
         else let s = address div psize; e = div_roundup (address + len) psize;
                  overlapping = filter (\<lambda>m. overlaps s e m \<and> \<not> untouchable m) (tree st)
              in bindR (unmap_entries s e overlapping st) (\<lambda>st.
                   bindR (release st (map obj overlapping)) (\<lambda>st. retR (st, None))))"

text \<open>The overload that removes every mapping of an object; the caller keeps a reference to it.\<close>

fun unmap_obj_entries :: "mapping list \<Rightarrow> vms \<Rightarrow> vms run" where
  "unmap_obj_entries [] st = retR st"
| "unmap_obj_entries (m # ms) st =
     (let st = st\<lparr>tree := erase m (tree st)\<rparr>; psize = default_page_size;
          addr = startp m * psize; sz = (endp m - startp m) * psize
      in bindR (pmap_unmap st addr sz) (\<lambda>st. unmap_obj_entries ms st))"

definition vmspace_unmap_obj :: "vms \<Rightarrow> nat option \<Rightarrow> (vms \<times> vm_error option) run" where
  "vmspace_unmap_obj st ob =
     (case ob of None \<Rightarrow> failR Bug_on
      | Some ob \<Rightarrow> bindR (unmap_obj_entries (filter (\<lambda>m. obj m = ob \<and> \<not> untouchable m) (tree st)) st) (\<lambda>st. retR (st, None)))"

definition protect_entry :: "u64 \<Rightarrow> u64 \<Rightarrow> u8 \<Rightarrow> mapping \<Rightarrow> vms \<Rightarrow> vms run" where
  "protect_entry s e pr m st =
     (let st = st\<lparr>tree := erase m (tree st)\<rparr>; psize = default_page_size
      in if s \<le> startp m \<and> endp m \<le> e
         then let st = put_mapping (m\<lparr>prot := pr\<rparr>) st;
                  addr = startp m * psize; sz = (endp m - startp m) * psize
              in pmap_protect st addr sz (to_pflags pr)
         else let headp = (if s > startp m then s - startp m else 0);
                  tailp = (if e < endp m then endp m - e else 0);
                  st = (if headp \<noteq> 0 then put_mapping (m\<lparr>endp := startp m + headp\<rparr>) st else st);
                  st = (if tailp \<noteq> 0
                        then put_mapping (m\<lparr>startp := endp m - tailp, offsetp := offsetp m + (endp m - startp m) - tailp\<rparr>) st
                        else st);
                  st = put_mapping (m\<lparr>startp := max s (startp m), endp := min e (endp m), offsetp := offsetp m + headp, prot := pr\<rparr>) st;
                  addr = max s (startp m) * psize; sz = min e (endp m) * psize - addr
              in pmap_protect st addr sz (to_pflags pr))"

fun protect_entries :: "u64 \<Rightarrow> u64 \<Rightarrow> u8 \<Rightarrow> mapping list \<Rightarrow> vms \<Rightarrow> vms run" where
  "protect_entries s e pr [] st = retR st"
| "protect_entries s e pr (m # ms) st = bindR (protect_entry s e pr m st) (\<lambda>st. protect_entries s e pr ms st)"

definition vmspace_protect :: "vms \<Rightarrow> u64 \<Rightarrow> u64 \<Rightarrow> u8 \<Rightarrow> (vms \<times> vm_error option) run" where
  "vmspace_protect st address len pr =
     (let psize = default_page_size
      in if address mod psize \<noteq> 0 then retR (st, Some Addr_not_aligned)
         else let s = address div psize; e = s + div_roundup len psize
              in bindR (protect_entries s e pr (filter (\<lambda>m. overlaps s e m \<and> \<not> untouchable m) (tree st)) st)
                   (\<lambda>st. retR (st, None)))"

fun is_mapped_loop :: "u64 \<Rightarrow> u64 \<Rightarrow> mapping list \<Rightarrow> bool" where
  "is_mapped_loop e covered [] \<longleftrightarrow> covered \<ge> e"
| "is_mapped_loop e covered (m # ms) \<longleftrightarrow>
     (if endp m < covered then is_mapped_loop e covered ms
      else if startp m > covered then False
      else let covered = max covered (min e (endp m)) in if covered \<ge> e then True else is_mapped_loop e covered ms)"

definition is_mapped :: "vms \<Rightarrow> u64 \<Rightarrow> u64 \<Rightarrow> bool" where
  "is_mapped st addr len \<longleftrightarrow>
     len \<noteq> 0 \<and>
     (let psize = default_page_size; s = addr div psize; e = s + div_roundup len psize
      in is_mapped_loop e 0 (filter (overlaps s e) (tree st)))"

fun find_free_loop :: "u64 \<Rightarrow> u64 \<Rightarrow> mapping list \<Rightarrow> u64" where
  "find_free_loop pages last_endp [] = last_endp * default_page_size"
| "find_free_loop pages last_endp (m # ms) =
     (if startp m - last_endp \<ge> pages then last_endp * default_page_size else find_free_loop pages (endp m) ms)"

definition find_free_region :: "vms \<Rightarrow> u64 \<Rightarrow> u64" where
  "find_free_region st len = find_free_loop (div_roundup len default_page_size) 0 (tree st)"

section \<open>Page faults\<close>

text \<open>
  The handler holds the write lock of the tree. The copy-on-write branch calls \<open>vmspace->map\<close>,
  which takes the same lock again: \<open>rwmutex::write_lock\<close> is a ticket lock that its own holder
  never leaves, so the call does not return.
\<close>

definition handle_pfault :: "vms \<Rightarrow> u64 \<Rightarrow> bool \<Rightarrow> (vms \<times> bool) run" where
  "handle_pfault st addr on_write =
     (let psize = default_page_size; page = addr div psize
      in case find (\<lambda>m. startp m \<le> page \<and> page < endp m) (tree st) of
           None \<Rightarrow> retR (st, False)
         | Some m \<Rightarrow>
             if on_write \<and> mflags m AND fl_private \<noteq> 0 \<and> use_count st (obj m) > 1
             then let (st, ob) = new_memobject st
                  in bindR (copy_to st (obj m) ob ((startp m + offsetp m) * psize) ((endp m - startp m) * psize)) (\<lambda>_. None)
             else bindR (object_get_page st (obj m) ((page - startp m) + offsetp m)) (\<lambda>(st, pg).
               if pg = 0 then retR (st, False)
               else bindR (translate (vmm st) (pmap st) (page * psize) Small) (\<lambda>(v, ret).
                 let st = st\<lparr>vmm := v\<rparr>
                 in if ret = Inr pg then retR (st, False)
                    else bindR (map_pages (vmm st) (pmap st) (page * psize) pg psize (to_pflags (prot m)) Small Write_back)
                      (\<lambda>(v, r). retR (st\<lparr>vmm := v\<rparr>, r = None)))))"

end
