(* ===== verification/Vmm_Objects.thy ===== *)
theory Vmm_Objects
  imports Vmm
begin

text \<open>
  Correctness of memory objects. An object refines an array of \<open>2 ^ 64\<close> bytes that is zero at
  first (\<open>obj_byte\<close>), although its pages are taken from the allocator when they are first
  touched. The locale \<open>byte_store\<close> states what clients rely on and is interpreted for
  \<open>object::read\<close> and \<open>object::write\<close>.
\<close>

section \<open>Pages that are not tables\<close>

lemma live_page:
  assumes "pmm_live p live" "live x = Some n"
  shows "hhdm_ok (heap p)" "hpage (heap p) (tohh (hhdm (heap p)) x)" "fromhh (hhdm (heap p)) (tohh (hhdm (heap p)) x) = x"
proof -
  obtain FL AL where L: "live_ok p live FL AL" using assms(1) by (auto simp: pmm_live_def)
  from live_okD [OF L assms(2)] obtain z v k where v: "(v, k) \<in> AL z" "x = fromhh (hhdm (heap p)) v" by metis
  have inv: "pmm_inv p FL AL" using L by (simp add: live_ok_def)
  note P = AL_page(1,2) [OF inv v(1)]
  have e: "tohh (hhdm (heap p)) x = v" using tohh_fromhh_page [OF P] v(2) by simp
  show "hhdm_ok (heap p)" "hpage (heap p) (tohh (hhdm (heap p)) x)" "fromhh (hhdm (heap p)) (tohh (hhdm (heap p)) x) = x"
    using P e v(2) by simp_all
qed

text \<open>Bytes of two different pages are apart.\<close>

lemma page_bytes_apart:
  assumes "hhdm_ok h" "hpage h v" "hpage h w" "unat k < 4096" "unat (v + k - w) < 4096"
  shows "v = w"
proof -
  have b: "unat v + 4096 \<le> 2 ^ 64" "unat w + 4096 \<le> 2 ^ 64" "4096 dvd unat v" "4096 dvd unat w"
    using assms(1-3) by (auto simp: hpage_def hhdm_ok_def)
  define d where "d = v + k - w"
  have "v + k = w + d" by (simp add: d_def)
  then have "unat (v + k) = unat (w + d)" by simp
  moreover have "unat (v + k) = unat v + unat k" "unat (w + d) = unat w + unat d"
    using b(1,2) assms(4,5) unfolding d_def [symmetric] by (simp_all add: unat_add_no_wrap)
  ultimately have e: "unat v + unat k = unat w + unat d" by simp
  obtain m n where mn: "unat v = 4096 * m" "unat w = 4096 * n" using b(3,4) by (auto simp: dvd_def)
  have "m = (4096 * m + unat k) div 4096" using assms(4) by simp
  also have "\<dots> = (4096 * n + unat d) div 4096" using e unfolding mn by simp
  also have "\<dots> = n" using assms(5) unfolding d_def [symmetric] by simp
  finally have "unat v = unat w" unfolding mn by simp
  then show ?thesis by (simp add: word_unat_eq_iff)
qed

lemma walk_outside:
  assumes inv: "pt_inv st root live" and W': "hh st' = hh st" "\<And>a. \<not> unat (a - v) < 4096 \<Longrightarrow> words st' a = words st a"
    and v: "hpage (heap (pm st)) v" "fromhh (hh st) v \<notin> tables st root" and p: "length p \<le> 3" "indices p"
  shows "walk_st st' root p = walk_st st root p"
  using p
proof (induction p rule: rev_induct)
  case (snoc i p)
  note I = pt_invD [OF inv]
  have IH: "walk_st st' root p = walk_st st root p" using snoc indices_snocD [of p i] by simp
  show ?case
  proof (cases "walk_st st root p")
    case None
    then show ?thesis using IH by (simp add: walk_append)
  next
    case (Some t)
    have p3: "length p \<le> 3" "indices p" "unat i < 512" using snoc.prems indices_snocD [of p i] by simp_all
    have t: "hpage (heap (pm st)) t" using I(5) [OF p3(1,2) Some] .
    have "fromhh (hh st) t \<in> tables st root" using Some p3 unfolding tables_def by blast
    then have "t \<noteq> v" using v(2) by blast
    then have "words st' (entry_addr t i) = words st (entry_addr t i)"
      using W'(2) entry_outside_page [OF I(2) t v(1) _ p3(3)] by blast
    then have "next_table (words st') (hh st') t i = next_table (words st) (hh st) t i" using W'(1) by (simp add: next_table_def)
    then show ?thesis using IH Some by (simp add: walk_append)
  qed
qed (simp add: W')

lemma leaf_outside:
  assumes inv: "pt_inv st root live" and W': "hh st' = hh st" "\<And>a. \<not> unat (a - v) < 4096 \<Longrightarrow> words st' a = words st a"
    and v: "hpage (heap (pm st)) v" "fromhh (hh st) v \<notin> tables st root" and q: "length q \<le> 4" "indices q" "q \<noteq> []"
  shows "leaf_st st' root q = leaf_st st root q"
proof -
  obtain p i where pi: "q = p @ [i]" using q(3) by (metis append_butlast_last_id)
  have p3: "length p \<le> 3" "indices p" "unat i < 512" using q pi indices_snocD [of p i] by simp_all
  note w = walk_outside [OF inv W' v p3(1,2)]
  show ?thesis
  proof (cases "walk_st st root p")
    case None then show ?thesis using w unfolding pi leaf_snoc by simp
  next
    case (Some t)
    note I = pt_invD [OF inv]
    have t: "hpage (heap (pm st)) t" using I(5) [OF p3(1,2) Some] .
    have "fromhh (hh st) t \<in> tables st root" using Some p3 unfolding tables_def by blast
    then have "t \<noteq> v" using v(2) by blast
    then have "words st' (entry_addr t i) = words st (entry_addr t i)"
      using W'(2) entry_outside_page [OF I(2) t v(1) _ p3(3)] by blast
    then show ?thesis using w Some unfolding pi leaf_snoc by simp
  qed
qed

lemma tables_outside:
  assumes "pt_inv st root live" "hh st' = hh st" "\<And>a. \<not> unat (a - v) < 4096 \<Longrightarrow> words st' a = words st a"
    "hpage (heap (pm st)) v" "fromhh (hh st) v \<notin> tables st root"
  shows "tables st' root = tables st root"
proof -
  have "walk_st st' root p = walk_st st root p" if "length p \<le> 3" "indices p" for p
    by (rule walk_outside [OF assms that])
  then show ?thesis unfolding tables_def assms(2) by (auto 0 4)
qed


lemma pt_inv_outside:
  assumes inv: "pt_inv st root live" and W': "hh st' = hh st" "\<And>a. \<not> unat (a - v) < 4096 \<Longrightarrow> words st' a = words st a"
    and v: "hpage (heap (pm st)) v" "fromhh (hh st) v \<notin> tables st root"
    and l: "live (fromhh (hh st) v) = None" "pmm_live (pm st') (live(fromhh (hh st) v \<mapsto> 1))"
  shows "pt_inv st' root (live(fromhh (hh st) v \<mapsto> 1))"
proof -
  note I = pt_invD [OF inv]
  have w: "walk_st st' root q = walk_st st root q" if "length q \<le> 3" "indices q" for q by (rule walk_outside [OF inv W' v that])
  have same: "words st' (entry_addr t i) = words st (entry_addr t i)"
    if "length q \<le> 3" "indices q" "walk_st st root q = Some t" "unat i < 512" for q t i
  proof -
    have "fromhh (hh st) t \<in> tables st root" using that unfolding tables_def by blast
    then have "t \<noteq> v" using v(2) by blast
    then show ?thesis using W'(2) entry_outside_page [OF I(2) I(5) [OF that(1-3)] v(1) _ that(4)] by blast
  qed
  have h: "hhdm_ok (heap (pm st'))" "hpage (heap (pm st')) = hpage (heap (pm st))" using heap_congs [OF W'(1)] I(2) by auto
  have "tree_ok (words st') (heap (pm st')) (tohh (hh st') root)"
    using I(3) w unfolding tree_ok_def h(2) W'(1) by metis
  moreover have "links_ok (words st') (hh st') (tohh (hh st') root)"
    unfolding links_ok_def W'(1)
  proof (intro allI impI)
    fix q t i assume a: "length q \<le> 2" "indices (q @ [i])" "walk (words st') (hh st) (tohh (hh st) root) q = Some t"
      "bit (words st' (entry_addr t i)) 0" "\<not> bit (words st' (entry_addr t i)) 7"
    have q: "length q \<le> 3" "indices q" "unat i < 512" using a(1) indices_snocD [OF a(2)] by auto
    have t: "walk_st st root q = Some t" using a(3) w [OF q(1,2)] W'(1) by simp
    show "is_canonical (entry_getaddr (words st' (entry_addr t i)))"
      using I(6) a(1,2,4,5) t same [OF q(1,2) t q(3)] unfolding links_ok_def by metis
  qed
  moreover have "(live(fromhh (hh st) v \<mapsto> 1)) (fromhh (hh st') t) = Some 1"
    if "length q \<le> 3" "indices q" "walk_st st' root q = Some t" for q t
    using I(4) [OF that(1,2)] w [OF that(1,2)] that(3) W'(1) by auto
  ultimately show ?thesis unfolding pt_inv_def using l(2) h(1) by blast
qed

section \<open>Objects as byte arrays\<close>

text \<open>
  Every page of an object is a live page of the allocator, no table, and belongs to one index
  of one object.
\<close>

definition obj_inv :: "vms \<Rightarrow> (u64 \<rightharpoonup> u64) \<Rightarrow> bool" where
  "obj_inv st live \<longleftrightarrow>
     pt_inv (vmm st) (pmap st) live \<and>
     (\<forall>ob. sorted_wrt (<) (map fst (objects st ob))) \<and>
     (\<forall>ob i p. map_of (objects st ob) i = Some p \<longrightarrow> live p = Some 1 \<and> p \<notin> tables (vmm st) (pmap st)) \<and>
     (\<forall>ob i ob' i' p. map_of (objects st ob) i = Some p \<longrightarrow> map_of (objects st ob') i' = Some p \<longrightarrow> ob = ob' \<and> i = i')"

text \<open>The contents of an object: pages it does not have yet read as zero.\<close>

definition obj_byte :: "vms \<Rightarrow> nat \<Rightarrow> u64 \<Rightarrow> u8" where
  "obj_byte st ob k =
     (case map_of (objects st ob) (k div 0x1000) of None \<Rightarrow> 0 | Some p \<Rightarrow> ram st (vhh st p + k mod 0x1000))"

text \<open>What operations on objects leave alone.\<close>

definition obj_frame :: "vms \<Rightarrow> vms \<Rightarrow> bool" where
  "obj_frame st st' \<longleftrightarrow>
     tree st' = tree st \<and> pmap st' = pmap st \<and> held st' = held st \<and> next_object st' = next_object st \<and>
     hh (vmm st') = hh (vmm st) \<and>
     (\<forall>q. length q \<le> 4 \<longrightarrow> indices q \<longrightarrow> q \<noteq> [] \<longrightarrow> leaf_st (vmm st') (pmap st) q = leaf_st (vmm st) (pmap st) q)"

lemma obj_frame_refl: "obj_frame st st" by (simp add: obj_frame_def)

lemma obj_frame_trans: "obj_frame st st1 \<Longrightarrow> obj_frame st1 st2 \<Longrightarrow> obj_frame st st2"
  unfolding obj_frame_def by auto

lemma obj_invD:
  assumes "obj_inv st live"
  shows "pt_inv (vmm st) (pmap st) live" "pmm_live (pm (vmm st)) live" "sorted_wrt (<) (map fst (objects st ob))"
    "map_of (objects st ob) i = Some p \<Longrightarrow> live p = Some 1"
    "map_of (objects st ob) i = Some p \<Longrightarrow> p \<notin> tables (vmm st) (pmap st)"
    "map_of (objects st ob) i = Some p \<Longrightarrow> map_of (objects st ob') i' = Some p \<Longrightarrow> ob = ob' \<and> i = i'"
  using assms pt_invD(1) unfolding obj_inv_def by blast+

lemma map_of_pages_insert:
  "map_of xs i = None \<Longrightarrow> map_of (pages_insert i p xs) = (map_of xs)(i \<mapsto> p)"
  by (induction i p xs rule: pages_insert.induct) (auto split: if_splits)

lemma fst_pages_insert: "fst ` set (pages_insert i p xs) = insert i (fst ` set xs)"
  by (induction i p xs rule: pages_insert.induct) auto

lemma sorted_pages_insert:
  "sorted_wrt (<) (map fst xs) \<Longrightarrow> i \<notin> fst ` set xs \<Longrightarrow> sorted_wrt (<) (map fst (pages_insert i p xs))"
proof (induction i p xs rule: pages_insert.induct)
  case (2 i p j q xs)
  then show ?case using fst_pages_insert [of i p xs] by (auto simp: image_iff)
qed simp

lemma obj_page:
  assumes "obj_inv st live" "map_of (objects st ob) i = Some p"
  shows "hhdm_ok (heap (pm (vmm st)))" "hpage (heap (pm (vmm st))) (vhh st p)" "fromhh (hh (vmm st)) (vhh st p) = p"
  using live_page [OF pt_invD(1) [OF obj_invD(1) [OF assms(1)]] obj_invD(4) [OF assms]] unfolding vhh_def by blast+

lemma mod_page: "unat (k mod 0x1000 :: u64) < 4096"
  by (simp add: unat_mod_distrib)

text \<open>A page taken for an object is fresh, so no object changes.\<close>

lemma request_page_ok:
  assumes inv: "obj_inv st live"
  shows "request_page st = failR oom \<and> \<not> vroom (vmm st) live 1 \<or>
    (\<exists>st' x live'. request_page st = retR (st', x) \<and> x \<noteq> 0 \<and> obj_inv st' live' \<and> obj_frame st st' \<and> objects st' = objects st \<and>
       grows 1 (pmap st) (vmm st) live (vmm st') live' \<and> live x = None \<and> live' x = Some 1 \<and> x \<notin> tables (vmm st') (pmap st) \<and>
       (\<forall>k. unat k < 4096 \<longrightarrow> ram st' (vhh st' x + k) = 0) \<and>
       (\<forall>y k. live y = Some 1 \<longrightarrow> unat k < 4096 \<longrightarrow> ram st' (vhh st' y + k) = ram st (vhh st y + k)))"
proof -
  note I = obj_invD [OF inv] and P = pt_invD [OF obj_invD(1) [OF inv]]
  let ?v = "vmm st" and ?H = "hh (vmm st)"
  from page_alloc_ok [OF P(1), of Normal] consider "pmm_alloc ?v 1 True Normal = failR oom" "\<not> vroom ?v live 1"
    | v' w where "pmm_alloc ?v 1 True Normal = retR (v', fromhh ?H w)" "\<forall>n. vroom ?v live (Suc n) \<longrightarrow> vroom v' (live(fromhh ?H w \<mapsto> 1)) n"
      "hh v' = ?H" "hhdm_ok (heap (pm ?v))" "hpage (heap (pm ?v)) w" "live (fromhh ?H w) = None"
      "pmm_live (pm v') (live(fromhh ?H w \<mapsto> 1))" "words v' = (\<lambda>a. if unat (a - w) < 4096 then 0 else words ?v a)"
      "fromhh ?H w \<noteq> 0" "pagemap_use_lowmem v' = pagemap_use_lowmem ?v" by blast
  then show ?thesis
  proof cases
    case 1
    then show ?thesis by (simp add: request_page_def)
  next
    case 2
    let ?x = "fromhh ?H w"
    define st' where "st' = st\<lparr>vmm := v', ram := fst (memset (ram st) w 0 0x1000)\<rparr>"
    have tw: "tohh ?H ?x = w" using tohh_fromhh_page [OF 2(4,5)] .
    have ret: "request_page st = retR (st', ?x)"
      using 2(1,3,9) tw by (simp add: request_page_def st'_def vhh_def Let_def)
    have nt: "?x \<notin> tables ?v (pmap st)"
      using P(4) 2(6) unfolding tables_def by fastforce
    have W: "\<not> unat (a - w) < 4096 \<Longrightarrow> words v' a = words ?v a" for a using 2(8) by simp
    note O = I(1) 2(3) W 2(5) nt
    have tb: "tables v' (pmap st) = tables ?v (pmap st)" by (rule tables_outside [OF O])
    have wk: "walk_st v' (pmap st) q = walk_st ?v (pmap st) q" if "length q \<le> 3" "indices q" for q by (rule walk_outside [OF O that])
    have lf: "leaf_st v' (pmap st) q = leaf_st ?v (pmap st) q" if "length q \<le> 4" "indices q" "q \<noteq> []" for q by (rule leaf_outside [OF O that])
    have pinv: "pt_inv v' (pmap st) (live(?x \<mapsto> 1))" by (rule pt_inv_outside [OF O 2(6,7)])
    have "obj_inv st' (live(?x \<mapsto> 1))"
      unfolding obj_inv_def using pinv I(3) I(4,5) I(6) 2(6) tb by (auto simp: st'_def)
    moreover have "obj_frame st st'" unfolding obj_frame_def using lf 2(3) by (simp add: st'_def)
    moreover have "grows 1 (pmap st) ?v live v' (live(?x \<mapsto> 1))"
      unfolding grows_def using 2(2,6) tb by (auto simp: map_le_def)
    moreover have "ram st' (vhh st' ?x + k) = 0" if "unat k < 4096" for k
      using that tw 2(3) by (simp add: st'_def vhh_def memset_filled filled_def)
    moreover have "ram st' (vhh st' y + k) = ram st (vhh st y + k)" if "live y = Some 1" "unat k < 4096" for y k
    proof -
      note Y = live_page [OF P(1) that(1)]
      have "tohh ?H y \<noteq> w" using Y(3) 2(6) that(1) by auto
      then have "\<not> unat (tohh ?H y + k - w) < 4096" using page_bytes_apart [OF Y(1,2) 2(5) that(2)] by blast
      then show ?thesis using 2(3) by (simp add: st'_def vhh_def memset_filled filled_def)
    qed
    ultimately show ?thesis using ret 2(6,9) tb nt
      by (intro disjI2 exI [of _ st'] exI [of _ ?x] exI [of _ "live(?x \<mapsto> 1)"]) (simp add: st'_def)
  qed
qed

lemma default_page_size_eq [simp]: "default_page_size = 0x1000" by (simp add: default_page_size_def kib_def)

lemma obj_frame_set_pages [simp]: "obj_frame st (set_pages s ob ps) = obj_frame st s"
  by (simp add: obj_frame_def set_pages_def)

lemma get_page_ok:
  assumes inv: "obj_inv st live"
  shows "object_get_page st ob idx = failR oom \<and> \<not> vroom (vmm st) live 1 \<or>
    (\<exists>st' p live'. object_get_page st ob idx = retR (st', p) \<and> p \<noteq> 0 \<and> obj_inv st' live' \<and> obj_frame st st' \<and>
       grows 1 (pmap st) (vmm st) live (vmm st') live' \<and> map_of (objects st' ob) idx = Some p \<and>
       obj_byte st' = obj_byte st \<and> (\<forall>ob' i x. map_of (objects st ob') i = Some x \<longrightarrow> map_of (objects st' ob') i = Some x))"
proof (cases "map_of (objects st ob) idx")
  case (Some p)
  note I = obj_invD [OF inv]
  have "p \<noteq> 0" using live_nonzero [OF pt_invD(1) [OF I(1)] I(4) [OF Some]] .
  then show ?thesis
    using Some inv obj_frame_refl grows_mono [OF grows_refl, of 1] by (intro disjI2 exI [of _ st] exI [of _ p] exI [of _ live]) (simp add: object_get_page_def)
next
  case None
  note I = obj_invD [OF inv]
  from request_page_ok [OF inv] consider "request_page st = failR oom" "\<not> vroom (vmm st) live 1"
    | s x l where "request_page st = retR (s, x)" "x \<noteq> 0" "obj_inv s l" "obj_frame st s" "objects s = objects st"
       "grows 1 (pmap st) (vmm st) live (vmm s) l" "live x = None" "l x = Some 1" "x \<notin> tables (vmm s) (pmap st)"
       "\<forall>k. unat k < 4096 \<longrightarrow> ram s (vhh s x + k) = 0"
       "\<forall>y k. live y = Some 1 \<longrightarrow> unat k < 4096 \<longrightarrow> ram s (vhh s y + k) = ram st (vhh st y + k)" by blast
  then show ?thesis
  proof cases
    case 1 then show ?thesis using None by (simp add: object_get_page_def)
  next
    case 2
    define st' where "st' = set_pages s ob (pages_insert idx x (objects st ob))"
    have ret: "object_get_page st ob idx = retR (st', x)" using None 2(1,2,5) by (simp add: object_get_page_def st'_def)
    have o': "map_of (objects st' ob') i = (if ob' = ob \<and> i = idx then Some x else map_of (objects st ob') i)" for ob' i
      using map_of_pages_insert [OF None] 2(5) by (simp add: st'_def set_pages_def)
    note J = obj_invD [OF 2(3)]
    have pm: "pmap s = pmap st" using 2(4) by (simp add: obj_frame_def)
    have nx: "map_of (objects st ob') i \<noteq> Some x" for ob' i using I(4) 2(7) by fastforce
    have "obj_inv st' l"
      unfolding obj_inv_def
    proof (intro conjI allI impI)
      show "sorted_wrt (<) (map fst (objects st' ob'))" for ob'
        using I(3) sorted_pages_insert [OF I(3)] None 2(5) by (auto simp: st'_def set_pages_def map_of_eq_None_iff)
      show "l p = Some 1" "p \<notin> tables (vmm st') (pmap st')" if "map_of (objects st' ob') i = Some p" for ob' i p
        using that J(4,5) [of ob' i p] 2(5,8,9) unfolding o' by (auto simp: st'_def set_pages_def pm split: if_splits)
      fix ob1 i1 ob2 i2 p assume "map_of (objects st' ob1) i1 = Some p" "map_of (objects st' ob2) i2 = Some p"
      then show "ob1 = ob2" "i1 = i2" using I(6) nx unfolding o' by (auto split: if_splits)
    qed (use J(1,2) in \<open>simp_all add: st'_def set_pages_def\<close>)
    moreover have "obj_frame st st'" using 2(4) by (simp add: st'_def)
    moreover have "grows 1 (pmap st) (vmm st) live (vmm st') l" using 2(6) by (simp add: st'_def set_pages_def)
    moreover have "obj_byte st' ob' k = obj_byte st ob' k" for ob' k
    proof (cases "ob' = ob \<and> k div 0x1000 = idx")
      case True
      then have "obj_byte st' ob' k = ram st' (vhh st' x + k mod 0x1000)" using o' by (simp add: obj_byte_def)
      also have "\<dots> = 0" using 2(10) mod_page by (simp add: st'_def set_pages_def vhh_def)
      finally show ?thesis using True None by (simp add: obj_byte_def)
    next
      case False
      then have m: "map_of (objects st' ob') (k div 0x1000) = map_of (objects st ob') (k div 0x1000)" unfolding o' by auto
      show ?thesis
      proof (cases "map_of (objects st ob') (k div 0x1000)")
        case None then show ?thesis using m by (simp add: obj_byte_def)
      next
        case (Some p)
        then have "live p = Some 1" using I(4) by blast
        then show ?thesis using 2(11) mod_page Some m by (simp add: obj_byte_def st'_def set_pages_def vhh_def)
      qed
    qed
    moreover have "map_of (objects st' ob') i = Some y" if "map_of (objects st ob') i = Some y" for ob' i y
      using that None unfolding o' by auto
    ultimately show ?thesis using ret 2(2) o' by (intro disjI2 exI [of _ st'] exI [of _ x] exI [of _ l]) auto
  qed
qed

text \<open>A chunk never crosses a page.\<close>

lemma chunk_iff:
  assumes "cs \<le> 4096 - unat b mod 4096"
  shows "unat (k - b) < cs \<longleftrightarrow> k div 0x1000 = b div 0x1000 \<and> unat (k mod 0x1000 - b mod 0x1000) < cs"
    "k div 0x1000 = b div 0x1000 \<Longrightarrow> k mod 0x1000 - b mod 0x1000 = k - (b :: u64)"
proof -
  show e: "k mod 0x1000 - b mod 0x1000 = k - b" if "k div 0x1000 = b div 0x1000" for k b :: u64
  proof -
    have "k = 0x1000 * (k div 0x1000) + k mod 0x1000" "b = 0x1000 * (b div 0x1000) + b mod 0x1000" by (rule mult_div_mod_eq [symmetric])+
    then show ?thesis using that by (metis add_diff_cancel_left)
  qed
  have "k div 0x1000 = b div 0x1000" if "unat (k - b) < cs"
  proof -
    define d where "d = k - b"
    define q r where "q = unat b div 4096" and "r = unat b mod 4096"
    have b: "unat b = 4096 * q + r" "r < 4096" by (simp_all add: q_def r_def)
    have d: "r + unat d < 4096" using that assms unfolding d_def [symmetric] r_def [symmetric] using b(2) by linarith
    have "4096 * q < 2 ^ 64" using b unat_lt_2p64 [of b] by simp
    then have "4096 * q + 4096 \<le> 2 ^ 64" by simp
    then have "unat b + unat d < 2 ^ 64" using b d by linarith
    then have "unat (b + d) = 4096 * q + (r + unat d)" using b(1) by (simp add: unat_add_no_wrap)
    then have "unat k = 4096 * q + (r + unat d)" by (simp add: d_def)
    then have "unat k div 4096 = q" using d by simp
    then have "unat (k div 0x1000) = unat (b div 0x1000)" by (simp add: unat_div_distrib q_def)
    then show ?thesis by (simp add: word_unat_eq_iff)
  qed
  then show "unat (k - b) < cs \<longleftrightarrow> k div 0x1000 = b div 0x1000 \<and> unat (k mod 0x1000 - b mod 0x1000) < cs"
    using e by metis
qed

lemma poke_ok:
  assumes inv: "obj_inv st live" and m: "map_of (objects st ob) (b div 0x1000) = Some p" and l: "length bs \<le> 4096 - unat b mod 4096"
  defines "st' \<equiv> st\<lparr>ram := poke (ram st) (vhh st p + b mod 0x1000) bs\<rparr>"
  shows "obj_inv st' live" "obj_frame st st'"
    "obj_byte st' ob' k = (if ob' = ob \<and> unat (k - b) < length bs then bs ! unat (k - b) else obj_byte st ob' k)"
proof -
  show "obj_inv st' live" using inv by (simp add: obj_inv_def st'_def)
  show "obj_frame st st'" by (simp add: obj_frame_def st'_def)
  note I = obj_invD [OF inv]
  have bm: "unat (b mod 0x1000) = unat b mod 4096" by (simp add: unat_mod_distrib)
  show "obj_byte st' ob' k = (if ob' = ob \<and> unat (k - b) < length bs then bs ! unat (k - b) else obj_byte st ob' k)"
  proof (cases "map_of (objects st ob') (k div 0x1000)")
    case None
    then have "\<not> (ob' = ob \<and> unat (k - b) < length bs)" using chunk_iff(1) [OF l] m by auto
    moreover have "obj_byte st' ob' k = obj_byte st ob' k" using None by (simp add: obj_byte_def st'_def)
    ultimately show ?thesis by (simp only: if_False)
  next
    case (Some p')
    let ?a = "vhh st p' + k mod 0x1000" and ?t = "vhh st p + b mod 0x1000"
    have e: "obj_byte st' ob' k = (if unat (?a - ?t) < length bs then bs ! unat (?a - ?t) else obj_byte st ob' k)"
      using Some by (simp add: obj_byte_def st'_def poke_def vhh_def)
    show ?thesis
    proof (cases "p' = p")
      case True
      then have eq: "ob' = ob" "k div 0x1000 = b div 0x1000" using I(6) Some m by blast+
      then have "?a - ?t = k - b" using chunk_iff(2) [OF l eq(2)] True by simp
      then show ?thesis using e eq(1) by simp
    next
      case False
      have "\<not> unat (?a - ?t) < length bs"
      proof
        assume a: "unat (?a - ?t) < length bs"
        define d where "d = ?a - ?t"
        have "?a - vhh st p = d + b mod 0x1000" by (simp add: d_def)
        moreover have "unat (d + b mod 0x1000) = unat d + unat (b mod 0x1000)"
          using a l bm unfolding d_def [symmetric] by (intro unat_add_no_wrap) simp
        ultimately have "unat (?a - vhh st p) < 4096" using a l bm unfolding d_def [symmetric] by simp
        then have "vhh st p' = vhh st p"
          using page_bytes_apart [OF obj_page(1,2) [OF inv Some] obj_page(2) [OF inv m] mod_page] by blast
        then show False using obj_page(3) [OF inv Some] obj_page(3) [OF inv m] False by simp
      qed
      moreover have "\<not> (ob' = ob \<and> unat (k - b) < length bs)" using chunk_iff(1) [OF l, of k] m Some False by auto
      ultimately show ?thesis using e by (simp only: if_False)
    qed
  qed
qed

definition page_span :: "u64 \<Rightarrow> nat \<Rightarrow> nat" where
  "page_span b n = (if n = 0 then 0 else (unat b mod 4096 + n + 4095) div 4096)"

lemma chunk_facts:
  assumes "progress < len" and cs_def: "cs = csize offset len progress"
  shows "unat cs \<le> 4096 - unat (progress + offset) mod 4096" "0 < unat cs" "unat cs \<le> unat len - unat progress"
    "unat (progress + cs) = unat progress + unat cs" "progress + cs \<le> len"
    "page_span (progress + offset) (unat len - unat progress) =
       1 + page_span (progress + cs + offset) (unat len - unat (progress + cs))"
proof -
  let ?b = "progress + offset"
  have m: "unat (?b mod 0x1000) = unat ?b mod 4096" by (simp add: unat_mod_distrib)
  have a: "unat (0x1000 - ?b mod 0x1000) = 4096 - unat ?b mod 4096"
    using m by (subst unat_sub_no_wrap) (simp_all add: word_le_nat_alt)
  have d: "unat (len - progress) = unat len - unat progress"
    using assms(1) by (simp add: unat_sub_no_wrap word_less_nat_alt word_le_nat_alt)
  have c: "unat cs = min (4096 - unat ?b mod 4096) (unat len - unat progress)"
    unfolding cs_def csize_def default_page_size_eq min_def word_le_nat_alt a d using a d by (auto simp del: unat_sub)
  have lt: "unat progress < unat len" using assms(1) by (simp add: word_less_nat_alt)
  show c1: "unat cs \<le> 4096 - unat ?b mod 4096" "0 < unat cs" "unat cs \<le> unat len - unat progress"
    unfolding c using lt by auto
  have "unat progress + unat cs < 2 ^ 64" using c1(3) lt unat_lt_2p64 [of len] by linarith
  then show u: "unat (progress + cs) = unat progress + unat cs" by (simp add: unat_add_no_wrap)
  show "progress + cs \<le> len" using u c1(3) lt by (simp add: word_le_nat_alt)
  show "page_span ?b (unat len - unat progress) = 1 + page_span (progress + cs + offset) (unat len - unat (progress + cs))"
  proof (cases "unat cs = unat len - unat progress")
    case True
    then have "unat ?b mod 4096 + (unat len - unat progress) \<le> 4096" "0 < unat len - unat progress" using c1 lt by auto
    then have "(unat ?b mod 4096 + (unat len - unat progress) + 4095) div 4096 = 1" by (simp add: div_nat_eqI)
    then show ?thesis using True u lt by (simp add: page_span_def)
  next
    case False
    then have cs: "unat cs = 4096 - unat ?b mod 4096" "unat cs < unat len - unat progress" using c by (auto simp: min_def split: if_splits)
    have "unat (progress + cs + offset) mod 4096 = 0"
    proof -
      have "progress + cs + offset = ?b + cs" by simp
      then have "unat (progress + cs + offset) mod 4096 = (unat ?b + unat cs) mod 2 ^ 64 mod 4096"
        by (simp only: unat_word_ariths(1) [of ?b cs]) simp
      also have "\<dots> = (unat ?b + unat cs) mod 4096"
        using dvd_triv_left [of "4096 :: nat" "2 ^ 52"] by (simp add: mod_mod_cancel)
      also have "\<dots> = (unat ?b mod 4096 + unat cs) mod 4096" by (simp add: mod_simps)
      also have "\<dots> = 0" using cs(1) mod_less_divisor [of 4096 "unat ?b"] by simp
      finally show ?thesis .
    qed
    moreover have "(unat ?b mod 4096 + (unat len - unat progress) + 4095) div 4096 = 1 + ((unat len - unat progress - unat cs) + 4095) div 4096"
    proof -
      have "unat ?b mod 4096 + (unat len - unat progress) = 4096 + (unat len - unat progress - unat cs)"
        using cs mod_less_divisor [of 4096 "unat ?b"] by simp
      then show ?thesis by simp
    qed
    ultimately show ?thesis using cs(2) lt u by (simp add: page_span_def)
  qed
qed

lemma range_step:
  assumes "unat (k - (progress + offset)) < n" "unat progress + n < 2 ^ 64"
  shows "unat (k - offset) = unat progress + unat (k - (progress + offset :: u64))"
proof -
  have "k - offset = progress + (k - (progress + offset))" by simp
  moreover have "unat progress + unat (k - (progress + offset)) < 2 ^ 64" using assms by linarith
  then have "unat (progress + (k - (progress + offset))) = unat progress + unat (k - (progress + offset))" by (intro unat_add_no_wrap) simp
  ultimately show ?thesis by simp
qed


lemma range_shift:
  assumes "unat cs \<le> N" "N < 2 ^ 64"
  shows "unat (k - (b + cs)) < N - unat cs \<longleftrightarrow> unat cs \<le> unat (k - b) \<and> unat (k - b) < N"
    "unat cs \<le> unat (k - b) \<Longrightarrow> unat (k - (b + cs :: u64)) = unat (k - b) - unat cs"
proof -
  have e: "k - (b + cs) = (k - b) - cs" by simp
  show s: "unat (k - (b + cs)) = unat (k - b) - unat cs" if "unat cs \<le> unat (k - b)"
    unfolding e using that by (intro unat_sub_no_wrap) (simp add: word_le_nat_alt)
  show "unat (k - (b + cs)) < N - unat cs \<longleftrightarrow> unat cs \<le> unat (k - b) \<and> unat (k - b) < N"
  proof (cases "unat cs \<le> unat (k - b)")
    case True
    then show ?thesis using s assms(1) by auto
  next
    case False
    define d where "d = k - (b + cs)"
    have kb: "k - b = d + cs" by (simp add: d_def)
    have "\<not> unat d < N - unat cs"
    proof
      assume "unat d < N - unat cs"
      then have "unat (d + cs) = unat d + unat cs" using assms by (intro unat_add_no_wrap) simp
      then show False using False kb by simp
    qed
    then show ?thesis using False by (simp add: d_def)
  qed
qed

text \<open>The effect of writing the bytes \<open>bs\<close> at \<open>offset\<close> of an object.\<close>

definition obj_written :: "vms \<Rightarrow> vms \<Rightarrow> nat \<Rightarrow> u64 \<Rightarrow> u8 list \<Rightarrow> bool" where
  "obj_written st st' ob offset bs \<longleftrightarrow>
     (\<forall>ob' k. obj_byte st' ob' k = (if ob' = ob \<and> unat (k - offset) < length bs then bs ! unat (k - offset) else obj_byte st ob' k))"

lemma obj_written_append:
  assumes "obj_written st st1 ob b xs" "obj_written st1 st2 ob (b + of_nat (length xs)) ys" "length xs + length ys < 2 ^ 64"
  shows "obj_written st st2 ob b (xs @ ys)"
  unfolding obj_written_def
proof (intro allI)
  fix ob' k
  let ?c = "of_nat (length xs) :: u64"
  have c: "unat ?c = length xs" using assms(3) by (intro unat_of_nat_small) simp
  note R = range_shift [of ?c "length xs + length ys" k b, unfolded c]
  show "obj_byte st2 ob' k = (if ob' = ob \<and> unat (k - b) < length (xs @ ys) then (xs @ ys) ! unat (k - b) else obj_byte st ob' k)"
    using assms(1) [unfolded obj_written_def, rule_format, of ob' k] assms(2) [unfolded obj_written_def, rule_format, of ob' k] R assms(3)
    by (auto simp: nth_append split: if_splits)
qed

lemma write_loop_ok:
  assumes "obj_inv st live" "progress \<le> len" "unat len = length buffer"
  shows "object_write_loop st ob offset buffer len progress = failR oom \<and>
      \<not> vroom (vmm st) live (page_span (progress + offset) (unat len - unat progress)) \<or>
    (\<exists>st' live'. object_write_loop st ob offset buffer len progress = retR (st', len) \<and> obj_inv st' live' \<and> obj_frame st st' \<and>
       grows (page_span (progress + offset) (unat len - unat progress)) (pmap st) (vmm st) live (vmm st') live' \<and>
       obj_written st st' ob (progress + offset) (drop (unat progress) buffer))"
  using assms
proof (induction "unat len - unat progress" arbitrary: st live progress rule: less_induct)
  case less
  show ?case
  proof (cases "progress < len")
    case False
    then have "progress = len" using less.prems(2) by simp
    then show ?thesis using less.prems obj_frame_refl grows_refl
      by (intro disjI2 exI [of _ st] exI [of _ live]) (simp add: object_write_loop.simps page_span_def obj_written_def)
  next
    case True
    let ?b = "progress + offset"
    define cs where "cs = csize offset len progress"
    note C = chunk_facts [OF True cs_def]
    let ?span = "page_span ?b (unat len - unat progress)"
    let ?span' = "page_span (progress + cs + offset) (unat len - unat (progress + cs))"
    from get_page_ok [OF less.prems(1), of ob "?b div 0x1000"] consider
      "object_get_page st ob (?b div 0x1000) = failR oom" "\<not> vroom (vmm st) live 1"
      | s p l where "object_get_page st ob (?b div 0x1000) = retR (s, p)" "p \<noteq> 0" "obj_inv s l" "obj_frame st s"
        "grows 1 (pmap st) (vmm st) live (vmm s) l" "map_of (objects s ob) (?b div 0x1000) = Some p" "obj_byte s = obj_byte st" by blast
    then show ?thesis
    proof cases
      case 1
      then have "object_write_loop st ob offset buffer len progress = failR oom"
        using True by (simp add: object_write_loop.simps Let_def)
      moreover have "\<not> vroom (vmm st) live ?span" using 1(2) C(6) vroom_le by (metis le_add1)
      ultimately show ?thesis by blast
    next
      case 2
      let ?bs = "take (unat cs) (drop (unat progress) buffer)"
      define s1 where "s1 = s\<lparr>ram := poke (ram s) (vhh s p + ?b mod 0x1000) ?bs\<rparr>"
      have bl: "length ?bs = unat cs" using C(3) less.prems(3) by simp
      have "length ?bs \<le> 4096 - unat ?b mod 4096" using bl C(1) by simp
      note P = poke_ok [OF 2(3,6) this, folded s1_def]
      have eq: "object_write_loop st ob offset buffer len progress = object_write_loop s1 ob offset buffer len (progress + cs)"
        using True 2(1,2) by (subst object_write_loop.simps) (simp add: Let_def s1_def cs_def)
      have dec: "unat len - unat (progress + cs) < unat len - unat progress"
        using C(2,4) True by (simp add: word_less_nat_alt)
      have pm: "pmap s1 = pmap st" "vmm s1 = vmm s" using 2(4) by (simp_all add: obj_frame_def s1_def)
      have fr: "obj_frame st s1" by (rule obj_frame_trans [OF 2(4) P(2)])
      from less.hyps [OF dec P(1) C(5) less.prems(3)] consider
        "object_write_loop s1 ob offset buffer len (progress + cs) = failR oom" "\<not> vroom (vmm s1) l ?span'"
        | st' live' where "object_write_loop s1 ob offset buffer len (progress + cs) = retR (st', len)" "obj_inv st' live'"
          "obj_frame s1 st'" "grows ?span' (pmap s1) (vmm s1) l (vmm st') live'"
          "obj_written s1 st' ob (progress + cs + offset) (drop (unat (progress + cs)) buffer)" by blast
      then show ?thesis
      proof cases
        case 1
        then show ?thesis unfolding eq C(6) using 2(5) unfolding pm grows_def by (auto simp: add.commute)
      next
        case b: 2
        have "grows ?span (pmap st) (vmm st) live (vmm st') live'"
          unfolding C(6) by (rule grows_trans [OF 2(5) b(4) [unfolded pm]])
        moreover have "obj_written st st' ob ?b (drop (unat progress) buffer)"
        proof -
          have "obj_written s s1 ob ?b ?bs" using P(3) unfolding obj_written_def by blast
          then have w1: "obj_written st s1 ob ?b ?bs" using 2(7) unfolding obj_written_def by simp
          have split: "drop (unat progress) buffer = ?bs @ drop (unat (progress + cs)) buffer"
            using C(4) by (metis append_take_drop_id drop_drop add.commute)
          have "?b + of_nat (length ?bs) = progress + cs + offset" unfolding bl by (simp add: algebra_simps)
          moreover have "length ?bs + length (drop (unat (progress + cs)) buffer) < 2 ^ 64"
            using less.prems(3) unat_lt_2p64 [of len] C(3,4) bl by simp
          ultimately have "obj_written st st' ob ?b (?bs @ drop (unat (progress + cs)) buffer)"
            by (intro obj_written_append [OF w1]) (simp_all only: b(5))
          then show ?thesis by (simp only: split [symmetric])
        qed
        ultimately show ?thesis unfolding eq using b(1,2) obj_frame_trans [OF fr b(3)] by blast
      qed
    qed
  qed
qed

definition obj_bytes :: "vms \<Rightarrow> nat \<Rightarrow> u64 \<Rightarrow> nat \<Rightarrow> u8 list" where
  "obj_bytes st ob b n = map (\<lambda>i. obj_byte st ob (b + of_nat i)) [0..<n]"

lemma obj_bytes_append: "obj_bytes st ob b (m + n) = obj_bytes st ob b m @ obj_bytes st ob (b + of_nat m) n"
proof (rule nth_equalityI)
  fix i assume "i < length (obj_bytes st ob b (m + n))"
  then have i: "i < m + n" by (simp add: obj_bytes_def)
  show "obj_bytes st ob b (m + n) ! i = (obj_bytes st ob b m @ obj_bytes st ob (b + of_nat m) n) ! i"
  proof (cases "i < m")
    case False
    then have "of_nat i = (of_nat m + of_nat (i - m) :: u64)" using i by (simp flip: of_nat_add)
    then show ?thesis using i False by (simp add: obj_bytes_def nth_append add.assoc)
  qed (use i in \<open>simp add: obj_bytes_def nth_append\<close>)
qed (simp add: obj_bytes_def)

lemma peek_chunk:
  assumes "map_of (objects st ob) (b div 0x1000) = Some p" "unat cs \<le> 4096 - unat b mod 4096"
  shows "peek (ram st) (vhh st p + b mod 0x1000) cs = obj_bytes st ob b (unat cs)"
  unfolding peek_def obj_bytes_def
proof (rule map_cong [OF refl])
  fix i assume "i \<in> set [0..<unat cs]"
  then have i: "i < unat cs" by simp
  then have "unat (of_nat i :: u64) = i" by (intro unat_of_nat_small) (use unat_lt_2p64 [of cs] in simp)
  then have "unat ((b + of_nat i) - b) < unat cs" using i by simp
  then have d: "(b + of_nat i) div 0x1000 = b div 0x1000" using chunk_iff(1) [OF assms(2)] by blast
  from chunk_iff(2) [OF assms(2) d] have "(b + of_nat i) mod 0x1000 = b mod 0x1000 + of_nat i" by (simp add: diff_eq_eq add.commute)
  then show "ram st (vhh st p + b mod 0x1000 + of_nat i) = obj_byte st ob (b + of_nat i)"
    using assms(1) d by (simp add: obj_byte_def add.assoc)
qed

lemma read_loop_ok:
  assumes "obj_inv st live" "progress \<le> len"
  shows "object_read_loop st ob offset len progress buf = failR oom \<and>
      \<not> vroom (vmm st) live (page_span (progress + offset) (unat len - unat progress)) \<or>
    (\<exists>st' live'. object_read_loop st ob offset len progress buf =
         retR (st', len, buf @ obj_bytes st ob (progress + offset) (unat len - unat progress)) \<and> obj_inv st' live' \<and> obj_frame st st' \<and>
       grows (page_span (progress + offset) (unat len - unat progress)) (pmap st) (vmm st) live (vmm st') live' \<and>
       obj_byte st' = obj_byte st)"
  using assms
proof (induction "unat len - unat progress" arbitrary: st live progress buf rule: less_induct)
  case less
  show ?case
  proof (cases "progress < len")
    case False
    then have "progress = len" using less.prems(2) by simp
    then show ?thesis using less.prems obj_frame_refl grows_refl
      by (intro disjI2 exI [of _ st] exI [of _ live]) (simp add: object_read_loop.simps page_span_def obj_bytes_def)
  next
    case True
    let ?b = "progress + offset"
    define cs where "cs = csize offset len progress"
    note C = chunk_facts [OF True cs_def]
    let ?span = "page_span ?b (unat len - unat progress)"
    let ?span' = "page_span (progress + cs + offset) (unat len - unat (progress + cs))"
    from get_page_ok [OF less.prems(1), of ob "?b div 0x1000"] consider
      "object_get_page st ob (?b div 0x1000) = failR oom" "\<not> vroom (vmm st) live 1"
      | s p l where "object_get_page st ob (?b div 0x1000) = retR (s, p)" "p \<noteq> 0" "obj_inv s l" "obj_frame st s"
        "grows 1 (pmap st) (vmm st) live (vmm s) l" "map_of (objects s ob) (?b div 0x1000) = Some p" "obj_byte s = obj_byte st" by blast
    then show ?thesis
    proof cases
      case 1
      then have "object_read_loop st ob offset len progress buf = failR oom"
        using True by (simp add: object_read_loop.simps Let_def)
      moreover have "\<not> vroom (vmm st) live ?span" using 1(2) C(6) vroom_le by (metis le_add1)
      ultimately show ?thesis by blast
    next
      case 2
      have pk: "peek (ram s) (vhh s p + ?b mod 0x1000) cs = obj_bytes st ob ?b (unat cs)"
        using peek_chunk [OF 2(6) C(1)] 2(7) by (simp add: obj_bytes_def)
      have eq: "object_read_loop st ob offset len progress buf =
          object_read_loop s ob offset len (progress + cs) (buf @ obj_bytes st ob ?b (unat cs))"
        using True 2(1,2) pk by (subst object_read_loop.simps) (simp add: Let_def cs_def)
      have dec: "unat len - unat (progress + cs) < unat len - unat progress"
        using C(2,4) True by (simp add: word_less_nat_alt)
      have pm: "pmap s = pmap st" using 2(4) by (simp add: obj_frame_def)
      have app: "obj_bytes st ob ?b (unat cs) @ obj_bytes s ob (progress + cs + offset) (unat len - unat (progress + cs)) =
          obj_bytes st ob ?b (unat len - unat progress)"
      proof -
        have "unat len - unat progress = unat cs + (unat len - unat (progress + cs))" using C(3,4) True by (simp add: word_less_nat_alt)
        moreover have "progress + cs + offset = ?b + of_nat (unat cs)" by (simp add: algebra_simps)
        moreover have "obj_bytes s = obj_bytes st" using 2(7) by (intro ext) (simp add: obj_bytes_def)
        ultimately show ?thesis by (simp only: obj_bytes_append)
      qed
      from less.hyps [OF dec 2(3) C(5), of "buf @ obj_bytes st ob ?b (unat cs)"] consider
        "object_read_loop s ob offset len (progress + cs) (buf @ obj_bytes st ob ?b (unat cs)) = failR oom" "\<not> vroom (vmm s) l ?span'"
        | st' live' where "object_read_loop s ob offset len (progress + cs) (buf @ obj_bytes st ob ?b (unat cs)) =
             retR (st', len, buf @ obj_bytes st ob ?b (unat len - unat progress))" "obj_inv st' live'"
          "obj_frame s st'" "grows ?span' (pmap s) (vmm s) l (vmm st') live'" "obj_byte st' = obj_byte s"
        unfolding append_assoc app by blast
      then show ?thesis
      proof cases
        case 1
        then show ?thesis unfolding eq C(6) using 2(5) unfolding pm grows_def by (auto simp: add.commute)
      next
        case b: 2
        have "grows ?span (pmap st) (vmm st) live (vmm st') live'"
          unfolding C(6) by (rule grows_trans [OF 2(5) b(4) [unfolded pm]])
        then show ?thesis unfolding eq using b(1,2,5) 2(7) obj_frame_trans [OF 2(4) b(3)] by auto
      qed
    qed
  qed
qed

text \<open>Clearing is writing the same byte everywhere.\<close>

lemma filled_poke: "n < 2 ^ 64 \<Longrightarrow> filled m a v n = poke m a (replicate n v)"
  by (rule ext) (simp add: filled_def poke_def)

lemma clear_is_write:
  "object_clear_loop st ob offset v len progress = object_write_loop st ob offset (replicate (unat len) v) len progress"
proof (induction "unat len - unat progress" arbitrary: st progress rule: less_induct)
  case less
  show ?case
  proof (cases "progress < len")
    case False
    then show ?thesis by (simp add: object_clear_loop.simps object_write_loop.simps)
  next
    case True
    define cs where "cs = csize offset len progress"
    note C = chunk_facts [OF True cs_def]
    have dec: "unat len - unat (progress + cs) < unat len - unat progress" using C(2,4) True by (simp add: word_less_nat_alt)
    have t: "take (unat cs) (drop (unat progress) (replicate (unat len) v)) = replicate (unat cs) v"
      using C(3) by (simp add: min_absorb2)
    have m: "fst (memset m a (ucast v) cs) = poke m a (replicate (unat cs) v)" for m a
    proof -
      have "(ucast (ucast v :: u32) :: u8) = v" by (rule bit_word_eqI) (simp add: bit_unsigned_iff)
      then show ?thesis using filled_poke [of "unat cs" m a v] unat_lt_2p64 [of cs] by (simp add: memset_filled)
    qed
    show ?thesis
      by (subst object_clear_loop.simps, subst object_write_loop.simps)
        (simp only: Let_def default_page_size_eq True if_True cs_def [symmetric] m t less [OF dec])
  qed
qed

lemma memcpy_poke:
  assumes "nonoverlapping d s (unat n)" shows "fst (memcpy m d s n) = poke m d (peek m s n)"
proof -
  have "memcpy_loop m d s 0 (unat n) = copied m m d s (unat n)"
    using memcpy_loop_copied [OF _ unat_lt_2p64 assms, of 0] by simp
  then show ?thesis by (intro ext) (simp add: memcpy_def copied_def poke_def peek_def)
qed

lemma pages_nonoverlapping:
  assumes "hhdm_ok h" "hpage h v" "hpage h w" "v \<noteq> w" "n \<le> 4096 - unat k" "unat k < 4096"
  shows "nonoverlapping (v + k) (w + k) n"
proof -
  have *: "n \<le> unat (a + k - (b + k))" if "hpage h a" "hpage h b" "a \<noteq> b" for a b
  proof (rule ccontr)
    assume "\<not> n \<le> unat (a + k - (b + k))"
    then have lt: "unat (a - b) + unat k < 4096" using assms(5,6) by simp
    then have "unat (a + k - b) < 4096"
    proof -
      have e: "a + k - b = (a - b) + k" by simp
      have "unat ((a - b) + k) = unat (a - b) + unat k" using lt by (intro unat_add_no_wrap) simp
      then show ?thesis using lt unfolding e by (simp only:)
    qed
    then show False using page_bytes_apart [OF assms(1) that(1,2) assms(6)] that(3) by blast
  qed
  show ?thesis unfolding nonoverlapping_def using * [OF assms(3,2)] * [OF assms(2,3)] assms(4) by auto
qed

lemma copy_loop_ok:
  assumes "obj_inv st live" "progress \<le> len" "ob \<noteq> other"
  shows "copy_to_loop st ob other offset len progress = failR oom \<and>
      \<not> vroom (vmm st) live (2 * page_span (progress + offset) (unat len - unat progress)) \<or>
    (\<exists>st' live'. copy_to_loop st ob other offset len progress = retR (st', len) \<and> obj_inv st' live' \<and> obj_frame st st' \<and>
       grows (2 * page_span (progress + offset) (unat len - unat progress)) (pmap st) (vmm st) live (vmm st') live' \<and>
       obj_written st st' other (progress + offset) (obj_bytes st ob (progress + offset) (unat len - unat progress)))"
  using assms(1,2)
proof (induction "unat len - unat progress" arbitrary: st live progress rule: less_induct)
  case less
  show ?case
  proof (cases "progress < len")
    case False
    then have "progress = len" using less.prems(2) by simp
    then show ?thesis using less.prems obj_frame_refl grows_refl
      by (intro disjI2 exI [of _ st] exI [of _ live]) (simp add: copy_to_loop.simps page_span_def obj_written_def obj_bytes_def)
  next
    case True
    let ?b = "progress + offset"
    let ?i = "?b div 0x1000"
    define cs where "cs = csize offset len progress"
    note C = chunk_facts [OF True cs_def]
    let ?span = "page_span ?b (unat len - unat progress)"
    let ?span' = "page_span (progress + cs + offset) (unat len - unat (progress + cs))"
    have sp: "2 * ?span = (1 + 1) + 2 * ?span'" using C(6) by simp
    have fail: ?thesis if "copy_to_loop st ob other offset len progress = failR oom" "\<not> vroom (vmm st) live (1 + 1)"
      using that vroom_le [of "vmm st" live "2 * ?span" "1 + 1"] unfolding sp by auto
    from get_page_ok [OF less.prems(1), of ob ?i] consider
      "object_get_page st ob ?i = failR oom" "\<not> vroom (vmm st) live 1"
      | s p l where "object_get_page st ob ?i = retR (s, p)" "p \<noteq> 0" "obj_inv s l" "obj_frame st s"
        "grows 1 (pmap st) (vmm st) live (vmm s) l" "map_of (objects s ob) ?i = Some p" "obj_byte s = obj_byte st" by blast
    then show ?thesis
    proof cases
      case 1
      then show ?thesis using True vroom_le [of "vmm st" live "1 + 1" 1] by (intro fail) (auto simp: copy_to_loop.simps Let_def)
    next
      case a: 2
      have pms: "pmap s = pmap st" using a(4) by (simp add: obj_frame_def)
      from get_page_ok [OF a(3), of other ?i] consider
        "object_get_page s other ?i = failR oom" "\<not> vroom (vmm s) l 1"
        | r q l' where "object_get_page s other ?i = retR (r, q)" "q \<noteq> 0" "obj_inv r l'" "obj_frame s r"
          "grows 1 (pmap s) (vmm s) l (vmm r) l'" "map_of (objects r other) ?i = Some q" "obj_byte r = obj_byte s"
          "\<forall>ob' i x. map_of (objects s ob') i = Some x \<longrightarrow> map_of (objects r ob') i = Some x" by blast
      then show ?thesis
      proof cases
        case 1
        then show ?thesis using True a(1,2,5) by (intro fail) (auto simp: copy_to_loop.simps Let_def grows_def)
      next
        case 2
        have mp: "map_of (objects r ob) ?i = Some p" using 2(8) a(6) by blast
        have "p \<noteq> q" using obj_invD(6) [OF 2(3) mp, of other ?i] 2(6) assms(3) by blast
        then have ne: "vhh r q \<noteq> vhh r p" using obj_page(3) [OF 2(3) mp] obj_page(3) [OF 2(3) 2(6)] by metis
        have bm: "unat (?b mod 0x1000) = unat ?b mod 4096" by (simp add: unat_mod_distrib)
        have "nonoverlapping (vhh r q + ?b mod 0x1000) (vhh r p + ?b mod 0x1000) (unat cs)"
          using pages_nonoverlapping [OF obj_page(1) [OF 2(3) mp] obj_page(2) [OF 2(3) 2(6)] obj_page(2) [OF 2(3) mp] ne _ mod_page] C(1) bm
          by simp
        then have mc: "fst (memcpy (ram r) (vhh r q + ?b mod 0x1000) (vhh r p + ?b mod 0x1000) cs) =
            poke (ram r) (vhh r q + ?b mod 0x1000) (obj_bytes st ob ?b (unat cs))"
          using memcpy_poke peek_chunk [OF mp C(1)] 2(7) a(7) by (simp add: obj_bytes_def)
        let ?bs = "obj_bytes st ob ?b (unat cs)"
        define s1 where "s1 = r\<lparr>ram := poke (ram r) (vhh r q + ?b mod 0x1000) ?bs\<rparr>"
        have bl: "length ?bs = unat cs" by (simp add: obj_bytes_def)
        have "length ?bs \<le> 4096 - unat ?b mod 4096" using bl C(1) by simp
        note P = poke_ok [OF 2(3,6) this, folded s1_def]
        have eq: "copy_to_loop st ob other offset len progress = copy_to_loop s1 ob other offset len (progress + cs)"
          using True a(1,2) 2(1,2) mc by (subst copy_to_loop.simps) (simp add: Let_def s1_def cs_def)
        have dec: "unat len - unat (progress + cs) < unat len - unat progress"
          using C(2,4) True by (simp add: word_less_nat_alt)
        have fr: "obj_frame st s1" by (rule obj_frame_trans [OF obj_frame_trans [OF a(4) 2(4)] P(2)])
        have pm: "pmap s1 = pmap st" "vmm s1 = vmm r" using fr by (simp_all add: obj_frame_def s1_def)
        have gr: "grows (1 + 1) (pmap st) (vmm st) live (vmm r) l'" by (rule grows_trans [OF a(5) 2(5) [unfolded pms]])
        have ob1: "obj_byte s1 ob k = obj_byte st ob k" for k using P(3) [of ob k] assms(3) a(7) 2(7) by simp
        from less.hyps [OF dec P(1) C(5)] consider
          "copy_to_loop s1 ob other offset len (progress + cs) = failR oom" "\<not> vroom (vmm s1) l' (2 * ?span')"
          | st' live' where "copy_to_loop s1 ob other offset len (progress + cs) = retR (st', len)" "obj_inv st' live'"
            "obj_frame s1 st'" "grows (2 * ?span') (pmap s1) (vmm s1) l' (vmm st') live'"
            "obj_written s1 st' other (progress + cs + offset) (obj_bytes st ob (progress + cs + offset) (unat len - unat (progress + cs)))"
          using ob1 by (auto simp: obj_bytes_def)
        then show ?thesis
        proof cases
          case 1
          then show ?thesis unfolding eq sp using gr unfolding pm grows_def by (auto simp: add.commute)
        next
          case b: 2
          let ?N = "unat len - unat progress"
          have split: "obj_bytes st ob ?b ?N = ?bs @ obj_bytes st ob (progress + cs + offset) (unat len - unat (progress + cs))"
          proof -
            have "?N = unat cs + (unat len - unat (progress + cs))" using C(3,4) True by (simp add: word_less_nat_alt)
            moreover have "progress + cs + offset = ?b + of_nat (unat cs)" by (simp add: algebra_simps)
            ultimately show ?thesis by (simp only: obj_bytes_append)
          qed
          have "obj_written st st' other ?b (obj_bytes st ob ?b ?N)"
          proof -
            have "obj_written r s1 other ?b ?bs" using P(3) unfolding obj_written_def by blast
            then have "obj_written st s1 other ?b ?bs" using 2(7) a(7) unfolding obj_written_def by simp
            moreover have "unat cs + (unat len - unat (progress + cs)) < 2 ^ 64" using C(3,4) unat_lt_2p64 [of len] by linarith
            ultimately show ?thesis unfolding split
              using obj_written_append [of st s1 other ?b ?bs st'] b(5) bl by (simp add: obj_bytes_def algebra_simps)
          qed
          moreover have "grows (2 * ?span) (pmap st) (vmm st) live (vmm st') live'"
            unfolding sp by (rule grows_trans [OF gr b(4) [unfolded pm]])
          ultimately show ?thesis unfolding eq using b(1,2) obj_frame_trans [OF fr b(3)] by blast
        qed
      qed
    qed
  qed
qed

section \<open>The interface of a byte store\<close>

text \<open>
  What the file systems and the address spaces rely on: a store of numbered byte arrays with
  an invariant, in which reading returns the contents and changes nothing, and writing changes
  exactly the bytes of its range. A call that fails gives \<open>None\<close>.
\<close>

locale byte_store =
  fixes inv :: "'s \<Rightarrow> bool"
    and byte_at :: "'s \<Rightarrow> nat \<Rightarrow> u64 \<Rightarrow> u8"
    and rd :: "'s \<Rightarrow> nat \<Rightarrow> u64 \<Rightarrow> u64 \<Rightarrow> ('s \<times> u8 list) option"
    and wr :: "'s \<Rightarrow> nat \<Rightarrow> u64 \<Rightarrow> u8 list \<Rightarrow> 's option"
  assumes rd_inv: "inv s \<Longrightarrow> rd s ob off n = Some (s', bs) \<Longrightarrow> inv s'"
    and rd_same: "inv s \<Longrightarrow> rd s ob off n = Some (s', bs) \<Longrightarrow> byte_at s' = byte_at s"
    and rd_bytes: "inv s \<Longrightarrow> rd s ob off n = Some (s', bs) \<Longrightarrow> bs = map (\<lambda>i. byte_at s ob (off + of_nat i)) [0..<unat n]"
    and wr_inv: "inv s \<Longrightarrow> length bs < 2 ^ 64 \<Longrightarrow> wr s ob off bs = Some s' \<Longrightarrow> inv s'"
    and wr_bytes: "inv s \<Longrightarrow> length bs < 2 ^ 64 \<Longrightarrow> wr s ob off bs = Some s' \<Longrightarrow>
      byte_at s' ob' k = (if ob' = ob \<and> unat (k - off) < length bs then bs ! unat (k - off) else byte_at s ob' k)"
begin

lemma write_read:
  assumes "inv s" "length bs < 2 ^ 64" "wr s ob off bs = Some s1" "rd s1 ob off (of_nat (length bs)) = Some (s2, cs)"
  shows "cs = bs"
proof -
  have l: "unat (of_nat (length bs) :: u64) = length bs" using assms(2) by (intro unat_of_nat_small) simp
  have cs: "cs = map (\<lambda>i. byte_at s1 ob (off + of_nat i)) [0..<length bs]"
    using rd_bytes [OF wr_inv [OF assms(1-3)] assms(4)] l by simp
  show ?thesis
  proof (rule nth_equalityI)
    fix i assume "i < length cs"
    then have i: "i < length bs" using cs by simp
    then have "unat (of_nat i :: u64) = i" using assms(2) by (intro unat_of_nat_small) simp
    then show "cs ! i = bs ! i" using i cs wr_bytes [OF assms(1-3), of ob "off + of_nat i"] by simp
  qed (simp add: cs)
qed

lemma write_read_elsewhere:
  assumes "inv s" "length bs < 2 ^ 64" "wr s ob off bs = Some s1" "ob' \<noteq> ob" "rd s1 ob' off' n = Some (s2, cs)" "rd s ob' off' n = Some (s3, ds)"
  shows "cs = ds"
  using rd_bytes [OF wr_inv [OF assms(1-3)] assms(5)] rd_bytes [OF assms(1,6)] wr_bytes [OF assms(1-3)] assms(4) by simp

end

definition read_store :: "vms \<Rightarrow> nat \<Rightarrow> u64 \<Rightarrow> u64 \<Rightarrow> (vms \<times> u8 list) option" where
  "read_store st ob off n = (case object_read st ob off n of Some (Inr (st', k, bs)) \<Rightarrow> Some (st', bs) | _ \<Rightarrow> None)"

definition write_store :: "vms \<Rightarrow> nat \<Rightarrow> u64 \<Rightarrow> u8 list \<Rightarrow> vms option" where
  "write_store st ob off bs = (case object_write st ob off bs of Some (Inr (st', k)) \<Rightarrow> Some st' | _ \<Rightarrow> None)"

lemma object_read_ok:
  assumes "obj_inv st live"
  shows "object_read st ob off n = failR oom \<and> \<not> vroom (vmm st) live (page_span off (unat n)) \<or>
    (\<exists>st' live'. object_read st ob off n = retR (st', n, obj_bytes st ob off (unat n)) \<and> obj_inv st' live' \<and> obj_frame st st' \<and>
       grows (page_span off (unat n)) (pmap st) (vmm st) live (vmm st') live' \<and> obj_byte st' = obj_byte st)"
  using read_loop_ok [OF assms, of 0 n ob off "[]"] unfolding object_read_def by simp

lemma object_write_ok:
  assumes "obj_inv st live" "length bs < 2 ^ 64"
  shows "object_write st ob off bs = failR oom \<and> \<not> vroom (vmm st) live (page_span off (length bs)) \<or>
    (\<exists>st' live'. object_write st ob off bs = retR (st', of_nat (length bs)) \<and> obj_inv st' live' \<and> obj_frame st st' \<and>
       grows (page_span off (length bs)) (pmap st) (vmm st) live (vmm st') live' \<and> obj_written st st' ob off bs)"
proof -
  have "unat (of_nat (length bs) :: u64) = length bs" using assms(2) by (intro unat_of_nat_small) simp
  then show ?thesis using write_loop_ok [OF assms(1), of 0 "of_nat (length bs)" bs ob off] unfolding object_write_def by simp
qed

lemma object_clear_ok:
  assumes "obj_inv st live"
  shows "object_clear st ob off v n = failR oom \<and> \<not> vroom (vmm st) live (page_span off (unat n)) \<or>
    (\<exists>st' live'. object_clear st ob off v n = retR (st', n) \<and> obj_inv st' live' \<and> obj_frame st st' \<and>
       grows (page_span off (unat n)) (pmap st) (vmm st) live (vmm st') live' \<and> obj_written st st' ob off (replicate (unat n) v))"
  using write_loop_ok [OF assms, of 0 n "replicate (unat n) v" ob off] unfolding object_clear_def clear_is_write by simp

lemma copy_to_ok:
  assumes "obj_inv st live" "ob \<noteq> other"
  shows "copy_to st ob other off n = failR oom \<and> \<not> vroom (vmm st) live (2 * page_span off (unat n)) \<or>
    (\<exists>st' live'. copy_to st ob other off n = retR (st', n) \<and> obj_inv st' live' \<and> obj_frame st st' \<and>
       grows (2 * page_span off (unat n)) (pmap st) (vmm st) live (vmm st') live' \<and>
       obj_written st st' other off (obj_bytes st ob off (unat n)))"
  using copy_loop_ok [OF assms(1) _ assms(2), of 0 n off] unfolding copy_to_def by simp

interpretation objs: byte_store "\<lambda>st. \<exists>live. obj_inv st live" obj_byte read_store write_store
proof
  fix s ob off n s' bs assume "\<exists>live. obj_inv s live" and r: "read_store s ob off n = Some (s', bs)"
  then obtain live where inv: "obj_inv s live" by blast
  from object_read_ok [OF inv, of ob off n] r show "\<exists>live. obj_inv s' live" "obj_byte s' = obj_byte s"
    "bs = map (\<lambda>i. obj_byte s ob (off + of_nat i)) [0..<unat n]"
    by (auto simp: read_store_def retR_def failR_def obj_bytes_def)
next
  fix s ob off s' ob' k and bs :: "u8 list"
  assume "\<exists>live. obj_inv s live" and l: "length bs < 2 ^ 64" and w: "write_store s ob off bs = Some s'"
  then obtain live where inv: "obj_inv s live" by blast
  from object_write_ok [OF inv l, of ob off] w show "\<exists>live. obj_inv s' live"
    "obj_byte s' ob' k = (if ob' = ob \<and> unat (k - off) < length bs then bs ! unat (k - off) else obj_byte s ob' k)"
    by (auto simp: write_store_def retR_def failR_def obj_written_def)
qed

lemma write_then_read:
  assumes "obj_inv st live" "length bs < 2 ^ 64" "vroom (vmm st) live (2 * page_span off (length bs))"
  shows "\<exists>st' st'' live'. object_write st ob off bs = retR (st', of_nat (length bs)) \<and>
    object_read st' ob off (of_nat (length bs)) = retR (st'', of_nat (length bs), bs) \<and> obj_inv st'' live' \<and> obj_byte st'' = obj_byte st' \<and>
    (\<forall>ob' k. ob' \<noteq> ob \<or> length bs \<le> unat (k - off) \<longrightarrow> obj_byte st' ob' k = obj_byte st ob' k)"
proof -
  let ?n = "of_nat (length bs) :: u64" and ?span = "page_span off (length bs)"
  have l: "unat ?n = length bs" using assms(2) by (intro unat_of_nat_small) simp
  have "vroom (vmm st) live ?span" using vroom_le [OF assms(3)] by simp
  then obtain st' live' where w: "object_write st ob off bs = retR (st', ?n)" "obj_inv st' live'" "obj_written st st' ob off bs"
    "grows ?span (pmap st) (vmm st) live (vmm st') live'" using object_write_ok [OF assms(1,2), of ob off] by blast
  have "vroom (vmm st) live (?span + ?span)" using assms(3) by (simp add: mult_2)
  then have "vroom (vmm st') live' ?span" using w(4) unfolding grows_def by blast
  then obtain st'' live'' cs where r: "object_read st' ob off ?n = retR (st'', ?n, cs)" "obj_inv st'' live''"
    using object_read_ok [OF w(2), of ob off ?n] l by auto
  have W: "write_store st ob off bs = Some st'" and R: "read_store st' ob off ?n = Some (st'', cs)"
    using w(1) r(1) by (simp_all add: write_store_def read_store_def retR_def)
  have "cs = bs" using objs.write_read [OF _ assms(2) W R] assms(1) by blast
  moreover have "obj_byte st'' = obj_byte st'" using objs.rd_same [OF _ R] w(2) by blast
  ultimately show ?thesis using w(1,3) r unfolding obj_written_def by auto
qed

text \<open>
  Property C14. With free pages for the range (once for the write and once for the read, should a
  page be missing), writing bytes to an object writes them all, reading the range back gives
  exactly these bytes, every byte of every other object and outside the range is what it was,
  and the read changes no byte.
\<close>

theorem object_write_read:
  assumes "obj_inv st live" "length bs < 2 ^ 64" "vroom (vmm st) live (2 * page_span off (length bs))"
  shows "\<exists>st' st'' live'. object_write st ob off bs = retR (st', of_nat (length bs)) \<and>
    object_read st' ob off (of_nat (length bs)) = retR (st'', of_nat (length bs), bs) \<and> obj_inv st'' live' \<and> obj_byte st'' = obj_byte st' \<and>
    (\<forall>ob' k. ob' \<noteq> ob \<or> length bs \<le> unat (k - off) \<longrightarrow> obj_byte st' ob' k = obj_byte st ob' k)"
  by (rule write_then_read [OF assms])

text \<open>
  \<open>copy_to\<close> copies the range of one object to the same range of another, whatever
  pages either of them already has, and changes no other byte of any object.
\<close>

theorem copy_to_copies:
  assumes "obj_inv st live" "ob \<noteq> other"
  shows "copy_to st ob other off n = failR oom \<and> \<not> vroom (vmm st) live (2 * page_span off (unat n)) \<or>
    (\<exists>st' live'. copy_to st ob other off n = retR (st', n) \<and> obj_inv st' live' \<and>
       (\<forall>ob' k. obj_byte st' ob' k = (if ob' = other \<and> unat (k - off) < unat n then obj_byte st ob k else obj_byte st ob' k)))"
proof -
  have "obj_bytes st ob off (unat n) ! unat (k - off) = obj_byte st ob k" if "unat (k - off) < unat n" for k
    using that by (simp add: obj_bytes_def)
  then show ?thesis using copy_to_ok [OF assms, of off n] unfolding obj_written_def by (auto simp: obj_bytes_def)
qed

section \<open>Witness states\<close>

lemma sample_objects:
  "\<exists>st live. obj_inv st live \<and> vroom (vmm st) live 7 \<and> (\<forall>ob. objects st ob = []) \<and> tree st = [] \<and> held st = (\<lambda>_. 0) \<and>
     (\<forall>va. user_va va \<longrightarrow> small_ok (vmm st) (pmap st) va) \<and> (\<forall>p. indices p \<longrightarrow> p \<noteq> [] \<longrightarrow> walk_st (vmm st) (pmap st) p = None) \<and>
     (\<exists>st0. pagemap_new st0 True = retR (vmm st, pmap st)) \<and> words (vmm st) (entry_addr (vhh st (pmap st)) 256) = 0x2003"
proof -
  obtain st0 v root live where v: "pt_inv v root live" "vroom v live 7" "\<forall>va. user_va va \<longrightarrow> small_ok v root va"
    "\<forall>p. indices p \<longrightarrow> p \<noteq> [] \<longrightarrow> walk_st v root p = None" "pagemap_new st0 True = retR (v, root)"
    "words v (entry_addr (tohh (hh v) root) 256) = 0x2003" using sample_root by blast
  let ?st = "\<lparr>vmm = v, ram = (\<lambda>_. 0), objects = (\<lambda>_. []), next_object = 2, held = (\<lambda>_. 0), pmap = root, tree = []\<rparr>"
  have "obj_inv ?st live" using v(1) by (simp add: obj_inv_def)
  moreover have "\<exists>st0. pagemap_new st0 True = retR (vmm ?st, pmap ?st)" using v(5) by auto
  ultimately show ?thesis using v(2-4,6) by (intro exI [of _ ?st] exI [of _ live] conjI) (simp_all add: vhh_def)
qed

theorem object_write_read_witness:
  "\<exists>st0 st st' st''. pagemap_new st0 True = retR (vmm st, pmap st) \<and> object_write st 0 0xffe [1, 2, 3] = retR (st', 3) \<and>
     object_read st' 0 0xffe 3 = retR (st'', 3, [1, 2, 3])"
proof -
  obtain st live st0 where s: "obj_inv st live" "vroom (vmm st) live 7" "pagemap_new st0 True = retR (vmm st, pmap st)"
    using sample_objects by blast
  have "2 * page_span 0xffe (length [1 :: u8, 2, 3]) = 4" by (simp add: page_span_def)
  then have "vroom (vmm st) live (2 * page_span 0xffe (length [1 :: u8, 2, 3]))" using vroom_le [OF s(2), of 4] by (simp only:)
  from object_write_read [OF s(1) _ this, of 0] obtain st' st'' where
    "object_write st 0 0xffe [1, 2, 3] = retR (st', 3)" "object_read st' 0 0xffe 3 = retR (st'', 3, [1, 2, 3])" by auto
  then show ?thesis using s(3) by blast
qed

theorem copy_to_copies_witness:
  "\<exists>st st' live. obj_inv st live \<and> copy_to st 0 1 0 0x10 = retR (st', 0x10) \<and> obj_byte st' 1 5 = obj_byte st 0 5"
proof -
  obtain st live where s: "obj_inv st live" "vroom (vmm st) live 7" using sample_objects by blast
  have "2 * page_span 0 (unat (0x10 :: u64)) = 2" by (simp add: page_span_def)
  then have "vroom (vmm st) live (2 * page_span 0 (unat (0x10 :: u64)))" using vroom_le [OF s(2)] by simp
  then show ?thesis using copy_to_copies [OF s(1), of 0 1 0 "0x10"] s(1) by auto
qed

end
