(* ===== verification/Vmm_Space.thy ===== *)
theory Vmm_Space
  imports Vmm_Objects "HOL-Library.Multiset"
begin

text \<open>
  Address spaces: what a tree of mappings means as a partial function from pages to object pages,
  how mappings are split, the invariant \<open>space_inv\<close> of an address space, and the proof that
  \<open>vmspace::unmap\<close> and \<open>vmspace::map\<close> implement the abstract operations \<open>space_unmap\<close> and
  \<open>space_map\<close> on that function, page tables and objects included.
\<close>

section \<open>Address spaces as partial functions\<close>

text \<open>
  What a tree of mappings means: the object page, protection and flags of each page. The fault
  handler takes the first mapping that covers the page.
\<close>

definition covers :: "u64 \<Rightarrow> mapping \<Rightarrow> bool" where
  "covers p m \<longleftrightarrow> startp m \<le> p \<and> p < endp m"

definition view :: "mapping \<Rightarrow> u64 \<Rightarrow> nat \<times> u64 \<times> u8 \<times> u8" where
  "view m p = (obj m, p - startp m + offsetp m, prot m, mflags m)"

definition lookup :: "mapping list \<Rightarrow> u64 \<Rightarrow> (nat \<times> u64 \<times> u8 \<times> u8) option" where
  "lookup t p = map_option (\<lambda>m. view m p) (find (covers p) t)"

definition disjoint_maps :: "mapping list \<Rightarrow> bool" where
  "disjoint_maps t \<longleftrightarrow> (\<forall>p. length (filter (covers p) t) \<le> 1)"

definition tree_wf :: "mapping list \<Rightarrow> bool" where
  "tree_wf t \<longleftrightarrow> sorted (map startp t) \<and> (\<forall>m\<in>set t. startp m < endp m) \<and> disjoint_maps t"

lemma find_filter: "find P xs = (case filter P xs of [] \<Rightarrow> None | x # _ \<Rightarrow> Some x)"
  by (induction xs) auto

lemma mset_short: "mset xs = mset ys \<Longrightarrow> length xs \<le> 1 \<Longrightarrow> xs = ys"
proof -
  assume a: "mset xs = mset ys" "length xs \<le> 1"
  then have "length ys \<le> 1" by (metis size_mset)
  then show ?thesis using a by (cases xs; cases ys) auto
qed

lemma find_covers:
  assumes "disjoint_maps t" "m \<in> set t" "covers p m" shows "filter (covers p) t = [m]" "find (covers p) t = Some m"
proof -
  have "m \<in> set (filter (covers p) t)" using assms by simp
  moreover have "length (filter (covers p) t) \<le> 1" using assms(1) by (simp add: disjoint_maps_def)
  ultimately show f: "filter (covers p) t = [m]" by (cases "filter (covers p) t") auto
  show "find (covers p) t = Some m" unfolding find_filter f by simp
qed

text \<open>Replacing a mapping by parts of it.\<close>

lemma replace_maps:
  assumes d: "disjoint_maps t" and m: "m \<in> set t" and t': "mset t' = mset t - {#m#} + mset fs"
    and fs: "\<And>p. length (filter (covers p) fs) \<le> (if covers p m then 1 else 0)"
  shows "disjoint_maps t'" "find (covers p) t' = (if covers p m then find (covers p) fs else find (covers p) t)"
proof -
  have mt: "mset t = mset t - {#m#} + {#m#}" using m by simp
  have eq: "mset (filter (covers p) t') = mset (if covers p m then filter (covers p) fs else filter (covers p) t)" for p
  proof (cases "covers p m")
    case True
    have "filter_mset (covers p) (mset t) = {#m#}" using find_covers(1) [OF d m True] by (metis mset_filter mset_single_iff)
    then have "filter_mset (covers p) (mset t - {#m#}) = {#}" using mt True by (metis add_cancel_left_left filter_single_mset filter_union_mset)
    then show ?thesis using True t' by simp
  next
    case False
    have "filter (covers p) fs = []" using fs [of p] False by simp
    then have "filter_mset (covers p) (mset fs) = {#}" by (metis mset.simps(1) mset_filter)
    moreover have "filter_mset (covers p) (mset t - {#m#}) = filter_mset (covers p) (mset t)"
      using mt False by (metis add.right_neutral filter_single_mset filter_union_mset)
    ultimately show ?thesis using False t' by simp
  qed
  have short: "length (if covers p m then filter (covers p) fs else filter (covers p) t) \<le> 1" for p
    using fs [of p] d by (auto simp: disjoint_maps_def split: if_splits)
  have "filter (covers p) t' = (if covers p m then filter (covers p) fs else filter (covers p) t)" for p
    using mset_short [OF eq [symmetric] short] by simp
  then show "disjoint_maps t'" "find (covers p) t' = (if covers p m then find (covers p) fs else find (covers p) t)"
    using short by (simp_all add: disjoint_maps_def find_filter)
qed

lemma mset_emplace [simp]: "mset (emplace m t) = add_mset m (mset t)"
  by (induction t) auto

lemma sorted_emplace: "sorted (map startp t) \<Longrightarrow> sorted (map startp (emplace m t))"
proof (induction t)
  case (Cons x xs)
  have "set (emplace m xs) = insert m (set xs)" by (metis mset_emplace set_mset_add_mset_insert set_mset_mset)
  then show ?case using Cons by auto
qed simp

lemma mset_erase:
  assumes "tree_wf t" "m \<in> set t" shows "mset (erase m t) = mset t - {#m#}"
proof -
  let ?P = "\<lambda>x. startp x = startp m"
  have "filter ?P t = filter (\<lambda>x. covers (startp m) x \<and> ?P x) t"
    using assms(1) by (intro filter_cong) (auto simp: tree_wf_def covers_def)
  also have "\<dots> = filter ?P (filter (covers (startp m)) t)" by (simp add: conj_commute)
  also have "\<dots> = [m]"
    using find_covers(1) [of t m "startp m"] assms by (simp add: tree_wf_def covers_def)
  finally have "mset (filter ?P t) = {#m#}" by simp
  then have "mset t = {#m#} + mset (erase m t)" using multiset_partition [of "mset t" ?P] by (simp add: erase_def)
  then show ?thesis by simp
qed

lemma sorted_erase: "sorted (map startp t) \<Longrightarrow> sorted (map startp (erase m t))"
  by (simp add: erase_def sorted_filter)

text \<open>The parts of a mapping before and after a range.\<close>

definition head_part :: "u64 \<Rightarrow> mapping \<Rightarrow> mapping list" where
  "head_part s m = (if startp m < s then [m\<lparr>endp := s\<rparr>] else [])"

definition tail_part :: "u64 \<Rightarrow> mapping \<Rightarrow> mapping list" where
  "tail_part e m = (if e < endp m then [m\<lparr>startp := e, offsetp := offsetp m + (e - startp m)\<rparr>] else [])"

definition middle_part :: "u64 \<Rightarrow> u64 \<Rightarrow> u8 \<Rightarrow> mapping \<Rightarrow> mapping" where
  "middle_part s e pr m =
     m\<lparr>startp := max s (startp m), endp := min e (endp m), offsetp := offsetp m + (max s (startp m) - startp m), prot := pr\<rparr>"

lemma cut_parts:
  assumes "s \<le> e" "overlaps s e m" "startp m < endp m"
  shows "length (filter (covers p) (head_part s m @ tail_part e m)) \<le> (if covers p m then 1 else 0)"
    "covers p m \<Longrightarrow> map_option (\<lambda>x. view x p) (find (covers p) (head_part s m @ tail_part e m)) = (if s \<le> p \<and> p < e then None else Some (view m p))"
    "\<forall>x\<in>set (head_part s m @ tail_part e m). startp x < endp x"
  using assms by (auto simp: head_part_def tail_part_def covers_def overlaps_def view_def)

lemma protect_parts:
  assumes "s < e" "overlaps s e m" "startp m < endp m"
  shows "length (filter (covers p) (middle_part s e pr m # head_part s m @ tail_part e m)) \<le> (if covers p m then 1 else 0)"
    "covers p m \<Longrightarrow> map_option (\<lambda>x. view x p) (find (covers p) (middle_part s e pr m # head_part s m @ tail_part e m)) =
       Some (if s \<le> p \<and> p < e then view (m\<lparr>prot := pr\<rparr>) p else view m p)"
    "\<forall>x\<in>set (middle_part s e pr m # head_part s m @ tail_part e m). startp x < endp x"
  using assms by (auto simp: middle_part_def head_part_def tail_part_def covers_def overlaps_def view_def max_def min_def)

section \<open>Page tables under an address space\<close>

text \<open>No large page in the user half; the kernel half may have them.\<close>

definition pages_ok :: "vms \<Rightarrow> bool" where
  "pages_ok st \<longleftrightarrow> (\<forall>va. user_va va \<longrightarrow> small_ok (vmm st) (pmap st) va)"

abbreviation page_leaf :: "vms \<Rightarrow> u64 \<Rightarrow> u64 option" where
  "page_leaf st p \<equiv> leaf_at (vmm st) (pmap st) (p * 0x1000)"

lemma obj_inv_vmm:
  assumes inv: "obj_inv st live" and p: "pt_inv v' (pmap st) live'" "grows k (pmap st) (vmm st) live v' live'"
    "hh v' = hh (vmm st)" "pagemap_use_lowmem v' = pagemap_use_lowmem (vmm st)"
  shows "obj_inv (st\<lparr>vmm := v'\<rparr>) live'" "obj_byte (st\<lparr>vmm := v'\<rparr>) = obj_byte st"
proof -
  note I = obj_invD [OF inv]
  have le: "live' x = Some n" if "live x = Some n" for x n
    using p(2) that unfolding grows_def map_le_def by (metis domI)
  have "x \<notin> tables v' (pmap st)" if "live x = Some 1" "x \<notin> tables (vmm st) (pmap st)" for x
    using p(2) that unfolding grows_def by blast
  then show "obj_inv (st\<lparr>vmm := v'\<rparr>) live'"
    unfolding obj_inv_def using I(3-6) p(1,4) le by auto
  show "obj_byte (st\<lparr>vmm := v'\<rparr>) = obj_byte st"
    using p(3) by (intro ext) (simp add: obj_byte_def vhh_def split: option.splits)
qed

lemma unat_page_addr: "unat p \<le> 2 ^ 51 \<Longrightarrow> unat (p * 0x1000 :: u64) = unat p * 4096"
  by (simp add: unat_word_ariths)

lemma user_page: "unat p < 2 ^ 35 \<Longrightarrow> user_va (p * 0x1000)"
  unfolding user_va_def by (subst unat_page_addr) simp_all

lemma page_no_page: "unat p < 2 ^ 36 \<Longrightarrow> unat (page_no (p * 0x1000)) = unat p"
  unfolding unat_page_no by (subst unat_page_addr) simp_all

lemma page_at_page: "page_at (s * 0x1000) j = (s + of_nat j) * 0x1000"
  by (simp add: algebra_simps)

lemma in_pages:
  assumes "s \<le> e" shows "s \<le> p \<and> p < e \<longleftrightarrow> (\<exists>j < unat e - unat s. p = s + (of_nat j :: u64))"
proof
  assume a: "s \<le> p \<and> p < e"
  have "p = s + of_nat (unat (p - s))" by simp
  moreover have "unat (p - s) < unat e - unat s" using a by (auto simp: unat_sub_no_wrap word_le_nat_alt word_less_nat_alt)
  ultimately show "\<exists>j < unat e - unat s. p = s + of_nat j" by blast
next
  assume "\<exists>j < unat e - unat s. p = s + of_nat j"
  then obtain j where j: "j < unat e - unat s" "p = s + of_nat j" by blast
  have "unat (of_nat j :: u64) = j" using j(1) unat_lt_2p64 [of e] by (intro unat_of_nat_small) simp
  then have "unat p = unat s + j" using j unat_lt_2p64 [of e] by (simp add: unat_add_no_wrap)
  then show "s \<le> p \<and> p < e" using j(1) by (simp add: word_le_nat_alt word_less_nat_alt)
qed

lemma page_range:
  assumes "s \<le> e" "unat e \<le> 2 ^ 35"
  defines "len \<equiv> e * 0x1000 - s * 0x1000"
  shows "page_count len = unat e - unat s" "unat len \<le> 2 ^ 48" "4096 dvd unat (s * 0x1000)"
proof -
  have se: "unat s \<le> unat e" using assms(1) by (simp add: word_le_nat_alt)
  have u: "unat (e * 0x1000) = unat e * 4096" "unat (s * 0x1000) = unat s * 4096" using unat_page_addr assms(2) se by auto
  have l: "unat len = (unat e - unat s) * 4096"
    unfolding len_def using u se by (subst unat_sub_no_wrap) (simp_all add: word_le_nat_alt diff_mult_distrib)
  show "page_count len = unat e - unat s" unfolding page_count_def l by (simp add: div_nat_eqI)
  show "unat len \<le> 2 ^ 48" using l assms(2) by simp
  show "4096 dvd unat (s * 0x1000)" using u(2) by simp
qed

lemma range_leaf:
  assumes u: "leaf_update v v' root (s * 0x1000) {..<unat e - unat s} F fl" and r: "s \<le> e" "unat e \<le> 2 ^ 35" and p: "unat p < 2 ^ 35"
  shows "\<not> (s \<le> p \<and> p < e) \<Longrightarrow> leaf_at v' root (p * 0x1000) = leaf_at v root (p * 0x1000)"
    "s \<le> p \<Longrightarrow> p < e \<Longrightarrow> leaf_at v' root (p * 0x1000) = F (unat (p - s)) (leaf_at v root (p * 0x1000))"
proof -
  assume n: "\<not> (s \<le> p \<and> p < e)"
  have "path (p * 0x1000) \<noteq> path (page_at (s * 0x1000) j)" if "j < unat e - unat s" for j
  proof
    assume "path (p * 0x1000) = path (page_at (s * 0x1000) j)"
    then have "page_no (p * 0x1000) = page_no ((s + of_nat j) * 0x1000)" unfolding page_at_page path_eq_iff .
    moreover have q: "s \<le> s + of_nat j" "s + of_nat j < e" using in_pages [OF r(1), of "s + of_nat j"] that by blast+
    then have "unat (s + of_nat j) < 2 ^ 36" using r(2) by (simp add: word_less_nat_alt)
    moreover have "unat p < 2 ^ 36" using p by simp
    ultimately have "unat p = unat (s + of_nat j)" using page_no_page by metis
    then have "p = s + of_nat j" by (simp add: word_unat_eq_iff)
    then show False using q n by simp
  qed
  then show "leaf_at v' root (p * 0x1000) = leaf_at v root (p * 0x1000)"
    using user_path [OF user_page [OF p]] by (intro leaf_updateD(4) [OF u]) auto
next
  assume a: "s \<le> p" "p < e"
  then have j: "unat (p - s) < unat e - unat s" by (simp add: unat_sub_no_wrap word_le_nat_alt word_less_nat_alt)
  have "page_at (s * 0x1000) (unat (p - s)) = p * 0x1000" unfolding page_at_page by simp
  then show "leaf_at v' root (p * 0x1000) = F (unat (p - s)) (leaf_at v root (p * 0x1000))"
    using leaf_updateD(3) [OF u, of "unat (p - s)"] j by (simp only: lessThan_iff)
qed

lemma range_user:
  assumes "s \<le> e" "unat e \<le> 2 ^ 35" "j < unat e - unat s"
  shows "user_va (page_at (s * 0x1000) j)"
proof -
  have "s + of_nat j < e" using in_pages [OF assms(1), of "s + of_nat j"] assms(3) by blast
  then show ?thesis unfolding page_at_page using assms(2) by (intro user_page) (simp add: word_less_nat_alt)
qed

lemma pmap_unmap_ok:
  assumes inv: "obj_inv st live" "pages_ok st" and r: "s \<le> e" "unat e \<le> 2 ^ 35"
  shows "\<exists>v' live'. pmap_unmap st (s * 0x1000) (e * 0x1000 - s * 0x1000) = retR (st\<lparr>vmm := v'\<rparr>) \<and>
    obj_inv (st\<lparr>vmm := v'\<rparr>) live' \<and> pages_ok (st\<lparr>vmm := v'\<rparr>) \<and> obj_byte (st\<lparr>vmm := v'\<rparr>) = obj_byte st \<and>
    (\<forall>p. unat p < 2 ^ 35 \<longrightarrow> page_leaf (st\<lparr>vmm := v'\<rparr>) p = (if s \<le> p \<and> p < e then None else page_leaf st p))"
proof -
  let ?len = "e * 0x1000 - s * 0x1000"
  note R = page_range [OF r]
  have N: "page_count ?len \<le> 2 ^ 36" using page_count_bounds [OF R(2)] .
  have so: "\<forall>j<page_count ?len. small_ok (vmm st) (pmap st) (page_at (s * 0x1000) j)"
    using inv(2) range_user [OF r] unfolding pages_ok_def R(1) by blast
  have room: "vroom (vmm st) live (0 * page_count ?len)" by (simp add: vroom_def)
  from unmap_pages.run_ok [OF R(3) N obj_invD(1) [OF inv(1)] so] room
  obtain v' live' where u: "unmap_loop (vmm st) (pmap st) (s * 0x1000) ?len Small 0 = retR (v', None)"
    "grows (0 * page_count ?len) (pmap st) (vmm st) live v' live'" "pt_inv v' (pmap st) live'"
    "leaf_update (vmm st) v' (pmap st) (s * 0x1000) {..<page_count ?len} (\<lambda>_ _. None) True" by blast
  have "unmap (vmm st) (pmap st) (s * 0x1000) ?len Small = retR (v', None)"
    using u(1) R(3) aligned_small [of "s * 0x1000"] by (simp add: unmap_def)
  then have "pmap_unmap st (s * 0x1000) ?len = retR (st\<lparr>vmm := v'\<rparr>)" by (simp add: pmap_unmap_def)
  moreover note obj_inv_vmm [OF inv(1) u(3,2) leaf_updateD(1,7) [OF u(4)]]
  moreover have "pages_ok (st\<lparr>vmm := v'\<rparr>)" using small_ok_update [OF u(4)] inv(2) by (simp add: pages_ok_def)
  moreover have "page_leaf (st\<lparr>vmm := v'\<rparr>) p = (if s \<le> p \<and> p < e then None else page_leaf st p)" if "unat p < 2 ^ 35" for p
    using range_leaf [OF u(4) [unfolded R(1)] r that] by auto
  ultimately show ?thesis by blast
qed

section \<open>Dropping objects\<close>

lemma pmm_free_ok:
  assumes inv: "pt_inv v root live" and x: "live x = Some 1" "x \<notin> tables v root"
  shows "\<exists>p'. pmm_free v x 1 = retR (v\<lparr>pm := p'\<rparr>) \<and> pt_inv (v\<lparr>pm := p'\<rparr>) root (live(x := None)) \<and> hhdm (heap p') = hh v"
proof -
  note I = pt_invD [OF inv]
  obtain FL AL where "live_ok (pm v) live FL AL" using I(1) by (auto simp: pmm_live_def)
  from live_ok_free [OF this x(1)] obtain p' where p: "free (pm v) x 1 = Inr p'" "pmm_live p' (live(x := None))" "hhdm (heap p') = hh v"
    unfolding pmm_live_def by blast
  have "fromhh (hh v) t \<noteq> x" if "length q \<le> 3" "indices q" "walk_st v root q = Some t" for q t
    using x(2) that unfolding tables_def by blast
  then have "pt_inv (v\<lparr>pm := p'\<rparr>) root (live(x := None))"
    unfolding pt_inv_def using p(2,3) I(2-4,6) hhdm_ok_cong [OF p(3)] tree_ok_cong [OF p(3)] by simp
  then show ?thesis using p(1,3) by (auto simp: pmm_free_def)
qed

lemma tables_pm: "hhdm (heap p') = hh v \<Longrightarrow> tables (v\<lparr>pm := p'\<rparr>) root = tables v root"
  by (simp add: tables_def)

lemma free_pages_ok:
  assumes "obj_inv (set_pages st ob ps) live"
  shows "\<exists>p' live'. free_pages (vmm st) ps = retR ((vmm st)\<lparr>pm := p'\<rparr>) \<and> hhdm (heap p') = hh (vmm st) \<and>
    obj_inv (set_pages (st\<lparr>vmm := (vmm st)\<lparr>pm := p'\<rparr>\<rparr>) ob []) live'"
  using assms
proof (induction ps arbitrary: st live)
  case Nil
  have "(vmm st)\<lparr>pm := pm (vmm st)\<rparr> = vmm st" "st\<lparr>vmm := vmm st\<rparr> = st" by simp_all
  then show ?case using Nil by (intro exI [of _ "pm (vmm st)"] exI [of _ live]) simp
next
  case (Cons a ps)
  obtain i x where a: "a = (i, x)" by force
  let ?s = "set_pages st ob (a # ps)"
  note I = obj_invD [OF Cons.prems]
  have vm: "vmm ?s = vmm st" "pmap ?s = pmap st" by (simp_all add: set_pages_def)
  have ob: "objects ?s ob = (i, x) # ps" "ob' \<noteq> ob \<Longrightarrow> objects ?s ob' = objects st ob'" for ob' by (simp_all add: set_pages_def a)
  have mx: "map_of (objects ?s ob) i = Some x" by (simp add: ob)
  have x: "live x = Some 1" "x \<notin> tables (vmm st) (pmap st)" using I(4) [OF mx] I(5) [OF mx] vm by simp_all
  from pmm_free_ok [OF I(1) [unfolded vm] x] obtain p1 where
    p1: "pmm_free (vmm st) x 1 = retR ((vmm st)\<lparr>pm := p1\<rparr>)" "pt_inv ((vmm st)\<lparr>pm := p1\<rparr>) (pmap st) (live(x := None))" "hhdm (heap p1) = hh (vmm st)" by blast
  let ?v = "(vmm st)\<lparr>pm := p1\<rparr>" and ?s1 = "st\<lparr>vmm := (vmm st)\<lparr>pm := p1\<rparr>\<rparr>"
  have sorted: "sorted_wrt (<) (map fst ps)" "i \<notin> fst ` set ps" using I(3) [of ob] ob(1) by auto
  have sub: "map_of (objects ?s ob') j = Some y \<and> y \<noteq> x" if y: "map_of (objects (set_pages ?s1 ob ps) ob') j = Some y" for ob' j y
  proof -
    have m: "map_of (objects ?s ob') j = Some y"
      using y sorted(2) by (cases "ob' = ob") (auto simp: set_pages_def a dest: map_of_SomeD split: if_splits intro: rev_image_eqI)
    moreover have "y \<noteq> x"
    proof
      assume "y = x"
      then have "ob' = ob" "j = i" using I(6) [OF m, of ob i] mx by auto
      then show False using y sorted(2) by (auto simp: set_pages_def dest!: map_of_SomeD intro: rev_image_eqI)
    qed
    ultimately show ?thesis by blast
  qed
  have "obj_inv (set_pages ?s1 ob ps) (live(x := None))"
    unfolding obj_inv_def
  proof (intro conjI allI impI)
    show "pt_inv (vmm (set_pages ?s1 ob ps)) (pmap (set_pages ?s1 ob ps)) (live(x := None))" using p1(2) by (simp add: set_pages_def)
    show "sorted_wrt (<) (map fst (objects (set_pages ?s1 ob ps) ob'))" for ob'
      using I(3) [of ob'] sorted(1) by (cases "ob' = ob") (simp_all add: set_pages_def)
    fix ob1 i1 p assume m: "map_of (objects (set_pages ?s1 ob ps) ob1) i1 = Some p"
    show "(live(x := None)) p = Some 1" using sub [OF m] I(4) by auto
    show "p \<notin> tables (vmm (set_pages ?s1 ob ps)) (pmap (set_pages ?s1 ob ps))"
      using sub [OF m] I(5) vm tables_pm [OF p1(3)] by (auto simp: set_pages_def)
    fix ob2 i2 assume m2: "map_of (objects (set_pages ?s1 ob ps) ob2) i2 = Some p"
    show "ob1 = ob2" "i1 = i2" using sub [OF m] sub [OF m2] I(6) by blast+
  qed
  from Cons.IH [OF this] obtain p' live' where r: "free_pages ?v ps = retR (?v\<lparr>pm := p'\<rparr>)" "hhdm (heap p') = hh ?v"
    "obj_inv (set_pages (?s1\<lparr>vmm := ?v\<lparr>pm := p'\<rparr>\<rparr>) ob []) live'" by auto
  then show ?case using p1(1,3) unfolding a by (intro exI [of _ p'] exI [of _ live']) simp
qed

lemma memobject_destroy_ok:
  assumes inv: "obj_inv st live"
  shows "\<exists>st' live'. memobject_destroy st ob = retR st' \<and> obj_inv st' live' \<and> obj_frame st st' \<and>
    objects st' = (objects st)(ob := []) \<and> ram st' = ram st"
proof -
  have "set_pages st ob (objects st ob) = st" by (simp add: set_pages_def)
  then have "obj_inv (set_pages st ob (objects st ob)) live" using inv by simp
  from free_pages_ok [OF this] obtain p' live' where r: "free_pages (vmm st) (objects st ob) = retR ((vmm st)\<lparr>pm := p'\<rparr>)"
    "hhdm (heap p') = hh (vmm st)" "obj_inv (set_pages (st\<lparr>vmm := (vmm st)\<lparr>pm := p'\<rparr>\<rparr>) ob []) live'" by blast
  then show ?thesis by (intro exI [of _ "set_pages (st\<lparr>vmm := (vmm st)\<lparr>pm := p'\<rparr>\<rparr>) ob []"] exI [of _ live'])
      (simp add: memobject_destroy_def obj_frame_def set_pages_def)
qed

lemma release_ok:
  assumes "obj_inv st live"
  shows "\<exists>st' live'. release st obs = retR st' \<and> obj_inv st' live' \<and> obj_frame st st' \<and>
    (\<forall>ob. 0 < use_count st ob \<longrightarrow> obj_byte st' ob = obj_byte st ob)"
  using assms
proof (induction obs arbitrary: st live)
  case Nil
  then show ?case using obj_frame_refl by auto
next
  case (Cons ob obs)
  show ?case
  proof (cases "use_count st ob = 0 \<and> ob \<notin> set obs")
    case True
    from memobject_destroy_ok [OF Cons.prems, of ob] obtain s1 l1 where
      s1: "memobject_destroy st ob = retR s1" "obj_inv s1 l1" "obj_frame st s1" "objects s1 = (objects st)(ob := [])" "ram s1 = ram st" by blast
    from Cons.IH [OF s1(2)] obtain st' live' where r: "release s1 obs = retR st'" "obj_inv st' live'" "obj_frame s1 st'"
      "\<forall>ob. 0 < use_count s1 ob \<longrightarrow> obj_byte st' ob = obj_byte s1 ob" by blast
    have uc: "use_count s1 = use_count st" using s1(3) by (intro ext) (simp add: use_count_def obj_frame_def)
    have "obj_byte s1 x = obj_byte st x" if "0 < use_count st x" for x
      using that True s1(3-5) by (intro ext) (auto simp: obj_byte_def vhh_def obj_frame_def split: option.splits)
    then show ?thesis using True s1(1) r uc obj_frame_trans [OF s1(3) r(3)] by auto
  next
    case False
    then show ?thesis using Cons.IH [OF Cons.prems] by auto
  qed
qed

lemma frame_pages_ok: "obj_frame st st' \<Longrightarrow> pages_ok st \<Longrightarrow> pages_ok st'"
proof -
  assume f: "obj_frame st st'" and p: "pages_ok st"
  have "leaf_st (vmm st') (pmap st') (take m (path va)) = leaf_st (vmm st) (pmap st) (take m (path va))"
    if "m \<in> {1, 2, 3}" "user_va va" for m va
  proof -
    have "length (take m (path va)) \<le> 4" "take m (path va) \<noteq> []" using that(1) by auto
    then show ?thesis using f user_path_take [OF that(2)] unfolding obj_frame_def by auto
  qed
  then show ?thesis using p by (simp add: pages_ok_def small_ok_def)
qed

section \<open>Unmapping\<close>

definition space_inv :: "vms \<Rightarrow> (u64 \<rightharpoonup> u64) \<Rightarrow> bool" where
  "space_inv st live \<longleftrightarrow>
     obj_inv st live \<and> pages_ok st \<and> tree_wf (tree st) \<and> (\<forall>m\<in>set (tree st). unat (endp m) \<le> 2 ^ 35)"

text \<open>The page range of a call, when it does not wrap around.\<close>

lemma call_range:
  assumes "unat address + unat len \<le> 2 ^ 47" "address mod 0x1000 = 0"
  shows "unat (address div 0x1000) = unat address div 4096"
    "unat (div_roundup (address + len) 0x1000) = (unat address + unat len + 4095) div 4096"
    "address div 0x1000 \<le> div_roundup (address + len) 0x1000"
proof -
  show a: "unat (address div 0x1000) = unat address div 4096" by (simp add: unat_div_distrib)
  have s: "unat (address + len) = unat address + unat len" using assms(1) by (simp add: unat_add_no_wrap)
  then have "unat (address + len) + 2 ^ 12 \<le> 2 ^ 64" using assms(1) by simp
  then show b: "unat (div_roundup (address + len) 0x1000) = (unat address + unat len + 4095) div 4096"
    using unat_div_roundup [of 12 "address + len"] s by simp
  show "address div 0x1000 \<le> div_roundup (address + len) 0x1000"
    unfolding word_le_nat_alt a b by (simp add: div_le_mono)
qed

lemma obj_inv_tree [simp]: "obj_inv (st\<lparr>tree := t\<rparr>) live = obj_inv st live" "pages_ok (st\<lparr>tree := t\<rparr>) = pages_ok st"
  "obj_byte (st\<lparr>tree := t\<rparr>) = obj_byte st"
  by (simp_all add: obj_inv_def pages_ok_def obj_byte_def vhh_def fun_eq_iff split: option.splits)

lemma wf_remove:
  assumes "tree_wf t" "m \<in> set t" shows "set_mset (mset t - {#m#}) = set t - {m}"
proof -
  have d: "disjoint_maps t" and ne: "\<forall>x\<in>set t. startp x < endp x" using assms(1) by (simp_all add: tree_wf_def)
  have "x = m" if "x \<in> set t" "startp x = startp m" for x
  proof -
    have "covers (startp m) x" "covers (startp m) m" using ne that assms(2) by (auto simp: covers_def)
    then show ?thesis using find_covers(2) [OF d that(1)] find_covers(2) [OF d assms(2)] by fastforce
  qed
  then have "set (erase m t) = set t - {m}" by (auto simp: erase_def)
  then show ?thesis using mset_erase [OF assms] by (metis set_mset_mset)
qed

text \<open>Replacing a mapping of the tree by parts of it.\<close>

lemma replace_tree:
  assumes wf: "tree_wf t" "\<forall>x\<in>set t. unat (endp x) \<le> 2 ^ 35" and m: "m \<in> set t" and t': "mset t' = mset t - {#m#} + mset fs" "sorted (map startp t')"
    and fs: "\<And>p. length (filter (covers p) fs) \<le> (if covers p m then 1 else 0)" "\<forall>x\<in>set fs. startp x < endp x \<and> endp x \<le> endp m"
  shows "tree_wf t'" "\<forall>x\<in>set t'. unat (endp x) \<le> 2 ^ 35" "set t' = (set t - {m}) \<union> set fs"
    "lookup t' p = (if covers p m then lookup fs p else lookup t p)"
proof -
  have dis: "disjoint_maps t" using wf by (simp add: tree_wf_def)
  have "set t' = set_mset (mset t - {#m#}) \<union> set fs" using t'(1) by (metis set_mset_mset set_mset_union)
  then show S: "set t' = (set t - {m}) \<union> set fs" using wf_remove [OF wf(1) m] by simp
  note D = replace_maps [OF dis m t'(1) fs(1)]
  show "tree_wf t'" unfolding tree_wf_def using t'(2) D(1) S fs(2) wf(1) by (auto simp: tree_wf_def)
  show "\<forall>x\<in>set t'. unat (endp x) \<le> 2 ^ 35" using S wf(2) fs(2) m by (auto simp: word_le_nat_alt intro: order_trans)
  show "lookup t' p = (if covers p m then lookup fs p else lookup t p)" using D(2) by (simp add: lookup_def)
qed

lemma unmap_entry_eq:
  assumes wf: "tree_wf (tree st)" and m: "m \<in> set (tree st)" "overlaps s e m" and se: "s \<le> e"
  obtains t where "unmap_entry s e m st =
      pmap_unmap (st\<lparr>tree := t\<rparr>) (max s (startp m) * 0x1000) (min e (endp m) * 0x1000 - max s (startp m) * 0x1000)"
    "mset t = mset (tree st) - {#m#} + mset (head_part s m @ tail_part e m)" "sorted (map startp t)"
proof -
  let ?t0 = "erase m (tree st)"
  define t1 where "t1 = (if startp m < s then emplace (m\<lparr>endp := s\<rparr>) ?t0 else ?t0)"
  define t2 where "t2 = (if e < endp m then emplace (m\<lparr>startp := e, offsetp := offsetp m + (e - startp m)\<rparr>) t1 else t1)"
  have o: "s < endp m" "startp m < e" using m(2) by (auto simp: overlaps_def)
  have "unmap_entry s e m st = pmap_unmap (st\<lparr>tree := t2\<rparr>) (max s (startp m) * 0x1000) (min e (endp m) * 0x1000 - max s (startp m) * 0x1000)"
  proof (cases "s \<le> startp m \<and> endp m \<le> e")
    case True
    then have "max s (startp m) = startp m" "min e (endp m) = endp m" by (auto simp: max_def min_def)
    moreover have "\<not> startp m < s" "\<not> e < endp m" using True by auto
    ultimately show ?thesis using True by (simp add: unmap_entry_def Let_def t1_def t2_def)
  next
    case False
    have h: "s - startp m \<noteq> 0 \<longleftrightarrow> s \<noteq> startp m" "endp m - e \<noteq> 0 \<longleftrightarrow> endp m \<noteq> e" by auto
    have x: "offsetp m + (endp m - startp m) - (endp m - e) = offsetp m + (e - startp m)" by simp
    show ?thesis using False
      by (auto simp: unmap_entry_def Let_def t1_def t2_def put_mapping_def h x)
  qed
  moreover have "mset t2 = mset (tree st) - {#m#} + mset (head_part s m @ tail_part e m)"
    using mset_erase [OF wf m(1)] by (auto simp: t1_def t2_def head_part_def tail_part_def)
  moreover have "sorted (map startp t2)"
    using wf sorted_erase [of "tree st" m] sorted_emplace by (simp add: t1_def t2_def tree_wf_def)
  ultimately show ?thesis using that by blast
qed

lemma unmap_entry_ok:
  assumes inv: "space_inv st live" and m: "m \<in> set (tree st)" "overlaps s e m" and se: "s \<le> e" "unat e \<le> 2 ^ 35"
  shows "\<exists>st' live'. unmap_entry s e m st = retR st' \<and> space_inv st' live' \<and> obj_byte st' = obj_byte st \<and> held st' = held st \<and> pmap st' = pmap st \<and>
    set (tree st) - {m} \<subseteq> set (tree st') \<and> set (tree st') \<subseteq> (set (tree st) - {m}) \<union> set (head_part s m @ tail_part e m) \<and>
    (\<forall>p. lookup (tree st') p = (if s \<le> p \<and> p < e \<and> covers p m then None else lookup (tree st) p)) \<and>
    (\<forall>p. unat p < 2 ^ 35 \<longrightarrow> page_leaf st' p = (if s \<le> p \<and> p < e \<and> covers p m then None else page_leaf st p))"
proof -
  have wf: "tree_wf (tree st)" and oi: "obj_inv st live" "pages_ok st" and b: "\<forall>m\<in>set (tree st). unat (endp m) \<le> 2 ^ 35"
    using inv by (auto simp: space_inv_def)
  obtain t where t: "unmap_entry s e m st =
      pmap_unmap (st\<lparr>tree := t\<rparr>) (max s (startp m) * 0x1000) (min e (endp m) * 0x1000 - max s (startp m) * 0x1000)"
    "mset t = mset (tree st) - {#m#} + mset (head_part s m @ tail_part e m)" "sorted (map startp t)"
    by (rule unmap_entry_eq [OF wf m se(1)])
  have ne: "startp m < endp m" and bm: "unat (endp m) \<le> 2 ^ 35" using wf m(1) b by (auto simp: tree_wf_def)
  have r: "max s (startp m) \<le> min e (endp m)" "unat (min e (endp m)) \<le> 2 ^ 35"
    using m(2) se ne bm by (auto simp: overlaps_def min_def max_def)
  have oi': "obj_inv (st\<lparr>tree := t\<rparr>) live" "pages_ok (st\<lparr>tree := t\<rparr>)" using oi by simp_all
  from pmap_unmap_ok [OF oi' r] obtain v' live' where
    u: "pmap_unmap (st\<lparr>tree := t\<rparr>) (max s (startp m) * 0x1000) (min e (endp m) * 0x1000 - max s (startp m) * 0x1000) = retR (st\<lparr>tree := t, vmm := v'\<rparr>)"
      "obj_inv (st\<lparr>tree := t, vmm := v'\<rparr>) live'" "pages_ok (st\<lparr>tree := t, vmm := v'\<rparr>)" "obj_byte (st\<lparr>tree := t, vmm := v'\<rparr>) = obj_byte st"
      "\<forall>p. unat p < 2 ^ 35 \<longrightarrow> page_leaf (st\<lparr>tree := t, vmm := v'\<rparr>) p =
         (if max s (startp m) \<le> p \<and> p < min e (endp m) then None else page_leaf st p)" by auto
  have "\<forall>x\<in>set (head_part s m @ tail_part e m). startp x < endp x \<and> endp x \<le> endp m"
    using cut_parts(3) [OF se(1) m(2) ne] m(2) by (auto simp: head_part_def tail_part_def overlaps_def)
  note T = replace_tree [OF wf b m(1) t(2,3) cut_parts(1) [OF se(1) m(2) ne] this]
  have lk: "lookup t p = (if s \<le> p \<and> p < e \<and> covers p m then None else lookup (tree st) p)" for p
    using T(4) [of p] cut_parts(2) [OF se(1) m(2) ne, of p] find_covers(2) [OF _ m(1), of p] wf
    by (auto simp: lookup_def tree_wf_def)
  have rng: "max s (startp m) \<le> p \<and> p < min e (endp m) \<longleftrightarrow> s \<le> p \<and> p < e \<and> covers p m" for p by (auto simp: covers_def)
  let ?st' = "st\<lparr>tree := t, vmm := v'\<rparr>"
  have "space_inv ?st' live'" using u(2,3) T(1,2) by (simp add: space_inv_def)
  moreover have "unmap_entry s e m st = retR ?st'" using t(1) u(1) by simp
  ultimately show ?thesis using u(4,5) lk T(3) unfolding rng by (intro exI [of _ ?st'] exI [of _ live']) auto
qed

lemma wf_distinct: "tree_wf t \<Longrightarrow> distinct t"
proof -
  assume wf: "tree_wf t"
  have "count (mset t) x = 1" if "x \<in> set t" for x
  proof -
    have ne: "covers (startp x) x" and d: "disjoint_maps t" using wf that by (auto simp: tree_wf_def covers_def)
    have "count (mset (filter (covers (startp x)) t)) x = 1" unfolding find_covers(1) [OF d that ne] by simp
    then show ?thesis using ne by simp
  qed
  then show ?thesis by (metis count_eq_zero_iff distinct_count_atmost_1 set_mset_mset)
qed

definition touchable :: "(nat \<times> u64 \<times> u8 \<times> u8) option \<Rightarrow> bool" where
  "touchable x \<longleftrightarrow> (case x of None \<Rightarrow> False | Some (ob, i, pr, fl) \<Rightarrow> fl AND 0x40 = 0)"

lemma touchable_lookup:
  assumes "tree_wf t" shows "touchable (lookup t p) \<longleftrightarrow> (\<exists>m\<in>set t. covers p m \<and> \<not> untouchable m)"
proof (cases "find (covers p) t")
  case None
  then have "\<forall>x\<in>set t. \<not> covers p x" by (simp add: find_None_iff)
  then show ?thesis using None by (simp add: lookup_def touchable_def)
next
  case (Some m)
  then have m: "m \<in> set t" "covers p m" by (metis find_Some_iff nth_mem)+
  have "x = m" if "x \<in> set t" "covers p x" for x
    using find_covers(2) [of t x p] that Some assms by (simp add: tree_wf_def)
  then have "(\<exists>x\<in>set t. covers p x \<and> \<not> untouchable x) \<longleftrightarrow> \<not> untouchable m" using m by blast
  then show ?thesis using Some by (simp add: lookup_def touchable_def view_def untouchable_def)
qed

lemma frame_leaf: assumes "obj_frame st st'" "unat p < 2 ^ 35" shows "page_leaf st' p = page_leaf st p"
proof -
  have "pmap st' = pmap st" "leaf_at (vmm st') (pmap st) (p * 0x1000) = leaf_at (vmm st) (pmap st) (p * 0x1000)"
    using assms(1) path_props [of "p * 0x1000"] user_path [OF user_page [OF assms(2)]] unfolding obj_frame_def by (blast, metis order_refl)
  then show ?thesis by (simp only:)
qed

lemma unmap_entries_ok:
  assumes "space_inv st live" "distinct ms" "set ms \<subseteq> set (tree st)" "\<forall>m\<in>set ms. overlaps s e m" "s \<le> e" "unat e \<le> 2 ^ 35"
  shows "\<exists>st' live'. unmap_entries s e ms st = retR st' \<and> space_inv st' live' \<and> obj_byte st' = obj_byte st \<and> held st' = held st \<and>
    (\<forall>p. lookup (tree st') p = (if s \<le> p \<and> p < e \<and> (\<exists>m\<in>set ms. covers p m) then None else lookup (tree st) p)) \<and>
    (\<forall>p. unat p < 2 ^ 35 \<longrightarrow> page_leaf st' p = (if s \<le> p \<and> p < e \<and> (\<exists>m\<in>set ms. covers p m) then None else page_leaf st p))"
  using assms(1-4)
proof (induction ms arbitrary: st live)
  case Nil
  then show ?case by auto
next
  case (Cons m ms)
  from unmap_entry_ok [OF Cons.prems(1), of m s e] Cons.prems(3,4) assms(5,6) obtain s1 l1 where
    s1: "unmap_entry s e m st = retR s1" "space_inv s1 l1" "obj_byte s1 = obj_byte st" "held s1 = held st"
      "set (tree st) - {m} \<subseteq> set (tree s1)"
      "\<forall>p. lookup (tree s1) p = (if s \<le> p \<and> p < e \<and> covers p m then None else lookup (tree st) p)"
      "\<forall>p. unat p < 2 ^ 35 \<longrightarrow> page_leaf s1 p = (if s \<le> p \<and> p < e \<and> covers p m then None else page_leaf st p)" by auto
  have "distinct ms" "set ms \<subseteq> set (tree s1)" "\<forall>m\<in>set ms. overlaps s e m" using Cons.prems(2-4) s1(5) by auto
  from Cons.IH [OF s1(2) this] obtain st' live' where
    r: "unmap_entries s e ms s1 = retR st'" "space_inv st' live'" "obj_byte st' = obj_byte s1" "held st' = held s1"
      "\<forall>p. lookup (tree st') p = (if s \<le> p \<and> p < e \<and> (\<exists>m\<in>set ms. covers p m) then None else lookup (tree s1) p)"
      "\<forall>p. unat p < 2 ^ 35 \<longrightarrow> page_leaf st' p = (if s \<le> p \<and> p < e \<and> (\<exists>m\<in>set ms. covers p m) then None else page_leaf s1 p)" by blast
  then show ?case using s1(1,3,4,6,7) by (intro exI [of _ st'] exI [of _ live']) auto
qed

text \<open>The specification of \<open>unmap\<close>: forget every page of the range that may be touched.\<close>

definition space_unmap :: "(u64 \<Rightarrow> (nat \<times> u64 \<times> u8 \<times> u8) option) \<Rightarrow> u64 \<Rightarrow> u64 \<Rightarrow> u64 \<Rightarrow> (nat \<times> u64 \<times> u8 \<times> u8) option" where
  "space_unmap f s e p = (if s \<le> p \<and> p < e \<and> touchable (f p) then None else f p)"

text \<open>
  Property C11. \<open>vmspace::unmap\<close> of an aligned range of the user half never fails and implements
  its specification: as a function from pages to object pages, the address space afterwards is
  the one before without the pages of the range (except those of untouchable mappings), however
  the mappings had to be split. The page tables lose exactly the same pages, every object that is
  still referenced keeps its contents, and the invariant of the address space is kept.
\<close>

theorem vmspace_unmap_refines:
  assumes "space_inv st live" "address mod 0x1000 = 0" "unat address + unat len \<le> 2 ^ 47"
  shows "\<exists>st' live'. vmspace_unmap st address len = retR (st', None) \<and> space_inv st' live' \<and>
    lookup (tree st') = space_unmap (lookup (tree st)) (address div 0x1000) (div_roundup (address + len) 0x1000) \<and>
    (\<forall>p. unat p < 2 ^ 35 \<longrightarrow> page_leaf st' p =
       (if address div 0x1000 \<le> p \<and> p < div_roundup (address + len) 0x1000 \<and> touchable (lookup (tree st) p) then None else page_leaf st p)) \<and>
    (\<forall>ob. 0 < use_count st' ob \<longrightarrow> obj_byte st' ob = obj_byte st ob)"
proof -
  let ?s = "address div 0x1000" and ?e = "div_roundup (address + len) 0x1000"
  note R = call_range [OF assms(3,2)]
  have eb: "unat ?e \<le> 2 ^ 35" using R(2) assms(3) by simp
  define ms where "ms = filter (\<lambda>m. overlaps ?s ?e m \<and> \<not> untouchable m) (tree st)"
  have wf: "tree_wf (tree st)" using assms(1) by (simp add: space_inv_def)
  have "distinct ms" "set ms \<subseteq> set (tree st)" "\<forall>m\<in>set ms. overlaps ?s ?e m" using wf_distinct [OF wf] by (auto simp: ms_def)
  from unmap_entries_ok [OF assms(1) this R(3) eb] obtain s1 l1 where
    s1: "unmap_entries ?s ?e ms st = retR s1" "space_inv s1 l1" "obj_byte s1 = obj_byte st" "held s1 = held st"
      "\<forall>p. lookup (tree s1) p = (if ?s \<le> p \<and> p < ?e \<and> (\<exists>m\<in>set ms. covers p m) then None else lookup (tree st) p)"
      "\<forall>p. unat p < 2 ^ 35 \<longrightarrow> page_leaf s1 p = (if ?s \<le> p \<and> p < ?e \<and> (\<exists>m\<in>set ms. covers p m) then None else page_leaf st p)" by blast
  have oi: "obj_inv s1 l1" using s1(2) by (simp add: space_inv_def)
  from release_ok [OF oi, of "map obj ms"] obtain st' live' where
    r: "release s1 (map obj ms) = retR st'" "obj_inv st' live'" "obj_frame s1 st'" "\<forall>ob. 0 < use_count s1 ob \<longrightarrow> obj_byte st' ob = obj_byte s1 ob" by blast
  have fr: "tree st' = tree s1" "held st' = held s1" "pmap st' = pmap s1" using r(3) by (simp_all add: obj_frame_def)
  have "vmspace_unmap st address len = retR (st', None)"
    using assms(2) s1(1) r(1) by (simp add: vmspace_unmap_def Let_def ms_def)
  moreover have "space_inv st' live'"
    using s1(2) r(2) fr frame_pages_ok [OF r(3)] by (simp add: space_inv_def)
  moreover have cov: "?s \<le> p \<and> p < ?e \<and> (\<exists>m\<in>set ms. covers p m) \<longleftrightarrow> ?s \<le> p \<and> p < ?e \<and> touchable (lookup (tree st) p)" for p
    unfolding touchable_lookup [OF wf] ms_def by (auto simp: overlaps_def covers_def)
  then have "lookup (tree st') = space_unmap (lookup (tree st)) ?s ?e"
    using s1(5) fr(1) by (intro ext) (simp add: space_unmap_def)
  moreover have "page_leaf st' p = page_leaf s1 p" if "unat p < 2 ^ 35" for p by (rule frame_leaf [OF r(3) that])
  moreover have "use_count st' ob = use_count s1 ob" for ob by (simp add: use_count_def fr)
  ultimately show ?thesis using s1(3,6) r(4) unfolding cov by (intro exI [of _ st'] exI [of _ live']) simp
qed

section \<open>Mapping\<close>

lemma emplace_set [simp]: "set (emplace m t) = insert m (set t)"
  by (metis mset_emplace set_mset_add_mset_insert set_mset_mset)

lemma emplace_find:
  assumes "\<forall>x\<in>set t. \<not> covers p x \<or> \<not> covers p m"
  shows "find (covers p) (emplace m t) = (if covers p m then Some m else find (covers p) t)"
    "length (filter (covers p) (emplace m t)) = (if covers p m then 1 else length (filter (covers p) t))"
  using assms by (induction t) (auto simp: filter_empty_conv find_None_iff)

lemma lookup_none: "lookup t p = None \<longleftrightarrow> (\<forall>x\<in>set t. \<not> covers p x)"
  by (auto simp: lookup_def find_None_iff)

lemma emplace_wf:
  assumes wf: "tree_wf t" and m: "startp m < endp m" and free: "\<forall>p. covers p m \<longrightarrow> lookup t p = None"
  shows "tree_wf (emplace m t)" "lookup (emplace m t) p = (if covers p m then Some (view m p) else lookup t p)"
proof -
  have f: "\<forall>x\<in>set t. \<not> covers p x \<or> \<not> covers p m" for p using free by (auto simp: lookup_none)
  show "tree_wf (emplace m t)"
    using wf m emplace_find(2) [OF f] by (auto simp: tree_wf_def sorted_emplace disjoint_maps_def)
  show "lookup (emplace m t) p = (if covers p m then Some (view m p) else lookup t p)"
    using emplace_find(1) [OF f] by (simp add: lookup_def)
qed

text \<open>
  A range that ends inside a mapping must also begin inside it: for the others the offset of
  the part behind the range is computed from the start of the range instead of the start of the
  mapping, and a mapping that ends with the range leaves an empty mapping behind.
\<close>

definition cuts_well :: "u64 \<Rightarrow> u64 \<Rightarrow> mapping \<Rightarrow> bool" where
  "cuts_well s e m \<longleftrightarrow> s \<le> startp m \<and> endp m \<le> e \<or> startp m \<le> s \<and> e < endp m"

lemma pmap_unmap_tree:
  "pmap_unmap (st\<lparr>tree := t\<rparr>) a n = bindR (pmap_unmap st a n) (\<lambda>st'. retR (st'\<lparr>tree := t\<rparr>))"
proof (cases "unmap (vmm st) (pmap st) a n Small")
  case None then show ?thesis by (simp add: pmap_unmap_def)
next
  case (Some r) then show ?thesis by (cases r) (auto simp: pmap_unmap_def split: option.splits)
qed

lemma map_entry_as_unmap:
  assumes "cuts_well s e m" "\<not> untouchable m" "overlaps s e m" "s \<le> e"
  shows "map_entry s e m st = bindR (unmap_entry s e m st) (\<lambda>st. retR (st, None))"
proof (cases "s \<le> startp m \<and> endp m \<le> e")
  case True then show ?thesis using assms(2) by (simp add: map_entry_def unmap_entry_def Let_def)
next
  case False
  then have c: "startp m \<le> s" "e < endp m" using assms(1) by (auto simp: cuts_well_def)
  have e0: "e \<noteq> 0" "\<not> endp m \<le> e" "\<not> s < startp m" using assms(3) c by (auto simp: overlaps_def)
  have h: "s - startp m = 0 \<longleftrightarrow> s = startp m" "endp m - e \<noteq> 0" using c by auto
  have o: "offsetp m + (endp m - startp m) - (endp m - e) = offsetp m + (s - startp m) + (e - s)" by simp
  show ?thesis using False assms(2) c e0 h o
    by (cases "s = startp m") (simp_all add: map_entry_def unmap_entry_def Let_def put_mapping_def pmap_unmap_tree [where st = st] bindR_assoc)
qed

lemma map_entries_as_unmap:
  assumes "\<forall>m\<in>set ms. cuts_well s e m \<and> \<not> untouchable m \<and> overlaps s e m" "s \<le> e"
  shows "map_entries s e ms st = bindR (unmap_entries s e ms st) (\<lambda>st. retR (st, None))"
  using assms(1) by (induction ms arbitrary: st) (simp_all add: map_entry_as_unmap assms(2) bindR_assoc)

text \<open>The specification of \<open>map\<close>: the range becomes the pages of the object from the offset on.\<close>

definition space_map :: "(u64 \<Rightarrow> (nat \<times> u64 \<times> u8 \<times> u8) option) \<Rightarrow> u64 \<Rightarrow> u64 \<Rightarrow> nat \<Rightarrow> u64 \<Rightarrow> u8 \<Rightarrow> u8 \<Rightarrow>
    u64 \<Rightarrow> (nat \<times> u64 \<times> u8 \<times> u8) option" where
  "space_map f s e ob off pr fl p = (if s \<le> p \<and> p < e then Some (ob, p - s + off, pr, fl) else f p)"

lemma vmspace_map_ok:
  assumes "space_inv st live" "address mod 0x1000 = 0" "offset mod 0x1000 = 0" "unat address + unat len \<le> 2 ^ 47" "len \<noteq> 0"
    and "\<forall>m\<in>set (tree st). overlaps (address div 0x1000) (div_roundup (address + len) 0x1000) m \<longrightarrow>
      \<not> untouchable m \<and> cuts_well (address div 0x1000) (div_roundup (address + len) 0x1000) m"
  shows "\<exists>st' live'. vmspace_map st address len pr fl (Some ob) offset = retR (st', None) \<and> space_inv st' live' \<and>
    lookup (tree st') = space_map (lookup (tree st)) (address div 0x1000) (div_roundup (address + len) 0x1000) ob (offset div 0x1000) pr fl \<and>
    (\<forall>p. unat p < 2 ^ 35 \<longrightarrow> page_leaf st' p =
       (if address div 0x1000 \<le> p \<and> p < div_roundup (address + len) 0x1000 \<and> lookup (tree st) p \<noteq> None then None else page_leaf st p)) \<and>
    (\<forall>x. 0 < use_count st' x \<longrightarrow> obj_byte st' x = obj_byte st x)"
proof -
  let ?s = "address div 0x1000" and ?e = "div_roundup (address + len) 0x1000"
  note R = call_range [OF assms(4,2)]
  have eb: "unat ?e \<le> 2 ^ 35" using R(2) assms(4) by simp
  have se: "?s < ?e"
  proof -
    have "unat len \<noteq> 0" using assms(5) by (simp add: unat_eq_0)
    then have "(unat address + 4096) div 4096 \<le> (unat address + unat len + 4095) div 4096" by (intro div_le_mono) simp
    then show ?thesis unfolding word_less_nat_alt R(1,2) by simp
  qed
  define ms where "ms = filter (overlaps ?s ?e) (tree st)"
  have wf: "tree_wf (tree st)" using assms(1) by (simp add: space_inv_def)
  have ms: "distinct ms" "set ms \<subseteq> set (tree st)" "\<forall>m\<in>set ms. overlaps ?s ?e m" using wf_distinct [OF wf] by (auto simp: ms_def)
  from unmap_entries_ok [OF assms(1) this R(3) eb] obtain s1 l1 where
    s1: "unmap_entries ?s ?e ms st = retR s1" "space_inv s1 l1" "obj_byte s1 = obj_byte st" "held s1 = held st"
      "\<forall>p. lookup (tree s1) p = (if ?s \<le> p \<and> p < ?e \<and> (\<exists>m\<in>set ms. covers p m) then None else lookup (tree st) p)"
      "\<forall>p. unat p < 2 ^ 35 \<longrightarrow> page_leaf s1 p = (if ?s \<le> p \<and> p < ?e \<and> (\<exists>m\<in>set ms. covers p m) then None else page_leaf st p)" by blast
  have "\<forall>m\<in>set ms. cuts_well ?s ?e m \<and> \<not> untouchable m \<and> overlaps ?s ?e m" using assms(6) ms(2,3) by blast
  from map_entries_as_unmap [OF this R(3), of st] have me: "map_entries ?s ?e ms st = retR (s1, None)" by (simp only: s1(1) bindR_simps)
  have cov: "?s \<le> p \<and> p < ?e \<and> (\<exists>m\<in>set ms. covers p m) \<longleftrightarrow> ?s \<le> p \<and> p < ?e \<and> lookup (tree st) p \<noteq> None" for p
    unfolding lookup_none ms_def by (auto simp: overlaps_def covers_def)
  define n where "n = \<lparr>startp = ?s, endp = ?e, obj = ob, offsetp = offset div 0x1000, prot = pr, mflags = fl\<rparr>"
  have n: "startp n = ?s" "endp n = ?e" "\<And>p. covers p n \<longleftrightarrow> ?s \<le> p \<and> p < ?e" "\<And>p. view n p = (ob, p - ?s + offset div 0x1000, pr, fl)"
    by (simp_all add: n_def covers_def view_def)
  have free: "\<forall>p. covers p n \<longrightarrow> lookup (tree s1) p = None"
    unfolding n(3) using s1(5) [unfolded cov] by (metis (full_types))
  have wf1: "tree_wf (tree s1)" using s1(2) by (simp add: space_inv_def)
  note E = emplace_wf [OF wf1 _ free, unfolded n(1,2), OF se]
  define s2 where "s2 = put_mapping n s1"
  have i2: "space_inv s2 l1" using s1(2) E(1) n eb by (auto simp: s2_def put_mapping_def space_inv_def)
  then have "obj_inv s2 l1" by (simp add: space_inv_def)
  from release_ok [OF this, of "map obj ms"] obtain st' live' where
    r: "release s2 (map obj ms) = retR st'" "obj_inv st' live'" "obj_frame s2 st'" "\<forall>ob. 0 < use_count s2 ob \<longrightarrow> obj_byte st' ob = obj_byte s2 ob" by blast
  have fr: "tree st' = emplace n (tree s1)" "held st' = held s2" "tree s2 = emplace n (tree s1)"
    using r(3) by (simp_all add: obj_frame_def s2_def put_mapping_def)
  have "vmspace_map st address len pr fl (Some ob) offset = retR (st', None)"
    using assms(2,3) me r(1) by (simp add: vmspace_map_def Let_def ms_def s2_def n_def)
  moreover have "space_inv st' live'"
    using i2 r(2) fr frame_pages_ok [OF r(3)] by (simp add: space_inv_def)
  moreover have "lookup (tree st') = space_map (lookup (tree st)) ?s ?e ob (offset div 0x1000) pr fl"
    using s1(5) E(2) n(3,4) by (intro ext) (simp add: space_map_def fr(1))
  moreover have "page_leaf st' p = page_leaf s1 p" if "unat p < 2 ^ 35" for p
    using frame_leaf [OF r(3) that] by (simp add: s2_def put_mapping_def)
  moreover have "use_count st' ob = use_count s2 ob" for ob by (simp add: use_count_def fr)
  moreover have "obj_byte s2 = obj_byte s1" by (simp add: s2_def put_mapping_def)
  ultimately show ?thesis using s1(3,6) r(4) unfolding cov by (intro exI [of _ st'] exI [of _ live']) simp
qed

text \<open>
  Property C10. \<open>vmspace::map\<close> of a non-empty aligned range of the user half that overlaps only
  touchable mappings, each either inside the range or containing it and reaching beyond its end
  (\<open>cuts_well\<close>: the other splits go wrong, see \<open>map_moves_rest_of_mapping\<close>), never fails
  and implements its specification: the pages of the range become the
  pages of the object from the offset on, with the given protection and flags, and all other
  pages keep theirs. The page tables lose the pages that were mapped before, every object that is
  still referenced keeps its contents, and the invariant of the address space is kept.
\<close>

theorem vmspace_map_refines:
  assumes "space_inv st live" "address mod 0x1000 = 0" "offset mod 0x1000 = 0" "unat address + unat len \<le> 2 ^ 47" "len \<noteq> 0"
    and "\<forall>m\<in>set (tree st). overlaps (address div 0x1000) (div_roundup (address + len) 0x1000) m \<longrightarrow>
      \<not> untouchable m \<and> cuts_well (address div 0x1000) (div_roundup (address + len) 0x1000) m"
  shows "\<exists>st' live'. vmspace_map st address len pr fl (Some ob) offset = retR (st', None) \<and> space_inv st' live' \<and>
    lookup (tree st') = space_map (lookup (tree st)) (address div 0x1000) (div_roundup (address + len) 0x1000) ob (offset div 0x1000) pr fl \<and>
    (\<forall>p. unat p < 2 ^ 35 \<longrightarrow> page_leaf st' p =
       (if address div 0x1000 \<le> p \<and> p < div_roundup (address + len) 0x1000 \<and> lookup (tree st) p \<noteq> None then None else page_leaf st p)) \<and>
    (\<forall>x. 0 < use_count st' x \<longrightarrow> obj_byte st' x = obj_byte st x)"
  by (rule vmspace_map_ok [OF assms])

end
