(* ===== verification/Vmm_Ops.thy ===== *)
theory Vmm_Ops
  imports Vmm_Space
begin

text \<open>
  The remaining operations of an address space: page faults, the search for a free region,
  \<open>is_mapped\<close>, and \<open>vmspace::protect\<close> against its specification \<open>space_protect\<close>; two
  defects of \<open>map\<close> and \<open>protect\<close>; and the sample address spaces of the witnesses.
\<close>

section \<open>Page faults\<close>

lemma translate_pure:
  assumes "pt_inv v root live" "small_ok v root va" shows "\<exists>r. translate v root va Small = retR (v, r)"
  using getpte_find_ok [OF assms] by (auto simp: translate_def Let_def split: option.split sum.split)

lemma to_pflags_ok: "pr AND prot_read \<noteq> 0 \<Longrightarrow> to_pflags pr AND pf_read \<noteq> 0" "to_pflags pr < 32"
  by (simp_all add: to_pflags_def Let_def)

text \<open>Mapping one page of an object.\<close>

lemma map_object_page_ok:
  assumes inv: "obj_inv st live" "pages_ok st" and x: "map_of (objects st ob) i = Some x" and p: "unat p < 2 ^ 35" and pr: "pr AND prot_read \<noteq> 0"
  shows "map_pages (vmm st) (pmap st) (p * 0x1000) x 0x1000 (to_pflags pr) Small Write_back = failR oom \<and> \<not> vroom (vmm st) live 3 \<or>
    (\<exists>v' live'. map_pages (vmm st) (pmap st) (p * 0x1000) x 0x1000 (to_pflags pr) Small Write_back = retR (v', None) \<and>
       obj_inv (st\<lparr>vmm := v'\<rparr>) live' \<and> pages_ok (st\<lparr>vmm := v'\<rparr>) \<and> obj_byte (st\<lparr>vmm := v'\<rparr>) = obj_byte st \<and>
       translate v' (pmap st) (p * 0x1000) Small = retR (v', Inr x) \<and>
       (\<forall>q. unat q < 2 ^ 35 \<longrightarrow> leaf_at v' (pmap st) (q * 0x1000) =
          (if q = p then Some (x OR to_arch (to_pflags pr) Write_back Small) else leaf_at (vmm st) (pmap st) (q * 0x1000))))"
proof -
  let ?fl = "to_arch (to_pflags pr) Write_back Small"
  have pb: "unat p \<le> 2 ^ 51" "unat p < 2 ^ 36" using p by simp_all
  have va: "4096 dvd unat (p * 0x1000)" using unat_page_addr [OF pb(1)] by simp
  have n1: "page_count 0x1000 = 1" by (simp add: page_count_def)
  have so: "\<forall>j<page_count 0x1000. small_ok (vmm st) (pmap st) (page_at (p * 0x1000) j)"
    using inv(2) user_page [OF p] by (simp add: pages_ok_def)
  have eq: "map_pages (vmm st) (pmap st) (p * 0x1000) x 0x1000 (to_pflags pr) Small Write_back =
    map_loop (vmm st) (pmap st) (p * 0x1000) x 0x1000 ?fl Small 0"
    using va aligned_small [of "p * 0x1000"] by (simp add: map_pages_def)
  have "page_count 0x1000 \<le> 2 ^ 36" using n1 by simp
  from map_pages.run_ok [OF va this obj_invD(1) [OF inv(1)] so, of x ?fl]
  consider "map_loop (vmm st) (pmap st) (p * 0x1000) x 0x1000 ?fl Small 0 = failR oom" "\<not> vroom (vmm st) live 3"
    | v' live' where "map_loop (vmm st) (pmap st) (p * 0x1000) x 0x1000 ?fl Small 0 = retR (v', None)"
      "grows (3 * page_count 0x1000) (pmap st) (vmm st) live v' live'" "pt_inv v' (pmap st) live'"
      "leaf_update (vmm st) v' (pmap st) (p * 0x1000) {..<page_count 0x1000} (\<lambda>j _. new_leaf (page_at x j) ?fl) False"
    unfolding n1 by fastforce
  then show ?thesis
  proof cases
    case 1 then show ?thesis using eq by simp
  next
    case 2
    have u: "leaf_update (vmm st) v' (pmap st) (p * 0x1000) {..<unat (p + 1) - unat p} (\<lambda>j _. new_leaf (page_at x j) ?fl) False"
      using 2(4) pb unfolding n1 by (simp add: unat_word_ariths)
    have r: "p \<le> p + 1" "unat (p + 1) \<le> 2 ^ 36" using pb by (simp_all add: word_le_nat_alt unat_word_ariths)
    note P = phys_page [OF obj_page(1,2) [OF inv(1) x], unfolded obj_page(3) [OF inv(1) x]]
    have nl: "new_leaf x ?fl = Some (x OR ?fl)" using new_leaf_to_arch [OF to_pflags_ok(1) [OF pr], of x Write_back] P(1) by simp
    have leaf: "leaf_at v' (pmap st) (p * 0x1000) = Some (x OR ?fl)"
      using leaf_updateD(3) [OF 2(4), of 0] n1 nl by simp
    have other: "leaf_at v' (pmap st) (q * 0x1000) = leaf_at (vmm st) (pmap st) (q * 0x1000)" if "unat q < 2 ^ 35" "q \<noteq> p" for q
    proof (intro leaf_updateD(4) [OF 2(4)])
      fix j assume "j \<in> {..<page_count 0x1000}"
      then have "page_at (p * 0x1000) j = p * 0x1000" using n1 by simp
      moreover have "page_no (q * 0x1000) \<noteq> page_no (p * 0x1000)" using page_no_page [of q] page_no_page [OF pb(2)] that by (auto simp: word_unat_eq_iff)
      ultimately show "path (q * 0x1000) \<noteq> path (page_at (p * 0x1000) j)" by (simp add: path_eq_iff)
    qed (use user_page [OF that(1)] in auto)
    have so': "pages_ok (st\<lparr>vmm := v'\<rparr>)" using small_ok_update [OF 2(4)] inv(2) by (simp add: pages_ok_def)
    have "entry_getaddr (x OR ?fl) = x" using small_entry_addr [of x "to_pflags pr" Write_back] P(1) by simp
    then have "translate v' (pmap st) (p * 0x1000) Small = retR (v', Inr x)"
      using translate_small [OF 2(3) _ va leaf] P(2) so' user_page [OF p] by (simp add: pages_ok_def)
    moreover note obj_inv_vmm [OF inv(1) 2(3,2) leaf_updateD(1,7) [OF 2(4)]]
    ultimately show ?thesis using eq 2(1) so' leaf other by (intro disjI2 exI [of _ v'] exI [of _ live']) simp
  qed
qed

text \<open>
  Property C13. A fault on a page of a readable mapping that is not a write to a private mapping of
  a shared object (copy-on-write, which does not return): with four free pages left the handler returns and \<open>translate\<close> then gives the page
  of the mapped object, which has the contents it had before. The handler reports failure only
  when the page tables translated the address to that page already. No other page of the address
  space, no mapping and no object changes.
\<close>

theorem pfault_maps_object_page:
  assumes inv: "space_inv st live" and m: "m \<in> set (tree st)" "covers (addr div 0x1000) m" "prot m AND prot_read \<noteq> 0"
    and nocow: "\<not> (on_write \<and> mflags m AND fl_private \<noteq> 0 \<and> 1 < use_count st (obj m))" and room: "vroom (vmm st) live 4"
  shows "\<exists>st' live' r x. handle_pfault st addr on_write = retR (st', r) \<and> space_inv st' live' \<and>
    map_of (objects st' (obj m)) (addr div 0x1000 - startp m + offsetp m) = Some x \<and>
    translate (vmm st') (pmap st') (addr div 0x1000 * 0x1000) Small = retR (vmm st', Inr x) \<and>
    (r \<longrightarrow> page_leaf st' (addr div 0x1000) = Some (x OR to_arch (to_pflags (prot m)) Write_back Small)) \<and>
    (\<not> r \<longrightarrow> page_leaf st' (addr div 0x1000) = page_leaf st (addr div 0x1000)) \<and>
    (\<forall>q. unat q < 2 ^ 35 \<longrightarrow> q \<noteq> addr div 0x1000 \<longrightarrow> page_leaf st' q = page_leaf st q) \<and>
    tree st' = tree st \<and> obj_byte st' = obj_byte st"
proof -
  let ?p = "addr div 0x1000" and ?i = "addr div 0x1000 - startp m + offsetp m"
  have wf: "tree_wf (tree st)" and oi: "obj_inv st live" and po: "pages_ok st" and b: "unat (endp m) \<le> 2 ^ 35"
    using inv m(1) by (auto simp: space_inv_def)
  have p: "unat ?p < 2 ^ 35" using m(2) b by (simp add: covers_def word_less_nat_alt)
  have f: "find (\<lambda>m. startp m \<le> ?p \<and> ?p < endp m) (tree st) = Some m"
    using find_covers(2) [OF _ m(1,2)] wf by (simp add: tree_wf_def covers_def [abs_def])
  from get_page_ok [OF oi, of "obj m" ?i] vroom_le [OF room, of 1] obtain s1 x l1 where
    g: "object_get_page st (obj m) ?i = retR (s1, x)" "x \<noteq> 0" "obj_inv s1 l1" "obj_frame st s1"
      "grows 1 (pmap st) (vmm st) live (vmm s1) l1" "map_of (objects s1 (obj m)) ?i = Some x" "obj_byte s1 = obj_byte st" by auto
  have "vroom (vmm st) live (3 + 1)" using room by simp
  then have r3: "vroom (vmm s1) l1 3" using g(5) unfolding grows_def by blast
  have fr: "tree s1 = tree st" "pmap s1 = pmap st" using g(4) by (simp_all add: obj_frame_def)
  have po1: "pages_ok s1" by (rule frame_pages_ok [OF g(4) po])
  then have so: "small_ok (vmm s1) (pmap s1) (?p * 0x1000)" using user_page [OF p] by (simp add: pages_ok_def)
  obtain r where t: "translate (vmm s1) (pmap s1) (?p * 0x1000) Small = retR (vmm s1, r)" using translate_pure [OF obj_invD(1) [OF g(3)] so] by blast
  have start: "handle_pfault st addr on_write = (if r = Inr x then retR (s1, False)
      else bindR (map_pages (vmm s1) (pmap s1) (?p * 0x1000) x 0x1000 (to_pflags (prot m)) Small Write_back) (\<lambda>(v, r). retR (s1\<lparr>vmm := v\<rparr>, r = None)))"
    using f g(1,2) t nocow by (auto simp: handle_pfault_def Let_def)
  show ?thesis
  proof (cases "r = Inr x")
    case True
    moreover have "space_inv s1 l1" using inv g(3) po1 fr by (simp add: space_inv_def)
    moreover have "page_leaf s1 q = page_leaf st q" if "unat q < 2 ^ 35" for q by (rule frame_leaf [OF g(4) that])
    ultimately show ?thesis using p start g(6,7) t fr by (intro exI [of _ s1] exI [of _ l1] exI [of _ False] exI [of _ x]) simp
  next
    case False
    from map_object_page_ok [OF g(3) po1 g(6) p m(3)] r3 obtain v' live' where
      w: "map_pages (vmm s1) (pmap s1) (?p * 0x1000) x 0x1000 (to_pflags (prot m)) Small Write_back = retR (v', None)"
       "obj_inv (s1\<lparr>vmm := v'\<rparr>) live'" "pages_ok (s1\<lparr>vmm := v'\<rparr>)" "obj_byte (s1\<lparr>vmm := v'\<rparr>) = obj_byte s1"
       "translate v' (pmap s1) (?p * 0x1000) Small = retR (v', Inr x)"
       "\<forall>q. unat q < 2 ^ 35 \<longrightarrow> leaf_at v' (pmap s1) (q * 0x1000) =
          (if q = ?p then Some (x OR to_arch (to_pflags (prot m)) Write_back Small) else leaf_at (vmm s1) (pmap s1) (q * 0x1000))" by blast
    let ?st' = "s1\<lparr>vmm := v'\<rparr>"
    have "handle_pfault st addr on_write = retR (?st', True)" using start False w(1) by simp
    moreover have "space_inv ?st' live'" using inv w(2,3) fr by (simp add: space_inv_def)
    moreover have "page_leaf s1 q = page_leaf st q" if "unat q < 2 ^ 35" for q by (rule frame_leaf [OF g(4) that])
    ultimately show ?thesis using p g(6,7) w(4-6) fr by (intro exI [of _ ?st'] exI [of _ live'] exI [of _ True] exI [of _ x]) simp
  qed
qed

section \<open>Searching\<close>

lemma wf_Cons:
  assumes "tree_wf (m # ms)" shows "tree_wf ms" "\<forall>x\<in>set ms. endp m \<le> startp x" "startp m < endp m"
proof -
  have d: "length (filter (covers p) (m # ms)) \<le> 1" for p using assms by (simp add: tree_wf_def disjoint_maps_def)
  have "length (filter (covers p) ms) \<le> 1" for p using d [of p] by (simp split: if_splits)
  then show "tree_wf ms" using assms by (simp add: tree_wf_def disjoint_maps_def)
  show "startp m < endp m" using assms by (simp add: tree_wf_def)
  show "\<forall>x\<in>set ms. endp m \<le> startp x"
  proof (intro ballI leI notI)
    fix x assume x: "x \<in> set ms" "startp x < endp m"
    then have "covers (startp x) m" "covers (startp x) x" using assms by (auto simp: tree_wf_def covers_def)
    then have "filter (covers (startp x)) ms = []" using d [of "startp x"] by simp
    then show False using x(1) \<open>covers (startp x) x\<close> by (simp add: filter_empty_conv)
  qed
qed

lemma find_free_loop_ok:
  assumes "tree_wf t" "\<forall>m\<in>set t. lastp \<le> startp m \<and> unat (endp m) \<le> 2 ^ 35" "unat lastp \<le> 2 ^ 35" "unat n \<le> 2 ^ 52"
  shows "\<exists>f. find_free_loop n lastp t = f * 0x1000 \<and> lastp \<le> f \<and> unat f \<le> 2 ^ 35 \<and> (f = lastp \<or> f \<in> endp ` set t) \<and>
    (\<forall>m\<in>set t. \<not> overlaps f (f + n) m)"
  using assms
proof (induction t arbitrary: lastp)
  case Nil then show ?case by auto
next
  case (Cons m ms)
  note W = wf_Cons [OF Cons.prems(1)]
  have l: "lastp \<le> startp m" "unat (endp m) \<le> 2 ^ 35" using Cons.prems(2) by auto
  show ?case
  proof (cases "startp m - lastp \<ge> n")
    case True
    have "\<not> overlaps lastp (lastp + n) x" if "x \<in> set (m # ms)" for x
    proof -
      have "startp m \<le> startp x" using that Cons.prems(1) by (auto simp: tree_wf_def)
      moreover have "lastp + n \<le> startp m"
        using True l Cons.prems(3,4) by (simp add: word_le_nat_alt unat_sub_no_wrap unat_add_no_wrap)
      ultimately show ?thesis by (auto simp: overlaps_def)
    qed
    then show ?thesis using True Cons.prems(3) by (intro exI [of _ lastp]) simp
  next
    case False
    have "\<forall>x\<in>set ms. endp m \<le> startp x \<and> unat (endp x) \<le> 2 ^ 35" using W(2) Cons.prems(2) by simp
    from Cons.IH [OF W(1) this l(2) Cons.prems(4)] obtain f where
      f: "find_free_loop n (endp m) ms = f * 0x1000" "endp m \<le> f" "unat f \<le> 2 ^ 35" "f = endp m \<or> f \<in> endp ` set ms"
        "\<forall>x\<in>set ms. \<not> overlaps f (f + n) x" by blast
    have "\<not> overlaps f (f + n) m" using f(2) by (auto simp: overlaps_def)
    moreover have "lastp \<le> f" using l(1) W(3) f(2) by simp
    ultimately show ?thesis using False f by (intro exI [of _ f]) auto
  qed
qed

lemma find_free_region_ok:
  assumes "space_inv st live" "unat len \<le> 2 ^ 62"
  shows "\<exists>f. find_free_region st len = f * 0x1000 \<and> (f = 0 \<or> f \<in> endp ` set (tree st)) \<and> unat f \<le> 2 ^ 35 \<and>
    (\<forall>p. f \<le> p \<longrightarrow> p < f + div_roundup len 0x1000 \<longrightarrow> lookup (tree st) p = None)"
proof -
  have "unat (div_roundup len 0x1000) = (unat len + 4095) div 4096" using unat_div_roundup [of 12 len] assms(2) by simp
  then have n: "unat (div_roundup len 0x1000) \<le> 2 ^ 52" using assms(2) by simp
  have "\<forall>m\<in>set (tree st). 0 \<le> startp m \<and> unat (endp m) \<le> 2 ^ 35" "tree_wf (tree st)" using assms(1) by (auto simp: space_inv_def)
  from find_free_loop_ok [OF this(2,1) _ n] obtain f where
    f: "find_free_region st len = f * 0x1000" "f = 0 \<or> f \<in> endp ` set (tree st)" "unat f \<le> 2 ^ 35" "\<forall>m\<in>set (tree st). \<not> overlaps f (f + div_roundup len 0x1000) m"
    by (auto simp: find_free_region_def)
  have "lookup (tree st) p = None" if "f \<le> p" "p < f + div_roundup len 0x1000" for p
    unfolding lookup_none using f(4) that by (auto simp: overlaps_def covers_def)
  then show ?thesis using f(1-3) by blast
qed

text \<open>
  \<open>find_free_region\<close> returns the start of a region of the requested length that
  overlaps no mapping: page 0 or the end of a mapping.
\<close>

theorem find_free_region_free:
  assumes "space_inv st live" "unat len \<le> 2 ^ 62"
  shows "\<exists>f. find_free_region st len = f * 0x1000 \<and> (f = 0 \<or> f \<in> endp ` set (tree st)) \<and> unat f \<le> 2 ^ 35 \<and>
    (\<forall>p. f \<le> p \<longrightarrow> p < f + div_roundup len 0x1000 \<longrightarrow> lookup (tree st) p = None)"
  by (rule find_free_region_ok [OF assms])

text \<open>
  \<open>is_mapped\<close> denies every range unless a mapping starts at page 0: the scan for a
  gap begins at page 0 and not at the start of the range.
\<close>

theorem is_mapped_needs_page_zero:
  assumes "\<forall>m\<in>set (tree st). startp m \<noteq> 0" "addr div 0x1000 + div_roundup len 0x1000 \<noteq> 0"
  shows "\<not> is_mapped st addr len"
proof -
  have "\<not> is_mapped_loop e 0 ms" if "\<forall>m\<in>set ms. startp m \<noteq> 0" "e \<noteq> 0" for e ms
  proof (cases ms)
    case Nil then show ?thesis using that(2) by (simp add: word_le_0_iff)
  next
    case (Cons m ms')
    then have "0 < startp m" using that(1) by (metis list.set_intros(1) word_neq_0_conv)
    then show ?thesis using Cons by simp
  qed
  then show ?thesis using assms by (simp add: is_mapped_def Let_def)
qed

lemma single_overlap:
  assumes "tree_wf t" "m \<in> set t" "P m" "\<forall>x\<in>set t. P x \<longrightarrow> x = m" shows "filter P t = [m]"
proof -
  have d: "distinct (filter P t)" using wf_distinct [OF assms(1)] by simp
  have s: "set (filter P t) = {m}"
  proof (intro set_eqI iffI)
    fix x assume "x \<in> set (filter P t)"
    then have "x \<in> set t" "P x" by simp_all
    then have "x = m" using bspec [OF assms(4)] by blast
    then show "x \<in> {m}" by simp
  next
    fix x assume "x \<in> {m}" then show "x \<in> set (filter P t)" using assms(2,3) by simp
  qed
  have "length (filter P t) = 1" using distinct_card [OF d] unfolding s by simp
  then obtain y where y: "filter P t = [y]" by (auto simp: length_Suc_conv)
  then have "set (filter P t) = {y}" by (simp only: list.set)
  then have "y = m" using s by (metis singleton_inject)
  then show ?thesis using y by simp
qed

text \<open>
  Property C18. Mapping over the beginning of a mapping, the only one the range meets in an arbitrary
  address space, moves the rest of it to other pages of its object: a page behind the range is
  afterwards the page of the object that many pages later as the range starts before the mapping.
\<close>

theorem map_moves_rest_of_mapping:
  assumes "space_inv st live" "m \<in> set (tree st)" "\<not> untouchable m" "address mod 0x1000 = 0" "offset mod 0x1000 = 0" "unat address + unat len \<le> 2 ^ 47"
    and "address div 0x1000 < startp m" "startp m < div_roundup (address + len) 0x1000" "div_roundup (address + len) 0x1000 \<le> p" "p < endp m"
    and "\<forall>x\<in>set (tree st). overlaps (address div 0x1000) (div_roundup (address + len) 0x1000) x \<longrightarrow> x = m"
  shows "lookup (tree st) p = Some (obj m, p - startp m + offsetp m, prot m, mflags m) \<and>
    (\<exists>st'. vmspace_map st address len pr fl (Some ob) offset = retR (st', None) \<and>
       lookup (tree st') p = Some (obj m, p - address div 0x1000 + offsetp m, prot m, mflags m))"
proof -
  let ?s = "address div 0x1000" and ?e = "div_roundup (address + len) 0x1000"
  have se: "?s < ?e" "?e < endp m" "startp m < endp m" using assms(7-10) by simp_all
  have wf: "tree_wf (tree st)" and d: "disjoint_maps (tree st)" and b: "unat (endp m) \<le> 2 ^ 35"
    using assms(1,2) by (auto simp: space_inv_def tree_wf_def)
  have cm: "covers p m" using assms(8-10) by (simp add: covers_def)
  define t0 where "t0 = erase m (tree st)"
  define tl where "tl = m\<lparr>startp := ?e, offsetp := offsetp m + (?e - ?s)\<rparr>"
  define n where "n = \<lparr>startp = ?s, endp = ?e, obj = ob, offsetp = offset div 0x1000, prot = pr, mflags = fl\<rparr>"
  define t where "t = emplace n (emplace tl t0)"
  have "lookup (tree st) p = Some (obj m, p - startp m + offsetp m, prot m, mflags m)"
    using find_covers(2) [OF d assms(2) cm] by (simp add: lookup_def view_def)
  moreover have oi: "obj_inv (st\<lparr>tree := t0\<rparr>) live" "pages_ok (st\<lparr>tree := t0\<rparr>)" using assms(1) by (simp_all add: space_inv_def)
  have eb: "startp m \<le> ?e" "unat ?e \<le> 2 ^ 35" using assms(8) se(2) b by (simp_all add: word_less_nat_alt word_le_nat_alt)
  from pmap_unmap_ok [OF oi eb] obtain v' live' where
    u: "pmap_unmap (st\<lparr>tree := t0\<rparr>) (startp m * 0x1000) (?e * 0x1000 - startp m * 0x1000) = retR (st\<lparr>tree := t0, vmm := v'\<rparr>)"
      "obj_inv (st\<lparr>tree := t0, vmm := v'\<rparr>) live'" by auto
  have "overlaps ?s ?e m" using assms(7,8) se by (simp add: overlaps_def)
  note o = single_overlap [OF wf assms(2) this assms(11)]
  have mm: "max ?s (startp m) = startp m" "min ?e (endp m) = ?e" "\<not> (?s \<le> startp m \<and> endp m \<le> ?e)" "?e \<noteq> 0" "\<not> endp m \<le> ?e"
    using assms(7) se by (auto simp: max_def min_def)
  have me: "map_entries ?s ?e [m] st = retR (st\<lparr>tree := emplace tl t0, vmm := v'\<rparr>, None)"
    using u(1) mm assms(3,7) by (simp add: map_entry_def Let_def put_mapping_def flip: t0_def tl_def)
  have sw: "st\<lparr>tree := x, vmm := v'\<rparr> = st\<lparr>vmm := v', tree := x\<rparr>" for x by simp
  have "obj_inv (st\<lparr>tree := t, vmm := v'\<rparr>) live'" using u(2) obj_inv_tree(1) [where st = "st\<lparr>vmm := v'\<rparr>"] unfolding sw by blast
  from release_ok [OF this, of "map obj [m]"] obtain st' where
    r: "release (st\<lparr>tree := t, vmm := v'\<rparr>) (map obj [m]) = retR st'" "tree st' = t" by (auto simp: obj_frame_def)
  have pm: "put_mapping n (st\<lparr>tree := emplace tl t0, vmm := v'\<rparr>) = st\<lparr>tree := t, vmm := v'\<rparr>"
    by (simp add: put_mapping_def t_def)
  have "vmspace_map st address len pr fl (Some ob) offset = retR (st', None)"
    using assms(4,5) me r(1) by (simp add: vmspace_map_def Let_def o pm flip: n_def del: release.simps map_entries.simps list.map)
  moreover have "lookup t p = Some (obj m, p - ?s + offsetp m, prot m, mflags m)"
  proof -
    have "\<not> covers p x" if "x \<in> set t0" for x
    proof
      assume c: "covers p x"
      have x: "x \<in> set (tree st)" "startp x \<noteq> startp m" using that by (auto simp: t0_def erase_def)
      then show False using find_covers(2) [OF d x(1) c] find_covers(2) [OF d assms(2) cm] by simp
    qed
    then have "find (covers p) (emplace tl t0) = Some tl"
      using emplace_find(1) [of t0 p tl] assms(9,10) by (simp add: tl_def covers_def)
    moreover have "\<not> covers p n" using assms(9) by (auto simp: n_def covers_def)
    ultimately have "find (covers p) t = Some tl" using emplace_find(1) [of "emplace tl t0" p n] by (simp add: t_def)
    then show ?thesis by (simp add: lookup_def view_def tl_def)
  qed
  ultimately show ?thesis using r(2) by blast
qed

section \<open>Changing protection\<close>

definition reprotect :: "u8 \<Rightarrow> u64 \<Rightarrow> u64" where
  "reprotect pr v = entry_getaddr v OR to_arch (to_pflags pr) Write_back Small"

lemma pmap_protect_ok:
  assumes inv: "obj_inv st live" "pages_ok st" and r: "s \<le> e" "unat e \<le> 2 ^ 35" and pr: "pr AND prot_read \<noteq> 0"
    and mapped: "\<forall>p. s \<le> p \<longrightarrow> p < e \<longrightarrow> page_leaf st p \<noteq> None"
  shows "\<exists>v' live'. pmap_protect st (s * 0x1000) (e * 0x1000 - s * 0x1000) (to_pflags pr) = retR (st\<lparr>vmm := v'\<rparr>) \<and>
    obj_inv (st\<lparr>vmm := v'\<rparr>) live' \<and> pages_ok (st\<lparr>vmm := v'\<rparr>) \<and> obj_byte (st\<lparr>vmm := v'\<rparr>) = obj_byte st \<and>
    (\<forall>p. unat p < 2 ^ 35 \<longrightarrow> page_leaf (st\<lparr>vmm := v'\<rparr>) p = (if s \<le> p \<and> p < e then map_option (reprotect pr) (page_leaf st p) else page_leaf st p))"
proof -
  let ?len = "e * 0x1000 - s * 0x1000" and ?fl = "to_arch (to_pflags pr) Write_back Small"
  note R = page_range [OF r]
  have N: "page_count ?len \<le> 2 ^ 36" using page_count_bounds [OF R(2)] .
  have so: "\<forall>j<page_count ?len. small_ok (vmm st) (pmap st) (page_at (s * 0x1000) j) \<and> leaf_at (vmm st) (pmap st) (page_at (s * 0x1000) j) \<noteq> None"
    using inv(2) mapped in_pages [OF r(1)] range_user [OF r] unfolding R(1) page_at_page pages_ok_def by blast
  have room: "vroom (vmm st) live (0 * page_count ?len)" by (simp add: vroom_def)
  from protect_pages.run_ok [OF R(3) N obj_invD(1) [OF inv(1)] so, of ?fl] room
  obtain v' live' where u: "protect_loop (vmm st) (pmap st) (s * 0x1000) ?len ?fl Small 0 = retR (v', None)"
    "grows (0 * page_count ?len) (pmap st) (vmm st) live v' live'" "pt_inv v' (pmap st) live'"
    "leaf_update (vmm st) v' (pmap st) (s * 0x1000) {..<page_count ?len} (\<lambda>_ old. Option.bind old (\<lambda>v. new_leaf (entry_getaddr v) ?fl)) True" by blast
  have "protect (vmm st) (pmap st) (s * 0x1000) ?len (to_pflags pr) Small Write_back = retR (v', None)"
    using u(1) R(3) aligned_small [of "s * 0x1000"] by (simp add: protect_def)
  then have "pmap_protect st (s * 0x1000) ?len (to_pflags pr) = retR (st\<lparr>vmm := v'\<rparr>)" by (simp add: pmap_protect_def)
  moreover note obj_inv_vmm [OF inv(1) u(3,2) leaf_updateD(1,7) [OF u(4)]]
  moreover have "pages_ok (st\<lparr>vmm := v'\<rparr>)" using small_ok_update [OF u(4)] inv(2) by (simp add: pages_ok_def)
  moreover have "Option.bind old (\<lambda>v. new_leaf (entry_getaddr v) ?fl) = map_option (reprotect pr) old" for old
    by (cases old) (simp_all add: new_leaf_to_arch [OF to_pflags_ok(1) [OF pr]] reprotect_def entry_getaddr_def)
  then have "page_leaf (st\<lparr>vmm := v'\<rparr>) p = (if s \<le> p \<and> p < e then map_option (reprotect pr) (page_leaf st p) else page_leaf st p)" if "unat p < 2 ^ 35" for p
    using range_leaf [OF u(4) [unfolded R(1)] r that] by auto
  ultimately show ?thesis by blast
qed

lemma protect_entry_eq:
  assumes wf: "tree_wf (tree st)" and m: "m \<in> set (tree st)" "overlaps s e m" and se: "s < e"
  obtains t where "protect_entry s e pr m st =
      pmap_protect (st\<lparr>tree := t\<rparr>) (max s (startp m) * 0x1000) (min e (endp m) * 0x1000 - max s (startp m) * 0x1000) (to_pflags pr)"
    "mset t = mset (tree st) - {#m#} + mset (middle_part s e pr m # head_part s m @ tail_part e m)" "sorted (map startp t)"
proof -
  let ?t0 = "erase m (tree st)"
  define t1 where "t1 = (if startp m < s then emplace (m\<lparr>endp := s\<rparr>) ?t0 else ?t0)"
  define t2 where "t2 = (if e < endp m then emplace (m\<lparr>startp := e, offsetp := offsetp m + (e - startp m)\<rparr>) t1 else t1)"
  define t where "t = emplace (middle_part s e pr m) t2"
  have o: "s < endp m" "startp m < e" using m(2) by (auto simp: overlaps_def)
  have "protect_entry s e pr m st = pmap_protect (st\<lparr>tree := t\<rparr>) (max s (startp m) * 0x1000) (min e (endp m) * 0x1000 - max s (startp m) * 0x1000) (to_pflags pr)"
  proof (cases "s \<le> startp m \<and> endp m \<le> e")
    case True
    then have "max s (startp m) = startp m" "min e (endp m) = endp m" by (auto simp: max_def min_def)
    moreover have "\<not> startp m < s" "\<not> e < endp m" using True by auto
    moreover from calculation have "middle_part s e pr m = m\<lparr>prot := pr\<rparr>" by (simp add: middle_part_def)
    ultimately show ?thesis using True by (simp add: protect_entry_def Let_def t1_def t2_def t_def put_mapping_def left_diff_distrib)
  next
    case False
    have h: "s - startp m \<noteq> 0 \<longleftrightarrow> s \<noteq> startp m" "endp m - e \<noteq> 0 \<longleftrightarrow> endp m \<noteq> e" by auto
    have x: "offsetp m + (endp m - startp m) - (endp m - e) = offsetp m + (e - startp m)" by simp
    have d: "max s (startp m) - startp m = (if s > startp m then s - startp m else 0)" by (auto simp: max_def)
    show ?thesis unfolding t_def middle_part_def d using False
      by (auto simp: protect_entry_def Let_def t1_def t2_def put_mapping_def h x)
  qed
  moreover have "mset t = mset (tree st) - {#m#} + mset (middle_part s e pr m # head_part s m @ tail_part e m)"
    using mset_erase [OF wf m(1)] by (auto simp: t_def t1_def t2_def head_part_def tail_part_def)
  moreover have "sorted (map startp t)"
    using wf sorted_erase [of "tree st" m] sorted_emplace by (simp add: t_def t1_def t2_def tree_wf_def)
  ultimately show ?thesis using that by blast
qed

lemma protect_entry_ok:
  assumes inv: "space_inv st live" and m: "m \<in> set (tree st)" "overlaps s e m" and se: "s < e" "unat e \<le> 2 ^ 35" and pr: "pr AND prot_read \<noteq> 0"
    and mapped: "\<forall>p. s \<le> p \<longrightarrow> p < e \<longrightarrow> covers p m \<longrightarrow> page_leaf st p \<noteq> None"
  shows "\<exists>st' live'. protect_entry s e pr m st = retR st' \<and> space_inv st' live' \<and> obj_byte st' = obj_byte st \<and> held st' = held st \<and>
    set (tree st) - {m} \<subseteq> set (tree st') \<and>
    (\<forall>p. lookup (tree st') p = (if s \<le> p \<and> p < e \<and> covers p m then Some (view (m\<lparr>prot := pr\<rparr>) p) else lookup (tree st) p)) \<and>
    (\<forall>p. unat p < 2 ^ 35 \<longrightarrow> page_leaf st' p = (if s \<le> p \<and> p < e \<and> covers p m then map_option (reprotect pr) (page_leaf st p) else page_leaf st p))"
proof -
  have wf: "tree_wf (tree st)" and oi: "obj_inv st live" "pages_ok st" and b: "\<forall>m\<in>set (tree st). unat (endp m) \<le> 2 ^ 35"
    using inv by (auto simp: space_inv_def)
  let ?fs = "middle_part s e pr m # head_part s m @ tail_part e m" and ?a = "max s (startp m)" and ?b = "min e (endp m)"
  obtain t where t: "protect_entry s e pr m st = pmap_protect (st\<lparr>tree := t\<rparr>) (?a * 0x1000) (?b * 0x1000 - ?a * 0x1000) (to_pflags pr)"
    "mset t = mset (tree st) - {#m#} + mset ?fs" "sorted (map startp t)"
    by (rule protect_entry_eq [OF wf m se(1)])
  have ne: "startp m < endp m" and bm: "unat (endp m) \<le> 2 ^ 35" using wf m(1) b by (auto simp: tree_wf_def)
  have r: "?a \<le> ?b" "unat ?b \<le> 2 ^ 35" using m(2) se ne bm by (auto simp: overlaps_def min_def max_def)
  have rng: "?a \<le> p \<and> p < ?b \<longleftrightarrow> s \<le> p \<and> p < e \<and> covers p m" for p by (auto simp: covers_def)
  have oi': "obj_inv (st\<lparr>tree := t\<rparr>) live" "pages_ok (st\<lparr>tree := t\<rparr>)" using oi by simp_all
  have mp: "\<forall>p. ?a \<le> p \<longrightarrow> p < ?b \<longrightarrow> page_leaf (st\<lparr>tree := t\<rparr>) p \<noteq> None" using mapped by (simp add: covers_def)
  from pmap_protect_ok [OF oi' r pr mp] obtain v' live' where
    u: "pmap_protect (st\<lparr>tree := t\<rparr>) (?a * 0x1000) (?b * 0x1000 - ?a * 0x1000) (to_pflags pr) = retR (st\<lparr>tree := t, vmm := v'\<rparr>)"
      "obj_inv (st\<lparr>tree := t, vmm := v'\<rparr>) live'" "pages_ok (st\<lparr>tree := t, vmm := v'\<rparr>)" "obj_byte (st\<lparr>tree := t, vmm := v'\<rparr>) = obj_byte st"
      "\<forall>p. unat p < 2 ^ 35 \<longrightarrow> page_leaf (st\<lparr>tree := t, vmm := v'\<rparr>) p =
         (if ?a \<le> p \<and> p < ?b then map_option (reprotect pr) (page_leaf st p) else page_leaf st p)" by auto
  have "\<forall>x\<in>set ?fs. startp x < endp x \<and> endp x \<le> endp m"
    using protect_parts(3) [OF se(1) m(2) ne] m(2) by (auto simp: middle_part_def head_part_def tail_part_def overlaps_def)
  note T = replace_tree [OF wf b m(1) t(2,3) protect_parts(1) [OF se(1) m(2) ne] this]
  have lk: "lookup t p = (if s \<le> p \<and> p < e \<and> covers p m then Some (view (m\<lparr>prot := pr\<rparr>) p) else lookup (tree st) p)" for p
    using T(4) [of p] protect_parts(2) [OF se(1) m(2) ne, of p pr] find_covers(2) [OF _ m(1), of p] wf
    by (auto simp: lookup_def tree_wf_def)
  let ?st' = "st\<lparr>tree := t, vmm := v'\<rparr>"
  have "space_inv ?st' live'" using u(2,3) T(1,2) by (simp add: space_inv_def)
  moreover have "protect_entry s e pr m st = retR ?st'" using t(1) u(1) by simp
  ultimately show ?thesis using u(4,5) lk T(3) unfolding rng by (intro exI [of _ ?st'] exI [of _ live']) auto
qed

lemma protect_entries_ok:
  assumes "space_inv st live" "distinct ms" "set ms \<subseteq> set (tree st)" "\<forall>m\<in>set ms. overlaps s e m" "s < e" "unat e \<le> 2 ^ 35" "pr AND prot_read \<noteq> 0"
    and "\<forall>p m. m \<in> set ms \<longrightarrow> s \<le> p \<longrightarrow> p < e \<longrightarrow> covers p m \<longrightarrow> page_leaf st p \<noteq> None"
  shows "\<exists>st' live'. protect_entries s e pr ms st = retR st' \<and> space_inv st' live' \<and> obj_byte st' = obj_byte st \<and> held st' = held st \<and>
    (\<forall>p. lookup (tree st') p = (if s \<le> p \<and> p < e \<and> (\<exists>m\<in>set ms. covers p m)
       then map_option (\<lambda>(ob, i, _, fl). (ob, i, pr, fl)) (lookup (tree st) p) else lookup (tree st) p)) \<and>
    (\<forall>p. unat p < 2 ^ 35 \<longrightarrow> page_leaf st' p = (if s \<le> p \<and> p < e \<and> (\<exists>m\<in>set ms. covers p m)
       then map_option (reprotect pr) (page_leaf st p) else page_leaf st p))"
  using assms(1-4,8)
proof (induction ms arbitrary: st live)
  case Nil
  then show ?case by auto
next
  case (Cons m ms)
  have m: "m \<in> set (tree st)" "overlaps s e m" "m \<notin> set ms" using Cons.prems(2-4) by auto
  have mp: "\<forall>p. s \<le> p \<longrightarrow> p < e \<longrightarrow> covers p m \<longrightarrow> page_leaf st p \<noteq> None" using Cons.prems(5) by (meson list.set_intros(1))
  from protect_entry_ok [OF Cons.prems(1) m(1,2) assms(5-7) mp] obtain s1 l1 where
    s1: "protect_entry s e pr m st = retR s1" "space_inv s1 l1" "obj_byte s1 = obj_byte st" "held s1 = held st"
      "set (tree st) - {m} \<subseteq> set (tree s1)"
      "\<forall>p. lookup (tree s1) p = (if s \<le> p \<and> p < e \<and> covers p m then Some (view (m\<lparr>prot := pr\<rparr>) p) else lookup (tree st) p)"
      "\<forall>p. unat p < 2 ^ 35 \<longrightarrow> page_leaf s1 p = (if s \<le> p \<and> p < e \<and> covers p m then map_option (reprotect pr) (page_leaf st p) else page_leaf st p)"
    by blast
  have wf: "tree_wf (tree st)" using Cons.prems(1) by (simp add: space_inv_def)
  have d: "\<not> covers p x" if "x \<in> set ms" "covers p m" for x p
    using find_covers(2) [OF _ m(1) that(2)] find_covers(2) [of "tree st" x p] wf that(1) Cons.prems(3) m(3) by (auto simp: tree_wf_def)
  have lm: "lookup (tree st) p = Some (view m p)" if "covers p m" for p
    using find_covers(2) [OF _ m(1) that] wf by (simp add: lookup_def tree_wf_def)
  have "distinct ms" "set ms \<subseteq> set (tree s1)" "\<forall>m\<in>set ms. overlaps s e m" using Cons.prems(2-4) s1(5) by auto
  moreover have "\<forall>p x. x \<in> set ms \<longrightarrow> s \<le> p \<longrightarrow> p < e \<longrightarrow> covers p x \<longrightarrow> page_leaf s1 p \<noteq> None"
  proof (intro allI impI)
    fix p x assume a: "x \<in> set ms" "s \<le> p" "p < e" "covers p x"
    have "unat p < 2 ^ 35" using a(3) assms(6) by (simp add: word_less_nat_alt)
    moreover have "\<not> covers p m" using d a by blast
    ultimately have "page_leaf s1 p = page_leaf st p" using s1(7) by (simp only: simp_thms if_False)
    then show "page_leaf s1 p \<noteq> None" using Cons.prems(5) a by (metis list.set_intros(2))
  qed
  ultimately obtain st' live' where
    r: "protect_entries s e pr ms s1 = retR st'" "space_inv st' live'" "obj_byte st' = obj_byte s1" "held st' = held s1"
      "\<forall>p. lookup (tree st') p = (if s \<le> p \<and> p < e \<and> (\<exists>m\<in>set ms. covers p m)
         then map_option (\<lambda>(ob, i, _, fl). (ob, i, pr, fl)) (lookup (tree s1) p) else lookup (tree s1) p)"
      "\<forall>p. unat p < 2 ^ 35 \<longrightarrow> page_leaf st' p = (if s \<le> p \<and> p < e \<and> (\<exists>m\<in>set ms. covers p m)
         then map_option (reprotect pr) (page_leaf s1 p) else page_leaf s1 p)"
    using Cons.IH [OF s1(2)] by blast
  have "lookup (tree st') p = (if s \<le> p \<and> p < e \<and> (\<exists>m\<in>set (m # ms). covers p m)
       then map_option (\<lambda>(ob, i, _, fl). (ob, i, pr, fl)) (lookup (tree st) p) else lookup (tree st) p)" for p
    using r(5) s1(6) d [of _ p] lm [of p] by (cases "covers p m") (auto simp: view_def)
  moreover have "page_leaf st' p = (if s \<le> p \<and> p < e \<and> (\<exists>m\<in>set (m # ms). covers p m)
       then map_option (reprotect pr) (page_leaf st p) else page_leaf st p)" if "unat p < 2 ^ 35" for p
    using r(6) s1(7) d [of _ p] that by (cases "covers p m") auto
  ultimately show ?case using s1(1,3,4) r(1-4) by (intro exI [of _ st'] exI [of _ live']) simp
qed

text \<open>The specification of \<open>protect\<close>: new protection for the touchable pages of the range.\<close>

definition space_protect :: "(u64 \<Rightarrow> (nat \<times> u64 \<times> u8 \<times> u8) option) \<Rightarrow> u64 \<Rightarrow> u64 \<Rightarrow> u8 \<Rightarrow> u64 \<Rightarrow> (nat \<times> u64 \<times> u8 \<times> u8) option" where
  "space_protect f s e pr p =
     (if s \<le> p \<and> p < e \<and> touchable (f p) then map_option (\<lambda>(ob, i, _, fl). (ob, i, pr, fl)) (f p) else f p)"

text \<open>
  Property C12. \<open>vmspace::protect\<close> of a range whose touchable pages have all been touched, so that
  they have page table entries (otherwise it panics, see \<open>protect_of_untouched_mapping_panics\<close>),
  implements its specification: every touchable page of the range gets the new protection and keeps its
  object page and flags, however the mappings are split; its page table entry keeps the address
  and gets the new flags. Nothing else changes.
\<close>

theorem vmspace_protect_refines:
  assumes "space_inv st live" "address mod 0x1000 = 0" "unat address + unat len \<le> 2 ^ 47" "len \<noteq> 0" "pr AND prot_read \<noteq> 0"
    and "\<forall>p. address div 0x1000 \<le> p \<longrightarrow> p < address div 0x1000 + div_roundup len 0x1000 \<longrightarrow> touchable (lookup (tree st) p) \<longrightarrow> page_leaf st p \<noteq> None"
  shows "\<exists>st' live'. vmspace_protect st address len pr = retR (st', None) \<and> space_inv st' live' \<and>
    lookup (tree st') = space_protect (lookup (tree st)) (address div 0x1000) (address div 0x1000 + div_roundup len 0x1000) pr \<and>
    (\<forall>p. unat p < 2 ^ 35 \<longrightarrow> page_leaf st' p =
       (if address div 0x1000 \<le> p \<and> p < address div 0x1000 + div_roundup len 0x1000 \<and> touchable (lookup (tree st) p)
        then map_option (reprotect pr) (page_leaf st p) else page_leaf st p)) \<and>
    obj_byte st' = obj_byte st"
proof -
  let ?s = "address div 0x1000" and ?e = "address div 0x1000 + div_roundup len 0x1000"
  have a: "unat ?s = unat address div 4096" "unat address mod 4096 = 0"
    using arg_cong [OF assms(2), of unat] by (simp_all add: unat_div_distrib unat_mod_distrib)
  have n: "unat (div_roundup len 0x1000) = (unat len + 4095) div 4096" using unat_div_roundup [of 12 len] assms(3) by simp
  have "unat address div 4096 + (unat len + 4095) div 4096 \<le> 2 ^ 35" using assms(3) a(2) by (auto simp: mod_eq_0_iff_dvd elim!: dvdE)
  then have u: "unat ?e = unat address div 4096 + (unat len + 4095) div 4096" "unat ?e \<le> 2 ^ 35"
    using a(1) n by (simp_all add: unat_add_no_wrap)
  have "unat len \<noteq> 0" using assms(4) by (simp add: unat_eq_0)
  then have se: "?s < ?e" unfolding word_less_nat_alt u(1) a(1) by simp
  define ms where "ms = filter (\<lambda>m. overlaps ?s ?e m \<and> \<not> untouchable m) (tree st)"
  have wf: "tree_wf (tree st)" using assms(1) by (simp add: space_inv_def)
  have cov: "?s \<le> p \<and> p < ?e \<and> (\<exists>m\<in>set ms. covers p m) \<longleftrightarrow> ?s \<le> p \<and> p < ?e \<and> touchable (lookup (tree st) p)" for p
    unfolding touchable_lookup [OF wf] ms_def by (auto simp: overlaps_def covers_def)
  have ms: "distinct ms" "set ms \<subseteq> set (tree st)" "\<forall>m\<in>set ms. overlaps ?s ?e m" using wf_distinct [OF wf] by (auto simp: ms_def)
  have mp: "\<forall>p m. m \<in> set ms \<longrightarrow> ?s \<le> p \<longrightarrow> p < ?e \<longrightarrow> covers p m \<longrightarrow> page_leaf st p \<noteq> None" using assms(6) cov by blast
  from protect_entries_ok [OF assms(1) ms se u(2) assms(5) mp] obtain st' live' where
    r: "protect_entries ?s ?e pr ms st = retR st'" "space_inv st' live'" "obj_byte st' = obj_byte st"
      "\<forall>p. lookup (tree st') p = (if ?s \<le> p \<and> p < ?e \<and> (\<exists>m\<in>set ms. covers p m)
         then map_option (\<lambda>(ob, i, _, fl). (ob, i, pr, fl)) (lookup (tree st) p) else lookup (tree st) p)"
      "\<forall>p. unat p < 2 ^ 35 \<longrightarrow> page_leaf st' p = (if ?s \<le> p \<and> p < ?e \<and> (\<exists>m\<in>set ms. covers p m)
         then map_option (reprotect pr) (page_leaf st p) else page_leaf st p)" by blast
  have "vmspace_protect st address len pr = retR (st', None)" using assms(2) r(1) by (simp add: vmspace_protect_def Let_def ms_def)
  moreover have "lookup (tree st') = space_protect (lookup (tree st)) ?s ?e pr"
    using r(4) unfolding cov by (intro ext) (simp add: space_protect_def)
  ultimately show ?thesis using r(2,3,5) unfolding cov by (intro exI [of _ st'] exI [of _ live']) simp
qed

text \<open>
  Changing the protection of a mapping none of whose pages has been touched yet stops
  the kernel: while there is no page table for the first page of the range, \<open>pmap->protect\<close>
  reports an error and \<open>vmspace::protect\<close> panics.
\<close>

theorem protect_of_untouched_mapping_panics:
  assumes "space_inv st live" "tree st = [m]" "\<not> untouchable m" "address mod 0x1000 = 0"
    and "overlaps (address div 0x1000) (address div 0x1000 + div_roundup len 0x1000) m"
      "address div 0x1000 < address div 0x1000 + div_roundup len 0x1000"
    and "walk_st (vmm st) (pmap st) (butlast (path (max (address div 0x1000) (startp m) * 0x1000))) = None"
  shows "vmspace_protect st address len pr = failR (Panic_msg ''vmm: could not change protection flags'')"
proof -
  let ?s = "address div 0x1000" and ?e = "address div 0x1000 + div_roundup len 0x1000"
  let ?a = "max ?s (startp m)" and ?b = "min ?e (endp m)"
  have wf: "tree_wf (tree st)" and oi: "obj_inv st live" "pages_ok st" and b: "unat (endp m) \<le> 2 ^ 35"
    using assms(1,2) by (auto simp: space_inv_def)
  have o: "?s < endp m" "startp m < ?e" using assms(5) by (auto simp: overlaps_def)
  have ab: "?a < ?b" "unat ?b \<le> 2 ^ 35" using o assms(2,6) wf b by (auto simp: tree_wf_def min_def word_le_nat_alt)
  obtain t where t: "protect_entry ?s ?e pr m st = pmap_protect (st\<lparr>tree := t\<rparr>) (?a * 0x1000) (?b * 0x1000 - ?a * 0x1000) (to_pflags pr)"
    using protect_entry_eq [OF wf _ assms(5,6)] assms(2) by (metis list.set_intros(1))
  let ?len = "?b * 0x1000 - ?a * 0x1000"
  note R = page_range [OF less_imp_le [OF ab(1)] ab(2)]
  have "page_count ?len \<noteq> 0" using R(1) ab(1) by (simp add: word_less_nat_alt)
  then have l: "0 < ?len" by (auto simp: page_count_def word_neq_0_conv [symmetric])
  have so: "small_ok (vmm st) (pmap st) (?a * 0x1000)"
    using oi(2) user_page [of ?a] ab by (simp add: pages_ok_def word_less_nat_alt)
  have "getpte (vmm st) (pmap st) (?a * 0x1000) Small False = retR (vmm st, Inl Invalid_entry)"
    using getpte_find_ok [OF obj_invD(1) [OF oi(1)] so] assms(7) by simp
  then have "protect_loop (vmm st) (pmap st) (?a * 0x1000) ?len fl Small 0 = retR (vmm st, Some Invalid_entry)" for fl
    using l by (simp add: protect_loop.simps [of _ _ _ _ _ _ 0])
  then have "pmap_protect (st\<lparr>tree := t\<rparr>) (?a * 0x1000) ?len (to_pflags pr) = failR (Panic_msg ''vmm: could not change protection flags'')"
    using R(3) aligned_small [of "?a * 0x1000"] by (simp add: pmap_protect_def protect_def)
  then have "protect_entry ?s ?e pr m st = failR (Panic_msg ''vmm: could not change protection flags'')" using t by simp
  then show ?thesis using assms(2-5) by (simp add: vmspace_protect_def Let_def)
qed

section \<open>Sample address spaces\<close>

definition sample_mapping :: mapping where
  "sample_mapping = \<lparr>startp = 0x10, endp = 0x20, obj = 0, offsetp = 5, prot = 3, mflags = 2\<rparr>"

lemma sample_mapping_wf [simp]: "tree_wf [sample_mapping]" "\<not> untouchable sample_mapping"
  by (auto simp: tree_wf_def disjoint_maps_def sample_mapping_def untouchable_def)

lemma sample_space:
  "\<exists>st live. space_inv st live \<and> vroom (vmm st) live 7 \<and> tree st = [sample_mapping] \<and> use_count st 0 = 1 \<and>
     (\<forall>p. indices p \<longrightarrow> p \<noteq> [] \<longrightarrow> walk_st (vmm st) (pmap st) p = None) \<and> (\<exists>st0. pagemap_new st0 True = retR (vmm st, pmap st))"
proof -
  obtain st live st0 where s: "obj_inv st live" "vroom (vmm st) live 7" "held st = (\<lambda>_. 0)"
    "\<forall>va. user_va va \<longrightarrow> small_ok (vmm st) (pmap st) va" "\<forall>p. indices p \<longrightarrow> p \<noteq> [] \<longrightarrow> walk_st (vmm st) (pmap st) p = None"
    "pagemap_new st0 True = retR (vmm st, pmap st)" using sample_objects by blast
  have "unat (endp sample_mapping) \<le> 2 ^ 35" by (simp add: sample_mapping_def)
  then have "space_inv (st\<lparr>tree := [sample_mapping]\<rparr>) live" using s by (simp add: space_inv_def pages_ok_def)
  moreover have "use_count (st\<lparr>tree := [sample_mapping]\<rparr>) 0 = 1" using s(3) by (simp add: use_count_def sample_mapping_def)
  moreover have "\<exists>st0. pagemap_new st0 True = retR (vmm (st\<lparr>tree := [sample_mapping]\<rparr>), pmap (st\<lparr>tree := [sample_mapping]\<rparr>))"
    using s(6) by auto
  ultimately show ?thesis using s(2,5) by (intro exI [of _ "st\<lparr>tree := [sample_mapping]\<rparr>"] exI [of _ live] conjI) simp_all
qed

lemma sample_lookup: "lookup [sample_mapping] p = (if 0x10 \<le> p \<and> p < 0x20 then Some (0, p - 0x10 + 5, 3, 2) else None)"
  by (simp add: lookup_def covers_def view_def sample_mapping_def)

theorem vmspace_unmap_refines_witness:
  "\<exists>st0 st st'. pagemap_new st0 True = retR (vmm st, pmap st) \<and> tree st = [sample_mapping] \<and> vmspace_unmap st 0x14000 0x2000 = retR (st', None) \<and>
     lookup (tree st') 0x13 = Some (0, 8, 3, 2) \<and> lookup (tree st') 0x14 = None \<and> lookup (tree st') 0x16 = Some (0, 11, 3, 2)"
proof -
  obtain st live st0 where s: "space_inv st live" "tree st = [sample_mapping]" "pagemap_new st0 True = retR (vmm st, pmap st)"
    using sample_space by blast
  have d: "div_roundup (0x14000 + 0x2000) 0x1000 = (0x16 :: u64)" by (simp add: div_roundup_def align_down_def)
  from vmspace_unmap_refines [OF s(1), of "0x14000" "0x2000"] obtain st' where
    r: "vmspace_unmap st 0x14000 0x2000 = retR (st', None)" "lookup (tree st') = space_unmap (lookup [sample_mapping]) 0x14 0x16"
    unfolding d s(2) by auto
  have "lookup (tree st') 0x13 = Some (0, 8, 3, 2)" "lookup (tree st') 0x14 = None" "lookup (tree st') 0x16 = Some (0, 11, 3, 2)"
    unfolding r(2) by (simp_all add: space_unmap_def sample_lookup touchable_def)
  then show ?thesis using r(1) s(2,3) by blast
qed

theorem vmspace_map_refines_witness:
  "\<exists>st0 st st'. pagemap_new st0 True = retR (vmm st, pmap st) \<and> tree st = [sample_mapping] \<and> vmspace_map st 0x14000 0x2000 1 1 (Some 1) 0x7000 = retR (st', None) \<and>
     lookup (tree st') 0x13 = Some (0, 8, 3, 2) \<and> lookup (tree st') 0x14 = Some (1, 7, 1, 1) \<and> lookup (tree st') 0x16 = Some (0, 11, 3, 2)"
proof -
  obtain st live st0 where s: "space_inv st live" "tree st = [sample_mapping]" "pagemap_new st0 True = retR (vmm st, pmap st)"
    using sample_space by blast
  have d: "div_roundup (0x14000 + 0x2000) 0x1000 = (0x16 :: u64)" by (simp add: div_roundup_def align_down_def)
  have c: "\<not> untouchable sample_mapping \<and> cuts_well 0x14 0x16 sample_mapping" by (simp add: cuts_well_def sample_mapping_def untouchable_def)
  from vmspace_map_refines [OF s(1), of "0x14000" "0x7000" "0x2000" 1 1 1] c obtain st' where
    r: "vmspace_map st 0x14000 0x2000 1 1 (Some 1) 0x7000 = retR (st', None)" "lookup (tree st') = space_map (lookup [sample_mapping]) 0x14 0x16 1 7 1 1"
    unfolding d s(2) by auto
  have "lookup (tree st') 0x13 = Some (0, 8, 3, 2)" "lookup (tree st') 0x14 = Some (1, 7, 1, 1)" "lookup (tree st') 0x16 = Some (0, 11, 3, 2)"
    unfolding r(2) by (simp_all add: space_map_def sample_lookup)
  then show ?thesis using r(1) s(2,3) by blast
qed

theorem find_free_region_free_witness:
  "\<exists>st. tree st = [sample_mapping] \<and> find_free_region st 0x11000 = 0x20000 \<and> (\<forall>p. 0x20 \<le> p \<longrightarrow> p < 0x31 \<longrightarrow> lookup (tree st) p = None)"
proof -
  obtain st live where s: "space_inv st live" "tree st = [sample_mapping]" using sample_space by blast
  have d: "div_roundup 0x11000 0x1000 = (0x11 :: u64)" by (simp add: div_roundup_def align_down_def)
  have f: "find_free_region st 0x11000 = 0x20000" using s(2) by (simp add: find_free_region_def d sample_mapping_def)
  from find_free_region_free [OF s(1), of "0x11000"] obtain f where
    g: "0x20000 = f * (0x1000 :: u64)" "f = 0 \<or> f = 0x20" "\<forall>p. f \<le> p \<longrightarrow> p < f + 0x11 \<longrightarrow> lookup (tree st) p = None"
    unfolding f d s(2) by (auto simp: sample_mapping_def)
  have "f = 0x20" using g(1,2) by auto
  then show ?thesis using f g(3) s(2) by auto
qed

theorem is_mapped_needs_page_zero_witness:
  "\<exists>st. tree st = [sample_mapping] \<and> lookup (tree st) 0x14 \<noteq> None \<and> \<not> is_mapped st 0x14000 0x1000"
proof -
  obtain st live where s: "space_inv st live" "tree st = [sample_mapping]" using sample_space by blast
  have d: "div_roundup 0x1000 0x1000 = (1 :: u64)" by (simp add: div_roundup_def align_down_def)
  have "lookup (tree st) 0x14 \<noteq> None" unfolding s(2) by (simp add: sample_lookup)
  then show ?thesis using is_mapped_needs_page_zero [of st "0x14000" "0x1000"] s(2) unfolding d by (auto simp: sample_mapping_def)
qed

theorem map_moves_rest_of_mapping_witness:
  "\<exists>st0 st st'. pagemap_new st0 True = retR (vmm st, pmap st) \<and> lookup (tree st) 0x18 = Some (0, 13, 3, 2) \<and>
     vmspace_map st 0xe000 0x4000 1 1 (Some 1) 0 = retR (st', None) \<and> lookup (tree st') 0x18 = Some (0, 15, 3, 2)"
proof -
  obtain st live st0 where s: "space_inv st live" "tree st = [sample_mapping]" "pagemap_new st0 True = retR (vmm st, pmap st)"
    using sample_space by blast
  have d: "div_roundup (0xe000 + 0x4000) 0x1000 = (0x12 :: u64)" by (simp add: div_roundup_def align_down_def)
  have m: "sample_mapping \<in> set (tree st)" "\<forall>x\<in>set (tree st). overlaps 0xe 0x12 x \<longrightarrow> x = sample_mapping" using s(2) by simp_all
  from map_moves_rest_of_mapping [OF s(1) m(1) sample_mapping_wf(2), where address = "0xe000" and len = "0x4000" and offset = 0
      and p = "0x18" and pr = 1 and fl = 1 and ob = 1, unfolded d] m(2)
  obtain st' where "lookup (tree st) 0x18 = Some (0, 13, 3, 2)" "vmspace_map st 0xe000 0x4000 1 1 (Some 1) 0 = retR (st', None)"
    "lookup (tree st') 0x18 = Some (0, 15, 3, 2)" by (auto simp: sample_mapping_def)
  then show ?thesis using s(3) by blast
qed

theorem protect_of_untouched_mapping_panics_witness:
  "\<exists>st. tree st = [sample_mapping] \<and> vmspace_protect st 0x10000 0x1000 1 = failR (Panic_msg ''vmm: could not change protection flags'')"
proof -
  obtain st live where s: "space_inv st live" "tree st = [sample_mapping]" "\<forall>p. indices p \<longrightarrow> p \<noteq> [] \<longrightarrow> walk_st (vmm st) (pmap st) p = None"
    using sample_space by blast
  have d: "div_roundup 0x1000 0x1000 = (1 :: u64)" by (simp add: div_roundup_def align_down_def)
  have "walk_st (vmm st) (pmap st) (butlast (path (0x10 * 0x1000))) = None"
  proof -
    have "user_va (0x10 * 0x1000)" by (simp add: user_va_def)
    then have "indices (butlast (path (0x10 * 0x1000)))" by (rule user_path_butlast)
    moreover have "butlast (path (0x10 * 0x1000)) \<noteq> []" by (simp add: path_eq)
    ultimately show ?thesis using s(3) by blast
  qed
  then show ?thesis using protect_of_untouched_mapping_panics [OF s(1,2) sample_mapping_wf(2), of "0x10000" "0x1000" 1]
    unfolding d using s(2) by (intro exI [of _ st]) (auto simp: sample_mapping_def overlaps_def)
qed

theorem pfault_maps_object_page_witness:
  "\<exists>st0 st st' r x. pagemap_new st0 True = retR (vmm st, pmap st) \<and> tree st = [sample_mapping] \<and> handle_pfault st 0x14321 True = retR (st', r) \<and> map_of (objects st' 0) 9 = Some x \<and>
     translate (vmm st') (pmap st') 0x14000 Small = retR (vmm st', Inr x)"
proof -
  obtain st live st0 where s: "space_inv st live" "vroom (vmm st) live 7" "tree st = [sample_mapping]" "use_count st 0 = 1"
    "pagemap_new st0 True = retR (vmm st, pmap st)" using sample_space by blast
  have m: "sample_mapping \<in> set (tree st)" "covers (0x14321 div 0x1000) sample_mapping" "prot sample_mapping AND prot_read \<noteq> 0"
    "obj sample_mapping = 0" "startp sample_mapping = 0x10" "offsetp sample_mapping = 5"
    using s(3) by (simp_all add: covers_def sample_mapping_def)
  from pfault_maps_object_page [OF s(1) m(1-3), of True] vroom_le [OF s(2), of 4] s(4) m(4-6) obtain st' r x where
    "handle_pfault st 0x14321 True = retR (st', r)" "map_of (objects st' 0) 9 = Some x"
    "translate (vmm st') (pmap st') 0x14000 Small = retR (vmm st', Inr x)" by auto
  then show ?thesis using s(3,5) by blast
qed

lemma sample_touched:
  "\<exists>st live x. space_inv st live \<and> tree st = [sample_mapping] \<and> page_leaf st 0x14 = Some x"
proof -
  obtain st live where s: "space_inv st live" "vroom (vmm st) live 7" "tree st = [sample_mapping]" using sample_space by blast
  have oi: "obj_inv st live" "pages_ok st" using s(1) by (simp_all add: space_inv_def)
  from get_page_ok [OF oi(1), of 0 9] vroom_le [OF s(2), of 1] obtain s1 x l1 where
    g: "obj_inv s1 l1" "obj_frame st s1" "grows 1 (pmap st) (vmm st) live (vmm s1) l1" "map_of (objects s1 0) 9 = Some x" by auto
  have "vroom (vmm st) live (3 + 1)" using vroom_le [OF s(2), of 4] by simp
  then have r3: "vroom (vmm s1) l1 3" using g(3) unfolding grows_def by blast
  have po: "pages_ok s1" by (rule frame_pages_ok [OF g(2) oi(2)])
  have p: "unat (0x14 :: u64) < 2 ^ 35" "(3 :: u8) AND prot_read \<noteq> 0" by simp_all
  from map_object_page_ok [OF g(1) po g(4) p] r3 obtain v' live' where
    v: "obj_inv (s1\<lparr>vmm := v'\<rparr>) live'" "pages_ok (s1\<lparr>vmm := v'\<rparr>)"
      "\<forall>q. unat q < 2 ^ 35 \<longrightarrow> leaf_at v' (pmap s1) (q * 0x1000) =
         (if q = 0x14 then Some (x OR to_arch (to_pflags 3) Write_back Small) else leaf_at (vmm s1) (pmap s1) (q * 0x1000))" by blast
  have "page_leaf (s1\<lparr>vmm := v'\<rparr>) 0x14 = Some (x OR to_arch (to_pflags 3) Write_back Small)" using v(3) [rule_format, of "0x14"] by simp
  moreover have "tree s1 = [sample_mapping]" using g(2) s(3) by (simp add: obj_frame_def)
  ultimately show ?thesis using s(1,3) v(1,2) by (intro exI [of _ "s1\<lparr>vmm := v'\<rparr>"] exI [of _ live']) (simp add: space_inv_def)
qed

theorem vmspace_protect_refines_witness:
  "\<exists>st st' v. tree st = [sample_mapping] \<and> page_leaf st 0x14 = Some v \<and> vmspace_protect st 0x14000 0x1000 1 = retR (st', None) \<and>
     lookup (tree st') 0x13 = Some (0, 8, 3, 2) \<and> lookup (tree st') 0x14 = Some (0, 9, 1, 2) \<and> page_leaf st' 0x14 = Some (reprotect 1 v)"
proof -
  obtain st live v where s: "space_inv st live" "tree st = [sample_mapping]" "page_leaf st 0x14 = Some v" using sample_touched by blast
  have d: "div_roundup 0x1000 0x1000 = (1 :: u64)" by (simp add: div_roundup_def align_down_def)
  have e: "(0x14000 :: u64) div 0x1000 = 0x14" "(0x14 :: u64) + 1 = 0x15" by simp_all
  have "p = 0x14" if "(0x14 :: u64) \<le> p" "p < 0x15" for p
  proof -
    have "unat p = 0x14" using that by (simp add: word_le_nat_alt word_less_nat_alt)
    then show ?thesis by (simp add: word_unat_eq_iff)
  qed
  then have mp: "\<forall>p. 0x14 \<le> p \<longrightarrow> p < 0x15 \<longrightarrow> touchable (lookup (tree st) p) \<longrightarrow> page_leaf st p \<noteq> None" using s(3) by blast
  from vmspace_protect_refines [OF s(1), of "0x14000" "0x1000" 1, unfolded d e, OF _ _ _ _ mp]
  obtain st' where r: "vmspace_protect st 0x14000 0x1000 1 = retR (st', None)" "lookup (tree st') = space_protect (lookup (tree st)) 0x14 0x15 1"
    "\<forall>p. unat p < 2 ^ 35 \<longrightarrow> page_leaf st' p = (if 0x14 \<le> p \<and> p < 0x15 \<and> touchable (lookup (tree st) p) then map_option (reprotect 1) (page_leaf st p) else page_leaf st p)"
    by auto
  have "page_leaf st' 0x14 = Some (reprotect 1 v)" using r(3) [rule_format, of "0x14"] s(2,3) by (simp add: sample_lookup touchable_def)
  then show ?thesis using r(1,2) s(2,3) by (auto simp: space_protect_def sample_lookup touchable_def)
qed

end
