(* ===== verification/Vfs.thy ===== *)
theory Vfs
  imports Vmm
begin

text \<open>
  The virtual file system: \<^verbatim>\<open>kernel/source/system/vfs.cpp\<close> with its types
  (\<^verbatim>\<open>interfaces/system/vfs.cppm\<close>, \<^verbatim>\<open>interfaces/lib/stat.cppm\<close>), the file systems behind it
  (\<^verbatim>\<open>drivers/fs/tmpfs.cpp\<close>, \<^verbatim>\<open>drivers/fs/devtmpfs.cpp\<close>), and character devices
  (\<^verbatim>\<open>system/dev.cpp\<close>, \<^verbatim>\<open>drivers/fs/dev/mem.cpp\<close>).

  Directory entries, inodes, mounts, file system instances and open files are numbered; the
  state maps the numbers to their contents, so that shared pointers to the same entry are equal
  numbers. Contents of files are memory objects of the virtual memory manager. Storage of entries
  that nothing refers to any more is not reclaimed in the model. Time stamps, locks and log
  messages are left out. The path functions of the cwalk library are the parameter \<open>cwalk\<close>;
  every function that takes a \<open>lib::path\<close> by value normalises it, as its copy constructor does.
\<close>

section \<open>Data\<close>

datatype vfs_error =
    Todo | Already_exists | Not_found | Not_a_dir | Not_a_block | Symloop_max | Target_is_a_dir
  | Target_is_busy | Dir_not_empty | Different_filesystem | Invalid_filesystem | Invalid_mount
  | Invalid_symlink | Invalid_device | Invalid_type

record stat =
  st_dev :: u64
  st_ino :: u64
  st_mode :: u32
  st_nlink :: u64
  st_uid :: u32
  st_gid :: u32
  st_rdev :: u64
  st_size :: u64
  st_blksize :: u64
  st_blocks :: u64

abbreviation (input) s_ifmt :: u32 where "s_ifmt \<equiv> 0xF000"
abbreviation (input) s_iflnk :: u32 where "s_iflnk \<equiv> 0xA000"
abbreviation (input) s_ifreg :: u32 where "s_ifreg \<equiv> 0x8000"
abbreviation (input) s_ifblk :: u32 where "s_ifblk \<equiv> 0x6000"
abbreviation (input) s_ifdir :: u32 where "s_ifdir \<equiv> 0x4000"
abbreviation (input) s_ifchr :: u32 where "s_ifchr \<equiv> 0x2000"

definition mode_type :: "u32 \<Rightarrow> u32" where
  "mode_type mode = mode AND s_ifmt"

definition stat_type :: "stat \<Rightarrow> u32" where
  "stat_type s = mode_type (st_mode s)"

definition stat_mode :: "stat \<Rightarrow> u32" where
  "stat_mode s = st_mode s AND NOT s_ifmt"

text \<open>
  Operations of a file: the classes derived from \<open>vfs::ops\<close> of tmpfs and of the memory devices. The
  one of \<^verbatim>\<open>drivers/fs/dev/tty.cpp\<close> is left out with the terminals.
\<close>

datatype ops = Tmpfs_ops | Null_ops | Zero_ops | Full_ops | Random_ops

record inode =
  iop :: "ops option"
  istat :: stat
  memory :: nat

record vpath =
  mnt :: "nat option"
  dent :: nat

text \<open>
  An entry. In the code its parent is a weak pointer, which expires when the parent is destroyed; entries are never reclaimed
  here, so \<open>dparent\<close> does not expire. Below an open entry whose directory has been removed, \<open>..\<close> and the path name
  differ from the code for that reason.
\<close>

record dentry =
  dname :: string
  symlinked_to :: string
  dinode :: "nat option"
  dparent :: "nat option"
  children :: "(string \<times> nat) list"
  child_mounts :: "nat list"

record instance_data =
  next_inode :: u64
  dev_id :: u64

record mount =
  mfs :: nat
  mroot :: nat
  mounted_on :: "vpath option"

datatype filesystem = Tmpfs | Devtmpfs nat nat

record open_file =
  fpath :: vpath
  foffset :: u64
  fflags :: u32

record filedesc =
  dfile :: nat
  closexec :: bool

record process =
  proot :: vpath
  cwd :: vpath
  umask :: u32
  ruid :: u32
  rgid :: u32
  euid :: u32
  egid :: u32
  fds :: "(int \<times> filedesc) list"
  next_fd :: int

text \<open>Descriptor numbers are unbounded integers; \<open>next_fd\<close> is an \<open>int\<close> in the code.\<close>

record vfs =
  memst :: vms
  dentries :: "nat \<Rightarrow> dentry"
  next_dentry :: nat
  inodes :: "nat \<Rightarrow> inode"
  next_inode_id :: nat
  instances :: "nat \<Rightarrow> instance_data"
  next_instance :: nat
  mounts :: "nat \<Rightarrow> mount"
  next_mount :: nat
  next_dev :: u64
  filesystems :: "(string \<times> filesystem) list"
  cdev_table :: "(u64 \<times> ops) list"
  files :: "nat \<Rightarrow> open_file"
  next_file :: nat
  entropy :: "nat \<Rightarrow> u8"
  sched_initialised :: bool
  proc :: process

record cwalk =
  cwk_normalize :: "string \<Rightarrow> string"
  cwk_basename :: "string \<Rightarrow> string"
  cwk_dirname :: "string \<Rightarrow> string"
  cwk_is_absolute :: "string \<Rightarrow> bool"

abbreviation (input) symloop_max :: nat where "symloop_max \<equiv> 40"

text \<open>The root entry \<open>vfs::root\<close> has number 0 and is its own parent.\<close>

abbreviation (input) vfs_root :: nat where "vfs_root \<equiv> 0"

definition inode_of :: "vfs \<Rightarrow> nat \<Rightarrow> inode" where
  "inode_of st d = inodes st (the (dinode (dentries st d)))"

definition set_dentry :: "nat \<Rightarrow> dentry \<Rightarrow> vfs \<Rightarrow> vfs" where
  "set_dentry d e st = st\<lparr>dentries := (dentries st)(d := e)\<rparr>"

definition set_inode :: "nat \<Rightarrow> inode \<Rightarrow> vfs \<Rightarrow> vfs" where
  "set_inode i n st = st\<lparr>inodes := (inodes st)(i := n)\<rparr>"

text \<open>Assignment through \<open>operator[]\<close> of a hash map; its order does not matter.\<close>

definition map_set :: "'k \<Rightarrow> 'v \<Rightarrow> ('k \<times> 'v) list \<Rightarrow> ('k \<times> 'v) list" where
  "map_set k v xs = (k, v) # filter (\<lambda>x. fst x \<noteq> k) xs"

definition map_erase :: "'k \<Rightarrow> ('k \<times> 'v) list \<Rightarrow> ('k \<times> 'v) list" where
  "map_erase k xs = filter (\<lambda>x. fst x \<noteq> k) xs"

section \<open>Character devices\<close>

definition dev_major :: "u64 \<Rightarrow> u32" where
  "dev_major d = ucast (drop_bit 8 (d AND 0x00000000000FFF00) OR drop_bit 32 (d AND 0xFFFFF00000000000))"

definition dev_minor :: "u64 \<Rightarrow> u32" where
  "dev_minor d = ucast ((d AND 0x00000000000000FF) OR drop_bit 12 (d AND 0x00000FFFFFF00000))"

definition makedev :: "u32 \<Rightarrow> u32 \<Rightarrow> u64" where
  "makedev maj mi =
     push_bit 8 (ucast maj AND 0x00000FFF) OR push_bit 32 (ucast maj AND 0xFFFFF000) OR
     (ucast mi AND 0x000000FF) OR push_bit 12 (ucast mi AND 0xFFFFFF00)"

definition register_cdev :: "vfs \<Rightarrow> ops \<Rightarrow> u64 \<Rightarrow> vfs \<times> bool" where
  "register_cdev st op d =
     (case map_of (cdev_table st) d of
        Some _ \<Rightarrow> (st, False)
      | None \<Rightarrow> (st\<lparr>cdev_table := (d, op) # cdev_table st\<rparr>, True))"

definition get_cdev_ops :: "vfs \<Rightarrow> u64 \<Rightarrow> ops option" where
  "get_cdev_ops st d = map_of (cdev_table st) d"

definition memfiles_register :: "vfs \<Rightarrow> vfs" where
  "memfiles_register st =
     (let st = fst (register_cdev st Null_ops (makedev 1 3));
          st = fst (register_cdev st Zero_ops (makedev 1 5));
          st = fst (register_cdev st Full_ops (makedev 1 7));
          st = fst (register_cdev st Random_ops (makedev 1 8))
      in fst (register_cdev st Random_ops (makedev 1 9)))"

section \<open>tmpfs\<close>

text \<open>The constructor of a tmpfs inode: a new memory object, which the inode keeps.\<close>

definition tmpfs_inode :: "vfs \<Rightarrow> u64 \<Rightarrow> u64 \<Rightarrow> u32 \<Rightarrow> ops \<Rightarrow> vfs \<times> nat" where
  "tmpfs_inode st dv ino mode op =
     (let (m, ob) = new_memobject (memst st);
          m = m\<lparr>held := (held m)(ob := 1)\<rparr>;
          s = \<lparr>st_dev = dv, st_ino = ino, st_mode = mode, st_nlink = 1, st_uid = euid (proc st), st_gid = egid (proc st),
               st_rdev = 0, st_size = 0, st_blksize = 512, st_blocks = 0\<rparr>;
          i = next_inode_id st
      in (set_inode i \<lparr>iop = Some op, istat = s, memory = ob\<rparr> (st\<lparr>memst := m, next_inode_id := i + 1\<rparr>), i))"

definition tmpfs_read :: "vfs \<Rightarrow> nat \<Rightarrow> u64 \<Rightarrow> u64 \<Rightarrow> (vfs \<times> u64 \<times> u8 list) run" where
  "tmpfs_read st i offset sz =
     (let s = istat (inodes st i);
          real_size = (if offset + sz \<ge> st_size s then sz - (offset + sz - st_size s) else sz)
      in if real_size = 0 then retR (st, 0, [])
         else if real_size > sz then failR Out_of_span
         else bindR (object_read (memst st) (memory (inodes st i)) offset real_size) (\<lambda>(m, _, bs).
                retR (st\<lparr>memst := m\<rparr>, real_size, bs)))"

definition set_size :: "u64 \<Rightarrow> nat \<Rightarrow> vfs \<Rightarrow> vfs" where
  "set_size sz i st =
     (let n = inodes st i; s = istat n
      in set_inode i (n\<lparr>istat := s\<lparr>st_size := sz, st_blocks := div_roundup sz (st_blksize s)\<rparr>\<rparr>) st)"

definition tmpfs_write :: "vfs \<Rightarrow> nat \<Rightarrow> u64 \<Rightarrow> u8 list \<Rightarrow> (vfs \<times> u64) run" where
  "tmpfs_write st i offset buffer =
     (let sz = of_nat (length buffer)
      in bindR (object_write (memst st) (memory (inodes st i)) offset buffer) (\<lambda>(m, _).
           let st = st\<lparr>memst := m\<rparr>
           in retR (if offset + sz \<ge> st_size (istat (inodes st i)) then set_size (offset + sz) i st else st, sz)))"

definition tmpfs_trunc :: "vfs \<Rightarrow> nat \<Rightarrow> u64 \<Rightarrow> (vfs \<times> bool) run" where
  "tmpfs_trunc st i sz =
     (let current_size = st_size (istat (inodes st i)); ob = memory (inodes st i)
      in if sz = current_size then retR (st, True)
         else bindR (if sz < current_size then object_clear (memst st) ob sz 0 (current_size - sz)
                     else object_clear (memst st) ob current_size 0 (sz - current_size)) (\<lambda>(m, _).
                retR (set_size sz i (st\<lparr>memst := m\<rparr>), True)))"

definition tmpfs_map :: "vfs \<Rightarrow> nat \<Rightarrow> bool \<Rightarrow> (vfs \<times> nat option) run" where
  "tmpfs_map st i priv =
     (let n = inodes st i
      in if priv
         then let (m, ob) = new_memobject (memst st)
              in bindR (copy_to m (memory n) ob 0 (st_size (istat n))) (\<lambda>(m, _). retR (st\<lparr>memst := m\<rparr>, Some ob))
         else retR (st, Some (memory n)))"

text \<open>The instance of a tmpfs or devtmpfs.\<close>

definition new_instance :: "vfs \<Rightarrow> vfs \<times> nat" where
  "new_instance st =
     (let k = next_instance st
      in (st\<lparr>instances := (instances st)(k := \<lparr>next_inode = 1, dev_id = next_dev st\<rparr>), next_instance := k + 1,
             next_dev := next_dev st + 1\<rparr>, k))"

definition instance_create :: "vfs \<Rightarrow> nat \<Rightarrow> u32 \<Rightarrow> ops option \<Rightarrow> vfs \<times> nat" where
  "instance_create st k mode op =
     (let f = instances st k;
          st = st\<lparr>instances := (instances st)(k := f\<lparr>next_inode := next_inode f + 1\<rparr>)\<rparr>
      in tmpfs_inode st (dev_id f) (next_inode f) mode (case op of None \<Rightarrow> Tmpfs_ops | Some q \<Rightarrow> q))"

definition instance_symlink :: "vfs \<Rightarrow> nat \<Rightarrow> vfs \<times> nat" where
  "instance_symlink st k = instance_create st k s_iflnk None"

definition add_nlink :: "u64 \<Rightarrow> nat \<Rightarrow> vfs \<Rightarrow> vfs" where
  "add_nlink d i st =
     (let n = inodes st i; s = istat n in set_inode i (n\<lparr>istat := s\<lparr>st_nlink := st_nlink s + d\<rparr>\<rparr>) st)"

definition instance_link :: "vfs \<Rightarrow> nat \<Rightarrow> vfs \<times> nat" where
  "instance_link st target = (add_nlink 1 target st, target)"

definition instance_unlink :: "vfs \<Rightarrow> nat \<Rightarrow> vfs" where
  "instance_unlink st node = add_nlink (- 1) node st"

definition instance_populate :: "vfs \<Rightarrow> nat \<Rightarrow> string \<Rightarrow> vfs_error + (string \<times> nat) list" where
  "instance_populate st node name = Inl Todo"

definition new_dentry :: "dentry \<Rightarrow> vfs \<Rightarrow> vfs \<times> nat" where
  "new_dentry e st = (set_dentry (next_dentry st) e (st\<lparr>next_dentry := next_dentry st + 1\<rparr>), next_dentry st)"

definition new_root :: "string \<Rightarrow> nat \<Rightarrow> vfs \<Rightarrow> vfs \<times> nat" where
  "new_root name k st =
     (let (st, i) = instance_create st k s_ifdir (Some Tmpfs_ops)
      in new_dentry \<lparr>dname = name, symlinked_to = [], dinode = Some i, dparent = None, children = [], child_mounts = []\<rparr> st)"

definition new_mount :: "nat \<Rightarrow> nat \<Rightarrow> vfs \<Rightarrow> vfs \<times> nat" where
  "new_mount k r st =
     (let m = next_mount st
      in (st\<lparr>mounts := (mounts st)(m := \<lparr>mfs = k, mroot = r, mounted_on = None\<rparr>), next_mount := m + 1\<rparr>, m))"

definition tmpfs_mount :: "vfs \<Rightarrow> vfs \<times> nat" where
  "tmpfs_mount st =
     (let (st, k) = new_instance st;
          (st, r) = new_root ''tmpfs root. this shouldn't be visible anywhere'' k st
      in new_mount k r st)"

definition devtmpfs_new :: "vfs \<Rightarrow> vfs \<times> filesystem" where
  "devtmpfs_new st =
     (let (st, k) = new_instance st;
          (st, r) = new_root ''devtmpfs root. this shouldn't be visible anywhere'' k st
      in (st, Devtmpfs k r))"

definition fs_mount :: "filesystem \<Rightarrow> vfs \<Rightarrow> vfs \<times> nat" where
  "fs_mount f st = (case f of Tmpfs \<Rightarrow> tmpfs_mount st | Devtmpfs k r \<Rightarrow> new_mount k r st)"

section \<open>Mounts and roots\<close>

definition get_root :: "vfs \<Rightarrow> bool \<Rightarrow> vpath" where
  "get_root st absolute =
     (if \<not> absolute \<and> sched_initialised st then proot (proc st)
      else let ret = \<lparr>mnt = None, dent = vfs_root\<rparr>
           in case child_mounts (dentries st vfs_root) of [] \<Rightarrow> ret | m # _ \<Rightarrow> ret\<lparr>mnt := Some m\<rparr>)"

definition register_fs :: "vfs \<Rightarrow> string \<Rightarrow> filesystem \<Rightarrow> vfs \<times> bool" where
  "register_fs st name f =
     (case map_of (filesystems st) name of
        Some _ \<Rightarrow> (st, False)
      | None \<Rightarrow> (st\<lparr>filesystems := map_set name f (filesystems st)\<rparr>, True))"

definition find_fs :: "vfs \<Rightarrow> string \<Rightarrow> vfs_error + filesystem" where
  "find_fs st name = (case map_of (filesystems st) name of None \<Rightarrow> Inl Invalid_filesystem | Some f \<Rightarrow> Inr f)"

text \<open>From the root of a mounted file system to the place it is mounted on.\<close>

partial_function (option) resolve_mounts :: "vfs \<Rightarrow> vpath \<Rightarrow> vpath run" where
  "resolve_mounts st p =
     (case mnt p of None \<Rightarrow> failR Null_deref
      | Some m \<Rightarrow>
          if dent p = mroot (mounts st m)
          then case mounted_on (mounts st m) of
                 None \<Rightarrow> failR (Panic_msg ''bad optional access'')
               | Some q \<Rightarrow> resolve_mounts st q
          else retR p)"

definition parent_path :: "vfs \<Rightarrow> vpath \<Rightarrow> vpath run" where
  "parent_path st p = (case dparent (dentries st (dent p)) of None \<Rightarrow> failR Null_deref | Some d \<Rightarrow> retR (p\<lparr>dent := d\<rparr>))"

text \<open>From an entry to the root of what is mounted on it.\<close>

partial_function (option) cross_mounts :: "vfs \<Rightarrow> nat option \<Rightarrow> nat \<Rightarrow> vpath run" where
  "cross_mounts st m d =
     (case find (\<lambda>k. case mounted_on (mounts st k) of None \<Rightarrow> False | Some q \<Rightarrow> m = mnt q) (child_mounts (dentries st d)) of
        None \<Rightarrow> retR \<lparr>mnt = m, dent = d\<rparr>
      | Some k \<Rightarrow> cross_mounts st (Some k) (mroot (mounts st k)))"

partial_function (option) pathname_loop :: "vfs \<Rightarrow> vpath \<Rightarrow> string list \<Rightarrow> string list run" where
  "pathname_loop st p segs =
     bindR (resolve_mounts st p) (\<lambda>p.
       if dent p = vfs_root then retR segs
       else bindR (parent_path st p) (\<lambda>q. pathname_loop st q (dname (dentries st (dent p)) # segs)))"

definition pathname_from :: "vfs \<Rightarrow> vpath \<Rightarrow> string run" where
  "pathname_from st p =
     bindR (pathname_loop st p []) (\<lambda>segs.
       let result = concat (map (\<lambda>s. CHR ''/'' # s) segs) in retR (if result = [] then ''/'' else result))"

section \<open>Looking up paths\<close>

text \<open>\<open>std::views::split\<close> at slashes.\<close>

fun split_slash :: "string \<Rightarrow> string list" where
  "split_slash [] = [[]]"
| "split_slash (c # cs) =
     (if c = CHR ''/'' then [] # split_slash cs
      else case split_slash cs of [] \<Rightarrow> [[c]] | x # xs \<Rightarrow> (c # x) # xs)"

definition segments :: "string \<Rightarrow> string list" where
  "segments p = (if p = [] then [] else split_slash p)"

fun populate_children :: "nat \<Rightarrow> (string \<times> nat) list \<Rightarrow> vfs \<Rightarrow> vfs" where
  "populate_children par [] st = st"
| "populate_children par ((name, i) # xs) st =
     (let (st, d) = new_dentry \<lparr>dname = name, symlinked_to = [], dinode = Some i, dparent = Some par, children = [], child_mounts = []\<rparr> st;
          e = dentries st par
      in populate_children par xs (set_dentry par (e\<lparr>children := map_set name d (children e)\<rparr>) st))"

definition populate :: "vfs \<Rightarrow> vpath \<Rightarrow> string \<Rightarrow> (vfs \<times> bool) run" where
  "populate st parent name =
     (case mnt parent of None \<Rightarrow> failR Null_deref
      | Some m \<Rightarrow> retR (case instance_populate st (the (dinode (dentries st (dent parent)))) name of
          Inl _ \<Rightarrow> (st, False)
        | Inr xs \<Rightarrow> if xs = [] then (st, False) else (populate_children (dent parent) xs st, True)))"

definition is_symlink :: "vfs \<Rightarrow> vpath \<Rightarrow> bool" where
  "is_symlink st p \<longleftrightarrow> stat_type (istat (inode_of st (dent p))) = s_iflnk \<and> symlinked_to (dentries st (dent p)) \<noteq> []"

text \<open>
  \<open>resolve\<close> and \<open>reduce\<close> call each other, and \<open>resolve\<close> loops over the segments of its path:
  \<open>lookup_path\<close> is all three. The result is the pair \<open>resolve_res\<close> of parent and target;
  for \<open>reduce\<close> the target is its result.
\<close>

datatype request =
    Resolve "vpath option" string
  | Segments vpath "string list"
  | Reduce nat vpath vpath nat

partial_function (option) lookup_path :: "cwalk \<Rightarrow> vfs \<Rightarrow> request \<Rightarrow> (vfs \<times> (vfs_error + vpath \<times> vpath)) run" where
  "lookup_path c st req =
     (case req of
        Resolve parent pn \<Rightarrow>
          let pn = cwk_normalize c pn;
              parent = (if parent = None \<or> cwk_is_absolute c pn then get_root st False else the parent)
          in if pn = ''/'' \<or> pn = [] \<or> pn = ''.'' then retR (st, Inr (parent, parent))
             else if mnt parent = None then failR Bug_on
             else lookup_path c st (Segments parent (segments pn))
      | Segments current [] \<Rightarrow> retR (st, Inl Not_found)
      | Segments current (segment # rest) \<Rightarrow>
          if segment = [] then lookup_path c st (Segments current rest)
          else if segment = ''..'' then
            bindR (resolve_mounts st current) (\<lambda>current.
            bindR (parent_path st current) (\<lambda>current.
            bindR (resolve_mounts st current) (\<lambda>current.
              if rest = []
              then bindR (resolve_mounts st current) (\<lambda>parent.
                   bindR (parent_path st parent) (\<lambda>parent.
                   bindR (resolve_mounts st parent) (\<lambda>parent. retR (st, Inr (parent, current)))))
              else lookup_path c st (Segments current rest))))
          else (case map_of (children (dentries st (dent current))) segment of
              Some d \<Rightarrow>
                bindR (cross_mounts st (mnt current) d) (\<lambda>next.
                  if rest = [] then retR (st, Inr (current, next))
                  else bindR (if stat_type (istat (inode_of st (dent next))) = s_iflnk
                              then lookup_path c st (Reduce symloop_max current next symloop_max)
                              else retR (st, Inr (current, next))) (\<lambda>(st, r).
                    case r of Inl e \<Rightarrow> retR (st, Inl e)
                    | Inr (_, next) \<Rightarrow>
                        if stat_type (istat (inode_of st (dent next))) \<noteq> s_ifdir then retR (st, Inl Not_a_dir)
                        else lookup_path c st (Segments next rest)))
            | None \<Rightarrow>
                bindR (populate st current segment) (\<lambda>(st, again).
                  if again then lookup_path c st (Segments current (segment # rest)) else retR (st, Inl Not_found)))
      | Reduce og parent src depth \<Rightarrow>
          (case depth of
             0 \<Rightarrow> retR (st, if og \<noteq> 0 \<and> is_symlink st src then Inl Symloop_max else Inr (parent, src))
           | Suc d \<Rightarrow>
               if \<not> is_symlink st src then retR (st, Inr (parent, src))
               else bindR (lookup_path c st (Resolve (Some parent) (symlinked_to (dentries st (dent src))))) (\<lambda>(st, r).
                 case r of Inl _ \<Rightarrow> retR (st, Inl Invalid_symlink)
                 | Inr (p, t) \<Rightarrow>
                     if dent t = dent src then retR (st, Inl Invalid_symlink)
                     else lookup_path c st (Reduce og p t d))))"

definition resolve :: "cwalk \<Rightarrow> vfs \<Rightarrow> vpath option \<Rightarrow> string \<Rightarrow> (vfs \<times> (vfs_error + vpath \<times> vpath)) run" where
  "resolve c st parent pn = lookup_path c st (Resolve parent pn)"

definition reduce :: "cwalk \<Rightarrow> vfs \<Rightarrow> vpath \<Rightarrow> vpath \<Rightarrow> nat \<Rightarrow> (vfs \<times> (vfs_error + vpath)) run" where
  "reduce c st parent src symlink_depth =
     bindR (lookup_path c st (Reduce symlink_depth parent src symlink_depth)) (\<lambda>(st, r). retR (st, map_sum id snd r))"

definition path_for :: "cwalk \<Rightarrow> vfs \<Rightarrow> string \<Rightarrow> (vfs \<times> (vfs_error + vpath)) run" where
  "path_for c st pn =
     (let parent = (if sched_initialised st then Some (proot (proc st)) else None)
      in bindR (resolve c st parent pn) (\<lambda>(st, r). retR (st, map_sum id snd r)))"

section \<open>Changing the tree\<close>

definition vfs_mount :: "cwalk \<Rightarrow> vfs \<Rightarrow> string \<Rightarrow> string \<Rightarrow> string \<Rightarrow> (vfs \<times> (vfs_error + unit)) run" where
  "vfs_mount c st source target fstype =
     (case find_fs st fstype of Inl e \<Rightarrow> retR (st, Inl e)
      | Inr f \<Rightarrow>
          let source = cwk_normalize c source
          in bindR (if source \<noteq> []
                    then bindR (path_for c st source) (\<lambda>(st, r).
                      case r of Inl e \<Rightarrow> retR (st, Inl e)
                      | Inr s \<Rightarrow> retR (st, if stat_type (istat (inode_of st (dent s))) \<noteq> s_ifblk then Inl Not_a_block else Inr ()))
                    else retR (st, Inr ())) (\<lambda>(st, r).
               case r of Inl e \<Rightarrow> retR (st, Inl e)
               | Inr _ \<Rightarrow>
                   bindR (path_for c st target) (\<lambda>(st, r).
                     case r of Inl e \<Rightarrow> retR (st, Inl e)
                     | Inr t \<Rightarrow>
                         if stat_type (istat (inode_of st (dent t))) \<noteq> s_ifdir then retR (st, Inl Not_a_dir)
                         else let (st, m) = fs_mount f st;
                                  st = st\<lparr>mounts := (mounts st)(m := (mounts st m)\<lparr>mounted_on := Some t\<rparr>)\<rparr>;
                                  e = dentries st (dent t)
                              in retR (set_dentry (dent t) (e\<lparr>child_mounts := child_mounts e @ [m]\<rparr>) st, Inr ()))))"

definition vfs_unmount :: "vfs \<Rightarrow> string \<Rightarrow> vfs_error + unit" where
  "vfs_unmount st target = Inl Todo"

text \<open>Entering a new dentry for an inode into a directory.\<close>

definition enter_child :: "vpath \<Rightarrow> string \<Rightarrow> string \<Rightarrow> nat \<Rightarrow> vfs \<Rightarrow> vfs \<times> vpath" where
  "enter_child real_parent name link i st =
     (let (st, d) = new_dentry \<lparr>dname = name, symlinked_to = link, dinode = Some i, dparent = Some (dent real_parent),
                                children = [], child_mounts = []\<rparr> st;
          e = dentries st (dent real_parent)
      in (set_dentry (dent real_parent) (e\<lparr>children := map_set name d (children e)\<rparr>) st, real_parent\<lparr>dent := d\<rparr>))"

text \<open>The common beginning of \<open>create\<close>, \<open>symlink\<close> and \<open>link\<close>: the name must be new, its directory must exist.\<close>

definition new_name :: "cwalk \<Rightarrow> vfs \<Rightarrow> vpath option \<Rightarrow> string \<Rightarrow> (vfs \<times> (vfs_error + vpath)) run" where
  "new_name c st parent pn =
     bindR (resolve c st parent pn) (\<lambda>(st, r).
       case r of Inr _ \<Rightarrow> retR (st, Inl Already_exists)
       | Inl _ \<Rightarrow>
           bindR (resolve c st parent (cwk_normalize c (cwk_dirname c pn))) (\<lambda>(st, r). retR (st, map_sum id snd r)))"

definition vfs_create :: "cwalk \<Rightarrow> vfs \<Rightarrow> vpath option \<Rightarrow> string \<Rightarrow> u32 \<Rightarrow> u64 \<Rightarrow> (vfs \<times> (vfs_error + vpath)) run" where
  "vfs_create c st parent pn mode dv =
     (let pn = cwk_normalize c pn; ty = mode_type mode; op = (if dv \<noteq> 0 then get_cdev_ops st dv else None)
      in if dv \<noteq> 0 \<and> ty \<noteq> s_ifchr \<and> ty \<noteq> s_ifblk then retR (st, Inl Invalid_type)
         else if dv \<noteq> 0 \<and> op = None then retR (st, Inl Invalid_device)
         else bindR (new_name c st parent pn) (\<lambda>(st, r).
           case r of Inl e \<Rightarrow> retR (st, Inl e)
           | Inr real_parent \<Rightarrow>
               (case mnt real_parent of None \<Rightarrow> failR Null_deref
                | Some m \<Rightarrow>
                    let name = cwk_normalize c (cwk_basename c pn);
                        (st, i) = instance_create st (mfs (mounts st m)) mode op;
                        (st, q) = enter_child real_parent name [] i st
                    in retR (st, Inr q))))"

definition vfs_symlink :: "cwalk \<Rightarrow> vfs \<Rightarrow> vpath option \<Rightarrow> string \<Rightarrow> string \<Rightarrow> (vfs \<times> (vfs_error + vpath)) run" where
  "vfs_symlink c st parent src target =
     (let src = cwk_normalize c src; target = cwk_normalize c target
      in bindR (new_name c st parent src) (\<lambda>(st, r).
           case r of Inl e \<Rightarrow> retR (st, Inl e)
           | Inr real_parent \<Rightarrow>
               (case mnt real_parent of None \<Rightarrow> failR Null_deref
                | Some m \<Rightarrow>
                    let name = cwk_normalize c (cwk_basename c src);
                        (st, i) = instance_symlink st (mfs (mounts st m));
                        (st, q) = enter_child real_parent name target i st
                    in retR (st, Inr q))))"

text \<open>The tests after following the target look at the target before following it, as the code does.\<close>

definition vfs_link :: "cwalk \<Rightarrow> vfs \<Rightarrow> vpath option \<Rightarrow> string \<Rightarrow> vpath option \<Rightarrow> string \<Rightarrow> bool \<Rightarrow> (vfs \<times> (vfs_error + vpath)) run" where
  "vfs_link c st parent src tgtparent target follow_links =
     (let src = cwk_normalize c src
      in bindR (new_name c st parent src) (\<lambda>(st, r).
           case r of Inl e \<Rightarrow> retR (st, Inl e)
           | Inr real_parent \<Rightarrow>
               bindR (resolve c st tgtparent target) (\<lambda>(st, r).
                 case r of Inl e \<Rightarrow> retR (st, Inl e)
                 | Inr (tp, tgt) \<Rightarrow>
                     bindR (if follow_links \<and> stat_type (istat (inode_of st (dent tgt))) = s_iflnk
                            then reduce c st tp tgt symloop_max else retR (st, Inr tgt)) (\<lambda>(st, r).
                       case r of Inl e \<Rightarrow> retR (st, Inl e)
                       | Inr _ \<Rightarrow>
                           if stat_type (istat (inode_of st (dent tgt))) = s_ifdir then retR (st, Inl Target_is_a_dir)
                           else if mnt real_parent \<noteq> mnt tgt then retR (st, Inl Different_filesystem)
                           else (case mnt real_parent of None \<Rightarrow> failR Null_deref
                             | Some m \<Rightarrow>
                                 let name = cwk_normalize c (cwk_basename c src);
                                     (st, i) = instance_link st (the (dinode (dentries st (dent tgt))));
                                     (st, q) = enter_child real_parent name [] i st
                                 in retR (st, Inr q))))))"

definition vfs_unlink :: "cwalk \<Rightarrow> vfs \<Rightarrow> vpath option \<Rightarrow> string \<Rightarrow> (vfs \<times> (vfs_error + unit)) run" where
  "vfs_unlink c st parent pn =
     (let pn = cwk_normalize c pn
      in bindR (resolve c st parent pn) (\<lambda>(st, r).
           case r of Inl e \<Rightarrow> retR (st, Inl e)
           | Inr (real_parent, target) \<Rightarrow>
               let name = cwk_normalize c (cwk_basename c pn)
               in bindR (if stat_type (istat (inode_of st (dent target))) = s_ifdir
                         then (case mnt target of None \<Rightarrow> failR Null_deref
                           | Some m \<Rightarrow>
                               if dent target = mroot (mounts st m) then retR (st, Inl Target_is_busy)
                               else if children (dentries st (dent target)) \<noteq> [] then retR (st, Inl Dir_not_empty)
                               else bindR (populate st target []) (\<lambda>(st, _).
                                 retR (st, if children (dentries st (dent target)) \<noteq> [] then Inl Dir_not_empty else Inr ())))
                         else retR (st, Inr ())) (\<lambda>(st, r).
                    case r of Inl e \<Rightarrow> retR (st, Inl e)
                    | Inr _ \<Rightarrow>
                        if mnt target = None then failR Null_deref
                        else let st = instance_unlink st (the (dinode (dentries st (dent target))));
                                 e = dentries st (dent real_parent)
                             in if map_of (children e) name = None then failR Bug_on
                                else retR (set_dentry (dent real_parent) (e\<lparr>children := map_erase name (children e)\<rparr>) st, Inr ()))))"

definition check_access :: "u32 \<Rightarrow> u32 \<Rightarrow> stat \<Rightarrow> u32 \<Rightarrow> bool" where
  "check_access uid gid s mode =
     (if mode = 0 then True
      else if uid = 0
      then mode AND 1 = 0 \<or> stat_type s = s_ifdir \<or> st_mode s AND 0x49 \<noteq> 0
      else let (rbit, wbit, xbit) =
                 (if uid = st_uid s then (0x100, 0x80, 0x40)
                  else if gid = st_gid s then (0x20, 0x10, 0x08)
                  else (0x04, 0x02, 0x01))
           in if mode AND 4 \<noteq> 0 \<and> st_mode s AND rbit = 0 then False
              else if mode AND 2 \<noteq> 0 \<and> st_mode s AND wbit = 0 then False
              else if mode AND 1 \<noteq> 0 \<and> st_mode s AND xbit = 0 then False
              else True)"

definition vfs_stat :: "cwalk \<Rightarrow> vfs \<Rightarrow> vpath option \<Rightarrow> string \<Rightarrow> (vfs \<times> (vfs_error + stat)) run" where
  "vfs_stat c st parent pn =
     bindR (resolve c st parent pn) (\<lambda>(st, r). retR (st, map_sum id (\<lambda>(_, t). istat (inode_of st (dent t))) r))"

text \<open>The task that mounts the root file system.\<close>

definition mount_root :: "cwalk \<Rightarrow> vfs \<Rightarrow> vfs run" where
  "mount_root c st =
     bindR (vfs_mount c st [] ''/'' ''tmpfs'') (\<lambda>(st, r).
       case r of Inl _ \<Rightarrow> failR Bug_on
       | Inr _ \<Rightarrow> retR (st\<lparr>proc := (proc st)\<lparr>proot := get_root st True, cwd := get_root st True\<rparr>\<rparr>))"

text \<open>The tasks that register the file systems and mount devtmpfs.\<close>

definition tmpfs_register :: "vfs \<Rightarrow> vfs run" where
  "tmpfs_register st = (let (st, ok) = register_fs st ''tmpfs'' Tmpfs in if \<not> ok then failR Bug_on else retR st)"

definition devtmpfs_register :: "vfs \<Rightarrow> vfs run" where
  "devtmpfs_register st =
     (let (st, f) = devtmpfs_new st; (st, ok) = register_fs st ''devtmpfs'' f in if \<not> ok then failR Bug_on else retR st)"

definition devtmpfs_mount :: "cwalk \<Rightarrow> vfs \<Rightarrow> vfs run" where
  "devtmpfs_mount c st =
     bindR (vfs_create c st None ''/dev'' s_ifdir 0) (\<lambda>(st, r).
       if (case r of Inl e \<Rightarrow> e \<noteq> Already_exists | Inr _ \<Rightarrow> False)
       then failR (Panic_msg ''devtmpfs: failed to create directory /dev'')
       else bindR (vfs_mount c st [] ''/dev'' ''devtmpfs'') (\<lambda>(st, r).
         case r of Inl _ \<Rightarrow> failR (Panic_msg ''devtmpfs: failed to mount devtmpfs at /dev'') | Inr _ \<Rightarrow> retR st))"

section \<open>Tables of file descriptors\<close>

definition fdtable_close :: "vfs \<Rightarrow> int \<Rightarrow> vfs \<times> bool" where
  "fdtable_close st fd =
     (st\<lparr>proc := (proc st)\<lparr>fds := map_erase fd (fds (proc st))\<rparr>\<rparr>, map_of (fds (proc st)) fd \<noteq> None)"

definition fdtable_get :: "vfs \<Rightarrow> int \<Rightarrow> filedesc option" where
  "fdtable_get st fd = map_of (fds (proc st)) fd"

function free_fd :: "(int \<times> filedesc) list \<Rightarrow> int \<Rightarrow> int" where
  "free_fd t fd = (if map_of t fd \<noteq> None then free_fd t (fd + 1) else fd)"
  by auto

termination free_fd
proof (relation "measure (\<lambda>(t, fd). card {k \<in> fst ` set t. fd \<le> k})")
  fix t :: "(int \<times> filedesc) list" and fd
  assume "map_of t fd \<noteq> None"
  then have "fd \<in> fst ` set t" by (metis domI dom_map_of_conv_image_fst option.exhaust)
  then have "fd \<in> {k \<in> fst ` set t. fd \<le> k}" "fd \<notin> {k \<in> fst ` set t. fd + 1 \<le> k}" by simp_all
  moreover have "{k \<in> fst ` set t. fd + 1 \<le> k} \<subseteq> {k \<in> fst ` set t. fd \<le> k}" by auto
  ultimately have "{k \<in> fst ` set t. fd + 1 \<le> k} \<subset> {k \<in> fst ` set t. fd \<le> k}" by blast
  then show "((t, fd + 1), (t, fd)) \<in> measure (\<lambda>(t, fd). card {k \<in> fst ` set t. fd \<le> k})"
    by (simp add: psubset_card_mono)
qed simp

declare free_fd.simps [simp del]

definition allocate_fd :: "vfs \<Rightarrow> filedesc \<Rightarrow> int \<Rightarrow> bool \<Rightarrow> vfs \<times> int" where
  "allocate_fd st desc fd force =
     (let p = proc st;
          (p, fd) = (if map_of (fds p) fd \<noteq> None
                     then if \<not> force then (p\<lparr>next_fd := next_fd p + 1\<rparr>, free_fd (fds p) (next_fd p))
                          else (p\<lparr>fds := map_erase fd (fds p)\<rparr>, fd)
                     else (p, fd))
      in (st\<lparr>proc := p\<lparr>fds := map_set fd desc (fds p)\<rparr>\<rparr>, fd))"

section \<open>Open files\<close>

abbreviation (input) o_directory :: u32 where "o_directory \<equiv> 0x10000"
abbreviation (input) o_nofollow :: u32 where "o_nofollow \<equiv> 0x20000"
abbreviation (input) o_accmode :: u32 where "o_accmode \<equiv> 0x200003"
abbreviation (input) o_creat :: u32 where "o_creat \<equiv> 0x40"
abbreviation (input) o_excl :: u32 where "o_excl \<equiv> 0x80"
abbreviation (input) o_trunc :: u32 where "o_trunc \<equiv> 0x200"
abbreviation (input) o_closexec :: u32 where "o_closexec \<equiv> 0x80000"
abbreviation (input) o_tmpfile :: u32 where "o_tmpfile \<equiv> 0x410000"

text \<open>\<open>creation_flags\<close> and \<open>changeable_status_flags\<close>.\<close>

definition creation_flags :: u32 where
  "creation_flags = o_creat OR o_excl OR 0x100 OR o_trunc OR o_directory OR o_nofollow OR o_closexec OR o_tmpfile"

definition changeable_status_flags :: u32 where
  "changeable_status_flags = 0x400 OR 0x2000 OR 0x4000 OR 0x40000 OR 0x800"

definition is_read :: "u32 \<Rightarrow> bool" where
  "is_read flags \<longleftrightarrow> flags AND o_accmode = 0 \<or> flags AND o_accmode = 2"

definition is_write :: "u32 \<Rightarrow> bool" where
  "is_write flags \<longleftrightarrow> flags AND o_accmode = 1 \<or> flags AND o_accmode = 2"

definition file_create :: "vfs \<Rightarrow> vpath \<Rightarrow> u64 \<Rightarrow> u32 \<Rightarrow> vfs \<times> nat" where
  "file_create st p offset flags =
     (st\<lparr>files := (files st)(next_file st := \<lparr>fpath = p, foffset = offset, fflags = flags\<rparr>), next_file := next_file st + 1\<rparr>,
      next_file st)"

definition filedesc_create :: "vfs \<Rightarrow> vpath \<Rightarrow> u32 \<Rightarrow> vfs \<times> filedesc" where
  "filedesc_create st p flags =
     (let (st, f) = file_create st p 0 (flags AND NOT creation_flags)
      in (st, \<lparr>dfile = f, closexec = (flags AND o_closexec \<noteq> 0)\<rparr>))"

text \<open>The inode of an open file and its operations; \<open>get_ops\<close> asserts that there are some.\<close>

definition file_inode :: "vfs \<Rightarrow> nat \<Rightarrow> nat" where
  "file_inode st f = the (dinode (dentries st (dent (fpath (files st f)))))"

definition get_ops :: "vfs \<Rightarrow> nat \<Rightarrow> ops run" where
  "get_ops st f = (case iop (inodes st (file_inode st f)) of None \<Rightarrow> failR Bug_on | Some op \<Rightarrow> retR op)"

definition set_file :: "nat \<Rightarrow> open_file \<Rightarrow> vfs \<Rightarrow> vfs" where
  "set_file f x st = st\<lparr>files := (files st)(f := x)\<rparr>"

text \<open>
  The memory devices. A read returns the bytes it stored in the buffer; the random device takes
  them from a stream. \<open>/dev/full\<close> fails every write with -1.
\<close>

definition null_read :: "vfs \<Rightarrow> u64 \<Rightarrow> vfs \<times> u64 \<times> u8 list" where
  "null_read st n = (st, 0, [])"

definition null_write :: "vfs \<Rightarrow> u8 list \<Rightarrow> vfs \<times> u64" where
  "null_write st buffer = (st, of_nat (length buffer))"

definition zero_read :: "vfs \<Rightarrow> u64 \<Rightarrow> vfs \<times> u64 \<times> u8 list" where
  "zero_read st n = (st, n, replicate (unat n) 0)"

definition zero_write :: "vfs \<Rightarrow> u8 list \<Rightarrow> vfs \<times> u64" where
  "zero_write st buffer = (st, of_nat (length buffer))"

definition full_read :: "vfs \<Rightarrow> u64 \<Rightarrow> vfs \<times> u64 \<times> u8 list" where
  "full_read st n = (st, n, replicate (unat n) 0)"

definition full_write :: "vfs \<Rightarrow> u8 list \<Rightarrow> vfs \<times> u64" where
  "full_write st buffer = (st, - 1)"

definition random_read :: "vfs \<Rightarrow> u64 \<Rightarrow> vfs \<times> u64 \<times> u8 list" where
  "random_read st n = (st\<lparr>entropy := (\<lambda>k. entropy st (k + unat n))\<rparr>, n, map (entropy st) [0..<unat n])"

definition random_write :: "vfs \<Rightarrow> u8 list \<Rightarrow> vfs \<times> u64" where
  "random_write st buffer = (st, of_nat (length buffer))"

text \<open>The virtual functions of \<open>vfs::ops\<close>.\<close>

definition ops_read :: "vfs \<Rightarrow> ops \<Rightarrow> nat \<Rightarrow> u64 \<Rightarrow> u64 \<Rightarrow> (vfs \<times> u64 \<times> u8 list) run" where
  "ops_read st op i offset n =
     (case op of
        Tmpfs_ops \<Rightarrow> tmpfs_read st i offset n
      | Null_ops \<Rightarrow> retR (null_read st n)
      | Zero_ops \<Rightarrow> retR (zero_read st n)
      | Full_ops \<Rightarrow> retR (full_read st n)
      | Random_ops \<Rightarrow> retR (random_read st n))"

definition ops_write :: "vfs \<Rightarrow> ops \<Rightarrow> nat \<Rightarrow> u64 \<Rightarrow> u8 list \<Rightarrow> (vfs \<times> u64) run" where
  "ops_write st op i offset buffer =
     (case op of
        Tmpfs_ops \<Rightarrow> tmpfs_write st i offset buffer
      | Null_ops \<Rightarrow> retR (null_write st buffer)
      | Zero_ops \<Rightarrow> retR (zero_write st buffer)
      | Full_ops \<Rightarrow> retR (full_write st buffer)
      | Random_ops \<Rightarrow> retR (random_write st buffer))"

text \<open>The devices ignore truncation and cannot be mapped.\<close>

definition ops_trunc :: "vfs \<Rightarrow> ops \<Rightarrow> nat \<Rightarrow> u64 \<Rightarrow> (vfs \<times> bool) run" where
  "ops_trunc st op i sz = (case op of Tmpfs_ops \<Rightarrow> tmpfs_trunc st i sz | _ \<Rightarrow> retR (st, True))"

definition ops_map :: "vfs \<Rightarrow> ops \<Rightarrow> nat \<Rightarrow> bool \<Rightarrow> (vfs \<times> nat option) run" where
  "ops_map st op i priv = (case op of Tmpfs_ops \<Rightarrow> tmpfs_map st i priv | _ \<Rightarrow> retR (st, None))"

definition advance :: "nat \<Rightarrow> u64 \<Rightarrow> vfs \<Rightarrow> vfs" where
  "advance f ret st = (if 0 <s ret then set_file f ((files st f)\<lparr>foffset := foffset (files st f) + ret\<rparr>) st else st)"

definition file_pread :: "vfs \<Rightarrow> nat \<Rightarrow> u64 \<Rightarrow> u64 \<Rightarrow> (vfs \<times> u64 \<times> u8 list) run" where
  "file_pread st f offset n = bindR (get_ops st f) (\<lambda>op. ops_read st op (file_inode st f) offset n)"

definition file_pwrite :: "vfs \<Rightarrow> nat \<Rightarrow> u64 \<Rightarrow> u8 list \<Rightarrow> (vfs \<times> u64) run" where
  "file_pwrite st f offset buffer = bindR (get_ops st f) (\<lambda>op. ops_write st op (file_inode st f) offset buffer)"

definition file_read :: "vfs \<Rightarrow> nat \<Rightarrow> u64 \<Rightarrow> (vfs \<times> u64 \<times> u8 list) run" where
  "file_read st f n = bindR (file_pread st f (foffset (files st f)) n) (\<lambda>(st, ret, bs). retR (advance f ret st, ret, bs))"

definition file_write :: "vfs \<Rightarrow> nat \<Rightarrow> u8 list \<Rightarrow> (vfs \<times> u64) run" where
  "file_write st f buffer = bindR (file_pwrite st f (foffset (files st f)) buffer) (\<lambda>(st, ret). retR (advance f ret st, ret))"

definition file_trunc :: "vfs \<Rightarrow> nat \<Rightarrow> u64 \<Rightarrow> (vfs \<times> bool) run" where
  "file_trunc st f sz = bindR (get_ops st f) (\<lambda>op. ops_trunc st op (file_inode st f) sz)"

definition file_map :: "vfs \<Rightarrow> nat \<Rightarrow> bool \<Rightarrow> (vfs \<times> nat option) run" where
  "file_map st f priv = bindR (get_ops st f) (\<lambda>op. ops_map st op (file_inode st f) priv)"

end
