(* ===== verification/Syscalls.thy ===== *)
theory Syscalls
  imports Vfs
begin

text \<open>
  The system calls on files (\<^verbatim>\<open>kernel/source/system/syscall/vfs.cpp\<close>) and on memory
  (\<^verbatim>\<open>kernel/source/system/syscall/memory.cpp\<close>) of one process.

  A call returns \<open>Inl\<close> the error number it stores in \<open>errno\<close> (and then -1 or a null pointer),
  or \<open>Inr\<close> its value. Buffers of the caller are the lists of bytes that are copied from or to
  them; a pathname is the string in front of its terminator, \<open>None\<close> for a null pointer. File
  descriptor numbers are integers.
\<close>

type_synonym 'a sys = "(vfs \<times> (int + 'a)) run"

abbreviation (input) EIO :: int where "EIO \<equiv> 5"
abbreviation (input) EBADF :: int where "EBADF \<equiv> 9"
abbreviation (input) ENOMEM :: int where "ENOMEM \<equiv> 12"
abbreviation (input) EACCES :: int where "EACCES \<equiv> 13"
abbreviation (input) EFAULT :: int where "EFAULT \<equiv> 14"
abbreviation (input) EEXIST :: int where "EEXIST \<equiv> 17"
abbreviation (input) ENODEV :: int where "ENODEV \<equiv> 19"
abbreviation (input) ENOTDIR :: int where "ENOTDIR \<equiv> 20"
abbreviation (input) EISDIR :: int where "EISDIR \<equiv> 21"
abbreviation (input) EINVAL :: int where "EINVAL \<equiv> 22"
abbreviation (input) EMFILE :: int where "EMFILE \<equiv> 24"
abbreviation (input) ENOTTY :: int where "ENOTTY \<equiv> 25"
abbreviation (input) ESPIPE :: int where "ESPIPE \<equiv> 29"
abbreviation (input) ERANGE :: int where "ERANGE \<equiv> 34"
abbreviation (input) ENAMETOOLONG :: int where "ENAMETOOLONG \<equiv> 36"
abbreviation (input) EOVERFLOW :: int where "EOVERFLOW \<equiv> 75"

abbreviation (input) at_fdcwd :: int where "at_fdcwd \<equiv> - 100"
abbreviation (input) at_symlink_nofollow :: u32 where "at_symlink_nofollow \<equiv> 0x100"
abbreviation (input) at_eaccess :: u32 where "at_eaccess \<equiv> 0x200"
abbreviation (input) at_empty_path :: u32 where "at_empty_path \<equiv> 0x1000"

abbreviation (input) path_max :: nat where "path_max \<equiv> 4096"

section \<open>Arguments\<close>

definition get_fd :: "vfs \<Rightarrow> int \<Rightarrow> int + filedesc" where
  "get_fd st fdnum =
     (if fdnum < 0 then Inl EBADF else case fdtable_get st fdnum of None \<Rightarrow> Inl EBADF | Some d \<Rightarrow> Inr d)"

definition get_parent :: "cwalk \<Rightarrow> vfs \<Rightarrow> int \<Rightarrow> string \<Rightarrow> int + vpath" where
  "get_parent c st dirfd pn =
     (if cwk_is_absolute c pn then Inr (get_root st True)
      else if dirfd = at_fdcwd then Inr (cwd (proc st))
      else case get_fd st dirfd of Inl e \<Rightarrow> Inl e
        | Inr d \<Rightarrow>
            let p = fpath (files st (dfile d))
            in if stat_type (istat (inode_of st (dent p))) \<noteq> s_ifdir then Inl ENOTDIR else Inr p)"

fun map_error :: "vfs_error \<Rightarrow> int run" where
  "map_error Todo = retR 38"
| "map_error Already_exists = retR 17"
| "map_error Not_found = retR 2"
| "map_error Not_a_dir = retR 20"
| "map_error Not_a_block = retR 15"
| "map_error Symloop_max = retR 40"
| "map_error Target_is_a_dir = retR 21"
| "map_error Target_is_busy = retR 16"
| "map_error Dir_not_empty = retR 39"
| "map_error Different_filesystem = retR 18"
| "map_error Invalid_filesystem = retR 19"
| "map_error Invalid_mount = retR 22"
| "map_error Invalid_symlink = retR 22"
| "map_error Invalid_device = failR (Panic_msg ''unhandled vfs error'')"
| "map_error Invalid_type = failR (Panic_msg ''unhandled vfs error'')"

text \<open>The error of a file system operation as an error number.\<close>

definition sys_result :: "vfs \<times> (vfs_error + 'a) \<Rightarrow> 'a sys" where
  "sys_result r = (case r of (st, Inl e) \<Rightarrow> bindR (map_error e) (\<lambda>n. retR (st, Inl n)) | (st, Inr x) \<Rightarrow> retR (st, Inr x))"

definition sys_bind :: "'a sys \<Rightarrow> (vfs \<Rightarrow> 'a \<Rightarrow> 'b sys) \<Rightarrow> 'b sys" where
  "sys_bind m f = bindR m (\<lambda>(st, r). case r of Inl e \<Rightarrow> retR (st, Inl e) | Inr x \<Rightarrow> f st x)"

definition sys_fd :: "vfs \<Rightarrow> int \<Rightarrow> filedesc sys" where
  "sys_fd st fd = retR (st, get_fd st fd)"

definition resolve_from :: "cwalk \<Rightarrow> vfs \<Rightarrow> int \<Rightarrow> string \<Rightarrow> (vpath \<times> vpath) sys" where
  "resolve_from c st dirfd pn =
     sys_bind (retR (st, get_parent c st dirfd pn)) (\<lambda>st parent. bindR (resolve c st (Some parent) pn) sys_result)"

definition get_path :: "cwalk \<Rightarrow> string option \<Rightarrow> int + string" where
  "get_path c pathname =
     (case pathname of None \<Rightarrow> Inl EFAULT
      | Some s \<Rightarrow>
          let pathname_len = min (length s) path_max
          in if pathname_len = 0 then Inl EINVAL
             else if pathname_len = path_max then Inl ENAMETOOLONG
             else Inr (cwk_normalize c s))"

definition get_target :: "cwalk \<Rightarrow> vfs \<Rightarrow> int \<Rightarrow> string option \<Rightarrow> bool \<Rightarrow> bool \<Rightarrow> vpath sys" where
  "get_target c st dirfd pathname follow_links empty_path =
     (if empty_path
      then if dirfd = at_fdcwd then retR (st, Inr (cwd (proc st)))
           else sys_bind (sys_fd st dirfd) (\<lambda>st d. retR (st, Inr (fpath (files st (dfile d)))))
      else sys_bind (retR (st, get_path c pathname)) (\<lambda>st pn.
           sys_bind (resolve_from c st dirfd pn) (\<lambda>st (parent, target).
             if follow_links then bindR (reduce c st parent target symloop_max) sys_result
             else retR (st, Inr target))))"

section \<open>Opening and closing\<close>

definition file_open :: "vfs \<Rightarrow> nat \<Rightarrow> (vfs \<times> bool) run" where
  "file_open st f = bindR (get_ops st f) (\<lambda>_. retR (st, True))"

definition file_close :: "vfs \<Rightarrow> nat \<Rightarrow> (vfs \<times> bool) run" where
  "file_close st f = bindR (get_ops st f) (\<lambda>_. retR (st, True))"

definition set_owner :: "nat \<Rightarrow> stat \<Rightarrow> vfs \<Rightarrow> vfs" where
  "set_owner i parent_stat st =
     (let n = inodes st i
      in set_inode i (n\<lparr>istat := (istat n)\<lparr>st_uid := euid (proc st),
           st_gid := (if stat_mode parent_stat AND 0x400 \<noteq> 0 then st_gid parent_stat else egid (proc st))\<rparr>\<rparr>) st)"

text \<open>
  The branch of \<open>openat\<close> that creates a file: the assertion
  \<open>bug_on(!created->dentry || created->dentry->inode)\<close> and the owner of the new inode behind it.
  A path always has an entry here; its inode is a pointer that may be null.
\<close>

definition openat_create :: "cwalk \<Rightarrow> vfs \<Rightarrow> int \<Rightarrow> string \<Rightarrow> u32 \<Rightarrow> vpath sys" where
  "openat_create c st dirfd pn mode =
     sys_bind (resolve_from c st dirfd (cwk_normalize c (cwk_dirname c pn))) (\<lambda>st (_, target).
       if stat_type (istat (inode_of st (dent target))) \<noteq> s_ifdir then retR (st, Inl ENOTDIR)
       else sys_bind (bindR (vfs_create c st (Some target) (cwk_normalize c (cwk_basename c pn))
                               (mode AND NOT (umask (proc st))) 0) sys_result) (\<lambda>st created.
               if dinode (dentries st (dent created)) \<noteq> None then failR Bug_on
               else case dinode (dentries st (dent created)) of None \<Rightarrow> failR Null_deref
                    | Some i \<Rightarrow> retR (set_owner i (istat (inode_of st (dent target))) st, Inr created)))"

definition openat_finish :: "vfs \<Rightarrow> vpath \<Rightarrow> u32 \<Rightarrow> int sys" where
  "openat_finish st target flags =
     (let ty = stat_type (istat (inode_of st (dent target)))
      in if ty = s_ifdir \<and> is_write flags then retR (st, Inl EISDIR)
         else if ty \<noteq> s_ifdir \<and> flags AND o_directory \<noteq> 0 then retR (st, Inl ENOTDIR)
         else let (st, fdesc) = filedesc_create st target flags;
                  (st, fd) = allocate_fd st fdesc 0 False
              in if fd < 0 then retR (st, Inl EMFILE)
                 else bindR (file_open st (dfile fdesc)) (\<lambda>(st, opened).
                   if \<not> opened then retR (fst (fdtable_close st fd), Inl EIO)
                   else if flags AND o_trunc \<noteq> 0
                   then bindR (file_trunc st (dfile fdesc) 0) (\<lambda>(st, ok). retR (st, if ok then Inr fd else Inl EINVAL))
                   else retR (st, Inr fd)))"

definition openat :: "cwalk \<Rightarrow> vfs \<Rightarrow> int \<Rightarrow> string option \<Rightarrow> u32 \<Rightarrow> u32 \<Rightarrow> int sys" where
  "openat c st dirfd pathname flags mode =
     (let follow_links = (flags AND o_nofollow = 0)
      in if flags AND o_tmpfile \<noteq> 0 \<and> \<not> is_write flags then retR (st, Inl EINVAL)
         else if flags AND o_directory \<noteq> 0 \<and> flags AND o_creat \<noteq> 0 then retR (st, Inl EINVAL)
         else let mode = mode AND 0xFFF
              in sys_bind (retR (st, get_path c pathname)) (\<lambda>st pn.
                   bindR (resolve_from c st dirfd pn) (\<lambda>(st, res).
                     sys_bind (case res of
                         Inl e \<Rightarrow> if flags AND o_creat = 0 then retR (st, Inl e) else openat_create c st dirfd pn mode
                       | Inr (parent, target) \<Rightarrow>
                           if flags AND o_excl \<noteq> 0 \<and> flags AND o_creat \<noteq> 0 then retR (st, Inl EEXIST)
                           else if follow_links then bindR (reduce c st parent target symloop_max) sys_result
                           else retR (st, Inr target))
                       (\<lambda>st target. openat_finish st target flags))))"

definition sys_open :: "cwalk \<Rightarrow> vfs \<Rightarrow> string option \<Rightarrow> u32 \<Rightarrow> u32 \<Rightarrow> int sys" where
  "sys_open c st pathname flags mode = openat c st at_fdcwd pathname flags mode"

definition creat :: "cwalk \<Rightarrow> vfs \<Rightarrow> string option \<Rightarrow> u32 \<Rightarrow> int sys" where
  "creat c st pathname mode = openat c st at_fdcwd pathname (o_creat OR 1 OR o_trunc) mode"

definition sys_close :: "vfs \<Rightarrow> int \<Rightarrow> int sys" where
  "sys_close st fd =
     sys_bind (sys_fd st fd) (\<lambda>st d.
       bindR (file_close st (dfile d)) (\<lambda>(st, ok).
         if \<not> ok then retR (st, Inl EIO)
         else let (st, closed) = fdtable_close st fd in if \<not> closed then failR Bug_on else retR (st, Inr 0)))"

section \<open>Reading and writing\<close>

text \<open>A negative result of an operation is a negated error number.\<close>

definition neg_errno :: "u64 \<Rightarrow> int" where
  "neg_errno ret = - sint ret"

definition is_dir :: "vfs \<Rightarrow> filedesc \<Rightarrow> bool" where
  "is_dir st d \<longleftrightarrow> stat_type (istat (inodes st (file_inode st (dfile d)))) = s_ifdir"

definition read_result :: "vfs \<times> u64 \<times> u8 list \<Rightarrow> (u64 \<times> u8 list) sys" where
  "read_result r = (case r of (st, ret, bs) \<Rightarrow> retR (st, if ret <s 0 then Inl (neg_errno ret) else Inr (ret, take (unat ret) bs)))"

definition write_result :: "vfs \<times> u64 \<Rightarrow> u64 sys" where
  "write_result r = (case r of (st, ret) \<Rightarrow> retR (st, if ret <s 0 then Inl (neg_errno ret) else Inr ret))"

definition sys_read :: "vfs \<Rightarrow> int \<Rightarrow> u64 \<Rightarrow> (u64 \<times> u8 list) sys" where
  "sys_read st fd count =
     sys_bind (sys_fd st fd) (\<lambda>st d.
       if \<not> is_read (fflags (files st (dfile d))) then retR (st, Inl EBADF)
       else if is_dir st d then retR (st, Inl EISDIR)
       else bindR (file_read st (dfile d) count) read_result)"

definition sys_write :: "vfs \<Rightarrow> int \<Rightarrow> u8 list \<Rightarrow> u64 sys" where
  "sys_write st fd buf =
     sys_bind (sys_fd st fd) (\<lambda>st d.
       if \<not> is_write (fflags (files st (dfile d))) then retR (st, Inl EBADF)
       else bindR (file_write st (dfile d) buf) write_result)"

definition sys_pread :: "vfs \<Rightarrow> int \<Rightarrow> u64 \<Rightarrow> u64 \<Rightarrow> (u64 \<times> u8 list) sys" where
  "sys_pread st fd count offset =
     sys_bind (sys_fd st fd) (\<lambda>st d.
       if \<not> is_read (fflags (files st (dfile d))) then retR (st, Inl EBADF)
       else if is_dir st d then retR (st, Inl EISDIR)
       else bindR (file_pread st (dfile d) offset count) read_result)"

definition sys_pwrite :: "vfs \<Rightarrow> int \<Rightarrow> u8 list \<Rightarrow> u64 \<Rightarrow> u64 sys" where
  "sys_pwrite st fd buf offset =
     sys_bind (sys_fd st fd) (\<lambda>st d.
       if \<not> is_write (fflags (files st (dfile d))) then retR (st, Inl EBADF)
       else bindR (file_pwrite st (dfile d) offset buf) write_result)"

text \<open>The vectored calls: the lengths of the buffers to read to, the contents of those to write.\<close>

fun readv_loop :: "vfs \<Rightarrow> nat \<Rightarrow> u64 list \<Rightarrow> u64 \<Rightarrow> u8 list \<Rightarrow> (u64 \<times> u8 list) sys" where
  "readv_loop st f [] tot acc = retR (st, Inr (tot, acc))"
| "readv_loop st f (n # iov) tot acc =
     sys_bind (bindR (file_read st f n) read_result) (\<lambda>st (ret, bs).
       if ret = 0 then retR (st, Inr (tot, acc)) else readv_loop st f iov (tot + ret) (acc @ bs))"

fun writev_loop :: "vfs \<Rightarrow> nat \<Rightarrow> u8 list list \<Rightarrow> u64 \<Rightarrow> u64 sys" where
  "writev_loop st f [] tot = retR (st, Inr tot)"
| "writev_loop st f (bs # iov) tot =
     sys_bind (bindR (file_write st f bs) write_result) (\<lambda>st ret. writev_loop st f iov (tot + ret))"

fun preadv_loop :: "vfs \<Rightarrow> nat \<Rightarrow> u64 list \<Rightarrow> u64 \<Rightarrow> u64 \<Rightarrow> u8 list \<Rightarrow> (u64 \<times> u8 list) sys" where
  "preadv_loop st f [] offset tot acc = retR (st, Inr (tot, acc))"
| "preadv_loop st f (n # iov) offset tot acc =
     sys_bind (bindR (file_pread st f offset n) read_result) (\<lambda>st (ret, bs).
       if ret = 0 then retR (st, Inr (tot, acc)) else preadv_loop st f iov (offset + ret) (tot + ret) (acc @ bs))"

fun pwritev_loop :: "vfs \<Rightarrow> nat \<Rightarrow> u8 list list \<Rightarrow> u64 \<Rightarrow> u64 \<Rightarrow> u64 sys" where
  "pwritev_loop st f [] offset tot = retR (st, Inr tot)"
| "pwritev_loop st f (bs # iov) offset tot =
     sys_bind (bindR (file_pwrite st f offset bs) write_result) (\<lambda>st ret. pwritev_loop st f iov (offset + ret) (tot + ret))"

definition readv :: "vfs \<Rightarrow> int \<Rightarrow> u64 list \<Rightarrow> (u64 \<times> u8 list) sys" where
  "readv st fd iov =
     sys_bind (sys_fd st fd) (\<lambda>st d.
       if \<not> is_read (fflags (files st (dfile d))) then retR (st, Inl EBADF) else readv_loop st (dfile d) iov 0 [])"

definition writev :: "vfs \<Rightarrow> int \<Rightarrow> u8 list list \<Rightarrow> u64 sys" where
  "writev st fd iov =
     sys_bind (sys_fd st fd) (\<lambda>st d.
       if \<not> is_write (fflags (files st (dfile d))) then retR (st, Inl EBADF) else writev_loop st (dfile d) iov 0)"

definition preadv :: "vfs \<Rightarrow> int \<Rightarrow> u64 list \<Rightarrow> u64 \<Rightarrow> (u64 \<times> u8 list) sys" where
  "preadv st fd iov offset =
     sys_bind (sys_fd st fd) (\<lambda>st d.
       if \<not> is_read (fflags (files st (dfile d))) then retR (st, Inl EBADF) else preadv_loop st (dfile d) iov offset 0 [])"

definition pwritev :: "vfs \<Rightarrow> int \<Rightarrow> u8 list list \<Rightarrow> u64 \<Rightarrow> u64 sys" where
  "pwritev st fd iov offset =
     sys_bind (sys_fd st fd) (\<lambda>st d.
       if \<not> is_write (fflags (files st (dfile d))) then retR (st, Inl EBADF) else pwritev_loop st (dfile d) iov offset 0)"

definition lseek :: "vfs \<Rightarrow> int \<Rightarrow> u64 \<Rightarrow> int \<Rightarrow> u64 sys" where
  "lseek st fd offset whence =
     sys_bind (sys_fd st fd) (\<lambda>st d.
       let f = files st (dfile d); s = istat (inodes st (file_inode st (dfile d)));
           ty = stat_type s; off_max = 0x7FFFFFFFFFFFFFFF;
           r = (if whence = 0 then Inr offset
                else if whence = 1 then if foffset f + offset > off_max then Inl EOVERFLOW else Inr (foffset f + offset)
                else if whence = 2 then if st_size s + offset > off_max then Inl EOVERFLOW else Inr (st_size s + offset)
                else Inl EINVAL)
       in if ty = 0xC000 \<or> ty = 0x1000 then retR (st, Inl ESPIPE)
          else (case r of Inl e \<Rightarrow> retR (st, Inl e)
            | Inr new_offset \<Rightarrow>
                if new_offset <s 0 then retR (st, Inl EOVERFLOW)
                else retR (set_file (dfile d) (f\<lparr>foffset := new_offset\<rparr>) st, Inr new_offset)))"

section \<open>Status and access\<close>

definition fstatat :: "cwalk \<Rightarrow> vfs \<Rightarrow> int \<Rightarrow> string option \<Rightarrow> u32 \<Rightarrow> stat sys" where
  "fstatat c st dirfd pathname flags =
     sys_bind (get_target c st dirfd pathname (flags AND at_symlink_nofollow = 0) (flags AND at_empty_path \<noteq> 0))
       (\<lambda>st target. retR (st, Inr (istat (inode_of st (dent target)))))"

definition sys_stat :: "cwalk \<Rightarrow> vfs \<Rightarrow> string option \<Rightarrow> stat sys" where
  "sys_stat c st pathname = fstatat c st at_fdcwd pathname 0"

definition fstat :: "cwalk \<Rightarrow> vfs \<Rightarrow> int \<Rightarrow> stat sys" where
  "fstat c st fd = fstatat c st fd None at_empty_path"

definition lstat :: "cwalk \<Rightarrow> vfs \<Rightarrow> string option \<Rightarrow> stat sys" where
  "lstat c st pathname = fstatat c st at_fdcwd pathname at_symlink_nofollow"

definition faccessat :: "cwalk \<Rightarrow> vfs \<Rightarrow> int \<Rightarrow> string option \<Rightarrow> u32 \<Rightarrow> u32 \<Rightarrow> int sys" where
  "faccessat c st dirfd pathname mode flags =
     sys_bind (get_target c st dirfd pathname (flags AND at_symlink_nofollow = 0) (flags AND at_empty_path \<noteq> 0)) (\<lambda>st target.
       let eaccess = (flags AND at_eaccess \<noteq> 0);
           uid = (if eaccess then euid (proc st) else ruid (proc st));
           gid = (if eaccess then egid (proc st) else rgid (proc st))
       in if mode = 0 then retR (st, Inr 0)
          else if mode AND 7 = 0 then retR (st, Inl EINVAL)
          else if \<not> check_access uid gid (istat (inode_of st (dent target))) mode then retR (st, Inl EACCES)
          else retR (st, Inr 0))"

definition access :: "cwalk \<Rightarrow> vfs \<Rightarrow> string option \<Rightarrow> u32 \<Rightarrow> int sys" where
  "access c st pathname mode = faccessat c st at_fdcwd pathname mode 0"

text \<open>None of the modelled operations overrides \<open>vfs::ops::ioctl\<close>, which answers \<open>ENOTTY\<close>.\<close>

definition ioctl :: "vfs \<Rightarrow> int \<Rightarrow> u64 \<Rightarrow> int sys" where
  "ioctl st fd request =
     sys_bind (sys_fd st fd) (\<lambda>st d.
       if stat_type (istat (inodes st (file_inode st (dfile d)))) \<noteq> s_ifchr then retR (st, Inl ENOTTY)
       else bindR (get_ops st (dfile d)) (\<lambda>_. retR (st, Inl ENOTTY)))"

section \<open>Duplicating descriptors\<close>

definition dup_to :: "vfs \<Rightarrow> filedesc \<Rightarrow> bool \<Rightarrow> int \<Rightarrow> bool \<Rightarrow> int sys" where
  "dup_to st d cloexec fd force =
     (let (st, new_fd) = allocate_fd st \<lparr>dfile = dfile d, closexec = cloexec\<rparr> fd force
      in if new_fd < 0 then retR (st, Inl EMFILE) else retR (st, Inr new_fd))"

definition dup :: "vfs \<Rightarrow> int \<Rightarrow> int sys" where
  "dup st oldfd = sys_bind (sys_fd st oldfd) (\<lambda>st d. dup_to st d False 0 False)"

definition dup2 :: "vfs \<Rightarrow> int \<Rightarrow> int \<Rightarrow> int sys" where
  "dup2 st oldfd newfd =
     (if oldfd < 0 \<or> newfd < 0 then retR (st, Inl EBADF)
      else case fdtable_get st oldfd of None \<Rightarrow> retR (st, Inl EBADF) | Some d \<Rightarrow> dup_to st d False newfd True)"

definition dup3 :: "vfs \<Rightarrow> int \<Rightarrow> int \<Rightarrow> u32 \<Rightarrow> int sys" where
  "dup3 st oldfd newfd flags =
     (if oldfd = newfd \<or> flags AND NOT o_closexec \<noteq> 0 then retR (st, Inl EINVAL)
      else if oldfd < 0 \<or> newfd < 0 then retR (st, Inl EBADF)
      else case fdtable_get st oldfd of None \<Rightarrow> retR (st, Inl EBADF)
        | Some d \<Rightarrow> dup_to st d (flags AND o_closexec \<noteq> 0) newfd True)"

definition set_closexec :: "int \<Rightarrow> bool \<Rightarrow> vfs \<Rightarrow> vfs" where
  "set_closexec fd b st =
     st\<lparr>proc := (proc st)\<lparr>fds := map (\<lambda>(k, d). (k, if k = fd then d\<lparr>closexec := b\<rparr> else d)) (fds (proc st))\<rparr>\<rparr>"

definition int_of :: "u64 \<Rightarrow> int" where
  "int_of x = sint (ucast x :: u32)"

definition fcntl :: "vfs \<Rightarrow> int \<Rightarrow> int \<Rightarrow> u64 \<Rightarrow> int sys" where
  "fcntl st fd cmd arg =
     sys_bind (sys_fd st fd) (\<lambda>st d.
       if cmd = 0 then dup st (int_of arg)
       else if cmd = 1030 then
         sys_bind (dup st (int_of arg)) (\<lambda>st newfd.
           if newfd < 0 then retR (st, Inl EMFILE)
           else if fdtable_get st newfd = None then failR Bug_on
           else retR (set_closexec newfd True st, Inr newfd))
       else if cmd = 1 then retR (st, Inr (if closexec d then uint o_closexec else 0))
       else if cmd = 2 then retR (set_closexec fd (arg AND ucast o_closexec \<noteq> 0) st, Inr 0)
       else if cmd = 3 then retR (st, Inr (sint (fflags (files st (dfile d)))))
       else if cmd = 4 then
         let f = files st (dfile d); new_flags = ucast arg AND changeable_status_flags
         in retR (set_file (dfile d) (f\<lparr>fflags := (fflags f AND NOT changeable_status_flags) OR new_flags\<rparr>) st, Inr 0)
       else retR (st, Inl EINVAL))"

definition getcwd :: "vfs \<Rightarrow> u64 \<Rightarrow> string sys" where
  "getcwd st sz =
     bindR (pathname_from st (cwd (proc st))) (\<lambda>s.
       retR (st, if unat sz < length s + 1 then Inl ERANGE else Inr s))"

section \<open>Memory\<close>

definition mmap :: "vfs \<Rightarrow> u64 \<Rightarrow> u64 \<Rightarrow> u32 \<Rightarrow> u32 \<Rightarrow> int \<Rightarrow> u64 \<Rightarrow> u64 sys" where
  "mmap st addr len pr flags fd offset =
     (let priv = (flags AND 0x02 \<noteq> 0); shared = (flags AND 0x01 \<noteq> 0); fixed = (flags AND 0x10 \<noteq> 0); anon = (flags AND 0x20 \<noteq> 0);
          psize = default_page_size
      in if (priv \<and> shared) \<or> (\<not> priv \<and> \<not> shared) \<or> (fd \<ge> 0 \<and> anon) \<or> len = 0 then retR (st, Inl EINVAL)
         else if len mod psize \<noteq> 0 \<or> offset mod psize \<noteq> 0 then retR (st, Inl EINVAL)
         else if anon \<and> fd \<noteq> - 1 then retR (st, Inl EINVAL)
         else if \<not> anon \<and> fd < 0 then retR (st, Inl EBADF)
         else sys_bind
           (if fixed
            then if addr = 0 \<or> addr mod psize \<noteq> 0 then retR (st, Inl EINVAL)
                 else if is_mapped (memst st) addr len
                 then bindR (vmspace_unmap (memst st) addr len) (\<lambda>(m, r).
                        retR (st\<lparr>memst := m\<rparr>, if r = None then Inr addr else Inl EINVAL))
                 else retR (st, Inr addr)
            else let a = find_free_region (memst st) len in retR (st, if a = 0 then Inl ENOMEM else Inr a)) (\<lambda>st address.
              if address + len < address then retR (st, Inl EINVAL)
              else sys_bind
                (if \<not> anon \<and> fd \<ge> 0
                 then case fdtable_get st fd of None \<Rightarrow> retR (st, Inl EBADF)
                   | Some d \<Rightarrow> bindR (file_map st (dfile d) priv) (\<lambda>(st, ob).
                       retR (st, case ob of None \<Rightarrow> Inl ENODEV | Some ob \<Rightarrow> Inr ob))
                 else if offset \<noteq> 0 then retR (st, Inl EINVAL)
                 else let (m, ob) = new_memobject (memst st) in retR (st\<lparr>memst := m\<rparr>, Inr ob)) (\<lambda>st ob.
                   bindR (vmspace_map (memst st) address len (ucast pr) (ucast flags) (Some ob) offset) (\<lambda>(m, r).
                     case r of None \<Rightarrow> retR (st\<lparr>memst := m\<rparr>, Inr address)
                     | Some _ \<Rightarrow> bindR (release m [ob]) (\<lambda>m. retR (st\<lparr>memst := m\<rparr>, Inl ENOMEM))))))"

definition munmap :: "vfs \<Rightarrow> u64 \<Rightarrow> u64 \<Rightarrow> int sys" where
  "munmap st addr len =
     bindR (vmspace_unmap (memst st) addr len) (\<lambda>(m, r). retR (st\<lparr>memst := m\<rparr>, if r = None then Inr 0 else Inl EINVAL))"

definition mprotect :: "vfs \<Rightarrow> u64 \<Rightarrow> u64 \<Rightarrow> u32 \<Rightarrow> int sys" where
  "mprotect st addr len pr =
     bindR (vmspace_protect (memst st) addr len (ucast pr)) (\<lambda>(m, r). retR (st\<lparr>memst := m\<rparr>, if r = None then Inr 0 else Inl ENOMEM))"

end
