(* ===== verification/Vfs_Lookup.thy ===== *)
theory Vfs_Lookup
  imports Syscalls
begin

text \<open>
  Looking up paths in the file system: the invariant \<open>vfs_wf\<close> of the tree of entries, mounts and
  open files; what \<open>resolve\<close> and \<open>reduce\<close> promise in every state (they change nothing and lead to
  existing paths); new entries; and \<open>descend\<close>, the meaning of a path as a sequence of names, which
  \<open>resolve\<close> follows. \<open>splits_path\<close> states what is relied on of the cwalk functions.
\<close>

section \<open>The invariant\<close>

definition path_ok :: "vfs \<Rightarrow> vpath \<Rightarrow> bool" where
  "path_ok st p \<longleftrightarrow> dent p < next_dentry st \<and> (\<forall>m. mnt p = Some m \<longrightarrow> m < next_mount st)"

text \<open>An entry refers to entries, inodes and mounts there are, and its children know it as their parent and go by their names.\<close>

definition dentry_ok :: "vfs \<Rightarrow> nat \<Rightarrow> dentry \<Rightarrow> bool" where
  "dentry_ok st d e \<longleftrightarrow>
     dinode e \<noteq> None \<and> the (dinode e) < next_inode_id st \<and> (\<forall>q. dparent e = Some q \<longrightarrow> q < next_dentry st) \<and>
     (\<forall>n k. (n, k) \<in> set (children e) \<longrightarrow>
        k < next_dentry st \<and> k \<noteq> vfs_root \<and> dname (dentries st k) = n \<and> dparent (dentries st k) = Some d) \<and>
     (\<forall>m\<in>set (child_mounts e). m < next_mount st)"

definition mount_ok :: "vfs \<Rightarrow> mount \<Rightarrow> bool" where
  "mount_ok st m \<longleftrightarrow> mfs m < next_instance st \<and> mroot m < next_dentry st \<and> (\<forall>q. mounted_on m = Some q \<longrightarrow> path_ok st q)"

definition vfs_wf :: "vfs \<Rightarrow> bool" where
  "vfs_wf st \<longleftrightarrow>
     0 < next_dentry st \<and> dparent (dentries st vfs_root) = Some vfs_root \<and>
     (\<forall>d < next_dentry st. dentry_ok st d (dentries st d)) \<and>
     (\<forall>m < next_mount st. mount_ok st (mounts st m)) \<and>
     path_ok st (proot (proc st)) \<and> path_ok st (cwd (proc st)) \<and>
     (\<forall>f < next_file st. path_ok st (fpath (files st f))) \<and>
     (\<forall>fd d. map_of (fds (proc st)) fd = Some d \<longrightarrow> dfile d < next_file st) \<and>
     (\<forall>name k r. map_of (filesystems st) name = Some (Devtmpfs k r) \<longrightarrow> k < next_instance st \<and> r < next_dentry st)"

lemma vfs_wfD:
  assumes "vfs_wf st"
  shows "0 < next_dentry st" "d < next_dentry st \<Longrightarrow> dentry_ok st d (dentries st d)" "m < next_mount st \<Longrightarrow> mount_ok st (mounts st m)"
    "path_ok st (proot (proc st))" "path_ok st (cwd (proc st))" "f < next_file st \<Longrightarrow> path_ok st (fpath (files st f))"
    "map_of (fds (proc st)) fd = Some x \<Longrightarrow> dfile x < next_file st" "dparent (dentries st vfs_root) = Some vfs_root"
  using assms unfolding vfs_wf_def by blast+

section \<open>Lookups\<close>

lemma populate_none: "mnt p = Some m \<Longrightarrow> populate st p name = retR (st, False)"
  by (simp add: populate_def instance_populate_def)

lemma populate_same: "populate st p name = retR (st', b) \<Longrightarrow> st' = st \<and> \<not> b"
  by (auto simp: populate_def instance_populate_def split: option.splits)

lemma resolve_mounts_ok:
  assumes "vfs_wf st" "path_ok st p" "resolve_mounts st p = retR q" shows "path_ok st q"
proof -
  have "vfs_wf st \<longrightarrow> path_ok st p \<longrightarrow> (\<forall>q. y = Inr q \<longrightarrow> path_ok st q)" if "resolve_mounts st p = Some y" for y
  proof (induction rule: resolve_mounts.raw_induct [OF _ that, consumes 0, case_names step])
    case (step f st p y)
    show ?case
    proof (intro impI allI)
      fix q assume a: "vfs_wf st" "path_ok st p" "y = Inr q"
      then obtain m where m: "mnt p = Some m" "(if dent p = mroot (mounts st m) then case mounted_on (mounts st m) of
          None \<Rightarrow> failR (Panic_msg ''bad optional access'') | Some q \<Rightarrow> f st q else retR p) = Some (Inr q)"
        using step(2) by (auto simp: failR_def split: option.splits)
      have "path_ok st x" if "mounted_on (mounts st m) = Some x" for x
        using vfs_wfD(3) [OF a(1), of m] a(2) m(1) that by (simp add: path_ok_def mount_ok_def)
      then show "path_ok st q" using m(2) a step(1) by (auto simp: retR_def failR_def split: option.splits if_splits)
    qed
  qed
  then show ?thesis using assms by (auto simp: retR_def)
qed

lemma cross_mounts_ok:
  assumes "vfs_wf st" "d < next_dentry st" "\<forall>k. m = Some k \<longrightarrow> k < next_mount st" "cross_mounts st m d = retR q" shows "path_ok st q"
proof -
  have "vfs_wf st \<longrightarrow> d < next_dentry st \<longrightarrow> (\<forall>k. m = Some k \<longrightarrow> k < next_mount st) \<longrightarrow> (\<forall>q. y = Inr q \<longrightarrow> path_ok st q)"
    if "cross_mounts st m d = Some y" for y
  proof (induction rule: cross_mounts.raw_induct [OF _ that, consumes 0, case_names step])
    case (step f st m d y)
    show ?case
    proof (intro impI allI)
      fix q assume a: "vfs_wf st" "d < next_dentry st" "\<forall>k. m = Some k \<longrightarrow> k < next_mount st" "y = Inr q"
      let ?P = "\<lambda>k. case mounted_on (mounts st k) of None \<Rightarrow> False | Some q \<Rightarrow> m = mnt q"
      show "path_ok st q"
      proof (cases "find ?P (child_mounts (dentries st d))")
        case None then show ?thesis using step(2) a by (auto simp: retR_def path_ok_def)
      next
        case (Some k)
        then have k: "k \<in> set (child_mounts (dentries st d))" by (metis find_Some_iff nth_mem)
        then have "k < next_mount st" using vfs_wfD(2) [OF a(1,2)] by (simp add: dentry_ok_def)
        moreover from this have "mroot (mounts st k) < next_dentry st" using vfs_wfD(3) [OF a(1)] by (simp add: mount_ok_def)
        moreover have "f st (Some k) (mroot (mounts st k)) = Some y" using step(2) Some by simp
        ultimately show ?thesis using step(1) a(1,4) by simp
      qed
    qed
  qed
  then show ?thesis using assms by (auto simp: retR_def)
qed

lemma child_ok:
  assumes "vfs_wf st" "path_ok st p" "map_of (children (dentries st (dent p))) n = Some d"
  shows "d < next_dentry st" "d \<noteq> vfs_root" "dname (dentries st d) = n" "dparent (dentries st d) = Some (dent p)"
    "cross_mounts st (mnt p) d = retR q \<Longrightarrow> path_ok st q"
proof -
  have "dentry_ok st (dent p) (dentries st (dent p))" using assms(1,2) vfs_wfD(2) by (simp add: path_ok_def)
  then show d: "d < next_dentry st" "d \<noteq> vfs_root" "dname (dentries st d) = n" "dparent (dentries st d) = Some (dent p)"
    using map_of_SomeD [OF assms(3)] by (simp_all add: dentry_ok_def)
  have "\<forall>k. mnt p = Some k \<longrightarrow> k < next_mount st" using assms(2) by (simp add: path_ok_def)
  then show "cross_mounts st (mnt p) d = retR q \<Longrightarrow> path_ok st q" using cross_mounts_ok [OF assms(1) d(1)] by blast
qed

lemma parent_path_ok: "vfs_wf st \<Longrightarrow> path_ok st p \<Longrightarrow> parent_path st p = retR q \<Longrightarrow> path_ok st q"
  by (auto simp: parent_path_def path_ok_def dentry_ok_def dest: vfs_wfD(2) split: option.splits)

lemma get_root_ok: "vfs_wf st \<Longrightarrow> path_ok st (get_root st b)"
  using vfs_wfD(1,4) [of st] vfs_wfD(2) [of st vfs_root]
  by (auto simp: get_root_def path_ok_def dentry_ok_def Let_def split: list.splits)

fun request_ok :: "vfs \<Rightarrow> request \<Rightarrow> bool" where
  "request_ok st (Resolve parent pn) \<longleftrightarrow> (\<forall>p. parent = Some p \<longrightarrow> path_ok st p)"
| "request_ok st (Segments current ss) \<longleftrightarrow> path_ok st current"
| "request_ok st (Reduce og parent src d) \<longleftrightarrow> path_ok st parent \<and> path_ok st src"

text \<open>A lookup does not change the state, and its results refer to what there is.\<close>

definition lookup_spec :: "vfs \<Rightarrow> request \<Rightarrow> vfs \<times> (vfs_error + vpath \<times> vpath) \<Rightarrow> bool" where
  "lookup_spec st req y \<longleftrightarrow>
     fst y = st \<and> (vfs_wf st \<longrightarrow> request_ok st req \<longrightarrow> (\<forall>p t. snd y = Inr (p, t) \<longrightarrow> path_ok st p \<and> path_ok st t))"

lemma lookup_specI: "lookup_spec st req (st, Inl e)" "(vfs_wf st \<Longrightarrow> request_ok st req \<Longrightarrow> path_ok st p \<and> path_ok st t) \<Longrightarrow> lookup_spec st req (st, Inr (p, t))"
  by (simp_all add: lookup_spec_def)

lemma lookup_spec_from: "lookup_spec st req' y \<Longrightarrow> (vfs_wf st \<Longrightarrow> request_ok st req \<Longrightarrow> request_ok st req') \<Longrightarrow> lookup_spec st req y"
  by (auto simp: lookup_spec_def)

lemma resolve_spec:
  assumes IH: "\<And>st req y. f st req = retR y \<Longrightarrow> lookup_spec st req y"
    and body: "(let pn = cwk_normalize c pn; parent = (if parent = None \<or> cwk_is_absolute c pn then get_root st False else the parent)
       in if pn = ''/'' \<or> pn = [] \<or> pn = ''.'' then retR (st, Inr (parent, parent))
          else if mnt parent = None then failR Bug_on else f st (Segments parent (segments pn))) = retR y"
  shows "lookup_spec st (Resolve parent pn) y"
proof -
  define pn' where "pn' = cwk_normalize c pn"
  define par where "par = (if parent = None \<or> cwk_is_absolute c pn' then get_root st False else the parent)"
  have po: "path_ok st par" if "vfs_wf st" "request_ok st (Resolve parent pn)" using that get_root_ok by (auto simp: par_def)
  have b: "(if pn' = ''/'' \<or> pn' = [] \<or> pn' = ''.'' then retR (st, Inr (par, par))
      else if mnt par = None then failR Bug_on else f st (Segments par (segments pn'))) = retR y"
    using body by (simp only: Let_def pn'_def [symmetric] par_def [symmetric])
  show ?thesis
  proof (cases "pn' = ''/'' \<or> pn' = [] \<or> pn' = ''.''")
    case True
    then have "y = (st, Inr (par, par))" using b by auto
    then show ?thesis using po by (auto intro: lookup_specI)
  next
    case False
    then have "f st (Segments par (segments pn')) = retR y" using b by (simp split: if_splits)
    then show ?thesis by (rule lookup_spec_from [OF IH]) (simp add: po)
  qed
qed

lemma dotdot_spec:
  assumes IH: "\<And>st req y. f st req = retR y \<Longrightarrow> lookup_spec st req y"
    and body: "bindR (resolve_mounts st current) (\<lambda>current. bindR (parent_path st current) (\<lambda>current. bindR (resolve_mounts st current) (\<lambda>current.
       if rest = [] then bindR (resolve_mounts st current) (\<lambda>parent. bindR (parent_path st parent) (\<lambda>parent.
         bindR (resolve_mounts st parent) (\<lambda>parent. retR (st, Inr (parent, current)))))
       else f st (Segments current rest)))) = retR y"
  shows "lookup_spec st (Segments current ss) y"
proof -
  obtain a b d where w: "resolve_mounts st current = retR a" "parent_path st a = retR b" "resolve_mounts st b = retR d"
    "(if rest = [] then bindR (resolve_mounts st d) (\<lambda>parent. bindR (parent_path st parent) (\<lambda>parent.
       bindR (resolve_mounts st parent) (\<lambda>parent. retR (st, Inr (parent, d))))) else f st (Segments d rest)) = retR y"
    using body by (auto simp: bindR_retR_iff)
  have d: "path_ok st d" if "vfs_wf st" "request_ok st (Segments current ss)"
    using that resolve_mounts_ok parent_path_ok w(1-3) by (metis request_ok.simps(2))
  show ?thesis
  proof (cases "rest = []")
    case True
    then obtain p where p: "y = (st, Inr (p, d))" "vfs_wf st \<longrightarrow> path_ok st d \<longrightarrow> path_ok st p"
      using w(4) by (auto simp: bindR_retR_iff) (metis resolve_mounts_ok parent_path_ok)
    then show ?thesis using d by (auto intro: lookup_specI)
  next
    case False
    then have "f st (Segments d rest) = retR y" using w(4) by simp
    then show ?thesis by (rule lookup_spec_from [OF IH]) (simp add: d)
  qed
qed

lemma child_spec:
  assumes IH: "\<And>st req y. f st req = retR y \<Longrightarrow> lookup_spec st req y"
    and child: "map_of (children (dentries st (dent current))) segment = Some d"
    and body: "bindR (cross_mounts st (mnt current) d) (\<lambda>next.
       if rest = [] then retR (st, Inr (current, next))
       else bindR (if stat_type (istat (inode_of st (dent next))) = s_iflnk then f st (Reduce symloop_max current next symloop_max)
                   else retR (st, Inr (current, next))) (\<lambda>(st, r).
         case r of Inl e \<Rightarrow> retR (st, Inl e)
         | Inr (_, next) \<Rightarrow> if stat_type (istat (inode_of st (dent next))) \<noteq> s_ifdir then retR (st, Inl Not_a_dir) else f st (Segments next rest))) = retR y"
  shows "lookup_spec st (Segments current ss) y"
proof -
  obtain n where n: "cross_mounts st (mnt current) d = retR n" using body by (auto simp: bindR_retR_iff)
  have po: "path_ok st current \<and> path_ok st n" if a: "vfs_wf st" "request_ok st (Segments current ss)"
    using child_ok(5) [OF a(1) _ child n] a(2) by simp
  show ?thesis
  proof (cases "rest = []")
    case True then show ?thesis using body n po by (auto intro: lookup_specI)
  next
    case False
    then obtain s r where sr: "(if stat_type (istat (inode_of st (dent n))) = s_iflnk then f st (Reduce symloop_max current n symloop_max) else retR (st, Inr (current, n))) = retR (s, r)"
      "(case r of Inl e \<Rightarrow> retR (s, Inl e) | Inr (_, next) \<Rightarrow> if stat_type (istat (inode_of s (dent next))) \<noteq> s_ifdir then retR (s, Inl Not_a_dir) else f s (Segments next rest)) = retR y"
      using body n by (auto simp: bindR_retR_iff)
    have s: "lookup_spec st (Reduce symloop_max current n symloop_max) (s, r)"
    proof (cases "stat_type (istat (inode_of st (dent n))) = s_iflnk")
      case True then show ?thesis using sr(1) by (intro IH) simp
    next
      case False then show ?thesis using sr(1) by (auto simp: lookup_spec_def)
    qed
    then have s': "lookup_spec st (Segments current ss) (s, r)" by (rule lookup_spec_from) (simp add: po)
    have ss: "s = st" using s by (simp add: lookup_spec_def)
    show ?thesis
    proof (cases r)
      case (Inl e) then show ?thesis using sr(2) ss by (auto intro: lookup_specI)
    next
      case (Inr pt)
      obtain p t where pt: "pt = (p, t)" by (cases pt)
      show ?thesis
      proof (cases "stat_type (istat (inode_of st (dent t))) = s_ifdir")
        case True
        then have "f st (Segments t rest) = retR y" using sr(2) ss Inr pt by simp
        then show ?thesis by (rule lookup_spec_from [OF IH]) (use s' Inr pt in \<open>simp add: lookup_spec_def\<close>)
      next
        case False then show ?thesis using sr(2) ss Inr pt by (auto intro: lookup_specI)
      qed
    qed
  qed
qed

lemma reduce_spec:
  assumes IH: "\<And>st req y. f st req = retR y \<Longrightarrow> lookup_spec st req y"
    and body: "bindR (f st (Resolve (Some parent) (symlinked_to (dentries st (dent src))))) (\<lambda>(st, r).
       case r of Inl _ \<Rightarrow> retR (st, Inl Invalid_symlink)
       | Inr (p, t) \<Rightarrow> if dent t = dent src then retR (st, Inl Invalid_symlink) else f st (Reduce og p t d)) = retR y"
  shows "lookup_spec st (Reduce og parent src depth) y"
proof -
  obtain s r where sr: "f st (Resolve (Some parent) (symlinked_to (dentries st (dent src)))) = retR (s, r)"
    "(case r of Inl _ \<Rightarrow> retR (s, Inl Invalid_symlink)
      | Inr (p, t) \<Rightarrow> if dent t = dent src then retR (s, Inl Invalid_symlink) else f s (Reduce og p t d)) = retR y"
    using body by (auto simp: bindR_retR_iff)
  note s = IH [OF sr(1)]
  have ss: "s = st" using s by (simp add: lookup_spec_def)
  show ?thesis
  proof (cases r)
    case (Inl e) then show ?thesis using sr(2) ss by (auto intro: lookup_specI)
  next
    case (Inr pt)
    obtain p t where pt: "pt = (p, t)" by (cases pt)
    show ?thesis
    proof (cases "dent t = dent src")
      case True then show ?thesis using sr(2) ss Inr pt by (auto intro: lookup_specI)
    next
      case False
      then have "f st (Reduce og p t d) = retR y" using sr(2) ss Inr pt by simp
      then show ?thesis by (rule lookup_spec_from [OF IH]) (use s Inr pt in \<open>simp add: lookup_spec_def\<close>)
    qed
  qed
qed

lemma lookup_spec_ok:
  assumes "lookup_path c st req = retR y" shows "lookup_spec st req y"
proof -
  have "\<forall>y. z = Inr y \<longrightarrow> lookup_spec st req y" if "lookup_path c st req = Some z" for z
  proof (induction rule: lookup_path.raw_induct [OF _ that, consumes 0, case_names step])
    case (step f c st req z)
    have IH: "lookup_spec st req y" if "f c st req = retR y" for st req y
      using step(1) [of c st req "Inr y"] that by (simp add: retR_def)
    have "lookup_spec st req y" if z: "z = Inr y" for y
    proof (cases req)
      case (Resolve parent pn)
      then show ?thesis using step(2) z resolve_spec [OF IH, where parent = parent and pn = pn] by (simp flip: retR_def)
    next
      case (Segments current ss)
      show ?thesis
      proof (cases ss)
        case Nil then show ?thesis using step(2) z Segments by (auto simp: retR_def intro: lookup_specI)
      next
        case (Cons segment rest)
        note body = step(2) [unfolded z Segments Cons, simplified, folded retR_def]
        consider "segment = []" | "segment = ''..''"
          | "segment \<noteq> []" "segment \<noteq> ''..''" "map_of (children (dentries st (dent current))) segment = None"
          | d where "segment \<noteq> []" "segment \<noteq> ''..''" "map_of (children (dentries st (dent current))) segment = Some d" by blast
        then show ?thesis
        proof cases
          case 1
          then have "f c st (Segments current rest) = retR y" using body by simp
          then show ?thesis unfolding Segments by (rule lookup_spec_from [OF IH]) simp
        next
          case 2 show ?thesis unfolding Segments by (rule dotdot_spec [OF IH, where rest = rest]) (use body [unfolded 2] in \<open>simp_all\<close>)
        next
          case 3
          then obtain s b where "populate st current segment = retR (s, b)"
            "(if b then f c s (Segments current (segment # rest)) else retR (s, Inl Not_found)) = retR y"
            using body by (auto simp: bindR_retR_iff)
          with populate_same [OF this(1)] have "y = (st, Inl Not_found)" by simp
          then show ?thesis using lookup_specI(1) by simp
        next
          case (4 d) show ?thesis unfolding Segments by (rule child_spec [OF IH 4(3), where rest = rest]) (use body 4 in \<open>simp_all\<close>)
        qed
      qed
    next
      case (Reduce og parent src depth)
      show ?thesis
      proof (cases depth)
        case 0 then show ?thesis using step(2) z Reduce by (auto simp: retR_def lookup_spec_def split: if_splits)
      next
        case (Suc d)
        note body = step(2) [unfolded z Reduce Suc, simplified, folded retR_def]
        show ?thesis
        proof (cases "is_symlink st src")
          case False then show ?thesis using body Reduce by (auto simp: lookup_spec_def)
        next
          case True show ?thesis unfolding Reduce by (rule reduce_spec [OF IH, where d = d]) (use body True in \<open>simp_all\<close>)
        qed
      qed
    qed
    then show ?case by blast
  qed
  then show ?thesis using assms by (cases y) (auto simp: retR_def)
qed

lemma resolve_ok:
  assumes "resolve c st parent pn = retR (st', r)"
  shows "st' = st" "vfs_wf st \<Longrightarrow> (\<forall>p. parent = Some p \<longrightarrow> path_ok st p) \<Longrightarrow> r = Inr (p, t) \<Longrightarrow> path_ok st p \<and> path_ok st t"
  using lookup_spec_ok [OF assms [unfolded resolve_def]] by (auto simp: lookup_spec_def)

lemma reduce_ok:
  assumes "reduce c st parent src n = retR (st', r)"
  shows "st' = st" "vfs_wf st \<Longrightarrow> path_ok st parent \<Longrightarrow> path_ok st src \<Longrightarrow> r = Inr t \<Longrightarrow> path_ok st t"
proof -
  obtain q where q: "lookup_path c st (Reduce n parent src n) = retR (st', q)" "r = map_sum id snd q"
    using assms by (auto simp: reduce_def bindR_retR_iff)
  note S = lookup_spec_ok [OF q(1), unfolded lookup_spec_def]
  show "st' = st" using S by simp
  show "path_ok st t" if "vfs_wf st" "path_ok st parent" "path_ok st src" "r = Inr t"
    using S that q(2) by (cases q) auto
qed

lemma new_name_ok:
  assumes "new_name c st parent pn = retR (st', r)"
  shows "st' = st" "vfs_wf st \<Longrightarrow> (\<forall>p. parent = Some p \<longrightarrow> path_ok st p) \<Longrightarrow> r = Inr t \<Longrightarrow> path_ok st t"
proof -
  obtain s q where q: "resolve c st parent pn = retR (s, q)"
    "(case q of Inr _ \<Rightarrow> retR (s, Inl Already_exists)
      | Inl _ \<Rightarrow> bindR (resolve c s parent (cwk_normalize c (cwk_dirname c pn))) (\<lambda>(st, r). retR (st, map_sum id snd r))) = retR (st', r)"
    using assms by (auto simp: new_name_def bindR_retR_iff)
  have s: "s = st" by (rule resolve_ok(1) [OF q(1)])
  show "st' = st" using q(2) s resolve_ok(1) by (cases q) (auto simp: bindR_retR_iff)
  show "path_ok st t" if w: "vfs_wf st" "\<forall>p. parent = Some p \<longrightarrow> path_ok st p" "r = Inr t"
  proof (cases q)
    case (Inl e)
    then obtain z where z: "resolve c st parent (cwk_normalize c (cwk_dirname c pn)) = retR (st', z)" "Inr t = map_sum id snd z"
      using q(2) s w(3) by (auto simp: bindR_retR_iff)
    then obtain p where "z = Inr (p, t)" by (cases z) auto
    then show ?thesis using resolve_ok(2) [OF z(1) w(1,2)] by blast
  qed (use q(2) w(3) in auto)
qed

section \<open>New entries\<close>

text \<open>What a state keeps when entries, inodes and instances are added.\<close>

definition vfs_extends :: "vfs \<Rightarrow> vfs \<Rightarrow> bool" where
  "vfs_extends st st' \<longleftrightarrow>
     next_dentry st \<le> next_dentry st' \<and> next_inode_id st \<le> next_inode_id st' \<and> next_instance st \<le> next_instance st' \<and>
     next_mount st \<le> next_mount st' \<and> next_file st \<le> next_file st'"

lemma path_ok_mono: "path_ok st p \<Longrightarrow> vfs_extends st st' \<Longrightarrow> path_ok st' p"
  by (auto simp: path_ok_def vfs_extends_def intro: less_le_trans)

text \<open>The invariant depends on the tables only.\<close>

lemma vfs_wf_cong:
  assumes "vfs_wf st" "dentries st' = dentries st" "next_dentry st' = next_dentry st" "next_inode_id st \<le> next_inode_id st'"
    "mounts st' = mounts st" "next_mount st' = next_mount st" "next_instance st \<le> next_instance st'" "proc st' = proc st"
    "files st' = files st" "next_file st' = next_file st" "filesystems st' = filesystems st"
  shows "vfs_wf st'"
proof -
  have e: "vfs_extends st st'" using assms by (simp add: vfs_extends_def)
  have d: "dentry_ok st' d x" if "dentry_ok st d x" for d x using that assms unfolding dentry_ok_def by auto
  have m: "mount_ok st' x" if "mount_ok st x" for x using that e path_ok_mono [OF _ e] assms(3,7) by (auto simp: mount_ok_def)
  have "dentry_ok st' k (dentries st' k)" if "k < next_dentry st'" for k using d vfs_wfD(2) [OF assms(1)] that by (simp add: assms)
  moreover have "mount_ok st' (mounts st' k)" if "k < next_mount st'" for k using m vfs_wfD(3) [OF assms(1)] that by (simp add: assms)
  moreover have "path_ok st' (fpath (files st' f))" if "f < next_file st'" for f
    using path_ok_mono [OF vfs_wfD(6) [OF assms(1)] e] that by (simp add: assms)
  moreover have "k < next_instance st'" "r < next_dentry st'" if "map_of (filesystems st') nm = Some (Devtmpfs k r)" for nm k r
  proof -
    have "k < next_instance st" "r < next_dentry st" using assms(1) that unfolding vfs_wf_def assms(11) by blast+
    then show "k < next_instance st'" "r < next_dentry st'" using assms(3,7) by simp_all
  qed
  moreover note vfs_wfD(1,7,8) [OF assms(1)] path_ok_mono [OF vfs_wfD(4) [OF assms(1)] e] path_ok_mono [OF vfs_wfD(5) [OF assms(1)] e]
  ultimately show ?thesis unfolding vfs_wf_def by (simp add: assms)
qed

lemma instance_create_props:
  assumes "instance_create st k mode op = (st', i)"
  shows "i = next_inode_id st" "next_inode_id st' = next_inode_id st + 1" "dentries st' = dentries st" "next_dentry st' = next_dentry st"
    "mounts st' = mounts st" "next_mount st' = next_mount st" "next_instance st' = next_instance st" "proc st' = proc st"
    "files st' = files st" "next_file st' = next_file st" "filesystems st' = filesystems st"
    "sched_initialised st' = sched_initialised st" "j \<noteq> i \<Longrightarrow> inodes st' j = inodes st j"
    "istat (inodes st' i) = \<lparr>st_dev = dev_id (instances st k), st_ino = next_inode (instances st k), st_mode = mode, st_nlink = 1,
       st_uid = euid (proc st), st_gid = egid (proc st), st_rdev = 0, st_size = 0, st_blksize = 512, st_blocks = 0\<rparr>"
    "iop (inodes st' i) = Some (case op of None \<Rightarrow> Tmpfs_ops | Some q \<Rightarrow> q)"
  using assms by (auto simp: instance_create_def tmpfs_inode_def new_memobject_def set_inode_def Let_def)

lemma enter_child_props:
  assumes "enter_child rp name link i st = (st', q)" "dent rp < next_dentry st"
  shows "q = rp\<lparr>dent := next_dentry st\<rparr>" "next_dentry st' = next_dentry st + 1"
    "dentries st' = (dentries st)(next_dentry st := \<lparr>dname = name, symlinked_to = link, dinode = Some i, dparent = Some (dent rp), children = [], child_mounts = []\<rparr>,
       dent rp := (dentries st (dent rp))\<lparr>children := map_set name (next_dentry st) (children (dentries st (dent rp)))\<rparr>)"
    "inodes st' = inodes st" "next_inode_id st' = next_inode_id st" "mounts st' = mounts st" "next_mount st' = next_mount st"
    "next_instance st' = next_instance st" "proc st' = proc st" "files st' = files st" "next_file st' = next_file st"
    "filesystems st' = filesystems st" "sched_initialised st' = sched_initialised st" "memst st' = memst st"
  using assms by (auto simp: enter_child_def new_dentry_def set_dentry_def Let_def)

lemma enter_child_wf:
  assumes wf: "vfs_wf st" and rp: "path_ok st rp" and i: "i < next_inode_id st" and e: "enter_child rp name link i st = (st', q)"
  shows "vfs_wf st'" "path_ok st' q"
proof -
  let ?n = "next_dentry st" and ?d = "dent rp"
  have d: "?d < ?n" using rp by (simp add: path_ok_def)
  note E = enter_child_props [OF e d]
  have ext: "vfs_extends st st'" using E by (simp add: vfs_extends_def)
  note po = path_ok_mono [OF _ ext]
  have name_kept: "dname (dentries st' k) = dname (dentries st k)" "dparent (dentries st' k) = dparent (dentries st k)" if "k < ?n" for k
    using that by (auto simp: E(3))
  have old: "dentry_ok st' k x" if "dentry_ok st k x" for k x
    using that unfolding dentry_ok_def E(2,5,7) by (simp add: name_kept less_Suc_eq)
  have "dentry_ok st' k (dentries st' k)" if kn: "k < next_dentry st'" for k
  proof -
    consider "k = ?n" | "k = ?d" | "k < ?n" "k \<noteq> ?d" using kn E(2) by linarith
    then show ?thesis
    proof cases
      case 1 then show ?thesis using d i by (simp add: dentry_ok_def E(2,3,5))
    next
      case 2
      have o: "dentry_ok st' ?d (dentries st ?d)" by (rule old [OF vfs_wfD(2) [OF wf d]])
      have n0: "?n \<noteq> 0" using vfs_wfD(1) [OF wf] by simp
      have "dname (dentries st' ?n) = name" "dparent (dentries st' ?n) = Some ?d" "?n < next_dentry st'" using d by (simp_all add: E(2,3))
      moreover have "dentries st' ?d = (dentries st ?d)\<lparr>children := (name, ?n) # filter (\<lambda>x. fst x \<noteq> name) (children (dentries st ?d))\<rparr>"
        by (simp add: E(3) map_set_def)
      ultimately show ?thesis using o n0 unfolding 2 dentry_ok_def by auto
    next
      case 3 then show ?thesis using old [OF vfs_wfD(2) [OF wf 3(1)]] by (simp add: E(3))
    qed
  qed
  moreover have "mount_ok st' (mounts st' m)" if "m < next_mount st'" for m
    using vfs_wfD(3) [OF wf, of m] that po E(2,6-8) by (auto simp: mount_ok_def)
  moreover have "dparent (dentries st' 0) = Some 0" using vfs_wfD(1,8) [OF wf] name_kept(2) by metis
  moreover have "path_ok st' (fpath (files st' f))" if "f < next_file st'" for f using vfs_wfD(6) [OF wf] that po E(10,11) by simp
  moreover have "k < next_instance st'" "r < next_dentry st'" if "map_of (filesystems st') nm = Some (Devtmpfs k r)" for nm k r
  proof -
    have "k < next_instance st" "r < next_dentry st" using wf that unfolding vfs_wf_def E(12) by blast+
    then show "k < next_instance st'" "r < next_dentry st'" by (simp_all add: E)
  qed
  ultimately show "vfs_wf st'"
    unfolding vfs_wf_def using vfs_wfD(7) [OF wf] po [OF vfs_wfD(4) [OF wf]] po [OF vfs_wfD(5) [OF wf]] E(2,9,11) by simp
  show "path_ok st' q" using rp E(1,2,7) by (simp add: path_ok_def)
qed

section \<open>Paths as sequences of names\<close>

definition path_names :: "string \<Rightarrow> string list" where
  "path_names pn = filter (\<lambda>s. s \<noteq> []) (segments pn)"

definition is_dir_at :: "vfs \<Rightarrow> vpath \<Rightarrow> bool" where
  "is_dir_at st p \<longleftrightarrow> stat_type (istat (inode_of st (dent p))) = s_ifdir"

text \<open>
  Where a sequence of names leads: from directory to directory, crossing mounts, with no
  symbolic link on the way. This is what a path means as long as it neither goes up nor follows links.
\<close>

fun descend :: "vfs \<Rightarrow> vpath \<Rightarrow> string list \<Rightarrow> vpath option" where
  "descend st p [] = Some p"
| "descend st p (n # ns) =
     (if n = [] \<or> n = ''..'' then None
      else case map_of (children (dentries st (dent p))) n of None \<Rightarrow> None
        | Some d \<Rightarrow> (case cross_mounts st (mnt p) d of
            Some (Inr q) \<Rightarrow> if ns = [] \<or> is_dir_at st q then descend st q ns else None
          | _ \<Rightarrow> None))"

lemma descend_Cons:
  assumes "descend st p (n # ns) = Some t"
  obtains d q where "n \<noteq> []" "n \<noteq> ''..''" "map_of (children (dentries st (dent p))) n = Some d" "cross_mounts st (mnt p) d = retR q"
    "ns = [] \<or> is_dir_at st q" "descend st q ns = Some t"
  using assms that by (auto simp: retR_def split: if_splits option.splits sum.splits)

lemma descend_snoc:
  assumes "descend st p (ns @ [n]) = Some t"
  shows "\<exists>q. descend st p ns = Some q \<and> (ns = [] \<or> is_dir_at st q) \<and> descend st q [n] = Some t"
  using assms
proof (induction ns arbitrary: p)
  case (Cons m ns)
  have "descend st p (m # (ns @ [n])) = Some t" using Cons.prems by simp
  then obtain d q where q: "m \<noteq> []" "m \<noteq> ''..''" "map_of (children (dentries st (dent p))) m = Some d" "cross_mounts st (mnt p) d = retR q"
    "ns @ [n] = [] \<or> is_dir_at st q" "descend st q (ns @ [n]) = Some t" by (rule descend_Cons)
  from Cons.IH [OF q(6)] show ?case using q by (auto simp: retR_def)
qed simp

lemma lookup_last:
  assumes "n \<noteq> []" "n \<noteq> ''..''" "map_of (children (dentries st (dent p))) n = Some d" "cross_mounts st (mnt p) d = retR t"
  shows "lookup_path c st (Segments p [n]) = retR (st, Inr (p, t))"
  using assms by (subst lookup_path.simps) simp

lemma lookup_dir:
  assumes "n \<noteq> []" "n \<noteq> ''..''" "map_of (children (dentries st (dent p))) n = Some d" "cross_mounts st (mnt p) d = retR q"
    "is_dir_at st q" "rest \<noteq> []"
  shows "lookup_path c st (Segments p (n # rest)) = lookup_path c st (Segments q rest)"
  using assms by (subst lookup_path.simps) (simp add: is_dir_at_def)

lemma lookup_empty: "lookup_path c st (Segments p ([] # rest)) = lookup_path c st (Segments p rest)"
  by (subst lookup_path.simps) simp

lemma lookup_absent:
  assumes "n \<noteq> []" "n \<noteq> ''..''" "map_of (children (dentries st (dent p))) n = None" "mnt p = Some m"
  shows "lookup_path c st (Segments p (n # rest)) = retR (st, Inl Not_found)"
  using assms by (subst lookup_path.simps) (simp add: populate_none)

lemma filter_last: "ss \<noteq> [] \<Longrightarrow> last ss \<noteq> [] \<Longrightarrow> filter (\<lambda>s. s \<noteq> []) ss \<noteq> []"
  by (metis (mono_tags, lifting) filter_empty_conv last_in_set)

text \<open>The loop over the segments of a path follows its names.\<close>

lemma segments_descend:
  assumes "ss \<noteq> []" "last ss \<noteq> []" "filter (\<lambda>s. s \<noteq> []) ss = ns @ [n]" "descend st p ns = Some q" "ns = [] \<or> is_dir_at st q"
  shows "lookup_path c st (Segments p ss) = lookup_path c st (Segments q [n])"
  using assms
proof (induction ss arbitrary: p ns)
  case (Cons s rest)
  show ?case
  proof (cases "s = []")
    case True
    then have "rest \<noteq> []" "last rest \<noteq> []" using Cons.prems(2) by (auto split: if_splits)
    then show ?thesis using True Cons.IH [of ns p] Cons.prems(3-5) by (simp add: lookup_empty)
  next
    case False
    show ?thesis
    proof (cases ns)
      case Nil
      then have "filter (\<lambda>s. s \<noteq> []) rest = []" "s = n" using Cons.prems(3) False by auto
      moreover from this have "rest = []" using filter_last [of rest] Cons.prems(2) by (auto split: if_splits)
      ultimately show ?thesis using Nil Cons.prems(4) by simp
    next
      case (Cons s' ns')
      then have s: "s' = s" "filter (\<lambda>s. s \<noteq> []) rest = ns' @ [n]" using Cons.prems(3) False by auto
      then have rest: "rest \<noteq> []" by auto
      from Cons.prems(4) [unfolded Cons s(1)] obtain k q1 where
        k: "s \<noteq> ''..''" "map_of (children (dentries st (dent p))) s = Some k" "cross_mounts st (mnt p) k = retR q1"
          "ns' = [] \<or> is_dir_at st q1" "descend st q1 ns' = Some q" by (rule descend_Cons)
      have dir: "is_dir_at st q1" using k(4,5) Cons.prems(5) Cons by auto
      have "last rest \<noteq> []" using Cons.prems(2) rest by simp
      from Cons.IH [OF rest this s(2) k(5)] have "lookup_path c st (Segments q1 rest) = lookup_path c st (Segments q [n])"
        using Cons.prems(5) Cons by auto
      then show ?thesis using lookup_dir [OF False k(1-3) dir rest] by simp
    qed
  qed
qed simp

section \<open>What the path functions have to do\<close>

text \<open>
  The behaviour of the cwalk functions on a path \<open>pn\<close> that the file system relies on: the
  path is normalised, so that no slash ends it; its directory part and its last name
  are split off correctly and are normalised again; and both are absolute or relative together.
\<close>

definition here :: "string \<Rightarrow> bool" where
  "here pn \<longleftrightarrow> pn = ''/'' \<or> pn = [] \<or> pn = ''.''"

definition dir_names :: "string \<Rightarrow> string list" where
  "dir_names pn = (if here pn then [] else path_names pn)"

definition normal_path :: "cwalk \<Rightarrow> string \<Rightarrow> bool" where
  "normal_path c pn \<longleftrightarrow> cwk_normalize c pn = pn \<and> (\<not> here pn \<longrightarrow> last (segments pn) \<noteq> [])"

definition splits_path :: "cwalk \<Rightarrow> string \<Rightarrow> string \<Rightarrow> string \<Rightarrow> bool" where
  "splits_path c pn dir name \<longleftrightarrow>
     normal_path c pn \<and> \<not> here pn \<and> cwk_normalize c (cwk_dirname c pn) = dir \<and> normal_path c dir \<and>
     cwk_normalize c (cwk_basename c pn) = name \<and> cwk_is_absolute c dir = cwk_is_absolute c pn \<and>
     path_names pn = dir_names dir @ [name]"

lemma splits_name: "splits_path c pn dir name \<Longrightarrow> name \<noteq> []"
proof -
  assume "splits_path c pn dir name"
  then have "name \<in> set (path_names pn)" by (simp add: splits_path_def)
  then show ?thesis by (simp add: path_names_def)
qed

definition start_of :: "cwalk \<Rightarrow> vfs \<Rightarrow> vpath option \<Rightarrow> string \<Rightarrow> vpath" where
  "start_of c st parent pn = (if parent = None \<or> cwk_is_absolute c pn then get_root st False else the parent)"

lemma resolve_start:
  assumes "normal_path c pn"
  shows "here pn \<Longrightarrow> resolve c st parent pn = retR (st, Inr (start_of c st parent pn, start_of c st parent pn))"
    "\<not> here pn \<Longrightarrow> mnt (start_of c st parent pn) \<noteq> None \<Longrightarrow>
       resolve c st parent pn = lookup_path c st (Segments (start_of c st parent pn) (segments pn))"
proof -
  define b where "b = start_of c st parent pn"
  have "resolve c st parent pn = (if here pn then retR (st, Inr (b, b)) else if mnt b = None then failR Bug_on else lookup_path c st (Segments b (segments pn)))"
    using assms by (simp add: resolve_def lookup_path.simps [of _ _ "Resolve _ _"] normal_path_def here_def b_def start_of_def Let_def)
  then show "here pn \<Longrightarrow> resolve c st parent pn = retR (st, Inr (start_of c st parent pn, start_of c st parent pn))"
    "\<not> here pn \<Longrightarrow> mnt (start_of c st parent pn) \<noteq> None \<Longrightarrow>
       resolve c st parent pn = lookup_path c st (Segments (start_of c st parent pn) (segments pn))"
    unfolding b_def by auto
qed

lemma segments_nonempty: "pn \<noteq> [] \<Longrightarrow> segments pn \<noteq> []"
proof -
  have "split_slash x \<noteq> []" for x by (induction x) (auto split: list.splits)
  then show "pn \<noteq> [] \<Longrightarrow> segments pn \<noteq> []" by (simp add: segments_def)
qed

lemma resolve_name:
  assumes sp: "splits_path c pn dir name" and m: "mnt (start_of c st parent pn) \<noteq> None"
    and d: "descend st (start_of c st parent pn) (dir_names dir) = Some q" and dir: "dir_names dir = [] \<or> is_dir_at st q"
  shows "resolve c st parent pn = lookup_path c st (Segments q [name])"
proof -
  have "pn \<noteq> []" "last (segments pn) \<noteq> []" "filter (\<lambda>s. s \<noteq> []) (segments pn) = dir_names dir @ [name]"
    using sp by (auto simp: splits_path_def normal_path_def here_def path_names_def)
  from segments_descend [OF segments_nonempty [OF this(1)] this(2,3) d dir]
  show ?thesis using resolve_start(2) [of c pn st parent] sp m by (simp add: splits_path_def)
qed

lemma resolve_directory:
  assumes sp: "splits_path c pn dir name" and m: "mnt (start_of c st parent pn) \<noteq> None"
    and d: "descend st (start_of c st parent pn) (dir_names dir) = Some q"
  shows "\<exists>x. resolve c st parent dir = retR (st, Inr (x, q))"
proof (cases "here dir")
  case True
  then show ?thesis using resolve_start(1) [of c dir st parent] sp d by (simp add: splits_path_def dir_names_def start_of_def)
next
  case False
  have so: "start_of c st parent dir = start_of c st parent pn" using sp by (simp add: splits_path_def start_of_def)
  have np: "normal_path c dir" using sp by (simp add: splits_path_def)
  have ss: "segments dir \<noteq> []" "last (segments dir) \<noteq> []"
    using False np segments_nonempty by (auto simp: normal_path_def here_def)
  have names: "dir_names dir = filter (\<lambda>s. s \<noteq> []) (segments dir)" using False by (simp add: dir_names_def path_names_def)
  then obtain ns n where ns: "dir_names dir = ns @ [n]" using filter_last [OF ss] by (metis rev_exhaust)
  obtain p where p: "descend st (start_of c st parent pn) ns = Some p" "ns = [] \<or> is_dir_at st p" "descend st p [n] = Some q"
    using descend_snoc [OF d [unfolded ns]] by blast
  from p(3) obtain k where k: "n \<noteq> []" "n \<noteq> ''..''" "map_of (children (dentries st (dent p))) n = Some k" "cross_mounts st (mnt p) k = retR q"
    by (metis descend.simps(1) descend_Cons option.inject)
  have "resolve c st parent dir = lookup_path c st (Segments p [n])"
    using resolve_start(2) [OF np False] m so segments_descend [OF ss _ p(1,2), of n c] names ns by simp
  then show ?thesis using lookup_last [OF k] by simp
qed

end
