(* ===== verification/Vfs_Tree.thy ===== *)
theory Vfs_Tree
  imports Vfs_Lookup
begin

text \<open>
  Changing the file system tree: \<open>create\<close>, \<open>unlink\<close>, symbolic links and mounts with the paths they
  add and remove, \<open>openat\<close> and the other calls on descriptors, and the states the kernel can reach
  by initialisation tasks and calls, in all of which the tree is well formed. A sample file system
  serves the witnesses.
\<close>

section \<open>States in which the tree has only grown\<close>

definition keeps :: "vfs \<Rightarrow> vfs \<Rightarrow> bool" where
  "keeps st st' \<longleftrightarrow>
     (\<forall>m < next_mount st. mounts st' m = mounts st m) \<and>
     (\<forall>d < next_dentry st. child_mounts (dentries st' d) = child_mounts (dentries st d) \<and>
        stat_type (istat (inode_of st' d)) = stat_type (istat (inode_of st d)) \<and>
        (\<forall>n k. map_of (children (dentries st d)) n = Some k \<longrightarrow> map_of (children (dentries st' d)) n = Some k))"

lemma keeps_refl: "keeps st st"
  by (simp add: keeps_def)

lemma cross_mounts_keeps:
  assumes "vfs_wf st" "d < next_dentry st" "keeps st st'" "cross_mounts st m d = retR q" shows "cross_mounts st' m d = retR q"
proof -
  have "vfs_wf st \<longrightarrow> d < next_dentry st \<longrightarrow> keeps st st' \<longrightarrow> (\<forall>q. y = Inr q \<longrightarrow> cross_mounts st' m d = retR q)"
    if "cross_mounts st m d = Some y" for y
  proof (induction rule: cross_mounts.raw_induct [OF _ that, consumes 0, case_names step])
    case (step f st m d y)
    show ?case
    proof (intro impI allI)
      fix q assume a: "vfs_wf st" "d < next_dentry st" "keeps st st'" "y = Inr q"
      have cm: "\<forall>k\<in>set (child_mounts (dentries st d)). k < next_mount st" using vfs_wfD(2) [OF a(1,2)] by (simp add: dentry_ok_def)
      let ?P = "\<lambda>st k. case mounted_on (mounts st k) of None \<Rightarrow> False | Some q \<Rightarrow> m = mnt q"
      have f: "find (?P st') (child_mounts (dentries st' d)) = find (?P st) (child_mounts (dentries st d))"
        using a(2,3) cm by (intro find_cong) (auto simp: keeps_def)
      show "cross_mounts st' m d = retR q"
      proof (cases "find (?P st) (child_mounts (dentries st d))")
        case None then show ?thesis using step(2) a(4) f by (simp add: retR_def cross_mounts.simps)
      next
        case (Some k)
        then have k: "k < next_mount st" using cm by (metis find_Some_iff nth_mem)
        then have r: "mroot (mounts st k) < next_dentry st" using vfs_wfD(3) [OF a(1)] by (simp add: mount_ok_def)
        have "f st (Some k) (mroot (mounts st k)) = Some y" using step(2) Some by simp
        then have "cross_mounts st' (Some k) (mroot (mounts st k)) = retR q" using step(1) a r by blast
        moreover have "mounts st' k = mounts st k" using a(3) k by (simp add: keeps_def)
        ultimately show ?thesis using f Some by (simp add: cross_mounts.simps [of st' m d])
      qed
    qed
  qed
  then show ?thesis using assms by (auto simp: retR_def)
qed

lemma descend_ok:
  assumes "vfs_wf st" "path_ok st p" "descend st p ns = Some q" shows "path_ok st q"
  using assms(2,3)
proof (induction ns arbitrary: p)
  case (Cons n ns)
  from Cons.prems(2) obtain d q1 where d: "map_of (children (dentries st (dent p))) n = Some d" "cross_mounts st (mnt p) d = retR q1" "descend st q1 ns = Some q"
    by (rule descend_Cons)
  have "path_ok st q1" by (rule child_ok(5) [OF assms(1) Cons.prems(1) d(1,2)])
  then show ?case using Cons.IH d(3) by blast
qed simp

lemma descend_keeps:
  assumes "vfs_wf st" "keeps st st'" "path_ok st p" "descend st p ns = Some q" shows "descend st' p ns = Some q"
  using assms(3,4)
proof (induction ns arbitrary: p)
  case (Cons n ns)
  from Cons.prems(2) obtain d q1 where d: "n \<noteq> []" "n \<noteq> ''..''" "map_of (children (dentries st (dent p))) n = Some d"
    "cross_mounts st (mnt p) d = retR q1" "ns = [] \<or> is_dir_at st q1" "descend st q1 ns = Some q" by (rule descend_Cons)
  note dn = child_ok(1) [OF assms(1) Cons.prems(1) d(3)] and q1 = child_ok(5) [OF assms(1) Cons.prems(1) d(3,4)]
  have "map_of (children (dentries st' (dent p))) n = Some d" using assms(2) Cons.prems(1) d(3) by (simp add: keeps_def path_ok_def)
  moreover note cross_mounts_keeps [OF assms(1) dn assms(2) d(4)] Cons.IH [OF q1 d(6)]
  moreover have "ns = [] \<or> is_dir_at st' q1" using d(5) assms(2) q1 by (simp add: keeps_def path_ok_def is_dir_at_def)
  ultimately show ?case using d(1,2) by (auto simp: retR_def)
qed simp

lemma instance_create_keeps:
  assumes "vfs_wf st" "instance_create st k mode op = (st', i)" shows "keeps st st'" "vfs_wf st'" "i < next_inode_id st'"
proof -
  note P = instance_create_props [OF assms(2)]
  have "inode_of st' d = inode_of st d" if "d < next_dentry st" for d
    using vfs_wfD(2) [OF assms(1) that] P(1,3,13) by (simp add: dentry_ok_def inode_of_def)
  then show "keeps st st'" using P(3,5) by (simp add: keeps_def)
  show "vfs_wf st'" by (rule vfs_wf_cong [OF assms(1)]) (simp_all add: P)
  show "i < next_inode_id st'" by (simp add: P)
qed

lemma enter_child_keeps:
  assumes "vfs_wf st" "path_ok st rp" "map_of (children (dentries st (dent rp))) name = None" "enter_child rp name link i st = (st', q)"
  shows "keeps st st'" "map_of (children (dentries st' (dent rp))) name = Some (next_dentry st)"
proof -
  have d: "dent rp < next_dentry st" using assms(2) by (simp add: path_ok_def)
  note E = enter_child_props [OF assms(4) d]
  have ch: "children (dentries st' (dent rp)) = map_set name (next_dentry st) (children (dentries st (dent rp)))" by (simp add: E(3))
  have ms: "map_of (map_set a b xs) n = (if n = a then Some b else map_of xs n)" for a b n and xs :: "(string \<times> nat) list"
    by (induction xs) (auto simp: map_set_def)
  show "map_of (children (dentries st' (dent rp))) name = Some (next_dentry st)" by (simp add: ch ms)
  show "keeps st st'"
    using assms(3) by (auto simp: keeps_def E(3,4,6) inode_of_def ms)
qed

lemma keeps_trans:
  assumes "keeps st s" "keeps s st'" "next_dentry st \<le> next_dentry s" "next_mount st \<le> next_mount s" shows "keeps st st'"
  using assms unfolding keeps_def by (metis less_le_trans)

lemma start_of_keeps:
  assumes "vfs_wf st" "keeps st st'" "proc st' = proc st" "sched_initialised st' = sched_initialised st"
  shows "start_of c st' parent pn = start_of c st parent pn"
  using assms vfs_wfD(1) [OF assms(1)] by (auto simp: start_of_def get_root_def keeps_def)

lemma start_of_ok: "vfs_wf st \<Longrightarrow> \<forall>p. parent = Some p \<longrightarrow> path_ok st p \<Longrightarrow> path_ok st (start_of c st parent pn)"
  using get_root_ok by (auto simp: start_of_def)

text \<open>The directory of a new name.\<close>

lemma new_name_found:
  assumes "splits_path c pn dir name" "mnt (start_of c st parent pn) \<noteq> None"
    and "descend st (start_of c st parent pn) (dir_names dir) = Some q" "dir_names dir = [] \<or> is_dir_at st q" "mnt q = Some m"
    and "name \<noteq> ''..''" "map_of (children (dentries st (dent q))) name = None"
  shows "new_name c st parent pn = retR (st, Inr q)"
proof -
  note ne = splits_name [OF assms(1)]
  have "resolve c st parent pn = retR (st, Inl Not_found)"
    using resolve_name [OF assms(1-4)] lookup_absent [OF ne assms(6,7,5)] by simp
  moreover obtain x where "resolve c st parent dir = retR (st, Inr (x, q))" using resolve_directory [OF assms(1-3)] by blast
  moreover have "cwk_normalize c (cwk_dirname c pn) = dir" using assms(1) by (simp add: splits_path_def)
  ultimately show ?thesis by (simp add: new_name_def)
qed

text \<open>A new entry is found under its name.\<close>

lemma entered_found:
  assumes wf: "vfs_wf st" and sp: "splits_path c pn dir name" and par: "\<forall>p. parent = Some p \<longrightarrow> path_ok st p"
    and s: "mnt (start_of c st parent pn) \<noteq> None" "descend st (start_of c st parent pn) (dir_names dir) = Some q" "dir_names dir = [] \<or> is_dir_at st q"
    and n: "name \<noteq> ''..''" and k: "keeps st st'" "proc st' = proc st" "sched_initialised st' = sched_initialised st"
    and t: "map_of (children (dentries st' (dent q))) name = Some d" "child_mounts (dentries st' d) = []"
  shows "resolve c st' parent pn = retR (st', Inr (q, q\<lparr>dent := d\<rparr>))"
proof -
  note so = start_of_keeps [OF wf k, of c parent pn] and po = start_of_ok [OF wf par, of c pn]
  have q: "path_ok st q" by (rule descend_ok [OF wf po s(2)])
  have "is_dir_at st' q = is_dir_at st q" using k(1) q by (simp add: keeps_def path_ok_def is_dir_at_def)
  then have "resolve c st' parent pn = lookup_path c st' (Segments q [name])"
    using resolve_name [OF sp, of st' parent q] descend_keeps [OF wf k(1) po s(2)] s(1,3) so by simp
  moreover have "cross_mounts st' (mnt q) d = retR (q\<lparr>dent := d\<rparr>)" using t(2) by (simp add: cross_mounts.simps)
  ultimately show ?thesis using lookup_last [OF splits_name [OF sp] n t(1)] by simp
qed

text \<open>
  Property C19. Creating a file under a new name in an existing directory succeeds and the path
  then leads to the new file, which is empty, has one link, the given mode and belongs to the caller. Every
  sequence of names, without links and \<open>..\<close>, that led somewhere before leads to the same place, and the invariant of the
  file system tree is kept. The path functions have to split the path as \<open>splits_path\<close> says.
\<close>

theorem create_then_resolve:
  assumes "vfs_wf st" "splits_path c pn dir name" "\<forall>p. parent = Some p \<longrightarrow> path_ok st p" "mnt (start_of c st parent pn) \<noteq> None"
    and "descend st (start_of c st parent pn) (dir_names dir) = Some q" "dir_names dir = [] \<or> is_dir_at st q" "mnt q = Some m"
    and "name \<noteq> ''..''" "map_of (children (dentries st (dent q))) name = None"
  shows "\<exists>st' t. vfs_create c st parent pn mode 0 = retR (st', Inr t) \<and> vfs_wf st' \<and>
    resolve c st' parent pn = retR (st', Inr (q, t)) \<and>
    istat (inode_of st' (dent t)) = \<lparr>st_dev = dev_id (instances st (mfs (mounts st m))), st_ino = next_inode (instances st (mfs (mounts st m))),
       st_mode = mode, st_nlink = 1, st_uid = euid (proc st), st_gid = egid (proc st), st_rdev = 0, st_size = 0, st_blksize = 512, st_blocks = 0\<rparr> \<and>
    (\<forall>p ns x. path_ok st p \<longrightarrow> descend st p ns = Some x \<longrightarrow> descend st' p ns = Some x)"
proof -
  have q: "path_ok st q" by (rule descend_ok [OF assms(1) start_of_ok [OF assms(1,3)] assms(5)])
  obtain s i where i: "instance_create st (mfs (mounts st m)) mode None = (s, i)" by fastforce
  obtain st' t where e: "enter_child q name [] i s = (st', t)" by fastforce
  note I = instance_create_keeps [OF assms(1) i] and IP = instance_create_props [OF i]
  have qs: "path_ok s q" "dent q < next_dentry s" using q by (simp_all add: path_ok_def IP)
  have none: "map_of (children (dentries s (dent q))) name = None" using assms(9) by (simp add: IP)
  note E = enter_child_props [OF e qs(2)] and W = enter_child_wf [OF I(2) qs(1) I(3) e] and K = enter_child_keeps [OF I(2) qs(1) none e]
  have k: "keeps st st'" using keeps_trans [OF I(1) K(1)] by (simp add: IP)
  have "splits_path c pn dir name \<Longrightarrow> cwk_normalize c pn = pn" "cwk_normalize c (cwk_basename c pn) = name"
    using assms(2) by (simp_all add: splits_path_def normal_path_def)
  then have "vfs_create c st parent pn mode 0 = retR (st', Inr t)"
    using new_name_found [OF assms(2,4-9)] assms(2,7) i e by (simp add: vfs_create_def)
  moreover have "resolve c st' parent pn = retR (st', Inr (q, q\<lparr>dent := next_dentry s\<rparr>))"
    using entered_found [OF assms(1-6,8) k _ _ K(2)] qs(2) by (simp add: E IP)
  moreover have "istat (inode_of st' (dent t)) = istat (inodes s i)" using qs(2) by (simp add: inode_of_def E)
  ultimately show ?thesis
    using W(1) IP(14) descend_keeps [OF assms(1) k] E(1) by (intro exI [of _ st'] exI [of _ t]) simp
qed

section \<open>Removing entries\<close>

lemma map_of_map_erase: "map_of (map_erase a xs) n = (if n = a then None else map_of xs n)"
  by (induction xs) (auto simp: map_erase_def)

lemma remove_child_wf:
  assumes "vfs_wf st" "d < next_dentry st"
  shows "vfs_wf (set_dentry d ((dentries st d)\<lparr>children := map_erase name (children (dentries st d))\<rparr>) st)" (is "vfs_wf ?st")
proof -
  have nm: "dname (dentries ?st k) = dname (dentries st k)" "dparent (dentries ?st k) = dparent (dentries st k)" for k
    by (simp_all add: set_dentry_def)
  have po: "path_ok ?st p = path_ok st p" for p by (simp add: path_ok_def set_dentry_def)
  have "dentry_ok ?st k (dentries ?st k)" if "k < next_dentry ?st" for k
  proof -
    have k: "dentry_ok st k (dentries st k)" using vfs_wfD(2) [OF assms(1), of k] that by (simp add: set_dentry_def)
    have st: "next_inode_id ?st = next_inode_id st" "next_dentry ?st = next_dentry st" "next_mount ?st = next_mount st" by (simp_all add: set_dentry_def)
    have sub: "set (children (dentries ?st k)) \<subseteq> set (children (dentries st k))" "dinode (dentries ?st k) = dinode (dentries st k)"
      "child_mounts (dentries ?st k) = child_mounts (dentries st k)"
      by (auto simp: set_dentry_def map_erase_def)
    show ?thesis using k sub(1) unfolding dentry_ok_def nm sub(2,3) st by blast
  qed
  moreover have "mount_ok ?st (mounts ?st m) = mount_ok st (mounts st m)" for m unfolding mount_ok_def po by (simp add: set_dentry_def)
  ultimately show ?thesis using assms(1) unfolding vfs_wf_def po nm by (simp add: set_dentry_def)
qed

lemma add_nlink_wf: "vfs_wf st \<Longrightarrow> vfs_wf (add_nlink d i st)"
  by (erule vfs_wf_cong) (simp_all add: add_nlink_def set_inode_def Let_def)

lemma descend_avoiding:
  assumes "descend st p ns = Some q" "name \<notin> set ns" "mounts st' = mounts st"
    "\<forall>d. child_mounts (dentries st' d) = child_mounts (dentries st d) \<and> stat_type (istat (inode_of st' d)) = stat_type (istat (inode_of st d))"
    "\<forall>d n. n \<noteq> name \<longrightarrow> map_of (children (dentries st' d)) n = map_of (children (dentries st d)) n"
  shows "descend st' p ns = Some q"
proof -
  have c: "cross_mounts st' m d = retR x" if "cross_mounts st m d = retR x" for m d x
  proof -
    have "\<forall>x. mounts st' = mounts st \<longrightarrow> (\<forall>d. child_mounts (dentries st' d) = child_mounts (dentries st d)) \<longrightarrow> y = Inr x \<longrightarrow> cross_mounts st' m d = retR x"
      if "cross_mounts st m d = Some y" for y
    proof (induction rule: cross_mounts.raw_induct [OF _ that, consumes 0, case_names step])
      case (step f st m d y)
      then show ?case by (auto simp: cross_mounts.simps [of st' m d] retR_def split: option.splits)
    qed
    then show ?thesis using that assms(3,4) by (auto simp: retR_def)
  qed
  show ?thesis using assms(1,2)
  proof (induction ns arbitrary: p)
    case (Cons n ns)
    from Cons.prems(1) obtain d q1 where d: "n \<noteq> []" "n \<noteq> ''..''" "map_of (children (dentries st (dent p))) n = Some d"
      "cross_mounts st (mnt p) d = retR q1" "ns = [] \<or> is_dir_at st q1" "descend st q1 ns = Some q" by (rule descend_Cons)
    have "map_of (children (dentries st' (dent p))) n = Some d" using assms(5) d(3) Cons.prems(2) by auto
    moreover have "is_dir_at st' q1 = is_dir_at st q1" using assms(4) by (simp add: is_dir_at_def)
    ultimately show ?case using d c [OF d(4)] Cons.IH [OF d(6)] Cons.prems(2) by (auto simp: retR_def)
  qed simp
qed

text \<open>
  Property C20. Unlinking a file takes exactly its name out of its directory and decrements its
  link count: the path is not found any more, every other name of every directory stays, and the
  invariant of the tree is kept.
\<close>

theorem unlink_removes_name:
  assumes "vfs_wf st" "splits_path c pn dir name" "\<forall>p. parent = Some p \<longrightarrow> path_ok st p" "mnt (start_of c st parent pn) \<noteq> None"
    and "descend st (start_of c st parent pn) (dir_names dir) = Some q" "dir_names dir = [] \<or> is_dir_at st q" "mnt q = Some m"
    and "name \<noteq> ''..''" "descend st q [name] = Some t" "mnt t \<noteq> None" "\<not> is_dir_at st t"
  shows "\<exists>st'. vfs_unlink c st parent pn = retR (st', Inr ()) \<and> vfs_wf st' \<and>
    (\<forall>d n. map_of (children (dentries st' d)) n = (if d = dent q \<and> n = name then None else map_of (children (dentries st d)) n)) \<and>
    (name \<notin> set (dir_names dir) \<longrightarrow> resolve c st' parent pn = retR (st', Inl Not_found)) \<and>
    istat (inode_of st' (dent t)) = (istat (inode_of st (dent t)))\<lparr>st_nlink := st_nlink (istat (inode_of st (dent t))) - 1\<rparr>"
proof -
  have q: "path_ok st q" by (rule descend_ok [OF assms(1) start_of_ok [OF assms(1,3)] assms(5)])
  obtain k where k: "name \<noteq> []" "map_of (children (dentries st (dent q))) name = Some k" "cross_mounts st (mnt q) k = retR t"
    using assms(9) by (metis descend.simps(1) descend_Cons option.inject)
  have r: "resolve c st parent pn = retR (st, Inr (q, t))"
    using resolve_name [OF assms(2,4-6)] lookup_last [OF k(1) assms(8) k(2,3)] by simp
  define s where "s = instance_unlink st (the (dinode (dentries st (dent t))))"
  have s: "dentries s = dentries st" "mounts s = mounts st" "next_dentry s = next_dentry st" "proc s = proc st" "sched_initialised s = sched_initialised st"
    by (simp_all add: s_def instance_unlink_def add_nlink_def set_inode_def Let_def)
  have ty: "stat_type (istat (inode_of s d)) = stat_type (istat (inode_of st d))" for d
    by (simp add: s_def instance_unlink_def add_nlink_def set_inode_def Let_def inode_of_def stat_type_def)
  define st' where "st' = set_dentry (dent q) ((dentries s (dent q))\<lparr>children := map_erase name (children (dentries s (dent q)))\<rparr>) s"
  have nm: "cwk_normalize c pn = pn" "cwk_normalize c (cwk_basename c pn) = name"
    using assms(2) by (simp_all add: splits_path_def normal_path_def)
  have u: "vfs_unlink c st parent pn = retR (st', Inr ())"
    using r nm k(2) assms(10,11) by (simp add: vfs_unlink_def Let_def is_dir_at_def s_def [symmetric] s(1) st'_def)
  have wf: "vfs_wf st'"
    unfolding st'_def by (rule remove_child_wf) (use q add_nlink_wf [OF assms(1)] in \<open>simp_all add: s(3) path_ok_def, simp add: s_def instance_unlink_def\<close>)
  have ch: "map_of (children (dentries st' d)) n = (if d = dent q \<and> n = name then None else map_of (children (dentries st d)) n)" for d n
    by (simp add: st'_def set_dentry_def s(1) map_of_map_erase)
  have io: "inode_of st' d = inode_of s d" "child_mounts (dentries st' d) = child_mounts (dentries st d)" for d
    by (simp_all add: st'_def set_dentry_def inode_of_def s(1))
  have mo: "mounts st' = mounts st" "proc st' = proc st" "sched_initialised st' = sched_initialised st"
    by (simp_all add: st'_def set_dentry_def s)
  have "resolve c st' parent pn = retR (st', Inl Not_found)" if "name \<notin> set (dir_names dir)"
  proof -
    have "start_of c st' parent pn = start_of c st parent pn" by (simp add: start_of_def get_root_def mo io)
    moreover have "descend st' (start_of c st parent pn) (dir_names dir) = Some q"
      by (rule descend_avoiding [OF assms(5) that]) (simp_all add: mo io ty ch)
    moreover have "is_dir_at st' q = is_dir_at st q" by (simp add: is_dir_at_def io ty)
    ultimately have "resolve c st' parent pn = lookup_path c st' (Segments q [name])"
      using resolve_name [OF assms(2), of st' parent q] assms(4,6) by simp
    then show ?thesis using lookup_absent [OF k(1) assms(8) _ assms(7)] ch by simp
  qed
  moreover have "istat (inode_of st' (dent t)) = (istat (inode_of st (dent t)))\<lparr>st_nlink := st_nlink (istat (inode_of st (dent t))) - 1\<rparr>"
    by (simp add: io(1)) (simp add: s_def instance_unlink_def add_nlink_def set_inode_def Let_def inode_of_def)
  ultimately show ?thesis using u wf ch by (intro exI [of _ st']) simp
qed

section \<open>Links through themselves\<close>

text \<open>
  Property C24. A symbolic link whose target passes through the link itself is never resolved: looking
  up anything below it calls \<open>resolve\<close> and \<open>reduce\<close> in turn for ever, as \<open>reduce\<close> starts again
  with a full count of links each time. On a kernel stack this is an overflow that any process can cause.
\<close>

theorem link_through_itself_never_returns:
  assumes "mnt p = Some m" "a \<noteq> []" "a \<noteq> ''..''" "map_of (children (dentries st (dent p))) a = Some d" "cross_mounts st (Some m) d = retR q" "is_symlink st q"
    and "cwk_normalize c (symlinked_to (dentries st (dent q))) = tgt" "\<not> cwk_is_absolute c tgt" "\<not> here tgt" "segments tgt = a # b" "b \<noteq> []" "rest \<noteq> []"
  shows "lookup_path c st (Segments p (a # rest)) = None"
proof -
  let ?bad = "\<lambda>req. (\<exists>r. r \<noteq> [] \<and> req = Segments p (a # r)) \<or> req = Resolve (Some p) (symlinked_to (dentries st (dent q))) \<or> (\<exists>og n. req = Reduce og p q (Suc n))"
  have "c' = c \<longrightarrow> s = st \<longrightarrow> \<not> ?bad req" if "lookup_path c' s req = Some y" for c' s req y
  proof (induction rule: lookup_path.raw_induct [OF _ that, consumes 0, case_names step])
    case (step f c' s req y)
    have IH: "f c st req = None" if "?bad req" for req using step(1) [of c st req] that by (cases "f c st req") auto
    have "stat_type (istat (inode_of st (dent q))) = s_iflnk" using assms(6) by (simp add: is_symlink_def)
    then show ?case
      using step(2) IH assms by (auto simp: here_def Let_def)
  qed
  then show ?thesis using assms(12) by (cases "lookup_path c st (Segments p (a # rest))") blast+
qed

section \<open>The invariant is kept\<close>

lemma vfs_create_wf:
  assumes "vfs_wf st" "\<forall>p. parent = Some p \<longrightarrow> path_ok st p" "vfs_create c st parent pn mode dv = retR (st', r)"
  shows "vfs_wf st'"
proof (cases "\<exists>s rp m. new_name c st parent (cwk_normalize c pn) = retR (s, Inr rp) \<and> mnt rp = Some m \<and> st' \<noteq> st")
  case True
  then obtain s rp m where n: "new_name c st parent (cwk_normalize c pn) = retR (s, Inr rp)" "mnt rp = Some m" "st' \<noteq> st" by blast
  note N = new_name_ok(1) [OF n(1)] new_name_ok(2) [OF n(1) assms(1,2) refl]
  let ?op = "if dv \<noteq> 0 then get_cdev_ops st dv else None"
  obtain s1 i where i: "instance_create st (mfs (mounts st m)) mode ?op = (s1, i)" by fastforce
  obtain s2 t where e: "enter_child rp (cwk_normalize c (cwk_basename c (cwk_normalize c pn))) [] i s1 = (s2, t)" by fastforce
  have "st' = s2" using assms(3) n N(1) i e by (auto simp: vfs_create_def Let_def split: if_splits)
  moreover have "path_ok s1 rp" using N(2) instance_create_props(4,6) [OF i] by (simp add: path_ok_def)
  ultimately show ?thesis using enter_child_wf(1) [OF instance_create_keeps(2) [OF assms(1) i] _ instance_create_keeps(3) [OF assms(1) i] e] by simp
next
  case False
  then have "st' = st"
    using assms(3) new_name_ok(1) [of c st parent "cwk_normalize c pn"]
    by (auto simp: vfs_create_def Let_def bindR_retR_iff split: if_splits sum.splits option.splits)
  then show ?thesis using assms(1) by simp
qed

lemma vfs_symlink_wf:
  assumes wf: "vfs_wf st" and p: "\<forall>p. parent = Some p \<longrightarrow> path_ok st p" and l: "vfs_symlink c st parent src target = retR (st', r)"
  shows "vfs_wf st'"
proof -
  obtain s1 r1 where n: "new_name c st parent (cwk_normalize c src) = retR (s1, r1)" using l by (auto simp: vfs_symlink_def Let_def bindR_retR_iff)
  have s1: "s1 = st" by (rule new_name_ok(1) [OF n])
  show ?thesis
  proof (cases r1)
    case (Inl e) then show ?thesis using l n s1 wf by (simp add: vfs_symlink_def Let_def)
  next
    case (Inr rp)
    have rp: "path_ok st rp" by (rule new_name_ok(2) [OF n wf p Inr])
    obtain m where m: "mnt rp = Some m" using l n s1 Inr by (cases "mnt rp") (simp_all add: vfs_symlink_def Let_def)
    obtain s2 i where i: "instance_create st (mfs (mounts st m)) s_iflnk None = (s2, i)" by fastforce
    obtain s3 t where e: "enter_child rp (cwk_normalize c (cwk_basename c (cwk_normalize c src))) (cwk_normalize c target) i s2 = (s3, t)" by fastforce
    have "st' = s3" using l n s1 Inr m i e by (simp add: vfs_symlink_def instance_symlink_def Let_def)
    moreover have "path_ok s2 rp" using rp instance_create_props(4,6) [OF i] by (simp add: path_ok_def)
    ultimately show ?thesis using enter_child_wf(1) [OF instance_create_keeps(2) [OF wf i] _ instance_create_keeps(3) [OF wf i] e] by simp
  qed
qed

lemma vfs_link_wf:
  assumes wf: "vfs_wf st" and p: "\<forall>p. parent = Some p \<longrightarrow> path_ok st p" "\<forall>p. tp = Some p \<longrightarrow> path_ok st p" and l: "vfs_link c st parent src tp target fol = retR (st', r)"
  shows "vfs_wf st'"
proof -
  obtain s1 r1 where n: "new_name c st parent (cwk_normalize c src) = retR (s1, r1)" using l by (auto simp: vfs_link_def Let_def bindR_retR_iff)
  have s1: "s1 = st" by (rule new_name_ok(1) [OF n])
  show ?thesis
  proof (cases r1)
    case (Inl e) then show ?thesis using l n s1 wf by (simp add: vfs_link_def Let_def)
  next
    case (Inr rp)
    have rp: "path_ok st rp" by (rule new_name_ok(2) [OF n wf p(1) Inr])
    obtain s2 r2 where t: "resolve c st tp target = retR (s2, r2)" using l n Inr s1 by (auto simp: vfs_link_def Let_def bindR_retR_iff)
    have s2: "s2 = st" by (rule resolve_ok(1) [OF t])
    show ?thesis
    proof (cases r2)
      case (Inl e) then show ?thesis using l n t s1 s2 Inr wf by (simp add: vfs_link_def Let_def)
    next
      case R: (Inr pt)
      obtain tpar tgt where pt: "pt = (tpar, tgt)" by (cases pt)
      have tgt: "path_ok st tgt" using resolve_ok(2) [OF t wf p(2)] R pt by blast
      obtain s3 r3 where x: "(if fol \<and> stat_type (istat (inode_of st (dent tgt))) = s_iflnk then reduce c st tpar tgt symloop_max else retR (st, Inr tgt)) = retR (s3, r3)"
        using l n t s1 s2 Inr R pt by (auto simp: vfs_link_def Let_def bindR_retR_iff)
      have s3: "s3 = st" using x reduce_ok(1) by (auto split: if_splits)
      let ?i = "the (dinode (dentries st (dent tgt)))"
      obtain s4 q where e: "enter_child rp (cwk_normalize c (cwk_basename c (cwk_normalize c src))) [] ?i (add_nlink 1 ?i st) = (s4, q)" by fastforce
      have or: "st' = st \<or> st' = s4"
        using l n t s1 s2 Inr R pt x s3 e
        by (auto simp: vfs_link_def Let_def instance_link_def split: sum.splits if_splits option.splits)
      have al: "vfs_wf (add_nlink 1 ?i st)" by (rule add_nlink_wf [OF wf])
      have "path_ok (add_nlink 1 ?i st) rp" using rp by (simp add: path_ok_def add_nlink_def set_inode_def Let_def)
      moreover have "?i < next_inode_id st" using vfs_wfD(2) [OF wf, of "dent tgt"] tgt unfolding path_ok_def dentry_ok_def by blast
      then have "?i < next_inode_id (add_nlink 1 ?i st)" by (simp add: add_nlink_def set_inode_def Let_def)
      ultimately show ?thesis using or wf enter_child_wf(1) [OF al _ _ e] by blast
    qed
  qed
qed

lemma vfs_unlink_wf:
  assumes wf: "vfs_wf st" and p: "\<forall>p. parent = Some p \<longrightarrow> path_ok st p" and l: "vfs_unlink c st parent pn = retR (st', r)"
  shows "vfs_wf st'"
proof -
  obtain s1 r1 where n: "resolve c st parent (cwk_normalize c pn) = retR (s1, r1)" using l by (auto simp: vfs_unlink_def Let_def bindR_retR_iff)
  have s1: "s1 = st" by (rule resolve_ok(1) [OF n])
  show ?thesis
  proof (cases r1)
    case (Inl e) then show ?thesis using l n s1 wf by (simp add: vfs_unlink_def Let_def)
  next
    case (Inr pt)
    obtain rp t where pt: "pt = (rp, t)" by (cases pt)
    have rp: "path_ok st rp" using resolve_ok(2) [OF n wf p] Inr pt by blast
    let ?s = "instance_unlink st (the (dinode (dentries st (dent t))))"
    have d: "dentries ?s = dentries st" "next_dentry ?s = next_dentry st" by (simp_all add: instance_unlink_def add_nlink_def set_inode_def Let_def)
    have u: "st' = st \<or> st' = set_dentry (dent rp) ((dentries ?s (dent rp))\<lparr>children := map_erase (cwk_normalize c (cwk_basename c (cwk_normalize c pn))) (children (dentries ?s (dent rp)))\<rparr>) ?s"
      using l n s1 Inr pt by (auto simp: vfs_unlink_def Let_def bindR_retR_iff dest!: populate_same split: if_splits option.splits sum.splits)
    have "vfs_wf ?s" "dent rp < next_dentry ?s" using rp d add_nlink_wf [OF wf] by (simp_all add: path_ok_def instance_unlink_def)
    from remove_child_wf [OF this] show ?thesis using u wf by auto
  qed
qed

section \<open>Reachable trees\<close>

text \<open>The state the kernel starts with: the root entry, which is its own parent, and nothing else.\<close>

definition vfs_empty :: "vms \<Rightarrow> process \<Rightarrow> vfs" where
  "vfs_empty m p =
     \<lparr>memst = m,
      dentries = (\<lambda>_. \<lparr>dname = ''/'', symlinked_to = [], dinode = Some 0, dparent = Some vfs_root, children = [], child_mounts = []\<rparr>),
      next_dentry = 1,
      inodes = (\<lambda>_. \<lparr>iop = None, istat = \<lparr>st_dev = 0, st_ino = 0, st_mode = s_ifdir, st_nlink = 0, st_uid = 0, st_gid = 0, st_rdev = 0,
                     st_size = 0, st_blksize = 0, st_blocks = 0\<rparr>, memory = 0\<rparr>),
      next_inode_id = 1, instances = (\<lambda>_. \<lparr>next_inode = 1, dev_id = 0\<rparr>), next_instance = 0,
      mounts = (\<lambda>_. \<lparr>mfs = 0, mroot = 0, mounted_on = None\<rparr>), next_mount = 0, next_dev = 1, filesystems = [], cdev_table = [],
      files = (\<lambda>_. \<lparr>fpath = \<lparr>mnt = None, dent = vfs_root\<rparr>, foffset = 0, fflags = 0\<rparr>), next_file = 0, entropy = (\<lambda>_. 0),
      sched_initialised = True, proc = p\<lparr>proot := \<lparr>mnt = None, dent = vfs_root\<rparr>, cwd := \<lparr>mnt = None, dent = vfs_root\<rparr>, fds := [], next_fd := 0\<rparr>\<rparr>"

lemma vfs_empty_wf: "vfs_wf (vfs_empty m p)"
  by (auto simp: vfs_empty_def vfs_wf_def dentry_ok_def path_ok_def)

section \<open>Mounting\<close>

lemma new_dentry_wf:
  assumes wf: "vfs_wf st" and i: "i < next_inode_id st"
    and n: "new_dentry \<lparr>dname = name, symlinked_to = [], dinode = Some i, dparent = None, children = [], child_mounts = []\<rparr> st = (st', r)"
  shows "vfs_wf st'" "r < next_dentry st'" "next_instance st' = next_instance st" "mounts st' = mounts st" "next_mount st' = next_mount st"
    "vfs_extends st st'" "filesystems st' = filesystems st"
proof -
  let ?e = "\<lparr>dname = name, symlinked_to = [], dinode = Some i, dparent = None, children = [], child_mounts = []\<rparr>"
  have st': "st' = st\<lparr>next_dentry := next_dentry st + 1, dentries := (dentries st)(next_dentry st := ?e)\<rparr>" and r: "r = next_dentry st"
    using n by (auto simp: new_dentry_def set_dentry_def)
  show ext: "vfs_extends st st'" by (simp add: vfs_extends_def st')
  note po = path_ok_mono [OF _ ext]
  have old: "dentry_ok st' d (dentries st d)" if "d < next_dentry st" for d
    using vfs_wfD(2) [OF wf that] unfolding dentry_ok_def st' by (auto simp: less_Suc_eq)
  have "dentry_ok st' d (dentries st' d)" if "d < next_dentry st'" for d
  proof (cases "d < next_dentry st")
    case True then show ?thesis using old by (simp add: st')
  next
    case False then show ?thesis using that i by (simp add: dentry_ok_def st')
  qed
  moreover have "mount_ok st' (mounts st' m)" if "m < next_mount st'" for m
    using vfs_wfD(3) [OF wf, of m] that po by (auto simp: mount_ok_def st')
  moreover have "path_ok st' (fpath (files st' f))" if "f < next_file st'" for f using vfs_wfD(6) [OF wf] that po by (simp add: st')
  moreover have "k < next_instance st'" "q < next_dentry st'" if "map_of (filesystems st') nm = Some (Devtmpfs k q)" for nm k q
  proof -
    have "map_of (filesystems st) nm = Some (Devtmpfs k q)" using that by (simp add: st')
    then have "k < next_instance st" "q < next_dentry st" using wf unfolding vfs_wf_def by blast+
    then show "k < next_instance st'" "q < next_dentry st'" by (simp_all add: st')
  qed
  moreover have "dparent (dentries st' 0) = Some 0" using vfs_wfD(1,8) [OF wf] by (simp add: st')
  moreover have "proc st' = proc st" "next_file st' = next_file st" "0 < next_dentry st'" by (simp_all add: st')
  ultimately show "vfs_wf st'"
    unfolding vfs_wf_def using vfs_wfD(7) [OF wf] po [OF vfs_wfD(4) [OF wf]] po [OF vfs_wfD(5) [OF wf]] by simp
  show "r < next_dentry st'" "next_instance st' = next_instance st" "mounts st' = mounts st" "next_mount st' = next_mount st" "filesystems st' = filesystems st"
    by (simp_all add: st' r)
qed

lemma new_root_wf:
  assumes "vfs_wf st" "new_root name k st = (st', r)"
  shows "vfs_wf st'" "r < next_dentry st'" "next_instance st' = next_instance st" "vfs_extends st st'" "filesystems st' = filesystems st"
proof -
  obtain s i where i: "instance_create st k s_ifdir (Some Tmpfs_ops) = (s, i)" by fastforce
  note P = instance_create_props [OF i]
  have n: "new_dentry \<lparr>dname = name, symlinked_to = [], dinode = Some i, dparent = None, children = [], child_mounts = []\<rparr> s = (st', r)"
    using assms(2) i by (simp add: new_root_def)
  note W = new_dentry_wf [OF instance_create_keeps(2,3) [OF assms(1) i] n]
  show "vfs_wf st'" "r < next_dentry st'" "next_instance st' = next_instance st" "filesystems st' = filesystems st" using W P by simp_all
  show "vfs_extends st st'" using W(6) P by (simp add: vfs_extends_def)
qed

lemma new_instance_wf:
  assumes "vfs_wf st" "new_instance st = (st', k)"
  shows "vfs_wf st'" "k < next_instance st'" "vfs_extends st st'" "filesystems st' = filesystems st"
  using assms(2) by (auto simp: new_instance_def Let_def vfs_extends_def intro!: vfs_wf_cong [OF assms(1)])

lemma new_mount_wf:
  assumes wf: "vfs_wf st" and kr: "k < next_instance st" "r < next_dentry st" and n: "new_mount k r st = (st', m)"
  shows "vfs_wf st'" "m < next_mount st'" "vfs_extends st st'"
proof -
  have st': "st' = st\<lparr>mounts := (mounts st)(next_mount st := \<lparr>mfs = k, mroot = r, mounted_on = None\<rparr>), next_mount := next_mount st + 1\<rparr>"
    and m: "m = next_mount st" using n by (auto simp: new_mount_def Let_def)
  show ext: "vfs_extends st st'" by (simp add: vfs_extends_def st')
  note po = path_ok_mono [OF _ ext]
  have "dentry_ok st' d (dentries st' d)" if "d < next_dentry st'" for d
  proof -
    have "d < next_dentry st" using that by (simp add: st')
    from vfs_wfD(2) [OF wf this] show ?thesis unfolding dentry_ok_def st' by auto
  qed
  moreover have "mount_ok st' (mounts st' q)" if "q < next_mount st'" for q
  proof (cases "q = next_mount st")
    case True then show ?thesis using kr by (simp add: mount_ok_def st')
  next
    case False
    then have "q < next_mount st" using that by (simp add: st')
    from vfs_wfD(3) [OF wf this] show ?thesis using False po by (auto simp: mount_ok_def st')
  qed
  moreover have "path_ok st' (fpath (files st' f))" if "f < next_file st'" for f using vfs_wfD(6) [OF wf] that po by (simp add: st')
  moreover have "k < next_instance st'" "q < next_dentry st'" if "map_of (filesystems st') nm = Some (Devtmpfs k q)" for nm k q
  proof -
    have "map_of (filesystems st) nm = Some (Devtmpfs k q)" using that by (simp add: st')
    then have "k < next_instance st" "q < next_dentry st" using wf unfolding vfs_wf_def by blast+
    then show "k < next_instance st'" "q < next_dentry st'" by (simp_all add: st')
  qed
  moreover have "dparent (dentries st' 0) = Some 0" "0 < next_dentry st'" using vfs_wfD(1,8) [OF wf] by (simp_all add: st')
  moreover have "proc st' = proc st" "next_file st' = next_file st" by (simp_all add: st')
  ultimately show "vfs_wf st'"
    unfolding vfs_wf_def using vfs_wfD(7) [OF wf] po [OF vfs_wfD(4) [OF wf]] po [OF vfs_wfD(5) [OF wf]] by simp
  show "m < next_mount st'" by (simp add: st' m)
qed

lemma vfs_extends_trans: "vfs_extends a b \<Longrightarrow> vfs_extends b c \<Longrightarrow> vfs_extends a c"
  by (auto simp: vfs_extends_def)

lemma fs_mount_wf:
  assumes "vfs_wf st" "map_of (filesystems st) name = Some f" "fs_mount f st = (st', m)"
  shows "vfs_wf st'" "m < next_mount st'" "vfs_extends st st'"
proof -
  have "vfs_wf st' \<and> m < next_mount st' \<and> vfs_extends st st'"
  proof (cases f)
    case Tmpfs
    obtain s1 k where k: "new_instance st = (s1, k)" by fastforce
    obtain s2 r where r: "new_root ''tmpfs root. this shouldn't be visible anywhere'' k s1 = (s2, r)" by fastforce
    have n: "new_mount k r s2 = (st', m)" using assms(3) Tmpfs k r by (simp add: fs_mount_def tmpfs_mount_def)
    note K = new_instance_wf [OF assms(1) k] and R = new_root_wf [OF new_instance_wf(1) [OF assms(1) k] r]
    have "k < next_instance s2" using K(2) R(3) by simp
    note N = new_mount_wf [OF R(1) this R(2) n]
    show ?thesis using N vfs_extends_trans [OF K(3) vfs_extends_trans [OF R(4) N(3)]] by simp
  next
    case (Devtmpfs k r)
    then have "k < next_instance st" "r < next_dentry st" using assms(1,2) unfolding vfs_wf_def by blast+
    from new_mount_wf [OF assms(1) this] show ?thesis using assms(3) Devtmpfs by (simp add: fs_mount_def)
  qed
  then show "vfs_wf st'" "m < next_mount st'" "vfs_extends st st'" by simp_all
qed

lemma mount_on_wf:
  assumes wf: "vfs_wf st" and t: "path_ok st t" and m: "m < next_mount st"
  shows "vfs_wf (set_dentry (dent t) ((dentries st (dent t))\<lparr>child_mounts := child_mounts (dentries st (dent t)) @ [m]\<rparr>)
    (st\<lparr>mounts := (mounts st)(m := (mounts st m)\<lparr>mounted_on := Some t\<rparr>)\<rparr>))" (is "vfs_wf ?st")
proof -
  have eqs: "next_dentry ?st = next_dentry st" "next_inode_id ?st = next_inode_id st" "next_mount ?st = next_mount st" "next_instance ?st = next_instance st"
    "proc ?st = proc st" "files ?st = files st" "next_file ?st = next_file st" "filesystems ?st = filesystems st"
    "\<And>d. dname (dentries ?st d) = dname (dentries st d)" "\<And>d. dparent (dentries ?st d) = dparent (dentries st d)"
    "\<And>d. children (dentries ?st d) = children (dentries st d)" "\<And>d. dinode (dentries ?st d) = dinode (dentries st d)"
    by (simp_all add: set_dentry_def)
  have po: "path_ok ?st p = path_ok st p" for p by (simp add: path_ok_def eqs)
  have "set (child_mounts (dentries ?st d)) \<subseteq> insert m (set (child_mounts (dentries st d)))" for d by (auto simp: set_dentry_def)
  then have "dentry_ok ?st d (dentries ?st d)" if "d < next_dentry ?st" for d
    using vfs_wfD(2) [OF wf, of d] that m unfolding dentry_ok_def eqs by blast
  moreover have "mount_ok ?st (mounts ?st q)" if "q < next_mount ?st" for q
    using vfs_wfD(3) [OF wf, of q] vfs_wfD(3) [OF wf m] that t unfolding mount_ok_def po eqs by (auto simp: set_dentry_def)
  moreover have "k < next_instance st \<and> r < next_dentry st" if "map_of (filesystems st) nm = Some (Devtmpfs k r)" for nm k r
    using wf that unfolding vfs_wf_def by blast
  ultimately show ?thesis
    using wf unfolding vfs_wf_def po eqs by blast
qed

lemma path_for_ok:
  assumes "path_for c st pn = retR (st', r)"
  shows "st' = st" "vfs_wf st \<Longrightarrow> r = Inr t \<Longrightarrow> path_ok st t"
proof -
  let ?par = "if sched_initialised st then Some (proot (proc st)) else None"
  obtain q where q: "resolve c st ?par pn = retR (st', q)" "r = map_sum id snd q" using assms by (auto simp: path_for_def Let_def bindR_retR_iff)
  show "st' = st" by (rule resolve_ok(1) [OF q(1)])
  assume wf: "vfs_wf st" and r: "r = Inr t"
  from q(2) r obtain x where "q = Inr (x, t)" by (cases q) auto
  moreover have "\<forall>p. ?par = Some p \<longrightarrow> path_ok st p" using vfs_wfD(4) [OF wf] by simp
  ultimately show "path_ok st t" using resolve_ok(2) [OF q(1) wf] by blast
qed

lemma vfs_mount_wf:
  assumes wf: "vfs_wf st" and l: "vfs_mount c st source target fstype = retR (st', r)"
  shows "vfs_wf st'"
proof (cases "map_of (filesystems st) fstype")
  case None then show ?thesis using l wf by (simp add: vfs_mount_def find_fs_def)
next
  case f: (Some f)
  let ?src = "cwk_normalize c source"
  obtain s1 r1 where s1: "(if ?src \<noteq> [] then bindR (path_for c st ?src) (\<lambda>(st, r). case r of Inl e \<Rightarrow> retR (st, Inl e)
      | Inr s \<Rightarrow> retR (st, if stat_type (istat (inode_of st (dent s))) \<noteq> s_ifblk then Inl Not_a_block else Inr ())) else retR (st, Inr ())) = retR (s1, r1)"
    using l f by (auto simp: vfs_mount_def find_fs_def Let_def bindR_retR_iff)
  have e1: "s1 = st"
  proof (cases "?src = []")
    case False
    then obtain s' r' where p: "path_for c st ?src = retR (s', r')" using s1 by (auto simp: bindR_retR_iff)
    then show ?thesis using s1 False path_for_ok(1) [OF p] by (simp split: sum.splits)
  qed (use s1 in simp)
  show ?thesis
  proof (cases r1)
    case (Inl e) then show ?thesis using l f s1 e1 wf by (simp add: vfs_mount_def find_fs_def Let_def)
  next
    case (Inr u)
    have l2: "bindR (path_for c st target) (\<lambda>(st, r).
                     case r of Inl e \<Rightarrow> retR (st, Inl e)
                     | Inr t \<Rightarrow>
                         if stat_type (istat (inode_of st (dent t))) \<noteq> s_ifdir then retR (st, Inl Not_a_dir)
                         else let (st, m) = fs_mount f st;
                                  st = st\<lparr>mounts := (mounts st)(m := (mounts st m)\<lparr>mounted_on := Some t\<rparr>)\<rparr>;
                                  e = dentries st (dent t)
                              in retR (set_dentry (dent t) (e\<lparr>child_mounts := child_mounts e @ [m]\<rparr>) st, Inr ())) = retR (st', r)"
      using l f s1 [unfolded e1] Inr by (simp add: vfs_mount_def find_fs_def Let_def)
    obtain s2 r2 where s2: "path_for c st target = retR (s2, r2)" using l2 by (auto simp: bindR_retR_iff)
    note l3 = l2 [unfolded s2 path_for_ok(1) [OF s2]]
    obtain s3 m where m: "fs_mount f st = (s3, m)" by fastforce
    note M = fs_mount_wf [OF wf f m]
    show ?thesis
    proof (cases r2)
      case (Inl e) then show ?thesis using l3 wf by simp
    next
      case R: (Inr t)
      have t: "path_ok s3 t" by (rule path_ok_mono [OF path_for_ok(2) [OF s2 wf R] M(3)])
      show ?thesis using l3 R m wf mount_on_wf [OF M(1) t M(2)] by (auto simp: Let_def split: if_splits)
    qed
  qed
qed

section \<open>What holds after a call\<close>

text \<open>A property of the result of a computation, if it returns one; the collection \<open>after\<close> has the rules for its structure.\<close>

definition after :: "'a run \<Rightarrow> ('a \<Rightarrow> bool) \<Rightarrow> bool" where
  "after m P \<longleftrightarrow> (\<forall>x. m = retR x \<longrightarrow> P x)"

named_theorems after

lemma after_ret [after]: "after (retR x) P \<longleftrightarrow> P x"
  by (auto simp: after_def)

lemma after_fail [after]: "after (failR e) P"
  by (simp add: after_def retR_def failR_def)

lemma after_bind [after]: "after (bindR m f) P \<longleftrightarrow> after m (\<lambda>x. after (f x) P)"
  by (auto simp: after_def bindR_retR_iff)

lemma after_mono: "after m P \<Longrightarrow> (\<And>x. P x \<Longrightarrow> Q x) \<Longrightarrow> after m Q"
  by (simp add: after_def)

lemma after_true [after]: "after m (\<lambda>x. True)"
  by (simp add: after_def)

lemma after_sys_bind [after]:
  "after (sys_bind m f) P \<longleftrightarrow> after m (\<lambda>(st, r). case r of Inl e \<Rightarrow> P (st, Inl e) | Inr x \<Rightarrow> after (f st x) P)"
  by (auto simp: sys_bind_def after_bind after_ret after_def [of m] split: sum.splits)

lemma after_sys_result [after]:
  "after (sys_result r) P \<longleftrightarrow> (case r of (st, Inl e) \<Rightarrow> after (map_error e) (\<lambda>n. P (st, Inl n)) | (st, Inr x) \<Rightarrow> P (st, Inr x))"
  by (simp add: sys_result_def after_bind after_ret split: prod.splits sum.splits)

text \<open>States that differ in the contents of files, in positions and status flags only.\<close>

definition vfs_same :: "vfs \<Rightarrow> vfs \<Rightarrow> bool" where
  "vfs_same st st' \<longleftrightarrow>
     dentries st' = dentries st \<and> next_dentry st' = next_dentry st \<and> next_inode_id st' = next_inode_id st \<and> mounts st' = mounts st \<and>
     next_mount st' = next_mount st \<and> next_instance st' = next_instance st \<and> filesystems st' = filesystems st \<and> proc st' = proc st \<and>
     next_file st' = next_file st \<and> (\<forall>f. fpath (files st' f) = fpath (files st f))"

lemma vfs_same_refl [simp]: "vfs_same st st"
  by (simp add: vfs_same_def)

lemma vfs_same_trans: "vfs_same a b \<Longrightarrow> vfs_same b c \<Longrightarrow> vfs_same a c"
  by (simp add: vfs_same_def)

lemma vfs_wf_tables:
  assumes wf: "vfs_wf st" and t: "dentries st' = dentries st" "next_dentry st' = next_dentry st" "next_inode_id st' = next_inode_id st" "mounts st' = mounts st"
    "next_mount st' = next_mount st" "next_instance st' = next_instance st" "filesystems st' = filesystems st"
    and p: "path_ok st (proot (proc st'))" "path_ok st (cwd (proc st'))" "\<And>f. f < next_file st' \<Longrightarrow> path_ok st (fpath (files st' f))"
      "\<And>fd d. map_of (fds (proc st')) fd = Some d \<Longrightarrow> dfile d < next_file st'"
  shows "vfs_wf st'"
proof -
  have po: "path_ok st' q = path_ok st q" for q by (simp add: path_ok_def t)
  have "dentry_ok st' d e = dentry_ok st d e" "mount_ok st' m = mount_ok st m" for d e m by (simp_all add: dentry_ok_def mount_ok_def po t)
  moreover have "\<forall>f < next_file st'. path_ok st (fpath (files st' f))" "\<forall>fd d. map_of (fds (proc st')) fd = Some d \<longrightarrow> dfile d < next_file st'"
    using p by blast+
  ultimately show ?thesis using wf p(1,2) unfolding vfs_wf_def po t by blast
qed

lemma vfs_same_wf: "vfs_same st st' \<Longrightarrow> vfs_wf st \<Longrightarrow> vfs_wf st'"
  by (rule vfs_wf_tables, assumption) (auto simp: vfs_same_def dest: vfs_wfD)

lemma vfs_same_simps [simp]:
  "vfs_same st (st\<lparr>memst := m\<rparr>)" "vfs_same st (set_size sz i st)" "vfs_same st (set_inode i n st)" "vfs_same st (st\<lparr>entropy := e\<rparr>)" "vfs_same st (advance f ret st)"
  "fpath x = fpath (files st f) \<Longrightarrow> vfs_same st (set_file f x st)" "vfs_same st (set_size sz i (st\<lparr>memst := m\<rparr>))"
  by (auto simp: vfs_same_def set_size_def set_inode_def advance_def set_file_def Let_def)

lemma ops_same:
  "after (ops_read st op i offset n) (\<lambda>(s, _). vfs_same st s)"
  "after (ops_write st op i offset buffer) (\<lambda>(s, _). vfs_same st s)"
  "after (ops_trunc st op i sz) (\<lambda>(s, _). vfs_same st s)"
  "after (ops_map st op i priv) (\<lambda>(s, _). vfs_same st s)"
proof -
  show "after (ops_read st op i offset n) (\<lambda>(s, _). vfs_same st s)"
    by (cases op) (simp_all add: ops_read_def tmpfs_read_def null_read_def zero_read_def full_read_def random_read_def after Let_def split_def)
  show "after (ops_write st op i offset buffer) (\<lambda>(s, _). vfs_same st s)"
    by (cases op) (simp_all add: ops_write_def tmpfs_write_def null_write_def zero_write_def full_write_def random_write_def after Let_def split_def)
  show "after (ops_trunc st op i sz) (\<lambda>(s, _). vfs_same st s)"
    by (cases op) (simp_all add: ops_trunc_def tmpfs_trunc_def after Let_def split_def)
  show "after (ops_map st op i priv) (\<lambda>(s, _). vfs_same st s)"
    by (cases op) (simp_all add: ops_map_def tmpfs_map_def after Let_def split_def new_memobject_def)
qed

lemma file_same:
  "after (file_pread st f offset n) (\<lambda>(s, _). vfs_same st s)"
  "after (file_pwrite st f offset buffer) (\<lambda>(s, _). vfs_same st s)"
  "after (file_trunc st f sz) (\<lambda>(s, _). vfs_same st s)"
  "after (file_map st f priv) (\<lambda>(s, _). vfs_same st s)"
  by (simp_all add: file_pread_def file_pwrite_def file_trunc_def file_map_def after get_ops_def ops_same split: option.splits)

lemma file_rw_same:
  "after (file_read st f n) (\<lambda>(s, _). vfs_same st s)" "after (file_write st f buffer) (\<lambda>(s, _). vfs_same st s)"
  unfolding file_read_def file_write_def after_bind
  by (rule after_mono [OF file_same(1)], auto simp: after_ret intro: vfs_same_trans [OF _ vfs_same_simps(5)],
      rule after_mono [OF file_same(2)], auto simp: after_ret intro: vfs_same_trans [OF _ vfs_same_simps(5)])

lemma result_same:
  "after m (\<lambda>(s, _). vfs_same st s) \<Longrightarrow> after (bindR m read_result) (\<lambda>(s, _). vfs_same st s)"
  "after m' (\<lambda>(s, _). vfs_same st s) \<Longrightarrow> after (bindR m' write_result) (\<lambda>(s, _). vfs_same st s)"
  by (auto simp: after read_result_def write_result_def elim!: after_mono)

lemma sys_same_bind:
  assumes "after m (\<lambda>(s, _). vfs_same st s)" "\<And>s x. vfs_same st s \<Longrightarrow> after (f s x) (\<lambda>(s', _). vfs_same s s')"
  shows "after (sys_bind m f) (\<lambda>(s, _). vfs_same st s)"
  unfolding after
  by (rule after_mono [OF assms(1)]) (auto split: sum.splits intro!: after_mono [OF assms(2)] intro: vfs_same_trans)

lemma iov_same:
  "after (readv_loop st f ns tot acc) (\<lambda>(s, _). vfs_same st s)"
  "after (writev_loop st f bss tot) (\<lambda>(s, _). vfs_same st s)"
  "after (preadv_loop st f ns offset tot acc) (\<lambda>(s, _). vfs_same st s)"
  "after (pwritev_loop st f bss offset tot) (\<lambda>(s, _). vfs_same st s)"
proof -
  show "after (readv_loop st f ns tot acc) (\<lambda>(s, _). vfs_same st s)"
    by (induction ns arbitrary: st tot acc) (auto simp: after_ret intro!: sys_same_bind result_same file_rw_same)
  show "after (writev_loop st f bss tot) (\<lambda>(s, _). vfs_same st s)"
    by (induction bss arbitrary: st tot) (auto simp: after_ret intro!: sys_same_bind result_same file_rw_same)
  show "after (preadv_loop st f ns offset tot acc) (\<lambda>(s, _). vfs_same st s)"
    by (induction ns arbitrary: st offset tot acc) (auto simp: after_ret intro!: sys_same_bind result_same file_same)
  show "after (pwritev_loop st f bss offset tot) (\<lambda>(s, _). vfs_same st s)"
    by (induction bss arbitrary: st offset tot) (auto simp: after_ret intro!: sys_same_bind result_same file_same)
qed


lemma calls_same:
  "after (sys_read st fd count) (\<lambda>(s, _). vfs_same st s)" "after (sys_write st fd buf) (\<lambda>(s, _). vfs_same st s)"
  "after (sys_pread st fd count offset) (\<lambda>(s, _). vfs_same st s)" "after (sys_pwrite st fd buf offset) (\<lambda>(s, _). vfs_same st s)"
  "after (readv st fd ns) (\<lambda>(s, _). vfs_same st s)" "after (writev st fd bss) (\<lambda>(s, _). vfs_same st s)"
  "after (preadv st fd ns offset) (\<lambda>(s, _). vfs_same st s)" "after (pwritev st fd bss offset) (\<lambda>(s, _). vfs_same st s)"
  unfolding sys_read_def sys_write_def sys_pread_def sys_pwrite_def readv_def writev_def preadv_def pwritev_def sys_fd_def
  by (rule sys_same_bind; auto simp: after_ret intro!: result_same file_same file_rw_same iov_same)+

lemma lseek_same: "after (lseek st fd offset whence) (\<lambda>(s, _). vfs_same st s)"
  unfolding lseek_def sys_fd_def by (rule sys_same_bind) (auto simp: after_ret Let_def split: sum.splits)

section \<open>Descriptors\<close>

lemma map_of_map_set: "map_of (map_set a b xs) n = (if n = a then Some b else map_of xs n)"
  by (induction xs) (auto simp: map_set_def)

lemma vfs_wf_proc:
  assumes "vfs_wf st" "proot p = proot (proc st)" "cwd p = cwd (proc st)" "\<And>fd d. map_of (fds p) fd = Some d \<Longrightarrow> dfile d < next_file st"
  shows "vfs_wf (st\<lparr>proc := p\<rparr>)"
  by (rule vfs_wf_tables [OF assms(1)]) (use assms vfs_wfD [OF assms(1)] in simp_all)

lemma allocate_fd_wf:
  assumes "vfs_wf st" "dfile d < next_file st" shows "vfs_wf (fst (allocate_fd st d fd force))"
  unfolding allocate_fd_def Let_def
  by (auto simp: map_of_map_set map_of_map_erase split: if_splits intro!: vfs_wf_proc [OF assms(1)] dest: vfs_wfD(7) [OF assms(1)] intro: assms(2))

lemma fdtable_close_wf: "vfs_wf st \<Longrightarrow> vfs_wf (fst (fdtable_close st fd))"
  unfolding fdtable_close_def fst_conv
  using vfs_wfD(7) [of st] by (intro vfs_wf_proc) (auto simp: map_of_map_erase split: if_splits)

lemma set_closexec_wf: "vfs_wf st \<Longrightarrow> vfs_wf (set_closexec fd b st)"
proof -
  assume wf: "vfs_wf st"
  have "\<exists>e. map_of xs k = Some e \<and> dfile e = dfile d"
    if "map_of (map (\<lambda>(k, d). (k, if k = fd then d\<lparr>closexec := b\<rparr> else d)) xs) k = Some d" for k d and xs :: "(int \<times> filedesc) list"
    using that by (induction xs) (auto split: if_splits)
  then show ?thesis unfolding set_closexec_def using vfs_wfD(7) [OF wf] by (intro vfs_wf_proc [OF wf]) (simp, simp, fastforce)
qed

lemma filedesc_create_wf:
  assumes "vfs_wf st" "path_ok st p" "filedesc_create st p flags = (st', d)"
  shows "vfs_wf st'" "dfile d < next_file st'" "\<And>q. path_ok st' q = path_ok st q"
proof -
  have st': "st' = fst (file_create st p 0 (flags AND NOT creation_flags))" "dfile d = next_file st"
    using assms(3) by (auto simp: filedesc_create_def file_create_def split: prod.splits)
  show "vfs_wf st'"
    by (rule vfs_wf_tables [OF assms(1)])
      (use assms(2) vfs_wfD(4-6) [OF assms(1)] in \<open>auto simp: st' file_create_def less_Suc_eq dest: vfs_wfD(7) [OF assms(1)]\<close>)
  show "dfile d < next_file st'" "\<And>q. path_ok st' q = path_ok st q" by (simp_all add: st' file_create_def path_ok_def)
qed

lemma get_fd_ok: "vfs_wf st \<Longrightarrow> get_fd st fd = Inr d \<Longrightarrow> dfile d < next_file st"
  by (auto simp: get_fd_def fdtable_get_def split: if_splits option.splits dest: vfs_wfD(7))

lemma dup_to_wf: "vfs_wf st \<Longrightarrow> dfile d < next_file st \<Longrightarrow> after (dup_to st d cloexec fd force) (\<lambda>(s, _). vfs_wf s)"
  using allocate_fd_wf [of st "\<lparr>dfile = dfile d, closexec = cloexec\<rparr>" fd force]
  by (auto simp: dup_to_def after_ret split: prod.splits)

lemma dup_wf:
  assumes "vfs_wf st"
  shows "after (dup st fd) (\<lambda>(s, _). vfs_wf s)" "after (dup2 st fd newfd) (\<lambda>(s, _). vfs_wf s)" "after (dup3 st fd newfd flags) (\<lambda>(s, _). vfs_wf s)"
  using assms
  by (auto simp: dup_def dup2_def dup3_def sys_fd_def fdtable_get_def after split: sum.splits option.splits intro!: dup_to_wf dest: get_fd_ok vfs_wfD(7))

lemma fcntl_wf: "vfs_wf st \<Longrightarrow> after (fcntl st fd cmd arg) (\<lambda>(s, _). vfs_wf s)"
  by (auto simp: fcntl_def sys_fd_def after Let_def set_closexec_wf dup_wf vfs_same_wf [OF vfs_same_simps(6)] split: sum.splits
      intro!: after_mono [OF dup_wf(1)])

lemma close_wf: "vfs_wf st \<Longrightarrow> after (sys_close st fd) (\<lambda>(s, _). vfs_wf s)"
  using fdtable_close_wf [of st fd]
  by (auto simp: sys_close_def sys_fd_def file_close_def get_ops_def after split: sum.splits option.splits prod.splits)


section \<open>Opening\<close>

lemma get_parent_ok: "vfs_wf st \<Longrightarrow> get_parent c st dirfd pn = Inr p \<Longrightarrow> path_ok st p"
  using get_root_ok [of st True] vfs_wfD(5) [of st] vfs_wfD(6) [of st] get_fd_ok [of st dirfd]
  by (auto simp: get_parent_def Let_def split: if_splits sum.splits)

lemma resolve_from_ok:
  assumes "vfs_wf st"
  shows "after (resolve_from c st dirfd pn) (\<lambda>(s, r). s = st \<and> (\<forall>p t. r = Inr (p, t) \<longrightarrow> path_ok st p \<and> path_ok st t))"
proof (cases "get_parent c st dirfd pn")
  case (Inr par)
  have "after (resolve c st (Some par) pn) (\<lambda>(s, r). s = st \<and> (\<forall>p t. r = Inr (p, t) \<longrightarrow> path_ok st p \<and> path_ok st t))"
    using resolve_ok [of c st "Some par" pn] get_parent_ok [OF assms Inr] assms unfolding after_def by blast
  then show ?thesis
    by (auto simp: resolve_from_def Inr after elim!: after_mono split: sum.splits)
qed (simp add: resolve_from_def after)

lemma reduce_after:
  assumes "vfs_wf st" "path_ok st p" "path_ok st t"
  shows "after (bindR (reduce c st p t n) sys_result) (\<lambda>(s, r). s = st \<and> (\<forall>t. r = Inr t \<longrightarrow> path_ok st t))"
proof -
  have "after (reduce c st p t n) (\<lambda>(s, r). s = st \<and> (\<forall>t. r = Inr t \<longrightarrow> path_ok st t))"
    using reduce_ok [of c st p t n] assms unfolding after_def by blast
  then show ?thesis by (auto simp: after elim!: after_mono split: sum.splits)
qed

lemma create_after:
  assumes "vfs_wf st" "path_ok st p" shows "after (vfs_create c st (Some p) pn mode dv) (\<lambda>(s, _). vfs_wf s)"
  using vfs_create_wf [OF assms(1), of "Some p" c pn mode dv] assms(2) unfolding after_def by blast

lemma openat_create_wf:
  assumes "vfs_wf st" shows "after (openat_create c st dirfd pn mode) (\<lambda>(s, r). vfs_wf s \<and> (\<exists>e. r = Inl e))"
  unfolding openat_create_def after_sys_bind
  by (rule after_mono [OF resolve_from_ok [OF assms]])
    (auto simp: after assms split: sum.splits intro!: after_mono [OF create_after [OF assms]])

lemma openat_finish_wf:
  assumes "vfs_wf st" "path_ok st t" shows "after (openat_finish st t flags) (\<lambda>(s, _). vfs_wf s)"
proof -
  obtain s1 d where d: "filedesc_create st t flags = (s1, d)" by fastforce
  obtain s2 fd where fd: "allocate_fd s1 d 0 False = (s2, fd)" by fastforce
  note F = filedesc_create_wf [OF assms d]
  have s2: "vfs_wf s2" using allocate_fd_wf [OF F(1,2), of 0 False] fd by simp
  have tr: "after (file_trunc s2 f 0) (\<lambda>(s, _). vfs_wf s)" for f
    by (rule after_mono [OF file_same(3)]) (auto intro: vfs_same_wf [OF _ s2])
  have "after (bindR (file_open s2 (dfile d)) (\<lambda>(st, opened).
                   if \<not> opened then retR (fst (fdtable_close st fd), Inl EIO)
                   else if flags AND o_trunc \<noteq> 0
                   then bindR (file_trunc st (dfile d) 0) (\<lambda>(st, ok). retR (st, if ok then Inr fd else Inl EINVAL))
                   else retR (st, Inr fd))) (\<lambda>(s, _). vfs_wf s)"
  proof (cases "get_ops s2 (dfile d)")
    case None then show ?thesis by (simp add: file_open_def after_def)
  next
    case (Some r)
    then show ?thesis
      using s2 by (cases r) (auto simp: file_open_def after_bind after_ret after_fail intro!: after_mono [OF tr])
  qed
  then show ?thesis using d fd s2 assms(1) by (simp add: openat_finish_def Let_def after_ret)
qed

lemma openat_wf:
  assumes "vfs_wf st" shows "after (openat c st dirfd pathname flags mode) (\<lambda>(s, _). vfs_wf s)"
proof -
  have r: "after (sys_bind (case res of
                         Inl e \<Rightarrow> if flags AND o_creat = 0 then retR (st, Inl e) else openat_create c st dirfd pn m
                       | Inr (parent, target) \<Rightarrow>
                           if flags AND o_excl \<noteq> 0 \<and> flags AND o_creat \<noteq> 0 then retR (st, Inl EEXIST)
                           else if flags AND o_nofollow = 0 then bindR (reduce c st parent target symloop_max) sys_result
                           else retR (st, Inr target))
                       (\<lambda>st target. openat_finish st target flags)) (\<lambda>(s, _). vfs_wf s)"
    if "\<forall>p t. res = Inr (p, t) \<longrightarrow> path_ok st p \<and> path_ok st t" for res pn m
  proof (cases res)
    case (Inl e)
    then show ?thesis
      using assms by (auto simp: after split: sum.splits intro!: after_mono [OF openat_create_wf [OF assms]])
  next
    case (Inr x)
    obtain p t where x: "x = (p, t)" by (cases x)
    have pt: "path_ok st p" "path_ok st t" using that Inr x by auto
    then show ?thesis
      using assms openat_finish_wf [OF assms]
      by (auto simp: Inr x after_sys_bind after_ret split: sum.splits intro!: after_mono [OF reduce_after [OF assms pt]])
  qed
  have "after (bindR (resolve_from c st dirfd pn) (\<lambda>(st, res). sys_bind (case res of
                         Inl e \<Rightarrow> if flags AND o_creat = 0 then retR (st, Inl e) else openat_create c st dirfd pn m
                       | Inr (parent, target) \<Rightarrow>
                           if flags AND o_excl \<noteq> 0 \<and> flags AND o_creat \<noteq> 0 then retR (st, Inl EEXIST)
                           else if flags AND o_nofollow = 0 then bindR (reduce c st parent target symloop_max) sys_result
                           else retR (st, Inr target))
                       (\<lambda>st target. openat_finish st target flags))) (\<lambda>(s, _). vfs_wf s)" for pn m
    unfolding after_bind by (rule after_mono [OF resolve_from_ok [OF assms]]) (use r in auto)
  then show ?thesis
    unfolding openat_def Let_def after_sys_bind using assms by (simp add: after_ret after_sys_bind split: sum.splits)
qed

section \<open>Reachable states\<close>

text \<open>
  One operation of the kernel on the file system: what the initialisation tasks do, and the
  calls of a process. Directories that calls start from are those the process has: its root, its
  working directory, the paths of its open files.
\<close>

definition own_path :: "vfs \<Rightarrow> vpath option \<Rightarrow> bool" where
  "own_path st p \<longleftrightarrow>
     (case p of None \<Rightarrow> True
      | Some q \<Rightarrow> q = proot (proc st) \<or> q = cwd (proc st) \<or> (\<exists>fd\<in>set (fds (proc st)). map_of (fds (proc st)) (fst fd) = Some (snd fd) \<and> q = fpath (files st (dfile (snd fd)))))"

inductive vfs_step :: "cwalk \<Rightarrow> vfs \<Rightarrow> vfs \<Rightarrow> bool" for c where
  tmpfs_registered: "tmpfs_register st = retR st' \<Longrightarrow> vfs_step c st st'"
| devtmpfs_registered: "devtmpfs_register st = retR st' \<Longrightarrow> vfs_step c st st'"
| devices_registered: "vfs_step c st (memfiles_register st)"
| root_mounted: "mount_root c st = retR st' \<Longrightarrow> vfs_step c st st'"
| devtmpfs_mounted: "devtmpfs_mount c st = retR st' \<Longrightarrow> vfs_step c st st'"
| mounted: "vfs_mount c st src target fstype = retR (st', r) \<Longrightarrow> vfs_step c st st'"
| created: "own_path st parent \<Longrightarrow> vfs_create c st parent pn mode dv = retR (st', r) \<Longrightarrow> vfs_step c st st'"
| symlinked: "own_path st parent \<Longrightarrow> vfs_symlink c st parent src target = retR (st', r) \<Longrightarrow> vfs_step c st st'"
| linked: "own_path st parent \<Longrightarrow> own_path st tp \<Longrightarrow> vfs_link c st parent src tp target fol = retR (st', r) \<Longrightarrow> vfs_step c st st'"
| unlinked: "own_path st parent \<Longrightarrow> vfs_unlink c st parent pn = retR (st', r) \<Longrightarrow> vfs_step c st st'"
| opened: "openat c st dirfd pathname flags mode = retR (st', r) \<Longrightarrow> vfs_step c st st'"
| closed: "sys_close st fd = retR (st', r) \<Longrightarrow> vfs_step c st st'"
| was_read: "sys_read st fd n = retR (st', x) \<Longrightarrow> vfs_step c st st'"
| written: "sys_write st fd bs = retR (st', y) \<Longrightarrow> vfs_step c st st'"
| pread: "sys_pread st fd n off = retR (st', x) \<Longrightarrow> vfs_step c st st'"
| pwritten: "sys_pwrite st fd bs off = retR (st', y) \<Longrightarrow> vfs_step c st st'"
| vread: "readv st fd ns = retR (st', x) \<Longrightarrow> vfs_step c st st'"
| vwritten: "writev st fd bss = retR (st', y) \<Longrightarrow> vfs_step c st st'"
| vpread: "preadv st fd ns off = retR (st', x) \<Longrightarrow> vfs_step c st st'"
| vpwritten: "pwritev st fd bss off = retR (st', y) \<Longrightarrow> vfs_step c st st'"
| seeked: "lseek st fd off whence = retR (st', y) \<Longrightarrow> vfs_step c st st'"
| duplicated: "dup st fd = retR (st', r) \<Longrightarrow> vfs_step c st st'"
| duplicated2: "dup2 st fd newfd = retR (st', r) \<Longrightarrow> vfs_step c st st'"
| duplicated3: "dup3 st fd newfd flags = retR (st', r) \<Longrightarrow> vfs_step c st st'"
| controlled: "fcntl st fd cmd arg = retR (st', r) \<Longrightarrow> vfs_step c st st'"

inductive vfs_reach :: "cwalk \<Rightarrow> vms \<Rightarrow> process \<Rightarrow> vfs \<Rightarrow> bool" for c m p where
  start: "vfs_reach c m p (vfs_empty m p)"
| step: "vfs_reach c m p st \<Longrightarrow> vfs_step c st st' \<Longrightarrow> vfs_reach c m p st'"

lemma own_path_ok: "vfs_wf st \<Longrightarrow> own_path st parent \<Longrightarrow> \<forall>p. parent = Some p \<longrightarrow> path_ok st p"
  by (auto simp: own_path_def intro: vfs_wfD(4,5) vfs_wfD(6) [OF _ vfs_wfD(7)])

lemma register_wf:
  assumes "vfs_wf st"
  shows "tmpfs_register st = retR st' \<Longrightarrow> vfs_wf st'" "devtmpfs_register st = retR st' \<Longrightarrow> vfs_wf st'" "vfs_wf (memfiles_register st)"
proof -
  have reg: "vfs_wf (fst (register_fs s name f))" if "vfs_wf s" "\<forall>k r. f = Devtmpfs k r \<longrightarrow> k < next_instance s \<and> r < next_dentry s" for s name f
  proof (cases "map_of (filesystems s) name")
    case None
    have "\<forall>nm k r. map_of (map_set name f (filesystems s)) nm = Some (Devtmpfs k r) \<longrightarrow> k < next_instance s \<and> r < next_dentry s"
      using that unfolding map_of_map_set vfs_wf_def by auto
    moreover have "path_ok (s\<lparr>filesystems := x\<rparr>) q = path_ok s q" for x q by (simp add: path_ok_def)
    moreover from this have "dentry_ok (s\<lparr>filesystems := x\<rparr>) d e = dentry_ok s d e" "mount_ok (s\<lparr>filesystems := x\<rparr>) mm = mount_ok s mm" for x d e mm
      by (simp_all add: dentry_ok_def mount_ok_def)
    ultimately show ?thesis using that(1) None unfolding vfs_wf_def by (simp add: register_fs_def)
  qed (simp add: register_fs_def that)
  show "tmpfs_register st = retR st' \<Longrightarrow> vfs_wf st'"
    using reg [OF assms, of Tmpfs "''tmpfs''"] by (auto simp: tmpfs_register_def split: prod.splits if_splits)
  show "vfs_wf st'" if "devtmpfs_register st = retR st'"
  proof -
    obtain s1 k where k: "new_instance st = (s1, k)" by fastforce
    obtain s2 r where r: "new_root ''devtmpfs root. this shouldn't be visible anywhere'' k s1 = (s2, r)" by fastforce
    note K = new_instance_wf [OF assms k] and R = new_root_wf [OF new_instance_wf(1) [OF assms k] r]
    show ?thesis
      using that k r K(2) R reg [OF R(1), of "Devtmpfs k r" "''devtmpfs''"]
      by (auto simp: devtmpfs_register_def devtmpfs_new_def split: prod.splits if_splits)
  qed
  have "vfs_same s (fst (register_cdev s op d))" for s op d by (simp add: register_cdev_def vfs_same_def split: option.splits)
  then show "vfs_wf (memfiles_register st)"
    unfolding memfiles_register_def Let_def using assms by (metis vfs_same_wf)
qed

lemma mount_root_wf:
  assumes "vfs_wf st" "mount_root c st = retR st'" shows "vfs_wf st'"
proof -
  obtain s0 r where r: "vfs_mount c st [] ''/'' ''tmpfs'' = retR (s0, r)" using assms(2) by (auto simp: mount_root_def bindR_retR_iff)
  then obtain s where s: "vfs_mount c st [] ''/'' ''tmpfs'' = retR (s, Inr ())" "st' = s\<lparr>proc := (proc s)\<lparr>proot := get_root s True, cwd := get_root s True\<rparr>\<rparr>"
    using assms(2) by (cases r) (auto simp: mount_root_def)
  have wf: "vfs_wf s" by (rule vfs_mount_wf [OF assms(1) s(1)])
  show ?thesis unfolding s(2)
    by (rule vfs_wf_tables [OF wf]) (use vfs_wfD [OF wf] get_root_ok [OF wf] in simp_all)
qed

lemma devtmpfs_mount_wf:
  assumes "vfs_wf st" "devtmpfs_mount c st = retR st'" shows "vfs_wf st'"
proof -
  obtain s r where s: "vfs_create c st None ''/dev'' s_ifdir 0 = retR (s, r)" using assms(2) by (auto simp: devtmpfs_mount_def bindR_retR_iff)
  have wf: "vfs_wf s" by (rule vfs_create_wf [OF assms(1) _ s]) simp
  obtain r where "vfs_mount c s [] ''/dev'' ''devtmpfs'' = retR (st', r)"
    using assms(2) s by (auto simp: devtmpfs_mount_def bindR_retR_iff split: if_splits sum.splits)
  then show ?thesis by (rule vfs_mount_wf [OF wf])
qed

lemma after_wf: "after m (\<lambda>(s, _). vfs_wf s) \<Longrightarrow> m = retR (st', r) \<Longrightarrow> vfs_wf st'"
  by (simp add: after_def)

lemma after_same: "after m (\<lambda>(s, _). vfs_same st s) \<Longrightarrow> vfs_wf st \<Longrightarrow> m = retR (st', r) \<Longrightarrow> vfs_wf st'"
  by (auto simp: after_def intro: vfs_same_wf)

lemma vfs_step_wf: "vfs_step c st st' \<Longrightarrow> vfs_wf st \<Longrightarrow> vfs_wf st'"
proof (induction rule: vfs_step.induct)
  case (created st parent pn mode dv st' r) then show ?case using vfs_create_wf own_path_ok by blast
next
  case (symlinked st parent src target st' r) then show ?case using vfs_symlink_wf own_path_ok by blast
next
  case (linked st parent tp src target fol st' r) then show ?case using vfs_link_wf own_path_ok by blast
next
  case (unlinked st parent pn st' r) then show ?case using vfs_unlink_wf own_path_ok by blast
qed (blast intro: register_wf mount_root_wf devtmpfs_mount_wf vfs_mount_wf after_wf [OF openat_wf] after_wf [OF close_wf] after_wf [OF dup_wf(1)]
    after_wf [OF dup_wf(2)] after_wf [OF dup_wf(3)] after_wf [OF fcntl_wf] after_same [OF calls_same(1)] after_same [OF calls_same(2)] after_same [OF calls_same(3)]
    after_same [OF calls_same(4)] after_same [OF calls_same(5)] after_same [OF calls_same(6)] after_same [OF calls_same(7)] after_same [OF calls_same(8)]
    after_same [OF lseek_same])+

text \<open>
  The invariant holds in every state of the model: starting from the
  lone root entry, whatever sequence of initialisation tasks and system calls runs (mounting, creating,
  linking, unlinking, opening, reading, writing, duplicating and closing, with any arguments, succeeding
  or failing), every entry has an inode and mounts of the tables, every child knows its parent
  and its name, every mount has a file system and a root, and every descriptor has an open file
  with a path. The tables only grow: this is the well-formedness the other lemmas need, and says nothing about the lifetime
  of entries, which the code reclaims by reference counts.
\<close>

lemma reachable_vfs_wf:
  assumes "vfs_reach c m p st" shows "vfs_wf st"
  using assms by induction (simp_all add: vfs_empty_wf vfs_step_wf)

section \<open>A sample file system\<close>

definition sample_cwalk :: cwalk where
  "sample_cwalk =
     \<lparr>cwk_normalize = id, cwk_basename = (\<lambda>s. last (split_slash s)),
      cwk_dirname = (\<lambda>s. let d = concat (map (\<lambda>x. x @ ''/'') (butlast (split_slash s))) in if length d \<le> 1 then d else butlast d),
      cwk_is_absolute = (\<lambda>s. take 1 s = ''/'')\<rparr>"

definition sample_process :: process where
  "sample_process = \<lparr>proot = \<lparr>mnt = None, dent = 0\<rparr>, cwd = \<lparr>mnt = None, dent = 0\<rparr>, umask = 0x12, ruid = 0, rgid = 0, euid = 0, egid = 0, fds = [], next_fd = 0\<rparr>"

definition sample_vfs :: "vms \<Rightarrow> vfs" where
  "sample_vfs m =
     (case bindR (tmpfs_register (vfs_empty m sample_process)) (mount_root sample_cwalk) of
        Some (Inr st) \<Rightarrow> st | _ \<Rightarrow> vfs_empty m sample_process)"

lemma sample_boot:
  "tmpfs_register (vfs_empty m sample_process) = retR ((vfs_empty m sample_process)\<lparr>filesystems := [(''tmpfs'', Tmpfs)]\<rparr>)"
  "mount_root sample_cwalk ((vfs_empty m sample_process)\<lparr>filesystems := [(''tmpfs'', Tmpfs)]\<rparr>) = retR (sample_vfs m)"
proof -
  show "tmpfs_register (vfs_empty m sample_process) = retR ((vfs_empty m sample_process)\<lparr>filesystems := [(''tmpfs'', Tmpfs)]\<rparr>)"
    by (simp add: tmpfs_register_def register_fs_def vfs_empty_def map_set_def)
  then show "mount_root sample_cwalk ((vfs_empty m sample_process)\<lparr>filesystems := [(''tmpfs'', Tmpfs)]\<rparr>) = retR (sample_vfs m)"
    by (simp add: sample_vfs_def mount_root_def vfs_mount_def find_fs_def path_for_def resolve_def lookup_path.simps sample_cwalk_def Let_def
        vfs_empty_def inode_of_def stat_type_def mode_type_def fs_mount_def tmpfs_mount_def new_instance_def new_root_def instance_create_def tmpfs_inode_def
        new_memobject_def set_inode_def new_dentry_def set_dentry_def new_mount_def retR_def split: option.splits)
qed

lemma sample_vfs_reached: "\<forall>m. vfs_reach sample_cwalk m sample_process (sample_vfs m) \<and> vfs_wf (sample_vfs m)"
proof (intro allI conjI)
  fix m
  show r: "vfs_reach sample_cwalk m sample_process (sample_vfs m)"
    by (rule vfs_reach.step [OF vfs_reach.step [OF vfs_reach.start]], rule tmpfs_registered, rule sample_boot(1), rule root_mounted, rule sample_boot(2))
  show "vfs_wf (sample_vfs m)" by (rule reachable_vfs_wf [OF r])
qed

lemma sample_vfs_wf: "vfs_wf (sample_vfs m)"
  using vfs_step_wf [OF tmpfs_registered [OF sample_boot(1)] vfs_empty_wf] vfs_step_wf [OF root_mounted [OF sample_boot(2)]] by blast

abbreviation (input) sample_root :: vpath where "sample_root \<equiv> \<lparr>mnt = Some 0, dent = 0\<rparr>"

lemma sample_vfs_simps:
  "proot (proc (sample_vfs m)) = sample_root" "cwd (proc (sample_vfs m)) = sample_root" "fds (proc (sample_vfs m)) = []" "next_fd (proc (sample_vfs m)) = 0"
  "umask (proc (sample_vfs m)) = 0x12"
  "next_mount (sample_vfs m) = 1" "next_dentry (sample_vfs m) = 2" "next_inode_id (sample_vfs m) = 2" "children (dentries (sample_vfs m) 0) = []" "sched_initialised (sample_vfs m) = True"
  "child_mounts (dentries (sample_vfs m) 0) = [0]" "mounts (sample_vfs m) 0 = \<lparr>mfs = 0, mroot = 1, mounted_on = Some \<lparr>mnt = None, dent = 0\<rparr>\<rparr>"
  "dinode (dentries (sample_vfs m) 0) = Some 0" "stat_type (istat (inodes (sample_vfs m) 0)) = s_ifdir"
  by (simp_all add: sample_vfs_def tmpfs_register_def register_fs_def map_set_def mount_root_def vfs_mount_def find_fs_def path_for_def resolve_def lookup_path.simps
      sample_cwalk_def sample_process_def Let_def get_root_def
      vfs_empty_def inode_of_def stat_type_def mode_type_def fs_mount_def tmpfs_mount_def new_instance_def new_root_def instance_create_def tmpfs_inode_def
      new_memobject_def set_inode_def new_dentry_def set_dentry_def new_mount_def retR_def)

lemma sample_start: "start_of sample_cwalk (sample_vfs m) None pn = sample_root"
  by (simp add: start_of_def get_root_def sample_vfs_simps)

lemma sample_splits:
  "splits_path sample_cwalk ''/a'' ''/'' ''a''"
  "splits_path sample_cwalk ''a'' [] ''a''"
  by (simp_all add: splits_path_def normal_path_def here_def dir_names_def path_names_def segments_def sample_cwalk_def)

theorem create_then_resolve_witness:
  "\<forall>m. \<exists>st' t. vfs_create sample_cwalk (sample_vfs m) None ''/a'' 0x81A4 0 = retR (st', Inr t) \<and>
     resolve sample_cwalk st' None ''/a'' = retR (st', Inr (sample_root, t)) \<and> st_mode (istat (inode_of st' (dent t))) = 0x81A4"
proof
  fix m
  show "\<exists>st' t. vfs_create sample_cwalk (sample_vfs m) None ''/a'' 0x81A4 0 = retR (st', Inr t) \<and>
     resolve sample_cwalk st' None ''/a'' = retR (st', Inr (sample_root, t)) \<and> st_mode (istat (inode_of st' (dent t))) = 0x81A4"
    using create_then_resolve [OF sample_vfs_wf sample_splits(1), of None m sample_root 0 "0x81A4"]
    by (auto simp: sample_start sample_vfs_simps dir_names_def here_def)
qed

text \<open>The sample with an entry \<open>a\<close>, a regular file or a link to \<open>target\<close>.\<close>

definition sample_entry :: "vms \<Rightarrow> u32 \<Rightarrow> string \<Rightarrow> vfs" where
  "sample_entry m mode target =
     (let (s, i) = instance_create (sample_vfs m) 0 mode None in fst (enter_child sample_root ''a'' target i s))"

lemma sample_entry_props:
  "vfs_wf (sample_entry m mode target)" "map_of (children (dentries (sample_entry m mode target) 0)) ''a'' = Some 2" "child_mounts (dentries (sample_entry m mode target) 2) = []"
  "st_mode (istat (inode_of (sample_entry m mode target) 2)) = mode" "symlinked_to (dentries (sample_entry m mode target) 2) = target"
  "start_of sample_cwalk (sample_entry m mode target) None pn = sample_root"
proof -
  obtain s i where i: "instance_create (sample_vfs m) 0 mode None = (s, i)" by fastforce
  obtain s' t where e: "enter_child sample_root ''a'' target i s = (s', t)" by fastforce
  have eq: "sample_entry m mode target = s'" by (simp add: sample_entry_def i e)
  note I = instance_create_props [OF i]
  have d: "dent sample_root < next_dentry s" by (simp add: I sample_vfs_simps)
  note E = enter_child_props [OF e d]
  note K = instance_create_keeps [OF sample_vfs_wf i]
  have "path_ok s sample_root" by (simp add: path_ok_def I sample_vfs_simps)
  from enter_child_wf(1) [OF K(2) this K(3) e] show "vfs_wf (sample_entry m mode target)" by (simp add: eq)
  show "map_of (children (dentries (sample_entry m mode target) 0)) ''a'' = Some 2" "child_mounts (dentries (sample_entry m mode target) 2) = []"
    "st_mode (istat (inode_of (sample_entry m mode target) 2)) = mode" "symlinked_to (dentries (sample_entry m mode target) 2) = target"
    using I(1,14) by (simp_all add: eq E I sample_vfs_simps map_set_def inode_of_def)
  show "start_of sample_cwalk (sample_entry m mode target) None pn = sample_root"
    by (simp add: start_of_def get_root_def eq E I sample_vfs_simps)
qed

lemma sample_entry_cross: "cross_mounts (sample_entry m mode target) (Some 0) 2 = retR \<lparr>mnt = Some 0, dent = 2\<rparr>"
  by (simp add: cross_mounts.simps sample_entry_props)

theorem unlink_removes_name_witness:
  "\<forall>m. \<exists>st'. vfs_unlink sample_cwalk (sample_entry m 0x81A4 []) None ''/a'' = retR (st', Inr ()) \<and>
     resolve sample_cwalk st' None ''/a'' = retR (st', Inl Not_found)"
proof
  fix m
  have d: "descend (sample_entry m 0x81A4 []) sample_root [''a''] = Some \<lparr>mnt = Some 0, dent = 2\<rparr>"
    by (simp add: sample_entry_props sample_entry_cross [unfolded retR_def])
  have n: "\<not> is_dir_at (sample_entry m 0x81A4 []) \<lparr>mnt = Some 0, dent = 2\<rparr>"
    by (simp add: is_dir_at_def stat_type_def mode_type_def sample_entry_props)
  show "\<exists>st'. vfs_unlink sample_cwalk (sample_entry m 0x81A4 []) None ''/a'' = retR (st', Inr ()) \<and> resolve sample_cwalk st' None ''/a'' = retR (st', Inl Not_found)"
    using unlink_removes_name [OF sample_entry_props(1) sample_splits(1) _ _ _ _ _ _ d _ n, of None 0]
    by (auto simp: sample_entry_props dir_names_def here_def)
qed

theorem link_through_itself_never_returns_witness:
  "\<forall>m. lookup_path sample_cwalk (sample_entry m 0xA000 ''a/b'') (Segments sample_root [''a'', ''x'']) = None"
proof
  fix m
  have "is_symlink (sample_entry m 0xA000 ''a/b'') \<lparr>mnt = Some 0, dent = 2\<rparr>"
    by (simp add: is_symlink_def stat_type_def mode_type_def sample_entry_props)
  from link_through_itself_never_returns [OF _ _ _ _ sample_entry_cross this, of sample_root "''a''" sample_cwalk "''a/b''" "[''b'']" "[''x'']"]
  show "lookup_path sample_cwalk (sample_entry m 0xA000 ''a/b'') (Segments sample_root [''a'', ''x'']) = None"
    by (simp add: sample_entry_props sample_cwalk_def here_def segments_def)
qed

section \<open>Opening a new file\<close>

lemma enter_child_inode: "enter_child rp name link i st = (st', t) \<Longrightarrow> dinode (dentries st' (dent t)) = Some i"
  by (auto simp: enter_child_def new_dentry_def set_dentry_def Let_def)

text \<open>What \<open>vfs::create\<close> returns has an inode.\<close>

lemma vfs_create_inode:
  assumes "vfs_create c st parent pn mode dv = retR (s, Inr t)" shows "dinode (dentries s (dent t)) \<noteq> None"
proof -
  obtain s0 rp m where r: "new_name c st parent (cwk_normalize c pn) = retR (s0, Inr rp)" "mnt rp = Some m"
    using assms by (auto simp: vfs_create_def Let_def bindR_retR_iff split: if_splits sum.splits option.splits)
  let ?op = "if dv \<noteq> 0 then get_cdev_ops st dv else None"
  obtain s1 i where i: "instance_create s0 (mfs (mounts s0 m)) mode ?op = (s1, i)" by fastforce
  obtain s2 q where q: "enter_child rp (cwk_normalize c (cwk_basename c (cwk_normalize c pn))) [] i s1 = (s2, q)" by fastforce
  have "s = s2 \<and> t = q" using assms r i q by (auto simp: vfs_create_def Let_def split: if_splits)
  then show ?thesis using enter_child_inode [OF q] by simp
qed

text \<open>
  Property C23. \<open>open\<close> with \<open>O_CREAT\<close> of a name that does not exist yet, in an existing directory, brings
  the kernel down: \<open>openat\<close> creates the file, and then asserts that what it created has no inode,
  while everything \<open>vfs::create\<close> returns has one.
\<close>

theorem openat_new_file_panics:
  assumes "splits_path c pn dir name" "splits_path c name dir' name" "dir_names dir' = []" "\<not> cwk_is_absolute c name"
    and "0 < length pn" "length pn < 4096" "flags AND o_creat \<noteq> 0" "flags AND o_tmpfile = 0"
    and "get_parent c st dirfd pn = Inr base" "mnt (start_of c st (Some base) pn) \<noteq> None"
    and "descend st (start_of c st (Some base) pn) (dir_names dir) = Some q" "is_dir_at st q" "mnt q = Some m"
    and "name \<noteq> ''..''" "map_of (children (dentries st (dent q))) name = None"
  shows "openat c st dirfd (Some pn) flags mode = failR Bug_on"
proof -
  have norm: "cwk_normalize c pn = pn" "cwk_normalize c name = name" "cwk_normalize c (cwk_dirname c pn) = dir" "cwk_normalize c (cwk_basename c pn) = name"
    "cwk_normalize c (cwk_basename c name) = name" "cwk_is_absolute c dir = cwk_is_absolute c pn"
    using assms(1,2) by (simp_all add: splits_path_def normal_path_def)
  have od: "flags AND o_directory = 0"
  proof -
    have "(flags AND o_tmpfile) AND o_directory = flags AND o_directory" by (simp add: and.assoc)
    then show ?thesis using assms(8) by simp
  qed
  note ne = splits_name [OF assms(1)]
  have absent: "resolve c st (Some base) pn = retR (st, Inl Not_found)"
    using resolve_name [OF assms(1,10,11)] assms(12) lookup_absent [OF ne assms(14,15,13)] by simp
  have gp: "get_parent c st dirfd dir = Inr base" using assms(9) norm(6) by (simp add: get_parent_def)
  obtain x where "resolve c st (Some base) dir = retR (st, Inr (x, q))" using resolve_directory [OF assms(1,10,11)] by blast
  then have rd: "resolve_from c st dirfd dir = retR (st, Inr (x, q))" by (simp add: resolve_from_def gp sys_bind_def sys_result_def)
  have rp: "resolve_from c st dirfd pn = retR (st, Inl 2)" using absent by (simp add: resolve_from_def assms(9) sys_bind_def sys_result_def)
  have so: "start_of c st (Some q) name = q" using assms(4) by (simp add: start_of_def)
  have nn: "new_name c st (Some q) name = retR (st, Inr q)"
    by (rule new_name_found [OF assms(2)]) (simp_all add: so assms(3,13-15))
  have cr: "\<exists>s t. vfs_create c st (Some q) name mo 0 = retR (s, Inr t)" for mo
    using nn by (simp add: vfs_create_def Let_def norm assms(13) split: prod.splits)
  have "openat_create c st dirfd pn mo = failR Bug_on" for mo
  proof -
    obtain s t where "vfs_create c st (Some q) name (mo AND NOT (umask (proc st))) 0 = retR (s, Inr t)"
      using cr by blast
    moreover from vfs_create_inode [OF this] have "dinode (dentries s (dent t)) \<noteq> None" .
    ultimately show ?thesis using rd assms(12) by (simp add: openat_create_def norm sys_bind_def sys_result_def is_dir_at_def)
  qed
  moreover have "get_path c (Some pn) = Inr pn" using assms(5,6) by (simp add: get_path_def norm)
  ultimately show ?thesis using rp assms(7,8) od by (simp add: openat_def Let_def sys_bind_def)
qed

theorem openat_new_file_panics_witness:
  "\<forall>m. openat sample_cwalk (sample_vfs m) at_fdcwd (Some ''/a'') 0x41 0x1A4 = failR Bug_on"
proof
  fix m
  have "is_dir_at (sample_vfs m) sample_root" by (simp add: is_dir_at_def inode_of_def sample_vfs_simps)
  then show "openat sample_cwalk (sample_vfs m) at_fdcwd (Some ''/a'') 0x41 0x1A4 = failR Bug_on"
    by (intro openat_new_file_panics [OF sample_splits, where base = sample_root and q = sample_root and m = 0])
      (simp_all add: dir_names_def here_def sample_cwalk_def get_parent_def get_root_def sample_vfs_simps start_of_def)
qed

end
