(* ===== verification/Vfs_Files.thy ===== *)
theory Vfs_Files
  imports Vfs_Tree Vmm_Ops
begin

text \<open>
  Contents of files and of memory through system calls: reading back what was written to a file on a
  tmpfs, reading behind the end of a file, and anonymous \<open>mmap\<close>, composed of \<open>find_free_region\<close>,
  a new memory object and \<open>vmspace::map\<close>.
\<close>

section \<open>Contents of files\<close>

text \<open>The descriptor of a regular file on a tmpfs.\<close>

definition tmpfs_fd :: "vfs \<Rightarrow> int \<Rightarrow> nat \<Rightarrow> bool" where
  "tmpfs_fd st fd i \<longleftrightarrow>
     (case get_fd st fd of Inl _ \<Rightarrow> False
      | Inr d \<Rightarrow> file_inode st (dfile d) = i \<and> iop (inodes st i) = Some Tmpfs_ops \<and> stat_type (istat (inodes st i)) \<noteq> s_ifdir \<and>
          is_read (fflags (files st (dfile d))) \<and> is_write (fflags (files st (dfile d))))"

lemma tmpfs_fd_calls:
  assumes "tmpfs_fd st fd i"
  shows "sys_pwrite st fd bs off = bindR (tmpfs_write st i off bs) write_result"
    "sys_pread st fd n off = bindR (tmpfs_read st i off n) read_result"
  using assms
  by (auto simp: tmpfs_fd_def sys_pwrite_def sys_pread_def sys_bind_def sys_fd_def file_pwrite_def file_pread_def get_ops_def ops_write_def ops_read_def is_dir_def
      split: sum.splits)




text \<open>
  Reading a file from a position behind its end does not give an empty result: the size
  computation wraps around and the call fails on an out-of-range part of the buffer.
\<close>

theorem pread_behind_end_fails:
  assumes "tmpfs_fd st fd i" "st_size (istat (inodes st i)) < off" "unat off + unat n < 2 ^ 64"
  shows "sys_pread st fd n off = failR Out_of_span"
proof -
  let ?s = "st_size (istat (inodes st i))"
  have le: "off \<le> off + n" using assms(3) by (simp add: word_le_nat_alt unat_word_ariths)
  then have ge: "?s \<le> off + n" using assms(2) by (meson less_imp_le order.trans)
  have "n - (off + n - ?s) = ?s - off" by simp
  moreover have "n < ?s - off"
    using assms(2,3) unsigned_less [of off] unfolding word_less_nat_alt by (simp add: unat_sub_if_size word_size)
  ultimately show ?thesis
    using tmpfs_fd_calls(2) [OF assms(1)] ge by (auto simp: tmpfs_read_def Let_def)
qed

section \<open>A sample with an open file\<close>

definition sample_open :: "vms \<Rightarrow> vfs" where
  "sample_open m =
     (let st = sample_entry m 0x81A4 []
      in st\<lparr>memst := m, files := (files st)(0 := \<lparr>fpath = \<lparr>mnt = Some 0, dent = 2\<rparr>, foffset = 0, fflags = 2\<rparr>), next_file := 1,
            proc := (proc st)\<lparr>fds := [(0, \<lparr>dfile = 0, closexec = False\<rparr>)], next_fd := 1\<rparr>\<rparr>)"

lemma sample_open_fd: "\<exists>i. tmpfs_fd (sample_open m) 0 i \<and> st_size (istat (inodes (sample_open m) i)) = 0"
proof -
  obtain s i where i: "instance_create (sample_vfs m) 0 0x81A4 None = (s, i)" by fastforce
  obtain s' t where e: "enter_child sample_root ''a'' [] i s = (s', t)" by fastforce
  have eq: "sample_entry m 0x81A4 [] = s'" by (simp add: sample_entry_def i e)
  note I = instance_create_props [OF i]
  have d: "dent sample_root < next_dentry s" by (simp add: I sample_vfs_simps)
  note E = enter_child_props [OF e d]
  have "file_inode (sample_open m) 0 = i" by (simp add: file_inode_def sample_open_def Let_def eq E I sample_vfs_simps)
  moreover have "inodes (sample_open m) i = inodes s i" by (simp add: sample_open_def Let_def eq E)
  moreover have "get_fd (sample_open m) 0 = Inr \<lparr>dfile = 0, closexec = False\<rparr>" "fflags (files (sample_open m) 0) = 2"
    by (simp_all add: get_fd_def fdtable_get_def sample_open_def Let_def)
  ultimately have "tmpfs_fd (sample_open m) 0 i" "st_size (istat (inodes (sample_open m) i)) = 0"
    using I(14,15) by (simp_all add: tmpfs_fd_def is_read_def is_write_def stat_type_def mode_type_def)
  then show ?thesis by blast
qed


theorem pread_behind_end_fails_witness: "\<forall>m. sys_pread (sample_open m) 0 4 1 = failR Out_of_span"
proof
  fix m
  obtain i where i: "tmpfs_fd (sample_open m) 0 i" "st_size (istat (inodes (sample_open m) i)) = 0" using sample_open_fd by blast
  show "sys_pread (sample_open m) 0 4 1 = failR Out_of_span"
    by (rule pread_behind_end_fails [OF i(1)]) (simp_all add: i(2))
qed

section \<open>Anonymous memory\<close>

lemma new_memobject_inv:
  assumes "space_inv m live" "new_memobject m = (m', ob)"
  shows "space_inv m' live" "tree m' = tree m" "objects m' ob = []" "\<And>x. x \<noteq> ob \<Longrightarrow> obj_byte m' x = obj_byte m x" "ob = next_object m" "vmm m' = vmm m" "pmap m' = pmap m"
proof -
  have m': "m' = m\<lparr>objects := (objects m)(next_object m := []), next_object := next_object m + 1\<rparr>" "ob = next_object m"
    using assms(2) by (auto simp: new_memobject_def)
  show "tree m' = tree m" "objects m' ob = []" "ob = next_object m" "vmm m' = vmm m" "pmap m' = pmap m" by (simp_all add: m')
  have mo: "map_of (objects m' x) i = Some p \<Longrightarrow> map_of (objects m x) i = Some p" for x i p by (auto simp: m' split: if_splits)
  have so: "sorted_wrt (<) (map fst (objects m' x))" for x using assms(1) by (auto simp: m' space_inv_def obj_inv_def)
  have "obj_inv m' live"
  proof -
    have o: "obj_inv m live" using assms(1) by (simp add: space_inv_def)
    have "vmm m' = vmm m" "pmap m' = pmap m" by (simp_all add: m')
    then show ?thesis using o so mo unfolding obj_inv_def by metis
  qed
  then show "space_inv m' live" using assms(1) by (simp add: space_inv_def pages_ok_def m')
  show "obj_byte m' x = obj_byte m x" if "x \<noteq> ob" for x using that by (intro ext) (simp add: obj_byte_def m' vhh_def split: option.splits)
qed

lemma lookup_referenced:
  assumes "lookup (tree m) p = Some (ob, x)" shows "0 < use_count m ob"
proof -
  obtain y where y: "find (covers p) (tree m) = Some y" "view y p = (ob, x)" using assms by (auto simp: lookup_def)
  then have "y \<in> set (tree m)" "obj y = ob" by (auto simp: find_Some_iff view_def)
  then have "filter (\<lambda>m. obj m = ob) (tree m) \<noteq> []" by (auto simp: filter_empty_conv)
  then show ?thesis by (simp add: use_count_def)
qed

text \<open>Mapping pages that no mapping covers only adds the mapping.\<close>

lemma vmspace_map_free:
  fixes ob :: nat and pr fl :: u8
  assumes m: "tree_wf (tree m)" "f < e" "\<forall>p. f \<le> p \<longrightarrow> p < e \<longrightarrow> lookup (tree m) p = None"
    and a: "a mod 0x1000 = 0" "a div 0x1000 = f" "div_roundup (a + len) 0x1000 = e"
  defines "n \<equiv> \<lparr>startp = f, endp = e, obj = ob, offsetp = 0, prot = pr, mflags = fl\<rparr>"
  shows "vmspace_map m a len pr fl (Some ob) 0 = retR (put_mapping n m, None)" "tree_wf (tree (put_mapping n m))"
    "lookup (tree (put_mapping n m)) = space_map (lookup (tree m)) f e ob 0 pr fl"
proof -
  have "\<not> overlaps f e x" if "x \<in> set (tree m)" for x
  proof -
    have "\<forall>p. f \<le> p \<longrightarrow> p < e \<longrightarrow> \<not> covers p x" using m(3) that unfolding lookup_none by blast
    moreover have "startp x < endp x" using m(1) that by (auto simp: tree_wf_def)
    ultimately have "\<not> covers (max f (startp x)) x" if "overlaps f e x" using that m(2) by (auto simp: overlaps_def max_def)
    then show ?thesis using \<open>startp x < endp x\<close> by (auto simp: overlaps_def covers_def max_def split: if_splits)
  qed
  then have "filter (overlaps f e) (tree m) = []" by (simp add: filter_empty_conv)
  then show "vmspace_map m a len pr fl (Some ob) 0 = retR (put_mapping n m, None)"
    using a by (simp add: vmspace_map_def Let_def n_def)
  have free: "\<forall>p. covers p n \<longrightarrow> lookup (tree m) p = None" using m(3) by (simp add: n_def covers_def)
  have ne: "startp n < endp n" using m(2) by (simp add: n_def)
  note E = emplace_wf [OF m(1) ne free]
  show "tree_wf (tree (put_mapping n m))" using E(1) by (simp add: put_mapping_def)
  show "lookup (tree (put_mapping n m)) = space_map (lookup (tree m)) f e ob 0 pr fl"
    using E(2) by (intro ext) (simp add: put_mapping_def space_map_def n_def covers_def view_def)
qed

lemma put_mapping_inv:
  assumes "space_inv m live" "tree_wf (tree (put_mapping n m))" "unat (endp n) \<le> 2 ^ 35"
  shows "space_inv (put_mapping n m) live"
  using assms by (auto simp: space_inv_def put_mapping_def)

text \<open>
  Property C22. Anonymous memory: \<open>mmap\<close> without \<open>MAP_FIXED\<close> of whole pages, private or shared, either
  fails with \<open>ENOMEM\<close> because \<open>find_free_region\<close> returned 0, or returns a page-aligned
  address whose pages were all free before, and maps to them exactly the pages of a new object that reads as zero
  throughout, with the protection asked for. Every other page of the address space keeps its mapping. The
  invariant of the address space is kept when the region ends inside the user half; \<open>find_free_region\<close> has
  no upper bound, so that behind the last mapping it may not, and the call succeeds all the same.
\<close>

theorem mmap_anonymous:
  assumes "space_inv (memst st) live" "len \<noteq> 0" "len mod 0x1000 = 0" "unat len \<le> 2 ^ 62"
    and "flags AND 0x20 \<noteq> 0" "flags AND 0x10 = 0" "(flags AND 0x02 \<noteq> 0) \<noteq> (flags AND 0x01 \<noteq> 0)"
  shows "mmap st addr len pr flags (- 1) 0 = retR (st, Inl ENOMEM) \<and> find_free_region (memst st) len = 0 \<or>
    (\<exists>st' a. mmap st addr len pr flags (- 1) 0 = retR (st', Inr a) \<and> a = find_free_region (memst st) len \<and> a \<noteq> 0 \<and> a mod 0x1000 = 0 \<and>
      (\<forall>p. a div 0x1000 \<le> p \<longrightarrow> p < a div 0x1000 + len div 0x1000 \<longrightarrow> lookup (tree (memst st)) p = None) \<and>
      lookup (tree (memst st')) =
        space_map (lookup (tree (memst st))) (a div 0x1000) (a div 0x1000 + len div 0x1000) (next_object (memst st)) 0 (ucast pr) (ucast flags) \<and>
      (unat a + unat len \<le> 2 ^ 47 \<longrightarrow> space_inv (memst st') live) \<and>
      obj_byte (memst st') (next_object (memst st)) = (\<lambda>_. 0) \<and> vfs_same st st')"
proof (cases "find_free_region (memst st) len = 0")
  case True
  then show ?thesis using assms(2,3,5-7) by (auto simp: mmap_def Let_def sys_bind_def default_page_size_def)
next
  case False
  define a where "a = find_free_region (memst st) len"
  obtain f where f: "a = f * 0x1000" "unat f \<le> 2 ^ 35"
    "\<forall>p. f \<le> p \<longrightarrow> p < f + div_roundup len 0x1000 \<longrightarrow> lookup (tree (memst st)) p = None"
    using find_free_region_ok [OF assms(1,4)] unfolding a_def by blast
  have ua: "unat a = unat f * 4096" unfolding f(1) using f(2) by (simp add: unat_word_ariths)
  have al: "a mod 0x1000 = 0" "a div 0x1000 = f" using ua by (simp_all add: word_unat_eq_iff unat_mod unat_div)
  obtain q where q: "unat len = 4096 * q" using arg_cong [OF assms(3), of unat] by (auto simp: unat_mod)
  have uq: "unat (len div 0x1000) = q" using q by (simp add: unat_div)
  have h: "(x * 4096 + 4096 * q + 4095) div 4096 = x + q" for x by (rule div_nat_eqI) simp_all
  have ln: "div_roundup len 0x1000 = len div 0x1000"
  proof -
    have "unat (div_roundup len 0x1000) = (unat len + 4095) div 4096" using unat_div_roundup [of 12 len] assms(4) by simp
    then show ?thesis using h [of 0] q uq by (simp add: word_unat_eq_iff)
  qed
  have ue: "unat (f + len div 0x1000) = unat f + q" using f(2) q assms(4) uq by (simp add: unat_add_no_wrap)
  have al2: "unat (a + len) = unat a + unat len" using ua f(2) assms(4) by (simp add: unat_add_no_wrap)
  have pe: "div_roundup (a + len) 0x1000 = f + len div 0x1000"
  proof -
    have "unat (div_roundup (a + len) 0x1000) = (unat (a + len) + 4095) div 4096"
      using unat_div_roundup [of 12 "a + len"] al2 ua f(2) assms(4) by simp
    then show ?thesis using h [of "unat f"] q ua al2 ue by (simp add: word_unat_eq_iff)
  qed
  obtain m ob where m: "new_memobject (memst st) = (m, ob)" by fastforce
  note N = new_memobject_inv [OF assms(1) m]
  have "q \<noteq> 0" using q assms(2) by (auto simp: word_unat_eq_iff)
  then have fe: "f < f + len div 0x1000" using ue by (simp add: word_less_nat_alt)
  have free: "\<forall>p. f \<le> p \<longrightarrow> p < f + len div 0x1000 \<longrightarrow> lookup (tree m) p = None" using f(3) ln N(2) by simp
  have wf: "tree_wf (tree m)" using N(1) by (simp add: space_inv_def)
  define n where "n = \<lparr>startp = f, endp = f + len div 0x1000, obj = ob, offsetp = 0, prot = ucast pr, mflags = ucast flags\<rparr>"
  note M = vmspace_map_free [OF wf fe free al pe, where pr = "ucast pr" and fl = "ucast flags" and ob = ob, folded n_def]
  let ?m = "put_mapping n m"
  have z: "obj_byte ?m ob = (\<lambda>_. 0)" using N(3) by (simp add: obj_byte_def put_mapping_def fun_eq_iff)
  have inv: "space_inv ?m live" if "unat a + unat len \<le> 2 ^ 47"
    using that q ua ue by (intro put_mapping_inv [OF N(1) M(2)]) (simp add: n_def)
  have "\<not> a + len < a" using al2 by (simp add: word_less_nat_alt)
  then have "mmap st addr len pr flags (- 1) 0 = retR (st\<lparr>memst := ?m\<rparr>, Inr a)"
    using False assms(2,3,5-7) m M(1) a_def [symmetric] by (auto simp: mmap_def Let_def sys_bind_def default_page_size_def)
  then show ?thesis
    using False al f(3) M(3) z inv N(2,5) ln a_def by (intro disjI2 exI [of _ "st\<lparr>memst := ?m\<rparr>"] exI [of _ a]) simp
qed

text \<open>
  A free region at page 0 is reported as 0, which \<open>mmap\<close> takes for a failure: as long as the lowest mapping
  leaves room for the request below it, and in an empty address space always, \<open>mmap\<close> fails.
\<close>

lemma mmap_fails_below_lowest:
  assumes "case tree (memst st) of [] \<Rightarrow> True | m # _ \<Rightarrow> div_roundup len 0x1000 \<le> startp m"
    and "len \<noteq> 0" "len mod 0x1000 = 0" "flags AND 0x20 \<noteq> 0" "flags AND 0x10 = 0" "(flags AND 0x02 \<noteq> 0) \<noteq> (flags AND 0x01 \<noteq> 0)"
  shows "mmap st addr len pr flags (- 1) 0 = retR (st, Inl ENOMEM)"
proof -
  have "find_free_region (memst st) len = 0" using assms(1) by (cases "tree (memst st)") (simp_all add: find_free_region_def default_page_size_def)
  then show ?thesis using assms(2-6) by (auto simp: mmap_def Let_def sys_bind_def default_page_size_def)
qed

text \<open>An address space with a mapping at the top of the user half, as every process with a stack has one.\<close>

definition stack_mapping :: mapping where
  "stack_mapping = \<lparr>startp = 0x7FFFFFDFF, endp = 0x7FFFFFFFF, obj = 1, offsetp = 0, prot = 3, mflags = 2\<rparr>"

lemma sample_stack_space:
  "\<exists>st live st0. space_inv st live \<and> tree st = [sample_mapping, stack_mapping] \<and> pagemap_new st0 True = retR (vmm st, pmap st)"
proof -
  obtain st live st0 where s: "obj_inv st live" "\<forall>va. user_va va \<longrightarrow> small_ok (vmm st) (pmap st) va"
    "pagemap_new st0 True = retR (vmm st, pmap st)" using sample_objects by blast
  let ?st = "st\<lparr>tree := [sample_mapping, stack_mapping]\<rparr>"
  have "\<not> (covers p sample_mapping \<and> covers p stack_mapping)" for p by (simp add: covers_def sample_mapping_def stack_mapping_def word_le_nat_alt word_less_nat_alt)
  then have "tree_wf [sample_mapping, stack_mapping]"
    by (auto simp: tree_wf_def disjoint_maps_def) (simp_all add: sample_mapping_def stack_mapping_def)
  moreover have "unat (endp sample_mapping) \<le> 2 ^ 35" "unat (endp stack_mapping) \<le> 2 ^ 35" by (simp_all add: sample_mapping_def stack_mapping_def)
  ultimately have "space_inv ?st live" using s(1,2) by (simp add: space_inv_def pages_ok_def)
  moreover have "pagemap_new st0 True = retR (vmm ?st, pmap ?st)" using s(3) by simp
  ultimately show ?thesis by (intro exI [of _ ?st] exI [of _ live] exI [of _ st0]) simp
qed

theorem mmap_anonymous_witness:
  "\<exists>st0 st st'. pagemap_new st0 True = retR (vmm (memst st), pmap (memst st)) \<and> tree (memst st) = [sample_mapping, stack_mapping] \<and>
     mmap st 0 0x11000 3 0x22 (- 1) 0 = retR (st', Inr 0x20000) \<and>
     lookup (tree (memst st')) 0x30 = Some (next_object (memst st), 0x10, 3, 0x22)"
proof -
  obtain m live st0 where s: "space_inv m live" "tree m = [sample_mapping, stack_mapping]" "pagemap_new st0 True = retR (vmm m, pmap m)"
    using sample_stack_space by blast
  have d: "div_roundup 0x11000 0x1000 = (0x11 :: u64)" by (simp add: div_roundup_def align_down_def)
  have f: "find_free_region m 0x11000 = 0x20000"
    using s(2) by (simp add: find_free_region_def default_page_size_def d sample_mapping_def stack_mapping_def)
  let ?st = "(sample_vfs m)\<lparr>memst := m\<rparr>"
  from mmap_anonymous [of ?st live "0x11000" "0x22" 0 3] s(1) f obtain st' where
    r: "mmap ?st 0 0x11000 3 0x22 (- 1) 0 = retR (st', Inr 0x20000)"
      "lookup (tree (memst st')) = space_map (lookup (tree m)) 0x20 0x31 (next_object m) 0 3 0x22" by auto
  have "lookup (tree (memst st')) 0x30 = Some (next_object m, 0x10, 3, 0x22)" unfolding r(2) by (simp add: space_map_def)
  then show ?thesis using r(1) s(2,3) by (intro exI [of _ st0] exI [of _ ?st] exI [of _ st']) simp
qed

end
