(* ===== verification/Spinlock.thy ===== *)
theory Spinlock
  imports Prelude
begin

text \<open>
  The ticket spin lock (\<^verbatim>\<open>interfaces/lib/spinlock.cppm\<close>). Any number of threads below \<open>2\<^sup>6\<^sup>4\<close> run its functions
  concurrently: each atomic access is one step of the step relation, so every interleaving is an execution.
  Tickets are 64-bit words and wrap around. The lock is shown to refine a queue.
\<close>

section \<open>The ticket lock\<close>

record spinlock =
  next_ticket :: u64
  serving_ticket :: u64

text \<open>
  Where a thread is in \<open>lock\<close>, \<open>unlock\<close>, \<open>is_locked\<close> and \<open>try_lock\<close>, with the values it has
  loaded. \<open>Test\<close> is a thread inside \<open>is_locked\<close> on behalf of \<open>try_lock\<close>, \<open>Check\<close> on behalf of \<open>unlock\<close>.
\<close>

datatype spin_pc =
    Out
  | Spin u64
  | Held
  | Check "u64 option"
  | Release "u64 option"
  | Test u64

record spin_state =
  spin :: spinlock
  pcs :: "nat \<Rightarrow> spin_pc"

definition spin_init :: spin_state where
  "spin_init = \<lparr>spin = \<lparr>next_ticket = 0, serving_ticket = 0\<rparr>, pcs = (\<lambda>_. Out)\<rparr>"

definition set_pc :: "nat \<Rightarrow> spin_pc \<Rightarrow> spin_state \<Rightarrow> spin_state" where
  "set_pc t x s = s\<lparr>pcs := (pcs s)(t := x)\<rparr>"

text \<open>One atomic step of a thread, \<open>None\<close> when the thread does not take part. Only the holder calls \<open>unlock\<close>.\<close>

definition take_ticket :: "nat \<Rightarrow> spin_state \<Rightarrow> spin_state" where
  "take_ticket t s =
     (let k = next_ticket (spin s)
      in set_pc t (Spin k) (s\<lparr>spin := (spin s)\<lparr>next_ticket := k + 1\<rparr>\<rparr>))"

definition spin_once :: "nat \<Rightarrow> u64 \<Rightarrow> spin_state \<Rightarrow> spin_state" where
  "spin_once t k s = (if serving_ticket (spin s) \<noteq> k then s else set_pc t Held s)"

definition release_step :: "nat \<Rightarrow> u64 \<Rightarrow> spin_state \<Rightarrow> spin_state" where
  "release_step t cur s = set_pc t Out (s\<lparr>spin := (spin s)\<lparr>serving_ticket := cur + 1\<rparr>\<rparr>)"

datatype spin_event = Enqueue nat | Idle nat | Enter nat | Leave nat

inductive spin_step :: "nat \<Rightarrow> spin_state \<Rightarrow> spin_event \<Rightarrow> spin_state \<Rightarrow> bool" for n where
  lock: "t < n \<Longrightarrow> pcs s t = Out \<Longrightarrow> spin_step n s (Enqueue t) (take_ticket t s)"
| lock_wait: "t < n \<Longrightarrow> pcs s t = Spin k \<Longrightarrow> serving_ticket (spin s) \<noteq> k \<Longrightarrow> spin_step n s (Idle t) (spin_once t k s)"
| lock_enter: "t < n \<Longrightarrow> pcs s t = Spin k \<Longrightarrow> serving_ticket (spin s) = k \<Longrightarrow> spin_step n s (Enter t) (spin_once t k s)"
| unlock: "t < n \<Longrightarrow> pcs s t = Held \<Longrightarrow> spin_step n s (Idle t) (set_pc t (Check None) s)"
| check_serving: "t < n \<Longrightarrow> pcs s t = Check None \<Longrightarrow> spin_step n s (Idle t) (set_pc t (Check (Some (serving_ticket (spin s)))) s)"
| check_fails: "t < n \<Longrightarrow> pcs s t = Check (Some cur) \<Longrightarrow> cur = next_ticket (spin s) \<Longrightarrow> spin_step n s (Idle t) (set_pc t Out s)"
| check_next: "t < n \<Longrightarrow> pcs s t = Check (Some cur) \<Longrightarrow> cur \<noteq> next_ticket (spin s) \<Longrightarrow> spin_step n s (Idle t) (set_pc t (Release None) s)"
| release_load: "t < n \<Longrightarrow> pcs s t = Release None \<Longrightarrow> spin_step n s (Idle t) (set_pc t (Release (Some (serving_ticket (spin s)))) s)"
| release_store: "t < n \<Longrightarrow> pcs s t = Release (Some cur) \<Longrightarrow> spin_step n s (Leave t) (release_step t cur s)"
| try_lock: "t < n \<Longrightarrow> pcs s t = Out \<Longrightarrow> spin_step n s (Idle t) (set_pc t (Test (serving_ticket (spin s))) s)"
| try_fails: "t < n \<Longrightarrow> pcs s t = Test cur \<Longrightarrow> cur \<noteq> next_ticket (spin s) \<Longrightarrow> spin_step n s (Idle t) (set_pc t Out s)"
| try_goes_on: "t < n \<Longrightarrow> pcs s t = Test cur \<Longrightarrow> cur = next_ticket (spin s) \<Longrightarrow> spin_step n s (Enqueue t) (take_ticket t s)"

inductive spin_run :: "nat \<Rightarrow> spin_state \<Rightarrow> spin_event list \<Rightarrow> spin_state \<Rightarrow> bool" for n where
  stop: "spin_run n s [] s"
| more: "spin_step n s e s' \<Longrightarrow> spin_run n s' es s'' \<Longrightarrow> spin_run n s (e # es) s''"

text \<open>The thread is inside the critical section: \<open>lock\<close> has returned and the lock is not released yet.\<close>

fun inside :: "spin_pc \<Rightarrow> bool" where
  "inside Held = True" | "inside (Check _) = True" | "inside (Release _) = True" | "inside _ = False"

fun waiting :: "spin_pc \<Rightarrow> bool" where
  "waiting (Spin _) = True" | "waiting _ = False"

section \<open>The queue behind the tickets\<close>

text \<open>
  The abstraction: the queue of the threads that have a ticket. Its head may be inside, all others
  wait; the ticket of a thread is its position behind the ticket being served.
\<close>

definition spin_inv :: "nat \<Rightarrow> nat list \<Rightarrow> spin_state \<Rightarrow> bool" where
  "spin_inv n q s \<longleftrightarrow>
     distinct q \<and> set q = {t. t < n \<and> (inside (pcs s t) \<or> waiting (pcs s t))} \<and> (\<forall>t \<ge> n. pcs s t = Out) \<and>
     next_ticket (spin s) = serving_ticket (spin s) + of_nat (length q) \<and>
     (\<forall>i < length q. \<forall>k. pcs s (q ! i) = Spin k \<longrightarrow> k = serving_ticket (spin s) + of_nat i) \<and>
     (\<forall>i < length q. inside (pcs s (q ! i)) \<longrightarrow> i = 0) \<and>
     (\<forall>t cur. pcs s t = Check (Some cur) \<or> pcs s t = Release (Some cur) \<longrightarrow> cur = serving_ticket (spin s))"

definition queue_step :: "spin_event \<Rightarrow> nat list \<Rightarrow> nat list" where
  "queue_step e q = (case e of Enqueue t \<Rightarrow> q @ [t] | Leave t \<Rightarrow> tl q | _ \<Rightarrow> q)"

lemma spin_init_inv: "spin_inv n [] spin_init"
  by (simp add: spin_inv_def spin_init_def)

lemma spin_inv_length:
  assumes "spin_inv n q s" shows "length q \<le> n"
proof -
  have "set q \<subseteq> {..<n}" using assms by (auto simp: spin_inv_def)
  then have "card (set q) \<le> n" using card_mono [of "{..<n}"] by fastforce
  moreover have "distinct q" using assms by (simp add: spin_inv_def)
  ultimately show ?thesis using distinct_card [of q] by simp
qed

lemma in_queue: "spin_inv n q s \<Longrightarrow> t < n \<Longrightarrow> inside (pcs s t) \<or> waiting (pcs s t) \<Longrightarrow> \<exists>i < length q. q ! i = t"
  by (metis (mono_tags, lifting) in_set_conv_nth mem_Collect_eq spin_inv_def)


text \<open>A step that changes only where one thread is, and keeps it inside, waiting or outside.\<close>

lemma spin_inv_set_pc:
  assumes "spin_inv n q s" "t < n" "inside x = inside (pcs s t)" "waiting x = waiting (pcs s t)" "\<forall>k. x \<noteq> Spin k"
    "\<forall>cur. x = Check (Some cur) \<or> x = Release (Some cur) \<longrightarrow> cur = serving_ticket (spin s)"
  shows "spin_inv n q (set_pc t x s)"
proof -
  have "inside (pcs (set_pc t x s) u) = inside (pcs s u)" "waiting (pcs (set_pc t x s) u) = waiting (pcs s u)" for u
    using assms(3,4) by (auto simp: set_pc_def)
  moreover have "spin (set_pc t x s) = spin s" "pcs (set_pc t x s) u = (if u = t then x else pcs s u)" for u by (auto simp: set_pc_def)
  ultimately show ?thesis using assms(1,2,5,6) unfolding spin_inv_def by auto
qed

lemma spin_inv_inside_head:
  assumes "spin_inv n q s" "t < n" "inside (pcs s t)" obtains q' where "q = t # q'"
proof -
  obtain i where i: "i < length q" "q ! i = t" using in_queue [OF assms(1,2)] assms(3) by blast
  then have "i = 0" using assms(1,3) unfolding spin_inv_def by blast
  then show thesis using i that by (cases q) auto
qed

lemma take_ticket_inv:
  assumes inv: "spin_inv n q s" and t: "t < n" "\<not> inside (pcs s t)" "\<not> waiting (pcs s t)"
  shows "spin_inv n (q @ [t]) (take_ticket t s)"
proof -
  let ?s = "take_ticket t s"
  have s: "pcs ?s = (pcs s)(t := Spin (next_ticket (spin s)))" "serving_ticket (spin ?s) = serving_ticket (spin s)" "next_ticket (spin ?s) = next_ticket (spin s) + 1"
    by (simp_all add: take_ticket_def set_pc_def Let_def)
  have nq: "t \<notin> set q" and d: "distinct q" and st: "set q = {t. t < n \<and> (inside (pcs s t) \<or> waiting (pcs s t))}" and out: "\<forall>t \<ge> n. pcs s t = Out"
    and nt: "next_ticket (spin s) = serving_ticket (spin s) + of_nat (length q)"
    and sp: "\<forall>i < length q. \<forall>k. pcs s (q ! i) = Spin k \<longrightarrow> k = serving_ticket (spin s) + of_nat i"
    and ins: "\<forall>i < length q. inside (pcs s (q ! i)) \<longrightarrow> i = 0"
    and ld: "\<forall>t cur. pcs s t = Check (Some cur) \<or> pcs s t = Release (Some cur) \<longrightarrow> cur = serving_ticket (spin s)"
    using inv t by (auto simp: spin_inv_def)
  have "q ! i \<noteq> t" if "i < length q" for i using nq that nth_mem by blast
  then have "pcs ?s ((q @ [t]) ! i) = (if i < length q then pcs s (q ! i) else Spin (next_ticket (spin s)))" if "i < length (q @ [t])" for i
    using that by (auto simp: s nth_append)
  moreover have "set (q @ [t]) = {u. u < n \<and> (inside (pcs ?s u) \<or> waiting (pcs ?s u))}" using st t(1) by (auto simp: s)
  ultimately show ?thesis
    unfolding spin_inv_def using d nq out nt sp ins ld t(1) by (auto simp: s less_Suc_eq)
qed

lemma release_inv:
  assumes inv: "spin_inv n q s" and t: "t < n" "pcs s t = Release (Some cur)"
  shows "spin_inv n (tl q) (release_step t cur s)"
proof -
  let ?s = "release_step t cur s"
  obtain q' where q: "q = t # q'" using spin_inv_inside_head [OF inv t(1)] t(2) by auto
  have cur: "cur = serving_ticket (spin s)" using inv t(2) unfolding spin_inv_def by blast
  have s: "pcs ?s = (pcs s)(t := Out)" "serving_ticket (spin ?s) = serving_ticket (spin s) + 1" "next_ticket (spin ?s) = next_ticket (spin s)"
    by (simp_all add: release_step_def set_pc_def cur)
  have d: "distinct (t # q')" and st: "set (t # q') = {t. t < n \<and> (inside (pcs s t) \<or> waiting (pcs s t))}" and out: "\<forall>t \<ge> n. pcs s t = Out"
    and nt: "next_ticket (spin s) = serving_ticket (spin s) + of_nat (length (t # q'))"
    and sp: "\<forall>i < length (t # q'). \<forall>k. pcs s ((t # q') ! i) = Spin k \<longrightarrow> k = serving_ticket (spin s) + of_nat i"
    and ins: "\<forall>i < length (t # q'). inside (pcs s ((t # q') ! i)) \<longrightarrow> i = 0"
    using inv unfolding q spin_inv_def by blast+
  have ne: "q' ! i \<noteq> t" if "i < length q'" for i using d that nth_mem by fastforce
  have i1: "\<not> inside (pcs s (q' ! i))" if "i < length q'" for i using ins [rule_format, of "Suc i"] that by auto
  have i2: "k = serving_ticket (spin s) + 1 + of_nat i" if "i < length q'" "pcs s (q' ! i) = Spin k" for i k
    using sp [rule_format, of "Suc i" k] that by (simp add: algebra_simps)
  have st': "set q' = {u. u < n \<and> (inside (pcs ?s u) \<or> waiting (pcs ?s u))}" using st d by (auto simp: s)
  have none: "\<not> inside (pcs s u)" if "u \<noteq> t" for u
  proof
    assume "inside (pcs s u)"
    moreover have "u < n" using out \<open>inside (pcs s u)\<close> by (metis inside.simps(4) not_le)
    ultimately have "u \<in> set q'" using st that by auto
    then show False using i1 \<open>inside (pcs s u)\<close> by (metis in_set_conv_nth)
  qed
  then have "\<forall>u cur. pcs ?s u \<noteq> Check (Some cur) \<and> pcs ?s u \<noteq> Release (Some cur)" by (auto simp: s) (metis inside.simps(2,3))+
  then show ?thesis
    unfolding spin_inv_def q list.sel using d st' out nt ne i1 i2 t(1) by (auto simp: s algebra_simps)
qed

lemma enter_inv:
  assumes inv: "spin_inv n (t # q') s" and t: "t < n" "waiting (pcs s t)"
  shows "spin_inv n (t # q') (set_pc t Held s)"
proof -
  have d: "distinct (t # q')" and st: "set (t # q') = {t. t < n \<and> (inside (pcs s t) \<or> waiting (pcs s t))}" using inv unfolding spin_inv_def by blast+
  have ne: "q' ! i \<noteq> t" if "i < length q'" for i using d that nth_mem by fastforce
  have "set (t # q') = {u. u < n \<and> (inside (pcs (set_pc t Held s) u) \<or> waiting (pcs (set_pc t Held s) u))}"
    using st t by (auto simp: set_pc_def)
  moreover have "pcs (set_pc t Held s) ((t # q') ! i) = (if i = 0 then Held else pcs s ((t # q') ! i))" if "i < length (t # q')" for i
    using that ne by (cases i) (auto simp: set_pc_def)
  ultimately show ?thesis using inv t(1) unfolding spin_inv_def by (auto simp: set_pc_def split: if_splits)
qed

lemma spin_step_inv:
  assumes "spin_step n s e s'" "n < 2 ^ 64" "spin_inv n q s" shows "spin_inv n (queue_step e q) s'"
  using assms(1)
proof cases
  case (lock t) then show ?thesis using take_ticket_inv [OF assms(3)] by (simp add: queue_step_def)
next
  case (try_goes_on t cur) then show ?thesis using take_ticket_inv [OF assms(3)] by (simp add: queue_step_def)
next
  case (release_store t cur) then show ?thesis using release_inv [OF assms(3)] by (simp add: queue_step_def)
next
  case (lock_enter t k)
  obtain i where i: "i < length q" "q ! i = t" using in_queue [OF assms(3) lock_enter(3)] lock_enter(4) by auto
  then have "k = serving_ticket (spin s) + of_nat i" using assms(3) lock_enter(4) unfolding spin_inv_def by blast
  then have "serving_ticket (spin s) + of_nat i = serving_ticket (spin s) + of_nat 0" using lock_enter(5) by simp
  moreover have "i < 2 ^ 64" using i(1) spin_inv_length [OF assms(3)] assms(2) by simp
  ultimately have "i = 0" using ptr_offset_inj [of i 0 "serving_ticket (spin s)"] by simp
  then show ?thesis using enter_inv [of n t "tl q" s] assms(3) lock_enter i by (cases q) (auto simp: queue_step_def spin_once_def)
next
  case (check_fails t cur)
  obtain q' where q: "q = t # q'" using spin_inv_inside_head [OF assms(3) check_fails(3)] check_fails(4) by auto
  have "next_ticket (spin s) = serving_ticket (spin s) + of_nat (length q)" "cur = serving_ticket (spin s)" using assms(3) check_fails(4) unfolding spin_inv_def by blast+
  then have "serving_ticket (spin s) + of_nat (length q) = serving_ticket (spin s) + of_nat 0" using check_fails(5) by simp
  moreover have "length q < 2 ^ 64" using spin_inv_length [OF assms(3)] assms(2) by simp
  ultimately have "length q = 0" using ptr_offset_inj [of "length q" 0 "serving_ticket (spin s)"] by simp
  then show ?thesis using q by simp
qed (use assms(3) in \<open>auto simp: queue_step_def spin_once_def intro!: spin_inv_set_pc\<close>)


lemma spin_run_inv: "spin_run n s es s' \<Longrightarrow> n < 2 ^ 64 \<Longrightarrow> spin_inv n q s \<Longrightarrow> spin_inv n (fold queue_step es q) s'"
  by (induction arbitrary: q rule: spin_run.induct) (auto dest: spin_step_inv)

lemma spin_inside_unique:
  assumes "n < 2 ^ 64" "spin_run n spin_init es s" "inside (pcs s t)" "inside (pcs s u)"
  shows "t = u"
proof -
  have inv: "spin_inv n (fold queue_step es []) s" by (rule spin_run_inv [OF assms(2,1) spin_init_inv])
  have lt: "x < n" if "inside (pcs s x)" for x using inv that unfolding spin_inv_def by (metis inside.simps(4) not_le)
  obtain q' where "fold queue_step es [] = t # q'" using spin_inv_inside_head [OF inv lt [OF assms(3)] assms(3)] .
  moreover obtain q'' where "fold queue_step es [] = u # q''" using spin_inv_inside_head [OF inv lt [OF assms(4)] assms(4)] .
  ultimately show ?thesis by simp
qed

text \<open>
  Property C25. Mutual exclusion of the ticket lock: with any number of threads below \<open>2\<^sup>6\<^sup>4\<close> that lock, try to lock and unlock
  in any interleaving of their atomic accesses, also when tickets wrap around, at most one thread is between the return of
  \<open>lock\<close> and the store that releases the lock, and \<open>unlock\<close> never finds its own lock free.
\<close>

theorem spinlock_mutual_exclusion:
  assumes "n < 2 ^ 64" "spin_run n spin_init es s" "inside (pcs s t)" "inside (pcs s u)"
  shows "t = u \<and> (\<forall>cur. pcs s t = Check (Some cur) \<longrightarrow> cur \<noteq> next_ticket (spin s))"
proof -
  let ?q = "fold queue_step es []"
  have inv: "spin_inv n ?q s" by (rule spin_run_inv [OF assms(2,1) spin_init_inv])
  have lt: "x < n" if "inside (pcs s x)" for x using inv that unfolding spin_inv_def by (metis inside.simps(4) not_le)
  obtain q' where q: "?q = t # q'" using spin_inv_inside_head [OF inv lt [OF assms(3)] assms(3)] .
  have "t = u" by (rule spin_inside_unique [OF assms])
  moreover have "cur \<noteq> next_ticket (spin s)" if "pcs s t = Check (Some cur)" for cur
  proof -
    have "cur = serving_ticket (spin s) + of_nat 0" "next_ticket (spin s) = serving_ticket (spin s) + of_nat (length ?q)"
      using inv that unfolding spin_inv_def by auto
    moreover have "length ?q < 2 ^ 64" using spin_inv_length [OF inv] assms(1) by simp
    ultimately show ?thesis using ptr_offset_inj [of 0 "length ?q" "serving_ticket (spin s)"] q by simp
  qed
  ultimately show ?thesis by blast
qed

fun is_leave :: "spin_event \<Rightarrow> bool" where
  "is_leave (Leave _) = True" | "is_leave _ = False"

text \<open>While a thread waits, every release moves it one place forward and nothing else moves it.\<close>

lemma waiting_step:
  assumes "spin_step n s e s'" "spin_inv n q s" "i < length q" "q ! i = t" "pcs s t = Spin k" "e \<noteq> Enter t"
  shows "pcs s' t = Spin k \<and> (\<exists>j. i = j + (if is_leave e then 1 else 0) \<and> j < length (queue_step e q) \<and> queue_step e q ! j = t)"
  using assms(1)
proof cases
  case (release_store u cur)
  then have "u < n" "inside (pcs s u)" by simp_all
  then obtain q' where q: "q = u # q'" by (rule spin_inv_inside_head [OF assms(2)])
  have "u \<noteq> t" using release_store assms(5) by auto
  then show ?thesis using release_store q assms(3-5) by (cases i) (auto simp: queue_step_def release_step_def set_pc_def)
qed (use assms in \<open>auto simp: queue_step_def take_ticket_def spin_once_def set_pc_def Let_def nth_append\<close>)

lemma waiting_run:
  assumes "spin_run n s es s'" "n < 2 ^ 64" "spin_inv n q s" "i < length q" "q ! i = t" "pcs s t = Spin k" "Enter t \<notin> set es"
  shows "pcs s' t = Spin k \<and> (\<exists>j. i = j + length (filter is_leave es) \<and> j < length (fold queue_step es q) \<and> fold queue_step es q ! j = t)"
  using assms
proof (induction arbitrary: q i rule: spin_run.induct)
  case (more s e s' es s'')
  have e: "e \<noteq> Enter t" "Enter t \<notin> set es" using more.prems(6) by auto
  obtain j where j: "pcs s' t = Spin k" "i = j + (if is_leave e then 1 else 0)" "j < length (queue_step e q)" "queue_step e q ! j = t"
    using waiting_step [OF more.hyps(1) more.prems(2-5) e(1)] by blast
  from more.IH [OF more.prems(1) spin_step_inv [OF more.hyps(1) more.prems(1,2)] j(3,4,1) e(2)] show ?case using j(2) by auto
qed simp

text \<open>
  Property C26. The ticket lock is fair and does not deadlock. Whenever a thread waits, either some thread is inside or the
  head of the queue enters with its next access. And a waiting thread is passed at most once by every thread that took its ticket
  before: if \<open>i\<close> threads are ahead of it, then however the execution goes on, after at most \<open>i\<close>
  releases it is its turn, and until then no release is lost.
\<close>

theorem spinlock_fair:
  assumes "n < 2 ^ 64" "spin_run n spin_init es s" "waiting (pcs s t)"
  shows "((\<exists>h. inside (pcs s h)) \<or> (\<exists>h s'. spin_step n s (Enter h) s')) \<and>
    (\<exists>i < n. \<forall>es' s'. spin_run n s es' s' \<longrightarrow> Enter t \<notin> set es' \<longrightarrow>
       length (filter is_leave es') \<le> i \<and>
       (length (filter is_leave es') = i \<longrightarrow> (\<exists>s''. spin_step n s' (Enter t) s'' \<and> inside (pcs s'' t))))"
proof -
  let ?q = "fold queue_step es []"
  have inv: "spin_inv n ?q s" by (rule spin_run_inv [OF assms(2,1) spin_init_inv])
  obtain k where k: "pcs s t = Spin k" using assms(3) by (cases "pcs s t") auto
  have t: "t < n" using inv k unfolding spin_inv_def by (metis not_le spin_pc.distinct(1))
  obtain i where i: "i < length ?q" "?q ! i = t" using in_queue [OF inv t] assms(3) by blast
  have enter: "\<exists>s''. spin_step n s' (Enter h) s'' \<and> inside (pcs s'' h)"
    if "spin_inv n q s'" "0 < length q" "q ! 0 = h" "pcs s' h = Spin k'" for q s' h k'
  proof -
    have "pcs s' (q ! 0) = Spin k'" using that(3,4) by simp
    then have "k' = serving_ticket (spin s') + of_nat 0" using that(1,2) unfolding spin_inv_def by blast
    then have sv: "serving_ticket (spin s') = k'" by simp
    have "h \<in> set q" using nth_mem [OF that(2)] that(3) by simp
    then have "h < n" using that(1) unfolding spin_inv_def by blast
    then have "spin_step n s' (Enter h) (spin_once h k' s')" using that(4) sv by (rule lock_enter)
    moreover have "inside (pcs (spin_once h k' s') h)" by (simp add: spin_once_def sv set_pc_def)
    ultimately show ?thesis by blast
  qed
  have "(\<exists>h. inside (pcs s h)) \<or> (\<exists>h s'. spin_step n s (Enter h) s')"
  proof (cases "inside (pcs s (?q ! 0))")
    case False
    have l: "0 < length ?q" using i by auto
    then have "?q ! 0 \<in> set ?q" by (rule nth_mem)
    then have "waiting (pcs s (?q ! 0))" using inv False unfolding spin_inv_def by auto
    then obtain k' where "pcs s (?q ! 0) = Spin k'" by (cases "pcs s (?q ! 0)") auto
    then show ?thesis using enter [OF inv l] by blast
  qed blast
  moreover have "length (filter is_leave es') \<le> i \<and>
       (length (filter is_leave es') = i \<longrightarrow> (\<exists>s''. spin_step n s' (Enter t) s'' \<and> inside (pcs s'' t)))"
    if r: "spin_run n s es' s'" "Enter t \<notin> set es'" for es' s'
  proof -
    obtain j where j: "pcs s' t = Spin k" "i = j + length (filter is_leave es')" "j < length (fold queue_step es' ?q)" "fold queue_step es' ?q ! j = t"
      using waiting_run [OF r(1) assms(1) inv i k r(2)] by blast
    then show ?thesis using enter [OF spin_run_inv [OF r(1) assms(1) inv]] by auto
  qed
  moreover have "i < n" using i(1) spin_inv_length [OF inv] by simp
  ultimately show ?thesis by blast
qed

section \<open>Samples\<close>

text \<open>Thread 1 holds the lock, thread 0 waits.\<close>

definition spin_sample :: spin_state where
  "spin_sample = take_ticket 0 (spin_once 1 0 (take_ticket 1 spin_init))"

lemma spin_sample_run: "spin_run 2 spin_init [Enqueue 1, Enter 1, Enqueue 0] spin_sample"
proof -
  let ?s1 = "take_ticket 1 spin_init" and ?s2 = "spin_once 1 0 (take_ticket 1 spin_init)"
  have "spin_step 2 spin_init (Enqueue 1) ?s1" by (rule lock) (simp_all add: spin_init_def)
  moreover have "spin_step 2 ?s1 (Enter 1) ?s2" by (rule lock_enter) (simp_all add: spin_init_def take_ticket_def set_pc_def Let_def)
  moreover have "spin_step 2 ?s2 (Enqueue 0) spin_sample"
    unfolding spin_sample_def by (rule lock) (simp_all add: spin_init_def take_ticket_def spin_once_def set_pc_def Let_def)
  ultimately show ?thesis using spin_run.intros by metis
qed

lemma spin_sample_pcs: "pcs spin_sample 1 = Held" "pcs spin_sample 0 = Spin 1"
  by (simp_all add: spin_sample_def spin_init_def take_ticket_def spin_once_def set_pc_def Let_def)

theorem spinlock_mutual_exclusion_witness: "{u. inside (pcs spin_sample u)} = {1}"
proof -
  have i: "inside (pcs spin_sample 1)" using spin_sample_pcs(1) by (simp only: inside.simps)
  have "1 = u" if "inside (pcs spin_sample u)" for u
    using spinlock_mutual_exclusion [OF _ spin_sample_run i that] by simp
  then show ?thesis using i by blast
qed

theorem spinlock_fair_witness:
  "waiting (pcs spin_sample 0) \<and> (\<exists>i < 2. \<forall>es' s'. spin_run 2 spin_sample es' s' \<longrightarrow> Enter 0 \<notin> set es' \<longrightarrow> length (filter is_leave es') \<le> i)"
proof
  show w: "waiting (pcs spin_sample 0)" by (simp add: spin_sample_pcs)
  show "\<exists>i < 2. \<forall>es' s'. spin_run 2 spin_sample es' s' \<longrightarrow> Enter 0 \<notin> set es' \<longrightarrow> length (filter is_leave es') \<le> i"
    using spinlock_fair [OF _ spin_sample_run w] by auto
qed

end
