(* ===== verification/Locks.thy ===== *)
theory Locks
  imports Spinlock
begin

text \<open>
  What is built on the spin lock: disabling interrupts (\<^verbatim>\<open>source/lib/lock.cpp\<close>, \<^verbatim>\<open>interfaces/lib/spinlock.cppm\<close>),
  semaphores (\<^verbatim>\<open>source/lib/semaphore.cpp\<close>), mutexes (\<^verbatim>\<open>interfaces/lib/mutex.cppm\<close>) and reader-writer locks
  (\<^verbatim>\<open>interfaces/lib/rwlock.cppm\<close>), and the contract \<open>exclusive_lock\<close> that guarded data relies on.
\<close>

section \<open>Interrupts\<close>

text \<open>What \<open>acquire_irq\<close> and \<open>release_irq\<close> see of a processor.\<close>

record cpu_irq =
  cpu_available :: bool
  in_interrupt :: bool
  irq_depth :: u64
  ints :: bool

definition acquire_irq :: "cpu_irq \<Rightarrow> cpu_irq \<times> bool" where
  "acquire_irq c =
     (let ret = ints c
      in if \<not> cpu_available c then (c, ret)
         else if in_interrupt c then (c, ret)
         else (c\<lparr>irq_depth := irq_depth c + 1, ints := (if irq_depth c = 0 then False else ints c)\<rparr>, ret))"

definition release_irq :: "bool \<Rightarrow> cpu_irq \<Rightarrow> cpu_irq" where
  "release_irq old c =
     (if \<not> cpu_available c then c\<lparr>ints := old\<rparr>
      else if in_interrupt c then c
      else c\<lparr>irq_depth := irq_depth c - 1, ints := (if irq_depth c = 1 then old else ints c)\<rparr>)"

text \<open>The statuses that \<open>k\<close> nested calls return, the last one first.\<close>

fun nest_irq :: "nat \<Rightarrow> cpu_irq \<Rightarrow> cpu_irq \<times> bool list" where
  "nest_irq 0 c = (c, [])"
| "nest_irq (Suc k) c = (let (c, olds) = nest_irq k c; (c, old) = acquire_irq c in (c, old # olds))"

lemma nest_irq_depth:
  assumes "cpu_available c" "\<not> in_interrupt c" "irq_depth c = 0" "k < 2 ^ 64"
  shows "fst (nest_irq k c) = c\<lparr>irq_depth := of_nat k, ints := (ints c \<and> k = 0)\<rparr>"
  using assms(4)
proof (induction k)
  case (Suc k)
  obtain c' olds where c': "nest_irq k c = (c', olds)" by fastforce
  have "(of_nat k :: u64) = 0 \<longleftrightarrow> k = 0" using Suc.prems ptr_offset_inj [of k 0 0] by simp
  then show ?case using Suc c' assms(1,2) by (auto simp: acquire_irq_def Let_def add.commute)
qed (simp add: assms(3))

text \<open>
  Interrupts are restored when the nested locks are released in the reverse of the order they were taken in.
\<close>

lemma nest_irq_restores:
  assumes "cpu_available c" "\<not> in_interrupt c" "irq_depth c = 0" "k < 2 ^ 64"
  shows "fold release_irq (snd (nest_irq k c)) (fst (nest_irq k c)) = c"
  using assms(4)
proof (induction k)
  case (Suc k)
  obtain c' olds where c': "nest_irq k c = (c', olds)" by fastforce
  have d: "c' = c\<lparr>irq_depth := of_nat k, ints := (ints c \<and> k = 0)\<rparr>" using nest_irq_depth [OF assms(1-3), of k] Suc.prems c' by simp
  have z: "(of_nat k :: u64) = 0 \<longleftrightarrow> k = 0" using Suc.prems ptr_offset_inj [of k 0 0] by simp
  have "release_irq (ints c') (fst (acquire_irq c')) = c'"
    using assms(1,2) z by (auto simp: d acquire_irq_def release_irq_def Let_def)
  moreover have "acquire_irq c' = (fst (acquire_irq c'), ints c')" by (simp add: acquire_irq_def Let_def)
  ultimately show ?case using Suc.IH Suc.prems c' by (simp split: prod.splits) (metis fst_conv snd_conv)
qed simp

text \<open>Released in the order they were taken in, two locks leave interrupts disabled.\<close>

lemma unlock_in_lock_order_loses_interrupts:
  assumes "cpu_available c" "\<not> in_interrupt c" "irq_depth c = 0" "ints c"
  shows "(let (c1, a) = acquire_irq c; (c2, b) = acquire_irq c1 in release_irq b (release_irq a c2)) = c\<lparr>ints := False\<rparr>"
  using assms by (simp add: acquire_irq_def release_irq_def Let_def)

section \<open>The lock that disables interrupts\<close>

text \<open>
  \<open>spinlock_base<irq>\<close>: the status to restore is a field of the lock, and \<open>lock\<close> stores it before it
  has the lock. The parts of \<open>lock\<close> and \<open>unlock\<close> around the spin lock, on the processor that calls them.
\<close>

record irq_lock =
  interrupts :: bool

definition irq_lock_begin :: "irq_lock \<Rightarrow> cpu_irq \<Rightarrow> irq_lock \<times> cpu_irq" where
  "irq_lock_begin l c = (let (c, old) = acquire_irq c in (l\<lparr>interrupts := old\<rparr>, c))"

definition irq_unlock_end :: "irq_lock \<Rightarrow> cpu_irq \<Rightarrow> cpu_irq" where
  "irq_unlock_end l c = release_irq (interrupts l) c"

text \<open>
  A processor that waits for the lock with interrupts disabled overwrites the status the holder has stored:
  the holder, which had interrupts enabled, leaves \<open>unlock\<close> with interrupts disabled.
\<close>

lemma waiter_overwrites_interrupts:
  assumes "cpu_available a" "\<not> in_interrupt a" "irq_depth a = 0" "ints a" "\<not> ints b"
  shows "(let (l, a) = irq_lock_begin l a; (l, b) = irq_lock_begin l b in irq_unlock_end l a) = a\<lparr>ints := False\<rparr>"
  using assms by (auto simp: irq_lock_begin_def irq_unlock_end_def acquire_irq_def release_irq_def Let_def)

section \<open>Semaphores\<close>

text \<open>
  \<^verbatim>\<open>source/lib/semaphore.cpp\<close>. The functions hold the spin lock of the semaphore with interrupts disabled, so
  each part between \<open>lock\<close> and \<open>unlock\<close> is one step. The counter is an integer: to wrap around it would take
  \<open>2\<^sup>6\<^sup>3\<close> signals.
\<close>

record semaphore =
  sem_threads :: "nat list"
  signals :: int

definition sem_init :: semaphore where
  "sem_init = \<lparr>sem_threads = [], signals = 0\<rparr>"

definition sem_test :: "semaphore \<Rightarrow> semaphore \<times> bool" where
  "sem_test s = (if signals s > 0 then (s\<lparr>signals := signals s - 1\<rparr>, True) else (s, False))"

text \<open>\<open>wait\<close> up to \<open>yield\<close>: whether the thread goes to sleep.\<close>

definition sem_wait :: "nat \<Rightarrow> semaphore \<Rightarrow> semaphore \<times> bool" where
  "sem_wait me s =
     (let s = s\<lparr>signals := signals s - 1\<rparr>
      in if signals s < 0 then (s\<lparr>sem_threads := sem_threads s @ [me]\<rparr>, True) else (s, False))"

text \<open>
  \<open>wait\<close> after \<open>yield\<close>, when it reports that the sleep was interrupted: \<open>std::remove\<close> moves the
  other elements to the front, \<open>erase\<close> drops the first element behind them.
\<close>

definition std_remove :: "'a \<Rightarrow> 'a list \<Rightarrow> 'a list \<times> nat" where
  "std_remove x xs = (let ys = filter (\<lambda>y. y \<noteq> x) xs in (ys @ drop (length ys) xs, length ys))"

definition sem_interrupted :: "nat \<Rightarrow> semaphore \<Rightarrow> semaphore" where
  "sem_interrupted me s =
     (let (ts, it) = std_remove me (sem_threads s)
      in if it \<noteq> length ts then s\<lparr>sem_threads := take it ts @ drop (it + 1) ts, signals := signals s + 1\<rparr>
         else s\<lparr>sem_threads := ts\<rparr>)"

text \<open>The thread that \<open>signal\<close> wakes up, if any.\<close>

definition sem_signal :: "bool \<Rightarrow> semaphore \<Rightarrow> (semaphore \<times> nat option) run" where
  "sem_signal dropped s =
     (if dropped \<and> sem_threads s = [] then retR (s, None)
      else let s = s\<lparr>signals := signals s + 1\<rparr>
           in if signals s \<le> 0
              then (case sem_threads s of [] \<Rightarrow> failR Bug_on | t # ts \<Rightarrow> retR (s\<lparr>sem_threads := ts\<rparr>, Some t))
              else retR (s, None))"

text \<open>
  \<open>wait_for\<close>: what the other threads do to the semaphore while the caller sleeps for some milliseconds
  is the parameter \<open>others\<close>.
\<close>

definition sleep_part :: "u64 \<Rightarrow> u64" where
  "sleep_part ms = (if sint ms < 10 then ms else 10)"

lemma sint_positive: "\<not> bit (x :: u64) 63 \<Longrightarrow> sint x = uint x"
  using uint_bounded [of x] by (simp add: sint_uint signed_take_bit_eq_take_bit_minus take_bit_eq_mod bit_uint_iff)

lemma sleep_part_less:
  assumes "ms - sleep_part ms \<noteq> 0" shows "unat (ms - sleep_part ms) < unat ms"
proof -
  have "sleep_part ms = 10" "\<not> sint ms < 10" using assms by (auto simp: sleep_part_def split: if_splits)
  moreover have "10 \<le> ms"
  proof (rule ccontr)
    assume "\<not> 10 \<le> ms"
    then have lt: "uint ms < 10" by (simp add: word_le_def not_le)
    then have "ms div 0x8000000000000000 = 0" by (simp add: word_uint_eq_iff uint_div)
    then have "\<not> bit ms 63" by (simp add: bit_iff_odd)
    then show False using \<open>\<not> sint ms < 10\<close> lt sint_positive by simp
  qed
  ultimately show ?thesis by (simp add: unat_sub_no_wrap word_le_nat_alt)
qed

function sem_wait_for :: "(u64 \<Rightarrow> semaphore \<Rightarrow> semaphore) \<Rightarrow> u64 \<Rightarrow> semaphore \<Rightarrow> semaphore \<times> bool" where
  "sem_wait_for others ms s =
     (let (s, ok) = sem_test s
      in if ok then (s, True)
         else let eep = sleep_part ms;
                  ms = ms - eep;
                  s = (if eep \<noteq> 0 then others eep s else s)
              in if ms \<noteq> 0 then sem_wait_for others ms s else (s, False))"
  by auto
termination
  by (relation "measure (\<lambda>(_, ms, _). unat ms)") (auto intro: sleep_part_less)

declare sem_wait_for.simps [simp del]

section \<open>What semaphores promise\<close>

text \<open>
  The threads that use a semaphore: \<open>sleep\<close> lists those inside \<open>wait\<close> that have not been woken up.
  A thread waits only when it is not waiting already.
\<close>

inductive sem_reach :: "semaphore \<Rightarrow> bool" where
  start: "sem_reach sem_init"
| test: "sem_reach s \<Longrightarrow> sem_reach (fst (sem_test s))"
| wait: "sem_reach s \<Longrightarrow> me \<notin> set (sem_threads s) \<Longrightarrow> sem_reach (fst (sem_wait me s))"
| interrupted: "sem_reach s \<Longrightarrow> sem_reach (sem_interrupted me s)"
| signalled: "sem_reach s \<Longrightarrow> sem_signal dropped s = retR (s', w) \<Longrightarrow> sem_reach s'"

definition sem_inv :: "semaphore \<Rightarrow> bool" where
  "sem_inv s \<longleftrightarrow> distinct (sem_threads s) \<and> length (sem_threads s) = nat (- signals s)"

lemma length_filter_one: "distinct xs \<Longrightarrow> x \<in> set xs \<Longrightarrow> length (filter (\<lambda>y. y \<noteq> x) xs) + 1 = length xs"
proof (induction xs)
  case (Cons a xs)
  have "filter (\<lambda>y. y \<noteq> a) xs = xs" using Cons.prems(1) by (auto intro: filter_True)
  then show ?case using Cons by (cases "a = x") auto
qed simp

lemma sem_interrupted_in:
  assumes "distinct (sem_threads s)"
  shows "sem_interrupted me s =
    (if me \<in> set (sem_threads s) then s\<lparr>sem_threads := filter (\<lambda>t. t \<noteq> me) (sem_threads s), signals := signals s + 1\<rparr> else s)"
proof (cases "me \<in> set (sem_threads s)")
  case True
  let ?ys = "filter (\<lambda>t. t \<noteq> me) (sem_threads s)"
  have "length ?ys + 1 = length (sem_threads s)"
    by (rule length_filter_one [OF assms True])
  then show ?thesis using True by (simp add: sem_interrupted_def std_remove_def Let_def)
next
  case False
  then have "filter (\<lambda>t. t \<noteq> me) (sem_threads s) = sem_threads s" by (auto intro: filter_True)
  then show ?thesis using False by (simp add: sem_interrupted_def std_remove_def Let_def)
qed

lemma sem_reach_inv: "sem_reach s \<Longrightarrow> sem_inv s"
proof (induction rule: sem_reach.induct)
  case (interrupted s me)
  have "length (filter (\<lambda>t. t \<noteq> me) (sem_threads s)) = length (sem_threads s) - 1" if "me \<in> set (sem_threads s)"
    using length_filter_one [OF _ that] interrupted.IH by (simp add: sem_inv_def)
  then show ?case using interrupted.IH by (auto simp: sem_inv_def sem_interrupted_in dest: length_pos_if_in_set)
next
  case (signalled s dropped s' w)
  then show ?case by (auto simp: sem_inv_def sem_signal_def Let_def split: if_splits list.splits)
qed (auto simp: sem_inv_def sem_init_def sem_test_def sem_wait_def Let_def)

text \<open>
  Property C28. In every state a semaphore can reach, a positive count means that nobody sleeps and a
  negative count is the number of sleeping threads. Hence the assertion in \<open>signal\<close> never fails: a signal wakes up exactly the
  thread that has slept longest, or, when nobody sleeps, is counted (or dropped if asked for), and an interrupted wait gives
  back exactly its own place.
\<close>

theorem semaphore_correct:
  assumes "sem_reach s"
  shows "(if 0 \<le> signals s then sem_threads s = [] else int (length (sem_threads s)) = - signals s) \<and>
    sem_signal dropped s =
      retR (case sem_threads s of
              t # ts \<Rightarrow> (\<lparr>sem_threads = ts, signals = signals s + 1\<rparr>, Some t)
            | [] \<Rightarrow> (if dropped then s else s\<lparr>signals := signals s + 1\<rparr>, None)) \<and>
    sem_threads (sem_interrupted me s) = filter (\<lambda>t. t \<noteq> me) (sem_threads s)"
proof -
  note inv = sem_reach_inv [OF assms, unfolded sem_inv_def]
  have a: "if 0 \<le> signals s then sem_threads s = [] else int (length (sem_threads s)) = - signals s" using inv by auto
  moreover have "sem_signal dropped s =
      retR (case sem_threads s of t # ts \<Rightarrow> (\<lparr>sem_threads = ts, signals = signals s + 1\<rparr>, Some t)
            | [] \<Rightarrow> (if dropped then s else s\<lparr>signals := signals s + 1\<rparr>, None))"
    using a by (cases s) (auto simp: sem_signal_def Let_def split: list.splits if_splits)
  moreover have "sem_threads (sem_interrupted me s) = filter (\<lambda>t. t \<noteq> me) (sem_threads s)"
    using inv by (auto simp: sem_interrupted_in intro!: filter_True [symmetric])
  ultimately show ?thesis by blast
qed


theorem semaphore_correct_witness:
  "sem_signal False (fst (sem_wait 5 (fst (sem_wait 4 sem_init)))) = retR (\<lparr>sem_threads = [5], signals = - 1\<rparr>, Some 4)"
proof -
  have "sem_reach (fst (sem_wait 5 (fst (sem_wait 4 sem_init))))"
    by (intro sem_reach.wait sem_reach.start) (simp_all add: sem_wait_def sem_init_def)
  from semaphore_correct [OF this, of False] show ?thesis by (simp add: sem_wait_def sem_init_def)
qed

text \<open>\<open>wait_for\<close> takes a signal that is there, and otherwise gives up only after all of its time has passed.\<close>

lemma sem_wait_for_now: "0 < signals s \<Longrightarrow> sem_wait_for others ms s = (s\<lparr>signals := signals s - 1\<rparr>, True)"
  by (simp add: sem_wait_for.simps sem_test_def)

section \<open>Mutexes\<close>

text \<open>
  \<^verbatim>\<open>interfaces/lib/mutex.cppm\<close>: a spin lock for exclusion and a semaphore to sleep on. An uncontended
  \<open>lock\<close> takes the next ticket and is served at once.
\<close>

record mutex =
  mutex_lock :: spinlock
  mutex_sem :: semaphore

definition spin_is_locked :: "spinlock \<Rightarrow> bool" where
  "spin_is_locked l \<longleftrightarrow> serving_ticket l \<noteq> next_ticket l"

text \<open>\<open>lock\<close> up to the spin lock: whether the thread goes to sleep.\<close>

definition mutex_lock_begin :: "nat \<Rightarrow> mutex \<Rightarrow> mutex \<times> bool" where
  "mutex_lock_begin me m =
     (if spin_is_locked (mutex_lock m)
      then let (s, slept) = sem_wait me (mutex_sem m) in (m\<lparr>mutex_sem := s\<rparr>, slept)
      else (m, False))"

definition mutex_lock_free :: "mutex \<Rightarrow> mutex option" where
  "mutex_lock_free m =
     (if spin_is_locked (mutex_lock m) then None
      else Some (m\<lparr>mutex_lock := (mutex_lock m)\<lparr>next_ticket := next_ticket (mutex_lock m) + 1\<rparr>\<rparr>))"

definition mutex_unlock :: "mutex \<Rightarrow> (mutex \<times> bool) run" where
  "mutex_unlock m =
     (if \<not> spin_is_locked (mutex_lock m) then retR (m, False)
      else let m = m\<lparr>mutex_lock := (mutex_lock m)\<lparr>serving_ticket := serving_ticket (mutex_lock m) + 1\<rparr>\<rparr>
           in bindR (sem_signal False (mutex_sem m)) (\<lambda>(s, _). retR (m\<lparr>mutex_sem := s\<rparr>, True)))"

fun mutex_rounds :: "nat \<Rightarrow> mutex \<Rightarrow> mutex run" where
  "mutex_rounds 0 m = retR m"
| "mutex_rounds (Suc k) m =
     (case mutex_lock_free m of None \<Rightarrow> failR Bug_on | Some m \<Rightarrow> bindR (mutex_unlock m) (\<lambda>(m, _). mutex_rounds k m))"

text \<open>
  Every uncontended round of \<open>lock\<close> and \<open>unlock\<close> leaves a signal behind, so that as many later
  threads that find the lock taken do not sleep in \<open>lock\<close> but spin.
\<close>

lemma mutex_rounds_leave_signals:
  assumes "\<not> spin_is_locked (mutex_lock m)" "mutex_sem m = \<lparr>sem_threads = [], signals = int j\<rparr>"
  shows "\<exists>m'. mutex_rounds k m = retR m' \<and> mutex_sem m' = \<lparr>sem_threads = [], signals = int (j + k)\<rparr> \<and> \<not> spin_is_locked (mutex_lock m') \<and>
    (0 < j + k \<longrightarrow> (\<forall>l. snd (mutex_lock_begin me (m'\<lparr>mutex_lock := l\<rparr>)) = False))"
  using assms
proof (induction k arbitrary: m j)
  case 0 then show ?case by (simp add: mutex_lock_begin_def sem_wait_def)
next
  case (Suc k)
  define m1 where "m1 = m\<lparr>mutex_lock := (mutex_lock m)\<lparr>next_ticket := next_ticket (mutex_lock m) + 1\<rparr>\<rparr>"
  define m2 where "m2 = m1\<lparr>mutex_lock := (mutex_lock m1)\<lparr>serving_ticket := serving_ticket (mutex_lock m1) + 1\<rparr>, mutex_sem := \<lparr>sem_threads = [], signals = int (Suc j)\<rparr>\<rparr>"
  have l: "mutex_lock_free m = Some m1" using Suc.prems(1) by (simp add: mutex_lock_free_def m1_def)
  have "spin_is_locked (mutex_lock m1)" using Suc.prems(1) by (simp add: m1_def spin_is_locked_def)
  then have u: "mutex_unlock m1 = retR (m2, True)" using Suc.prems(2) by (simp add: mutex_unlock_def sem_signal_def m1_def m2_def Let_def)
  have "\<not> spin_is_locked (mutex_lock m2)" "mutex_sem m2 = \<lparr>sem_threads = [], signals = int (Suc j)\<rparr>"
    using Suc.prems(1) by (simp_all add: m2_def m1_def spin_is_locked_def)
  from Suc.IH [OF this] show ?case using l u by simp
qed

section \<open>Reader-writer locks\<close>

text \<open>
  \<^verbatim>\<open>interfaces/lib/rwlock.cppm\<close>. The two locks inside are either held or free, as mutual exclusion of the spin lock
  allows; taking a free lock, releasing one, and each access to the counter is a step. A failed
  assertion in \<open>read_unlock\<close>, \<open>write_unlock\<close> or \<open>upgrade\<close> sets \<open>rw_panic\<close>.
\<close>

datatype rw_pc =
    RW_out
  | R_count | R_wait | R_done | Reading | R_left | R_uncount | R_free | R_end
  | Writing | W_left
  | U_test | U_count | U_end bool | U_wait bool

record rw_state =
  rw_counter :: nat
  rw_readers :: bool
  rw_global :: bool
  rw_panic :: bool
  rw_pcs :: "nat \<Rightarrow> rw_pc"

definition rw_init :: rw_state where
  "rw_init = \<lparr>rw_counter = 0, rw_readers = False, rw_global = False, rw_panic = False, rw_pcs = (\<lambda>_. RW_out)\<rparr>"

definition is_read_locked :: "rw_state \<Rightarrow> bool" where
  "is_read_locked s \<longleftrightarrow> rw_global s \<and> rw_counter s > 0"

definition is_write_locked :: "rw_state \<Rightarrow> bool" where
  "is_write_locked s \<longleftrightarrow> rw_global s \<and> rw_counter s = 0"

definition rw_at :: "nat \<Rightarrow> rw_pc \<Rightarrow> rw_state \<Rightarrow> rw_state" where
  "rw_at t x s = s\<lparr>rw_pcs := (rw_pcs s)(t := x)\<rparr>"

text \<open>One step of thread \<open>t\<close>; \<open>None\<close> when it has to wait for a lock. \<open>w\<close> chooses what an idle thread or a reader does next.\<close>

definition rw_next :: "nat \<Rightarrow> nat \<Rightarrow> rw_state \<Rightarrow> rw_state option" where
  "rw_next w t s =
     (case rw_pcs s t of
        RW_out \<Rightarrow>
          if w = 0
          then if rw_readers s then None else Some (rw_at t R_count (s\<lparr>rw_readers := True\<rparr>))
          else if rw_global s then None else Some (rw_at t Writing (s\<lparr>rw_global := True\<rparr>))
      | R_count \<Rightarrow> Some (rw_at t (if rw_counter s + 1 = 1 then R_wait else R_done) (s\<lparr>rw_counter := rw_counter s + 1\<rparr>))
      | R_wait \<Rightarrow> if rw_global s then None else Some (rw_at t R_done (s\<lparr>rw_global := True\<rparr>))
      | R_done \<Rightarrow> Some (rw_at t Reading (s\<lparr>rw_readers := False\<rparr>))
      | Reading \<Rightarrow> if \<not> is_read_locked s then Some (s\<lparr>rw_panic := True\<rparr>) else Some (rw_at t (if w = 0 then R_left else U_test) s)
      | R_left \<Rightarrow> if rw_readers s then None else Some (rw_at t R_uncount (s\<lparr>rw_readers := True\<rparr>))
      | R_uncount \<Rightarrow> Some (rw_at t (if rw_counter s - 1 = 0 then R_free else R_end) (s\<lparr>rw_counter := rw_counter s - 1\<rparr>))
      | R_free \<Rightarrow> Some (rw_at t R_end (s\<lparr>rw_global := False\<rparr>))
      | R_end \<Rightarrow> Some (rw_at t RW_out (s\<lparr>rw_readers := False\<rparr>))
      | Writing \<Rightarrow> if \<not> is_write_locked s then Some (s\<lparr>rw_panic := True\<rparr>) else Some (rw_at t W_left s)
      | W_left \<Rightarrow> Some (rw_at t RW_out (s\<lparr>rw_global := False\<rparr>))
      | U_test \<Rightarrow> if rw_readers s then None else Some (rw_at t U_count (s\<lparr>rw_readers := True\<rparr>))
      | U_count \<Rightarrow> Some (rw_at t (U_end (rw_counter s - 1 = 0)) (s\<lparr>rw_counter := rw_counter s - 1\<rparr>))
      | U_end l \<Rightarrow> Some (rw_at t (U_wait l) (s\<lparr>rw_readers := False\<rparr>))
      | U_wait l \<Rightarrow> if l then Some (rw_at t Writing s) else if rw_global s then None else Some (rw_at t Writing (s\<lparr>rw_global := True\<rparr>)))"

inductive rw_reach :: "nat \<Rightarrow> rw_state \<Rightarrow> bool" for n where
  start: "rw_reach n rw_init"
| step: "rw_reach n s \<Longrightarrow> \<not> rw_panic s \<Longrightarrow> t < n \<Longrightarrow> rw_next w t s = Some s' \<Longrightarrow> rw_reach n s'"

text \<open>Threads that hold \<open>readers\<close>, are counted, share \<open>global\<close> as readers, or own it alone.\<close>

definition holds_readers :: "rw_pc \<Rightarrow> bool" where
  "holds_readers x \<longleftrightarrow> x \<in> {R_count, R_wait, R_done, R_uncount, R_free, R_end, U_count} \<or> (\<exists>l. x = U_end l)"

definition counted :: "rw_pc \<Rightarrow> bool" where
  "counted x \<longleftrightarrow> x \<in> {R_wait, R_done, Reading, R_left, R_uncount, U_test, U_count}"

definition shares :: "rw_pc \<Rightarrow> bool" where
  "shares x \<longleftrightarrow> x \<in> {R_done, Reading, R_left, R_uncount, U_test, U_count}"

definition owns :: "rw_pc \<Rightarrow> bool" where
  "owns x \<longleftrightarrow> x \<in> {R_free, Writing, W_left, U_end True, U_wait True}"

definition rw_inv :: "nat \<Rightarrow> rw_state \<Rightarrow> bool" where
  "rw_inv n s \<longleftrightarrow>
     (\<forall>t \<ge> n. rw_pcs s t = RW_out) \<and>
     (\<forall>t. holds_readers (rw_pcs s t) \<longrightarrow> rw_readers s) \<and>
     (\<forall>t u. holds_readers (rw_pcs s t) \<longrightarrow> holds_readers (rw_pcs s u) \<longrightarrow> t = u) \<and>
     rw_counter s = card {t. t < n \<and> counted (rw_pcs s t)} \<and>
     (\<forall>t. shares (rw_pcs s t) \<or> owns (rw_pcs s t) \<longrightarrow> rw_global s) \<and>
     (\<forall>t u. owns (rw_pcs s t) \<longrightarrow> owns (rw_pcs s u) \<longrightarrow> t = u) \<and>
     (\<forall>t u. owns (rw_pcs s t) \<longrightarrow> \<not> shares (rw_pcs s u)) \<and>
     (\<forall>t u. rw_pcs s t = R_wait \<longrightarrow> \<not> shares (rw_pcs s u))"

lemma rw_init_inv: "rw_inv n rw_init"
  by (simp add: rw_inv_def rw_init_def holds_readers_def counted_def shares_def owns_def)

lemma card_counted_upd:
  assumes "t < (n :: nat)"
  shows "card {u. u < n \<and> counted ((f(t := x)) u)} = card {u. u < n \<and> counted (f u)} - (if counted (f t) then 1 else 0) + (if counted x then 1 else 0)"
proof -
  let ?A = "{u. u < n \<and> counted (f u)}" and ?B = "{u. u < n \<and> u \<noteq> t \<and> counted (f u)}"
  have f: "finite ?B" by (rule finite_subset [of _ "{..<n}"]) auto
  have A: "?A = (if counted (f t) then insert t ?B else ?B)" using assms by auto
  have "{u. u < n \<and> counted ((f(t := x)) u)} = (if counted x then insert t ?B else ?B)" using assms by auto
  then show ?thesis using f by (simp add: A)
qed

lemma rw_inv_counter_pos: "rw_inv n s \<Longrightarrow> counted (rw_pcs s t) \<Longrightarrow> 0 < rw_counter s"
proof -
  assume inv: "rw_inv n s" and c: "counted (rw_pcs s t)"
  have "rw_pcs s t \<noteq> RW_out" using c by (auto simp: counted_def)
  then have "t < n" using inv unfolding rw_inv_def by (metis not_le)
  then have "t \<in> {t. t < n \<and> counted (rw_pcs s t)}" using c by simp
  then have "card {t. t < n \<and> counted (rw_pcs s t)} > 0" by (subst card_gt_0_iff) auto
  then show ?thesis using inv by (simp add: rw_inv_def)
qed

lemma rw_inv_other_counted:
  assumes "rw_inv n s" "1 < rw_counter s" shows "\<exists>u. u \<noteq> t \<and> counted (rw_pcs s u)"
proof (rule ccontr)
  assume "\<not> ?thesis"
  then have "{u. u < n \<and> counted (rw_pcs s u)} \<subseteq> {t}" by auto
  then have "card {u. u < n \<and> counted (rw_pcs s u)} \<le> 1" by (metis card_mono finite.emptyI finite_insert is_singletonI is_singleton_altdef)
  then show False using assms by (simp add: rw_inv_def)
qed

lemma rw_invD:
  assumes "rw_inv n s"
  shows "n \<le> t \<Longrightarrow> rw_pcs s t = RW_out" "holds_readers (rw_pcs s t) \<Longrightarrow> rw_readers s"
    "holds_readers (rw_pcs s t) \<Longrightarrow> holds_readers (rw_pcs s u) \<Longrightarrow> t = u" "rw_counter s = card {t. t < n \<and> counted (rw_pcs s t)}"
    "shares (rw_pcs s t) \<or> owns (rw_pcs s t) \<Longrightarrow> rw_global s" "owns (rw_pcs s t) \<Longrightarrow> owns (rw_pcs s u) \<Longrightarrow> t = u"
    "owns (rw_pcs s t) \<Longrightarrow> \<not> shares (rw_pcs s u)" "rw_pcs s t = R_wait \<Longrightarrow> \<not> shares (rw_pcs s u)"
  using assms unfolding rw_inv_def by blast+

lemma rw_inv_move:
  assumes inv: "rw_inv n s" and t: "t < n"
    and s': "rw_pcs s' = (rw_pcs s)(t := x)"
    and c: "rw_counter s' = rw_counter s - (if counted (rw_pcs s t) then 1 else 0) + (if counted x then 1 else 0)"
    and r: "holds_readers x \<Longrightarrow> rw_readers s'" "\<And>u. u \<noteq> t \<Longrightarrow> holds_readers (rw_pcs s u) \<Longrightarrow> rw_readers s' \<and> \<not> holds_readers x"
    and g: "shares x \<or> owns x \<Longrightarrow> rw_global s'" "\<And>u. u \<noteq> t \<Longrightarrow> shares (rw_pcs s u) \<or> owns (rw_pcs s u) \<Longrightarrow> rw_global s'"
    and o: "\<And>u. u \<noteq> t \<Longrightarrow> owns x \<Longrightarrow> \<not> owns (rw_pcs s u) \<and> \<not> shares (rw_pcs s u)"
    and sh: "\<And>u. u \<noteq> t \<Longrightarrow> shares x \<Longrightarrow> \<not> owns (rw_pcs s u) \<and> rw_pcs s u \<noteq> R_wait"
    and w: "\<And>u. u \<noteq> t \<Longrightarrow> x = R_wait \<Longrightarrow> \<not> shares (rw_pcs s u)"
  shows "rw_inv n s'"
proof -
  have os: "\<not> (owns x \<and> shares x)" "\<not> (x = R_wait \<and> shares x)" by (auto simp: owns_def shares_def)
  note I = rw_invD [OF inv]
  have pc: "rw_pcs s' u = (if u = t then x else rw_pcs s u)" for u by (simp add: s')
  have "rw_pcs s' u = RW_out" if "n \<le> u" for u using I(1) [OF that] t that by (simp add: pc)
  moreover have "rw_readers s'" if "holds_readers (rw_pcs s' u)" for u using that r unfolding pc by (cases "u = t") auto
  moreover have "u = v" if "holds_readers (rw_pcs s' u)" "holds_readers (rw_pcs s' v)" for u v
    using that I(3) [of u v] r(2) [of u] r(2) [of v] unfolding pc by (cases "u = t"; cases "v = t") auto
  moreover have "rw_counter s' = card {t. t < n \<and> counted (rw_pcs s' t)}"
    using c card_counted_upd [OF t, of "rw_pcs s" x] I(4) unfolding s' by simp
  moreover have "rw_global s'" if "shares (rw_pcs s' u) \<or> owns (rw_pcs s' u)" for u using that g unfolding pc by (cases "u = t") auto
  moreover have "u = v" if "owns (rw_pcs s' u)" "owns (rw_pcs s' v)" for u v
    using that I(6) [of u v] o [of u] o [of v] unfolding pc by (cases "u = t"; cases "v = t") auto
  moreover have "\<not> shares (rw_pcs s' v)" if "owns (rw_pcs s' u)" for u v
    using that I(7) [of u v] o [of v] sh [of u] os unfolding pc by (cases "u = t"; cases "v = t") auto
  moreover have "\<not> shares (rw_pcs s' v)" if "rw_pcs s' u = R_wait" for u v
    using that I(8) [of u v] w [of v] sh [of u] os unfolding pc by (cases "u = t"; cases "v = t") auto
  ultimately show ?thesis unfolding rw_inv_def by blast
qed

lemmas rw_classes = holds_readers_def counted_def shares_def owns_def

lemma rw_step_inv:
  assumes inv: "rw_inv n s" and t: "t < n" and st: "rw_next w t s = Some s'"
  shows "rw_inv n s'"
proof -
  note I = rw_invD [OF inv]
  have hr: "\<not> holds_readers (rw_pcs s u)" if "\<not> rw_readers s" for u using I(2) that by blast
  have gl: "\<not> shares (rw_pcs s u)" "\<not> owns (rw_pcs s u)" if "\<not> rw_global s" for u using I(5) that by blast+
  have one: "\<not> holds_readers (rw_pcs s u)" if "holds_readers (rw_pcs s t)" "u \<noteq> t" for u using I(3) that by blast
  have pos: "0 < rw_counter s" if "counted (rw_pcs s u)" for u by (rule rw_inv_counter_pos [OF inv that])
  have last: "\<not> counted (rw_pcs s u)" if "counted (rw_pcs s t)" "rw_counter s - 1 = 0" "u \<noteq> t" for u
  proof
    assume "counted (rw_pcs s u)"
    moreover from this have "u < n" using I(1) [of u] by (cases "n \<le> u") (auto simp: counted_def)
    ultimately have "{t, u} \<subseteq> {t. t < n \<and> counted (rw_pcs s t)}" using t that(1) by auto
    then have "card {t, u} \<le> rw_counter s" unfolding I(4) by (intro card_mono) auto
    then show False using that(2,3) by simp
  qed
  have sc: "counted x" if "shares x" for x using that by (auto simp: shares_def counted_def)
  have oc: "\<not> counted x" if "owns x" for x using that by (auto simp: owns_def counted_def)
  have oneo: "\<not> owns (rw_pcs s u)" if "owns (rw_pcs s t)" "u \<noteq> t" for u using I(6) that by blast
  have onew: "rw_pcs s u \<noteq> R_wait" if "holds_readers (rw_pcs s t)" "u \<noteq> t" for u using one [OF that] by (auto simp: holds_readers_def)
  have lasts: "\<not> shares (rw_pcs s u)" if "counted (rw_pcs s t)" "rw_counter s - 1 = 0" "u \<noteq> t" for u using last [OF that] sc by blast
  have wc: "counted R_wait" by (simp add: counted_def)
  have free: "rw_inv n (rw_at t x (s\<lparr>rw_global := False\<rparr>))" if "owns (rw_pcs s t)" "\<not> counted x" "\<not> owns x" "holds_readers x = holds_readers (rw_pcs s t)" for x
    by (rule rw_inv_move [OF inv t, where x = x]) (use that I(2) one oneo I(7) [of t] sc oc wc in \<open>auto simp: rw_at_def\<close>)
  have drop: "rw_inv n (rw_at t x (s\<lparr>rw_readers := False\<rparr>))"
    if "holds_readers (rw_pcs s t)" "\<not> holds_readers x" "counted x = counted (rw_pcs s t)" "shares x = shares (rw_pcs s t)" "owns x = owns (rw_pcs s t)" "x \<noteq> R_wait" for x
    by (rule rw_inv_move [OF inv t, where x = x]) (use that pos one I(5) oneo I(7) I(8) in \<open>auto simp: rw_at_def\<close>)
  have take: "rw_inv n (rw_at t x (s\<lparr>rw_readers := True\<rparr>))"
    if "\<not> rw_readers s" "counted x = counted (rw_pcs s t)" "shares x = shares (rw_pcs s t)" "owns x = owns (rw_pcs s t)" "x \<noteq> R_wait" for x
    by (rule rw_inv_move [OF inv t, where x = x]) (use that pos hr I(5) oneo I(7) I(8) in \<open>auto simp: rw_at_def\<close>)
  have stay: "rw_inv n (rw_at t x s)"
    if "holds_readers x = holds_readers (rw_pcs s t)" "counted x = counted (rw_pcs s t)" "shares x = shares (rw_pcs s t)" "owns x = owns (rw_pcs s t)" "x \<noteq> R_wait" for x
    by (rule rw_inv_move [OF inv t, where x = x]) (use that pos I(2) one I(5) oneo I(7) I(8) in \<open>auto simp: rw_at_def\<close>)
  have own: "rw_inv n (rw_at t x (s\<lparr>rw_global := True\<rparr>))"
    if "\<not> rw_global s" "holds_readers x = holds_readers (rw_pcs s t)" "counted x = counted (rw_pcs s t)" "shares x \<longrightarrow> holds_readers (rw_pcs s t)" "x \<noteq> R_wait" for x
    by (rule rw_inv_move [OF inv t, where x = x]) (use that pos gl I(2) one onew in \<open>auto simp: rw_at_def\<close>)
  have leave: "rw_inv n (rw_at t x (s\<lparr>rw_counter := rw_counter s - 1\<rparr>))"
    if "shares (rw_pcs s t)" "holds_readers x = holds_readers (rw_pcs s t)" "\<not> counted x" "owns x \<longrightarrow> rw_counter s - 1 = 0" for x
  proof -
    have x: "\<not> shares x" "x \<noteq> R_wait" "counted (rw_pcs s t)" using that(1,3) sc wc by blast+
    have "\<not> owns (rw_pcs s u)" for u using I(7) that(1) by blast
    moreover have "\<not> shares (rw_pcs s u)" if "owns x" "u \<noteq> t" for u using lasts x(3) that \<open>owns x \<longrightarrow> rw_counter s - 1 = 0\<close> by blast
    moreover have "rw_global s" using I(5) that(1) by blast
    moreover have "holds_readers x \<Longrightarrow> rw_readers s" "\<And>u. u \<noteq> t \<Longrightarrow> holds_readers (rw_pcs s u) \<Longrightarrow> rw_readers s \<and> \<not> holds_readers x"
      using I(2) one that(2) by blast+
    ultimately show ?thesis using x that(3) by (intro rw_inv_move [OF inv t, where x = x]) (simp_all add: rw_at_def)
  qed
  have cls: "holds_readers R_wait" "counted R_wait" "\<not> shares R_wait" "\<not> owns R_wait" "holds_readers R_done" "counted R_done" "shares R_done"
    "\<not> owns R_done" "\<not> counted R_count" "holds_readers R_count" by (simp_all add: rw_classes)
  have panic: "rw_inv n (s\<lparr>rw_panic := True\<rparr>)" using inv by (simp add: rw_inv_def)
  show ?thesis
  proof (cases "rw_pcs s t")
    case R_count
    show ?thesis
    proof (cases "rw_counter s = 0")
      case True
      then have "\<not> shares (rw_pcs s u)" for u using pos sc by fastforce
      moreover have "s' = rw_at t R_wait (s\<lparr>rw_counter := 1\<rparr>)" using st R_count True by (simp add: rw_next_def)
      moreover have "rw_readers s" "\<And>u. u \<noteq> t \<Longrightarrow> \<not> holds_readers (rw_pcs s u)" using I(2) [of t] one R_count cls by simp_all
      moreover have "\<And>u. owns (rw_pcs s u) \<Longrightarrow> rw_global s" using I(5) by blast
      ultimately show ?thesis
        using R_count True by (intro rw_inv_move [OF inv t, where x = R_wait]) (auto simp: cls rw_at_def)
    next
      case False
      have "\<exists>u. counted (rw_pcs s u)"
      proof (rule ccontr)
        assume "\<nexists>u. counted (rw_pcs s u)"
        then show False using I(4) False by simp
      qed
      then obtain u where u: "counted (rw_pcs s u)" by blast
      then have ut: "u \<noteq> t" using R_count cls by auto
      then have "rw_pcs s u \<noteq> R_wait" using onew [OF _ ut] R_count cls by simp
      then have "shares (rw_pcs s u)" using u by (auto simp: counted_def shares_def)
      then have "rw_global s" "\<not> owns (rw_pcs s v)" for v using I(5,7) by blast+
      moreover have "s' = rw_at t R_done (s\<lparr>rw_counter := rw_counter s + 1\<rparr>)" using st R_count False by (simp add: rw_next_def)
      moreover have "rw_readers s" "\<And>u. u \<noteq> t \<Longrightarrow> \<not> holds_readers (rw_pcs s u)" "\<And>u. u \<noteq> t \<Longrightarrow> rw_pcs s u \<noteq> R_wait"
        using I(2) [of t] one onew R_count cls by simp_all
      ultimately show ?thesis
        using R_count by (intro rw_inv_move [OF inv t, where x = R_done]) (auto simp: cls rw_at_def)
    qed
  next
    case RW_out
    then show ?thesis using st by (auto simp: rw_next_def rw_classes split: if_splits intro!: take own)
  next
    case R_uncount
    then have "s' = rw_at t (if rw_counter s - 1 = 0 then R_free else R_end) (s\<lparr>rw_counter := rw_counter s - 1\<rparr>)" using st by (simp add: rw_next_def)
    then show ?thesis using leave [of "if rw_counter s - 1 = 0 then R_free else R_end"] R_uncount by (simp add: rw_classes)
  next
    case U_count
    then have "s' = rw_at t (U_end (rw_counter s - 1 = 0)) (s\<lparr>rw_counter := rw_counter s - 1\<rparr>)" using st by (simp add: rw_next_def)
    then show ?thesis using leave [of "U_end (rw_counter s - 1 = 0)"] U_count by (simp add: rw_classes)
  next
    case (U_wait l)
    then show ?thesis using st by (cases l) (auto simp: rw_next_def rw_classes split: if_splits intro!: stay own)
  qed (use st in \<open>auto simp: rw_next_def rw_classes split: if_splits intro!: stay own take drop leave free panic\<close>)
qed

lemma rw_reach_inv: "rw_reach n s \<Longrightarrow> rw_inv n s"
  by (induction rule: rw_reach.induct) (auto intro: rw_init_inv rw_step_inv)

text \<open>
  Property C27. Readers exclude writers: in every interleaving of any number of threads that take the lock for reading or writing, release it
  or upgrade it, a thread that has the lock for writing is the only thread that has it, and \<open>read_unlock\<close> and
  \<open>upgrade\<close> of a reader never fail their assertion.
\<close>

theorem rwlock_exclusion:
  assumes "rw_reach n s"
  shows "(rw_pcs s t = Writing \<longrightarrow> (\<forall>u. u \<noteq> t \<longrightarrow> rw_pcs s u \<noteq> Writing \<and> rw_pcs s u \<noteq> Reading)) \<and> (rw_pcs s t = Reading \<longrightarrow> is_read_locked s)"
proof -
  note inv = rw_reach_inv [OF assms] and I = rw_invD [OF rw_reach_inv [OF assms]]
  have "rw_pcs s u \<noteq> Writing \<and> rw_pcs s u \<noteq> Reading" if "rw_pcs s t = Writing" "u \<noteq> t" for u
    using I(6) [of t u] I(7) [of t u] that by (auto simp: owns_def shares_def)
  moreover have "is_read_locked s" if "rw_pcs s t = Reading"
    using I(5) [of t] rw_inv_counter_pos [OF inv, of t] that by (simp add: is_read_locked_def shares_def counted_def)
  ultimately show ?thesis by blast
qed

text \<open>
  Property C29. Releasing the lock for writing fails its assertion whenever a reader waits: the reader has
  incremented the counter already, and \<open>write_unlock\<close> takes a positive counter for readers that hold the lock. One
  writer and one reader are enough.
\<close>

theorem write_unlock_with_waiting_reader_panics:
  assumes "rw_reach n s" "\<not> rw_panic s" "t < n" "rw_pcs s t = Writing" "rw_pcs s u = R_wait"
  shows "rw_next w t s = Some (s\<lparr>rw_panic := True\<rparr>) \<and> rw_reach n (s\<lparr>rw_panic := True\<rparr>) \<and> rw_next v u s = None"
proof -
  have c: "0 < rw_counter s" using rw_inv_counter_pos [OF rw_reach_inv [OF assms(1)], of u] assms(5) by (simp add: counted_def)
  then have n: "rw_next w t s = Some (s\<lparr>rw_panic := True\<rparr>)" by (simp add: rw_next_def assms(4) is_write_locked_def)
  have "rw_global s" using rw_invD(5) [OF rw_reach_inv [OF assms(1)], of t] assms(4) by (simp add: owns_def)
  then have "rw_next v u s = None" by (simp add: rw_next_def assms(5))
  then show ?thesis using n rw_reach.step [OF assms(1-3) n] by blast
qed

definition rw_sample :: rw_state where
  "rw_sample = \<lparr>rw_counter = 1, rw_readers = True, rw_global = True, rw_panic = False, rw_pcs = (\<lambda>_. RW_out)(0 := Writing, 1 := R_wait)\<rparr>"

lemma rw_sample_reach: "rw_reach 2 rw_sample"
proof -
  have a: "rw_reach 2 (rw_at 0 Writing (rw_init\<lparr>rw_global := True\<rparr>))"
    by (rule rw_reach.step [OF rw_reach.start, where t = 0 and w = 1]) (simp_all add: rw_next_def rw_init_def)
  have b: "rw_reach 2 (rw_at 1 R_count ((rw_at 0 Writing (rw_init\<lparr>rw_global := True\<rparr>))\<lparr>rw_readers := True\<rparr>))"
    by (rule rw_reach.step [OF a, where t = 1 and w = 0]) (simp_all add: rw_next_def rw_init_def rw_at_def)
  show ?thesis
    by (rule rw_reach.step [OF b, where t = 1 and w = 0]) (simp_all add: rw_next_def rw_init_def rw_at_def rw_sample_def fun_upd_twist)
qed

theorem rwlock_exclusion_witness: "rw_pcs rw_sample 0 = Writing \<and> {u. rw_pcs rw_sample u = Writing} = {0} \<and> {u. rw_pcs rw_sample u = Reading} = {}"
proof -
  have w: "rw_pcs rw_sample 0 = Writing" by (simp add: rw_sample_def)
  have "rw_pcs rw_sample u \<noteq> Writing \<and> rw_pcs rw_sample u \<noteq> Reading" if "u \<noteq> 0" for u
    using rwlock_exclusion [OF rw_sample_reach, of 0] w that by blast
  then have "rw_pcs rw_sample u = Writing \<longleftrightarrow> u = 0" "rw_pcs rw_sample u \<noteq> Reading" for u using w by (cases "u = 0"; simp)+
  then show ?thesis by simp
qed

theorem write_unlock_with_waiting_reader_panics_witness: "\<exists>s. rw_reach 2 s \<and> rw_panic s"
  using write_unlock_with_waiting_reader_panics [OF rw_sample_reach, of 0 1 0 0] by (auto simp: rw_sample_def)

section \<open>Data behind a lock\<close>

text \<open>
  What the kernel relies on when it guards data by a lock: the steps of the lock, and that no two
  threads are inside at once. Threads inside load the data, compute, and store; nothing is lost.
\<close>

locale exclusive_lock =
  fixes lock_step :: "'s \<Rightarrow> 's \<Rightarrow> bool" and lock_init :: 's and inside_of :: "'s \<Rightarrow> nat \<Rightarrow> bool"
  assumes exclusive: "lock_step\<^sup>*\<^sup>* lock_init s \<Longrightarrow> inside_of s t \<Longrightarrow> inside_of s u \<Longrightarrow> t = u"
begin

text \<open>The data, the copies that threads inside have loaded, and the number of completed updates.\<close>

inductive guarded :: "('d \<Rightarrow> 'd) \<Rightarrow> 'd \<Rightarrow> 's \<Rightarrow> 'd \<Rightarrow> (nat \<rightharpoonup> 'd) \<Rightarrow> nat \<Rightarrow> bool" for f d0 where
  begin_empty: "guarded f d0 lock_init d0 Map.empty 0"
| lock_moves: "guarded f d0 s d r k \<Longrightarrow> lock_step s s' \<Longrightarrow> guarded f d0 s' d (\<lambda>t. if inside_of s' t then r t else None) k"
| load: "guarded f d0 s d r k \<Longrightarrow> inside_of s t \<Longrightarrow> guarded f d0 s d (r(t \<mapsto> d)) k"
| store: "guarded f d0 s d r k \<Longrightarrow> inside_of s t \<Longrightarrow> r t = Some x \<Longrightarrow> guarded f d0 s (f x) (r(t := None)) (Suc k)"

lemma guarded_inv:
  "guarded f d0 s d r k \<Longrightarrow> lock_step\<^sup>*\<^sup>* lock_init s \<and> d = (f ^^ k) d0 \<and> (\<forall>t x. r t = Some x \<longrightarrow> inside_of s t \<and> x = d)"
proof (induction rule: guarded.induct)
  case (store s d r k t x)
  then have "r u = None" if "u \<noteq> t" for u using exclusive [of s u t] that by (cases "r u") auto
  then show ?case using store by auto
next
  case (lock_moves s d r k s')
  then have "lock_step\<^sup>*\<^sup>* lock_init s'" by (meson rtranclp.rtrancl_into_rtrancl)
  then show ?case using lock_moves by auto
qed auto

text \<open>After any number of concurrent read-modify-write updates the data is what that many updates in a row give.\<close>

lemma no_lost_update: "guarded f d0 s d r k \<Longrightarrow> d = (f ^^ k) d0"
  by (drule guarded_inv) (rule conjunct1 [OF conjunct2])

end

lemma spin_run_rtranclp: "(\<lambda>s s'. \<exists>e. spin_step n s e s')\<^sup>*\<^sup>* s0 s \<Longrightarrow> \<exists>es. spin_run n s0 es s"
  by (induction rule: converse_rtranclp_induct) (blast intro: spin_run.intros)+

interpretation spin_guard: exclusive_lock "\<lambda>s s'. \<exists>e. spin_step n s e s'" spin_init "\<lambda>s t. n < 2 ^ 64 \<and> inside (pcs s t)" for n
  by unfold_locales (metis spin_inside_unique spin_run_rtranclp)

lemma rw_reach_rtranclp:
  "(\<lambda>s s'. \<exists>t w. \<not> rw_panic s \<and> t < n \<and> rw_next w t s = Some s')\<^sup>*\<^sup>* rw_init s \<Longrightarrow> rw_reach n s"
  by (induction rule: rtranclp_induct) (blast intro: rw_reach.intros)+

interpretation write_guard: exclusive_lock "\<lambda>s s'. \<exists>t w. \<not> rw_panic s \<and> t < n \<and> rw_next w t s = Some s'" rw_init "\<lambda>s t. rw_pcs s t = Writing" for n
proof unfold_locales
  fix s t u
  assume r: "(\<lambda>s s'. \<exists>t w. \<not> rw_panic s \<and> t < n \<and> rw_next w t s = Some s')\<^sup>*\<^sup>* rw_init s" and w: "rw_pcs s t = Writing" "rw_pcs s u = Writing"
  from rw_invD(6) [OF rw_reach_inv [OF rw_reach_rtranclp [OF r]], of t u] w show "t = u" by (simp add: owns_def)
qed

end
