(* ===== verification/Ordered_Queue.thy ===== *)
theory Ordered_Queue
  imports Prelude
begin

text \<open>
  Queues kept in an order: where a new element goes (\<open>insert_by\<close>), what removal leaves (\<open>queue_remove\<close>), and the contract
  \<open>ordered_queue\<close> between a comparison and the code that keeps a queue sorted by it.  It is what the red-black trees implement and
  what the scheduler relies on; the scheduler interprets it on its two comparisons.
\<close>

fun insert_by :: "(nat \<Rightarrow> nat \<Rightarrow> bool) \<Rightarrow> nat \<Rightarrow> nat list \<Rightarrow> nat list" where
  "insert_by lt t [] = [t]"
| "insert_by lt t (x # xs) = (if lt t x then t # x # xs else x # insert_by lt t xs)"

definition queue_remove :: "nat \<Rightarrow> nat list \<Rightarrow> nat list" where
  "queue_remove t q = filter (\<lambda>x. x \<noteq> t) q"

lemma insert_by_set [simp]: "set (insert_by lt t q) = insert t (set q)"
  by (induction q) auto

lemma insert_by_distinct [simp]: "distinct (insert_by lt t q) \<longleftrightarrow> t \<notin> set q \<and> distinct q"
  by (induction q) auto

lemma insert_by_length [simp]: "length (insert_by lt t q) = Suc (length q)"
  by (induction q) auto

lemma insert_by_split: "(\<And>x. x \<in> set as \<Longrightarrow> \<not> lt z x) \<Longrightarrow> (\<And>x. x \<in> set bs \<Longrightarrow> lt z x) \<Longrightarrow> insert_by lt z (as @ bs) = as @ z # bs"
proof (induction as)
  case Nil
  then show ?case by (cases bs) auto
qed simp

lemma queue_remove_split: "z \<notin> set as \<Longrightarrow> z \<notin> set bs \<Longrightarrow> queue_remove z (as @ z # bs) = as @ bs"
proof -
  assume "z \<notin> set as" "z \<notin> set bs"
  then have "filter (\<lambda>x. x \<noteq> z) as = as" "filter (\<lambda>x. x \<noteq> z) bs = bs" by (auto intro: filter_True)
  then show ?thesis by (simp add: queue_remove_def)
qed

locale ordered_queue =
  fixes lt le :: "nat \<Rightarrow> nat \<Rightarrow> bool"
  assumes not_lt: "\<not> lt a b \<longleftrightarrow> le b a"
    and lt_le: "lt a b \<Longrightarrow> le a b"
    and le_trans: "le a b \<Longrightarrow> le b c \<Longrightarrow> le a c"
begin

lemma insert_sorted: "sorted_wrt le q \<Longrightarrow> sorted_wrt le (insert_by lt t q)"
  by (induction q) (auto simp: not_lt dest: lt_le intro: le_trans)

lemma lt_le_trans: "lt a b \<Longrightarrow> le b c \<Longrightarrow> lt a c"
  using not_lt le_trans by blast

lemma le_not_lt: "le a b \<Longrightarrow> \<not> lt z b \<Longrightarrow> \<not> lt z a"
  using not_lt le_trans by blast

end

end
