(* ===== verification/Sched.thy ===== *)
theory Sched
  imports Vmm Ordered_Queue
begin

text \<open>
  The scheduler (\<^verbatim>\<open>source/system/scheduler.cpp\<close>, \<^verbatim>\<open>interfaces/system/scheduler.cppm\<close>, the x86_64 part in
  \<^verbatim>\<open>source/arch/x86_64/system/scheduler.cpp\<close>) and the process system calls on its data (\<^verbatim>\<open>source/system/syscall/proc.cpp\<close>).
  Threads and processes are numbered; the record \<open>sched\<close> has the tables of threads, processes, groups and sessions and the data
  of every processor. The clock is an argument of the operations that read it. Run queue and sleep queue are red-black
  trees in the code and lists in their order here. The user part of a thread's context (segment bases and
  floating-point state) is one opaque number.
\<close>

section \<open>Data\<close>

datatype status = Not_ready | Ready | Running | Sleeping | Killed

record registers =
  rip :: u64
  rsp :: u64
  rflags :: u64
  cs :: u64
  ss :: u64
  gprs :: "u64 list"

record sthread =
  tid :: int
  tparent :: nat
  status :: status
  is_user :: bool
  priority :: int
  vruntime :: u64
  schedule_time :: u64
  sleep_locked :: bool
  sleep_ints :: bool
  wake_reason :: u64
  sleep_for :: "u64 option"
  sleep_until :: "u64 option"
  kstack_top :: u64
  ustack_top :: u64
  ustack_obj :: "nat option"
  regs :: registers
  user_ctx :: nat
  running_on :: "nat option"

text \<open>
  The address space of a process is a whole state of the virtual memory manager, its own physical memory included: the
  scheduler's state says nothing about the memory of one process when another one runs.
\<close>

record sproc =
  pid :: int
  pgid :: int
  sid :: int
  has_execved :: bool
  pparent :: "nat option"
  pchildren :: "(int \<times> nat) list"
  pthreads :: "(int \<times> nat) list"
  next_tid :: int
  next_stack_top :: u64
  vmspace :: vms

record percpu =
  queue :: "nat list"
  running_thread :: "nat option"
  sleep_queue :: "nat list"
  idle_proc :: nat
  idle_thread :: nat
  reaper_thread :: nat
  dead_threads :: "nat list"
  preemption :: u64
  in_scheduler :: bool

record group =
  gsid :: int
  gmembers :: "(int \<times> nat) list"

record sched =
  threads :: "nat \<Rightarrow> sthread"
  next_thread :: nat
  procs :: "nat \<Rightarrow> sproc"
  next_proc :: nat
  next_pid :: int
  processes :: "(int \<times> nat) list"
  groups :: "(int \<times> group) list"
  sessions :: "(int \<times> int list) list"
  cpus :: "nat \<Rightarrow> percpu"
  cpu_count :: nat
  initialised :: bool

text \<open>What a processor has loaded: the interrupt frame, user context, current thread, kernel stack and page map.\<close>

record cpu_ctx =
  cregs :: registers
  cuser :: nat
  cthread :: "nat option"
  crsp0 :: u64
  cpmap :: "nat option"

definition set_thread :: "nat \<Rightarrow> sthread \<Rightarrow> sched \<Rightarrow> sched" where
  "set_thread t x st = st\<lparr>threads := (threads st)(t := x)\<rparr>"

definition set_cpu :: "nat \<Rightarrow> percpu \<Rightarrow> sched \<Rightarrow> sched" where
  "set_cpu k x st = st\<lparr>cpus := (cpus st)(k := x)\<rparr>"

definition set_proc :: "nat \<Rightarrow> sproc \<Rightarrow> sched \<Rightarrow> sched" where
  "set_proc p x st = st\<lparr>procs := (procs st)(p := x)\<rparr>"

definition put_assoc :: "'k \<Rightarrow> 'v \<Rightarrow> ('k \<times> 'v) list \<Rightarrow> ('k \<times> 'v) list" where
  "put_assoc k v xs = (k, v) # filter (\<lambda>x. fst x \<noteq> k) xs"

definition erase_assoc :: "'k \<Rightarrow> ('k \<times> 'v) list \<Rightarrow> ('k \<times> 'v) list" where
  "erase_assoc k xs = filter (\<lambda>x. fst x \<noteq> k) xs"

section \<open>Weights\<close>

definition weight_table :: "u64 list" where
  "weight_table =
     [88761, 71755, 56483, 46273, 36291,
      29154, 23254, 18705, 14949, 11916,
      9548, 7620, 6100, 4904, 3906,
      3121, 2501, 1991, 1586, 1277,
      1024, 820, 655, 526, 423,
      335, 272, 215, 172, 137,
      110, 87, 70, 56, 45,
      36, 29, 23, 18, 15]"

definition nice_ok :: "int \<Rightarrow> bool" where
  "nice_ok p \<longleftrightarrow> - 20 \<le> p \<and> p \<le> 19"

definition prio_to_weight :: "int \<Rightarrow> u64" where
  "prio_to_weight prio = weight_table ! nat (prio + 20)"

section \<open>Queues\<close>

text \<open>
  The red-black trees are lists in their order (\<open>Rbtree_Queues\<close> shows that the trees implement them);
  a new element goes behind the elements it is not less than.
\<close>

definition vr_less :: "(nat \<Rightarrow> sthread) \<Rightarrow> nat \<Rightarrow> nat \<Rightarrow> bool" where
  "vr_less th a b \<longleftrightarrow> vruntime (th a) < vruntime (th b)"

text \<open>\<open>operator<\<close> of \<open>std::optional\<close>.\<close>

fun opt_less :: "u64 option \<Rightarrow> u64 option \<Rightarrow> bool" where
  "opt_less None None = False"
| "opt_less None (Some _) = True"
| "opt_less (Some _) None = False"
| "opt_less (Some a) (Some b) = (a < b)"

definition until_less :: "(nat \<Rightarrow> sthread) \<Rightarrow> nat \<Rightarrow> nat \<Rightarrow> bool" where
  "until_less th a b \<longleftrightarrow> opt_less (sleep_until (th a)) (sleep_until (th b))"

definition queue_insert :: "nat \<Rightarrow> nat \<Rightarrow> sched \<Rightarrow> sched" where
  "queue_insert k t st = set_cpu k ((cpus st k)\<lparr>queue := insert_by (vr_less (threads st)) t (queue (cpus st k))\<rparr>) st"

definition sleep_insert :: "nat \<Rightarrow> nat \<Rightarrow> sched \<Rightarrow> sched" where
  "sleep_insert k t st = set_cpu k ((cpus st k)\<lparr>sleep_queue := insert_by (until_less (threads st)) t (sleep_queue (cpus st k))\<rparr>) st"

section \<open>Preemption\<close>

definition disable :: "nat \<Rightarrow> sched \<Rightarrow> sched" where
  "disable k st =
     (if \<not> initialised st then st
      else if in_scheduler (cpus st k) then st
      else set_cpu k ((cpus st k)\<lparr>preemption := preemption (cpus st k) + 1\<rparr>) st)"

text \<open>The compare-and-exchange loop: other processors do not touch the counter, so it succeeds.\<close>

definition enable :: "nat \<Rightarrow> sched \<Rightarrow> sched" where
  "enable k st =
     (if \<not> initialised st then st
      else if in_scheduler (cpus st k) then st
      else if preemption (cpus st k) > 0 then set_cpu k ((cpus st k)\<lparr>preemption := preemption (cpus st k) - 1\<rparr>) st
      else st)"

section \<open>Sleeping and waking\<close>

definition prepare_sleep :: "bool \<Rightarrow> nat \<Rightarrow> u64 \<Rightarrow> sched \<Rightarrow> sched" where
  "prepare_sleep ints t ms st =
     set_thread t ((threads st t)\<lparr>sleep_ints := ints, sleep_locked := True, status := Sleeping,
                                  sleep_for := (if ms \<noteq> 0 then Some (ms * 1000000) else None)\<rparr>) st"

definition wake_up :: "nat \<Rightarrow> u64 \<Rightarrow> sched \<Rightarrow> sched \<times> bool" where
  "wake_up t reason st =
     (if status (threads st t) \<noteq> Sleeping then (st, False)
      else (set_thread t ((threads st t)\<lparr>status := Ready, wake_reason := reason\<rparr>) st, True))"

text \<open>\<open>yield\<close> up to the interrupt that calls \<open>schedule\<close>, at time \<open>now\<close>.\<close>

definition yield_begin :: "nat \<Rightarrow> nat \<Rightarrow> u64 \<Rightarrow> sched \<Rightarrow> sched" where
  "yield_begin k t now st =
     (if status (threads st t) = Sleeping
      then let x = threads st t;
               x = (case sleep_for x of None \<Rightarrow> x | Some d \<Rightarrow> x\<lparr>sleep_until := Some (now + d), sleep_for := None\<rparr>)
           in sleep_insert k t (set_thread t x st)
      else st)"

definition yield_result :: "bool \<Rightarrow> nat \<Rightarrow> sched \<Rightarrow> u64" where
  "yield_result eeping t st = (if eeping then wake_reason (threads st t) else 0)"

section \<open>Run queues\<close>

fun allocate_cpu_loop :: "(nat \<Rightarrow> percpu) \<Rightarrow> nat list \<Rightarrow> nat \<Rightarrow> nat option \<Rightarrow> nat" where
  "allocate_cpu_loop c [] idx mn = idx"
| "allocate_cpu_loop c (i # is) idx mn =
     (let size = length (queue (c i))
      in if (case mn of None \<Rightarrow> True | Some m \<Rightarrow> size < m) then allocate_cpu_loop c is i (Some size)
         else allocate_cpu_loop c is idx mn)"

definition allocate_cpu :: "sched \<Rightarrow> nat" where
  "allocate_cpu st = allocate_cpu_loop (cpus st) [0..<cpu_count st] 0 None"

definition enqueue :: "nat \<Rightarrow> nat \<Rightarrow> sched \<Rightarrow> sched run" where
  "enqueue t k st =
     (case status (threads st t) of
        Killed \<Rightarrow> failR (Panic_msg ''can't enqueue a thread that is killed'')
      | Not_ready \<Rightarrow> failR (Panic_msg ''can't enqueue a thread that is not_ready'')
      | Sleeping \<Rightarrow> failR (Panic_msg ''can't enqueue a thread that is sleeping'')
      | Running \<Rightarrow> retR (queue_insert k t (set_thread t ((threads st t)\<lparr>status := Ready\<rparr>) st))
      | Ready \<Rightarrow> retR (queue_insert k t st))"

section \<open>The scheduler\<close>

text \<open>The loop over the run queue: the thread to run next, the rest of the queue, the dead threads found.\<close>

fun scan_queue :: "(nat \<Rightarrow> sthread) \<Rightarrow> nat list \<Rightarrow> (nat option \<times> nat list \<times> nat list) run" where
  "scan_queue th [] = retR (None, [], [])"
| "scan_queue th (t # ts) =
     (case status (th t) of
        Ready \<Rightarrow> retR (Some t, ts, [])
      | Sleeping \<Rightarrow> failR (Panic_msg ''found a sleeping thread in scheduler queue'')
      | Running \<Rightarrow> failR (Panic_msg ''found a running thread in scheduler queue'')
      | Killed \<Rightarrow> bindR (scan_queue th ts) (\<lambda>(n, q, d). retR (n, q, t # d))
      | Not_ready \<Rightarrow> bindR (scan_queue th ts) (\<lambda>(n, q, d). retR (n, t # q, d)))"

definition sched_save :: "nat \<Rightarrow> cpu_ctx \<Rightarrow> sched \<Rightarrow> sched" where
  "sched_save t c st =
     (let x = threads st t; x = x\<lparr>regs := cregs c\<rparr>
      in set_thread t (if is_user x then x\<lparr>user_ctx := cuser c\<rparr> else x) st)"

definition sched_load :: "bool \<Rightarrow> nat \<Rightarrow> sched \<Rightarrow> cpu_ctx \<Rightarrow> cpu_ctx" where
  "sched_load same_pid t st c =
     (let x = threads st t;
          c = c\<lparr>cregs := regs x, cthread := Some t\<rparr>;
          c = (if is_user x then c\<lparr>crsp0 := kstack_top x, cuser := user_ctx x\<rparr> else c)
      in if \<not> same_pid then c\<lparr>cpmap := Some (tparent x)\<rparr> else c)"

definition charge :: "u64 \<Rightarrow> sthread \<Rightarrow> sthread" where
  "charge time x =
     (let weight0 = prio_to_weight 0;
          exec_time = time - schedule_time x;
          weight = prio_to_weight (priority x);
          vtime = (exec_time * weight0) div weight
      in x\<lparr>vruntime := vruntime x + vtime\<rparr>)"

text \<open>
  The first half of what \<open>schedule\<close> does with a current thread that is neither killed nor idle: it stays on if nothing else is
  ready, the sleep lock that \<open>prepare_sleep\<close> took is released, and its virtual time is charged.
\<close>

definition release_current :: "nat \<Rightarrow> u64 \<Rightarrow> nat option \<Rightarrow> sched \<Rightarrow> sched \<times> nat option" where
  "release_current cur time next st =
     (let stays = (next = None \<and> status (threads st cur) = Running);
          next = (if stays then Some cur else next);
          x = threads st cur;
          x = (if \<not> stays \<and> status x = Sleeping then x\<lparr>sleep_locked := False\<rparr> else x)
      in (set_thread cur (charge time x) st, next))"

text \<open>The second half, after the sleep lock is released: the status is read again to decide whether the thread is queued.\<close>

definition requeue_current :: "nat \<Rightarrow> nat \<Rightarrow> cpu_ctx \<Rightarrow> nat option \<Rightarrow> sched \<Rightarrow> sched run" where
  "requeue_current cur k c next st =
     (if next \<noteq> Some cur
      then let st = sched_save cur c st
           in if status (threads st cur) \<noteq> Sleeping then enqueue cur k st else retR st
      else retR st)"

text \<open>What happens to the current thread: the thread to run next, whether a dead one was found, the previous process.\<close>

definition schedule_out :: "sched \<Rightarrow> nat \<Rightarrow> cpu_ctx \<Rightarrow> u64 \<Rightarrow> nat option \<Rightarrow> (sched \<times> nat option \<times> bool \<times> int option) run" where
  "schedule_out st k c time next =
     (case running_thread (cpus st k) of
        None \<Rightarrow> retR (st, next, False, None)
      | Some cur \<Rightarrow>
          if status (threads st cur) \<noteq> Killed
          then let prev = Some (pid (procs st (tparent (threads st cur))))
               in if cur \<noteq> idle_thread (cpus st k)
                  then let (st, next) = release_current cur time next st
                       in bindR (requeue_current cur k c next st) (\<lambda>st. retR (st, next, False, prev))
                  else retR (sched_save cur c st, next, False, prev)
          else retR (set_cpu k ((cpus st k)\<lparr>dead_threads := dead_threads (cpus st k) @ [cur]\<rparr>) st, next, True, None))"

lemmas schedule_out_unfold = schedule_out_def release_current_def requeue_current_def

definition wake_reaper :: "nat \<Rightarrow> sched \<Rightarrow> sched" where
  "wake_reaper k st =
     (let r = reaper_thread (cpus st k); x = threads st r
      in if status x = Sleeping \<and> sleep_until x = None then set_thread r (x\<lparr>status := Ready\<rparr>) st else st)"

definition switch_to :: "nat \<Rightarrow> nat \<Rightarrow> int option \<Rightarrow> sched \<Rightarrow> cpu_ctx \<Rightarrow> sched \<times> cpu_ctx" where
  "switch_to k next prev st c =
     (let st = set_thread next ((threads st next)\<lparr>running_on := Some k, status := Running\<rparr>) st;
          st = set_cpu k ((cpus st k)\<lparr>running_thread := Some next\<rparr>) st;
          same_pid = (prev = Some (pid (procs st (tparent (threads st next)))))
      in (st, sched_load same_pid next st c))"

text \<open>
  \<open>schedule\<close> on processor \<open>k\<close>, whose clock shows \<open>time\<close> at the beginning and \<open>time'\<close> at the end.
  The next interrupt is armed in any case. \<open>in_scheduler\<close>, which makes \<open>disable\<close> and \<open>enable\<close> do nothing while the locks of \<open>schedule\<close>
  are taken, is set inside only and false again at the end.
\<close>

definition schedule :: "sched \<Rightarrow> nat \<Rightarrow> cpu_ctx \<Rightarrow> u64 \<Rightarrow> u64 \<Rightarrow> (sched \<times> cpu_ctx) run" where
  "schedule st k c time time' =
     (if preemption (cpus st k) > 0 then retR (st, c)
      else bindR (scan_queue (threads st) (queue (cpus st k))) (\<lambda>(next, q, dead).
        let st = set_cpu k ((cpus st k)\<lparr>queue := q, dead_threads := dead_threads (cpus st k) @ dead\<rparr>) st;
            current = running_thread (cpus st k);
            is_current_idle = (current = Some (idle_thread (cpus st k)))
        in bindR (schedule_out st k c time next) (\<lambda>(st, next, found_dead, prev).
          let st = (if dead \<noteq> [] \<or> found_dead then wake_reaper k st else st);
              next = (case next of None \<Rightarrow> idle_thread (cpus st k) | Some t \<Rightarrow> t);
              (st, c) = (if Some next \<noteq> current then switch_to k next prev st c else (st, c));
              st = (if \<not> is_current_idle then set_thread next ((threads st next)\<lparr>schedule_time := time'\<rparr>) st else st)
          in retR (st, c))))"

section \<open>The reaper and the sleeper\<close>

text \<open>
  One pass of \<open>sleeper\<close> over the sleep queue of processor \<open>k\<close>. \<open>bg\<close> is the thread that was first
  in the sleep queue when the pass began.
\<close>

fun sleeper_loop :: "nat \<Rightarrow> u64 \<Rightarrow> nat \<Rightarrow> nat list \<Rightarrow> sched \<Rightarrow> sched run" where
  "sleeper_loop k time bg [] st = retR st"
| "sleeper_loop k time bg (t # ts) st =
     (let x = threads st t;
          removed = set_cpu k ((cpus st k)\<lparr>sleep_queue := queue_remove t (sleep_queue (cpus st k))\<rparr>) st
      in case sleep_until x of
           None \<Rightarrow>
             (case status x of
                Ready \<Rightarrow> sleeper_loop k time bg ts (queue_insert k t removed)
              | Killed \<Rightarrow> sleeper_loop k time bg ts (set_cpu k ((cpus removed k)\<lparr>dead_threads := dead_threads (cpus removed k) @ [t]\<rparr>) removed)
              | Not_ready \<Rightarrow> sleeper_loop k time bg ts st
              | Sleeping \<Rightarrow> sleeper_loop k time bg ts st
              | Running \<Rightarrow> failR (Panic_msg ''found a running thread in sleep queue''))
         | Some u \<Rightarrow>
             if time < u then retR st
             else let st = set_thread t (x\<lparr>sleep_until := None, status := Ready, wake_reason := 0\<rparr>) removed;
                      st = set_thread t ((threads st t)\<lparr>vruntime := vruntime (threads st bg)\<rparr>) st
                  in sleeper_loop k time bg ts (queue_insert k t st))"

definition sleeper_pass :: "nat \<Rightarrow> u64 \<Rightarrow> sched \<Rightarrow> sched run" where
  "sleeper_pass k time st =
     (case sleep_queue (cpus st k) of
        [] \<Rightarrow> retR st
      | b # _ \<Rightarrow> sleeper_loop k time b (sleep_queue (cpus st k)) st)"

text \<open>
  One batch of \<open>reaper\<close>: the dead threads are taken off the list and deleted one after the other. The
  destructor of a user thread unmaps its stack from the address space of its process and asserts that one reference
  to the stack is gone. The thread has only a weak reference to it.
\<close>

definition thread_destroy :: "nat \<Rightarrow> sched \<Rightarrow> sched run" where
  "thread_destroy t st =
     (let x = threads st t; p = tparent x; v = vmspace (procs st p)
      in if \<not> is_user x then retR st
         else case ustack_obj x of None \<Rightarrow> failR Bug_on
              | Some ob \<Rightarrow>
                  let obj_ref = int (use_count v ob)
                  in bindR (vmspace_unmap_obj v (if obj_ref = 0 then None else Some ob)) (\<lambda>(v, r).
                       if r \<noteq> None then failR (Panic_msg ''thread: could not unmap the stack'')
                       else bindR (release v [ob]) (\<lambda>v.
                         if int (use_count v ob) \<noteq> obj_ref - 1 then failR (Panic_msg ''thread: the stack is still mapped'')
                         else retR (set_proc p ((procs st p)\<lparr>vmspace := v\<rparr>) st))))"

fun reap :: "nat list \<Rightarrow> sched \<Rightarrow> sched run" where
  "reap [] st = retR st"
| "reap (t # ts) st =
     (let x = threads st t; p = tparent x; pr = procs st p
      in if map_of (pthreads pr) (tid x) = None then failR Bug_on
         else let st = set_proc p (pr\<lparr>pthreads := erase_assoc (tid x) (pthreads pr)\<rparr>) st
              in bindR (thread_destroy t st) (\<lambda>st.
                   if pthreads (procs st p) = [] then failR (Panic_msg ''TODO: process exit'') else reap ts st))"

definition reaper_batch :: "nat \<Rightarrow> sched \<Rightarrow> sched run" where
  "reaper_batch k st = reap (dead_threads (cpus st k)) (set_cpu k ((cpus st k)\<lparr>dead_threads := []\<rparr>) st)"

section \<open>Threads\<close>

abbreviation (input) kstack_size :: u64 where "kstack_size \<equiv> 0x4000"
abbreviation (input) ustack_size :: u64 where "ustack_size \<equiv> 0x200000"

text \<open>\<open>arch::finalise\<close>: the first register contents; \<open>user\<close> is the user context it prepares.\<close>

definition finalise :: "nat \<Rightarrow> u64 \<Rightarrow> sthread \<Rightarrow> sthread" where
  "finalise user ip x =
     (if is_user x
      then x\<lparr>regs := \<lparr>rip = ip, rsp = ustack_top x, rflags = 0x202, cs = 0x28 OR 3, ss = 0x20 OR 3, gprs = replicate 17 0\<rparr>, user_ctx := user\<rparr>
      else x\<lparr>regs := \<lparr>rip = ip, rsp = kstack_top x, rflags = 0x202, cs = 0x08, ss = 0x10, gprs = replicate 17 0\<rparr>\<rparr>)"

text \<open>
  \<open>thread::create\<close>. The address \<open>kstack\<close> is what the allocator returns for the kernel stack. The address space of
  the process is that of the virtual memory manager; a user thread maps a new object below the previous stack.
\<close>

definition thread_create :: "nat \<Rightarrow> u64 \<Rightarrow> bool \<Rightarrow> u64 \<Rightarrow> nat \<Rightarrow> sched \<Rightarrow> (sched \<times> nat) run" where
  "thread_create p ip user kstack ctx st =
     (let pr = procs st p; t = next_thread st;
          x = \<lparr>tid = next_tid pr, tparent = p, status = Not_ready, is_user = user, priority = 0, vruntime = 0, schedule_time = 0,
               sleep_locked = False, sleep_ints = False, wake_reason = 0, sleep_for = None, sleep_until = None,
               kstack_top = kstack + kstack_size, ustack_top = 0, ustack_obj = None,
               regs = \<lparr>rip = 0, rsp = 0, rflags = 0, cs = 0, ss = 0, gprs = replicate 17 0\<rparr>, user_ctx = 0, running_on = None\<rparr>;
          pr = pr\<lparr>next_tid := next_tid pr + 1\<rparr>
      in bindR (if user
                then let vaddr = next_stack_top pr - ustack_size;
                         (v, ob) = new_memobject (vmspace pr)
                     in bindR (vmspace_map v vaddr ustack_size (prot_read OR prot_write) (fl_private OR fl_untouchable) (Some ob) 0) (\<lambda>(v, r).
                          if r \<noteq> None then failR (Panic_msg ''thread: could not map the stack'')
                          else retR (pr\<lparr>next_stack_top := vaddr, vmspace := v\<rparr>, x\<lparr>ustack_obj := Some ob, ustack_top := vaddr + ustack_size\<rparr>))
                else retR (pr, x\<lparr>ustack_top := kstack_top x\<rparr>)) (\<lambda>(pr, x).
           let x = finalise ctx ip x;
               pr = pr\<lparr>pthreads := put_assoc (tid x) t (pthreads pr)\<rparr>
           in retR (set_proc p pr (set_thread t x (st\<lparr>next_thread := t + 1\<rparr>)), t)))"

definition update_ustack :: "nat \<Rightarrow> u64 \<Rightarrow> sched \<Rightarrow> sched run" where
  "update_ustack t addr st =
     (let x = threads st t
      in if \<not> is_user x then failR Bug_on else retR (set_thread t (x\<lparr>regs := (regs x)\<lparr>rsp := addr\<rparr>\<rparr>) st))"

definition spawn_on :: "nat \<Rightarrow> int \<Rightarrow> u64 \<Rightarrow> int \<Rightarrow> u64 \<Rightarrow> sched \<Rightarrow> (sched \<times> nat) run" where
  "spawn_on cpu pd ip prio kstack st =
     (case map_of (processes st) pd of
        None \<Rightarrow> failR (Panic_msg ''map::at'')
      | Some p \<Rightarrow>
          if \<not> nice_ok prio then failR (Panic_msg ''ranged: value outside of range'')
          else bindR (thread_create p ip False kstack 0 st) (\<lambda>(st, t).
            let st = set_thread t ((threads st t)\<lparr>priority := prio, status := Ready\<rparr>) st
            in bindR (enqueue t cpu st) (\<lambda>st. retR (st, t))))"

definition spawn :: "int \<Rightarrow> u64 \<Rightarrow> int \<Rightarrow> u64 \<Rightarrow> sched \<Rightarrow> (sched \<times> nat) run" where
  "spawn pd ip prio kstack st = spawn_on (allocate_cpu st) pd ip prio kstack st"

section \<open>The start of the scheduler\<close>

text \<open>
  \<open>start\<close>: every processor makes its idle thread, in a process that is not registered; the boot processor then
  spawns a reaper and a sleeper for every processor. \<open>v\<close> is the address space of the idle processes, \<open>kst\<close>
  the allocation of kernel stacks.
\<close>

definition start_idle :: "vms \<Rightarrow> u64 \<Rightarrow> (nat \<Rightarrow> u64) \<Rightarrow> nat \<Rightarrow> sched \<Rightarrow> sched run" where
  "start_idle v idle_ip kst k st =
     (let p = next_proc st;
          pr = \<lparr>pid = - 1, pgid = 0, sid = 0, has_execved = False, pparent = None, pchildren = [], pthreads = [], next_tid = 1,
                next_stack_top = 0x7FFFFFFFF000, vmspace = v\<rparr>;
          st = set_proc p pr (st\<lparr>next_proc := p + 1\<rparr>)
      in bindR (thread_create p idle_ip False (kst (next_thread st)) 0 st) (\<lambda>(st, t).
           let st = set_thread t ((threads st t)\<lparr>status := Ready\<rparr>) st
           in retR (set_cpu k ((cpus st k)\<lparr>idle_proc := p, idle_thread := t\<rparr>) st)))"

fun start_workers :: "u64 \<Rightarrow> u64 \<Rightarrow> (nat \<Rightarrow> u64) \<Rightarrow> nat list \<Rightarrow> sched \<Rightarrow> sched run" where
  "start_workers reaper_ip sleeper_ip kst [] st = retR (st\<lparr>initialised := True\<rparr>)"
| "start_workers reaper_ip sleeper_ip kst (k # ks) st =
     bindR (spawn_on k 0 reaper_ip 19 (kst (next_thread st)) st) (\<lambda>(st, t).
       let st = set_cpu k ((cpus st k)\<lparr>reaper_thread := t\<rparr>) st
       in bindR (spawn_on k 0 sleeper_ip (- 5) (kst (next_thread st)) st) (\<lambda>(st, _).
            start_workers reaper_ip sleeper_ip kst ks st))"

fun start_idles :: "vms \<Rightarrow> u64 \<Rightarrow> (nat \<Rightarrow> u64) \<Rightarrow> nat list \<Rightarrow> sched \<Rightarrow> sched run" where
  "start_idles v idle_ip kst [] st = retR st"
| "start_idles v idle_ip kst (k # ks) st = bindR (start_idle v idle_ip kst k st) (start_idles v idle_ip kst ks)"

definition sched_start :: "vms \<Rightarrow> u64 \<Rightarrow> u64 \<Rightarrow> u64 \<Rightarrow> (nat \<Rightarrow> u64) \<Rightarrow> sched \<Rightarrow> sched run" where
  "sched_start v idle_ip reaper_ip sleeper_ip kst st =
     bindR (start_idles v idle_ip kst [0..<cpu_count st] st) (\<lambda>st. start_workers reaper_ip sleeper_ip kst [0..<cpu_count st] st)"

section \<open>Processes, groups and sessions\<close>

text \<open>
  A group is named by its key in \<open>groups\<close>, a session by its key in \<open>sessions\<close>; only \<open>create_group\<close> and \<open>create_session\<close>
  make them, under their own number.
\<close>

definition proc_for :: "nat \<Rightarrow> int \<Rightarrow> sched \<Rightarrow> nat option" where
  "proc_for k pd st = (if pd = - 1 then Some (idle_proc (cpus st k)) else map_of (processes st) pd)"

definition group_for :: "int \<Rightarrow> sched \<Rightarrow> group option" where
  "group_for pg st = map_of (groups st) pg"

definition session_for :: "int \<Rightarrow> sched \<Rightarrow> int list option" where
  "session_for s st = map_of (sessions st) s"

definition create_group :: "nat \<Rightarrow> sched \<Rightarrow> sched \<times> int" where
  "create_group p st =
     (let pd = pid (procs st p);
          st = set_proc p ((procs st p)\<lparr>pgid := pd\<rparr>) st
      in (st\<lparr>groups := put_assoc pd \<lparr>gsid = 0, gmembers = [(pd, p)]\<rparr> (groups st)\<rparr>, pd))"

definition create_session :: "int \<Rightarrow> sched \<Rightarrow> sched \<times> int" where
  "create_session pg st = (st\<lparr>sessions := put_assoc pg [pg] (sessions st)\<rparr>, pg)"

definition set_group :: "int \<Rightarrow> group \<Rightarrow> sched \<Rightarrow> sched" where
  "set_group pg g st = st\<lparr>groups := put_assoc pg g (groups st)\<rparr>"

definition change_group :: "nat \<Rightarrow> int \<Rightarrow> sched \<Rightarrow> (sched \<times> bool) run" where
  "change_group p pg st =
     (case map_of (groups st) pg of None \<Rightarrow> failR Null_deref
      | Some g \<Rightarrow>
          let pr = procs st p
          in if map_of (gmembers g) (pid pr) \<noteq> None then retR (st, False)
             else let st = set_group pg (g\<lparr>gmembers := put_assoc (pid pr) p (gmembers g)\<rparr>) st
                  in bindR (case map_of (groups st) (pgid pr) of None \<Rightarrow> retR st
                       | Some old \<Rightarrow>
                           if map_of (gmembers old) (pid pr) = None then failR Bug_on
                           else retR (set_group (pgid pr) (old\<lparr>gmembers := erase_assoc (pid pr) (gmembers old)\<rparr>) st)) (\<lambda>st.
                       retR (set_proc p (pr\<lparr>pgid := pg, sid := gsid g\<rparr>) st, True)))"

fun set_sids :: "int \<Rightarrow> (int \<times> nat) list \<Rightarrow> sched \<Rightarrow> sched" where
  "set_sids s [] st = st"
| "set_sids s ((_, p) # ps) st = set_sids s ps (set_proc p ((procs st p)\<lparr>sid := s\<rparr>) st)"

definition change_session :: "int \<Rightarrow> int \<Rightarrow> sched \<Rightarrow> (sched \<times> bool) run" where
  "change_session pg s st =
     (case (map_of (groups st) pg, map_of (sessions st) s) of
        (Some g, Some ms) \<Rightarrow>
          if pg \<in> set ms then retR (st, False)
          else let st = st\<lparr>sessions := put_assoc s (pg # ms) (sessions st)\<rparr>
               in bindR (case map_of (sessions st) (gsid g) of None \<Rightarrow> retR st
                    | Some old \<Rightarrow>
                        if pg \<notin> set old then failR Bug_on
                        else retR (st\<lparr>sessions := put_assoc (gsid g) (filter (\<lambda>x. x \<noteq> pg) old) (sessions st)\<rparr>)) (\<lambda>st.
                    let st = set_group pg (g\<lparr>gsid := s\<rparr>) st in retR (set_sids s (gmembers g) st, True))
      | _ \<Rightarrow> failR Null_deref)"

text \<open>
  Process numbers are unbounded integers; the code narrows a \<open>size_t\<close> counter to \<open>pid_t\<close>.
  \<open>process::create\<close> with the address space made from the page map; \<open>alloc_pid\<close> registers the process. \<open>join_group\<close> is
  the part that gives the process \<open>p\<close> its group and session, \<open>adopt\<close> the part that links it to its parent.
\<close>

definition alloc_pid :: "nat \<Rightarrow> sched \<Rightarrow> sched \<times> int" where
  "alloc_pid p st = (let pd = next_pid st in (st\<lparr>next_pid := pd + 1, processes := put_assoc pd p (processes st)\<rparr>, pd))"

definition join_group :: "nat option \<Rightarrow> nat \<Rightarrow> sched \<Rightarrow> sched run" where
  "join_group parent p st =
     (let pd = pid (procs st p)
      in if pd = 0 then retR st
         else if pd = 1
         then if parent \<noteq> None then failR Bug_on
              else let (st, pg) = create_group p st; (st, s) = create_session pg st
                   in (case map_of (groups st) pg of None \<Rightarrow> failR Null_deref
                       | Some g \<Rightarrow> retR (set_group pg (g\<lparr>gsid := s\<rparr>) (set_proc p ((procs st p)\<lparr>sid := s\<rparr>) st)))
         else (case parent of
                 None \<Rightarrow> failR (Panic_msg ''cannot create a non-init process without a parent'')
               | Some q \<Rightarrow>
                   let pg = pgid (procs st q);
                       st = set_proc p ((procs st p)\<lparr>pgid := pg, sid := sid (procs st q)\<rparr>) st
                   in (case map_of (groups st) pg of
                         None \<Rightarrow> failR Null_deref
                       | Some g \<Rightarrow>
                           if map_of (gmembers g) pd \<noteq> None then failR Bug_on
                           else retR (set_group pg (g\<lparr>gmembers := put_assoc pd p (gmembers g)\<rparr>) st))))"

definition adopt :: "nat option \<Rightarrow> nat \<Rightarrow> sched \<Rightarrow> sched" where
  "adopt parent p st =
     (case parent of None \<Rightarrow> st
      | Some q \<Rightarrow>
          let st = set_proc p ((procs st p)\<lparr>pparent := Some q\<rparr>) st
          in set_proc q ((procs st q)\<lparr>pchildren := put_assoc (pid (procs st p)) p (pchildren (procs st q))\<rparr>) st)"

definition process_create :: "nat option \<Rightarrow> vms \<Rightarrow> sched \<Rightarrow> (sched \<times> nat) run" where
  "process_create parent v st =
     (let p = next_proc st;
          (st, pd) = alloc_pid p (st\<lparr>next_proc := p + 1\<rparr>);
          st = set_proc p \<lparr>pid = pd, pgid = 0, sid = 0, has_execved = False, pparent = None, pchildren = [], pthreads = [], next_tid = 1,
                next_stack_top = 0x7FFFFFFFF000, vmspace = v\<rparr> st
      in bindR (join_group parent p st) (\<lambda>st. retR (adopt parent p st, p)))"

section \<open>System calls\<close>

text \<open>Calls of the thread \<open>t\<close>; errors are error numbers.\<close>

definition gettid :: "nat \<Rightarrow> sched \<Rightarrow> int" where
  "gettid t st = tid (threads st t)"

definition getpid :: "nat \<Rightarrow> sched \<Rightarrow> int" where
  "getpid t st = pid (procs st (tparent (threads st t)))"

definition getppid :: "nat \<Rightarrow> sched \<Rightarrow> int" where
  "getppid t st = (case pparent (procs st (tparent (threads st t))) of None \<Rightarrow> 0 | Some q \<Rightarrow> pid (procs st q))"

definition getpgid :: "nat \<Rightarrow> int \<Rightarrow> sched \<Rightarrow> int + int" where
  "getpgid k pd st = (case proc_for k pd st of None \<Rightarrow> Inl 3 | Some p \<Rightarrow> Inr (pgid (procs st p)))"

definition setpgid :: "nat \<Rightarrow> nat \<Rightarrow> int \<Rightarrow> int \<Rightarrow> sched \<Rightarrow> (sched \<times> (int + unit)) run" where
  "setpgid k t pd pg st =
     (if pg < 0 then retR (st, Inl 22)
      else let pr = procs st (tparent (threads st t));
               pd = (if pd = 0 then pid pr else pd);
               pg = (if pg = 0 then pd else pg)
           in case proc_for k pd st of None \<Rightarrow> retR (st, Inl 3)
              | Some target \<Rightarrow>
                  let tg = procs st target;
                      r = (if pd = sid tg then Some 1
                           else if map_of (pchildren pr) pd \<noteq> None
                           then if has_execved tg then Some 13 else if sid pr \<noteq> sid tg then Some 1 else None
                           else if pd \<noteq> pid pr then Some 3 else None)
                  in case r of Some e \<Rightarrow> retR (st, Inl e)
                     | None \<Rightarrow>
                         (case map_of (groups st) pg of None \<Rightarrow> retR (st, Inl 1)
                          | Some g \<Rightarrow>
                              if gsid g \<noteq> sid tg then retR (st, Inl 1)
                              else bindR (change_group target pg st) (\<lambda>(st, ok). retR (st, if ok then Inr () else Inl 22))))"

end
