(* ===== verification/Sched_Switch.thy ===== *)
theory Sched_Switch
  imports Sched
begin

text \<open>
  The scheduler on one processor: the order of its two queues, which is the contract \<open>ordered_queue\<close>, the invariant \<open>cpu_inv\<close> of a
  processor, and what \<open>schedule\<close> chooses, saves and loads.
\<close>

section \<open>Ordered queues\<close>

definition vr_sorted :: "(nat \<Rightarrow> sthread) \<Rightarrow> nat list \<Rightarrow> bool" where
  "vr_sorted th q \<longleftrightarrow> sorted_wrt (\<lambda>a b. vruntime (th a) \<le> vruntime (th b)) q"

interpretation run_order: ordered_queue "vr_less th" "\<lambda>a b. vruntime (th a) \<le> vruntime (th b)" for th
  by unfold_locales (auto simp: vr_less_def)

lemma vr_sorted_insert: "vr_sorted th q \<Longrightarrow> vr_sorted th (insert_by (vr_less th) t q)"
  unfolding vr_sorted_def by (rule run_order.insert_sorted)

lemma vr_sorted_cong: "(\<And>t. t \<in> set q \<Longrightarrow> vruntime (th' t) = vruntime (th t)) \<Longrightarrow> vr_sorted th' q = vr_sorted th q"
  by (induction q) (auto simp: vr_sorted_def)

text \<open>\<open>until_sorted\<close>: the order of the sleep queue.\<close>

fun opt_le :: "u64 option \<Rightarrow> u64 option \<Rightarrow> bool" where
  "opt_le None _ = True"
| "opt_le (Some _) None = False"
| "opt_le (Some a) (Some b) = (a \<le> b)"

lemma opt_le_not_less: "\<not> opt_less a b \<longleftrightarrow> opt_le b a"
  by (cases a; cases b) auto

lemma opt_le_trans: "opt_le a b \<Longrightarrow> opt_le b c \<Longrightarrow> opt_le a c"
  by (cases a; cases b; cases c) auto

lemma opt_less_le: "opt_less a b \<Longrightarrow> opt_le a b"
  by (cases a; cases b) auto

definition until_sorted :: "(nat \<Rightarrow> sthread) \<Rightarrow> nat list \<Rightarrow> bool" where
  "until_sorted th q \<longleftrightarrow> sorted_wrt (\<lambda>a b. opt_le (sleep_until (th a)) (sleep_until (th b))) q"

interpretation sleep_order: ordered_queue "until_less th" "\<lambda>a b. opt_le (sleep_until (th a)) (sleep_until (th b))" for th
  by unfold_locales (auto simp: until_less_def opt_le_not_less opt_less_le intro: opt_le_trans)

lemma until_sorted_insert: "until_sorted th q \<Longrightarrow> until_sorted th (insert_by (until_less th) t q)"
  unfolding until_sorted_def by (rule sleep_order.insert_sorted)

lemma until_sorted_cong: "(\<And>t. t \<in> set q \<Longrightarrow> sleep_until (th' t) = sleep_until (th t)) \<Longrightarrow> until_sorted th' q = until_sorted th q"
  by (induction q) (auto simp: until_sorted_def)

section \<open>The invariant of a processor\<close>

definition cpu_core :: "sched \<Rightarrow> nat \<Rightarrow> bool" where
  "cpu_core st k \<longleftrightarrow>
     (let pc = cpus st k; th = threads st
      in distinct (queue pc) \<and> distinct (dead_threads pc) \<and> distinct (sleep_queue pc) \<and> set (queue pc) \<inter> set (dead_threads pc) = {} \<and>
         set (sleep_queue pc) \<inter> (set (queue pc) \<union> set (dead_threads pc)) = {} \<and>
         idle_thread pc \<notin> set (queue pc) \<union> set (sleep_queue pc) \<union> set (dead_threads pc) \<and>
         (\<forall>t \<in> set (sleep_queue pc). status (th t) \<in> {Sleeping, Ready, Killed}) \<and>
         (\<forall>t \<in> set (queue pc). status (th t) \<in> {Ready, Killed}) \<and>
         vr_sorted th (queue pc) \<and> until_sorted th (sleep_queue pc) \<and> status (th (idle_thread pc)) \<in> {Ready, Running})"

definition running_ok :: "sched \<Rightarrow> nat \<Rightarrow> nat \<Rightarrow> bool" where
  "running_ok st k r \<longleftrightarrow>
     r \<notin> set (queue (cpus st k)) \<union> set (dead_threads (cpus st k)) \<and> status (threads st r) \<in> {Running, Sleeping, Killed} \<and>
     (r \<in> set (sleep_queue (cpus st k)) \<longleftrightarrow> status (threads st r) = Sleeping)"

definition cpu_inv :: "sched \<Rightarrow> nat \<Rightarrow> bool" where
  "cpu_inv st k \<longleftrightarrow> cpu_core st k \<and> (\<forall>r. running_thread (cpus st k) = Some r \<longrightarrow> running_ok st k r)"

lemma cpu_coreD:
  assumes "cpu_core st k"
  shows "distinct (queue (cpus st k))" "distinct (dead_threads (cpus st k))" "distinct (sleep_queue (cpus st k))"
    "set (queue (cpus st k)) \<inter> set (dead_threads (cpus st k)) = {}" "set (sleep_queue (cpus st k)) \<inter> (set (queue (cpus st k)) \<union> set (dead_threads (cpus st k))) = {}"
    "idle_thread (cpus st k) \<notin> set (queue (cpus st k)) \<union> set (sleep_queue (cpus st k)) \<union> set (dead_threads (cpus st k))"
    "\<forall>t \<in> set (sleep_queue (cpus st k)). status (threads st t) \<in> {Sleeping, Ready, Killed}"
    "\<forall>t \<in> set (queue (cpus st k)). status (threads st t) \<in> {Ready, Killed}"
    "vr_sorted (threads st) (queue (cpus st k))" "until_sorted (threads st) (sleep_queue (cpus st k))" "status (threads st (idle_thread (cpus st k))) \<in> {Ready, Running}"
  using assms unfolding cpu_core_def Let_def by blast+

lemma cpu_coreI:
  assumes "distinct (queue (cpus st k))" "distinct (dead_threads (cpus st k))" "distinct (sleep_queue (cpus st k))"
    "set (queue (cpus st k)) \<inter> set (dead_threads (cpus st k)) = {}" "set (sleep_queue (cpus st k)) \<inter> (set (queue (cpus st k)) \<union> set (dead_threads (cpus st k))) = {}"
    "idle_thread (cpus st k) \<notin> set (queue (cpus st k)) \<union> set (sleep_queue (cpus st k)) \<union> set (dead_threads (cpus st k))"
    "\<forall>t \<in> set (sleep_queue (cpus st k)). status (threads st t) \<in> {Sleeping, Ready, Killed}"
    "\<forall>t \<in> set (queue (cpus st k)). status (threads st t) \<in> {Ready, Killed}"
    "vr_sorted (threads st) (queue (cpus st k))" "until_sorted (threads st) (sleep_queue (cpus st k))" "status (threads st (idle_thread (cpus st k))) \<in> {Ready, Running}"
  shows "cpu_core st k"
  using assms unfolding cpu_core_def Let_def by blast

lemma core_set_thread:
  assumes c: "cpu_core st k" and q: "t \<in> set (queue (cpus st k)) \<Longrightarrow> status x \<in> {Ready, Killed} \<and> vruntime x = vruntime (threads st t)"
    and s: "t \<in> set (sleep_queue (cpus st k)) \<Longrightarrow> status x \<in> {Sleeping, Ready, Killed} \<and> sleep_until x = sleep_until (threads st t)"
    and i: "t = idle_thread (cpus st k) \<Longrightarrow> status x \<in> {Ready, Running}"
  shows "cpu_core (set_thread t x st) k"
proof -
  note C = cpu_coreD [OF c]
  have "vr_sorted (threads (set_thread t x st)) (queue (cpus st k))" using C(9) q by (subst vr_sorted_cong [of _ _ "threads st"]) (auto simp: set_thread_def)
  moreover have "until_sorted (threads (set_thread t x st)) (sleep_queue (cpus st k))" using C(10) s by (subst until_sorted_cong [of _ _ "threads st"]) (auto simp: set_thread_def)
  moreover have "cpus (set_thread t x st) = cpus st" "\<And>u. threads (set_thread t x st) u = (if u = t then x else threads st u)" by (auto simp: set_thread_def)
  ultimately show ?thesis using C q s i unfolding cpu_core_def Let_def by auto
qed

lemma core_queue_insert:
  assumes c: "cpu_core st k" and t: "t \<notin> set (queue (cpus st k)) \<union> set (sleep_queue (cpus st k)) \<union> set (dead_threads (cpus st k))" "t \<noteq> idle_thread (cpus st k)"
    "status (threads st t) \<in> {Ready, Killed}"
  shows "cpu_core (queue_insert k t st) k"
proof -
  note C = cpu_coreD [OF c]
  show ?thesis using C t vr_sorted_insert [OF C(9), of t] unfolding cpu_core_def Let_def queue_insert_def set_cpu_def by auto
qed

lemma core_dead_push:
  assumes c: "cpu_core st k" and t: "t \<notin> set (queue (cpus st k)) \<union> set (sleep_queue (cpus st k)) \<union> set (dead_threads (cpus st k))" "t \<noteq> idle_thread (cpus st k)"
  shows "cpu_core (set_cpu k ((cpus st k)\<lparr>dead_threads := dead_threads (cpus st k) @ [t]\<rparr>) st) k"
  using cpu_coreD [OF c] t unfolding cpu_core_def Let_def set_cpu_def by auto

text \<open>The scan takes the first ready thread and drops the killed ones in front of it.\<close>

lemma scan_queue_ok:
  assumes "\<forall>t \<in> set q. status (th t) \<in> {Ready, Killed}"
  shows "scan_queue th q =
    retR (case dropWhile (\<lambda>t. status (th t) = Killed) q of [] \<Rightarrow> None | t # _ \<Rightarrow> Some t,
          tl (dropWhile (\<lambda>t. status (th t) = Killed) q), takeWhile (\<lambda>t. status (th t) = Killed) q)"
  using assms by (induction q) auto


lemma core_scan:
  assumes c: "cpu_core st k" and ks: "ks = takeWhile (\<lambda>t. status (threads st t) = Killed) (queue (cpus st k))"
    and rest: "rest = dropWhile (\<lambda>t. status (threads st t) = Killed) (queue (cpus st k))"
  shows "cpu_core (set_cpu k ((cpus st k)\<lparr>queue := tl rest, dead_threads := dead_threads (cpus st k) @ ks\<rparr>) st) k"
    "set (queue (cpus st k)) = set ks \<union> set rest" "distinct rest" "set ks \<inter> set rest = {}"
    "rest = n # rest' \<Longrightarrow> status (threads st n) = Ready \<and> (\<forall>u \<in> set (queue (cpus st k)). status (threads st u) = Ready \<longrightarrow> vruntime (threads st n) \<le> vruntime (threads st u))"
proof -
  note C = cpu_coreD [OF c]
  have q: "queue (cpus st k) = ks @ rest" by (simp add: ks rest)
  have t: "set (tl rest) \<subseteq> set rest" by (cases rest) auto
  have tr: "distinct (tl rest)" using C(1) q by (simp add: distinct_tl)
  have sq: "set (queue (cpus st k)) = set ks \<union> set rest" by (simp add: q)
  have 1: "vr_sorted (threads st) (tl rest)" using C(9) unfolding q vr_sorted_def by (cases rest) (auto simp: sorted_wrt_append)
  have 2: "distinct (dead_threads (cpus st k) @ ks)" using C(1,2,4) unfolding q by auto
  have 3: "set (tl rest) \<inter> set (dead_threads (cpus st k) @ ks) = {}" using C(1,4) t unfolding q by auto
  have 4: "set (sleep_queue (cpus st k)) \<inter> (set (tl rest) \<union> set (dead_threads (cpus st k) @ ks)) = {}" using C(5) t sq by auto
  have 5: "idle_thread (cpus st k) \<notin> set (tl rest) \<union> set (sleep_queue (cpus st k)) \<union> set (dead_threads (cpus st k) @ ks)" using C(6) t sq by auto
  have 6: "\<forall>t \<in> set (tl rest). status (threads st t) \<in> {Ready, Killed}" using C(8) t sq by blast
  show "cpu_core (set_cpu k ((cpus st k)\<lparr>queue := tl rest, dead_threads := dead_threads (cpus st k) @ ks\<rparr>) st) k"
    by (rule cpu_coreI) (use C(3,7,10,11) tr 1 2 3 4 5 6 in \<open>simp_all add: set_cpu_def\<close>)
  show "set (queue (cpus st k)) = set ks \<union> set rest" "distinct rest" "set ks \<inter> set rest = {}" using C(1) unfolding q by auto
  assume r: "rest = n # rest'"
  have "status (threads st n) \<noteq> Killed" using r rest hd_dropWhile [of "\<lambda>t. status (threads st t) = Killed" "queue (cpus st k)"] by simp
  moreover have "n \<in> set (queue (cpus st k))" using r q by simp
  ultimately have n: "status (threads st n) = Ready" using C(8) by auto
  have "vruntime (threads st n) \<le> vruntime (threads st u)" if "u \<in> set (queue (cpus st k))" "status (threads st u) = Ready" for u
  proof -
    have "u \<notin> set ks" using that(2) ks by (auto dest: set_takeWhileD)
    then have "u \<in> set rest" using that(1) q by auto
    then show ?thesis using C(9) r unfolding q vr_sorted_def by (auto simp: sorted_wrt_append)
  qed
  then show "status (threads st n) = Ready \<and> (\<forall>u \<in> set (queue (cpus st k)). status (threads st u) = Ready \<longrightarrow> vruntime (threads st n) \<le> vruntime (threads st u))"
    using n by blast
qed

section \<open>What happens to the current thread\<close>

lemma set_thread_simps [simp]:
  "threads (set_thread t x st) = (threads st)(t := x)" "cpus (set_thread t x st) = cpus st" "procs (set_thread t x st) = procs st"
  "set_thread t x (set_thread t y st) = set_thread t x st"
  by (simp_all add: set_thread_def)

lemma set_cpu_simps [simp]:
  "threads (set_cpu k x st) = threads st" "cpus (set_cpu k x st) = (cpus st)(k := x)" "procs (set_cpu k x st) = procs st"
  by (simp_all add: set_cpu_def)

lemma queue_insert_simps [simp]:
  "threads (queue_insert k t st) = threads st" "procs (queue_insert k t st) = procs st" "cpus (queue_insert k t st) j =
     (if j = k then (cpus st k)\<lparr>queue := insert_by (vr_less (threads st)) t (queue (cpus st k))\<rparr> else cpus st j)"
  by (simp_all add: queue_insert_def)

lemma sched_save_set:
  obtains x where "sched_save t c st = set_thread t x st" "status x = status (threads st t)" "vruntime x = vruntime (threads st t)"
    "sleep_until x = sleep_until (threads st t)" "regs x = cregs c" "is_user x = is_user (threads st t)" "is_user (threads st t) \<longrightarrow> user_ctx x = cuser c"
    "tparent x = tparent (threads st t)"
  by (rule that [of "if is_user (threads st t) then (threads st t)\<lparr>regs := cregs c, user_ctx := cuser c\<rparr> else (threads st t)\<lparr>regs := cregs c\<rparr>"])
    (simp_all add: sched_save_def Let_def split: if_splits)

lemma charge_simps [simp]:
  "status (charge time x) = status x" "sleep_until (charge time x) = sleep_until x" "is_user (charge time x) = is_user x"
  by (simp_all add: charge_def Let_def)

text \<open>Everything a processor has, and what \<open>schedule_out\<close> does with it.\<close>

definition owned :: "percpu \<Rightarrow> nat set" where
  "owned pc = set (queue pc) \<union> set (sleep_queue pc) \<union> set (dead_threads pc) \<union> {idle_thread pc}"

definition same_cpu :: "percpu \<Rightarrow> percpu \<Rightarrow> bool" where
  "same_cpu a b \<longleftrightarrow> running_thread a = running_thread b \<and> idle_thread a = idle_thread b \<and> sleep_queue a = sleep_queue b \<and> reaper_thread a = reaper_thread b"

definition went_out :: "cpu_ctx \<Rightarrow> sched \<Rightarrow> nat \<Rightarrow> nat \<Rightarrow> nat option \<Rightarrow> sched \<Rightarrow> nat option \<Rightarrow> int option \<Rightarrow> bool" where
  "went_out c st k r next st' next' pv \<longleftrightarrow>
     procs st' = procs st \<and> (\<forall>j. j \<noteq> k \<longrightarrow> cpus st' j = cpus st j) \<and> pv = (if status (threads st r) = Killed then None else Some (pid (procs st (tparent (threads st r))))) \<and>
     (next' \<noteq> Some r \<and> status (threads st r) \<noteq> Killed \<longrightarrow> regs (threads st' r) = cregs c \<and> (is_user (threads st r) \<longrightarrow> user_ctx (threads st' r) = cuser c)) \<and>
     cpu_core st' k \<and> same_cpu (cpus st' k) (cpus st k) \<and> (\<forall>n. n \<noteq> r \<longrightarrow> threads st' n = threads st n) \<and>
     (r = idle_thread (cpus st k) \<longrightarrow> status (threads st' r) = status (threads st r)) \<and>
     next' = (if next = None \<and> r \<noteq> idle_thread (cpus st k) \<and> status (threads st r) = Running then Some r else next) \<and>
     (if next' = Some r then cpus st' k = cpus st k \<and> status (threads st' r) = Running
      else owned (cpus st' k) = insert r (owned (cpus st k)) \<and> set (queue (cpus st' k)) \<union> set (dead_threads (cpus st' k)) \<subseteq> set (queue (cpus st k)) \<union> set (dead_threads (cpus st k)) \<union> {r})"

lemma went_outI:
  assumes "procs st' = procs st" "\<And>j. j \<noteq> k \<Longrightarrow> cpus st' j = cpus st j" "pv = (if status (threads st r) = Killed then None else Some (pid (procs st (tparent (threads st r)))))"
    "next' \<noteq> Some r \<Longrightarrow> status (threads st r) \<noteq> Killed \<Longrightarrow> regs (threads st' r) = cregs c \<and> (is_user (threads st r) \<longrightarrow> user_ctx (threads st' r) = cuser c)"
    "cpu_core st' k" "same_cpu (cpus st' k) (cpus st k)" "\<And>n. n \<noteq> r \<Longrightarrow> threads st' n = threads st n"
    "r = idle_thread (cpus st k) \<Longrightarrow> status (threads st' r) = status (threads st r)"
    "next' = (if next = None \<and> r \<noteq> idle_thread (cpus st k) \<and> status (threads st r) = Running then Some r else next)"
    "next' = Some r \<Longrightarrow> cpus st' k = cpus st k \<and> status (threads st' r) = Running"
    "next' \<noteq> Some r \<Longrightarrow> owned (cpus st' k) = insert r (owned (cpus st k))"
    "next' \<noteq> Some r \<Longrightarrow> set (queue (cpus st' k)) \<union> set (dead_threads (cpus st' k)) \<subseteq> set (queue (cpus st k)) \<union> set (dead_threads (cpus st k)) \<union> {r}"
  shows "went_out c st k r next st' next' pv"
  unfolding went_out_def using assms by simp

lemma out_killed:
  assumes "cpu_core st k" "running_thread (cpus st k) = Some r" "running_ok st k r" "status (threads st r) = Killed" "next \<noteq> Some r"
  shows "\<exists>st' fd pv. schedule_out st k c time next = retR (st', next, fd, pv) \<and> went_out c st k r next st' next pv"
proof (intro exI conjI)
  have q: "r \<notin> set (queue (cpus st k)) \<union> set (sleep_queue (cpus st k)) \<union> set (dead_threads (cpus st k))" "r \<noteq> idle_thread (cpus st k)"
    using assms(3,4) cpu_coreD(11) [OF assms(1)] by (auto simp: running_ok_def)
  show "schedule_out st k c time next = retR (set_cpu k ((cpus st k)\<lparr>dead_threads := dead_threads (cpus st k) @ [r]\<rparr>) st, next, True, None)"
    using assms by (simp add: schedule_out_unfold)
  show "went_out c st k r next (set_cpu k ((cpus st k)\<lparr>dead_threads := dead_threads (cpus st k) @ [r]\<rparr>) st) next None"
    by (rule went_outI) (use assms core_dead_push [OF assms(1) q] in \<open>auto simp: same_cpu_def owned_def\<close>)
qed

lemma out_idle:
  assumes co: "cpu_core st k" and r: "running_thread (cpus st k) = Some r" "running_ok st k r" and i: "r = idle_thread (cpus st k)" and n: "next \<noteq> Some r"
  shows "\<exists>st' fd pv. schedule_out st k c time next = retR (st', next, fd, pv) \<and> went_out c st k r next st' next pv"
proof -
  obtain x where x: "sched_save r c st = set_thread r x st" "status x = status (threads st r)" "vruntime x = vruntime (threads st r)"
    "sleep_until x = sleep_until (threads st r)" "regs x = cregs c" "is_user (threads st r) \<longrightarrow> user_ctx x = cuser c" by (rule sched_save_set)
  have s: "status (threads st r) \<in> {Ready, Running}" using cpu_coreD(11) [OF co] i by simp
  have core: "cpu_core (set_thread r x st) k" by (rule core_set_thread [OF co]) (use cpu_coreD(6) [OF co] i s x in auto)
  have "went_out c st k r next (set_thread r x st) next (Some (pid (procs st (tparent (threads st r)))))"
    by (rule went_outI) (use core i n x s in \<open>auto simp: same_cpu_def owned_def\<close>)
  moreover have "schedule_out st k c time next = retR (set_thread r x st, next, False, Some (pid (procs st (tparent (threads st r)))))"
    using r i s x by (auto simp: schedule_out_unfold)
  ultimately show ?thesis by blast
qed

lemma out_stays:
  assumes co: "cpu_core st k" and r: "running_thread (cpus st k) = Some r" "running_ok st k r" and i: "r \<noteq> idle_thread (cpus st k)" "status (threads st r) = Running"
  shows "\<exists>st' fd pv. schedule_out st k c time None = retR (st', Some r, fd, pv) \<and> went_out c st k r None st' (Some r) pv"
proof (intro exI conjI)
  show "schedule_out st k c time None = retR (set_thread r (charge time (threads st r)) st, Some r, False, Some (pid (procs st (tparent (threads st r)))))"
    using r i by (simp add: schedule_out_unfold Let_def)
  have core: "cpu_core (set_thread r (charge time (threads st r)) st) k" by (rule core_set_thread [OF co]) (use r i in \<open>auto simp: running_ok_def\<close>)
  show "went_out c st k r None (set_thread r (charge time (threads st r)) st) (Some r) (Some (pid (procs st (tparent (threads st r)))))"
    by (rule went_outI) (use core i in \<open>auto simp: same_cpu_def\<close>)
qed

lemma out_sleeps:
  assumes co: "cpu_core st k" and r: "running_thread (cpus st k) = Some r" "running_ok st k r" and i: "r \<noteq> idle_thread (cpus st k)" "status (threads st r) = Sleeping" and n: "next \<noteq> Some r"
  shows "\<exists>st' fd pv. schedule_out st k c time next = retR (st', next, fd, pv) \<and> went_out c st k r next st' next pv"
proof -
  let ?y = "charge time ((threads st r)\<lparr>sleep_locked := False\<rparr>)"
  obtain x where x: "sched_save r c (set_thread r ?y st) = set_thread r x (set_thread r ?y st)" "status x = status (threads (set_thread r ?y st) r)"
    "sleep_until x = sleep_until (threads (set_thread r ?y st) r)" "regs x = cregs c" "is_user (threads (set_thread r ?y st) r) \<longrightarrow> user_ctx x = cuser c" by (rule sched_save_set)
  have "schedule_out st k c time next = retR (set_thread r x st, next, False, Some (pid (procs st (tparent (threads st r)))))"
    using r i n x by (auto simp: schedule_out_unfold Let_def)
  moreover have q: "r \<notin> set (queue (cpus st k))" "r \<in> set (sleep_queue (cpus st k))" using r(2) i(2) by (auto simp: running_ok_def)
  have core: "cpu_core (set_thread r x st) k" by (rule core_set_thread [OF co]) (use q i x in auto)
  have "went_out c st k r next (set_thread r x st) next (Some (pid (procs st (tparent (threads st r)))))"
    by (rule went_outI) (use core q i n x in \<open>auto simp: same_cpu_def owned_def\<close>)
  ultimately show ?thesis by blast
qed

lemma out_runs:
  assumes co: "cpu_core st k" and r: "running_thread (cpus st k) = Some r" "running_ok st k r" and i: "r \<noteq> idle_thread (cpus st k)" "status (threads st r) = Running" and n: "next = Some n" "n \<noteq> r"
  shows "\<exists>st' fd pv. schedule_out st k c time next = retR (st', next, fd, pv) \<and> went_out c st k r next st' next pv"
proof -
  let ?y = "charge time (threads st r)"
  obtain x where x: "sched_save r c (set_thread r ?y st) = set_thread r x (set_thread r ?y st)" "status x = status (threads (set_thread r ?y st) r)"
    "regs x = cregs c" "is_user (threads (set_thread r ?y st) r) \<longrightarrow> user_ctx x = cuser c" by (rule sched_save_set)
  let ?st = "set_thread r (x\<lparr>status := Ready\<rparr>) st"
  have "schedule_out st k c time next = retR (queue_insert k r ?st, next, False, Some (pid (procs st (tparent (threads st r)))))"
    using r i n x by (auto simp: schedule_out_unfold Let_def enqueue_def)
  moreover have q: "r \<notin> set (queue (cpus st k)) \<union> set (sleep_queue (cpus st k)) \<union> set (dead_threads (cpus st k))" using r(2) i(2) by (auto simp: running_ok_def)
  have "cpu_core ?st k" by (rule core_set_thread [OF co]) (use q i x in auto)
  then have core: "cpu_core (queue_insert k r ?st) k" by (rule core_queue_insert) (use q i in auto)
  have "went_out c st k r next (queue_insert k r ?st) next (Some (pid (procs st (tparent (threads st r)))))"
    by (rule went_outI) (use core q i n x in \<open>auto simp: same_cpu_def owned_def\<close>)
  ultimately show ?thesis by blast
qed

lemma schedule_out_ok:
  assumes co: "cpu_core st k" and r: "running_thread (cpus st k) = Some r" "running_ok st k r" and n: "next \<noteq> Some r"
  obtains st' next' fd pv where "schedule_out st k c time next = retR (st', next', fd, pv)" "went_out c st k r next st' next' pv"
proof -
  have "status (threads st r) \<in> {Running, Sleeping, Killed}" using r(2) by (simp add: running_ok_def)
  then consider "status (threads st r) = Killed" | "r = idle_thread (cpus st k)" | "r \<noteq> idle_thread (cpus st k)" "status (threads st r) = Sleeping"
    | "r \<noteq> idle_thread (cpus st k)" "status (threads st r) = Running" "next = None" | m where "r \<noteq> idle_thread (cpus st k)" "status (threads st r) = Running" "next = Some m"
    by (cases "next") auto
  then have "\<exists>next' st' fd pv. schedule_out st k c time next = retR (st', next', fd, pv) \<and> went_out c st k r next st' next' pv"
  proof cases
    case 1 then show ?thesis using out_killed [OF co r _ n] by blast
  next
    case 2 then show ?thesis using out_idle [OF co r _ n] by blast
  next
    case 3 then show ?thesis using out_sleeps [OF co r _ _ n] by blast
  next
    case 4 then show ?thesis using out_stays [OF co r] by blast
  next
    case 5 then show ?thesis using out_runs [OF co r 5] n by blast
  qed
  then show ?thesis using that by blast
qed

section \<open>The whole scheduler\<close>

definition picks :: "sched \<Rightarrow> nat \<Rightarrow> nat \<Rightarrow> nat \<Rightarrow> bool" where
  "picks st k r n \<longleftrightarrow>
     (let ready = filter (\<lambda>t. status (threads st t) = Ready) (queue (cpus st k))
      in if ready \<noteq> [] then n \<in> set ready \<and> (\<forall>u \<in> set ready. vruntime (threads st n) \<le> vruntime (threads st u))
         else n = (if status (threads st r) = Running then r else idle_thread (cpus st k)))"

lemma cpus_wake_reaper [simp]: "cpus (wake_reaper k st) = cpus st"
  by (simp add: wake_reaper_def Let_def)

lemma regs_wake_reaper [simp]:
  "regs (threads (wake_reaper k st) t) = regs (threads st t)" "user_ctx (threads (wake_reaper k st) t) = user_ctx (threads st t)"
  "procs (wake_reaper k st) = procs st"
  by (simp_all add: wake_reaper_def Let_def)

lemma wake_reaper_ok:
  assumes "cpu_core st k"
  shows "cpu_core (wake_reaper k st) k" "status (threads st t) \<noteq> Sleeping \<Longrightarrow> threads (wake_reaper k st) t = threads st t"
proof -
  show "status (threads st t) \<noteq> Sleeping \<Longrightarrow> threads (wake_reaper k st) t = threads st t"
    by (auto simp: wake_reaper_def Let_def)
  show "cpu_core (wake_reaper k st) k"
  proof (cases "status (threads st (reaper_thread (cpus st k))) = Sleeping")
    case True
    then show ?thesis using assms cpu_coreD(8,11) [OF assms] core_set_thread [OF assms, of "reaper_thread (cpus st k)" "(threads st (reaper_thread (cpus st k)))\<lparr>status := Ready\<rparr>"]
      by (auto simp: wake_reaper_def Let_def)
  qed (use assms in \<open>simp add: wake_reaper_def Let_def\<close>)
qed

text \<open>The end of \<open>schedule\<close>.\<close>

definition finish :: "nat \<Rightarrow> nat option \<Rightarrow> bool \<Rightarrow> u64 \<Rightarrow> sched \<Rightarrow> nat \<Rightarrow> int option \<Rightarrow> cpu_ctx \<Rightarrow> sched \<times> cpu_ctx" where
  "finish k current idle time' st n pv c =
     (let (st, c) = (if Some n \<noteq> current then switch_to k n pv st c else (st, c))
      in (if \<not> idle then set_thread n ((threads st n)\<lparr>schedule_time := time'\<rparr>) st else st, c))"

lemma switch_to_fst: "fst (switch_to k n pv st c) = set_cpu k ((cpus st k)\<lparr>running_thread := Some n\<rparr>) (set_thread n ((threads st n)\<lparr>running_on := Some k, status := Running\<rparr>) st)"
  by (simp add: switch_to_def Let_def)

lemma set_thread_set_cpu: "set_thread t x (set_cpu k y st) = set_cpu k y (set_thread t x st)"
  by (cases st) (simp add: set_thread_def set_cpu_def)

lemma core_running: "cpu_core (set_cpu k ((cpus st k)\<lparr>running_thread := x\<rparr>) st) k \<longleftrightarrow> cpu_core st k"
  by (simp add: cpu_core_def Let_def set_cpu_def)

lemma finish_switch:
  assumes c: "cpu_core st k" and n: "Some n \<noteq> current" and out: "n \<notin> set (queue (cpus st k)) \<union> set (sleep_queue (cpus st k)) \<union> set (dead_threads (cpus st k))"
  shows "cpu_inv (fst (finish k current idle time' st n pv ctx)) k" "cpus (fst (finish k current idle time' st n pv ctx)) k = (cpus st k)\<lparr>running_thread := Some n\<rparr>"
proof -
  let ?x = "(threads st n)\<lparr>running_on := Some k, status := Running\<rparr>"
  have 1: "cpu_core (set_thread n x st) k" if "status x = Running" for x by (rule core_set_thread [OF c]) (use out that in auto)
  obtain x where x: "fst (finish k current idle time' st n pv ctx) = set_cpu k ((cpus st k)\<lparr>running_thread := Some n\<rparr>) (set_thread n x st)" "status x = Running"
    by (cases idle) (use n in \<open>auto simp: finish_def switch_to_fst case_prod_beta Let_def set_thread_set_cpu\<close>)
  then show "cpus (fst (finish k current idle time' st n pv ctx)) k = (cpus st k)\<lparr>running_thread := Some n\<rparr>" by simp
  show "cpu_inv (fst (finish k current idle time' st n pv ctx)) k"
    using 1 [OF x(2)] x out core_running [where st = "set_thread n x st" and x = "Some n" and k = k] by (auto simp: cpu_inv_def running_ok_def)
qed

lemma finish_stay:
  assumes c: "cpu_core st k" "running_thread (cpus st k) = Some r" "running_ok st k r" 
  shows "cpu_inv (fst (finish k (Some r) idle time' st r pv ctx)) k" "cpus (fst (finish k (Some r) idle time' st r pv ctx)) = cpus st"
proof -
  show "cpus (fst (finish k (Some r) idle time' st r pv ctx)) = cpus st" by (simp add: finish_def)
  have "cpu_core (set_thread r ((threads st r)\<lparr>schedule_time := time'\<rparr>) st) k"
    by (rule core_set_thread [OF c(1)]) (use cpu_coreD [OF c(1)] in auto)
  then show "cpu_inv (fst (finish k (Some r) idle time' st r pv ctx)) k" using c by (auto simp: finish_def cpu_inv_def running_ok_def)
qed

lemma schedule_finish:
  "schedule st k c time time' =
     (if preemption (cpus st k) > 0 then retR (st, c)
      else bindR (scan_queue (threads st) (queue (cpus st k))) (\<lambda>(next, q, dead).
        let st = set_cpu k ((cpus st k)\<lparr>queue := q, dead_threads := dead_threads (cpus st k) @ dead\<rparr>) st
        in bindR (schedule_out st k c time next) (\<lambda>(st', next, found_dead, prev).
          let st' = (if dead \<noteq> [] \<or> found_dead then wake_reaper k st' else st')
          in retR (finish k (running_thread (cpus st k)) (running_thread (cpus st k) = Some (idle_thread (cpus st k))) time' st'
                     (case next of None \<Rightarrow> idle_thread (cpus st' k) | Some t \<Rightarrow> t) prev c))))"
  unfolding schedule_def finish_def Let_def by (simp add: case_prod_beta cong: if_cong)

lemma scan_picks:
  assumes core: "cpu_core st k" and ks: "ks = takeWhile (\<lambda>t. status (threads st t) = Killed) (queue (cpus st k))"
    and rest: "rest = dropWhile (\<lambda>t. status (threads st t) = Killed) (queue (cpus st k))"
    and n: "n = (case rest of [] \<Rightarrow> if status (threads st r) = Running then r else idle_thread (cpus st k) | m # _ \<Rightarrow> m)"
  shows "picks st k r n"
proof (cases rest)
  case Nil
  then have "filter (\<lambda>t. status (threads st t) = Ready) (queue (cpus st k)) = []"
    using core_scan(2) [OF core ks rest] by (auto simp: filter_empty_conv ks dest: set_takeWhileD)
  then show ?thesis using n Nil by (simp add: picks_def)
next
  case (Cons m rest')
  then show ?thesis using core_scan(2) [OF core ks rest] core_scan(5) [OF core ks rest Cons] n by (auto simp: picks_def Let_def filter_empty_conv)
qed

text \<open>The state just before the switch to the thread \<open>n\<close>.\<close>

definition prepared :: "cpu_ctx \<Rightarrow> sched \<Rightarrow> nat \<Rightarrow> nat \<Rightarrow> nat \<Rightarrow> int option \<Rightarrow> sched \<Rightarrow> bool" where
  "prepared c st k r n pv st' \<longleftrightarrow>
     cpu_core st' k \<and> running_thread (cpus st' k) = Some r \<and> picks st k r n \<and> insert n (owned (cpus st' k)) = insert r (owned (cpus st k)) \<and>
     (if n = r then running_ok st' k r
      else n \<notin> set (queue (cpus st' k)) \<union> set (sleep_queue (cpus st' k)) \<union> set (dead_threads (cpus st' k)) \<and> threads st' n = threads st n \<and>
        (status (threads st r) \<noteq> Killed \<longrightarrow> regs (threads st' r) = cregs c \<and> (is_user (threads st r) \<longrightarrow> user_ctx (threads st' r) = cuser c))) \<and>
     procs st' = procs st \<and> (\<forall>j. j \<noteq> k \<longrightarrow> cpus st' j = cpus st j) \<and> reaper_thread (cpus st' k) = reaper_thread (cpus st k) \<and>
     (\<forall>t. t \<noteq> r \<longrightarrow> t \<noteq> reaper_thread (cpus st k) \<longrightarrow> threads st' t = threads st t) \<and> pv = (if status (threads st r) = Killed then None else Some (pid (procs st (tparent (threads st r)))))"

text \<open>The two ways on after \<open>schedule_out\<close>: the current thread goes on, or another one runs.\<close>

lemma stay_running:
  assumes w: "went_out c st1 k r None st2 next' pv" and st1: "running_ok st1 k r" "cpu_core st1 k"
    and st3: "cpu_core st3 k" "cpus st3 = cpus st2" "\<And>t. status (threads st2 t) \<noteq> Sleeping \<Longrightarrow> threads st3 t = threads st2 t"
    and n: "r = idle_thread (cpus st1 k) \<or> status (threads st1 r) = Running"
  shows "running_ok st3 k r \<and> insert r (owned (cpus st2 k)) = insert r (owned (cpus st1 k))"
proof -
  have idle: "idle_thread (cpus st2 k) = idle_thread (cpus st1 k)" using w by (simp add: went_out_def same_cpu_def)
  have "status (threads st3 r) = Running \<and> r \<notin> set (queue (cpus st3 k)) \<union> set (dead_threads (cpus st3 k)) \<union> set (sleep_queue (cpus st3 k))"
  proof (cases "r = idle_thread (cpus st1 k)")
    case True
    then have "status (threads st2 r) = Running" using w st1 cpu_coreD(11) [OF st1(2)] by (auto simp: went_out_def running_ok_def)
    then show ?thesis using cpu_coreD(6) [OF st3(1)] True idle st3 by auto
  next
    case False
    then have "next' = Some r" "status (threads st1 r) = Running" using n w by (simp_all add: went_out_def)
    then show ?thesis using w st3(2,3) st1 by (auto simp: went_out_def running_ok_def)
  qed
  moreover have "insert r (owned (cpus st2 k)) = insert r (owned (cpus st1 k))" using w by (auto simp: went_out_def split: if_splits)
  ultimately show ?thesis by (auto simp: running_ok_def)
qed

lemma schedule_prepared:
  assumes inv: "cpu_inv st k" and p: "preemption (cpus st k) = 0" and r: "running_thread (cpus st k) = Some r"
  shows "\<exists>n pv st3. schedule st k c time time' = retR (finish k (Some r) (r = idle_thread (cpus st k)) time' st3 n pv c) \<and> prepared c st k r n pv st3"
proof -
  let ?q = "queue (cpus st k)" and ?K = "\<lambda>t. status (threads st t) = Killed"
  define ks where "ks = takeWhile ?K ?q"
  define rest where "rest = dropWhile ?K ?q"
  define nx where "nx = (case rest of [] \<Rightarrow> None | t # _ \<Rightarrow> Some t)"
  define st1 where "st1 = set_cpu k ((cpus st k)\<lparr>queue := tl rest, dead_threads := dead_threads (cpus st k) @ ks\<rparr>) st"
  have core: "cpu_core st k" and rok: "running_ok st k r" using inv r by (auto simp: cpu_inv_def)
  note C = cpu_coreD [OF core] and S = core_scan [OF core ks_def rest_def]
  have c1: "cpu_core st1 k" using S(1) by (simp add: st1_def)
  have r1: "running_thread (cpus st1 k) = Some r" "running_ok st1 k r" "cpus st1 k = (cpus st k)\<lparr>queue := tl rest, dead_threads := dead_threads (cpus st k) @ ks\<rparr>"
    "threads st1 = threads st" "procs st1 = procs st"
    using r rok S(2) by (cases rest; auto simp: st1_def running_ok_def)+
  have nxq: "n \<in> set ?q" "status (threads st n) = Ready" "n \<notin> set (tl rest)" "n \<notin> set ks" if "nx = Some n" for n
    using that S(2-4) S(5) [of n "tl rest"] by (auto simp: nx_def split: list.splits)
  have nr: "nx \<noteq> Some r" using nxq(1) rok by (auto simp: running_ok_def)
  obtain st2 next' fd pv where out: "schedule_out st1 k c time nx = retR (st2, next', fd, pv)" and w: "went_out c st1 k r nx st2 next' pv"
    by (rule schedule_out_ok [OF c1 r1(1,2) nr])
  define st3 where "st3 = (if ks \<noteq> [] \<or> fd then wake_reaper k st2 else st2)"
  define n where "n = (case next' of None \<Rightarrow> idle_thread (cpus st2 k) | Some t \<Rightarrow> t)"
  have c3: "cpu_core st3 k" "cpus st3 = cpus st2" "\<And>t. status (threads st2 t) \<noteq> Sleeping \<Longrightarrow> threads st3 t = threads st2 t"
    "procs st3 = procs st2" "\<And>t. regs (threads st3 t) = regs (threads st2 t)" "\<And>t. user_ctx (threads st3 t) = user_ctx (threads st2 t)"
    using w wake_reaper_ok [of st2 k] by (auto simp: st3_def went_out_def)
  have fin: "schedule st k c time time' = retR (finish k (Some r) (r = idle_thread (cpus st k)) time' st3 n pv c)"
    using scan_queue_ok [OF C(8)] p r out r1(1)
    by (simp add: schedule_finish Let_def case_prod_beta flip: ks_def rest_def nx_def st1_def) (simp add: st3_def n_def r1(3) split: option.splits)
  have idle: "idle_thread (cpus st2 k) = idle_thread (cpus st k)" "running_thread (cpus st3 k) = Some r" "sleep_queue (cpus st3 k) = sleep_queue (cpus st k)"
    using w r1(1,3) c3(2) by (simp_all add: went_out_def same_cpu_def)
  have next': "next' = (if nx = None \<and> r \<noteq> idle_thread (cpus st k) \<and> status (threads st r) = Running then Some r else nx)"
    using w by (simp add: went_out_def r1(3,4))
  have n: "n = (case nx of None \<Rightarrow> if status (threads st r) = Running then r else idle_thread (cpus st k) | Some m \<Rightarrow> m)"
    by (cases nx) (auto simp: n_def next' idle(1))
  have pick: "picks st k r n" by (rule scan_picks [OF core ks_def rest_def]) (simp add: n nx_def split: list.splits)
  have own: "insert r (owned (cpus st1 k) \<union> set_option nx) = insert r (owned (cpus st k))"
    using S(2) r1(3) by (cases rest) (auto simp: owned_def nx_def)
  have fr: "\<forall>j. j \<noteq> k \<longrightarrow> cpus st3 j = cpus st j" "reaper_thread (cpus st3 k) = reaper_thread (cpus st k)"
    "\<forall>t. t \<noteq> r \<longrightarrow> t \<noteq> reaper_thread (cpus st k) \<longrightarrow> threads st3 t = threads st t"
    using w c3(2) r1(3) by (auto simp: went_out_def same_cpu_def st1_def st3_def wake_reaper_def Let_def)
  have "prepared c st k r n pv st3"
  proof (cases "n = r")
    case True
    then have nx: "nx = None" and "r = idle_thread (cpus st1 k) \<or> status (threads st1 r) = Running" using nr n r1(3,4) by (cases nx; auto split: if_splits)+
    then have "running_ok st3 k r \<and> insert r (owned (cpus st2 k)) = insert r (owned (cpus st1 k))"
      using stay_running [OF w [unfolded nx] r1(2) c1 c3(1-3)] by simp
    then show ?thesis using True nx own pick w c3 idle r1 fr by (simp add: prepared_def went_out_def)
  next
    case False
    then have nr': "next' \<noteq> Some r" by (auto simp: n_def)
    have out: "n \<notin> set (queue (cpus st3 k)) \<union> set (sleep_queue (cpus st3 k)) \<union> set (dead_threads (cpus st3 k)) \<and> status (threads st n) \<noteq> Sleeping"
    proof (cases nx)
      case None
      then show ?thesis using n False cpu_coreD(6) [OF c3(1)] c3(2) idle(1) C(11) by (auto split: if_splits)
    next
      case (Some m)
      then have "n = m" using n by simp
      moreover have "n \<notin> set (sleep_queue (cpus st k)) \<union> set (dead_threads (cpus st k))" using nxq(1) [OF Some] C(4,5) \<open>n = m\<close> by blast
      moreover have "set (queue (cpus st2 k)) \<union> set (dead_threads (cpus st2 k)) \<subseteq> set (tl rest) \<union> (set (dead_threads (cpus st k)) \<union> set ks) \<union> {r}"
        using w nr' by (simp add: went_out_def r1(3))
      ultimately show ?thesis using nxq [OF Some] False idle(3) c3(2) by auto
    qed
    have "threads st2 n = threads st n" using w False by (simp add: went_out_def r1(4))
    then have "threads st3 n = threads st n" using c3(3) out by simp
    moreover have "owned (cpus st2 k) = insert r (owned (cpus st1 k))" using w nr' by (simp add: went_out_def)
    moreover have "set_option nx \<subseteq> {n}" "n \<in> insert r (owned (cpus st k))" using n nxq(1) by (cases nx; auto simp: owned_def)+
    ultimately have "insert n (owned (cpus st2 k)) = insert r (owned (cpus st k))" "threads st3 n = threads st n" using own by blast+
    then show ?thesis using out False pick w c3 idle r1 nr' fr by (simp add: prepared_def went_out_def)
  qed
  then show ?thesis using fin by blast
qed

lemma schedule_ok:
  assumes inv: "cpu_inv st k" and p: "preemption (cpus st k) = 0" and r: "running_thread (cpus st k) = Some r"
  shows "\<exists>st' c' n. schedule st k c time time' = retR (st', c') \<and> cpu_inv st' k \<and> running_thread (cpus st' k) = Some n \<and> picks st k r n \<and>
    insert n (owned (cpus st' k)) = insert r (owned (cpus st k)) \<and> reaper_thread (cpus st' k) = reaper_thread (cpus st k) \<and> (\<forall>j. j \<noteq> k \<longrightarrow> cpus st' j = cpus st j) \<and>
    (\<forall>t. t \<notin> insert r (owned (cpus st k)) \<longrightarrow> t \<noteq> reaper_thread (cpus st k) \<longrightarrow> threads st' t = threads st t)"
proof -
  obtain n pv st3 where f: "schedule st k c time time' = retR (finish k (Some r) (r = idle_thread (cpus st k)) time' st3 n pv c)" and p: "prepared c st k r n pv st3"
    using schedule_prepared [OF assms] by blast
  let ?f = "finish k (Some r) (r = idle_thread (cpus st k)) time' st3 n pv c"
  have "cpu_inv (fst ?f) k \<and> running_thread (cpus (fst ?f) k) = Some n \<and> insert n (owned (cpus (fst ?f) k)) = insert r (owned (cpus st k))"
  proof (cases "n = r")
    case True
    then show ?thesis using p finish_stay [of st3 k r "r = idle_thread (cpus st k)" time' pv c] by (simp add: prepared_def)
  next
    case False
    then show ?thesis using p finish_switch [of st3 k n "Some r" "r = idle_thread (cpus st k)" time' pv c] by (simp add: prepared_def owned_def)
  qed
  moreover have "picks st k r n" using p by (simp add: prepared_def)
  moreover have fr: "reaper_thread (cpus (fst ?f) k) = reaper_thread (cpus st k)" "\<forall>j. j \<noteq> k \<longrightarrow> cpus (fst ?f) j = cpus st j"
    using p by (auto simp: prepared_def finish_def case_prod_beta Let_def switch_to_fst)
  moreover have "threads (fst ?f) t = threads st t" if "t \<notin> insert r (owned (cpus st k))" "t \<noteq> reaper_thread (cpus st k)" for t
  proof -
    have "n \<in> insert r (owned (cpus st k))" using p by (auto simp: prepared_def)
    then have "t \<noteq> n" "t \<noteq> r" using that by auto
    then show ?thesis using p that by (auto simp: prepared_def finish_def case_prod_beta Let_def switch_to_fst)
  qed
  ultimately show ?thesis unfolding f by (metis (no_types, lifting) prod.collapse)
qed

text \<open>The contexts: what the processor has loaded goes to the old thread, what the new thread had saved is loaded.\<close>

lemma schedule_context:
  assumes inv: "cpu_inv st k" and p: "preemption (cpus st k) = 0" and r: "running_thread (cpus st k) = Some r" "status (threads st r) \<noteq> Killed"
    and s: "schedule st k c time time' = retR (st', c')" "running_thread (cpus st' k) = Some n" "n \<noteq> r"
  shows "regs (threads st' r) = cregs c \<and> (is_user (threads st r) \<longrightarrow> user_ctx (threads st' r) = cuser c) \<and>
    cregs c' = regs (threads st n) \<and> cthread c' = Some n \<and> (is_user (threads st n) \<longrightarrow> cuser c' = user_ctx (threads st n) \<and> crsp0 c' = kstack_top (threads st n)) \<and>
    (pid (procs st (tparent (threads st n))) \<noteq> pid (procs st (tparent (threads st r))) \<longrightarrow> cpmap c' = Some (tparent (threads st n)))"
proof -
  obtain m pv st3 where f: "schedule st k c time time' = retR (finish k (Some r) (r = idle_thread (cpus st k)) time' st3 m pv c)" and q: "prepared c st k r m pv st3"
    using schedule_prepared [OF inv p r(1)] by blast
  have fin: "finish k (Some r) (r = idle_thread (cpus st k)) time' st3 m pv c = (st', c')" using f s(1) by simp
  have "m \<noteq> r"
  proof
    assume "m = r"
    then have "cpus st' = cpus st3" using fin by (auto simp: finish_def split: if_splits)
    then show False using q s(2,3) by (simp add: prepared_def)
  qed
  then have "n = m" using fin s(2) by (auto simp: finish_def switch_to_def Let_def split: if_splits)
  have q': "threads st3 n = threads st n" "regs (threads st3 r) = cregs c" "is_user (threads st r) \<longrightarrow> user_ctx (threads st3 r) = cuser c"
    "procs st3 = procs st" "pv = Some (pid (procs st (tparent (threads st r))))"
    using q \<open>m \<noteq> r\<close> \<open>n = m\<close> r(2) by (simp_all add: prepared_def)
  have "regs (threads st' r) = regs (threads st3 r)" "user_ctx (threads st' r) = user_ctx (threads st3 r)" using fin s(3) \<open>n = m\<close>
    by (auto simp: finish_def switch_to_def Let_def split: if_splits)
  moreover have "c' = sched_load (pv = Some (pid (procs st (tparent (threads st n))))) n (set_thread n ((threads st n)\<lparr>running_on := Some k, status := Running\<rparr>) st3) c"
    using fin s(3) \<open>n = m\<close> q'(1,4) by (auto simp: finish_def switch_to_def Let_def sched_load_def split: if_splits)
  ultimately show ?thesis using q' by (simp add: sched_load_def Let_def)
qed

lemma schedule_first:
  assumes inv: "cpu_inv st k" and p: "preemption (cpus st k) = 0" and r: "running_thread (cpus st k) = None"
  shows "\<exists>st' c' n. schedule st k c time time' = retR (st', c') \<and> cpu_inv st' k \<and> running_thread (cpus st' k) = Some n \<and> owned (cpus st' k) \<union> {n} = owned (cpus st k) \<and>
    reaper_thread (cpus st' k) = reaper_thread (cpus st k) \<and> (\<forall>j. j \<noteq> k \<longrightarrow> cpus st' j = cpus st j) \<and>
    (\<forall>t. t \<notin> owned (cpus st k) \<longrightarrow> t \<noteq> reaper_thread (cpus st k) \<longrightarrow> threads st' t = threads st t)"
proof -
  let ?q = "queue (cpus st k)" and ?K = "\<lambda>t. status (threads st t) = Killed"
  define ks where "ks = takeWhile ?K ?q"
  define rest where "rest = dropWhile ?K ?q"
  define st1 where "st1 = set_cpu k ((cpus st k)\<lparr>queue := tl rest, dead_threads := dead_threads (cpus st k) @ ks\<rparr>) st"
  have core: "cpu_core st k" using inv by (auto simp: cpu_inv_def)
  note C = cpu_coreD [OF core] and S = core_scan [OF core ks_def rest_def]
  define n where "n = (case rest of [] \<Rightarrow> idle_thread (cpus st k) | t # _ \<Rightarrow> t)"
  define st3 where "st3 = (if ks \<noteq> [] then wake_reaper k st1 else st1)"
  have c1: "cpu_core st1 k" using S(1) by (simp add: st1_def)
  have c3: "cpu_core st3 k" "cpus st3 = cpus st1" "\<And>t. t \<noteq> reaper_thread (cpus st k) \<Longrightarrow> threads st3 t = threads st t"
    using wake_reaper_ok(1) [OF c1] c1 by (auto simp: st3_def st1_def wake_reaper_def Let_def)
  let ?f = "finish k None False time' st3 n None c"
  have fin: "schedule st k c time time' = retR ?f"
    using scan_queue_ok [OF C(8)] p r
    by (simp add: schedule_finish schedule_out_unfold flip: ks_def rest_def st1_def) (simp add: st3_def n_def st1_def split: list.splits)
  have n: "n \<in> owned (cpus st k)" using S(2) by (auto simp: n_def owned_def split: list.splits)
  have own: "owned (cpus st1 k) \<union> {n} = owned (cpus st k)" using S(2) by (cases rest) (auto simp: owned_def st1_def n_def)
  have out: "n \<notin> set (queue (cpus st3 k)) \<union> set (sleep_queue (cpus st3 k)) \<union> set (dead_threads (cpus st3 k))"
  proof (cases rest)
    case Nil
    then show ?thesis using cpu_coreD(6) [OF c3(1)] c3(2) by (simp add: n_def st1_def)
  next
    case (Cons m rest')
    then have "m \<in> set ?q" "m \<notin> set ks" "m \<notin> set rest'" using S(2-4) by auto
    then have "m \<notin> set (sleep_queue (cpus st k)) \<union> set (dead_threads (cpus st k)) \<union> set ks \<union> set rest'" using C(4,5) by auto
    then show ?thesis using Cons c3(2) by (simp add: n_def st1_def)
  qed
  note F = finish_switch [OF c3(1) _ out, of None False time' None c]
  have "threads (fst ?f) t = threads st t" if "t \<notin> owned (cpus st k)" "t \<noteq> reaper_thread (cpus st k)" for t
  proof -
    have "t \<noteq> n" using n that by auto
    then show ?thesis using c3(3) that by (auto simp: finish_def case_prod_beta Let_def switch_to_fst)
  qed
  moreover have "\<forall>j. j \<noteq> k \<longrightarrow> cpus (fst ?f) j = cpus st j" using c3(2) by (simp add: finish_def case_prod_beta Let_def switch_to_fst st1_def)
  moreover have "owned (cpus (fst ?f) k) \<union> {n} = owned (cpus st k)" "reaper_thread (cpus (fst ?f) k) = reaper_thread (cpus st k)"
    using F(2) own c3(2) by (simp_all add: owned_def st1_def)
  ultimately show ?thesis unfolding fin using F by (intro exI [of _ "fst ?f"] exI [of _ "snd ?f"] exI [of _ n]) simp
qed

end
