(* ===== verification/Sched_Props.thy ===== *)
theory Sched_Props
  imports Sched_Switch
begin

text \<open>
  Sleeping and waking, the invariant \<open>sched_inv\<close> of all processors together with the step relation \<open>sched_step\<close> it is kept by,
  and the start of the scheduler; the properties of the scheduler with their examples.
\<close>

section \<open>Sleeping and waking\<close>

lemma sleep_insert_simps [simp]:
  "threads (sleep_insert k t st) = threads st" "procs (sleep_insert k t st) = procs st" "cpus (sleep_insert k t st) j =
     (if j = k then (cpus st k)\<lparr>sleep_queue := insert_by (until_less (threads st)) t (sleep_queue (cpus st k))\<rparr> else cpus st j)"
  by (simp_all add: sleep_insert_def)

lemma core_sleep_insert:
  assumes c: "cpu_core st k" and t: "t \<notin> set (queue (cpus st k)) \<union> set (sleep_queue (cpus st k)) \<union> set (dead_threads (cpus st k))" "t \<noteq> idle_thread (cpus st k)"
    "status (threads st t) = Sleeping"
  shows "cpu_core (sleep_insert k t st) k"
  by (rule cpu_coreI) (use cpu_coreD [OF c] t until_sorted_insert [OF cpu_coreD(10) [OF c], of t] in auto)

text \<open>
  \<open>sleep_for\<close> up to the switch to another thread. Between the two calls interrupts are off and the sleep lock
  is held; the reaper, which sets its status without \<open>prepare_sleep\<close>, is not an instance.
\<close>

definition go_to_sleep :: "nat \<Rightarrow> bool \<Rightarrow> nat \<Rightarrow> u64 \<Rightarrow> u64 \<Rightarrow> sched \<Rightarrow> sched" where
  "go_to_sleep k ints r ms now st = yield_begin k r now (prepare_sleep ints r ms st)"

lemma go_to_sleep_set:
  obtains x where "go_to_sleep k ints r ms now st = sleep_insert k r (set_thread r x st)" "status x = Sleeping"
    "sleep_until x = (if ms \<noteq> 0 then Some (now + ms * 1000000) else sleep_until (threads st r))"
  by (rule that [of "(threads st r)\<lparr>sleep_ints := ints, sleep_locked := True, status := Sleeping, sleep_for := None,
        sleep_until := (if ms \<noteq> 0 then Some (now + ms * 1000000) else sleep_until (threads st r))\<rparr>"])
    (cases "threads st r"; simp add: go_to_sleep_def yield_begin_def prepare_sleep_def Let_def)+

lemma go_to_sleep_inv:
  assumes i: "cpu_inv st k" and r: "running_thread (cpus st k) = Some r" "status (threads st r) = Running" "r \<noteq> idle_thread (cpus st k)"
  shows "cpu_inv (go_to_sleep k ints r ms now st) k"
proof -
  obtain x where x: "go_to_sleep k ints r ms now st = sleep_insert k r (set_thread r x st)" "status x = Sleeping" by (rule go_to_sleep_set)
  have c: "cpu_core st k" and ro: "running_ok st k r" using i r by (auto simp: cpu_inv_def)
  have out: "r \<notin> set (queue (cpus st k)) \<union> set (sleep_queue (cpus st k)) \<union> set (dead_threads (cpus st k))" using ro r(2) by (auto simp: running_ok_def)
  have "cpu_core (set_thread r x st) k" by (rule core_set_thread [OF c]) (use out r in auto)
  then have "cpu_core (sleep_insert k r (set_thread r x st)) k" by (rule core_sleep_insert) (use out r x in auto)
  then show ?thesis using r out x by (auto simp: cpu_inv_def running_ok_def)
qed

lemma wake_up_inv:
  assumes i: "cpu_inv st k" and t: "running_thread (cpus st k) \<noteq> Some t"
  shows "cpu_inv (fst (wake_up t reason st)) k"
proof (cases "status (threads st t) = Sleeping")
  case True
  have c: "cpu_core st k" using i by (simp add: cpu_inv_def)
  have "cpu_core (set_thread t ((threads st t)\<lparr>status := Ready, wake_reason := reason\<rparr>) st) k"
    by (rule core_set_thread [OF c]) (use True cpu_coreD(8,11) [OF c] in auto)
  then show ?thesis using i t True by (auto simp: cpu_inv_def running_ok_def wake_up_def)
qed (use i in \<open>simp add: wake_up_def\<close>)

lemma enqueue_inv:
  assumes i: "cpu_inv st k" and t: "running_thread (cpus st k) \<noteq> Some t" "t \<notin> owned (cpus st k)" "status (threads st t) = Ready"
  shows "\<exists>st'. enqueue t k st = retR st' \<and> cpu_inv st' k"
proof -
  have "cpu_core (queue_insert k t st) k" by (rule core_queue_insert) (use i t in \<open>auto simp: cpu_inv_def owned_def\<close>)
  then show ?thesis using i t by (auto simp: enqueue_def cpu_inv_def running_ok_def)
qed

section \<open>The sleeper\<close>

definition due :: "u64 \<Rightarrow> sthread \<Rightarrow> bool" where
  "due time x \<longleftrightarrow> (case sleep_until x of None \<Rightarrow> status x \<in> {Ready, Killed} | Some u \<Rightarrow> u \<le> time)"

definition reaped :: "sthread \<Rightarrow> bool" where
  "reaped x \<longleftrightarrow> sleep_until x = None \<and> status x = Killed"

lemma core_sleep_remove:
  assumes c: "cpu_core st k"
  shows "cpu_core (set_cpu k ((cpus st k)\<lparr>sleep_queue := queue_remove t (sleep_queue (cpus st k))\<rparr>) st) k"
  by (rule cpu_coreI) (use cpu_coreD [OF c] in \<open>auto simp: queue_remove_def until_sorted_def sorted_wrt_filter\<close>)

definition slept :: "u64 \<Rightarrow> nat \<Rightarrow> nat list \<Rightarrow> nat list \<Rightarrow> sched \<Rightarrow> sched \<Rightarrow> bool" where
  "slept time k kept ts st st' \<longleftrightarrow> cpu_core st' k \<and> running_thread (cpus st' k) = running_thread (cpus st k) \<and> idle_thread (cpus st' k) = idle_thread (cpus st k) \<and>
     preemption (cpus st' k) = preemption (cpus st k) \<and> reaper_thread (cpus st' k) = reaper_thread (cpus st k) \<and> (\<forall>j. j \<noteq> k \<longrightarrow> cpus st' j = cpus st j) \<and>
     (\<forall>t. t \<notin> set ts \<longrightarrow> threads st' t = threads st t) \<and>
     sleep_queue (cpus st' k) = kept @ filter (\<lambda>t. \<not> due time (threads st t)) ts \<and>
     set (queue (cpus st' k)) = set (queue (cpus st k)) \<union> {t \<in> set ts. due time (threads st t) \<and> \<not> reaped (threads st t)} \<and>
     set (dead_threads (cpus st' k)) = set (dead_threads (cpus st k)) \<union> {t \<in> set ts. reaped (threads st t)}"

lemma slept_break:
  assumes c: "cpu_core st k" and q: "sleep_queue (cpus st k) = kept @ t # ts" and u: "sleep_until (threads st t) = Some u" "time < u"
  shows "slept time k kept (t # ts) st st"
proof -
  have "\<not> due time (threads st x) \<and> \<not> reaped (threads st x)" if x: "x \<in> set (t # ts)" for x
  proof -
    have "opt_le (Some u) (sleep_until (threads st x))" using cpu_coreD(10) [OF c] x u unfolding q until_sorted_def by (auto simp: sorted_wrt_append)
    then show ?thesis using u(2) by (cases "sleep_until (threads st x)") (auto simp: due_def reaped_def)
  qed
  then show ?thesis using c q by (auto simp: slept_def filter_id_conv)
qed

lemma slept_skip:
  assumes "\<not> due time (threads st t)" "\<not> reaped (threads st t)" "slept time k (kept @ [t]) ts st st'"
  shows "slept time k kept (t # ts) st st'"
  using assms by (auto simp: slept_def)

lemma slept_move:
  assumes d: "due time (threads st t)" and t: "t \<notin> set ts"
    and st1: "running_thread (cpus st1 k) = running_thread (cpus st k)" "idle_thread (cpus st1 k) = idle_thread (cpus st k)" "preemption (cpus st1 k) = preemption (cpus st k)"
      "reaper_thread (cpus st1 k) = reaper_thread (cpus st k)" "\<And>j. j \<noteq> k \<Longrightarrow> cpus st1 j = cpus st j"
      "\<And>x. x \<noteq> t \<Longrightarrow> threads st1 x = threads st x"
      "set (queue (cpus st1 k)) = set (queue (cpus st k)) \<union> (if reaped (threads st t) then {} else {t})"
      "set (dead_threads (cpus st1 k)) = set (dead_threads (cpus st k)) \<union> (if reaped (threads st t) then {t} else {})"
    and s: "slept time k kept ts st1 st'"
  shows "slept time k kept (t # ts) st st'"
proof -
  have eq: "threads st1 x = threads st x" if "x \<in> set ts" for x using st1(6) t that by metis
  have "filter (\<lambda>x. \<not> due time (threads st1 x)) ts = filter (\<lambda>x. \<not> due time (threads st x)) ts" by (rule filter_cong) (simp_all add: eq)
  moreover have "{x \<in> set ts. due time (threads st1 x) \<and> \<not> reaped (threads st1 x)} = {x \<in> set ts. due time (threads st x) \<and> \<not> reaped (threads st x)}"
    "{x \<in> set ts. reaped (threads st1 x)} = {x \<in> set ts. reaped (threads st x)}" by (auto simp: eq)
  ultimately show ?thesis using s st1 d by (auto simp: slept_def)
qed

lemma core_wake:
  assumes c: "cpu_core st k" and t: "t \<in> set (sleep_queue (cpus st k))" and x: "status x = Ready"
  defines "st1 \<equiv> set_thread t x (set_cpu k ((cpus st k)\<lparr>sleep_queue := queue_remove t (sleep_queue (cpus st k))\<rparr>) st)"
  shows "cpu_core (queue_insert k t st1) k"
proof -
  note C = cpu_coreD [OF c]
  have out: "t \<notin> set (queue (cpus st k)) \<union> set (dead_threads (cpus st k))" "t \<noteq> idle_thread (cpus st k)" using C(5,6) t by auto
  have "cpu_core st1 k" unfolding st1_def by (rule core_set_thread [OF core_sleep_remove [OF c]]) (use out x in \<open>auto simp: queue_remove_def\<close>)
  then show ?thesis by (rule core_queue_insert) (use out x in \<open>auto simp: st1_def queue_remove_def\<close>)
qed

lemma set_thread_id: "set_thread t (threads st t) st = st"
  by (simp add: set_thread_def)

lemma sleeper_loop_ok:
  assumes "cpu_core st k" "sleep_queue (cpus st k) = kept @ ts"
  shows "\<exists>st'. sleeper_loop k time bg ts st = retR st' \<and> slept time k kept ts st st'"
  using assms
proof (induction ts arbitrary: st kept)
  case Nil
  then show ?case by (simp add: slept_def)
next
  case (Cons t ts)
  let ?x = "threads st t" and ?pc = "cpus st k"
  let ?rm = "set_cpu k (?pc\<lparr>sleep_queue := queue_remove t (sleep_queue ?pc)\<rparr>) st"
  note C = cpu_coreD [OF Cons.prems(1)]
  have d: "t \<notin> set kept" "t \<notin> set ts" using C(3) Cons.prems(2) by auto
  have "filter (\<lambda>x. x \<noteq> t) kept = kept" "filter (\<lambda>x. x \<noteq> t) ts = ts" using d by (auto simp: filter_id_conv)
  then have rm: "queue_remove t (sleep_queue ?pc) = kept @ ts" using Cons.prems(2) by (simp add: queue_remove_def)
  have tq: "t \<in> set (sleep_queue ?pc)" using Cons.prems(2) by simp
  have st: "status ?x \<in> {Sleeping, Ready, Killed}" using C(7) tq by blast
  have wake: "\<exists>st'. sleeper_loop k time bg ts (queue_insert k t (set_thread t x ?rm)) = retR st' \<and> slept time k kept (t # ts) st st'"
    if w: "status x = Ready" "due time ?x" "\<not> reaped ?x" for x
  proof -
    let ?st = "queue_insert k t (set_thread t x ?rm)"
    obtain st' where "sleeper_loop k time bg ts ?st = retR st'" "slept time k kept ts ?st st'"
      using Cons.IH [of ?st kept] core_wake [OF Cons.prems(1) tq w(1)] rm by auto
    then show ?thesis using slept_move [OF w(2) d(2), of ?st k kept st'] w(3) by auto
  qed
  consider "sleep_until ?x = None" "status ?x = Ready" | "sleep_until ?x = None" "status ?x = Killed" | "sleep_until ?x = None" "status ?x = Sleeping"
    | u where "sleep_until ?x = Some u" "time < u" | u where "sleep_until ?x = Some u" "u \<le> time" using st by (cases "sleep_until ?x") (auto simp: not_less [symmetric])
  then show ?case
  proof cases
    case 1
    then show ?thesis using wake [of ?x] set_thread_id [of t ?rm] by (simp add: due_def reaped_def)
  next
    case 2
    let ?st = "set_cpu k ((cpus ?rm k)\<lparr>dead_threads := dead_threads (cpus ?rm k) @ [t]\<rparr>) ?rm"
    have "cpu_core ?st k" by (rule core_dead_push [OF core_sleep_remove [OF Cons.prems(1)]]) (use C(5,6) tq in \<open>auto simp: queue_remove_def\<close>)
    then obtain st' where "sleeper_loop k time bg ts ?st = retR st'" "slept time k kept ts ?st st'" using Cons.IH [of ?st kept] rm by auto
    then show ?thesis using slept_move [OF _ d(2), of time st ?st k kept st'] 2 by (auto simp: due_def reaped_def)
  next
    case 3
    then show ?thesis using Cons.IH [of st "kept @ [t]"] Cons.prems slept_skip [of time st t k kept ts] by (auto simp: due_def reaped_def)
  next
    case 4
    then show ?thesis using slept_break [OF Cons.prems 4] by simp
  next
    case 5
    then show ?thesis using wake [of "?x\<lparr>sleep_until := None, status := Ready, wake_reason := 0, vruntime := vruntime (if bg = t then ?x else threads st bg)\<rparr>"]
      by (auto simp: due_def reaped_def not_less [symmetric] Let_def)
  qed
qed

lemma sleeper_pass_ok:
  assumes i: "cpu_inv st k" and r: "running_thread (cpus st k) = Some r" "status (threads st r) = Running"
  shows "\<exists>st'. sleeper_pass k time st = retR st' \<and> cpu_inv st' k \<and> slept time k [] (sleep_queue (cpus st k)) st st'"
proof -
  have c: "cpu_core st k" and ro: "running_ok st k r" using i r by (auto simp: cpu_inv_def)
  obtain st' where st': "sleeper_pass k time st = retR st'" "slept time k [] (sleep_queue (cpus st k)) st st'"
  proof (cases "sleep_queue (cpus st k)")
    case Nil
    then show ?thesis using that [of st] c by (simp add: sleeper_pass_def slept_def)
  next
    case (Cons b q)
    then show ?thesis using that sleeper_loop_ok [OF c, of "[]" "b # q" time b] by (auto simp: sleeper_pass_def simp del: sleeper_loop.simps)
  qed
  have rn: "r \<notin> set (sleep_queue (cpus st k))" "r \<notin> set (queue (cpus st k)) \<union> set (dead_threads (cpus st k))" using ro r(2) by (auto simp: running_ok_def)
  then have "threads st' r = threads st r" "running_thread (cpus st' k) = Some r" "cpu_core st' k"
    "r \<notin> set (queue (cpus st' k)) \<union> set (dead_threads (cpus st' k)) \<union> set (sleep_queue (cpus st' k))" using st'(2) r(1) by (auto simp: slept_def)
  then have "cpu_inv st' k" using r by (auto simp: cpu_inv_def running_ok_def)
  then show ?thesis using st' by blast
qed

section \<open>Several processors\<close>

definition all_threads :: "percpu \<Rightarrow> nat set" where
  "all_threads pc = owned pc \<union> set_option (running_thread pc)"

definition sched_inv :: "nat \<Rightarrow> sched \<Rightarrow> bool" where
  "sched_inv n st \<longleftrightarrow> (\<forall>k<n. cpu_inv st k \<and> reaper_thread (cpus st k) \<in> all_threads (cpus st k)) \<and>
     (\<forall>j<n. \<forall>k<n. j \<noteq> k \<longrightarrow> all_threads (cpus st j) \<inter> all_threads (cpus st k) = {})"

lemma sched_invD:
  assumes "sched_inv n st" "k < n"
  shows "cpu_inv st k" "reaper_thread (cpus st k) \<in> all_threads (cpus st k)" "j < n \<Longrightarrow> j \<noteq> k \<Longrightarrow> all_threads (cpus st j) \<inter> all_threads (cpus st k) = {}"
  using assms by (auto simp: sched_inv_def)

lemma cpu_inv_frame:
  assumes i: "cpu_inv st j" and c: "cpus st' j = cpus st j" and t: "\<And>t. t \<in> all_threads (cpus st j) \<Longrightarrow> threads st' t = threads st t"
  shows "cpu_inv st' j"
proof -
  note C = cpu_coreD [of st j]
  have i': "cpu_core st j" using i by (simp add: cpu_inv_def)
  have q: "\<And>t. t \<in> set (queue (cpus st j)) \<union> set (sleep_queue (cpus st j)) \<union> {idle_thread (cpus st j)} \<Longrightarrow> threads st' t = threads st t"
    using t by (auto simp: all_threads_def owned_def)
  have "vr_sorted (threads st') (queue (cpus st j))" "until_sorted (threads st') (sleep_queue (cpus st j))"
    using C(9,10) [OF i'] q by (simp_all cong: vr_sorted_cong until_sorted_cong)
  moreover have "\<forall>t \<in> set (sleep_queue (cpus st j)). status (threads st' t) \<in> {Sleeping, Ready, Killed}" "\<forall>t \<in> set (queue (cpus st j)). status (threads st' t) \<in> {Ready, Killed}"
    using C(7,8) [OF i'] q by simp_all
  ultimately have core: "cpu_core st' j" unfolding cpu_core_def Let_def c using C(1-6,11) [OF i'] q by simp
  have "running_ok st' j r" if "running_thread (cpus st j) = Some r" for r
    using i that t [of r] c by (auto simp: cpu_inv_def running_ok_def all_threads_def)
  then show ?thesis using core c by (simp add: cpu_inv_def)
qed

text \<open>What a processor does to its own threads, and to threads that are nowhere, keeps the invariant of all processors.\<close>

lemma sched_inv_local:
  assumes inv: "sched_inv n st" and k: "k < n" and i: "cpu_inv st' k" and N: "\<And>j. j < n \<Longrightarrow> N \<inter> all_threads (cpus st j) = {}"
    and own: "all_threads (cpus st' k) = all_threads (cpus st k) \<union> N" "reaper_thread (cpus st' k) = reaper_thread (cpus st k)"
    and fr: "\<And>j. j \<noteq> k \<Longrightarrow> cpus st' j = cpus st j" "\<And>t. t \<notin> all_threads (cpus st k) \<union> N \<Longrightarrow> threads st' t = threads st t"
  shows "sched_inv n st'"
proof -
  note D = sched_invD [OF inv]
  have "cpu_inv st' j" if j: "j < n" for j
  proof (cases "j = k")
    case False
    show ?thesis by (rule cpu_inv_frame [OF D(1) [OF j]]) (use D(3) [OF k j False] N [OF j] fr False in auto)
  qed (use i in simp)
  moreover have "reaper_thread (cpus st' j) \<in> all_threads (cpus st' j)" if "j < n" for j
    using D(2) [OF that] D(2) [OF k] own fr(1) [of j] by (cases "j = k") auto
  moreover have "all_threads (cpus st' j) \<inter> all_threads (cpus st' l) = {}" if "j < n" "l < n" "j \<noteq> l" for j l
    using D(3) [OF that(2,1,3)] D(3) [OF k, of j] D(3) [OF k, of l] N [OF that(1)] N [OF that(2)] own(1) fr(1) [of j] fr(1) [of l] that
    by (cases "j = k"; cases "l = k") auto
  ultimately show ?thesis by (simp add: sched_inv_def)
qed

text \<open>
  Whole operations one after the other. That a thread is not woken while it still runs is an assumption on the callers which
  the sleep lock alone does not give: \<open>schedule\<close> releases it before the thread is off its processor.
\<close>

inductive sched_step :: "nat \<Rightarrow> sched \<Rightarrow> sched \<Rightarrow> bool" for n where
  timer: "k < n \<Longrightarrow> schedule st k c time time' = retR (st', c') \<Longrightarrow> sched_step n st st'"
| sleep: "k < n \<Longrightarrow> running_thread (cpus st k) = Some r \<Longrightarrow> status (threads st r) = Running \<Longrightarrow> r \<noteq> idle_thread (cpus st k) \<Longrightarrow>
    sched_step n st (go_to_sleep k ints r ms now st)"
| wake: "\<forall>k<n. running_thread (cpus st k) \<noteq> Some t \<Longrightarrow> sched_step n st (fst (wake_up t reason st))"
| pass: "k < n \<Longrightarrow> running_thread (cpus st k) = Some r \<Longrightarrow> status (threads st r) = Running \<Longrightarrow> sleeper_pass k time st = retR st' \<Longrightarrow> sched_step n st st'"
| create: "\<forall>k<n. t \<notin> all_threads (cpus st k) \<Longrightarrow> sched_step n st (set_thread t x st)"
| enqueue: "k < n \<Longrightarrow> \<forall>k<n. t \<notin> all_threads (cpus st k) \<Longrightarrow> status (threads st t) = Ready \<Longrightarrow> enqueue t k st = retR st' \<Longrightarrow> sched_step n st st'"
| disable: "sched_step n st (disable k st)"
| enable: "sched_step n st (enable k st)"

lemma schedule_inv:
  assumes inv: "sched_inv n st" and k: "k < n"
  shows "\<exists>st' c'. schedule st k c time time' = retR (st', c') \<and> sched_inv n st'"
proof (cases "preemption (cpus st k) = 0")
  case True
  note D = sched_invD [OF inv k]
  show ?thesis
  proof (cases "running_thread (cpus st k)")
    case None
    obtain st' c' m where s: "schedule st k c time time' = retR (st', c')" "cpu_inv st' k" "running_thread (cpus st' k) = Some m" "owned (cpus st' k) \<union> {m} = owned (cpus st k)"
      "reaper_thread (cpus st' k) = reaper_thread (cpus st k)" "\<forall>j. j \<noteq> k \<longrightarrow> cpus st' j = cpus st j"
      "\<forall>t. t \<notin> owned (cpus st k) \<longrightarrow> t \<noteq> reaper_thread (cpus st k) \<longrightarrow> threads st' t = threads st t"
      using schedule_first [OF D(1) True None] by blast
    have "sched_inv n st'" by (rule sched_inv_local [OF inv k s(2), of "{}"]) (use s(3-7) D(2) None in \<open>auto simp: all_threads_def\<close>)
    then show ?thesis using s(1) by blast
  next
    case (Some r)
    obtain st' c' m where s: "schedule st k c time time' = retR (st', c')" "cpu_inv st' k" "running_thread (cpus st' k) = Some m"
      "insert m (owned (cpus st' k)) = insert r (owned (cpus st k))" "reaper_thread (cpus st' k) = reaper_thread (cpus st k)" "\<forall>j. j \<noteq> k \<longrightarrow> cpus st' j = cpus st j"
      "\<forall>t. t \<notin> insert r (owned (cpus st k)) \<longrightarrow> t \<noteq> reaper_thread (cpus st k) \<longrightarrow> threads st' t = threads st t"
      using schedule_ok [OF D(1) True Some] by blast
    have "sched_inv n st'" by (rule sched_inv_local [OF inv k s(2), of "{}"]) (use s(3-7) D(2) Some in \<open>auto simp: all_threads_def\<close>)
    then show ?thesis using s(1) by blast
  qed
next
  case False
  then show ?thesis using inv by (simp add: schedule_def word_neq_0_conv)
qed

lemma all_threads_sleep: "all_threads (cpus (go_to_sleep k ints r ms now st) k) = insert r (all_threads (cpus st k))"
proof -
  obtain x where x: "go_to_sleep k ints r ms now st = sleep_insert k r (set_thread r x st)" "status x = Sleeping" by (rule go_to_sleep_set)
  then show ?thesis by (auto simp: all_threads_def owned_def)
qed

lemma sched_inv_preemption:
  assumes "sched_inv n st"
  shows "sched_inv n (set_cpu k ((cpus st k)\<lparr>preemption := x\<rparr>) st)"
proof -
  have "cpu_inv (set_cpu k ((cpus st k)\<lparr>preemption := x\<rparr>) st) j" if "cpu_inv st j" for j
    using that by (cases "j = k") (simp_all add: cpu_inv_def cpu_core_def running_ok_def Let_def)
  then show ?thesis using assms by (auto simp: sched_inv_def all_threads_def owned_def)
qed

lemma sched_step_inv:
  assumes "sched_step n st st'" "sched_inv n st"
  shows "sched_inv n st'"
  using assms
proof cases
  case (timer k c time time' c')
  then show ?thesis using schedule_inv [OF assms(2) timer(1), of c time time'] by auto
next
  case (sleep k r ints ms now)
  obtain x where x: "go_to_sleep k ints r ms now st = sleep_insert k r (set_thread r x st)" by (rule go_to_sleep_set)
  have "cpu_inv st' k" unfolding sleep(1) by (rule go_to_sleep_inv) (use sleep sched_invD(1) [OF assms(2)] in auto)
  then show ?thesis by (rule sched_inv_local [OF assms(2) sleep(2), of _ "{}"])
      (use sleep x all_threads_sleep [of k ints r ms now st] in \<open>auto simp: all_threads_def\<close>)
next
  case (wake t reason)
  have "cpus st' = cpus st" using wake by (simp add: wake_up_def)
  moreover have "cpu_inv st' k" if "k < n" for k unfolding wake(1) by (rule wake_up_inv) (use wake sched_invD(1) [OF assms(2)] that in auto)
  ultimately show ?thesis using assms(2) by (simp add: sched_inv_def)
next
  case (pass k r time)
  have s: "cpu_inv st' k" "slept time k [] (sleep_queue (cpus st k)) st st'" using sleeper_pass_ok [OF sched_invD(1) [OF assms(2) pass(1)] pass(2,3), of time] pass(4) by auto
  have "all_threads (cpus st' k) = all_threads (cpus st k)"
    using s(2) by (auto simp: slept_def all_threads_def owned_def due_def reaped_def)
  then show ?thesis by (intro sched_inv_local [OF assms(2) pass(1) s(1), of "{}"]) (use s(2) in \<open>auto simp: slept_def all_threads_def owned_def\<close>)
next
  case (create t x)
  have "cpu_inv st' k" if "k < n" for k unfolding create(1)
    by (rule cpu_inv_frame [OF sched_invD(1) [OF assms(2) that]]) (use create(2) that in auto)
  then show ?thesis using assms(2) create by (simp add: sched_inv_def)
next
  case (enqueue k t)
  have st': "st' = queue_insert k t st" using enqueue by (simp add: enqueue_def)
  have out: "running_thread (cpus st k) \<noteq> Some t" "t \<notin> owned (cpus st k)" using enqueue(1,2) by (auto simp: all_threads_def)
  have "cpu_inv st' k" using enqueue_inv [OF sched_invD(1) [OF assms(2) enqueue(1)] out enqueue(3)] enqueue(4) by auto
  then show ?thesis by (rule sched_inv_local [OF assms(2) enqueue(1), of _ "{t}"]) (use enqueue(2) st' in \<open>auto simp: all_threads_def owned_def\<close>)
next
  case (disable k)
  then show ?thesis using sched_inv_preemption [OF assms(2)] assms(2) by (simp add: disable_def)
next
  case (enable k)
  then show ?thesis using sched_inv_preemption [OF assms(2)] assms(2) by (simp add: enable_def)
qed

section \<open>The start\<close>

text \<open>
  Before the first interrupt: the processors of \<open>D\<close> have their idle thread, those of \<open>R\<close> their reaper; what waits
  in a run queue is ready and made before \<open>next_thread\<close>.
\<close>

definition placed :: "nat set \<Rightarrow> sched \<Rightarrow> nat \<Rightarrow> nat set" where
  "placed D st k = set (queue (cpus st k)) \<union> (if k \<in> D then {idle_thread (cpus st k)} else {})"

definition half_cpu :: "nat set \<Rightarrow> nat set \<Rightarrow> sched \<Rightarrow> nat \<Rightarrow> bool" where
  "half_cpu D R st k \<longleftrightarrow>
     (let pc = cpus st k; th = threads st
      in running_thread pc = None \<and> sleep_queue pc = [] \<and> dead_threads pc = [] \<and> distinct (queue pc) \<and> (\<forall>t \<in> set (queue pc). status (th t) = Ready) \<and>
         vr_sorted th (queue pc) \<and> (k \<in> D \<longrightarrow> status (th (idle_thread pc)) = Ready \<and> idle_thread pc \<notin> set (queue pc)) \<and>
         (k \<in> R \<longrightarrow> reaper_thread pc \<in> set (queue pc)) \<and> placed D st k \<subseteq> {..<next_thread st})"

definition half_inv :: "nat set \<Rightarrow> nat set \<Rightarrow> nat \<Rightarrow> sched \<Rightarrow> bool" where
  "half_inv D R n st \<longleftrightarrow> map_of (processes st) 0 \<noteq> None \<and> (\<forall>k<n. half_cpu D R st k) \<and> (\<forall>j<n. \<forall>k<n. j \<noteq> k \<longrightarrow> placed D st j \<inter> placed D st k = {})"

lemma half_frame:
  assumes h: "half_cpu D R st j" and c: "cpus st' j = cpus st j" and t: "\<And>t. t < next_thread st \<Longrightarrow> threads st' t = threads st t" "next_thread st \<le> next_thread st'"
    and D: "j \<in> D' \<longleftrightarrow> j \<in> D" "j \<in> R' \<longleftrightarrow> j \<in> R"
  shows "half_cpu D' R' st' j" "placed D' st' j = placed D st j"
proof -
  show h': "placed D' st' j = placed D st j" using c D by (simp add: placed_def)
  have sub: "placed D st j \<subseteq> {..<next_thread st}" using h by (simp add: half_cpu_def Let_def)
  then have th: "\<And>t. t \<in> placed D st j \<Longrightarrow> threads st' t = threads st t" using t(1) by auto
  then have q: "\<And>t. t \<in> set (queue (cpus st j)) \<Longrightarrow> threads st' t = threads st t" "j \<in> D \<Longrightarrow> threads st' (idle_thread (cpus st j)) = threads st (idle_thread (cpus st j))"
    by (auto simp: placed_def)
  have "vr_sorted (threads st') (queue (cpus st j)) = vr_sorted (threads st) (queue (cpus st j))" using q(1) by (simp cong: vr_sorted_cong)
  moreover have "placed D st j \<subseteq> {..<next_thread st'}" using sub t(2) by auto
  ultimately show "half_cpu D' R' st' j" using h h' q c D unfolding half_cpu_def Let_def by simp
qed

lemma half_inv_local:
  assumes h: "half_inv D R n st" and k: "k < n" "half_cpu D' R' st' k" "placed D' st' k \<subseteq> insert (next_thread st) (placed D st k)"
    and fr: "processes st' = processes st" "\<And>j. j \<noteq> k \<Longrightarrow> cpus st' j = cpus st j" "\<And>t. t < next_thread st \<Longrightarrow> threads st' t = threads st t" "next_thread st \<le> next_thread st'"
    and D: "\<And>j. j \<noteq> k \<Longrightarrow> (j \<in> D' \<longleftrightarrow> j \<in> D) \<and> (j \<in> R' \<longleftrightarrow> j \<in> R)"
  shows "half_inv D' R' n st'"
proof -
  have c: "half_cpu D R st j" if "j < n" for j using h that by (simp add: half_inv_def)
  have o: "half_cpu D' R' st' j \<and> placed D' st' j = placed D st j" if "j < n" "j \<noteq> k" for j
    using half_frame [OF c [OF that(1)] fr(2) [OF that(2)] fr(3,4), of D' R'] D [OF that(2)] by simp
  have less: "placed D st j \<subseteq> {..<next_thread st}" if "j < n" for j using c [OF that] by (simp add: half_cpu_def Let_def)
  have dis: "placed D st j \<inter> placed D st l = {}" if "j < n" "l < n" "j \<noteq> l" for j l using h that by (simp add: half_inv_def)
  have "placed D' st' j \<inter> placed D' st' l = {}" if jl: "j < n" "l < n" "j \<noteq> l" for j l
    using dis [OF jl] less [OF jl(1)] less [OF jl(2)] o [OF jl(1)] o [OF jl(2)] k(3) jl by (cases "j = k"; cases "l = k") auto
  moreover have "half_cpu D' R' st' j" if "j < n" for j using o [OF that] k(2) by (cases "j = k") auto
  ultimately show ?thesis using h fr(1) by (simp add: half_inv_def)
qed

lemma set_proc_simps [simp]:
  "threads (set_proc p pr st) = threads st" "cpus (set_proc p pr st) = cpus st" "processes (set_proc p pr st) = processes st" "next_thread (set_proc p pr st) = next_thread st"
  "cpu_count (set_proc p pr st) = cpu_count st"
  by (simp_all add: set_proc_def)

lemma set_thread_more [simp]:
  "processes (set_thread t x st) = processes st" "next_thread (set_thread t x st) = next_thread st" "cpu_count (set_thread t x st) = cpu_count st"
  "processes (set_cpu k y st) = processes st" "next_thread (set_cpu k y st) = next_thread st" "cpu_count (set_cpu k y st) = cpu_count st"
  "processes (queue_insert k t st) = processes st" "next_thread (queue_insert k t st) = next_thread st" "cpu_count (queue_insert k t st) = cpu_count st"
  by (simp_all add: set_thread_def set_cpu_def queue_insert_def)

text \<open>What a state with one more thread has in common with the state before.\<close>

definition one_more :: "nat \<Rightarrow> sthread \<Rightarrow> sched \<Rightarrow> sched \<Rightarrow> bool" where
  "one_more k x st st' \<longleftrightarrow> threads st' = (threads st)(next_thread st := x) \<and> next_thread st' = next_thread st + 1 \<and> processes st' = processes st \<and> cpu_count st' = cpu_count st \<and>
     (\<forall>j. j \<noteq> k \<longrightarrow> cpus st' j = cpus st j)"

lemma create_kernel_thread:
  obtains x st' where "thread_create p ip False ks 0 st = retR (st', next_thread st)" "one_more k x st st'" "cpus st' = cpus st"
  using that unfolding thread_create_def Let_def by (simp add: one_more_def)

lemma start_idle_set:
  obtains x st' where "start_idle v ip kst k st = retR st'" "one_more k x st st'" "status x = Ready"
    "cpus st' k = (cpus st k)\<lparr>idle_proc := next_proc st, idle_thread := next_thread st\<rparr>"
proof -
  define pr where "pr = \<lparr>pid = - 1, pgid = 0, sid = 0, has_execved = False, pparent = None, pchildren = [], pthreads = [], next_tid = 1,
                next_stack_top = 0x7FFFFFFFF000, vmspace = v\<rparr>"
  let ?st = "set_proc (next_proc st) pr (st\<lparr>next_proc := next_proc st + 1\<rparr>)"
  obtain x st1 where c: "thread_create (next_proc st) ip False (kst (next_thread ?st)) 0 ?st = retR (st1, next_thread ?st)" "one_more k x ?st st1" "cpus st1 = cpus ?st"
    by (rule create_kernel_thread)
  show ?thesis
    by (rule that [of "set_cpu k ((cpus st1 k)\<lparr>idle_proc := next_proc st, idle_thread := next_thread st\<rparr>) (set_thread (next_thread st) ((threads st1 (next_thread st))\<lparr>status := Ready\<rparr>) st1)" "x\<lparr>status := Ready\<rparr>"])
      (use c in \<open>simp_all add: start_idle_def Let_def one_more_def flip: pr_def\<close>)
qed

lemma spawn_on_set:
  assumes "map_of (processes st) pd \<noteq> None" "nice_ok prio"
  obtains x st' where "spawn_on k pd ip prio ks st = retR (st', next_thread st)" "one_more k x st st'" "status x = Ready"
    "cpus st' k = (cpus st k)\<lparr>queue := insert_by (vr_less (threads st')) (next_thread st) (queue (cpus st k))\<rparr>"
proof -
  obtain p where p: "map_of (processes st) pd = Some p" using assms(1) by auto
  obtain x st1 where c: "thread_create p ip False ks 0 st = retR (st1, next_thread st)" "one_more k x st st1" "cpus st1 = cpus st" by (rule create_kernel_thread)
  show ?thesis
    by (rule that [of "queue_insert k (next_thread st) (set_thread (next_thread st) ((threads st1 (next_thread st))\<lparr>priority := prio, status := Ready\<rparr>) st1)" "x\<lparr>priority := prio, status := Ready\<rparr>"])
      (use c p assms(2) in \<open>simp_all add: spawn_on_def Let_def one_more_def enqueue_def\<close>)
qed

lemma one_more_half:
  assumes h: "half_inv D R n st" and k: "k < n" and o: "one_more k x st st'" "half_cpu D' R' st' k" "placed D' st' k \<subseteq> insert (next_thread st) (placed D st k)"
    and D: "\<And>j. j \<noteq> k \<Longrightarrow> (j \<in> D' \<longleftrightarrow> j \<in> D) \<and> (j \<in> R' \<longleftrightarrow> j \<in> R)"
  shows "half_inv D' R' n st' \<and> cpu_count st' = cpu_count st"
  using half_inv_local [OF h k o(2,3) _ _ _ _ D] o(1) by (auto simp: one_more_def)

lemma half_cpuD:
  assumes "half_inv D R n st" "k < n"
  shows "half_cpu D R st k" "next_thread st \<notin> set (queue (cpus st k))" "k \<in> D \<Longrightarrow> idle_thread (cpus st k) \<noteq> next_thread st"
    "vr_sorted (threads st) (queue (cpus st k))" "placed D st k \<subseteq> {..<next_thread st}"
  using assms by (auto simp: half_inv_def half_cpu_def Let_def placed_def)

lemma vr_sorted_fresh: "t \<notin> set q \<Longrightarrow> vr_sorted (th(t := x)) q = vr_sorted th q"
  by (rule vr_sorted_cong) auto

lemma start_idle_ok:
  assumes h: "half_inv D R n st" and k: "k < n"
  shows "\<exists>st'. start_idle v ip kst k st = retR st' \<and> half_inv (insert k D) R n st' \<and> cpu_count st' = cpu_count st"
proof -
  obtain x st' where s: "start_idle v ip kst k st = retR st'" "one_more k x st st'" "status x = Ready" "cpus st' k = (cpus st k)\<lparr>idle_proc := next_proc st, idle_thread := next_thread st\<rparr>"
    by (rule start_idle_set)
  note H = half_cpuD [OF h k]
  have placed: "placed (insert k D) st' k \<subseteq> insert (next_thread st) (placed D st k)" using s(4) by (auto simp: placed_def)
  have "half_cpu (insert k D) R st' k"
    using H s(2-4) vr_sorted_fresh [OF H(2), of "threads st" x] placed unfolding half_cpu_def Let_def one_more_def by (auto simp: placed_def)
  then show ?thesis using one_more_half [OF h k s(2) _ placed] s(1) by auto
qed

lemma spawn_on_ok:
  assumes h: "half_inv D R n st" and k: "k < n" and p: "nice_ok prio"
  obtains st' where "spawn_on k 0 ip prio ks st = retR (st', next_thread st)" "half_inv D R n st'" "cpu_count st' = cpu_count st" "next_thread st \<in> set (queue (cpus st' k))"
proof -
  have pr: "map_of (processes st) 0 \<noteq> None" using h by (simp add: half_inv_def)
  obtain x st' where s: "spawn_on k 0 ip prio ks st = retR (st', next_thread st)" "one_more k x st st'" "status x = Ready"
    "cpus st' k = (cpus st k)\<lparr>queue := insert_by (vr_less (threads st')) (next_thread st) (queue (cpus st k))\<rparr>" by (rule spawn_on_set [OF pr p])
  note H = half_cpuD [OF h k]
  have placed: "placed D st' k \<subseteq> insert (next_thread st) (placed D st k)" using s(4) by (auto simp: placed_def)
  have "vr_sorted (threads st') (queue (cpus st k))" using vr_sorted_fresh [OF H(2), of "threads st" x] H(4) s(2) by (simp add: one_more_def)
  then have "vr_sorted (threads st') (queue (cpus st' k))" using s(4) vr_sorted_insert by simp
  then have "half_cpu D R st' k"
    using H s(2-4) placed unfolding half_cpu_def Let_def one_more_def by (auto simp: placed_def)
  then show ?thesis using that one_more_half [OF h k s(2) _ placed] s(1,4) by auto
qed

lemma start_idles_ok:
  "half_inv D R n st \<Longrightarrow> set ks \<subseteq> {..<n} \<Longrightarrow>
   \<exists>st'. start_idles v ip kst ks st = retR st' \<and> half_inv (D \<union> set ks) R n st' \<and> cpu_count st' = cpu_count st"
proof (induction ks arbitrary: st D)
  case (Cons k ks)
  then obtain st1 where "start_idle v ip kst k st = retR st1" "half_inv (insert k D) R n st1" "cpu_count st1 = cpu_count st"
    using start_idle_ok [OF Cons.prems(1), of k v ip kst] by auto
  then show ?case using Cons.IH [of "insert k D" st1] Cons.prems(2) by auto
qed simp

lemma half_inv_reaper:
  assumes h: "half_inv D R n st" and t: "t \<in> set (queue (cpus st k))"
  shows "half_inv D (insert k R) n (set_cpu k ((cpus st k)\<lparr>reaper_thread := t\<rparr>) st)"
proof -
  have w: "placed D (set_cpu k ((cpus st k)\<lparr>reaper_thread := t\<rparr>) st) j = placed D st j" for j by (simp add: placed_def)
  have "half_cpu D (insert k R) (set_cpu k ((cpus st k)\<lparr>reaper_thread := t\<rparr>) st) j" if "half_cpu D R st j" for j
    using that t w [of j] unfolding half_cpu_def Let_def by (cases "j = k") simp_all
  then show ?thesis using h w by (simp add: half_inv_def)
qed

lemma half_inv_initialised [simp]: "half_inv D R n (st\<lparr>initialised := b\<rparr>) = half_inv D R n st"
proof -
  have w: "placed D (st\<lparr>initialised := b\<rparr>) = placed D st" by (simp add: placed_def fun_eq_iff)
  then have "half_cpu D R (st\<lparr>initialised := b\<rparr>) = half_cpu D R st" by (simp add: half_cpu_def fun_eq_iff Let_def)
  then show ?thesis using w by (simp add: half_inv_def)
qed

lemma start_workers_ok:
  "half_inv D R n st \<Longrightarrow> set ks \<subseteq> {..<n} \<Longrightarrow> \<exists>st'. start_workers rp sp kst ks st = retR st' \<and> half_inv D (R \<union> set ks) n st'"
proof (induction ks arbitrary: st R)
  case Nil
  then show ?case by simp
next
  case (Cons k ks)
  have k: "k < n" using Cons.prems(2) by simp
  obtain st1 where 1: "spawn_on k 0 rp 19 (kst (next_thread st)) st = retR (st1, next_thread st)" "half_inv D R n st1" "next_thread st \<in> set (queue (cpus st1 k))"
    by (rule spawn_on_ok [OF Cons.prems(1) k, of 19 rp "kst (next_thread st)"]) (simp add: nice_ok_def)
  let ?st = "set_cpu k ((cpus st1 k)\<lparr>reaper_thread := next_thread st\<rparr>) st1"
  have 2: "half_inv D (insert k R) n ?st" by (rule half_inv_reaper [OF 1(2,3)])
  obtain st2 where "spawn_on k 0 sp (- 5) (kst (next_thread ?st)) ?st = retR (st2, next_thread ?st)" "half_inv D (insert k R) n st2"
    by (rule spawn_on_ok [OF 2 k, of "- 5" sp "kst (next_thread ?st)"]) (simp add: nice_ok_def)
  then show ?case using Cons.IH [of "insert k R" st2] Cons.prems(2) 1(1) by (simp add: Let_def)
qed

lemma half_inv_sched_inv:
  assumes "half_inv {..<n} {..<n} n st"
  shows "sched_inv n st"
proof -
  have "cpu_inv st k \<and> reaper_thread (cpus st k) \<in> all_threads (cpus st k) \<and> all_threads (cpus st k) = placed {..<n} st k" if k: "k < n" for k
  proof -
    have h: "half_cpu {..<n} {..<n} st k" using assms k by (simp add: half_inv_def)
    then have "cpu_core st k" using k by (intro cpu_coreI) (auto simp: half_cpu_def Let_def until_sorted_def)
    then show ?thesis using h k by (auto simp: half_cpu_def Let_def cpu_inv_def all_threads_def owned_def placed_def)
  qed
  then show ?thesis using assms unfolding sched_inv_def half_inv_def by metis
qed

lemma sched_start_ok:
  assumes "half_inv {} {} (cpu_count st) st"
  shows "\<exists>st'. sched_start v ip rp sp kst st = retR st' \<and> sched_inv (cpu_count st) st'"
proof -
  let ?n = "cpu_count st"
  obtain st1 where 1: "start_idles v ip kst [0..<?n] st = retR st1" "half_inv {..<?n} {} ?n st1" "cpu_count st1 = ?n"
    using start_idles_ok [OF assms, of "[0..<?n]" v ip kst] by (auto simp: atLeast0LessThan)
  obtain st2 where "start_workers rp sp kst [0..<?n] st1 = retR st2" "half_inv {..<?n} {..<?n} ?n st2"
    using start_workers_ok [OF 1(2), of "[0..<?n]" rp sp kst] by (auto simp: atLeast0LessThan)
  then show ?thesis using 1 half_inv_sched_inv by (auto simp: sched_start_def)
qed

lemma sched_steps_inv: "(sched_step n)\<^sup>*\<^sup>* st st' \<Longrightarrow> sched_inv n st \<Longrightarrow> sched_inv n st'"
  by (induction rule: rtranclp_induct) (auto intro: sched_step_inv)

section \<open>Properties\<close>

text \<open>
  The operations of the scheduler one after the other never panic. When \<open>start\<close> runs on a machine whose process 0 exists and whose run
  queues hold only distinct ready threads in order, it brings every processor into a state in which each thread is in one
  place, and after any sequence of the steps of \<open>sched_step\<close> the next call of \<open>schedule\<close> returns and leaves the invariant intact.
  In that relation a call of \<open>schedule\<close> is one step and so is going to sleep, and a thread that still runs is not woken. The
  code does not ensure this: \<open>schedule\<close> releases the sleep lock before it reads the status again, which
  \<open>wake_during_schedule_queues_twice\<close> shows to end with a thread in two queues.
\<close>

theorem scheduler_runs:
  assumes "half_inv {} {} (cpu_count st) st"
  shows "\<exists>st0. sched_start v idle_ip reaper_ip sleeper_ip kst st = retR st0 \<and>
    (\<forall>st' k c time time'. (sched_step (cpu_count st))\<^sup>*\<^sup>* st0 st' \<and> k < cpu_count st \<longrightarrow>
      sched_inv (cpu_count st) st' \<and> (\<exists>st'' c'. schedule st' k c time time' = retR (st'', c') \<and> sched_inv (cpu_count st) st''))"
proof -
  obtain st0 where st0: "sched_start v idle_ip reaper_ip sleeper_ip kst st = retR st0" "sched_inv (cpu_count st) st0" using sched_start_ok [OF assms] by blast
  then show ?thesis using sched_steps_inv [OF _ st0(2)] schedule_inv by blast
qed

lemma scan_queue_subset:
  assumes "\<forall>t \<in> set q. status (th t) \<in> {Ready, Killed}"
  obtains n q' d where "scan_queue th q = retR (n, q', d)" "set q' \<subseteq> set q" "\<And>t. n = Some t \<Longrightarrow> t \<in> set q"
proof -
  have "\<exists>n q' d. scan_queue th q = retR (n, q', d) \<and> set q' \<subseteq> set q \<and> (\<forall>t. n = Some t \<longrightarrow> t \<in> set q)"
    using assms by (induction q) fastforce+
  then show ?thesis using that by blast
qed

lemma release_asleep:
  assumes "status (threads st r) = Sleeping"
  obtains x where "release_current r time next st = (set_thread r x st, next)" "status x = Sleeping" "\<not> sleep_locked x"
  by (rule that [of "charge time ((threads st r)\<lparr>sleep_locked := False\<rparr>)"]) (use assms in \<open>simp_all add: release_current_def charge_def Let_def\<close>)

lemma requeue_current_asleep:
  assumes "status (threads st r) = Sleeping" "next \<noteq> Some r"
  obtains x where "requeue_current r k c next st = retR (set_thread r x st)" "status x = Sleeping"
proof -
  obtain x where "sched_save r c st = set_thread r x st" "status x = status (threads st r)" by (rule sched_save_set)
  then show ?thesis using that [of x] assms by (simp add: requeue_current_def)
qed

lemma requeue_current_ready:
  assumes "status (threads st r) = Ready" "next \<noteq> Some r"
  obtains x where "requeue_current r k c next st = retR (queue_insert k r (set_thread r x st))" "status x = Ready"
proof -
  obtain x where "sched_save r c st = set_thread r x st" "status x = status (threads st r)" by (rule sched_save_set)
  then show ?thesis using that [of x] assms by (simp add: requeue_current_def enqueue_def)
qed

text \<open>
  Property C33. A wake-up during \<open>schedule\<close> puts a thread into two queues. The running thread \<open>r\<close> of a processor goes to sleep, and \<open>schedule\<close>
  scans the run queue and releases the sleep lock of \<open>r\<close>, which is still asleep. If nobody wakes it, it is then in the
  sleep queue and not in the run queue. But the lock is free, so \<open>wake_up\<close> on another processor can take it and succeeds; the status that
  \<open>schedule\<close> reads afterwards is ready, and it inserts \<open>r\<close> into the run queue while it is still in the sleep queue.
  The two trees share the links of the thread.
\<close>

theorem wake_during_schedule_queues_twice:
  assumes "cpu_inv st k" "running_thread (cpus st k) = Some r" "status (threads st r) = Running" "r \<noteq> idle_thread (cpus st k)"
  shows "\<exists>s0 next q dead s1 s2 s3 s4 s4'. s0 = go_to_sleep k ints r ms now st \<and>
    scan_queue (threads s0) (queue (cpus s0 k)) = retR (next, q, dead) \<and>
    s1 = set_cpu k ((cpus s0 k)\<lparr>queue := q, dead_threads := dead_threads (cpus s0 k) @ dead\<rparr>) s0 \<and>
    release_current r time next s1 = (s2, next) \<and> \<not> sleep_locked (threads s2 r) \<and>
    requeue_current r k c next s2 = retR s4' \<and> r \<notin> set (queue (cpus s4' k)) \<and> r \<in> set (sleep_queue (cpus s4' k)) \<and>
    wake_up r reason s2 = (s3, True) \<and>
    requeue_current r k c next s3 = retR s4 \<and> r \<in> set (queue (cpus s4 k)) \<and> r \<in> set (sleep_queue (cpus s4 k))"
proof -
  let ?s0 = "go_to_sleep k ints r ms now st"
  obtain x where x: "?s0 = sleep_insert k r (set_thread r x st)" "status x = Sleeping" by (rule go_to_sleep_set)
  have c: "cpu_core ?s0 k" and ro: "running_ok st k r" using go_to_sleep_inv [OF assms] assms(1,2) by (auto simp: cpu_inv_def)
  have out: "r \<notin> set (queue (cpus st k))" using ro assms(3) by (auto simp: running_ok_def)
  obtain nx q dead where sc: "scan_queue (threads ?s0) (queue (cpus ?s0 k)) = retR (nx, q, dead)"
    and nx: "set q \<subseteq> set (queue (cpus ?s0 k))" "\<And>t. nx = Some t \<Longrightarrow> t \<in> set (queue (cpus ?s0 k))"
    by (rule scan_queue_subset) (use cpu_coreD(8) [OF c] in auto)
  then have nr: "nx \<noteq> Some r" "r \<notin> set q" using out x(1) by auto
  let ?s1 = "set_cpu k ((cpus ?s0 k)\<lparr>queue := q, dead_threads := dead_threads (cpus ?s0 k) @ dead\<rparr>) ?s0"
  have s1: "status (threads ?s1 r) = Sleeping" "r \<in> set (sleep_queue (cpus ?s1 k))" using x by simp_all
  obtain y where y: "release_current r time nx ?s1 = (set_thread r y ?s1, nx)" "status y = Sleeping" "\<not> sleep_locked y" by (rule release_asleep [OF s1(1)])
  let ?s2 = "set_thread r y ?s1" and ?s3 = "set_thread r (y\<lparr>status := Ready, wake_reason := reason\<rparr>) (set_thread r y ?s1)"
  have w: "wake_up r reason ?s2 = (?s3, True)" using y by (simp add: wake_up_def)
  obtain z where z: "requeue_current r k c nx ?s2 = retR (set_thread r z ?s2)"
    by (rule requeue_current_asleep [of ?s2 r nx k c]) (use y nr(1) in auto)
  obtain z' where z': "requeue_current r k c nx ?s3 = retR (queue_insert k r (set_thread r z' ?s3))"
    by (rule requeue_current_ready [of ?s3 r nx k c]) (use nr(1) in auto)
  have "r \<notin> set (queue (cpus (set_thread r z ?s2) k))" "r \<in> set (sleep_queue (cpus (set_thread r z ?s2) k))"
    "r \<in> set (queue (cpus (queue_insert k r (set_thread r z' ?s3)) k))" "r \<in> set (sleep_queue (cpus (queue_insert k r (set_thread r z' ?s3)) k))"
    using s1(2) nr(2) by auto
  moreover have "\<not> sleep_locked (threads ?s2 r)" using y(3) by simp
  ultimately show ?thesis using sc y(1) z w z' by blast
qed

text \<open>
  Property C30. What \<open>schedule\<close> chooses, under the invariant of the processor and with preemption on: a ready thread of the
  run queue with the least virtual time, if there is one; otherwise the current thread, if it is running, and the idle thread if not.
  It returns, keeps the invariant, and loses no thread: the running thread and the queues together hold
  the same threads as before.
\<close>

theorem schedule_picks_least_vruntime:
  assumes "cpu_inv st k" "preemption (cpus st k) = 0" "running_thread (cpus st k) = Some r"
  shows "\<exists>st' c' n. schedule st k c time time' = retR (st', c') \<and> cpu_inv st' k \<and> running_thread (cpus st' k) = Some n \<and> picks st k r n \<and>
    insert n (owned (cpus st' k)) = insert r (owned (cpus st k))"
  using schedule_ok [OF assms] by blast

text \<open>
  Property C31. A context switch saves and restores. When \<open>schedule\<close> replaces the thread \<open>r\<close>, which is not killed, by \<open>n\<close>, the registers
  of the interrupted code and, for a user thread, its user context are those stored in \<open>r\<close>, and what \<open>n\<close> has stored
  is loaded, for a user thread with its user context and its kernel stack; the address space is switched if the
  processes have different numbers.
\<close>

theorem context_switch:
  assumes "cpu_inv st k" "preemption (cpus st k) = 0" "running_thread (cpus st k) = Some r" "status (threads st r) \<noteq> Killed"
    "schedule st k c time time' = retR (st', c')" "running_thread (cpus st' k) = Some n" "n \<noteq> r"
  shows "regs (threads st' r) = cregs c \<and> (is_user (threads st r) \<longrightarrow> user_ctx (threads st' r) = cuser c) \<and>
    cregs c' = regs (threads st n) \<and> cthread c' = Some n \<and> (is_user (threads st n) \<longrightarrow> cuser c' = user_ctx (threads st n) \<and> crsp0 c' = kstack_top (threads st n)) \<and>
    (pid (procs st (tparent (threads st n))) \<noteq> pid (procs st (tparent (threads st r))) \<longrightarrow> cpmap c' = Some (tparent (threads st n)))"
  by (rule schedule_context [OF assms])

text \<open>
  Property C32. Sleeping threads wake when they are due, and only then. A pass of the sleeper returns, keeps the invariant,
  and moves exactly the threads that are due out of the sleep queue: those whose time has come, and of those without a
  time the ones that were woken, go to the run queue, where they are ready or killed; killed ones without a time go to the dead.
\<close>

theorem sleeper_wakes_due_threads:
  assumes "cpu_inv st k" "running_thread (cpus st k) = Some r" "status (threads st r) = Running"
  shows "\<exists>st'. sleeper_pass k time st = retR st' \<and> cpu_inv st' k \<and>
    sleep_queue (cpus st' k) = filter (\<lambda>t. \<not> due time (threads st t)) (sleep_queue (cpus st k)) \<and>
    set (queue (cpus st' k)) = set (queue (cpus st k)) \<union> {t \<in> set (sleep_queue (cpus st k)). due time (threads st t) \<and> \<not> reaped (threads st t)} \<and>
    set (dead_threads (cpus st' k)) = set (dead_threads (cpus st k)) \<union> {t \<in> set (sleep_queue (cpus st k)). reaped (threads st t)}"
  using sleeper_pass_ok [OF assms, of time] by (auto simp: slept_def)

text \<open>A thread that sleeps with a timeout and is woken before stays in the sleep queue until the timeout.\<close>

lemma woken_timed_sleeper_waits:
  assumes "cpu_inv st k" "running_thread (cpus st k) = Some r" "status (threads st r) = Running"
    and "t \<in> set (sleep_queue (cpus st k))" "sleep_until (threads st t) = Some u" "time < u"
  shows "\<exists>st'. sleeper_pass k time (fst (wake_up t reason st)) = retR st' \<and> t \<in> set (sleep_queue (cpus st' k)) \<and> t \<notin> set (queue (cpus st' k))"
proof -
  let ?w = "fst (wake_up t reason st)"
  have tr: "t \<noteq> r" using assms(1-4) by (auto simp: cpu_inv_def running_ok_def)
  have w: "cpu_inv ?w k" "cpus ?w = cpus st" "threads ?w r = threads st r" "sleep_until (threads ?w t) = Some u"
    using wake_up_inv [OF assms(1), of t reason] assms(2,5) tr by (auto simp: wake_up_def)
  obtain st' where s: "sleeper_pass k time ?w = retR st'" "slept time k [] (sleep_queue (cpus st k)) ?w st'"
    using sleeper_pass_ok [OF w(1), of r time] assms(2,3) w by auto
  have "t \<notin> set (queue (cpus st k))" using assms(1,4) cpu_coreD(5) [of st k] by (auto simp: cpu_inv_def)
  then show ?thesis using s assms(4,6) w by (auto simp: slept_def due_def)
qed

section \<open>Examples\<close>

definition sample_thread :: sthread where
  "sample_thread = \<lparr>tid = 1, tparent = 0, status = Ready, is_user = False, priority = 0, vruntime = 0, schedule_time = 0,
     sleep_locked = False, sleep_ints = False, wake_reason = 0, sleep_for = None, sleep_until = None,
     kstack_top = 0, ustack_top = 0, ustack_obj = None,
     regs = \<lparr>rip = 0, rsp = 0, rflags = 0, cs = 0, ss = 0, gprs = []\<rparr>, user_ctx = 0, running_on = None\<rparr>"

definition sample_cpu :: percpu where
  "sample_cpu = \<lparr>queue = [], running_thread = None, sleep_queue = [], idle_proc = 0, idle_thread = 0, reaper_thread = 0,
     dead_threads = [], preemption = 0, in_scheduler = False\<rparr>"

text \<open>Two processors just before \<open>start\<close>, the first with one thread.\<close>

definition sample_boot :: "vms \<Rightarrow> sched" where
  "sample_boot v =
     \<lparr>threads = (\<lambda>_. sample_thread), next_thread = 1,
      procs = (\<lambda>_. \<lparr>pid = 0, pgid = 0, sid = 0, has_execved = False, pparent = None, pchildren = [], pthreads = [], next_tid = 2, next_stack_top = 0x7FFFFFFFF000, vmspace = v\<rparr>),
      next_proc = 1, next_pid = 1, processes = [(0, 0)], groups = [], sessions = [],
      cpus = (\<lambda>k. if k = 0 then sample_cpu\<lparr>queue := [0]\<rparr> else sample_cpu), cpu_count = 2, initialised = False\<rparr>"

text \<open>A processor that runs thread 1, with threads 2 and 3 in the run queue, 4 asleep until 5, and 0 idle.\<close>

definition sample_running :: "vms \<Rightarrow> sched" where
  "sample_running v = (sample_boot v)\<lparr>next_thread := 5,
      threads := (\<lambda>_. sample_thread)(1 := sample_thread\<lparr>status := Running\<rparr>, 2 := sample_thread\<lparr>vruntime := 3, regs := \<lparr>rip = 7, rsp = 0, rflags = 0, cs = 0, ss = 0, gprs = []\<rparr>\<rparr>,
        3 := sample_thread\<lparr>vruntime := 5\<rparr>, 4 := sample_thread\<lparr>status := Sleeping, sleep_until := Some 5\<rparr>),
      cpus := (\<lambda>k. sample_cpu\<lparr>queue := [2, 3], running_thread := Some 1, sleep_queue := [4]\<rparr>)\<rparr>"

lemma sample_boot_half: "half_inv {} {} 2 (sample_boot v)"
  by (simp add: half_inv_def half_cpu_def placed_def sample_boot_def sample_cpu_def sample_thread_def vr_sorted_def Let_def)

lemma sample_running_inv: "cpu_inv (sample_running v) 0"
  by (simp add: cpu_inv_def cpu_core_def running_ok_def sample_running_def sample_boot_def sample_cpu_def sample_thread_def vr_sorted_def until_sorted_def Let_def)

lemma sample_running_simps:
  "preemption (cpus (sample_running v) 0) = 0" "running_thread (cpus (sample_running v) 0) = Some 1" "status (threads (sample_running v) 1) = Running"
  "picks (sample_running v) 0 1 n \<longleftrightarrow> n = 2" "regs (threads (sample_running v) 2) = \<lparr>rip = 7, rsp = 0, rflags = 0, cs = 0, ss = 0, gprs = []\<rparr>"
  "sleep_queue (cpus (sample_running v) 0) = [4]" "queue (cpus (sample_running v) 0) = [2, 3]" "due 9 (threads (sample_running v) 4)" "\<not> reaped (threads (sample_running v) 4)"
  by (auto simp: sample_running_def sample_boot_def sample_cpu_def sample_thread_def picks_def Let_def due_def reaped_def)

theorem wake_during_schedule_queues_twice_witness:
  "\<forall>v c. \<exists>s4. 1 \<in> set (queue (cpus s4 0)) \<and> 1 \<in> set (sleep_queue (cpus s4 0)) \<and>
    (\<exists>next q dead s2 s3. let s0 = go_to_sleep 0 True 1 5 10 (sample_running v) in
      scan_queue (threads s0) (queue (cpus s0 0)) = retR (next, q, dead) \<and>
      release_current 1 11 next (set_cpu 0 ((cpus s0 0)\<lparr>queue := q, dead_threads := dead_threads (cpus s0 0) @ dead\<rparr>) s0) = (s2, next) \<and>
      wake_up 1 0 s2 = (s3, True) \<and> requeue_current 1 0 c next s3 = retR s4)"
proof (intro allI)
  fix v c
  have "(1::nat) \<noteq> idle_thread (cpus (sample_running v) 0)" by (simp add: sample_running_def sample_cpu_def)
  then show "\<exists>s4. 1 \<in> set (queue (cpus s4 0)) \<and> 1 \<in> set (sleep_queue (cpus s4 0)) \<and>
    (\<exists>next q dead s2 s3. let s0 = go_to_sleep 0 True 1 5 10 (sample_running v) in
      scan_queue (threads s0) (queue (cpus s0 0)) = retR (next, q, dead) \<and>
      release_current 1 11 next (set_cpu 0 ((cpus s0 0)\<lparr>queue := q, dead_threads := dead_threads (cpus s0 0) @ dead\<rparr>) s0) = (s2, next) \<and>
      wake_up 1 0 s2 = (s3, True) \<and> requeue_current 1 0 c next s3 = retR s4)"
    using wake_during_schedule_queues_twice [OF sample_running_inv sample_running_simps(2,3), of v True 5 10 11 c 0] unfolding Let_def by blast
qed

theorem schedule_picks_least_vruntime_witness:
  "\<forall>v c. \<exists>st' c'. schedule (sample_running v) 0 c 10 11 = retR (st', c') \<and> running_thread (cpus st' 0) = Some 2"
  using schedule_picks_least_vruntime [OF sample_running_inv sample_running_simps(1,2)] by (metis sample_running_simps(4))

theorem context_switch_witness:
  "\<forall>v c. \<exists>st' c'. schedule (sample_running v) 0 c 10 11 = retR (st', c') \<and> regs (threads st' 1) = cregs c \<and> rip (cregs c') = 7"
proof (intro allI)
  fix v c
  obtain st' c' n where s: "schedule (sample_running v) 0 c 10 11 = retR (st', c')" "running_thread (cpus st' 0) = Some n" "picks (sample_running v) 0 1 n"
    using schedule_ok [OF sample_running_inv sample_running_simps(1,2)] by blast
  have "n = 2" using s(3) sample_running_simps(4) by blast
  then show "\<exists>st' c'. schedule (sample_running v) 0 c 10 11 = retR (st', c') \<and> regs (threads st' 1) = cregs c \<and> rip (cregs c') = 7"
    using context_switch [OF sample_running_inv sample_running_simps(1,2) _ s(1,2)] s(1) by (simp add: sample_running_simps del: One_nat_def)
qed

theorem sleeper_wakes_due_threads_witness:
  "\<forall>v. \<exists>st'. sleeper_pass 0 9 (sample_running v) = retR st' \<and> sleep_queue (cpus st' 0) = [] \<and> set (queue (cpus st' 0)) = {2, 3, 4}"
proof
  fix v
  show "\<exists>st'. sleeper_pass 0 9 (sample_running v) = retR st' \<and> sleep_queue (cpus st' 0) = [] \<and> set (queue (cpus st' 0)) = {2, 3, 4}"
    using sleeper_wakes_due_threads [OF sample_running_inv sample_running_simps(2,3), of 9] sample_running_simps(6-9) [of v] by fastforce
qed

end
