(* ===== verification/Processes.thy ===== *)
theory Processes
  imports Sched_Props
begin

text \<open>
  Processes, groups and sessions: the processes and groups that can exist, what \<open>setpgid\<close> does with them, and the
  stacks of user threads in the address space of their process.
\<close>

section \<open>Process groups\<close>

text \<open>
  The processes the kernel can make: all but process 0 are members of one group, number 1, of session 1.
\<close>

definition proc_wf :: "sched \<Rightarrow> bool" where
  "proc_wf st \<longleftrightarrow> 0 \<le> next_pid st \<and>
     (\<forall>pd p. map_of (processes st) pd = Some p \<longrightarrow> 0 \<le> pd \<and> pd < next_pid st \<and> p < next_proc st \<and> pid (procs st p) = pd \<and> pgid (procs st p) = min 1 pd \<and> sid (procs st p) = min 1 pd) \<and>
     (\<forall>pd p c. map_of (processes st) pd = Some p \<longrightarrow> map_of (pchildren (procs st p)) c \<noteq> None \<longrightarrow> 0 \<le> c) \<and>
     (\<forall>pg g. map_of (groups st) pg = Some g \<longrightarrow> pg = 1 \<and> gsid g = 1) \<and>
     (\<forall>pd p g. map_of (processes st) pd = Some p \<longrightarrow> 1 \<le> pd \<longrightarrow> map_of (groups st) 1 = Some g \<longrightarrow> map_of (gmembers g) pd = Some p) \<and>
     (\<forall>pd p g. map_of (groups st) 1 = Some g \<longrightarrow> map_of (gmembers g) pd = Some p \<longrightarrow> pd < next_pid st)"

lemma proc_wfD:
  assumes "proc_wf st"
  shows "0 \<le> next_pid st" "map_of (processes st) pd = Some p \<Longrightarrow> 0 \<le> pd \<and> pd < next_pid st \<and> p < next_proc st \<and> pid (procs st p) = pd \<and> pgid (procs st p) = min 1 pd \<and> sid (procs st p) = min 1 pd"
    "map_of (groups st) pg = Some g \<Longrightarrow> pg = 1 \<and> gsid g = 1"
    "map_of (processes st) pd = Some p \<Longrightarrow> 1 \<le> pd \<Longrightarrow> map_of (groups st) 1 = Some g \<Longrightarrow> map_of (gmembers g) pd = Some p"
    "map_of (processes st) pd = Some p \<Longrightarrow> map_of (pchildren (procs st p)) c \<noteq> None \<Longrightarrow> 0 \<le> c"
    "map_of (groups st) 1 = Some g \<Longrightarrow> map_of (gmembers g) pd = Some p \<Longrightarrow> pd < next_pid st"
  using assms unfolding proc_wf_def by blast+

lemma setpgid_fails:
  assumes wf: "proc_wf st" and t: "map_of (processes st) (pid (procs st (tparent (threads st t)))) = Some (tparent (threads st t))"
  shows "\<exists>e. setpgid k t pd pg st = retR (st, Inl e)"
proof (cases "pg < 0")
  case False
  let ?pr = "procs st (tparent (threads st t))"
  let ?pd = "if pd = 0 then pid ?pr else pd"
  show ?thesis
  proof (cases "proc_for k ?pd st")
    case None
    then show ?thesis using False by (simp add: setpgid_def Let_def)
  next
    case (Some p)
    note W = proc_wfD [OF wf]
    have "pid ?pr \<ge> 0" using W(2) [OF t] by simp
    show ?thesis
    proof (cases "?pd = - 1")
      case True
      then have "pd = - 1" using \<open>pid ?pr \<ge> 0\<close> by (simp split: if_splits)
      moreover have "map_of (pchildren ?pr) (- 1) = None" using W(5) [OF t, of "- 1"] by force
      ultimately show ?thesis using False Some \<open>pid ?pr \<ge> 0\<close> by (simp add: setpgid_def Let_def)
    next
      case F: False
      then have p: "map_of (processes st) ?pd = Some p" using Some by (simp add: proc_for_def split: if_splits)
      have e: "(\<exists>e. change_group p g st = retR (st, False)) \<and> g = 1" if "map_of (groups st) g = Some gr" "gsid gr = sid (procs st p)" for g gr
      proof -
        have "g = 1" "gsid gr = 1" using W(3) [OF that(1)] by simp_all
        then have "1 \<le> ?pd" using W(2) [OF p] that(2) by (simp add: min_def split: if_splits)
        then have "map_of (gmembers gr) ?pd = Some p" using W(4) [OF p] that(1) \<open>g = 1\<close> by simp
        then show ?thesis using that(1) W(2) [OF p] \<open>g = 1\<close> by (simp add: change_group_def Let_def)
      qed
      show ?thesis using False Some e by (auto simp: setpgid_def Let_def split: option.splits)
    qed
  qed
qed (simp add: setpgid_def)

lemma map_of_put_assoc [simp]: "map_of (put_assoc k v xs) = (map_of xs)(k \<mapsto> v)"
proof
  fix j
  have "map_of (filter (\<lambda>x. fst x \<noteq> k) xs) j = (if j = k then None else map_of xs j)" by (induction xs) auto
  then show "map_of (put_assoc k v xs) j = ((map_of xs)(k \<mapsto> v)) j" by (simp add: put_assoc_def)
qed

lemma proc_wf_new:
  assumes wf: "proc_wf st"
    and n: "next_pid st' = next_pid st + 1" "next_proc st' = next_proc st + 1" "map_of (processes st') = (map_of (processes st))(next_pid st \<mapsto> next_proc st)"
    and old: "\<And>x. x < next_proc st \<Longrightarrow> pid (procs st' x) = pid (procs st x) \<and> pgid (procs st' x) = pgid (procs st x) \<and> sid (procs st' x) = sid (procs st x)"
      "\<And>x c. x < next_proc st \<Longrightarrow> map_of (pchildren (procs st' x)) c \<noteq> None \<Longrightarrow> map_of (pchildren (procs st x)) c \<noteq> None \<or> 0 \<le> c"
    and new: "pid (procs st' (next_proc st)) = next_pid st" "pgid (procs st' (next_proc st)) = min 1 (next_pid st)" "sid (procs st' (next_proc st)) = min 1 (next_pid st)"
      "pchildren (procs st' (next_proc st)) = []"
    and g: "\<And>pg gr. map_of (groups st') pg = Some gr \<Longrightarrow> pg = 1 \<and> gsid gr = 1"
      "\<And>gr pd. map_of (groups st') 1 = Some gr \<Longrightarrow> map_of (gmembers gr) pd \<noteq> None \<Longrightarrow> pd \<le> next_pid st"
      "\<And>gr pd p. map_of (groups st') 1 = Some gr \<Longrightarrow> 1 \<le> pd \<Longrightarrow> pd < next_pid st \<Longrightarrow> map_of (processes st) pd = Some p \<Longrightarrow> map_of (gmembers gr) pd = Some p"
      "\<And>gr. map_of (groups st') 1 = Some gr \<Longrightarrow> 1 \<le> next_pid st \<Longrightarrow> map_of (gmembers gr) (next_pid st) = Some (next_proc st)"
  shows "proc_wf st'"
proof -
  note W = proc_wfD [OF wf]
  have reg: "pd = next_pid st \<and> p = next_proc st \<or> pd \<noteq> next_pid st \<and> map_of (processes st) pd = Some p" if "map_of (processes st') pd = Some p" for pd p
    using that n(3) by (auto split: if_splits)
  have 1: "0 \<le> pd \<and> pd < next_pid st' \<and> p < next_proc st' \<and> pid (procs st' p) = pd \<and> pgid (procs st' p) = min 1 pd \<and> sid (procs st' p) = min 1 pd" if "map_of (processes st') pd = Some p" for pd p
    using reg [OF that] W(1) W(2) [of pd p] old(1) [of p] new n(1,2) by auto
  have 2: "0 \<le> c" if "map_of (processes st') pd = Some p" "map_of (pchildren (procs st' p)) c \<noteq> None" for pd p c
    using reg [OF that(1)] that(2) W(2) [of pd p] W(5) [of pd p c] old(2) [of p c] new(4) by auto
  have 3: "map_of (gmembers gr) pd = Some p" if "map_of (processes st') pd = Some p" "1 \<le> pd" "map_of (groups st') 1 = Some gr" for pd p gr
    using reg [OF that(1)] that W(2) [of pd p] g(3) [OF that(3), of pd p] g(4) [OF that(3)] by auto
  have 4: "pd < next_pid st'" if "map_of (groups st') 1 = Some gr" "map_of (gmembers gr) pd = Some p" for gr pd p
    using g(2) [OF that(1), of pd] that(2) n(1) by auto
  show ?thesis unfolding proc_wf_def using 1 2 3 4 g(1) W(1) n(1) by (intro conjI allI impI) (blast | simp)+
qed

lemma set_proc_more [simp]:
  "procs (set_proc p pr st) = (procs st)(p := pr)" "groups (set_proc p pr st) = groups st" "next_pid (set_proc p pr st) = next_pid st" "next_proc (set_proc p pr st) = next_proc st"
  "procs (set_group g gr st) = procs st" "map_of (groups (set_group g gr st)) = (map_of (groups st))(g \<mapsto> gr)" "next_pid (set_group g gr st) = next_pid st"
  "next_proc (set_group g gr st) = next_proc st" "processes (set_group g gr st) = processes st"
  by (simp_all add: set_proc_def set_group_def)

text \<open>A state with one more process, which is in no group yet, and what linking it to its parent keeps.\<close>

definition one_more_proc :: "sched \<Rightarrow> sched \<Rightarrow> bool" where
  "one_more_proc st st' \<longleftrightarrow> next_pid st' = next_pid st + 1 \<and> next_proc st' = next_proc st + 1 \<and> map_of (processes st') = (map_of (processes st))(next_pid st \<mapsto> next_proc st) \<and>
     (\<forall>x < next_proc st. procs st' x = procs st x) \<and> pid (procs st' (next_proc st)) = next_pid st \<and> pchildren (procs st' (next_proc st)) = []"

lemma adopt_wf:
  assumes wf: "proc_wf st" and o: "one_more_proc st st1" and q: "\<And>q. parent = Some q \<Longrightarrow> q < next_proc st"
    and new: "pgid (procs st1 (next_proc st)) = min 1 (next_pid st)" "sid (procs st1 (next_proc st)) = min 1 (next_pid st)"
    and g: "\<And>pg gr. map_of (groups st1) pg = Some gr \<Longrightarrow> pg = 1 \<and> gsid gr = 1"
      "\<And>gr pd. map_of (groups st1) 1 = Some gr \<Longrightarrow> map_of (gmembers gr) pd \<noteq> None \<Longrightarrow> pd \<le> next_pid st"
      "\<And>gr pd p. map_of (groups st1) 1 = Some gr \<Longrightarrow> 1 \<le> pd \<Longrightarrow> pd < next_pid st \<Longrightarrow> map_of (processes st) pd = Some p \<Longrightarrow> map_of (gmembers gr) pd = Some p"
      "\<And>gr. map_of (groups st1) 1 = Some gr \<Longrightarrow> 1 \<le> next_pid st \<Longrightarrow> map_of (gmembers gr) (next_pid st) = Some (next_proc st)"
  shows "proc_wf (adopt parent (next_proc st) st1)"
proof -
  let ?st = "adopt parent (next_proc st) st1"
  have gr: "groups ?st = groups st1" by (cases parent) (simp_all add: adopt_def Let_def)
  show ?thesis
  proof (rule proc_wf_new [OF wf])
    show "next_pid ?st = next_pid st + 1" "next_proc ?st = next_proc st + 1" "map_of (processes ?st) = (map_of (processes st))(next_pid st \<mapsto> next_proc st)"
      using o by (cases parent; simp add: adopt_def Let_def one_more_proc_def)+
    show "pid (procs ?st x) = pid (procs st x) \<and> pgid (procs ?st x) = pgid (procs st x) \<and> sid (procs ?st x) = sid (procs st x)" if "x < next_proc st" for x
      using o that by (cases parent) (auto simp: adopt_def Let_def one_more_proc_def)
    show "map_of (pchildren (procs st x)) c \<noteq> None \<or> 0 \<le> c" if "x < next_proc st" "map_of (pchildren (procs ?st x)) c \<noteq> None" for x c
      using o that proc_wfD(1) [OF wf] by (cases parent) (auto simp: adopt_def Let_def one_more_proc_def split: if_splits)
    show "pid (procs ?st (next_proc st)) = next_pid st" "pgid (procs ?st (next_proc st)) = min 1 (next_pid st)" "sid (procs ?st (next_proc st)) = min 1 (next_pid st)" "pchildren (procs ?st (next_proc st)) = []"
      using o new q by (cases parent; auto simp: adopt_def Let_def one_more_proc_def)+
  qed (use g gr in auto)
qed

lemma process_create_wf:
  assumes wf: "proc_wf st" and q: "\<And>q. parent = Some q \<Longrightarrow> \<exists>pq. map_of (processes st) pq = Some q" and c: "process_create parent v st = retR (st', p)"
  shows "proc_wf st'"
proof -
  note W = proc_wfD [OF wf]
  let ?p = "next_proc st" and ?pd = "next_pid st"
  have qn: "q < ?p" if "parent = Some q" for q using q [OF that] W(2) by blast
  define st0 where "st0 = set_proc ?p \<lparr>pid = ?pd, pgid = 0, sid = 0, has_execved = False, pparent = None, pchildren = [], pthreads = [], next_tid = 1,
                next_stack_top = 0x7FFFFFFFF000, vmspace = v\<rparr> (st\<lparr>next_proc := ?p + 1, next_pid := ?pd + 1, processes := put_assoc ?pd ?p (processes st)\<rparr>)"
  have 0: "one_more_proc st st0" "groups st0 = groups st" "pid (procs st0 ?p) = ?pd" "pgid (procs st0 ?p) = 0" "sid (procs st0 ?p) = 0"
    by (simp_all add: st0_def one_more_proc_def)
  obtain st1 where st1: "join_group parent ?p st0 = retR st1" "st' = adopt parent ?p st1"
    using c by (auto simp: process_create_def alloc_pid_def Let_def bindR_retR_iff st0_def)
  have mem: "pd \<le> ?pd" if "map_of (groups st) 1 = Some gr" "map_of (gmembers gr) pd \<noteq> None" for gr pd using W(6) [OF that(1)] that(2) by force
  consider "?pd = 0" | "?pd = 1" | "2 \<le> ?pd" using W(1) by linarith
  then show ?thesis unfolding st1(2)
  proof cases
    case 1
    then have "st1 = st0" using st1(1) 0 by (simp add: join_group_def)
    then have s: "one_more_proc st st1" "pgid (procs st1 ?p) = min 1 ?pd" "sid (procs st1 ?p) = min 1 ?pd" "groups st1 = groups st" using 0 1 by simp_all
    show "proc_wf (adopt parent ?p st1)"
    proof (rule adopt_wf [OF wf s(1) qn s(2,3)])
      show "pg = 1 \<and> gsid gr = 1" if "map_of (groups st1) pg = Some gr" for pg gr by (rule W(3)) (use that s(4) in simp)
      show "pd \<le> ?pd" if "map_of (groups st1) 1 = Some gr" "map_of (gmembers gr) pd \<noteq> None" for gr pd by (rule mem) (use that s(4) in simp_all)
    qed (use 1 in simp_all)
  next
    case 2
    then have n: "parent = None" using st1(1) 0 by (auto simp: join_group_def Let_def split: if_splits)
    then have s: "procs st1 = (procs st0)(?p := (procs st0 ?p)\<lparr>pgid := 1, sid := 1\<rparr>)" "map_of (groups st1) = (map_of (groups st))(1 \<mapsto> \<lparr>gsid = 1, gmembers = [(1, ?p)]\<rparr>)"
      "processes st1 = processes st0" "next_pid st1 = next_pid st0" "next_proc st1 = next_proc st0"
      using st1(1) 0 2 by (auto simp: join_group_def Let_def create_group_def create_session_def)
    have o: "one_more_proc st st1" using s 0(1) by (auto simp: one_more_proc_def)
    show "proc_wf (adopt parent ?p st1)"
    proof (rule adopt_wf [OF wf o qn])
      show "pg = 1 \<and> gsid gr = 1" if "map_of (groups st1) pg = Some gr" for pg gr using that s(2) W(3) [of pg gr] by (cases "pg = 1") auto
    qed (use s(1,2) 2 in \<open>auto split: if_splits\<close>)
  next
    case 3
    then obtain q where p: "parent = Some q" using st1(1) 0 by (cases parent) (auto simp: join_group_def Let_def)
    then obtain pq where pq: "map_of (processes st) pq = Some q" using q by blast
    have qs: "procs st0 q = procs st q" using 0(1) qn [OF p] by (simp add: one_more_proc_def)
    obtain gr where g: "map_of (groups st) (pgid (procs st q)) = Some gr" using st1(1) 0 3 p qs by (auto simp: join_group_def Let_def split: option.splits)
    have pg: "pgid (procs st q) = 1" "sid (procs st q) = 1" "gsid gr = 1" using W(3) [OF g] W(2) [OF pq] by auto
    have s: "procs st1 = (procs st0)(?p := (procs st0 ?p)\<lparr>pgid := 1, sid := 1\<rparr>)" "map_of (groups st1) = (map_of (groups st))(1 \<mapsto> gr\<lparr>gmembers := put_assoc ?pd ?p (gmembers gr)\<rparr>)"
      "processes st1 = processes st0" "next_pid st1 = next_pid st0" "next_proc st1 = next_proc st0"
      using st1(1) 0 3 p qs g pg by (auto simp: join_group_def Let_def split: if_splits)
    have o: "one_more_proc st st1" using s 0(1) by (auto simp: one_more_proc_def)
    have old: "map_of (gmembers gr) pd = Some p" if "1 \<le> pd" "map_of (processes st) pd = Some p" for pd p using W(4) [OF that(2,1)] g pg(1) by simp
    have m: "map_of (gmembers gr) pd \<noteq> None \<Longrightarrow> pd \<le> ?pd" for pd using mem g pg(1) by simp
    show "proc_wf (adopt parent ?p st1)"
    proof (rule adopt_wf [OF wf o qn])
      show "pg = 1 \<and> gsid gr' = 1" if "map_of (groups st1) pg = Some gr'" for pg gr' using that s(2) W(3) [of pg gr'] pg(3) by (cases "pg = 1") auto
      show "map_of (gmembers gr') pd = Some p'" if "map_of (groups st1) 1 = Some gr'" "1 \<le> pd" "pd < ?pd" "map_of (processes st) pd = Some p'" for gr' pd p'
        using that s(2) old by auto
    qed (use s(1,2) 3 m in \<open>auto split: if_splits\<close>)
  qed
qed

text \<open>What processes can do: be created, by a process that exists or as the first ones, and call \<open>setpgid\<close>.\<close>

definition caller_ok :: "nat \<Rightarrow> sched \<Rightarrow> bool" where
  "caller_ok t st \<longleftrightarrow> map_of (processes st) (pid (procs st (tparent (threads st t)))) = Some (tparent (threads st t))"

inductive proc_step :: "sched \<Rightarrow> sched \<Rightarrow> bool" where
  process: "(\<And>q. parent = Some q \<Longrightarrow> \<exists>pq. map_of (processes st) pq = Some q) \<Longrightarrow> process_create parent v st = retR (st', p) \<Longrightarrow> proc_step st st'"
| setpgid: "caller_ok t st \<Longrightarrow> setpgid k t pd pg st = retR (st', r) \<Longrightarrow> proc_step st st'"

lemma proc_steps_wf: "proc_step\<^sup>*\<^sup>* st st' \<Longrightarrow> proc_wf st \<Longrightarrow> proc_wf st'"
proof (induction rule: rtranclp_induct)
  case (step st1 st2)
  from step(2) step(3) [OF step(4)] show ?case
  proof cases
    case process
    then show ?thesis using process_create_wf step by blast
  next
    case (setpgid t k pd pg r)
    then show ?thesis using setpgid_fails [of st1 t k pd pg] step by (auto simp: caller_ok_def)
  qed
qed

text \<open>
  Property C35. \<open>setpgid\<close> never succeeds. From a machine without processes, however processes are created and \<open>setpgid\<close> is called, every call of
  \<open>setpgid\<close> by a thread of a registered process fails and changes nothing: no call makes a new group, so group 1 of session 1
  is the only one, and every process but process 0 is in it already.
\<close>

theorem setpgid_never_succeeds:
  assumes "processes st = []" "groups st = []" "next_pid st = 0" "proc_step\<^sup>*\<^sup>* st st'" "caller_ok t st'"
  shows "\<exists>e. setpgid k t pd pg st' = retR (st', Inl e)"
proof -
  have "proc_wf st" using assms by (simp add: proc_wf_def)
  then show ?thesis using setpgid_fails proc_steps_wf assms(4,5) by (simp add: caller_ok_def)
qed

definition sample_empty :: "vms \<Rightarrow> sched" where
  "sample_empty v = (sample_boot v)\<lparr>processes := [], next_pid := 0, next_proc := 0\<rparr>"

lemma sample_process: "\<exists>st'. process_create None v (sample_empty v) = retR (st', 0) \<and> caller_ok 0 st'"
  by (simp add: process_create_def alloc_pid_def sample_empty_def sample_boot_def sample_thread_def join_group_def adopt_def caller_ok_def Let_def set_proc_def)

theorem setpgid_never_succeeds_witness:
  "\<forall>v. \<exists>st'. process_create None v (sample_empty v) = retR (st', 0) \<and> (\<exists>e. setpgid 0 0 0 0 st' = retR (st', Inl e))"
proof
  fix v
  obtain st' where s: "process_create None v (sample_empty v) = retR (st', 0)" "caller_ok 0 st'" using sample_process by blast
  have "proc_step (sample_empty v) st'" using s(1) by (intro proc_step.process [of None]) auto
  then have "proc_step\<^sup>*\<^sup>* (sample_empty v) st'" by blast
  then show "\<exists>st'. process_create None v (sample_empty v) = retR (st', 0) \<and> (\<exists>e. setpgid 0 0 0 0 st' = retR (st', Inl e))"
    using setpgid_never_succeeds [of "sample_empty v" st' 0 0 0 0] s by (auto simp: sample_empty_def sample_boot_def)
qed

section \<open>User stacks\<close>

text \<open>Mapping an object leaves no other mapping of it behind than the new one.\<close>

lemma set_emplace [simp]: "set (emplace m xs) = insert m (set xs)"
  by (induction xs) auto

lemma tree_pmap_unmap: "pmap_unmap st addr sz = retR st' \<Longrightarrow> tree st' = tree st"
  by (auto simp: pmap_unmap_def bindR_retR_iff split: option.splits prod.splits)

lemma tree_release: "release st obs = retR st' \<Longrightarrow> tree st' = tree st"
  by (induction obs arbitrary: st) (auto simp: bindR_retR_iff memobject_destroy_def set_pages_def split: if_splits)

lemma map_entry_objs:
  assumes "map_entry s e m st = retR (st', r)" "obj m \<noteq> ob" "\<forall>x \<in> set (tree st). obj x \<noteq> ob"
  shows "\<forall>x \<in> set (tree st'). obj x \<noteq> ob"
proof -
  have "set (tree st') \<subseteq> set (tree st) \<union> {x. obj x = obj m}"
    using assms(1) by (auto simp: map_entry_def Let_def bindR_retR_iff put_mapping_def erase_def split: if_splits dest!: tree_pmap_unmap)
  then show ?thesis using assms(2,3) by auto
qed

lemma map_entries_objs:
  "map_entries s e ms st = retR (st', r) \<Longrightarrow> \<forall>m \<in> set ms. obj m \<noteq> ob \<Longrightarrow> \<forall>x \<in> set (tree st). obj x \<noteq> ob \<Longrightarrow> \<forall>x \<in> set (tree st'). obj x \<noteq> ob"
proof (induction ms arbitrary: st)
  case (Cons m ms)
  from Cons.prems(1) obtain st1 r1 where 1: "map_entry s e m st = retR (st1, r1)"
    "(case r1 of Some er \<Rightarrow> retR (st1, Some er) | None \<Rightarrow> map_entries s e ms st1) = retR (st', r)" by (auto simp: bindR_retR_iff)
  have "\<forall>x \<in> set (tree st1). obj x \<noteq> ob" by (rule map_entry_objs [OF 1(1)]) (use Cons.prems in auto)
  then show ?case using 1(2) Cons.IH [of st1] Cons.prems(2) by (cases r1) auto
qed auto

lemma map_only_mapping:
  assumes "vmspace_map st a len pr fl (Some ob) off = retR (st', None)" "\<forall>x \<in> set (tree st). obj x \<noteq> ob"
  obtains m where "m \<in> set (tree st')" "obj m = ob" "\<And>x. x \<in> set (tree st') \<Longrightarrow> obj x = ob \<Longrightarrow> mflags x = fl"
proof -
  let ?s = "a div default_page_size" and ?e = "div_roundup (a + len) default_page_size"
  let ?o = "filter (overlaps ?s ?e) (tree st)"
  let ?m = "\<lparr>startp = ?s, endp = ?e, obj = ob, offsetp = off div default_page_size, prot = pr, mflags = fl\<rparr>"
  obtain st1 where 1: "map_entries ?s ?e ?o st = retR (st1, None)" "release (put_mapping ?m st1) (map obj ?o) = retR st'"
    using assms(1) by (auto simp: vmspace_map_def Let_def bindR_retR_iff split: if_splits option.splits)
  have "\<forall>x \<in> set (tree st1). obj x \<noteq> ob" by (rule map_entries_objs [OF 1(1)]) (use assms(2) in auto)
  moreover have t: "set (tree st') = insert ?m (set (tree st1))" using tree_release [OF 1(2)] by (simp add: put_mapping_def)
  ultimately have "x = ?m" if "x \<in> set (tree st')" "obj x = ob" for x using that by blast
  then have "mflags x = fl" if "x \<in> set (tree st')" "obj x = ob" for x using that by (metis mapping.select_convs(6))
  then show ?thesis using that [of ?m] t by simp
qed

lemma tree_new_memobject: "tree (fst (new_memobject v)) = tree v" "snd (new_memobject v) = next_object v"
  by (simp_all add: new_memobject_def)

text \<open>
  Property C34. A user thread cannot be destroyed. Its stack is mapped as untouchable, so that the destructor's call of \<open>unmap\<close> leaves the mapping
  in place, and the assertion that a reference to the stack is gone fails: destroying a user thread just created panics.
\<close>

theorem destroying_user_thread_panics:
  assumes "\<forall>m \<in> set (tree (vmspace (procs st p))). obj m \<noteq> next_object (vmspace (procs st p))"
    and "thread_create p ip True kstack ctx st = retR (st', t)"
  shows "thread_destroy t st' = failR (Panic_msg ''thread: the stack is still mapped'')"
proof -
  let ?v = "vmspace (procs st p)"
  let ?ob = "next_object ?v"
  obtain v' where m: "vmspace_map (fst (new_memobject ?v)) (next_stack_top (procs st p) - ustack_size) ustack_size (prot_read OR prot_write) (fl_private OR fl_untouchable) (Some ?ob) 0 = retR (v', None)"
    and st': "vmspace (procs st' p) = v'" "is_user (threads st' t)" "ustack_obj (threads st' t) = Some ?ob" "tparent (threads st' t) = p"
    using assms(2) by (auto simp: thread_create_def Let_def bindR_retR_iff finalise_def new_memobject_def set_proc_def set_thread_def split: if_splits)
  obtain m where "m \<in> set (tree v')" "obj m = ?ob" and only: "\<And>x. x \<in> set (tree v') \<Longrightarrow> obj x = ?ob \<Longrightarrow> mflags x = fl_private OR fl_untouchable"
    by (rule map_only_mapping [OF m]) (use assms(1) in \<open>auto simp: tree_new_memobject\<close>)
  then have u: "use_count v' ?ob \<noteq> 0" by (auto simp: use_count_def filter_empty_conv)
  have "filter (\<lambda>m. obj m = ?ob \<and> \<not> untouchable m) (tree v') = []" using only by (auto simp: filter_empty_conv untouchable_def)
  then show ?thesis using u st' by (simp add: thread_destroy_def Let_def vmspace_unmap_obj_def)
qed

text \<open>The example has a process with nothing mapped.\<close>

lemma sample_user_thread:
  "\<exists>st'. thread_create 0 0x400000 True 0x1000 0 (sample_boot (v\<lparr>tree := []\<rparr>)) = retR (st', 1)"
  by (simp add: thread_create_def sample_boot_def new_memobject_def vmspace_map_def Let_def default_page_size_def kib_def put_mapping_def)

theorem destroying_user_thread_panics_witness:
  "\<forall>v. \<exists>st'. thread_create 0 0x400000 True 0x1000 0 (sample_boot (v\<lparr>tree := []\<rparr>)) = retR (st', 1) \<and> thread_destroy 1 st' = failR (Panic_msg ''thread: the stack is still mapped'')"
proof
  fix v
  obtain st' where s: "thread_create 0 0x400000 True 0x1000 0 (sample_boot (v\<lparr>tree := []\<rparr>)) = retR (st', 1)" using sample_user_thread by blast
  show "\<exists>st'. thread_create 0 0x400000 True 0x1000 0 (sample_boot (v\<lparr>tree := []\<rparr>)) = retR (st', 1) \<and> thread_destroy 1 st' = failR (Panic_msg ''thread: the stack is still mapped'')"
    using destroying_user_thread_panics [OF _ s] s by (auto simp: sample_boot_def)
qed

end
