(* ===== verification/Rbtree.thy ===== *)
theory Rbtree
  imports Prelude
begin

text \<open>
  The intrusive red-black tree of \<open>lib/rbtree.cppm\<close>.  An item is a number, its hook is looked up in \<open>hooks\<close>; \<open>nil\<close> is
  \<open>None\<close>, whose hook is the local object \<open>nh\<close> each public operation starts with.  The comparison \<open>Less\<close> is the parameter \<open>lt\<close>.
  An item passed to an operation is a number, not a pointer that could be null.  Loops are partial functions and a \<open>bug_on\<close> that fires is a failing run, so that both termination and the absence of
  assertion failures are consequences of the theorems that an operation returns.
\<close>

section \<open>Data\<close>

datatype colour = Red | Black

datatype dir = Lft | Rgt

fun opp :: "dir \<Rightarrow> dir" where
  "opp Lft = Rgt"
| "opp Rgt = Lft"

record rbtree_hook =
  parent :: "nat option"
  left :: "nat option"
  right :: "nat option"
  successor :: "nat option"
  predecessor :: "nat option"
  colour :: colour

definition new_hook :: rbtree_hook where
  "new_hook = \<lparr>parent = None, left = None, right = None, successor = None, predecessor = None, colour = Black\<rparr>"

text \<open>The tree, the hooks of the items, and the hook \<open>nh\<close> that stands for the one of \<open>nil\<close>.\<close>

record rbtree =
  root :: "nat option"
  head :: "nat option"
  rsize :: u64
  hooks :: "nat \<Rightarrow> rbtree_hook"
  nh :: rbtree_hook

definition hook :: "rbtree \<Rightarrow> nat option \<Rightarrow> rbtree_hook" where
  "hook s p = (case p of None \<Rightarrow> nh s | Some x \<Rightarrow> hooks s x)"

definition upd :: "nat option \<Rightarrow> (rbtree_hook \<Rightarrow> rbtree_hook) \<Rightarrow> rbtree \<Rightarrow> rbtree" where
  "upd p f s = (case p of None \<Rightarrow> s\<lparr>nh := f (nh s)\<rparr> | Some x \<Rightarrow> s\<lparr>hooks := (hooks s)(x := f (hooks s x))\<rparr>)"

text \<open>The children of a hook by side.\<close>

fun child :: "dir \<Rightarrow> rbtree_hook \<Rightarrow> nat option" where
  "child Lft h = left h"
| "child Rgt h = right h"

fun set_child :: "dir \<Rightarrow> nat option \<Rightarrow> rbtree_hook \<Rightarrow> rbtree_hook" where
  "set_child Lft p h = h\<lparr>left := p\<rparr>"
| "set_child Rgt p h = h\<lparr>right := p\<rparr>"

section \<open>Rotations\<close>

text \<open>\<open>rotate_left\<close> for the side \<open>Lft\<close> and \<open>rotate_right\<close>, which is the same with the sides exchanged, for \<open>Rgt\<close>.\<close>

definition rotate_side :: "dir \<Rightarrow> nat option \<Rightarrow> rbtree \<Rightarrow> rbtree run" where
  "rotate_side d x s =
     (if child (opp d) (hook s x) = None \<or> parent (hook s (root s)) \<noteq> None then failR Bug_on
      else let y = child (opp d) (hook s x);
               s = upd x (set_child (opp d) (child d (hook s y))) s;
               s = (if child (opp d) (hook s x) \<noteq> None then upd (child d (hook s y)) (\<lambda>h. h\<lparr>parent := x\<rparr>) s else s);
               s = upd y (\<lambda>h. h\<lparr>parent := parent (hook s x)\<rparr>) s;
               s = (if parent (hook s y) = None then s\<lparr>root := y\<rparr>
                    else if x = child d (hook s (parent (hook s x))) then upd (parent (hook s x)) (set_child d y) s
                    else upd (parent (hook s x)) (set_child (opp d) y) s);
               s = upd y (set_child d x) s
           in retR (upd x (\<lambda>h. h\<lparr>parent := y\<rparr>) s))"

section \<open>Insertion\<close>

definition set_colour :: "nat option \<Rightarrow> colour \<Rightarrow> rbtree \<Rightarrow> rbtree" where
  "set_colour p c s = upd p (\<lambda>h. h\<lparr>colour := c\<rparr>) s"

abbreviation parent_of :: "rbtree \<Rightarrow> nat option \<Rightarrow> nat option" where
  "parent_of s p \<equiv> parent (hook s p)"

text \<open>The loop of \<open>insert_fixup\<close>; \<open>d\<close> is the side of the parent below the grandparent, the two halves of the body mirror each other.\<close>

partial_function (option) insert_fixup :: "nat option \<Rightarrow> rbtree \<Rightarrow> rbtree run" where
  "insert_fixup z s =
     (if colour (hook s (parent_of s z)) = Red
      then let d = (if parent_of s z = left (hook s (parent_of s (parent_of s z))) then Lft else Rgt);
               y = child (opp d) (hook s (parent_of s (parent_of s z)))
           in if colour (hook s y) = Red
              then let s = set_colour (parent_of s z) Black s;
                       s = set_colour y Black s;
                       s = set_colour (parent_of s (parent_of s z)) Red s
                   in insert_fixup (parent_of s (parent_of s z)) s
              else bindR (if z = child (opp d) (hook s (parent_of s z))
                          then let z = parent_of s z in bindR (rotate_side d z s) (\<lambda>s. retR (z, s))
                          else retR (z, s)) (\<lambda>(z, s).
                     let s = set_colour (parent_of s z) Black s;
                         s = set_colour (parent_of s (parent_of s z)) Red s
                     in bindR (rotate_side (opp d) (parent_of s (parent_of s z)) s) (\<lambda>s. insert_fixup z s))
      else retR (set_colour (root s) Black s))"

text \<open>The walk from the root to the place of the new item: its parent.\<close>

partial_function (option) insert_walk :: "(nat \<Rightarrow> nat \<Rightarrow> bool) \<Rightarrow> nat \<Rightarrow> nat option \<Rightarrow> nat option \<Rightarrow> rbtree \<Rightarrow> nat option run" where
  "insert_walk lt z x y s =
     (case x of None \<Rightarrow> retR y
      | Some n \<Rightarrow> if lt z n then insert_walk lt z (left (hook s x)) x s else insert_walk lt z (right (hook s x)) x s)"

definition link_before :: "nat option \<Rightarrow> nat option \<Rightarrow> rbtree \<Rightarrow> rbtree" where
  "link_before z y s =
     (let s = upd y (\<lambda>h. h\<lparr>left := z\<rparr>) s;
          s = upd z (\<lambda>h. h\<lparr>successor := y\<rparr>) s;
          prev = predecessor (hook s y);
          s = upd z (\<lambda>h. h\<lparr>predecessor := prev\<rparr>) s;
          s = (if prev \<noteq> None then upd prev (\<lambda>h. h\<lparr>successor := z\<rparr>) s else s)
      in upd y (\<lambda>h. h\<lparr>predecessor := z\<rparr>) s)"

definition link_after :: "nat option \<Rightarrow> nat option \<Rightarrow> rbtree \<Rightarrow> rbtree" where
  "link_after z y s =
     (let s = upd y (\<lambda>h. h\<lparr>right := z\<rparr>) s;
          s = upd z (\<lambda>h. h\<lparr>predecessor := y\<rparr>) s;
          succ = successor (hook s y);
          s = upd z (\<lambda>h. h\<lparr>successor := succ\<rparr>) s;
          s = (if succ \<noteq> None then upd succ (\<lambda>h. h\<lparr>predecessor := z\<rparr>) s else s)
      in upd y (\<lambda>h. h\<lparr>successor := z\<rparr>) s)"

definition insert_item :: "(nat \<Rightarrow> nat \<Rightarrow> bool) \<Rightarrow> nat \<Rightarrow> rbtree \<Rightarrow> rbtree run" where
  "insert_item lt z s =
     bindR (insert_walk lt z (root s) None s) (\<lambda>y.
       let s = upd (Some z) (\<lambda>h. h\<lparr>parent := y\<rparr>) s;
           s = (case y of None \<Rightarrow> s\<lparr>root := Some z\<rparr>
                | Some n \<Rightarrow> if lt z n then link_before (Some z) y s else link_after (Some z) y s);
           s = upd (Some z) (\<lambda>h. h\<lparr>left := None\<rparr>) s;
           s = upd (Some z) (\<lambda>h. h\<lparr>right := None\<rparr>) s;
           s = set_colour (Some z) Red s;
           s = (case head s of None \<Rightarrow> s\<lparr>head := Some z\<rparr> | Some n \<Rightarrow> if lt z n then s\<lparr>head := Some z\<rparr> else s)
       in insert_fixup (Some z) s)"

definition rb_insert :: "(nat \<Rightarrow> nat \<Rightarrow> bool) \<Rightarrow> nat \<Rightarrow> rbtree \<Rightarrow> rbtree run" where
  "rb_insert lt z s =
     (let s = s\<lparr>nh := new_hook\<rparr>;
          s = upd (Some z) (\<lambda>_. new_hook) s
      in bindR (if root s = None then let s = s\<lparr>root := Some z\<rparr> in retR (s\<lparr>head := root s\<rparr>)
                else insert_item lt z s) (\<lambda>s. retR (s\<lparr>rsize := rsize s + 1\<rparr>)))"

section \<open>Removal\<close>

definition transplant :: "nat option \<Rightarrow> nat option \<Rightarrow> rbtree \<Rightarrow> rbtree" where
  "transplant u v s =
     (let s = (if parent_of s u = None then s\<lparr>root := v\<rparr>
               else if u = left (hook s (parent_of s u)) then upd (parent_of s u) (\<lambda>h. h\<lparr>left := v\<rparr>) s
               else upd (parent_of s u) (\<lambda>h. h\<lparr>right := v\<rparr>) s)
      in upd v (\<lambda>h. h\<lparr>parent := parent_of s u\<rparr>) s)"

text \<open>\<open>minimum\<close> for \<open>Lft\<close>, \<open>maximum\<close> for \<open>Rgt\<close>.\<close>

partial_function (option) extremum_loop :: "dir \<Rightarrow> nat option \<Rightarrow> rbtree \<Rightarrow> nat option run" where
  "extremum_loop d x s =
     (if child d (hook s x) \<noteq> None then extremum_loop d (child d (hook s x)) s else retR x)"

definition extremum :: "dir \<Rightarrow> nat option \<Rightarrow> rbtree \<Rightarrow> nat option run" where
  "extremum d x s = (if x = None then failR Bug_on else extremum_loop d x s)"

partial_function (option) remove_fixup :: "nat option \<Rightarrow> rbtree \<Rightarrow> rbtree run" where
  "remove_fixup x s =
     (if x \<noteq> root s \<and> colour (hook s x) = Black
      then let d = (if x = left (hook s (parent_of s x)) then Lft else Rgt);
               w = child (opp d) (hook s (parent_of s x))
           in bindR (if colour (hook s w) = Red
                     then let s = set_colour w Black s;
                              s = set_colour (parent_of s x) Red s
                          in bindR (rotate_side d (parent_of s x) s) (\<lambda>s. retR (child (opp d) (hook s (parent_of s x)), s))
                     else retR (w, s)) (\<lambda>(w, s).
                if colour (hook s (child d (hook s w))) = Black \<and> colour (hook s (child (opp d) (hook s w))) = Black
                then let s = set_colour w Red s in remove_fixup (parent_of s x) s
                else bindR (if colour (hook s (child (opp d) (hook s w))) = Black
                            then let s = set_colour (child d (hook s w)) Black s;
                                     s = set_colour w Red s
                                 in bindR (rotate_side (opp d) w s) (\<lambda>s. retR (child (opp d) (hook s (parent_of s x)), s))
                            else retR (w, s)) (\<lambda>(w, s).
                       let s = set_colour w (colour (hook s (parent_of s x))) s;
                           s = set_colour (parent_of s x) Black s;
                           s = set_colour (child (opp d) (hook s w)) Black s
                       in bindR (rotate_side d (parent_of s x) s) (\<lambda>s. remove_fixup (root s) s)))
      else retR (set_colour x Black s))"

text \<open>The first half of \<open>_remove\<close>: the item leaves the list of successors and predecessors.\<close>

definition unlink_item :: "nat \<Rightarrow> rbtree \<Rightarrow> rbtree run" where
  "unlink_item z s =
     (let pred = predecessor (hook s (Some z)); succ = successor (hook s (Some z))
      in if pred \<noteq> None \<and> successor (hook s pred) \<noteq> Some z then failR Bug_on
         else if succ \<noteq> None \<and> predecessor (hook s succ) \<noteq> Some z then failR Bug_on
         else let s = (if pred \<noteq> None then upd pred (\<lambda>h. h\<lparr>successor := succ\<rparr>) s else s\<lparr>head := succ\<rparr>);
                  s = (if succ \<noteq> None then upd succ (\<lambda>h. h\<lparr>predecessor := pred\<rparr>) s else s);
                  s = (if head s = Some z then s\<lparr>head := (if succ \<noteq> None then succ else pred)\<rparr> else s);
                  s = upd (Some z) (\<lambda>h. h\<lparr>predecessor := None\<rparr>) s
              in retR (upd (Some z) (\<lambda>h. h\<lparr>successor := None\<rparr>) s))"

text \<open>The second half takes the item out of the tree: the item whose colour is lost to the tree is the one that takes its place, if it has two children.\<close>

definition cut_item :: "nat \<Rightarrow> rbtree \<Rightarrow> (rbtree \<times> nat option \<times> colour) run" where
  "cut_item n s =
     (let z = Some n; yoc = colour (hook s z)
      in if left (hook s z) = None then let x = right (hook s z) in retR (transplant z (right (hook s z)) s, x, yoc)
         else if right (hook s z) = None then let x = left (hook s z) in retR (transplant z (left (hook s z)) s, x, yoc)
         else bindR (extremum Lft (right (hook s z)) s) (\<lambda>y.
                let yoc = colour (hook s y); x = right (hook s y);
                    s = (if y \<noteq> right (hook s z)
                         then let s = transplant y (right (hook s y)) s;
                                  s = upd y (\<lambda>h. h\<lparr>right := right (hook s z)\<rparr>) s
                              in upd (right (hook s y)) (\<lambda>h. h\<lparr>parent := y\<rparr>) s
                         else upd x (\<lambda>h. h\<lparr>parent := y\<rparr>) s);
                    s = transplant z y s;
                    s = upd y (\<lambda>h. h\<lparr>left := left (hook s z)\<rparr>) s;
                    s = upd (left (hook s y)) (\<lambda>h. h\<lparr>parent := y\<rparr>) s
                in retR (set_colour y (colour (hook s z)) s, x, yoc)))"

definition remove_item :: "nat \<Rightarrow> rbtree \<Rightarrow> rbtree run" where
  "remove_item z s =
     bindR (unlink_item z s) (\<lambda>s.
     bindR (cut_item z s) (\<lambda>(s, x, yoc).
     bindR (if yoc = Black then remove_fixup x s else retR s) (\<lambda>s.
       if root s = None then retR (s\<lparr>head := None\<rparr>)
       else if head s = None \<or> predecessor (hook s (head s)) \<noteq> None then failR Bug_on
       else retR s)))"

definition rb_remove :: "nat \<Rightarrow> rbtree \<Rightarrow> rbtree run" where
  "rb_remove x s =
     bindR (remove_item x (s\<lparr>nh := new_hook\<rparr>)) (\<lambda>s.
       if rsize s = 0 then failR Bug_on else retR (s\<lparr>rsize := rsize s - 1\<rparr>))"

section \<open>Reading\<close>

definition rb_empty :: "(nat \<Rightarrow> rbtree_hook) \<Rightarrow> rbtree" where
  "rb_empty h = \<lparr>root = None, head = None, rsize = 0, hooks = h, nh = new_hook\<rparr>"

definition rb_first :: "rbtree \<Rightarrow> nat option" where
  "rb_first s = head s"

definition rb_last :: "rbtree \<Rightarrow> nat option run" where
  "rb_last s = (if root s = None then retR None else extremum Rgt (root s) (s\<lparr>nh := new_hook\<rparr>))"

definition rb_next :: "nat option \<Rightarrow> rbtree \<Rightarrow> nat option" where
  "rb_next p s = successor (hook (s\<lparr>nh := new_hook\<rparr>) p)"

definition rb_prev :: "nat option \<Rightarrow> rbtree \<Rightarrow> nat option" where
  "rb_prev p s = predecessor (hook (s\<lparr>nh := new_hook\<rparr>) p)"

partial_function (option) contains_loop :: "(nat \<Rightarrow> nat \<Rightarrow> bool) \<Rightarrow> nat \<Rightarrow> nat option \<Rightarrow> rbtree \<Rightarrow> bool run" where
  "contains_loop lt x current s =
     (case current of None \<Rightarrow> retR False
      | Some n \<Rightarrow> if \<not> lt n x \<and> \<not> lt x n then retR True
                  else if lt x n then contains_loop lt x (left (hook s current)) s
                  else contains_loop lt x (right (hook s current)) s)"

definition rb_contains :: "(nat \<Rightarrow> nat \<Rightarrow> bool) \<Rightarrow> nat \<Rightarrow> rbtree \<Rightarrow> bool run" where
  "rb_contains lt x s = contains_loop lt x (root s) (s\<lparr>nh := new_hook\<rparr>)"

definition rb_size :: "rbtree \<Rightarrow> u64" where
  "rb_size s = rsize s"

definition rb_is_empty :: "rbtree \<Rightarrow> bool" where
  "rb_is_empty s \<longleftrightarrow> rsize s = 0"

text \<open>\<open>remove\<close> of an iterator at \<open>p\<close>; \<open>same\<close> tells whether it is one of this tree.\<close>

definition rb_remove_at :: "bool \<Rightarrow> nat option \<Rightarrow> rbtree \<Rightarrow> rbtree run" where
  "rb_remove_at same p s = (if \<not> same then failR Bug_on else case p of None \<Rightarrow> failR Bug_on | Some x \<Rightarrow> rb_remove x s)"

text \<open>The move constructor and the move assignment: what \<open>*this\<close> and what \<open>rhs\<close> hold afterwards; \<open>same\<close> tells whether they are one object.\<close>

definition rb_move :: "rbtree \<Rightarrow> rbtree \<times> rbtree" where
  "rb_move rhs = (rhs, rhs\<lparr>root := None, head := None, rsize := 0\<rparr>)"

definition rb_move_assign :: "bool \<Rightarrow> rbtree \<Rightarrow> rbtree \<Rightarrow> rbtree \<times> rbtree" where
  "rb_move_assign same this rhs =
     (if \<not> same then (this\<lparr>root := root rhs, head := head rhs, rsize := rsize rhs\<rparr>, rhs\<lparr>root := None, head := None, rsize := 0\<rparr>) else (this, rhs))"

end
