(* ===== verification/Rbtree_Shape.thy ===== *)
theory Rbtree_Shape
  imports Rbtree "HOL-Library.Multiset"
begin

text \<open>
  Trees in memory.  \<open>focus s cs par p t\<close> says that the hooks of \<open>s\<close> hold the tree \<open>t\<close> at the pointer \<open>p\<close> below the
  context \<open>cs\<close>, the path from \<open>p\<close> to the root; a rotation and a change of colour act on the tree in focus.  \<open>rb\<close> and \<open>okc\<close> are
  the red-black conditions of a tree and of a context.
\<close>

section \<open>Trees and contexts\<close>

datatype ctree = Lf | Nd colour ctree nat ctree

text \<open>\<open>nd d c a x b\<close> has \<open>a\<close> on the side \<open>d\<close> and \<open>b\<close> on the other one.\<close>

fun nd :: "dir \<Rightarrow> colour \<Rightarrow> ctree \<Rightarrow> nat \<Rightarrow> ctree \<Rightarrow> ctree" where
  "nd Lft c a x b = Nd c a x b"
| "nd Rgt c a x b = Nd c b x a"

fun inorder :: "ctree \<Rightarrow> nat list" where
  "inorder Lf = []"
| "inorder (Nd c l x r) = inorder l @ x # inorder r"

abbreviation nodes :: "ctree \<Rightarrow> nat set" where
  "nodes t \<equiv> set (inorder t)"

type_synonym frame = "dir \<times> colour \<times> nat \<times> ctree"

fun plug :: "frame list \<Rightarrow> ctree \<Rightarrow> ctree" where
  "plug [] t = t"
| "plug ((d, c, x, s) # cs) t = plug cs (nd d c t x s)"

fun cnodes :: "frame list \<Rightarrow> nat list" where
  "cnodes [] = []"
| "cnodes ((d, c, x, s) # cs) = x # inorder s @ cnodes cs"

lemma opp_opp [simp]: "opp (opp d) = d" "opp d \<noteq> d" "d \<noteq> opp d"
  by (cases d; simp)+

lemma mset_nd [simp]: "mset (inorder (nd d c a x b)) = add_mset x (mset (inorder a) + mset (inorder b))"
  by (cases d) simp_all

lemma nodes_nd [simp]: "nodes (nd d c a x b) = insert x (nodes a \<union> nodes b)"
  by (cases d) auto

lemma distinct_nd: "distinct (inorder (nd d c a x b)) \<longleftrightarrow> x \<notin> nodes a \<and> x \<notin> nodes b \<and> distinct (inorder a) \<and> distinct (inorder b) \<and> nodes a \<inter> nodes b = {}"
  by (cases d) auto

lemma mset_plug: "mset (inorder (plug cs t)) = mset (inorder t) + mset (cnodes cs)"
  by (induction cs t rule: plug.induct) auto

lemma distinct_plug: "distinct (inorder (plug cs t)) \<longleftrightarrow> distinct (inorder t) \<and> distinct (cnodes cs) \<and> nodes t \<inter> set (cnodes cs) = {}"
proof -
  have "distinct (inorder (plug cs t)) = distinct (inorder t @ cnodes cs)"
    by (rule mset_eq_imp_distinct_iff) (simp add: mset_plug)
  then show ?thesis by simp
qed

section \<open>Trees in memory\<close>

definition shape :: "rbtree_hook \<Rightarrow> nat option \<times> nat option \<times> nat option \<times> colour" where
  "shape h = (parent h, left h, right h, colour h)"

fun tree_at :: "(nat \<Rightarrow> rbtree_hook) \<Rightarrow> nat option \<Rightarrow> nat option \<Rightarrow> ctree \<Rightarrow> bool" where
  "tree_at h par p Lf \<longleftrightarrow> p = None"
| "tree_at h par p (Nd c l x r) \<longleftrightarrow> p = Some x \<and> parent (h x) = par \<and> colour (h x) = c \<and> tree_at h (Some x) (left (h x)) l \<and> tree_at h (Some x) (right (h x)) r"

fun ctx_at :: "(nat \<Rightarrow> rbtree_hook) \<Rightarrow> nat option \<Rightarrow> nat option \<Rightarrow> nat option \<Rightarrow> frame list \<Rightarrow> bool" where
  "ctx_at h rt p par [] \<longleftrightarrow> par = None \<and> rt = p"
| "ctx_at h rt p par ((d, c, x, s) # cs) \<longleftrightarrow> par = Some x \<and> child d (h x) = p \<and> colour (h x) = c \<and> tree_at h (Some x) (child (opp d) (h x)) s \<and> ctx_at h rt (Some x) (parent (h x)) cs"

lemma tree_at_nd [simp]:
  "tree_at h par p (nd d c a x b) \<longleftrightarrow> p = Some x \<and> parent (h x) = par \<and> colour (h x) = c \<and> tree_at h (Some x) (child d (h x)) a \<and> tree_at h (Some x) (child (opp d) (h x)) b"
  by (cases d) auto

lemma tree_at_plug: "tree_at h None rt (plug cs t) \<longleftrightarrow> (\<exists>p par. ctx_at h rt p par cs \<and> tree_at h par p t)"
  by (induction cs t rule: plug.induct) auto

lemma shape_child: "shape a = shape b \<Longrightarrow> parent a = parent b \<and> (\<forall>d. child d a = child d b) \<and> colour a = colour b"
proof -
  assume "shape a = shape b"
  then have "child d a = child d b" for d by (cases d) (simp_all add: shape_def)
  then show ?thesis using \<open>shape a = shape b\<close> by (simp add: shape_def)
qed

lemma tree_at_cong: "(\<And>x. x \<in> nodes t \<Longrightarrow> shape (h' x) = shape (h x)) \<Longrightarrow> tree_at h' par p t = tree_at h par p t"
proof (induction t arbitrary: par p)
  case (Nd c l x r)
  have "parent (h' x) = parent (h x)" "left (h' x) = left (h x)" "right (h' x) = right (h x)" "colour (h' x) = colour (h x)"
    using Nd.prems [of x] by (simp_all add: shape_def)
  moreover have "tree_at h' q v l = tree_at h q v l" "tree_at h' q v r = tree_at h q v r" for q v
    using Nd.IH Nd.prems by simp_all
  ultimately show ?case by simp
qed simp

lemma ctx_at_cong: "(\<And>x. x \<in> set (cnodes cs) \<Longrightarrow> shape (h' x) = shape (h x)) \<Longrightarrow> ctx_at h' rt p par cs = ctx_at h rt p par cs"
proof (induction cs arbitrary: p par)
  case (Cons f cs)
  obtain d c x s where f: "f = (d, c, x, s)" by (cases f) auto
  have x: "parent (h' x) = parent (h x)" "\<And>d. child d (h' x) = child d (h x)" "colour (h' x) = colour (h x)"
    using shape_child [of "h' x" "h x"] Cons.prems [of x] f by simp_all
  have "tree_at h' q r s = tree_at h q r s" for q r using Cons.prems f by (intro tree_at_cong) auto
  then show ?case using Cons.IH Cons.prems f x by simp
qed simp

lemma tree_at_parent:
  assumes "tree_at h par (Some x) t" "distinct (inorder t)" "shape (h' x) = shape ((h x)\<lparr>parent := q\<rparr>)" "\<And>n. n \<in> nodes t \<Longrightarrow> n \<noteq> x \<Longrightarrow> shape (h' n) = shape (h n)"
  shows "tree_at h' q (Some x) t"
proof -
  obtain c l r where t: "t = Nd c l x r" using assms(1) by (cases t) auto
  have "tree_at h' u v l = tree_at h u v l" "tree_at h' u v r = tree_at h u v r" for u v
    using assms(2,4) t by (auto intro!: tree_at_cong)
  then show ?thesis using assms(1,3) t by (simp add: shape_def)
qed

text \<open>Hanging another tree below a context.\<close>

lemma ctx_at_retarget:
  assumes "ctx_at h rt p par cs" "distinct (cnodes cs)"
    and "case cs of [] \<Rightarrow> rt' = p' | (d, c, q, s) # cs' \<Rightarrow> rt' = rt \<and> shape (h' q) = shape (set_child d p' (h q)) \<and> (\<forall>n \<in> nodes s \<union> set (cnodes cs'). shape (h' n) = shape (h n))"
  shows "ctx_at h' rt' p' par cs"
proof (cases cs)
  case (Cons f cs')
  obtain d c q s where f: "f = (d, c, q, s)" by (cases f) auto
  have "tree_at h' u v s = tree_at h u v s" for u v using assms(3) Cons f by (intro tree_at_cong) auto
  moreover have "ctx_at h' rt u v cs' = ctx_at h rt u v cs'" for u v using assms(3) Cons f by (intro ctx_at_cong) auto
  ultimately show ?thesis using assms Cons f by (cases d) (auto simp: shape_def)
qed (use assms in simp)

lemma ctx_at_side:
  assumes "ctx_at h rt (Some x) par ((d', c, q, s) # cs)" "x \<notin> nodes s"
  shows "Some x = child d (h q) \<longleftrightarrow> d = d'"
proof -
  have "child (opp d') (h q) \<noteq> Some x" using assms by (cases s) auto
  then show ?thesis using assms by (cases d; cases d') auto
qed

section \<open>Accesses\<close>

lemma hook_simps [simp]: "hook s None = nh s" "hook s (Some x) = hooks s x"
  by (simp_all add: hook_def)

lemma upd_simps [simp]:
  "hooks (upd (Some x) f s) = (hooks s)(x := f (hooks s x))" "hooks (upd None f s) = hooks s"
  "nh (upd None f s) = f (nh s)" "nh (upd (Some x) f s) = nh s"
  "root (upd p f s) = root s" "head (upd p f s) = head s" "rsize (upd p f s) = rsize s"
  by (simp_all add: upd_def split: option.splits)

lemma child_simps [simp]:
  "child d (set_child d p h) = p" "child (opp d) (set_child d p h) = child (opp d) h" "child d (set_child (opp d) p h) = child d h"
  "parent (set_child d p h) = parent h" "colour (set_child d p h) = colour h" "successor (set_child d p h) = successor h" "predecessor (set_child d p h) = predecessor h"
  "child d (h\<lparr>parent := q\<rparr>) = child d h" "child d (h\<lparr>colour := c\<rparr>) = child d h"
  "child d (h\<lparr>successor := q\<rparr>) = child d h" "child d (h\<lparr>predecessor := q\<rparr>) = child d h"
  by (cases d; simp)+

text \<open>What rotations and colouring leave alone.\<close>

definition same_list :: "rbtree \<Rightarrow> rbtree \<Rightarrow> bool" where
  "same_list s s' \<longleftrightarrow> head s' = head s \<and> rsize s' = rsize s \<and> (\<forall>x. successor (hooks s' x) = successor (hooks s x) \<and> predecessor (hooks s' x) = predecessor (hooks s x))"

lemma same_list_trans: "same_list a b \<Longrightarrow> same_list b c \<Longrightarrow> same_list a c"
  by (simp add: same_list_def)

definition focus :: "rbtree \<Rightarrow> frame list \<Rightarrow> nat option \<Rightarrow> nat option \<Rightarrow> ctree \<Rightarrow> bool" where
  "focus s cs par p t \<longleftrightarrow> ctx_at (hooks s) (root s) p par cs \<and> tree_at (hooks s) par p t \<and> distinct (inorder (plug cs t))"

lemma focusD:
  assumes "focus s cs par p t"
  shows "ctx_at (hooks s) (root s) p par cs" "tree_at (hooks s) par p t" "distinct (inorder t)" "distinct (cnodes cs)" "nodes t \<inter> set (cnodes cs) = {}"
  using assms by (auto simp: focus_def distinct_plug)

lemma focus_root:
  assumes "focus s cs par (Some x) t"
  shows "parent (hook s (root s)) = None"
proof -
  have "tree_at (hooks s) None (root s) (plug cs t)" using assms tree_at_plug by (auto simp: focus_def)
  moreover have "plug cs t \<noteq> Lf"
  proof
    assume "plug cs t = Lf"
    then have "mset (inorder t) + mset (cnodes cs) = {#}" using mset_plug [of cs t] by simp
    then show False using assms by (cases t) (auto simp: focus_def)
  qed
  ultimately show ?thesis by (cases "plug cs t") auto
qed

section \<open>Rotations\<close>

definition rotated :: "dir \<Rightarrow> nat \<Rightarrow> nat \<Rightarrow> nat option \<Rightarrow> frame list \<Rightarrow> (nat \<Rightarrow> rbtree_hook) \<Rightarrow> nat \<Rightarrow> rbtree_hook" where
  "rotated d x y pb cs h n =
     (if n = x then (set_child (opp d) pb (h x))\<lparr>parent := Some y\<rparr>
      else if n = y then set_child d (Some x) ((h y)\<lparr>parent := parent (h x)\<rparr>)
      else if Some n = pb then (h n)\<lparr>parent := Some x\<rparr>
      else case cs of [] \<Rightarrow> h n | (d', c, q, t) # _ \<Rightarrow> if n = q then set_child d' (Some y) (h n) else h n)"

lemma rotate_state:
  assumes f: "focus s cs par (Some x) (nd d c a x (nd d k b y e))"
  shows "\<exists>s'. rotate_side d (Some x) s = retR s' \<and> hooks s' = rotated d x y (child d (hooks s y)) cs (hooks s) \<and>
    root s' = (if cs = [] then Some y else root s) \<and> head s' = head s \<and> rsize s' = rsize s \<and> nh s' = nh s"
proof -
  let ?h = "hooks s"
  note F = focusD [OF f]
  have y: "child (opp d) (?h x) = Some y" "parent (?h x) = par" using F(2) by auto
  have ne: "x \<noteq> y" "child d (?h y) \<noteq> Some x" "child d (?h y) \<noteq> Some y" using F(2,3) by (auto simp: distinct_nd) (cases b; auto simp: distinct_nd)+
  have rt: "parent (hook s (root s)) = None" by (rule focus_root [OF f])
  show ?thesis
  proof (cases cs)
    case Nil
    then have par: "par = None" using F(1) by simp
    show ?thesis using y ne rt par Nil
      by (cases "child d (?h y)") (auto simp: rotate_side_def Let_def rotated_def fun_eq_iff)
  next
    case (Cons g cs')
    obtain d' c' q t where g: "g = (d', c', q, t)" by (cases g) auto
    have par: "par = Some q" using F(1) Cons g by simp
    have qn: "q \<noteq> x" "q \<noteq> y" "q \<notin> nodes b" using F(5) Cons g by auto
    then have qb: "child d (?h y) \<noteq> Some q" using F(2) by (cases b) auto
    have side: "Some x = child d (?h q) \<longleftrightarrow> d = d'" using ctx_at_side [of ?h "root s" x par d' c' q t cs' d] F(1,5) Cons g by auto
    show ?thesis
    proof (cases "d = d'")
      case True
      have "child d (?h q) = Some x" using side True by simp
      then show ?thesis using y ne rt par Cons g qn(1,2) qb True
        by (cases "child d (?h y)") (simp_all add: rotate_side_def Let_def rotated_def fun_eq_iff)
    next
      case False
      have "child d (?h q) \<noteq> Some x" "d' = opp d" using side False by auto (cases d; cases d'; simp)
      then show ?thesis using y ne rt par Cons g qn(1,2) qb
        by (cases "child d (?h y)") (simp_all add: rotate_side_def Let_def rotated_def fun_eq_iff)
    qed
  qed
qed

lemma rotate_ok:
  assumes f: "focus s cs par (Some x) (nd d c a x (nd d k b y e))"
  shows "\<exists>s'. rotate_side d (Some x) s = retR s' \<and> focus s' cs par (Some y) (nd d k (nd d c a x b) y e) \<and> same_list s s' \<and> nh s' = nh s"
proof -
  let ?h = "hooks s"
  let ?h' = "rotated d x y (child d (?h y)) cs ?h"
  obtain s' where s': "rotate_side d (Some x) s = retR s'" "hooks s' = ?h'" "root s' = (if cs = [] then Some y else root s)" "head s' = head s" "rsize s' = rsize s" "nh s' = nh s"
    using rotate_state [OF f] by blast
  note F = focusD [OF f]
  have D: "x \<noteq> y" "x \<notin> nodes a" "x \<notin> nodes b" "x \<notin> nodes e" "y \<notin> nodes a" "y \<notin> nodes b" "y \<notin> nodes e" "nodes a \<inter> nodes b = {}" "nodes a \<inter> nodes e = {}" "nodes b \<inter> nodes e = {}" "distinct (inorder b)"
    using F(3) by (auto simp: distinct_nd)
  have C: "x \<notin> set (cnodes cs)" "y \<notin> set (cnodes cs)" "nodes a \<inter> set (cnodes cs) = {}" "nodes b \<inter> set (cnodes cs) = {}" "nodes e \<inter> set (cnodes cs) = {}" using F(5) by auto
  have pb: "n \<in> nodes b" if "child d (?h y) = Some n" for n using F(2) that by (cases b) auto
  have q: "n \<in> set (cnodes cs)" if "cs = (d', c', n, t) # cs'" for n d' c' t cs' using that by simp
  have same: "?h' n = ?h n" if "n \<noteq> x" "n \<noteq> y" "n \<notin> nodes b" "n \<notin> set (cnodes cs)" for n
    using that pb q by (cases cs) (auto simp: rotated_def)
  have b: "tree_at ?h' (Some x) (child d (?h y)) b"
  proof (cases "child d (?h y)")
    case None
    then show ?thesis using F(2) by (cases b) auto
  next
    case (Some m)
    have b: "tree_at ?h (Some y) (Some m) b" using F(2) Some by simp
    show ?thesis unfolding Some
    proof (rule tree_at_parent [OF b D(11)])
      show "shape (rotated d x y (Some m) cs ?h m) = shape ((?h m)\<lparr>parent := Some x\<rparr>)" using pb [OF Some] D(3,6) by (auto simp: rotated_def)
      show "shape (rotated d x y (Some m) cs ?h n) = shape (?h n)" if "n \<in> nodes b" "n \<noteq> m" for n
        using that D(3,6) C(4) by (cases cs) (auto simp: rotated_def)
    qed
  qed
  have "?h' n = ?h n" if "n \<in> nodes a \<union> nodes e" for n
  proof (rule same)
    show "n \<noteq> x" "n \<noteq> y" "n \<notin> nodes b" "n \<notin> set (cnodes cs)" using that D C by auto
  qed
  then have ae: "tree_at ?h' u v a = tree_at ?h u v a" "tree_at ?h' u v e = tree_at ?h u v e" for u v
    by (auto intro!: tree_at_cong)
  have "tree_at ?h' par (Some y) (nd d k (nd d c a x b) y e)" using F(2) b ae D(1) by (auto simp: rotated_def)
  moreover have "ctx_at ?h' (root s') (Some y) par cs"
  proof (rule ctx_at_retarget [OF F(1,4)])
    show "case cs of [] \<Rightarrow> root s' = Some y | (d', c', q, t) # cs' \<Rightarrow> root s' = root s \<and> shape (?h' q) = shape (set_child d' (Some y) (?h q)) \<and> (\<forall>n \<in> nodes t \<union> set (cnodes cs'). shape (?h' n) = shape (?h n))"
    proof (cases cs)
      case (Cons g cs')
      obtain d' c' q t where g: "g = (d', c', q, t)" by (cases g) auto
      have m: "child d (?h y) \<noteq> Some n" if "n \<in> set (cnodes cs)" for n using pb C(4) that by auto
      have "?h' q = set_child d' (Some y) (?h q)" using C(1,2) m [of q] Cons g by (auto simp: rotated_def)
      moreover have "?h' n = ?h n" if "n \<in> nodes t \<union> set (cnodes cs')" for n using C(1,2) m [of n] F(4) Cons g that by (auto simp: rotated_def)
      ultimately show ?thesis using Cons g s'(3) by simp
    qed (use s'(3) in simp)
  qed
  moreover have "distinct (inorder (plug cs (nd d k (nd d c a x b) y e)))" using F D by (auto simp: distinct_plug distinct_nd)
  moreover have "same_list s s'" using s' by (auto simp: same_list_def rotated_def split: list.splits)
  ultimately show ?thesis using s' by (auto simp: focus_def)
qed

section \<open>Moving the focus and colouring\<close>

lemma focus_up: "focus s ((d, c, x, u) # cs) par p t \<longleftrightarrow> par = Some x \<and> child d (hooks s x) = p \<and> focus s cs (parent (hooks s x)) (Some x) (nd d c t x u)"
  by (auto simp: focus_def)

lemma focus_top: "focus s [] par p t \<longleftrightarrow> par = None \<and> p = root s \<and> tree_at (hooks s) None (root s) t \<and> distinct (inorder t)"
  by (auto simp: focus_def)

lemma focus_whole:
  assumes "focus s cs par p t"
  shows "focus s [] None (root s) (plug cs t)"
  using assms tree_at_plug [of "hooks s" "root s" cs t] by (auto simp: focus_def)

lemma nd_opp: "nd (opp d) c a x b = nd d c b x a"
  by (cases d) auto

lemma focus_colour:
  assumes f: "focus s cs par (Some x) (nd d c a x b)"
  shows "focus (set_colour (Some x) k s) cs par (Some x) (nd d k a x b)"
proof -
  note F = focusD [OF f]
  let ?h' = "(hooks s)(x := (hooks s x)\<lparr>colour := k\<rparr>)"
  have "tree_at ?h' u v a = tree_at (hooks s) u v a" "tree_at ?h' u v b = tree_at (hooks s) u v b" for u v
    using F(3) by (auto intro!: tree_at_cong simp: distinct_nd)
  moreover have "ctx_at ?h' (root s) (Some x) par cs = ctx_at (hooks s) (root s) (Some x) par cs" using F(5) by (intro ctx_at_cong) auto
  moreover have "distinct (inorder (plug cs (nd d k a x b)))" using f by (simp add: focus_def distinct_plug distinct_nd)
  ultimately show ?thesis using F(1,2) by (simp add: focus_def set_colour_def)
qed

lemma same_list_colour [simp]: "same_list s (set_colour p c s)" "nh (set_colour (Some x) c s) = nh s" "root (set_colour p c s) = root s"
  by (cases p; simp add: same_list_def set_colour_def)+

lemma same_list_refl [simp]: "same_list s s"
  by (simp add: same_list_def)

lemma hooks_colour: "hooks (set_colour (Some x) c s) n = (if n = x then (hooks s x)\<lparr>colour := c\<rparr> else hooks s n)"
  by (simp add: set_colour_def)

lemma hooks_colour_simps [simp]:
  "parent (hooks (set_colour p c s) n) = parent (hooks s n)" "child d (hooks (set_colour p c s) n) = child d (hooks s n)"
  "left (hooks (set_colour p c s) n) = left (hooks s n)" "right (hooks (set_colour p c s) n) = right (hooks s n)"
  by (cases p; simp add: set_colour_def)+

section \<open>Red-black trees\<close>

fun col :: "ctree \<Rightarrow> colour" where
  "col Lf = Black"
| "col (Nd c _ _ _) = c"

fun rb :: "nat \<Rightarrow> ctree \<Rightarrow> bool" where
  "rb n Lf \<longleftrightarrow> n = 0"
| "rb n (Nd Red l x r) \<longleftrightarrow> rb n l \<and> rb n r \<and> col l = Black \<and> col r = Black"
| "rb n (Nd Black l x r) \<longleftrightarrow> (\<exists>m. n = Suc m \<and> rb m l \<and> rb m r)"

text \<open>A context in which a tree of black height \<open>n\<close> and colour \<open>c\<close> makes a red-black tree with a black root.\<close>

fun okc :: "frame list \<Rightarrow> nat \<Rightarrow> colour \<Rightarrow> bool" where
  "okc [] n c \<longleftrightarrow> c = Black"
| "okc ((d, Red, x, s) # cs) n c \<longleftrightarrow> rb n s \<and> c = Black \<and> col s = Black \<and> okc cs n Red"
| "okc ((d, Black, x, s) # cs) n c \<longleftrightarrow> rb n s \<and> okc cs (Suc n) Black"

lemma col_nd [simp]: "col (nd d c a x b) = c"
  by (cases d) simp_all

lemma rb_nd [simp]:
  "rb n (nd d Red a x b) \<longleftrightarrow> rb n a \<and> rb n b \<and> col a = Black \<and> col b = Black"
  "rb n (nd d Black a x b) \<longleftrightarrow> (\<exists>m. n = Suc m \<and> rb m a \<and> rb m b)"
  by (cases d; auto)+

lemma okc_black: "okc cs n Red \<Longrightarrow> okc cs n Black"
  by (induction cs n Red rule: okc.induct) auto

lemma rb_plug: "okc cs n (col t) \<Longrightarrow> rb n t \<Longrightarrow> \<exists>m. rb m (plug cs t) \<and> col (plug cs t) = Black"
proof (induction cs arbitrary: n t)
  case (Cons f cs)
  obtain d c x u where f: "f = (d, c, x, u)" by (cases f) auto
  show ?case
  proof (cases c)
    case Red
    then show ?thesis using Cons.IH [of n "nd d Red t x u"] Cons.prems f by simp
  next
    case Black
    then show ?thesis using Cons.IH [of "Suc n" "nd d Black t x u"] Cons.prems f by simp
  qed
qed auto

lemma plug_rb: "rb m (plug cs t) \<Longrightarrow> col (plug cs t) = Black \<Longrightarrow> \<exists>n. rb n t \<and> okc cs n (col t)"
proof (induction cs arbitrary: t)
  case (Cons f cs)
  obtain d c x u where f: "f = (d, c, x, u)" by (cases f) auto
  obtain n where n: "rb n (nd d c t x u)" "okc cs n c" using Cons.IH [of "nd d c t x u"] Cons.prems f by auto
  show ?case
  proof (cases c)
    case Red
    then show ?thesis using n f by (intro exI [of _ n]) simp
  next
    case Black
    then obtain m where "n = Suc m" "rb m t" "rb m u" using n(1) by auto
    then show ?thesis using n(2) f Black by (intro exI [of _ m]) simp
  qed
qed auto

lemma inorder_plug_cong: "inorder t = inorder t' \<Longrightarrow> inorder (plug cs t) = inorder (plug cs t')"
proof (induction cs arbitrary: t t')
  case (Cons f cs)
  obtain d c x u where f: "f = (d, c, x, u)" by (cases f) auto
  have "inorder (nd d c t x u) = inorder (nd d c t' x u)" using Cons.prems by (cases d) auto
  from Cons.IH [OF this] show ?case by (simp add: f)
qed simp

lemma inorder_colour: "inorder (nd d c a x b) = inorder (nd d k a x b)"
  by (cases d) auto

lemma inorder_rotate: "inorder (nd d k (nd d c a x b) y e) = inorder (nd d c' a x (nd d k' b y e))"
  by (cases d) auto

lemma tree_colour: "tree_at (hooks s) par p t \<Longrightarrow> colour (nh s) = Black \<Longrightarrow> colour (hook s p) = col t"
  by (cases t) auto

lemma tree_cases:
  obtains "t = Lf" | c a x b where "t = nd d c a x b"
proof (cases t)
  case (Nd c l x r)
  have "t = nd d c (if d = Lft then l else r) x (if d = Lft then r else l)" using Nd by (cases d) auto
  then show ?thesis by (rule that(2))
qed (rule that(1))

lemma red_cases:
  assumes "col t = Red"
  obtains a x b where "t = nd d Red a x b"
proof (rule tree_cases [of t thesis d])
  show thesis if "t = nd d c a x b" for c a x b using assms that by (intro \<open>\<And>a x b. t = nd d Red a x b \<Longrightarrow> thesis\<close>) simp
qed (use assms in simp)

end
