(* ===== verification/Rbtree_Insert.thy ===== *)
theory Rbtree_Insert
  imports Rbtree_Shape Ordered_Queue
begin

text \<open>
  Insertion: \<open>insert_fixup\<close> restores the conditions, and the whole operation refines the insertion into an ordered list, in the
  tree as well as in the list of successors and predecessors (\<open>rb_list\<close>).
\<close>

section \<open>Restoring the colours after an insertion\<close>

definition balanced :: "rbtree \<Rightarrow> nat list \<Rightarrow> bool" where
  "balanced s xs \<longleftrightarrow> (\<exists>t m. focus s [] None (root s) t \<and> inorder t = xs \<and> rb m t \<and> col t = Black)"

lemma balancedI: "focus s cs par p t \<Longrightarrow> rb n t \<Longrightarrow> okc cs n (col t) \<Longrightarrow> balanced s (inorder (plug cs t))"
  using focus_whole rb_plug unfolding balanced_def by blast

lemma balanced_paint:
  assumes "balanced s xs"
  shows "balanced (set_colour (root s) Black s) xs"
proof -
  obtain t m where t: "focus s [] None (root s) t" "inorder t = xs" "rb m t" "col t = Black" using assms by (auto simp: balanced_def)
  consider "t = Lf" | c a x b where "t = nd Lft c a x b" by (rule tree_cases)
  then show ?thesis
  proof cases
    case 1
    then have "root s = None" using t(1) by (simp add: focus_top)
    then have "focus (set_colour (root s) Black s) [] None (root (set_colour (root s) Black s)) t" using 1 by (simp add: focus_top set_colour_def)
    then show ?thesis using t unfolding balanced_def by blast
  next
    case 2
    then have r: "root s = Some x" "c = Black" using t(1,4) by (auto simp: focus_top)
    then have "focus (set_colour (Some x) Black s) [] None (Some x) t" using focus_colour [of s "[]" None x Lft c a b Black] t(1) 2 by simp
    then show ?thesis using t r unfolding balanced_def by (metis same_list_colour(3))
  qed
qed

lemma tree_parent: "tree_at h par (Some z) t \<Longrightarrow> parent (h z) = par"
  by (cases t) auto

lemma fixup_exit:
  assumes f: "focus s cs par (Some z) t" and t: "col t = Red" "rb n t" and c: "okc cs n Black" and nh: "colour (nh s) = Black"
    and top: "case cs of [] \<Rightarrow> True | (d, k, x, u) # _ \<Rightarrow> k = Black"
  shows "\<exists>s'. insert_fixup (Some z) s = retR s' \<and> balanced s' (inorder (plug cs t)) \<and> same_list s s'"
proof -
  have par: "parent (hooks s z) = par" using tree_parent [OF focusD(2) [OF f]] .
  have black: "colour (hook s par) = Black" using focusD(1) [OF f] top nh by (cases cs) auto
  have run: "insert_fixup (Some z) s = retR (set_colour (root s) Black s)" by (subst insert_fixup.simps) (simp add: par black)
  have "balanced (set_colour (root s) Black s) (inorder (plug cs t))"
  proof (cases cs)
    case Nil
    obtain a x b where t': "t = nd Lft Red a x b" by (rule red_cases [OF t(1)])
    then have x: "x = z" "root s = Some z" using f Nil by (auto simp: focus_top)
    have "focus (set_colour (Some z) Black s) [] None (Some z) (nd Lft Black a z b)" using focus_colour [of s "[]" None z Lft Red a b Black] f Nil t' x by (simp add: focus_top)
    moreover have "rb (Suc n) (nd Lft Black a z b)" using t(2) t' x by simp
    ultimately have "balanced (set_colour (Some z) Black s) (inorder (plug [] (nd Lft Black a z b)))" by (rule balancedI) simp
    then show ?thesis using Nil t' x by simp
  next
    case (Cons g cs')
    obtain d k x u where g: "g = (d, k, x, u)" by (cases g) auto
    have "okc cs n (col t)" using c top Cons g t(1) by simp
    then show ?thesis using balanced_paint [OF balancedI [OF f t(2)]] by simp
  qed
  then show ?thesis using run by auto
qed

text \<open>The last rotation, at the grandparent \<open>g\<close>.\<close>

lemma fixup_outer:
  assumes f: "focus s cs par (Some g) (nd d Black (nd d Red a q b) g u)" and a: "tree_at (hooks s) (Some q) (Some z) a" "col a = Red" "rb n a"
    and n: "rb n b" "rb n u" "col b = Black" "col u = Black" and c: "okc cs (Suc n) Black" and nh: "colour (nh s) = Black"
  shows "\<exists>s'. bindR (rotate_side (opp d) (Some g) (set_colour (Some g) Red (set_colour (Some q) Black s))) (insert_fixup (Some z)) = retR s' \<and>
    balanced s' (inorder (plug cs (nd d Black (nd d Red a q b) g u))) \<and> same_list s s'"
proof -
  have q: "parent (hooks s z) = Some q" "parent (hooks s q) = Some g" using tree_parent [OF a(1)] focusD(2) [OF f] by auto
  have "focus s ((d, Black, g, u) # cs) (Some g) (Some q) (nd d Red a q b)" using f focusD(2) [OF f] by (auto simp: focus_up)
  from focus_colour [OF this, of Black] have 1: "focus (set_colour (Some q) Black s) cs par (Some g) (nd d Black (nd d Black a q b) g u)"
    using focusD(2) [OF f] by (auto simp: focus_up)
  let ?s = "set_colour (Some g) Red (set_colour (Some q) Black s)"
  have "focus ?s cs par (Some g) (nd d Red (nd d Black a q b) g u)" by (rule focus_colour [OF 1])
  then have "focus ?s cs par (Some g) (nd (opp d) Red u g (nd (opp d) Black b q a))" by (simp add: nd_opp)
  from rotate_ok [OF this] obtain s1 where s1: "rotate_side (opp d) (Some g) ?s = retR s1" "focus s1 cs par (Some q) (nd (opp d) Black (nd (opp d) Red u g b) q a)" "same_list ?s s1" "nh s1 = nh ?s" by blast
  then have f1: "focus s1 cs par (Some q) (nd d Black a q (nd d Red b g u))" by (simp add: nd_opp)
  obtain za where "child d (hooks s1 q) = Some za" "tree_at (hooks s1) (Some q) (Some za) a" using focusD(2) [OF f1] a(2) by (cases a) auto
  then have z: "child d (hooks s1 q) = Some z" using a(1) by (cases a) auto
  have f2: "focus s1 ((d, Black, q, nd d Red b g u) # cs) (Some q) (Some z) a" using f1 z focusD(2) [OF f1] by (simp add: focus_up)
  have "okc ((d, Black, q, nd d Red b g u) # cs) n Black" using n c by simp
  from fixup_exit [OF f2 a(2,3) this] obtain s' where s': "insert_fixup (Some z) s1 = retR s'" "balanced s' (inorder (plug cs (nd d Black a q (nd d Red b g u))))" "same_list s1 s'"
    using s1(4) nh by auto
  have "inorder (plug cs (nd d Black a q (nd d Red b g u))) = inorder (plug cs (nd d Black (nd d Red a q b) g u))"
    by (rule inorder_plug_cong) (rule inorder_rotate [symmetric])
  moreover have "same_list s s'" using s1(3) s'(3) same_list_trans [OF same_list_colour(1) same_list_trans [OF same_list_colour(1)]] same_list_trans by blast
  ultimately show ?thesis using s1(1) s'(1,2) q by simp
qed

lemma focus_down: "focus s cs par (Some x) (nd d c a x b) \<Longrightarrow> focus s ((d, c, x, b) # cs) (Some x) (child d (hooks s x)) a"
  by (simp add: focus_up) (auto simp: focus_def)

lemma focus_parent: "focus s cs par (Some x) t \<Longrightarrow> parent (hooks s x) = par"
  using tree_parent focusD(2) by blast

lemma focus_colour_child:
  assumes f: "focus s cs par (Some g) (nd d c (nd e k a x b) g u)"
  shows "focus (set_colour (Some x) k' s) cs par (Some g) (nd d c (nd e k' a x b) g u)"
proof -
  have "child d (hooks s g) = Some x" using focusD(2) [OF f] by simp
  then have "focus s ((d, c, g, u) # cs) (Some g) (Some x) (nd e k a x b)" using focus_down [OF f] by simp
  from focus_colour [OF this, of k'] show ?thesis using focus_parent [OF f] by (simp add: focus_up)
qed

text \<open>The new item \<open>z\<close> below a red parent \<open>p\<close>, which is below a black grandparent \<open>g\<close>.\<close>

lemma red_parent:
  assumes f: "focus s ((d1, Red, p, s1) # (d, Black, g, u) # cs) par (Some z) t" and nh: "colour (nh s) = Black"
  shows "par = Some p" "parent (hooks s z) = Some p" "parent (hooks s p) = Some g" "colour (hooks s p) = Red" "child d1 (hooks s p) = Some z"
    "(if Some p = left (hooks s g) then Lft else Rgt) = d" "colour (hook s (child (opp d) (hooks s g))) = col u"
    "focus s ((d, Black, g, u) # cs) (Some g) (Some p) (nd d1 Red t p s1)"
    "focus s cs (parent (hooks s g)) (Some g) (nd d Black (nd d1 Red t p s1) g u)"
proof -
  show "par = Some p" "child d1 (hooks s p) = Some z" and fp: "focus s ((d, Black, g, u) # cs) (Some g) (Some p) (nd d1 Red t p s1)"
    using f by (simp_all add: focus_up)
  then show "parent (hooks s z) = Some p" "parent (hooks s p) = Some g" using focus_parent [OF f] focus_parent [OF fp] by simp_all
  show fg: "focus s cs (parent (hooks s g)) (Some g) (nd d Black (nd d1 Red t p s1) g u)" using fp by (simp add: focus_up)
  have "p \<notin> nodes u" using focusD(3) [OF fg] by (auto simp: distinct_nd)
  from ctx_at_side [OF focusD(1) [OF fp] this, of Lft] show "(if Some p = left (hooks s g) then Lft else Rgt) = d" by (cases d) auto
  show "colour (hooks s p) = Red" using focusD(2) [OF fp] by simp
  show "colour (hook s (child (opp d) (hooks s g))) = col u" using tree_colour [OF _ nh, of "Some g" _ u] focusD(2) [OF fg] by simp
qed

lemma fixup_red_uncle:
  assumes f: "focus s ((d1, Red, p, s1) # (d, Black, g, nd d Red ua w ub) # cs) par (Some z) t" and nh: "colour (nh s) = Black"
  shows "\<exists>s' gp. insert_fixup (Some z) s = insert_fixup (Some g) s' \<and> focus s' cs gp (Some g) (nd d Red (nd d1 Black t p s1) g (nd d Black ua w ub)) \<and> same_list s s' \<and> nh s' = nh s"
proof -
  note P = red_parent [OF f nh]
  have w: "child (opp d) (hooks s g) = Some w" using focusD(2) [OF P(9)] by simp
  have wr: "colour (hooks s w) = Red" using P(7) w by simp
  let ?s1 = "set_colour (Some p) Black s"
  let ?s2 = "set_colour (Some w) Black ?s1"
  let ?s3 = "set_colour (Some g) Red ?s2"
  let ?gp = "parent (hooks s g)"
  have "focus ?s1 cs ?gp (Some g) (nd d Black (nd d1 Black t p s1) g (nd d Red ua w ub))" by (rule focus_colour_child [OF P(9)])
  then have "focus ?s1 cs ?gp (Some g) (nd (opp d) Black (nd d Red ua w ub) g (nd d1 Black t p s1))" by (simp add: nd_opp)
  from focus_colour_child [OF this, of Black] have "focus ?s2 cs ?gp (Some g) (nd d Black (nd d1 Black t p s1) g (nd d Black ua w ub))" by (simp add: nd_opp)
  then have "focus ?s3 cs ?gp (Some g) (nd d Red (nd d1 Black t p s1) g (nd d Black ua w ub))" by (rule focus_colour)
  moreover have "insert_fixup (Some z) s = insert_fixup (Some g) ?s3"
    by (subst insert_fixup.simps) (simp add: P(2,3,4,6) w wr Let_def)
  moreover have "same_list s ?s3" using same_list_trans same_list_colour(1) by blast
  ultimately show ?thesis by (intro exI [of _ ?s3] exI [of _ ?gp]) simp
qed

lemma fixup_black_uncle:
  assumes f: "focus s ((d1, Red, p, s1) # (d, Black, g, u) # cs) par (Some z) t" and t: "col t = Red" "rb n t"
    and u: "rb n s1" "rb n u" "col s1 = Black" "col u = Black" and c: "okc cs (Suc n) Black" and nh: "colour (nh s) = Black"
  shows "\<exists>s'. insert_fixup (Some z) s = retR s' \<and> balanced s' (inorder (plug cs (nd d Black (nd d1 Red t p s1) g u))) \<and> same_list s s'"
proof (cases "d1 = d")
  note P = red_parent [OF f nh]
  case True
  have za: "tree_at (hooks s) (Some p) (Some z) t" using focusD(2) [OF f] P(1) by simp
  have nz: "Some z \<noteq> child (opp d) (hooks s p)"
    using ctx_at_side [OF focusD(1) [OF f], of "opp d"] focusD(2,3) [OF P(8)] True za by (cases t) (auto simp: distinct_nd)
  from fixup_outer [OF P(9) [unfolded True] za t u c nh]
  show ?thesis using True by (subst insert_fixup.simps) (simp add: P(2,3,4,6,7) u(4) nz Let_def)
next
  note P = red_parent [OF f nh]
  case False
  then have d1: "d1 = opp d" by (cases d; cases d1; simp)
  obtain a b where tz: "t = nd d Red a z b" using red_cases [OF t(1), of d] focusD(2) [OF f] by (metis option.inject tree_at_nd)
  have "focus s ((d, Black, g, u) # cs) (Some g) (Some p) (nd d Red s1 p (nd d Red a z b))" using P(8) by (simp add: d1 nd_opp tz)
  from rotate_ok [OF this] obtain s2 where r: "rotate_side d (Some p) s = retR s2" "focus s2 ((d, Black, g, u) # cs) (Some g) (Some z) (nd d Red (nd d Red s1 p a) z b)" "same_list s s2" "nh s2 = nh s" by blast
  obtain gp' where g': "focus s2 cs gp' (Some g) (nd d Black (nd d Red (nd d Red s1 p a) z b) g u)" using r(2) by (auto simp: focus_up)
  have pa: "tree_at (hooks s2) (Some z) (Some p) (nd d Red s1 p a)" using focusD(2) [OF r(2)] by auto
  have ab: "rb n a" "rb n b" "col a = Black" "col b = Black" using t(2) tz by auto
  have pr: "rb n (nd d Red s1 p a)" using u ab by simp
  have z2: "child (opp d) (hooks s p) = Some z" "parent (hooks s2 p) = Some z" "parent (hooks s2 z) = Some g" using P(5) d1 pa focus_parent [OF r(2)] by simp_all
  obtain s' where s': "insert_fixup (Some z) s = retR s'" "balanced s' (inorder (plug cs (nd d Black (nd d Red (nd d Red s1 p a) z b) g u)))" "same_list s2 s'"
  proof -
    have "insert_fixup (Some z) s = bindR (rotate_side (opp d) (Some g) (set_colour (Some g) Red (set_colour (Some z) Black s2))) (insert_fixup (Some p))"
      by (subst insert_fixup.simps) (simp add: P(2,3,4,6,7) u(4) Let_def r(1) z2)
    then show ?thesis using fixup_outer [OF g' pa _ pr ab(2) u(2) ab(4) u(4) c] r(4) nh that by auto
  qed
  have "inorder (plug cs (nd d Black (nd d Red (nd d Red s1 p a) z b) g u)) = inorder (plug cs (nd d Black (nd d1 Red t p s1) g u))"
    by (rule inorder_plug_cong) (cases d; simp add: tz d1)
  then show ?thesis using s' same_list_trans [OF r(3) s'(3)] by auto
qed

lemma fixup_loop:
  assumes "focus s cs par (Some z) t" "col t = Red" "rb n t" "okc cs n Black" "colour (nh s) = Black"
  shows "\<exists>s'. insert_fixup (Some z) s = retR s' \<and> balanced s' (inorder (plug cs t)) \<and> same_list s s'"
  using assms
proof (induction cs arbitrary: s par z t n rule: length_induct)
  case (1 cs)
  note f = 1(2) and t = 1(3,4) and c = 1(5) and nh = 1(6)
  show ?case
  proof (cases "case cs of [] \<Rightarrow> True | (d, k, x, u) # _ \<Rightarrow> k = Black")
    case True
    then show ?thesis by (rule fixup_exit [OF f t c nh])
  next
    case False
    then obtain d1 p s1 rest where cs1: "cs = (d1, Red, p, s1) # rest" by (auto split: list.splits) (metis colour.exhaust)
    have c1: "rb n s1" "col s1 = Black" "okc rest n Red" using c cs1 by auto
    then obtain d k g u cs2 where rest: "rest = (d, k, g, u) # cs2" by (cases rest) auto
    have k: "k = Black" using c1(3) rest by (cases k) auto
    have c2: "rb n u" "okc cs2 (Suc n) Black" using c1(3) rest k by auto
    have cs: "cs = (d1, Red, p, s1) # (d, Black, g, u) # cs2" using cs1 rest k by simp
    show ?thesis
    proof (cases "col u")
      case Red
      then obtain ua w ub where u: "u = nd d Red ua w ub" using red_cases by blast
      let ?t = "nd d Red (nd d1 Black t p s1) g (nd d Black ua w ub)"
      obtain s3 gp where s3: "insert_fixup (Some z) s = insert_fixup (Some g) s3" "focus s3 cs2 gp (Some g) ?t" "same_list s s3" "nh s3 = nh s"
        using fixup_red_uncle [OF f [unfolded cs u] nh] by blast
      have b: "rb (Suc n) ?t" using c1 c2 t u by simp
      obtain s' where s': "insert_fixup (Some g) s3 = retR s'" "balanced s' (inorder (plug cs2 ?t))" "same_list s3 s'"
        using 1(1) [rule_format, OF _ s3(2) _ b c2(2)] cs nh s3(4) by auto
      have "inorder (plug cs2 ?t) = inorder (plug cs t)" unfolding cs plug.simps by (rule inorder_plug_cong) (cases d; cases d1; simp add: u)
      then show ?thesis using s3(1) s' same_list_trans [OF s3(3) s'(3)] by simp
    next
      case Black
      show ?thesis using fixup_black_uncle [OF f [unfolded cs] t c1(1) c2(1) c1(2) Black c2(2) nh] cs by simp
    qed
  qed
qed

section \<open>The list of successors and predecessors\<close>

definition first_or :: "nat list \<Rightarrow> nat option \<Rightarrow> nat option" where
  "first_or xs n = (case xs of [] \<Rightarrow> n | x # _ \<Rightarrow> Some x)"

definition last_or :: "nat list \<Rightarrow> nat option \<Rightarrow> nat option" where
  "last_or xs p = (if xs = [] then p else Some (last xs))"

fun linked :: "(nat \<Rightarrow> rbtree_hook) \<Rightarrow> nat option \<Rightarrow> nat list \<Rightarrow> nat option \<Rightarrow> bool" where
  "linked h p [] n \<longleftrightarrow> True"
| "linked h p (x # xs) n \<longleftrightarrow> predecessor (h x) = p \<and> successor (h x) = first_or xs n \<and> linked h (Some x) xs n"

definition links :: "rbtree_hook \<Rightarrow> nat option \<times> nat option" where
  "links h = (predecessor h, successor h)"

lemma first_or_simps [simp]: "first_or [] n = n" "first_or (x # xs) n = Some x" "first_or (xs @ ys) n = first_or xs (first_or ys n)"
  by (cases xs; simp add: first_or_def)+

lemma last_or_simps [simp]: "last_or [] p = p" "last_or (x # xs) p = last_or xs (Some x)" "last_or (xs @ [y]) p = Some y"
  by (simp_all add: last_or_def)

lemma first_or_Some: "first_or xs None = Some x \<Longrightarrow> x \<in> set xs"
  by (cases xs) auto

lemma last_or_Some: "last_or xs None = Some x \<Longrightarrow> x \<in> set xs"
  by (auto simp: last_or_def split: if_splits)

lemma linked_append: "linked h p (xs @ ys) n \<longleftrightarrow> linked h p xs (first_or ys n) \<and> linked h (last_or xs p) ys n"
  by (induction xs arbitrary: p) auto

lemma linked_cong: "(\<And>x. x \<in> set xs \<Longrightarrow> links (h' x) = links (h x)) \<Longrightarrow> linked h' p xs n = linked h p xs n"
proof (induction xs arbitrary: p)
  case (Cons x xs)
  have "predecessor (h' x) = predecessor (h x)" "successor (h' x) = successor (h x)" using Cons.prems [of x] by (simp_all add: links_def)
  moreover have "linked h' (Some x) xs n = linked h (Some x) xs n" using Cons.IH Cons.prems by simp
  ultimately show ?case by simp
qed simp

lemma linked_first:
  assumes "linked h p xs n" "distinct xs" "\<And>x. x \<in> set xs \<Longrightarrow> links (h' x) = (if first_or xs None = Some x then (q, successor (h x)) else links (h x))"
  shows "linked h' q xs n"
proof (cases xs)
  case (Cons x ys)
  have "links (h' y) = links (h y)" if "y \<in> set ys" for y using assms(2) assms(3) [of y] Cons that by auto
  then have "linked h' (Some x) ys n = linked h (Some x) ys n" by (rule linked_cong)
  then show ?thesis using assms(1) assms(3) [of x] Cons by (simp add: links_def)
qed simp

lemma linked_last:
  assumes "linked h p xs n" "distinct xs" "\<And>x. x \<in> set xs \<Longrightarrow> links (h' x) = (if last_or xs None = Some x then (predecessor (h x), m) else links (h x))"
  shows "linked h' p xs m"
proof (cases xs rule: rev_cases)
  case (snoc ys x)
  have "links (h' y) = links (h y)" if "y \<in> set ys" for y using assms(2) assms(3) [of y] snoc that by auto
  then have "linked h' p ys (Some x) = linked h p ys (Some x)" by (rule linked_cong)
  then show ?thesis using assms(1) assms(3) [of x] snoc by (simp add: links_def linked_append)
qed simp

text \<open>Putting an element between two parts of the list, and taking it out.\<close>

lemma linked_insert:
  assumes "linked h None (as @ bs) None" "distinct (as @ bs)" "z \<notin> set as" "z \<notin> set bs"
    and "links (h' z) = (last_or as None, first_or bs None)"
    and "\<And>x. x \<in> set as \<Longrightarrow> links (h' x) = (if last_or as None = Some x then (predecessor (h x), Some z) else links (h x))"
    and "\<And>x. x \<in> set bs \<Longrightarrow> links (h' x) = (if first_or bs None = Some x then (Some z, successor (h x)) else links (h x))"
  shows "linked h' None (as @ z # bs) None"
proof -
  have L: "linked h None as (first_or bs None)" "linked h (last_or as None) bs None" using assms(1) by (simp_all add: linked_append)
  have "linked h' None as (Some z)" by (rule linked_last [OF L(1)]) (use assms(2,6) in auto)
  moreover have "linked h' (Some z) bs None" by (rule linked_first [OF L(2)]) (use assms(2,7) in auto)
  ultimately show ?thesis using assms(5) by (simp add: linked_append links_def)
qed

lemma linked_delete:
  assumes "linked h None (as @ z # bs) None" "distinct (as @ z # bs)"
    and "\<And>x. x \<in> set as \<Longrightarrow> links (h' x) = (if last_or as None = Some x then (predecessor (h x), first_or bs None) else links (h x))"
    and "\<And>x. x \<in> set bs \<Longrightarrow> links (h' x) = (if first_or bs None = Some x then (last_or as None, successor (h x)) else links (h x))"
  shows "linked h' None (as @ bs) None"
proof -
  have L: "linked h None as (Some z)" "linked h (Some z) bs None" using assms(1) by (simp_all add: linked_append)
  have "linked h' None as (first_or bs None)" by (rule linked_last [OF L(1)]) (use assms(2,3) in auto)
  moreover have "linked h' (last_or as None) bs None" by (rule linked_first [OF L(2)]) (use assms(2,4) in auto)
  ultimately show ?thesis by (simp add: linked_append)
qed

text \<open>The elements before and behind the hole of a context.\<close>

fun lhs :: "frame list \<Rightarrow> nat list" where
  "lhs [] = []"
| "lhs ((d, c, x, u) # cs) = lhs cs @ (if d = Lft then [] else inorder u @ [x])"

fun rhs :: "frame list \<Rightarrow> nat list" where
  "rhs [] = []"
| "rhs ((d, c, x, u) # cs) = (if d = Lft then x # inorder u else []) @ rhs cs"

lemma inorder_plug: "inorder (plug cs t) = lhs cs @ inorder t @ rhs cs"
proof (induction cs t rule: plug.induct)
  case (2 d c x u cs t)
  then show ?case by (cases d) simp_all
qed simp

text \<open>What the tree represents: a list of the items in order.\<close>

definition rb_list :: "rbtree \<Rightarrow> nat list \<Rightarrow> bool" where
  "rb_list s xs \<longleftrightarrow> balanced s xs \<and> linked (hooks s) None xs None \<and> head s = first_or xs None \<and> rsize s = of_nat (length xs)"

lemma balanced_distinct: "balanced s xs \<Longrightarrow> distinct xs"
  by (auto simp: balanced_def focus_def)

lemma same_list_linked: "same_list s s' \<Longrightarrow> linked (hooks s') p xs n = linked (hooks s) p xs n"
  by (rule linked_cong) (simp add: same_list_def links_def)

section \<open>Insertion\<close>

lemma focus_hook_free:
  assumes "focus s cs par p t" "x \<notin> set (inorder (plug cs t))"
  shows "focus (s\<lparr>nh := k, hooks := (hooks s)(x := h)\<rparr>) cs par p t"
proof -
  have x: "x \<notin> nodes t" "x \<notin> set (cnodes cs)" using assms(2) mset_plug [of cs t] by (metis UnCI set_mset_mset set_mset_union)+
  have "tree_at ((hooks s)(x := h)) par p t = tree_at (hooks s) par p t" using x by (intro tree_at_cong) auto
  moreover have "ctx_at ((hooks s)(x := h)) (root s) p par cs = ctx_at (hooks s) (root s) p par cs" using x by (intro ctx_at_cong) auto
  ultimately show ?thesis using assms(1) by (simp add: focus_def)
qed

context ordered_queue
begin

lemma walk_ok:
  assumes "focus s cs par p t" "sorted_wrt le (inorder (plug cs t))" "\<And>x. x \<in> set (lhs cs) \<Longrightarrow> \<not> lt z x" "\<And>x. x \<in> set (rhs cs) \<Longrightarrow> lt z x"
  shows "\<exists>cs' y. insert_walk lt z p par s = retR y \<and> focus s cs' y None Lf \<and> plug cs' Lf = plug cs t \<and>
    (\<forall>x \<in> set (lhs cs'). \<not> lt z x) \<and> (\<forall>x \<in> set (rhs cs'). lt z x)"
  using assms
proof (induction t arbitrary: cs par p)
  case Lf
  then have "p = None" by (simp add: focus_def)
  then show ?case using Lf by (intro exI [of _ cs] exI [of _ par]) (simp add: insert_walk.simps)
next
  case (Nd c l x r)
  have p: "p = Some x" using Nd.prems(1) by (simp add: focus_def)
  have srt: "sorted_wrt le (lhs cs @ (inorder l @ x # inorder r) @ rhs cs)" using Nd.prems(2) by (simp add: inorder_plug)
  show ?case
  proof (cases "lt z x")
    case True
    have f: "focus s ((Lft, c, x, r) # cs) (Some x) (left (hooks s x)) l" using focus_down [of s cs par x Lft c l r] Nd.prems(1) p by simp
    have r: "lt z y" if "y \<in> set (rhs ((Lft, c, x, r) # cs))" for y
    proof -
      have "y = x \<or> le x y \<or> y \<in> set (rhs cs)" using that srt by (auto simp: sorted_wrt_append)
      then show ?thesis using True lt_le_trans Nd.prems(4) by blast
    qed
    have "\<exists>cs' y. insert_walk lt z (left (hooks s x)) (Some x) s = retR y \<and> focus s cs' y None Lf \<and> plug cs' Lf = plug ((Lft, c, x, r) # cs) l \<and>
      (\<forall>x \<in> set (lhs cs'). \<not> lt z x) \<and> (\<forall>x \<in> set (rhs cs'). lt z x)"
      by (rule Nd.IH(1) [OF f]) (use Nd.prems r in auto)
    then show ?thesis using True p by (subst insert_walk.simps) simp
  next
    case False
    have f: "focus s ((Rgt, c, x, l) # cs) (Some x) (right (hooks s x)) r" using focus_down [of s cs par x Rgt c r l] Nd.prems(1) p by simp
    have r: "\<not> lt z y" if "y \<in> set (lhs ((Rgt, c, x, l) # cs))" for y
    proof -
      have "y = x \<or> le y x \<or> y \<in> set (lhs cs)" using that srt by (auto simp: sorted_wrt_append)
      then show ?thesis using False le_not_lt Nd.prems(3) by blast
    qed
    have "\<exists>cs' y. insert_walk lt z (right (hooks s x)) (Some x) s = retR y \<and> focus s cs' y None Lf \<and> plug cs' Lf = plug ((Rgt, c, x, l) # cs) r \<and>
      (\<forall>x \<in> set (lhs cs'). \<not> lt z x) \<and> (\<forall>x \<in> set (rhs cs'). lt z x)"
      by (rule Nd.IH(2) [OF f]) (use Nd.prems r in auto)
    then show ?thesis using False p by (subst insert_walk.simps) simp
  qed
qed

end

text \<open>The hooks after the new item \<open>z\<close> is below \<open>y\<close> and in the list between \<open>pr\<close> and \<open>su\<close>, one of which is \<open>y\<close>.\<close>

definition placed_item :: "dir \<Rightarrow> nat \<Rightarrow> nat \<Rightarrow> nat option \<Rightarrow> nat option \<Rightarrow> (nat \<Rightarrow> rbtree_hook) \<Rightarrow> nat \<Rightarrow> rbtree_hook" where
  "placed_item d z y pr su h n =
     (if n = z then \<lparr>parent = Some y, left = None, right = None, successor = su, predecessor = pr, colour = Red\<rparr>
      else let k = (if n = y then set_child d (Some z) (h n) else h n);
               k = (if Some n = pr then k\<lparr>successor := Some z\<rparr> else k)
           in if Some n = su then k\<lparr>predecessor := Some z\<rparr> else k)"

lemma insert_item_place:
  assumes "insert_walk lt z (root s) None s = retR (Some y)" "y \<noteq> z" "head s = Some e"
    and "d = (if lt z y then Lft else Rgt)" "pr = (if lt z y then predecessor (hooks s y) else Some y)" "su = (if lt z y then Some y else successor (hooks s y))"
    and "pr \<noteq> su" "pr \<noteq> Some z" "su \<noteq> Some z"
  shows "insert_item lt z s = insert_fixup (Some z) (s\<lparr>hooks := placed_item d z y pr su (hooks s), head := (if lt z e then Some z else Some e)\<rparr>)"
proof -
  show ?thesis
  proof (cases "lt z y")
    case True
    show ?thesis using assms True
      by (cases "predecessor (hooks s y)") (auto simp: insert_item_def Let_def link_before_def set_colour_def upd_def placed_item_def fun_eq_iff intro!: arg_cong [of _ _ "insert_fixup (Some z)"] rbtree.equality)
  next
    case False
    show ?thesis using assms False
      by (cases "successor (hooks s y)") (auto simp: insert_item_def Let_def link_after_def set_colour_def upd_def placed_item_def fun_eq_iff intro!: arg_cong [of _ _ "insert_fixup (Some z)"] rbtree.equality)
  qed
qed

lemma placed_item_shape: "shape (placed_item d z y pr su h n) = (if n = z then (Some y, None, None, Red) else if n = y then shape (set_child d (Some z) (h y)) else shape (h n))"
  by (cases d) (simp_all add: placed_item_def shape_def Let_def)

lemma placed_item_links:
  "links (placed_item d z y pr su h n) = (if n = z then (pr, su) else (if Some n = su then Some z else predecessor (h n), if Some n = pr then Some z else successor (h n)))"
  by (simp add: placed_item_def links_def Let_def)

lemma place_ok:
  assumes f: "focus s ((d, c, y, u) # cs) (Some y) None Lf" and z: "z \<notin> set (inorder (plug ((d, c, y, u) # cs) Lf))"
    and e: "pr = last_or (lhs ((d, c, y, u) # cs)) None" "su = first_or (rhs ((d, c, y, u) # cs)) None"
  shows "focus (s\<lparr>hooks := placed_item d z y pr su (hooks s), head := e\<rparr>) ((d, c, y, u) # cs) (Some y) (Some z) (nd Lft Red Lf z Lf)"
    and "linked (hooks s) None (inorder (plug ((d, c, y, u) # cs) Lf)) None \<Longrightarrow> linked (placed_item d z y pr su (hooks s)) None (lhs ((d, c, y, u) # cs) @ z # rhs ((d, c, y, u) # cs)) None"
proof -
  let ?cs = "(d, c, y, u) # cs"
  let ?h = "placed_item d z y pr su (hooks s)"
  note F = focusD [OF f]
  have zc: "z \<notin> set (cnodes ?cs)" using z mset_plug [of ?cs Lf] by (metis UnCI set_mset_mset set_mset_union)
  have "ctx_at ?h (root s) (Some z) (Some y) ?cs"
  proof (rule ctx_at_retarget [OF F(1,4)])
    have "\<forall>n \<in> nodes u \<union> set (cnodes cs). shape (?h n) = shape (hooks s n)" using zc F(4) by (auto simp: placed_item_shape)
    then show "case ?cs of [] \<Rightarrow> root s = Some z | (d, c, q, s') # cs' \<Rightarrow> root s = root s \<and> shape (?h q) = shape (set_child d (Some z) (hooks s q)) \<and> (\<forall>n \<in> nodes s' \<union> set (cnodes cs'). shape (?h n) = shape (hooks s n))"
      using zc by (simp add: placed_item_shape)
  qed
  moreover have "tree_at ?h (Some y) (Some z) (nd Lft Red Lf z Lf)" using placed_item_shape [of d z y pr su "hooks s" z] by (simp add: shape_def)
  moreover have "distinct (inorder (plug ?cs (nd Lft Red Lf z Lf)))" using F(4) zc unfolding distinct_plug by simp
  ultimately show "focus (s\<lparr>hooks := ?h, head := e\<rparr>) ?cs (Some y) (Some z) (nd Lft Red Lf z Lf)" by (simp add: focus_def)
  have dd: "distinct (lhs ?cs @ rhs ?cs)" using f inorder_plug [of ?cs Lf] unfolding focus_def by (metis append_Nil inorder.simps(1))
  have zz: "z \<notin> set (lhs ?cs)" "z \<notin> set (rhs ?cs)" using z by (simp_all add: inorder_plug)
  assume l: "linked (hooks s) None (inorder (plug ?cs Lf)) None"
  then have "linked (hooks s) None (lhs ?cs @ rhs ?cs) None" unfolding inorder_plug by (simp only: inorder.simps append_Nil)
  then show "linked ?h None (lhs ?cs @ z # rhs ?cs) None"
  proof (rule linked_insert [OF _ dd zz])
    show "links (?h z) = (last_or (lhs ?cs) None, first_or (rhs ?cs) None)" by (simp only: placed_item_links e simp_thms if_True)
    show "links (?h x) = (if last_or (lhs ?cs) None = Some x then (predecessor (hooks s x), Some z) else links (hooks s x))" if x: "x \<in> set (lhs ?cs)" for x
    proof -
      have "x \<noteq> z" "su \<noteq> Some x" using x zz dd first_or_Some [of "rhs ?cs" x] unfolding e by auto
      then show ?thesis unfolding e(1) [symmetric] unfolding placed_item_links by (auto simp: links_def)
    qed
    show "links (?h x) = (if first_or (rhs ?cs) None = Some x then (Some z, successor (hooks s x)) else links (hooks s x))" if x: "x \<in> set (rhs ?cs)" for x
    proof -
      have "x \<noteq> z" "pr \<noteq> Some x" using x zz dd last_or_Some [of "lhs ?cs" x] unfolding e by auto
      then show ?thesis unfolding e(2) [symmetric] unfolding placed_item_links by (auto simp: links_def)
    qed
  qed
qed

text \<open>The neighbours of the new item in the list are its parent and the item on the other side of the parent.\<close>

lemma neighbours:
  assumes l: "linked h None (lhs ((d, c, y, u) # cs) @ rhs ((d, c, y, u) # cs)) None" and dd: "distinct (lhs ((d, c, y, u) # cs) @ rhs ((d, c, y, u) # cs))"
    and pr: "pr = (if d = Lft then predecessor (h y) else Some y)" and su: "su = (if d = Lft then Some y else successor (h y))"
  shows "pr = last_or (lhs ((d, c, y, u) # cs)) None" "su = first_or (rhs ((d, c, y, u) # cs)) None" "pr \<noteq> su"
proof -
  show p: "pr = last_or (lhs ((d, c, y, u) # cs)) None" and s: "su = first_or (rhs ((d, c, y, u) # cs)) None"
    using l unfolding pr su by (auto simp: linked_append last_or_def)
  show "pr \<noteq> su"
  proof
    assume "pr = su"
    moreover have "pr = Some y \<or> su = Some y" unfolding pr su by auto
    ultimately have "last_or (lhs ((d, c, y, u) # cs)) None = Some y" "first_or (rhs ((d, c, y, u) # cs)) None = Some y" using p s by auto
    then show False using dd last_or_Some first_or_Some by (metis disjoint_iff distinct_append)
  qed
qed

context ordered_queue
begin

lemma insert_empty:
  assumes "root s = None"
  shows "\<exists>s'. rb_insert lt z s = retR s' \<and> rsize s' = rsize s + 1 \<and> (head s' = Some z \<and> balanced s' [z] \<and> linked (hooks s') None [z] None)"
proof -
  let ?s = "s\<lparr>nh := new_hook, root := Some z, hooks := (hooks s)(z := new_hook), head := Some z, rsize := rsize s + 1\<rparr>"
  have "focus ?s [] None (root ?s) (nd Lft Black Lf z Lf)" by (simp add: focus_top new_hook_def)
  moreover have "rb 1 (nd Lft Black Lf z Lf)" "col (nd Lft Black Lf z Lf) = Black" "inorder (nd Lft Black Lf z Lf) = [z]" by simp_all
  ultimately have "balanced ?s [z]" unfolding balanced_def by blast
  moreover have "rb_insert lt z s = retR ?s" using assms by (simp add: rb_insert_def Let_def upd_def)
  ultimately show ?thesis by (intro exI [of _ ?s]) (simp add: new_hook_def)
qed

lemma insert_ok:
  assumes r: "rb_list s xs" and srt: "sorted_wrt le xs" and z: "z \<notin> set xs"
  shows "\<exists>s'. rb_insert lt z s = retR s' \<and> rb_list s' (insert_by lt z xs)"
proof (cases "root s")
  case None
  have "xs = []" using r None by (auto simp: rb_list_def balanced_def focus_top) (metis inorder.simps(1) tree_at.elims(2) option.distinct(1))
  then show ?thesis using insert_empty [OF None, of z] r by (auto simp: rb_list_def)
next
  case (Some rt)
  let ?s = "s\<lparr>nh := new_hook, hooks := (hooks s)(z := new_hook)\<rparr>"
  obtain t m where t: "focus s [] None (root s) t" "inorder t = xs" "rb m t" "col t = Black" using r by (auto simp: rb_list_def balanced_def)
  have "focus ?s [] None (root ?s) t" using focus_hook_free [OF t(1)] t(2) z by simp
  from walk_ok [OF this, of z] obtain cs y where w: "insert_walk lt z (root ?s) None ?s = retR y" "focus ?s cs y None Lf" "plug cs Lf = t"
    "\<forall>x \<in> set (lhs cs). \<not> lt z x" "\<forall>x \<in> set (rhs cs). lt z x" using srt t(2) by auto
  have "cs \<noteq> []" using w(3) t(1) Some by (auto simp: focus_top)
  then obtain d c q u cs' where cs: "cs = (d, c, q, u) # cs'" by (cases cs) auto
  have y: "y = Some q" using w(2) cs by (simp add: focus_up)
  have d: "lt z q \<longleftrightarrow> d = Lft" using w(4,5) cs by (cases d) auto
  have xs: "xs = lhs cs @ rhs cs" using t(2) w(3) inorder_plug [of cs Lf] by simp
  define pr su where e: "pr = (if d = Lft then predecessor (hooks ?s q) else Some q)" "su = (if d = Lft then Some q else successor (hooks ?s q))"
  have l: "linked (hooks ?s) None (lhs cs @ rhs cs) None"
  proof -
    have "linked (hooks ?s) None xs None = linked (hooks s) None xs None" by (rule linked_cong) (use z in auto)
    then show ?thesis using r xs by (simp add: rb_list_def)
  qed
  have dd: "distinct (lhs cs @ rhs cs)" using balanced_distinct [of s xs] r unfolding rb_list_def xs by blast
  have N: "pr = last_or (lhs cs) None" "su = first_or (rhs cs) None" "pr \<noteq> su" using neighbours [OF l [unfolded cs] dd [unfolded cs] e] cs by auto
  have nz: "pr \<noteq> Some z" "su \<noteq> Some z" using N z xs first_or_Some last_or_Some by fastforce+
  have qz: "q \<noteq> z" using z xs cs by (auto split: if_splits)
  obtain e' where e': "head s = Some e'" using r Some t by (cases xs) (auto simp: rb_list_def, metis inorder.simps(1) focus_top tree_at.simps(1) list.distinct(1) inorder.elims append_is_Nil_conv option.distinct(1))
  let ?s1 = "?s\<lparr>hooks := placed_item d z q pr su (hooks ?s), head := (if lt z e' then Some z else Some e')\<rparr>"
  have run: "insert_item lt z ?s = insert_fixup (Some z) ?s1"
    by (rule insert_item_place) (use w(1) y qz e' d e N nz dir.exhaust [of d] in auto)
  have zx: "z \<notin> set (inorder (plug ((d, c, q, u) # cs') Lf))" using z w(3) t(2) cs by simp
  note P = place_ok [OF w(2) [unfolded cs y] zx N(1,2) [unfolded cs]]
  have okc: "okc cs 0 Black" using plug_rb [of m cs Lf] t w(3) by auto
  obtain s' where s': "insert_fixup (Some z) ?s1 = retR s'" "balanced s' (inorder (plug cs (nd Lft Red Lf z Lf)))" "same_list ?s1 s'"
    using fixup_loop [OF P(1) _ _ okc [unfolded cs]] cs by (auto simp: new_hook_def)
  have ins: "insert_by lt z xs = lhs cs @ z # rhs cs" unfolding xs by (rule insert_by_split) (use w(4,5) in auto)
  then have i: "inorder (plug cs (nd Lft Red Lf z Lf)) = insert_by lt z xs" by (simp add: inorder_plug)
  have "linked (hooks s') None (insert_by lt z xs) None" using same_list_linked [OF s'(3)] P(2) [folded cs] l ins by (simp add: inorder_plug)
  moreover have "head s' = first_or (insert_by lt z xs) None"
  proof -
    have "head s' = (if lt z e' then Some z else Some e')" "first_or xs None = Some e'" using s'(3) r e' by (simp_all add: same_list_def rb_list_def)
    then show ?thesis by (cases xs) auto
  qed
  moreover have "rsize s' = of_nat (length xs)" using s'(3) r by (simp add: same_list_def rb_list_def)
  moreover have "rb_insert lt z s = retR (s'\<lparr>rsize := rsize s' + 1\<rparr>)" using Some run s'(1) by (simp add: rb_insert_def Let_def upd_def)
  ultimately show ?thesis using s'(2) i by (auto simp: rb_list_def balanced_def focus_def)
qed

end

end
