(* ===== verification/Rbtree_Fixup.thy ===== *)
theory Rbtree_Fixup
  imports Rbtree_Insert
begin

text \<open>
  \<open>_remove_fixup\<close>: the tree in focus lacks one black node; the loop ends with a red-black tree of the same items.
\<close>

section \<open>Restoring the colours after a removal\<close>

fun up :: "colour \<Rightarrow> nat \<Rightarrow> nat" where
  "up Red n = n"
| "up Black n = Suc n"

lemma okc_Cons: "okc ((d, c, x, u) # cs) n k \<longleftrightarrow> rb n u \<and> (c = Red \<longrightarrow> k = Black \<and> col u = Black) \<and> okc cs (up c n) c"
  by (cases c) auto

lemma rb_up: "rb (up c n) (nd d c a x b) \<longleftrightarrow> rb n a \<and> rb n b \<and> (c = Red \<longrightarrow> col a = Black \<and> col b = Black)"
  by (cases c) auto

text \<open>A red-black tree, but for two red nodes in a row at its root.\<close>

fun weak :: "nat \<Rightarrow> ctree \<Rightarrow> bool" where
  "weak n (Nd Red l x r) \<longleftrightarrow> rb n l \<and> rb n r"
| "weak n t \<longleftrightarrow> rb n t"

lemma weak_nd: "weak (up c n) (nd d c a x b) \<longleftrightarrow> rb n a \<and> rb n b"
  by (cases d; cases c) auto

lemma weak_black: "col t = Black \<Longrightarrow> weak n t = rb n t"
  by (induction n t rule: weak.induct) auto

definition root_of :: "ctree \<Rightarrow> nat option" where
  "root_of t = (case t of Lf \<Rightarrow> None | Nd _ _ x _ \<Rightarrow> Some x)"

lemma root_of_simps [simp]: "root_of Lf = None" "root_of (Nd c a x b) = Some x" "root_of (nd d c a x b) = Some x"
  by (cases d; simp add: root_of_def)+

lemma tree_at_root: "tree_at h par p t \<Longrightarrow> p = root_of t"
  by (cases t) (auto simp: root_of_def)

lemma tree_parent_or: "tree_at (hooks s) par p t \<Longrightarrow> (t = Lf \<Longrightarrow> parent (nh s) = par) \<Longrightarrow> parent (hook s p) = par"
  by (cases t) auto

lemma focus_none: "focus (set_colour None c s) cs par p t = focus s cs par p t"
  by (simp add: focus_def set_colour_def)

lemma hook_colour_simps [simp]:
  "parent (hook (set_colour p c s) x) = parent (hook s x)" "child d (hook (set_colour p c s) x) = child d (hook s x)"
  by (cases p; cases x; simp add: set_colour_def)+

definition remove_far :: "dir \<Rightarrow> nat option \<Rightarrow> nat option \<Rightarrow> rbtree \<Rightarrow> rbtree run" where
  "remove_far d x w s =
     (let s = set_colour w (colour (hook s (parent_of s x))) s;
          s = set_colour (parent_of s x) Black s;
          s = set_colour (child (opp d) (hook s w)) Black s
      in bindR (rotate_side d (parent_of s x) s) (\<lambda>s. remove_fixup (root s) s))"

definition remove_rest :: "dir \<Rightarrow> nat option \<Rightarrow> nat option \<Rightarrow> rbtree \<Rightarrow> rbtree run" where
  "remove_rest d x w s =
     (if colour (hook s (child d (hook s w))) = Black \<and> colour (hook s (child (opp d) (hook s w))) = Black
      then let s = set_colour w Red s in remove_fixup (parent_of s x) s
      else bindR (if colour (hook s (child (opp d) (hook s w))) = Black
                  then let s = set_colour (child d (hook s w)) Black s;
                           s = set_colour w Red s
                       in bindR (rotate_side (opp d) w s) (\<lambda>s. retR (child (opp d) (hook s (parent_of s x)), s))
                  else retR (w, s)) (\<lambda>(w, s). remove_far d x w s))"

lemma remove_fixup_unfold:
  "remove_fixup x s =
     (if x \<noteq> root s \<and> colour (hook s x) = Black
      then let d = (if x = left (hook s (parent_of s x)) then Lft else Rgt);
               w = child (opp d) (hook s (parent_of s x))
           in bindR (if colour (hook s w) = Red
                     then let s = set_colour w Black s;
                              s = set_colour (parent_of s x) Red s
                          in bindR (rotate_side d (parent_of s x) s) (\<lambda>s. retR (child (opp d) (hook s (parent_of s x)), s))
                     else retR (w, s)) (\<lambda>(w, s). remove_rest d x w s)
      else retR (set_colour x Black s))"
  unfolding remove_rest_def remove_far_def by (subst remove_fixup.simps) (simp only: Let_def)

lemma remove_exit:
  assumes f: "focus s cs par p t" and t: "weak n t" "cs = [] \<or> col t = Red" and c: "okc cs (Suc n) Black" and nh: "colour (nh s) = Black"
  shows "\<exists>s'. remove_fixup p s = retR s' \<and> balanced s' (inorder (plug cs t)) \<and> same_list s s'"
proof -
  have p: "p = root s" if "cs = []" using f that by (simp add: focus_def)
  have "colour (hook s p) = col t" using tree_colour [OF focusD(2) [OF f] nh] .
  then have run: "remove_fixup p s = retR (set_colour p Black s)" using t(2) p by (subst remove_fixup.simps) auto
  have "balanced (set_colour p Black s) (inorder (plug cs t))"
  proof (cases "col t")
    case Red
    obtain a x b where t': "t = nd Lft Red a x b" by (rule red_cases [OF Red])
    then have px: "p = Some x" using focusD(2) [OF f] by simp
    have "focus (set_colour p Black s) cs par p (nd Lft Black a x b)" using focus_colour [of s cs par x Lft Red a b Black] f t' px by simp
    moreover have "rb (Suc n) (nd Lft Black a x b)" using t(1) t' by simp
    ultimately have "balanced (set_colour p Black s) (inorder (plug cs (nd Lft Black a x b)))" by (rule balancedI) (use c in simp)
    moreover have "inorder (plug cs (nd Lft Black a x b)) = inorder (plug cs t)" unfolding t' by (rule inorder_plug_cong) (rule inorder_colour)
    ultimately show ?thesis by simp
  next
    case Black
    then have "cs = []" "rb n t" using t weak_black by auto
    then have "balanced s (inorder (plug cs t))" using balancedI [OF f \<open>rb n t\<close>] Black by simp
    then show ?thesis using balanced_paint p \<open>cs = []\<close> by simp
  qed
  then show ?thesis using run by auto
qed

lemma remove_fixup_root: "balanced s xs \<Longrightarrow> \<exists>s'. remove_fixup (root s) s = retR s' \<and> balanced s' xs \<and> same_list s s'"
  by (subst remove_fixup.simps) (use balanced_paint in auto)

lemma focus_colour_far:
  assumes f: "focus s cs par (Some q) (nd d c t q (nd d k b w (nd e j a v g)))"
  shows "focus (set_colour (Some v) i s) cs par (Some q) (nd d c t q (nd d k b w (nd e i a v g)))"
proof -
  have "focus s cs par (Some q) (nd (opp d) c (nd d k b w (nd e j a v g)) q t)" using f by (simp add: nd_opp)
  from focus_down [OF this] have "focus s ((opp d, c, q, t) # cs) (Some q) (Some w) (nd (opp d) k (nd e j a v g) w b)" using focusD(2) [OF f] by (simp add: nd_opp)
  from focus_colour_child [OF this, of i] show ?thesis using focus_parent [OF f] by (simp add: focus_up nd_opp)
qed

lemma focus_colour_sibling:
  assumes f: "focus s cs par (Some q) (nd d c t q (nd e k b w h))"
  shows "focus (set_colour (Some w) i s) cs par (Some q) (nd d c t q (nd e i b w h))"
  using focus_colour_child [of s cs par q "opp d" c e k b w h t i] f by (simp add: nd_opp)

lemma rest_far:
  assumes f: "focus s cs par (Some q) (nd d c t q (nd d Black b w (nd d Red a v g)))" and lf: "t = Lf \<Longrightarrow> parent (nh s) = Some q"
    and n: "rb n t" "rb n b" "rb n (nd d Red a v g)" and c: "okc cs (up c (Suc n)) c"
  shows "\<exists>s'. remove_far d (root_of t) (Some w) s = retR s' \<and> balanced s' (inorder (plug cs (nd d c t q (nd d Black b w (nd d Red a v g))))) \<and> same_list s s'"
proof -
  note T = focusD(2) [OF f]
  have q: "parent (hook s (root_of t)) = Some q" using tree_parent_or [of s "Some q" "root_of t" t] T tree_at_root [of "hooks s" "Some q" "child d (hooks s q)" t] lf by auto
  have cq: "colour (hooks s q) = c" "child (opp d) (hooks s w) = Some v" using T by auto
  let ?s1 = "set_colour (Some w) c s"
  let ?s2 = "set_colour (Some q) Black ?s1"
  let ?s3 = "set_colour (Some v) Black ?s2"
  have "focus ?s1 cs par (Some q) (nd d c t q (nd d c b w (nd d Red a v g)))" by (rule focus_colour_sibling [OF f])
  from focus_colour [OF this] have "focus ?s2 cs par (Some q) (nd d Black t q (nd d c b w (nd d Red a v g)))" .
  from focus_colour_far [OF this] have "focus ?s3 cs par (Some q) (nd d Black t q (nd d c b w (nd d Black a v g)))" .
  from rotate_ok [OF this] obtain s4 where s4: "rotate_side d (Some q) ?s3 = retR s4" "focus s4 cs par (Some w) (nd d c (nd d Black t q b) w (nd d Black a v g))" "same_list ?s3 s4" by blast
  have "rb (up c (Suc n)) (nd d c (nd d Black t q b) w (nd d Black a v g))" using n by (simp add: rb_up)
  from balancedI [OF s4(2) this] c have "balanced s4 (inorder (plug cs (nd d c (nd d Black t q b) w (nd d Black a v g))))" by simp
  then obtain s' where s': "remove_fixup (root s4) s4 = retR s'" "balanced s' (inorder (plug cs (nd d c (nd d Black t q b) w (nd d Black a v g))))" "same_list s4 s'"
    using remove_fixup_root by blast
  have "inorder (plug cs (nd d c (nd d Black t q b) w (nd d Black a v g))) = inorder (plug cs (nd d c t q (nd d Black b w (nd d Red a v g))))"
    by (rule inorder_plug_cong) (cases d; simp)
  moreover have "same_list s s'" using s4(3) s'(3) same_list_trans same_list_colour(1) by blast
  moreover have "remove_far d (root_of t) (Some w) s = retR s'" using s4(1) s'(1) cq by (simp add: remove_far_def Let_def q)
  ultimately show ?thesis using s'(2) by auto
qed

lemma rest_near:
  assumes f: "focus s cs par (Some q) (nd d c t q (nd d Black (nd d Red a v g) w h))"
  shows "\<exists>s'. rotate_side (opp d) (Some w) (set_colour (Some w) Red (set_colour (Some v) Black s)) = retR s' \<and>
    focus s' cs par (Some q) (nd d c t q (nd d Black a v (nd d Red g w h))) \<and> same_list s s' \<and> nh s' = nh s"
proof -
  let ?s1 = "set_colour (Some w) Red (set_colour (Some v) Black s)"
  have "focus s cs par (Some q) (nd (opp d) c (nd d Black (nd d Red a v g) w h) q t)" using f by (simp add: nd_opp)
  from focus_down [OF this] have "focus s ((opp d, c, q, t) # cs) (Some q) (Some w) (nd d Black (nd d Red a v g) w h)" using focusD(2) [OF f] by simp
  from focus_colour [OF focus_colour_child [OF this]] have "focus ?s1 ((opp d, c, q, t) # cs) (Some q) (Some w) (nd (opp d) Red h w (nd (opp d) Black g v a))" by (simp add: nd_opp)
  from rotate_ok [OF this] obtain s' where s': "rotate_side (opp d) (Some w) ?s1 = retR s'" "focus s' ((opp d, c, q, t) # cs) (Some q) (Some v) (nd (opp d) Black (nd (opp d) Red h w g) v a)" "same_list ?s1 s'" "nh s' = nh s" by auto
  have "\<exists>par'. focus s' cs par' (Some q) (nd d c t q (nd d Black a v (nd d Red g w h)))" using s'(2) by (auto simp: focus_up nd_opp)
  moreover have "par' = par" if "focus s' cs par' (Some q) t'" for par' t' using that f by (cases cs) (auto simp: focus_def)
  moreover have "same_list s s'" using s'(3) same_list_trans same_list_colour(1) by blast
  ultimately show ?thesis using s'(1,4) by blast
qed

lemma rest_ok:
  assumes f: "focus s cs par (Some q) (nd d c t q u)" and lf: "t = Lf \<Longrightarrow> parent (nh s) = Some q"
    and n: "rb n t" "rb (Suc n) u" "col u = Black" and c: "okc cs (up c (Suc n)) c" and nh: "colour (nh s) = Black"
    and H: "\<And>s' t'. focus s' cs par (Some q) t' \<Longrightarrow> weak (up c n) t' \<Longrightarrow> col t' = c \<Longrightarrow> colour (nh s') = Black \<Longrightarrow>
      \<exists>s''. remove_fixup (Some q) s' = retR s'' \<and> balanced s'' (inorder (plug cs t')) \<and> same_list s' s''"
  shows "\<exists>s'. remove_rest d (root_of t) (root_of u) s = retR s' \<and> balanced s' (inorder (plug cs (nd d c t q u))) \<and> same_list s s'"
proof -
  obtain b w h where u: "u = nd d Black b w h" using n(2,3) by (cases rule: tree_cases [of u _ d]) auto
  have bh: "rb n b" "rb n h" using n(2) u by auto
  note T = focusD(2) [OF f]
  have q: "parent (hook s (root_of t)) = Some q" using tree_parent_or [of s "Some q" "root_of t" t] T tree_at_root [of "hooks s" "Some q" "child d (hooks s q)" t] lf by auto
  have k: "colour (hook s (child d (hooks s w))) = col b" "colour (hook s (child (opp d) (hooks s w))) = col h"
    using tree_colour [OF _ nh, of "Some w" _ b] tree_colour [OF _ nh, of "Some w" _ h] T u by auto
  consider "col b = Black" "col h = Black" | "col h = Red" | "col b = Red" "col h = Black" by (metis colour.exhaust)
  then show ?thesis
  proof cases
    case 1
    let ?t = "nd d c t q (nd d Red b w h)"
    have "focus (set_colour (Some w) Red s) cs par (Some q) ?t" using focus_colour_sibling f u by blast
    from H [OF this] obtain s' where s': "remove_fixup (Some q) (set_colour (Some w) Red s) = retR s'" "balanced s' (inorder (plug cs ?t))" "same_list (set_colour (Some w) Red s) s'"
      using n(1) bh 1 nh by (auto simp: weak_nd)
    moreover have "inorder (plug cs ?t) = inorder (plug cs (nd d c t q u))" unfolding u by (rule inorder_plug_cong) (cases d; simp)
    moreover have "remove_rest d (root_of t) (root_of u) s = remove_fixup (Some q) (set_colour (Some w) Red s)" using k 1 q u by (simp add: remove_rest_def Let_def)
    moreover have "same_list s s'" using s'(3) same_list_trans same_list_colour(1) by blast
    ultimately show ?thesis by auto
  next
    case 2
    then obtain a v g where h: "h = nd d Red a v g" using red_cases by blast
    have "remove_rest d (root_of t) (root_of u) s = remove_far d (root_of t) (Some w) s" using k 2 u by (simp add: remove_rest_def)
    then show ?thesis using rest_far [OF f [unfolded u h] lf n(1) bh(1) bh(2) [unfolded h] c] u h by simp
  next
    case 3
    then obtain a v g where b: "b = nd d Red a v g" using red_cases by blast
    have w: "child d (hooks s w) = Some v" using T u b by simp
    obtain s1 where s1: "rotate_side (opp d) (Some w) (set_colour (Some w) Red (set_colour (Some v) Black s)) = retR s1" "focus s1 cs par (Some q) (nd d c t q (nd d Black a v (nd d Red g w h)))" "same_list s s1" "nh s1 = nh s"
      using rest_near [OF f [unfolded u b]] by blast
    have ag: "rb n a" "rb n (nd d Red g w h)" using bh b 3 by auto
    note T1 = focusD(2) [OF s1(2)]
    have q1: "parent (hook s1 (root_of t)) = Some q" using tree_parent_or [of s1 "Some q" "root_of t" t] T1 tree_at_root [of "hooks s1" "Some q" "child d (hooks s1 q)" t] lf s1(4) by auto
    obtain s' where s': "remove_far d (root_of t) (Some v) s1 = retR s'" "balanced s' (inorder (plug cs (nd d c t q (nd d Black a v (nd d Red g w h)))))" "same_list s1 s'"
      using rest_far [OF s1(2) _ n(1) ag c] lf s1(4) by auto
    have "inorder (plug cs (nd d c t q (nd d Black a v (nd d Red g w h)))) = inorder (plug cs (nd d c t q u))" unfolding u b by (rule inorder_plug_cong) (cases d; simp)
    moreover have "remove_rest d (root_of t) (root_of u) s = remove_far d (root_of t) (Some v) s1" using k 3 u w s1(1) q1 T1 by (simp add: remove_rest_def Let_def)
    ultimately show ?thesis using s' same_list_trans [OF s1(3) s'(3)] by auto
  qed
qed

lemma focus_root_Some:
  assumes "focus s cs par (Some x) t"
  shows "root s \<noteq> None"
proof -
  have "tree_at (hooks s) None (root s) (plug cs t)" using focus_whole [OF assms] by (simp add: focus_top)
  moreover have "x \<in> nodes (plug cs t)" using focusD(2) [OF assms] mset_plug [of cs t] by (cases t) (auto simp flip: set_mset_mset)
  ultimately show ?thesis by (cases "plug cs t") auto
qed

lemma not_root:
  assumes f: "focus s (g # cs) par p t"
  shows "p \<noteq> root s"
proof -
  obtain d c q u where g: "g = (d, c, q, u)" by (cases g) auto
  have fq: "focus s cs (parent (hooks s q)) (Some q) (nd d c t q u)" and par: "par = Some q" using f g by (simp_all add: focus_up)
  show ?thesis
  proof (cases p)
    case None
    then show ?thesis using focus_root_Some [OF fq] by auto
  next
    case (Some x)
    then have "parent (hook s p) = Some q" using focus_parent [of s "g # cs" par x t] f par by simp
    then show ?thesis using focus_root [OF fq] by auto
  qed
qed

lemma remove_side:
  assumes f: "focus s cs par (Some q) (nd d c t q u)" and u: "rb (Suc n) u"
  shows "(root_of t = left (hooks s q)) = (d = Lft)" "child d (hooks s q) = root_of t" "child (opp d) (hooks s q) = root_of u"
proof -
  show c: "child d (hooks s q) = root_of t" "child (opp d) (hooks s q) = root_of u" using focusD(2) [OF f] by (auto dest: tree_at_root)
  have "root_of t \<noteq> root_of u" using focusD(3) [OF f] u by (cases t; cases u) (auto simp: distinct_nd root_of_def)
  then show "(root_of t = left (hooks s q)) = (d = Lft)" using c by (cases d) auto
qed

text \<open>A red sibling is rotated away.\<close>

lemma remove_red_sibling:
  assumes f: "focus s cs par (Some q) (nd d Black t q (nd d Red b w h))" and lf: "t = Lf \<Longrightarrow> parent (nh s) = Some q"
    and n: "rb n t" "rb (Suc n) b" "rb (Suc n) h" "col b = Black" and c: "okc cs (Suc (Suc n)) Black" and nh: "colour (nh s) = Black"
  shows "\<exists>s'. bindR (bindR (rotate_side d (Some q) (set_colour (Some q) Red (set_colour (Some w) Black s))) (\<lambda>s. retR (child (opp d) (hook s (parent_of s (root_of t))), s)))
      (\<lambda>(w, s). remove_rest d (root_of t) w s) = retR s' \<and> balanced s' (inorder (plug cs (nd d Black t q (nd d Red b w h)))) \<and> same_list s s'"
proof -
  let ?s1 = "set_colour (Some q) Red (set_colour (Some w) Black s)"
  have "focus ?s1 cs par (Some q) (nd d Red t q (nd d Black b w h))" by (rule focus_colour [OF focus_colour_sibling [OF f]])
  from rotate_ok [OF this] obtain s2 where s2: "rotate_side d (Some q) ?s1 = retR s2" "focus s2 cs par (Some w) (nd d Black (nd d Red t q b) w h)" "same_list ?s1 s2" "nh s2 = nh s" by auto
  let ?cs = "(d, Black, w, h) # cs"
  have f2: "focus s2 ?cs (Some w) (Some q) (nd d Red t q b)" using focus_down [OF s2(2)] focusD(2) [OF s2(2)] by simp
  note S = remove_side [OF f2 n(2)]
  have q: "parent (hook s2 (root_of t)) = Some q" using tree_parent_or [of s2 "Some q" "root_of t" t] focusD(2) [OF f2] S(2) lf s2(4) by simp
  have "\<exists>s'. remove_rest d (root_of t) (root_of b) s2 = retR s' \<and> balanced s' (inorder (plug ?cs (nd d Red t q b))) \<and> same_list s2 s'"
  proof (rule rest_ok [OF f2 _ n(1,2,4)])
    show "okc ?cs (up Red (Suc n)) Red" using n(3) c by simp
    show "\<exists>s''. remove_fixup (Some q) s' = retR s'' \<and> balanced s'' (inorder (plug ?cs t')) \<and> same_list s' s''"
      if "focus s' ?cs (Some w) (Some q) t'" "weak (up Red n) t'" "col t' = Red" "colour (nh s') = Black" for s' t'
      by (rule remove_exit [OF that(1), of n]) (use that n c in auto)
  qed (use lf s2(4) nh in auto)
  then obtain s' where s': "remove_rest d (root_of t) (root_of b) s2 = retR s'" "balanced s' (inorder (plug ?cs (nd d Red t q b)))" "same_list s2 s'" by blast
  have "inorder (plug ?cs (nd d Red t q b)) = inorder (plug cs (nd d Black t q (nd d Red b w h)))" by (simp) (rule inorder_plug_cong, cases d; simp)
  moreover have "same_list s s'" using s2(3) s'(3) same_list_trans same_list_colour(1) by blast
  ultimately show ?thesis using s2(1) s'(1,2) q S(3) by simp
qed

lemma remove_loop:
  assumes "focus s cs par p t" "weak n t" "okc cs (Suc n) Black" "colour (nh s) = Black" "t = Lf \<Longrightarrow> parent (nh s) = par"
  shows "\<exists>s'. remove_fixup p s = retR s' \<and> balanced s' (inorder (plug cs t)) \<and> same_list s s'"
  using assms
proof (induction cs arbitrary: s par p t n)
  case Nil
  show ?case by (rule remove_exit [OF Nil.prems(1,2) _ Nil.prems(3,4)]) simp
next
  case (Cons g cs)
  note nh = Cons.prems(4)
  obtain d c q u where g: "g = (d, c, q, u)" by (cases g) auto
  show ?case
  proof (cases "col t")
    case Red
    show ?thesis by (rule remove_exit [OF Cons.prems(1,2) _ Cons.prems(3,4)]) (use Red in simp)
  next
    case Black
    then have t: "rb n t" using Cons.prems(2) weak_black by simp
    have o: "rb (Suc n) u" "c = Red \<Longrightarrow> col u = Black" "okc cs (up c (Suc n)) c" using Cons.prems(3) g by (auto simp: okc_Cons)
    obtain pq where fq: "focus s cs pq (Some q) (nd d c t q u)" and par: "par = Some q" using Cons.prems(1) g by (auto simp: focus_up)
    note S = remove_side [OF fq o(1)]
    have p: "p = root_of t" using tree_at_root [OF focusD(2) [OF Cons.prems(1)]] .
    have pp: "parent (hook s p) = Some q" using tree_parent_or [OF focusD(2) [OF Cons.prems(1)]] Cons.prems(5) par by simp
    have guard: "p \<noteq> root s" "colour (hook s p) = Black" using not_root [OF Cons.prems(1)] tree_colour [OF focusD(2) [OF Cons.prems(1)] nh] Black by auto
    have dd: "(if p = left (hook s (parent_of s p)) then Lft else Rgt) = d" using S(1) p pp by (cases d) auto
    have uc: "colour (hook s (root_of u)) = col u" using tree_colour [OF _ nh, of "Some q" _ u] focusD(2) [OF fq] S(3) by simp
    have lf: "t = Lf \<Longrightarrow> parent (nh s) = Some q" using Cons.prems(5) par by simp
    show ?thesis
    proof (cases "col u")
      case Black
      have "\<exists>s'. remove_rest d (root_of t) (root_of u) s = retR s' \<and> balanced s' (inorder (plug cs (nd d c t q u))) \<and> same_list s s'"
      proof (rule rest_ok [OF fq lf t o(1) Black o(3) nh])
        show "\<exists>s''. remove_fixup (Some q) s' = retR s'' \<and> balanced s'' (inorder (plug cs t')) \<and> same_list s' s''"
          if "focus s' cs pq (Some q) t'" "weak (up c n) t'" "col t' = c" "colour (nh s') = Black" for s' t'
        proof (rule Cons.IH [OF that(1,2) _ that(4)])
          show "okc cs (Suc (up c n)) Black" using o(3) okc_black by (cases c) auto
        qed (use focusD(2) [OF that(1)] in auto)
      qed
      then show ?thesis using guard dd uc Black S(3) g p pp by (subst remove_fixup_unfold) (simp add: Let_def)
    next
      case Red
      then obtain b w h where u: "u = nd d Red b w h" using red_cases by blast
      have c: "c = Black" using o(2) Red by (cases c) auto
      have bh: "rb (Suc n) b" "rb (Suc n) h" "col b = Black" "okc cs (Suc (Suc n)) Black" using o u c by auto
      from remove_red_sibling [OF fq [unfolded u c] lf t bh nh] show ?thesis
        using guard dd uc Red S(3) g p pp u c by (subst remove_fixup_unfold) (simp add: Let_def)
    qed
  qed
qed

end
