(* ===== verification/Rbtree_Remove.thy ===== *)
theory Rbtree_Remove
  imports Rbtree_Fixup
begin

text \<open>
  Removal: the item leaves the list (\<open>unlink_item\<close>) and the tree (\<open>cut_item\<close>), and the whole operation refines the removal
  from a list.  Then the depth of the tree, its readers, and sequences of operations.
\<close>

section \<open>Taking an item out of the tree\<close>

definition hung :: "frame list \<Rightarrow> nat option \<Rightarrow> (nat \<Rightarrow> rbtree_hook) \<Rightarrow> nat \<Rightarrow> rbtree_hook" where
  "hung cs v h n = (case cs of [] \<Rightarrow> h n | (d, c, q, u) # _ \<Rightarrow> if n = q then set_child d v (h n) else h n)"

definition hang :: "frame list \<Rightarrow> nat option \<Rightarrow> nat option \<Rightarrow> rbtree \<Rightarrow> rbtree" where
  "hang cs par v s = upd v (\<lambda>h. h\<lparr>parent := par\<rparr>) (s\<lparr>hooks := hung cs v (hooks s), root := (if cs = [] then v else root s)\<rparr>)"

lemma transplant_state:
  assumes f: "ctx_at (hooks s) (root s) (Some z) par cs" "parent (hooks s z) = par" "z \<notin> set (cnodes cs)"
  shows "transplant (Some z) v s = hang cs par v s"
proof (cases cs)
  case Nil
  have "hung cs v (hooks s) = hooks s" using Nil by (simp add: hung_def fun_eq_iff)
  then show ?thesis using f Nil by (simp add: transplant_def hang_def Let_def upd_def split: option.splits)
next
  case (Cons g cs')
  obtain d c q u where g: "g = (d, c, q, u)" by (cases g) auto
  have q: "parent (hooks s z) = Some q" "q \<noteq> z" "z \<notin> nodes u" using f Cons g by auto
  have side: "Some z = left (hooks s q) \<longleftrightarrow> d = Lft" using ctx_at_side [of "hooks s" "root s" z par d c q u cs' Lft] f Cons g q by auto
  have "hung cs v (hooks s) = (hooks s)(q := set_child d v (hooks s q))" using Cons g by (auto simp: hung_def fun_eq_iff)
  then show ?thesis using f Cons g q side by (cases d) (auto simp: transplant_def hang_def Let_def upd_def split: option.splits)
qed

lemma hang_simps [simp]:
  "head (hang cs par v s) = head s" "rsize (hang cs par v s) = rsize s" "colour (nh (hang cs par v s)) = colour (nh s)"
  "root (hang cs par v s) = (if cs = [] then v else root s)" "nh (hang cs par (Some x) s) = nh s" "parent (nh (hang cs par None s)) = par"
  by (cases v; simp add: hang_def)+

lemma hung_same [simp]: "n \<notin> set (cnodes cs) \<Longrightarrow> hung cs v h n = h n"
  by (auto simp: hung_def split: list.splits)

lemma hang_hooks: "hooks (hang cs par v s) n = (if v = Some n then (hung cs v (hooks s) n)\<lparr>parent := par\<rparr> else hung cs v (hooks s) n)"
  by (cases v) (auto simp: hang_def)

lemma hung_links [simp]: "successor (hung cs v h n) = successor (h n)" "predecessor (hung cs v h n) = predecessor (h n)"
  by (auto simp: hung_def split: list.splits)

lemma same_list_hang [simp]: "same_list s (hang cs par v s)"
  by (simp add: same_list_def hang_hooks)

lemma hang_ctx:
  assumes c: "ctx_at (hooks s) (root s) p par cs" "distinct (cnodes cs)" and v: "\<And>m. v = Some m \<Longrightarrow> m \<notin> set (cnodes cs)"
  shows "ctx_at (hooks (hang cs par v s)) (root (hang cs par v s)) v par cs"
proof (rule ctx_at_retarget [OF c])
  let ?s = "hang cs par v s"
  have in_c: "hooks ?s n = hung cs v (hooks s) n" if "n \<in> set (cnodes cs)" for n using that v by (auto simp: hang_hooks)
  show "case cs of [] \<Rightarrow> root ?s = v | (d', c', q', t') # cs' \<Rightarrow> root ?s = root s \<and> shape (hooks ?s q') = shape (set_child d' v (hooks s q')) \<and> (\<forall>n \<in> nodes t' \<union> set (cnodes cs'). shape (hooks ?s n) = shape (hooks s n))"
  proof (cases cs)
    case (Cons g cs')
    obtain d' c' q' t' where g: "g = (d', c', q', t')" by (cases g) auto
    have "hung cs v (hooks s) n = hooks s n" if "n \<in> nodes t' \<union> set (cnodes cs')" for n using c(2) Cons g that by (auto simp: hung_def)
    then have "\<forall>n \<in> nodes t' \<union> set (cnodes cs'). shape (hooks ?s n) = shape (hooks s n)" using in_c Cons g by auto
    moreover have "shape (hooks ?s q') = shape (set_child d' v (hooks s q'))" using in_c [of q'] Cons g by (simp add: hung_def)
    ultimately show ?thesis using Cons g by simp
  qed simp
qed

lemma hang_ok:
  assumes c: "ctx_at (hooks s) (root s) p par cs" "distinct (cnodes cs)" and t: "tree_at (hooks s) q v t" "distinct (inorder t)" "nodes t \<inter> set (cnodes cs) = {}"
  shows "focus (hang cs par v s) cs par v t"
proof -
  let ?s = "hang cs par v s"
  have v: "m \<in> nodes t" if "v = Some m" for m using t(1) that by (cases t) auto
  have in_t: "hooks ?s n = (if v = Some n then (hooks s n)\<lparr>parent := par\<rparr> else hooks s n)" if "n \<in> nodes t" for n
  proof -
    have "n \<notin> set (cnodes cs)" using that t(3) by auto
    then show ?thesis by (simp add: hang_hooks)
  qed
  have "tree_at (hooks ?s) par v t"
  proof (cases v)
    case None
    then show ?thesis using t(1) by (cases t) auto
  next
    case (Some m)
    have "shape (hooks ?s m) = shape ((hooks s m)\<lparr>parent := par\<rparr>)" using in_t [OF v [OF Some]] Some by simp
    moreover have "shape (hooks ?s n) = shape (hooks s n)" if "n \<in> nodes t" "n \<noteq> m" for n using in_t [OF that(1)] Some that(2) by simp
    ultimately show ?thesis using tree_at_parent [of "hooks s" q m t "hooks ?s" par] t Some by blast
  qed
  moreover have "ctx_at (hooks ?s) (root ?s) v par cs" by (rule hang_ctx [OF c]) (use v t(3) in auto)
  ultimately show ?thesis using c(2) t by (simp add: focus_def distinct_plug)
qed

text \<open>An item with at most one child is replaced by it.\<close>

lemma transplant_child:
  assumes f: "focus s cs par (Some z) (nd d c a z b)"
  shows "transplant (Some z) (child d (hooks s z)) s = hang cs par (root_of a) s" "focus (hang cs par (root_of a) s) cs par (root_of a) a"
    "a = Lf \<Longrightarrow> parent (nh (hang cs par (root_of a) s)) = par"
proof -
  note F = focusD [OF f]
  have p: "child d (hooks s z) = root_of a" using F(2) tree_at_root by auto
  show "transplant (Some z) (child d (hooks s z)) s = hang cs par (root_of a) s" unfolding p
    by (rule transplant_state) (use F in auto)
  show "focus (hang cs par (root_of a) s) cs par (root_of a) a"
    by (rule hang_ok [OF F(1,4), of "Some z"]) (use F p in \<open>auto simp: distinct_nd\<close>)
qed simp

lemma cut_fixup:
  assumes f: "focus s cs par p t" and c: "rb n t" "col t = Black \<or> k = Black" "okc cs (up k n) k" and nh: "colour (nh s) = Black" "t = Lf \<Longrightarrow> parent (nh s) = par"
  shows "\<exists>s'. (if k = Black then remove_fixup p s else retR s) = retR s' \<and> balanced s' (inorder (plug cs t)) \<and> same_list s s'"
proof (cases k)
  case Red
  then have "okc cs n (col t)" using c okc_black by auto
  from balancedI [OF f c(1) this] show ?thesis using Red by simp
next
  case Black
  have "weak n t" using c(1) by (induction n t rule: weak.induct) auto
  then show ?thesis using remove_loop [OF f _ _ nh] c Black by simp
qed

lemma plug_append [simp]: "plug (rs @ cs) t = plug cs (plug rs t)"
  by (induction rs t rule: plug.induct) auto

lemma lhs_rhs_append [simp]: "lhs (rs @ cs) = lhs cs @ lhs rs" "rhs (rs @ cs) = rhs rs @ rhs cs"
  by (induction rs) auto

lemma cnodes_append [simp]: "cnodes (rs @ cs) = cnodes rs @ cnodes cs"
  by (induction rs) auto

lemma okc_rename: "okc (rs @ (d, c, z, l) # cs) n k = okc (rs @ (d, c, y, l) # cs) n k"
  by (induction rs arbitrary: n k) (auto simp: okc_Cons)

lemma focus_into: "focus s cs par p (plug rs t) \<Longrightarrow> \<exists>par'. focus s (rs @ cs) par' (root_of t) t"
proof (induction rs arbitrary: t)
  case Nil
  then show ?case using tree_at_root [OF focusD(2) [OF Nil]] by auto
next
  case (Cons f rs)
  obtain d c x u where f: "f = (d, c, x, u)" by (cases f) auto
  obtain par' where "focus s (rs @ cs) par' (Some x) (nd d c t x u)" using Cons f by fastforce
  then have "focus s ((d, c, x, u) # rs @ cs) (Some x) (child d (hooks s x)) t" by (rule focus_down)
  then show ?case using f tree_at_root [OF focusD(2)] by fastforce
qed

lemma focus_out: "focus s (rs @ cs) par' p' t \<Longrightarrow> \<exists>par. focus s cs par (root_of (plug rs t)) (plug rs t)"
proof (induction rs arbitrary: par' p' t)
  case Nil
  then have "focus s cs par' p' t" by simp
  then show ?case using tree_at_root [OF focusD(2)] by auto
next
  case (Cons f rs)
  obtain d c x u where f: "f = (d, c, x, u)" by (cases f) auto
  then show ?case using Cons by (auto simp: focus_up)
qed

lemma focus_find:
  assumes "focus s cs par p t" "z \<in> nodes t"
  shows "\<exists>cs' par' c l r. focus s cs' par' (Some z) (Nd c l z r) \<and> plug cs' (Nd c l z r) = plug cs t"
  using assms
proof (induction t arbitrary: cs par p)
  case (Nd c l x r)
  have p: "p = Some x" using focusD(2) [OF Nd.prems(1)] by simp
  have fl: "focus s ((Lft, c, x, r) # cs) (Some x) (left (hooks s x)) l" using focus_down [of s cs par x Lft c l r] Nd.prems(1) p by simp
  have fr: "focus s ((Rgt, c, x, l) # cs) (Some x) (right (hooks s x)) r" using focus_down [of s cs par x Rgt c r l] Nd.prems(1) p by simp
  consider "z = x" | "z \<in> nodes l" | "z \<in> nodes r" using Nd.prems(2) by auto
  then show ?case
  proof cases
    case 1
    then show ?thesis using Nd.prems(1) p by blast
  next
    case 2
    then show ?thesis using Nd.IH(1) [OF fl 2] by simp
  next
    case 3
    then show ?thesis using Nd.IH(2) [OF fr 3] by simp
  qed
qed simp

lemma extremum_ok:
  assumes "focus s cs par (Some x) t"
  shows "\<exists>y rs c u. extremum_loop d (Some x) s = retR (Some y) \<and> t = plug rs (nd d c Lf y u) \<and> (\<forall>f \<in> set rs. fst f = d)"
  using assms
proof (induction t arbitrary: cs par x rule: measure_induct_rule [of size])
  case (less t)
  obtain c a b where t: "t = nd d c a x b" using focusD(2) [OF less.prems] by (cases rule: tree_cases [of t _ d]) auto
  have f: "focus s ((d, c, x, b) # cs) (Some x) (root_of a) a" using focus_down [OF less.prems [unfolded t]] tree_at_root [OF focusD(2)] by metis
  have ch: "child d (hooks s x) = root_of a" using focusD(2) [OF less.prems] t tree_at_root by auto
  show ?case
  proof (cases "root_of a")
    case None
    then have "a = Lf" by (cases a) (auto simp: root_of_def)
    then show ?thesis using t ch None by (intro exI [of _ x] exI [of _ "[]"] exI [of _ c] exI [of _ b]) (simp add: extremum_loop.simps)
  next
    case (Some x')
    have "size a < size t" using t by (cases d) auto
    from less.IH [OF this] f Some obtain y rs c' u where y: "extremum_loop d (Some x') s = retR (Some y)" "a = plug rs (nd d c' Lf y u)" "\<forall>f \<in> set rs. fst f = d" by metis
    then have "extremum_loop d (Some x) s = retR (Some y)" using ch Some by (subst extremum_loop.simps) simp
    moreover have "t = plug (rs @ [(d, c, x, b)]) (nd d c' Lf y u)" using y(2) t by simp
    ultimately show ?thesis using y(3) by (intro exI [of _ y] exI [of _ "rs @ [(d, c, x, b)]"]) auto
  qed
qed

lemma lhs_left: "(\<forall>f \<in> set rs. fst f = Lft) \<Longrightarrow> lhs rs = []"
  by (induction rs) auto

text \<open>The item \<open>y\<close> takes the place of \<open>z\<close>.\<close>

definition splice_node :: "nat option \<Rightarrow> nat option \<Rightarrow> rbtree \<Rightarrow> rbtree" where
  "splice_node z y s =
     (let s = transplant z y s;
          s = upd y (\<lambda>h. h\<lparr>left := left (hook s z)\<rparr>) s;
          s = upd (left (hook s y)) (\<lambda>h. h\<lparr>parent := y\<rparr>) s
      in set_colour y (colour (hook s z)) s)"

lemma splice_ok:
  assumes c: "ctx_at (hooks s) (root s) (Some z) par cs" "parent (hooks s z) = par" "colour (hooks s z) = c" "left (hooks s z) = Some m"
    and l: "tree_at (hooks s) (Some z) (Some m) l" and r: "tree_at (hooks s) (Some y) (right (hooks s y)) r"
    and d: "distinct (inorder (plug cs (Nd c l y r)))" "z \<noteq> y" "z \<notin> nodes l" "z \<notin> set (cnodes cs)"
  shows "focus (splice_node (Some z) (Some y) s) cs par (Some y) (Nd c l y r)" "nh (splice_node (Some z) (Some y) s) = nh s" "same_list s (splice_node (Some z) (Some y) s)"
proof -
  let ?s = "hang cs par (Some y) s"
  let ?s' = "splice_node (Some z) (Some y) s"
  have D: "y \<notin> set (cnodes cs)" "y \<notin> nodes l" "y \<notin> nodes r" "distinct (inorder l)" "distinct (cnodes cs)" "nodes l \<inter> set (cnodes cs) = {}" "nodes r \<inter> set (cnodes cs) = {}" "nodes l \<inter> nodes r = {}"
    using d(1) unfolding distinct_plug by auto
  have m: "m \<in> nodes l" using l by (cases l) auto
  then have m': "m \<noteq> y" "m \<notin> set (cnodes cs)" "m \<noteq> z" using D d by auto
  have hy: "hooks ?s y = (hooks s y)\<lparr>parent := par\<rparr>" "hooks ?s z = hooks s z" using D(1) d by (auto simp: hang_hooks)
  have t: "transplant (Some z) (Some y) s = ?s" by (rule transplant_state [OF c(1,2) d(4)])
  have e: "?s' = set_colour (Some y) c (upd (Some m) (\<lambda>h. h\<lparr>parent := Some y\<rparr>) (upd (Some y) (\<lambda>h. h\<lparr>left := Some m\<rparr>) ?s))"
    unfolding splice_node_def t Let_def using hy c d(2) m' by simp
  have h: "hooks ?s' n = (if n = y then (hooks s y)\<lparr>parent := par, left := Some m, colour := c\<rparr> else if n = m then (hooks s m)\<lparr>parent := Some y\<rparr> else hung cs (Some y) (hooks s) n)" for n
    unfolding e using hy m' D by (auto simp: set_colour_def hang_hooks)
  show "nh ?s' = nh s" unfolding e by simp
  show "same_list s ?s'" using hy m' by (auto simp: same_list_def h) (simp_all add: e set_colour_def)
  have rt: "root ?s' = root ?s" unfolding e by simp
  have "ctx_at (hooks ?s) (root ?s) (Some y) par cs" by (rule hang_ctx [OF c(1) D(5)]) (use D(1) in auto)
  moreover have "ctx_at (hooks ?s') (root ?s') (Some y) par cs = ctx_at (hooks ?s) (root ?s) (Some y) par cs"
    unfolding rt by (rule ctx_at_cong) (use D(1) m' in \<open>auto simp: h hang_hooks\<close>)
  moreover have "tree_at (hooks ?s') (Some y) (Some m) l"
  proof (rule tree_at_parent [OF l D(4)])
    show "shape (hooks ?s' m) = shape ((hooks s m)\<lparr>parent := Some y\<rparr>)" using m' by (simp add: h)
    fix n assume "n \<in> nodes l" "n \<noteq> m"
    then have "n \<noteq> y" "n \<notin> set (cnodes cs)" using D by auto
    then show "shape (hooks ?s' n) = shape (hooks s n)" using \<open>n \<noteq> m\<close> by (simp add: h)
  qed
  moreover have "tree_at (hooks ?s') (Some y) (right (hooks s y)) r = tree_at (hooks s) (Some y) (right (hooks s y)) r"
  proof (rule tree_at_cong)
    fix n assume "n \<in> nodes r"
    then have "n \<noteq> y" "n \<noteq> m" "n \<notin> set (cnodes cs)" using D m by auto
    then show "shape (hooks ?s' n) = shape (hooks s n)" by (simp add: h)
  qed
  ultimately show "focus ?s' cs par (Some y) (Nd c l y r)" using r d(1) by (simp add: focus_def h)
qed

lemma focus_par: "focus s cs par p t \<Longrightarrow> focus s' cs par' p' t' \<Longrightarrow> par' = par"
  by (cases cs) (auto simp: focus_def)

lemma root_of_node: "root_of t = Some x \<Longrightarrow> x \<in> nodes t"
  by (cases t) auto

text \<open>The state in which \<open>y\<close>, the minimum of the right side, is ready to take the place of \<open>z\<close>: it is no longer below \<open>z\<close>, and what is left of the right side hangs below it.\<close>

definition readied :: "nat \<Rightarrow> nat \<Rightarrow> rbtree \<Rightarrow> rbtree" where
  "readied z y s =
     (if Some y \<noteq> right (hooks s z)
      then let s = transplant (Some y) (right (hooks s y)) s;
               s = upd (Some y) (\<lambda>h. h\<lparr>right := right (hooks s z)\<rparr>) s
           in upd (right (hooks s y)) (\<lambda>h. h\<lparr>parent := Some y\<rparr>) s
      else upd (right (hooks s y)) (\<lambda>h. h\<lparr>parent := Some y\<rparr>) s)"

lemma cut_item_two:
  assumes "left (hooks s z) \<noteq> None" "right (hooks s z) \<noteq> None" "extremum_loop Lft (right (hooks s z)) s = retR (Some y)"
  shows "cut_item z s = retR (splice_node (Some z) (Some y) (readied z y s), right (hooks s y), colour (hooks s y))"
proof -
  obtain m x where lr: "left (hooks s z) = Some m" "right (hooks s z) = Some x" using assms by auto
  then show ?thesis using assms(3) by (cases "x = y") (auto simp: cut_item_def extremum_def readied_def splice_node_def Let_def)
qed

lemma distinct_splice:
  assumes "distinct (inorder (plug cs (Nd c l z (plug rs (nd Lft k Lf y u)))))"
  shows "distinct (z # inorder (plug cs (Nd c l y (plug rs u))))"
proof -
  have "mset (inorder (plug cs (Nd c l z (plug rs (nd Lft k Lf y u))))) = mset (z # inorder (plug cs (Nd c l y (plug rs u))))" by (simp add: mset_plug)
  from mset_eq_imp_distinct_iff [OF this] show ?thesis using assms by simp
qed

lemma nodes_plug: "nodes (plug cs t) = nodes t \<union> set (cnodes cs)"
  using mset_plug [of cs t] by (metis set_mset_mset set_mset_union)

lemma readied_near:
  assumes f: "focus s cs par (Some z) (Nd c l z (nd Lft k Lf y u))"
  shows "hooks (readied z y s) = hooks s" "root (readied z y s) = root s" "same_list s (readied z y s)" "colour (nh (readied z y s)) = colour (nh s)" "u = Lf \<Longrightarrow> parent (nh (readied z y s)) = Some y"
proof -
  note T = focusD(2) [OF f]
  have y: "right (hooks s z) = Some y" "right (hooks s y) = root_of u" using T by (auto dest: tree_at_root)
  have "(hooks s x)\<lparr>parent := Some y\<rparr> = hooks s x" if "root_of u = Some x" for x using T that by (cases u) (auto simp: root_of_def)
  then show h: "hooks (readied z y s) = hooks s" using y by (cases "root_of u") (auto simp: readied_def upd_def)
  show "root (readied z y s) = root s" "colour (nh (readied z y s)) = colour (nh s)" using y by (cases "root_of u"; simp add: readied_def)+
  show "same_list s (readied z y s)" using h y by (simp add: same_list_def readied_def)
  show "parent (nh (readied z y s)) = Some y" if "u = Lf" using that y by (simp add: readied_def)
qed

lemma readied_far:
  assumes f: "focus s cs par (Some z) (Nd c l z (plug rs (nd Lft k Lf y u)))" and rs: "rs = (e, k', q, w) # rs'"
  obtains s1 j where "readied z y s = upd (Some j) (\<lambda>h. h\<lparr>parent := Some y\<rparr>) (upd (Some y) (\<lambda>h. h\<lparr>right := Some j\<rparr>) s1)"
    "focus s1 cs par (Some z) (Nd c l z (plug rs u))" "root_of (plug rs u) = Some j" "same_list s s1" "colour (nh s1) = colour (nh s)" "u = Lf \<Longrightarrow> parent (nh s1) = Some q"
proof -
  let ?cs = "rs @ (Rgt, c, z, l) # cs"
  have "focus s ((Rgt, c, z, l) # cs) (Some z) (right (hooks s z)) (plug rs (nd Lft k Lf y u))" using focus_down [of s cs par z Rgt c _ l] f by simp
  from focus_into [OF this] have fy: "focus s ?cs (Some q) (Some y) (nd Rgt k u y Lf)" using rs by (auto simp: focus_up)
  let ?s1 = "hang ?cs (Some q) (root_of u) s"
  note C = transplant_child [OF fy]
  have yu: "right (hooks s y) = root_of u" using focusD(2) [OF fy] by (auto dest: tree_at_root)
  have "focus ?s1 (rs @ (Rgt, c, z, l) # cs) (Some q) (root_of u) u" by (rule C(2))
  from focus_out [OF this] obtain pz where "focus ?s1 ((Rgt, c, z, l) # cs) pz (root_of (plug rs u)) (plug rs u)" by blast
  then obtain par' where f1: "focus ?s1 cs par' (Some z) (Nd c l z (plug rs u))" by (auto simp: focus_up)
  have "par' = par" by (rule focus_par [OF f f1])
  with f1 have f1: "focus ?s1 cs par (Some z) (Nd c l z (plug rs u))" by simp
  obtain j where j: "root_of (plug rs u) = Some j" using rs nodes_plug [of rs u] by (cases "plug rs u") (auto simp: root_of_def)
  have rz: "right (hooks ?s1 z) = Some j" using focusD(2) [OF f1] j by (auto dest: tree_at_root)
  have "Some y \<noteq> right (hooks s z)"
  proof
    assume y: "Some y = right (hooks s z)"
    have q: "q \<in> nodes (plug rs u)" "q \<noteq> y" using rs nodes_plug focusD(5) [OF fy] by auto
    have "tree_at (hooks s) (Some z) (Some y) (plug rs (nd Lft k Lf y u))" using focusD(2) [OF f] y by simp
    then have "parent (hooks s y) = Some z" using tree_parent by blast
    moreover have "parent (hooks s y) = Some q" using focus_parent [OF fy] .
    moreover have "q \<noteq> z" using focusD(4) [OF fy] rs by auto
    ultimately show False by simp
  qed
  then have "readied z y s = upd (Some j) (\<lambda>h. h\<lparr>parent := Some y\<rparr>) (upd (Some y) (\<lambda>h. h\<lparr>right := Some j\<rparr>) ?s1)"
    using C(1) rz yu by (simp add: readied_def Let_def)
  then show ?thesis using that f1 j C(3) by simp
qed

lemma spliced_near:
  assumes f: "focus s cs par (Some z) (Nd c l z (nd Lft k Lf y u))" and ne: "l \<noteq> Lf"
  defines "s' \<equiv> splice_node (Some z) (Some y) (readied z y s)"
  shows "focus s' cs par (Some y) (Nd c l y u)" "same_list s s'" "colour (nh s') = colour (nh s)" "u = Lf \<Longrightarrow> parent (nh s') = Some y"
proof -
  note R = readied_near [OF f] and T = focusD(2) [OF f]
  obtain m where m: "left (hooks s z) = Some m" "tree_at (hooks s) (Some z) (Some m) l" using T ne by (cases l) auto
  have D: "distinct (z # inorder (plug cs (Nd c l y u)))" using distinct_splice [of cs c l z "[]" k y u] f by (simp add: focus_def)
  then have Dz: "z \<noteq> y" "z \<notin> nodes l" "z \<notin> set (cnodes cs)" by (simp_all add: nodes_plug)
  have "tree_at (hooks s) (Some y) (right (hooks s y)) u" "parent (hooks s z) = par" "colour (hooks s z) = c" using T by auto
  note P = splice_ok [of "readied z y s" z par cs c m l y u, unfolded R(1,2), OF focusD(1) [OF f] this(2,3) m this(1) _ Dz, folded s'_def]
  show "focus s' cs par (Some y) (Nd c l y u)" by (rule P(1)) (use D in simp)
  have n: "nh s' = nh (readied z y s)" by (rule P(2)) (use D in simp)
  have "same_list (readied z y s) s'" by (rule P(3)) (use D in simp)
  then show "same_list s s'" by (rule same_list_trans [OF R(3)])
  show "colour (nh s') = colour (nh s)" using n R(4) by simp
  show "parent (nh s') = Some y" if "u = Lf" using n R(5) [OF that] by simp
qed

lemma spliced_far:
  assumes f: "focus s cs par (Some z) (Nd c l z (plug rs (nd Lft k Lf y u)))" and ne: "l \<noteq> Lf" and rs: "rs = (e, k', q, w) # rs'"
  defines "s' \<equiv> splice_node (Some z) (Some y) (readied z y s)"
  shows "focus s' cs par (Some y) (Nd c l y (plug rs u))" "same_list s s'" "colour (nh s') = colour (nh s)" "u = Lf \<Longrightarrow> parent (nh s') = Some q"
proof -
  let ?r = "plug rs u"
  let ?sB = "readied z y s"
  obtain s1 j where R: "?sB = upd (Some j) (\<lambda>h. h\<lparr>parent := Some y\<rparr>) (upd (Some y) (\<lambda>h. h\<lparr>right := Some j\<rparr>) s1)"
    "focus s1 cs par (Some z) (Nd c l z ?r)" "root_of ?r = Some j" "same_list s s1" "colour (nh s1) = colour (nh s)" "u = Lf \<Longrightarrow> parent (nh s1) = Some q"
    using readied_far [OF f rs] by metis
  note F = focusD [OF R(2)]
  have D: "distinct (z # inorder (plug cs (Nd c l y ?r)))" using distinct_splice [of cs c l z rs k y u] f by (simp add: focus_def)
  then have Dz: "z \<noteq> y" "z \<notin> nodes l" "z \<notin> set (cnodes cs)" "z \<notin> nodes ?r" by (simp_all add: nodes_plug)
  have E: "y \<notin> nodes l" "y \<notin> nodes ?r" "y \<notin> set (cnodes cs)" "nodes l \<inter> nodes ?r = {}" "nodes ?r \<inter> set (cnodes cs) = {}" "distinct (inorder ?r)"
    using D by (auto simp: distinct_plug)
  have j: "j \<in> nodes ?r" by (rule root_of_node [OF R(3)])
  have tj: "tree_at (hooks s1) (Some z) (Some j) ?r" using F(2) R(3) tree_at_root [of "hooks s1" "Some z" _ ?r] by auto
  have jz: "j \<noteq> z" "j \<noteq> y" "j \<notin> nodes l" "j \<notin> set (cnodes cs)" using j Dz E by auto
  have h: "hooks ?sB n = (if n = j then (hooks s1 j)\<lparr>parent := Some y\<rparr> else if n = y then (hooks s1 y)\<lparr>right := Some j\<rparr> else hooks s1 n)" for n
    using R(1) jz(2) by auto
  have same: "hooks ?sB n = hooks s1 n" if "n \<noteq> j" "n \<noteq> y" for n using that by (simp add: h)
  have outer: "shape (hooks ?sB n) = shape (hooks s1 n)" if "n \<in> set (cnodes cs) \<union> nodes l" for n using that jz E(1,3) same by (metis Un_iff)
  obtain m where m: "left (hooks s1 z) = Some m" "tree_at (hooks s1) (Some z) (Some m) l" using F(2) ne by (cases l) auto
  have "ctx_at (hooks ?sB) (root s1) (Some z) par cs = ctx_at (hooks s1) (root s1) (Some z) par cs" by (rule ctx_at_cong) (rule outer, simp)
  then have c1: "ctx_at (hooks ?sB) (root ?sB) (Some z) par cs" using F(1) R(1) by simp
  have z1: "parent (hooks ?sB z) = par" "colour (hooks ?sB z) = c" "left (hooks ?sB z) = Some m" using F(2) m(1) same [of z] jz(1) Dz(1) by auto
  have l1: "tree_at (hooks ?sB) (Some z) (Some m) l"
  proof -
    have "tree_at (hooks ?sB) (Some z) (Some m) l = tree_at (hooks s1) (Some z) (Some m) l" by (rule tree_at_cong) (rule outer, simp)
    then show ?thesis using m(2) by simp
  qed
  have r1: "tree_at (hooks ?sB) (Some y) (right (hooks ?sB y)) ?r"
  proof -
    have "shape (hooks ?sB n) = shape (hooks s1 n)" if "n \<in> nodes ?r" "n \<noteq> j" for n using same [OF that(2)] that(1) E(2) by metis
    then have "tree_at (hooks ?sB) (Some y) (Some j) ?r" using tree_at_parent [OF tj E(6), of "hooks ?sB" "Some y"] by (simp add: h)
    then show ?thesis using h [of y] jz(2) by simp
  qed
  have "distinct (inorder (plug cs (Nd c l y ?r)))" using D by simp
  note P = splice_ok [OF c1 z1 l1 r1 this Dz(1,2,3), folded s'_def]
  show "focus s' cs par (Some y) (Nd c l y ?r)" by (rule P(1))
  have "same_list s1 ?sB" using R(1) by (auto simp: same_list_def)
  then show "same_list s s'" using R(4) P(3) same_list_trans by blast
  have n: "nh s' = nh s1" unfolding P(2) R(1) by simp
  show "colour (nh s') = colour (nh s)" "u = Lf \<Longrightarrow> parent (nh s') = Some q" using n R(5,6) by simp_all
qed

lemma two_children:
  assumes f: "focus s cs par (Some z) (Nd c l z r)" and ne: "l \<noteq> Lf" "r \<noteq> Lf"
  shows "\<exists>s' y rs k u par'. cut_item z s = retR (s', root_of u, k) \<and> r = plug rs (nd Lft k Lf y u) \<and> lhs rs = [] \<and>
    focus s' (rs @ (Rgt, c, y, l) # cs) par' (root_of u) u \<and> colour (nh s') = colour (nh s) \<and> (u = Lf \<longrightarrow> parent (nh s') = par') \<and> same_list s s'"
proof -
  note T = focusD(2) [OF f]
  have m: "left (hooks s z) \<noteq> None" using T ne(1) by (cases l) auto
  obtain x where x: "right (hooks s z) = Some x" using T ne(2) by (cases r) auto
  have fr: "focus s ((Rgt, c, z, l) # cs) (Some z) (Some x) r" using focus_down [of s cs par z Rgt c r l] f x by simp
  from extremum_ok [OF this, of Lft] obtain y rs k u where y: "extremum_loop Lft (Some x) s = retR (Some y)" "r = plug rs (nd Lft k Lf y u)" "lhs rs = []" using lhs_left by blast
  let ?s' = "splice_node (Some z) (Some y) (readied z y s)"
  obtain py where "focus s (rs @ (Rgt, c, z, l) # cs) py (Some y) (nd Lft k Lf y u)" using focus_into fr y(2) by fastforce
  from focusD(2) [OF this] have yu: "right (hooks s y) = root_of u" "colour (hooks s y) = k" by (auto dest: tree_at_root)
  have run: "cut_item z s = retR (?s', root_of u, k)" using cut_item_two [of s z y] m x y(1) yu by simp
  have B: "focus ?s' cs par (Some y) (Nd c l y (plug rs u)) \<and> same_list s ?s' \<and> colour (nh ?s') = colour (nh s) \<and>
    (u = Lf \<longrightarrow> parent (nh ?s') = (case rs of [] \<Rightarrow> Some y | (_, _, q, _) # _ \<Rightarrow> Some q))"
  proof (cases rs)
    case Nil
    then show ?thesis using spliced_near [OF f [unfolded y(2) Nil plug.simps] ne(1)] by simp
  next
    case (Cons g rs')
    obtain e k' q w where "g = (e, k', q, w)" by (cases g) auto
    then show ?thesis using spliced_far [OF f [unfolded y(2)] ne(1), of e k' q w rs'] Cons by simp
  qed
  then have "focus ?s' ((Rgt, c, y, l) # cs) (Some y) (right (hooks ?s' y)) (plug rs u)" using focus_down [of ?s' cs par y Rgt c "plug rs u" l] by simp
  from focus_into [OF this] obtain par' where p': "focus ?s' (rs @ (Rgt, c, y, l) # cs) par' (root_of u) u" by blast
  then have "par' = (case rs of [] \<Rightarrow> Some y | (_, _, q, _) # _ \<Rightarrow> Some q)" by (cases rs) (auto simp: focus_up)
  then have nhs: "u = Lf \<longrightarrow> parent (nh ?s') = par'" using B by simp
  show ?thesis
    by (intro exI [of _ ?s'] exI [of _ y] exI [of _ rs] exI [of _ k] exI [of _ u] exI [of _ par'] conjI run y(2,3) p' nhs) (use B in simp_all)
qed

lemma rb_ndD: "rb n (nd d c a x b) \<Longrightarrow> \<exists>m. n = up c m \<and> rb m a \<and> rb m b \<and> (c = Red \<longrightarrow> col a = Black \<and> col b = Black)"
  by (cases c) auto

text \<open>After the cut the tree lacks at most one black node, above the subtree \<open>t\<close>.\<close>

definition cut_state :: "rbtree \<Rightarrow> nat option \<Rightarrow> colour \<Rightarrow> nat list \<Rightarrow> bool" where
  "cut_state s x k xs \<longleftrightarrow> (\<exists>cs par t n. focus s cs par x t \<and> rb n t \<and> (col t = Black \<or> k = Black) \<and> okc cs (up k n) k \<and>
     colour (nh s) = Black \<and> (t = Lf \<longrightarrow> parent (nh s) = par) \<and> inorder (plug cs t) = xs)"

lemma cut_stateI:
  "focus s cs par x t \<Longrightarrow> rb n t \<Longrightarrow> col t = Black \<or> k = Black \<Longrightarrow> okc cs (up k n) k \<Longrightarrow> colour (nh s) = Black \<Longrightarrow>
    (t = Lf \<Longrightarrow> parent (nh s) = par) \<Longrightarrow> inorder (plug cs t) = xs \<Longrightarrow> cut_state s x k xs"
  unfolding cut_state_def by blast

lemma cut_state_fixup: "cut_state s x k xs \<Longrightarrow> \<exists>s'. (if k = Black then remove_fixup x s else retR s) = retR s' \<and> balanced s' xs \<and> same_list s s'"
  unfolding cut_state_def using cut_fixup by blast

lemma one_child:
  assumes f: "focus s cs par (Some z) (nd d c a z Lf)" and b: "rb n (nd d c a z Lf)" "okc cs n c" "colour (nh s) = Black"
  shows "cut_state (hang cs par (root_of a) s) (root_of a) c (lhs cs @ inorder a @ rhs cs)"
proof -
  obtain m where m: "n = up c m" "rb m a" "c = Red \<longrightarrow> col a = Black" using rb_ndD [OF b(1)] by blast
  note C = transplant_child [OF f]
  show ?thesis
  proof (rule cut_stateI [OF C(2) m(2)])
    show "col a = Black \<or> c = Black" using m(3) by (cases c) auto
  qed (use m b C(3) in \<open>auto simp: inorder_plug\<close>)
qed

lemma cut_ok:
  assumes f: "focus s cs par (Some z) (Nd c l z r)" and b: "rb n (Nd c l z r)" "okc cs n c" "colour (nh s) = Black"
  shows "\<exists>s' x k. cut_item z s = retR (s', x, k) \<and> cut_state s' x k (lhs cs @ inorder l @ inorder r @ rhs cs) \<and> same_list s s'"
proof -
  have p: "left (hooks s z) = root_of l" "right (hooks s z) = root_of r" "colour (hooks s z) = c" using focusD(2) [OF f] by (auto dest: tree_at_root)
  consider "l = Lf" | "l \<noteq> Lf" "r = Lf" | "l \<noteq> Lf" "r \<noteq> Lf" by blast
  then show ?thesis
  proof cases
    case 1
    have f': "focus s cs par (Some z) (nd Rgt c r z Lf)" using f 1 by simp
    have "cut_item z s = retR (hang cs par (root_of r) s, root_of r, c)" using transplant_child(1) [OF f'] p 1 by (simp add: cut_item_def Let_def)
    then show ?thesis using one_child [OF f' _ b(2,3)] b(1) 1 by auto
  next
    case 2
    have f': "focus s cs par (Some z) (nd Lft c l z Lf)" using f 2 by simp
    have "root_of l \<noteq> None" using 2 by (cases l) auto
    then have "cut_item z s = retR (hang cs par (root_of l) s, root_of l, c)" using transplant_child(1) [OF f'] p 2 by (auto simp: cut_item_def Let_def)
    then show ?thesis using one_child [OF f' _ b(2,3)] b(1) 2 by auto
  next
    case 3
    from two_children [OF f 3] obtain s' y rs k u par' where t: "cut_item z s = retR (s', root_of u, k)" "r = plug rs (nd Lft k Lf y u)" "lhs rs = []"
      "focus s' (rs @ (Rgt, c, y, l) # cs) par' (root_of u) u" "colour (nh s') = colour (nh s)" "u = Lf \<longrightarrow> parent (nh s') = par'" "same_list s s'" by blast
    obtain m where "rb m (plug (rs @ (Rgt, c, z, l) # cs) (nd Lft k Lf y u))" "col (plug (rs @ (Rgt, c, z, l) # cs) (nd Lft k Lf y u)) = Black"
      using rb_plug [of cs n "Nd c l z r"] b t(2) by auto
    from plug_rb [OF this] obtain n1 where n1: "rb n1 (nd Lft k Lf y u)" "okc (rs @ (Rgt, c, z, l) # cs) n1 k" using col_nd by metis
    obtain n2 where n2: "n1 = up k n2" "rb n2 u" "k = Red \<longrightarrow> col u = Black" using rb_ndD [OF n1(1)] by blast
    have "cut_state s' (root_of u) k (lhs cs @ inorder l @ inorder r @ rhs cs)"
    proof (rule cut_stateI [OF t(4) n2(2)])
      show "col u = Black \<or> k = Black" using n2(3) by (cases k) auto
      show "okc (rs @ (Rgt, c, y, l) # cs) (up k n2) k" using n1(2) n2(1) okc_rename [of rs Rgt c z l cs _ _ y] by simp
      show "inorder (plug (rs @ (Rgt, c, y, l) # cs) u) = lhs cs @ inorder l @ inorder r @ rhs cs" using t(2,3) by (simp add: inorder_plug)
    qed (use t b in auto)
    then show ?thesis using t(1,7) by blast
  qed
qed

section \<open>Unlinking\<close>

definition unlinked :: "nat \<Rightarrow> nat option \<Rightarrow> nat option \<Rightarrow> (nat \<Rightarrow> rbtree_hook) \<Rightarrow> nat \<Rightarrow> rbtree_hook" where
  "unlinked z pr su h n =
     (if n = z then (h n)\<lparr>predecessor := None, successor := None\<rparr>
      else if Some n = pr then (h n)\<lparr>successor := su\<rparr> else if Some n = su then (h n)\<lparr>predecessor := pr\<rparr> else h n)"

lemma unlink_state:
  assumes l: "linked (hooks s) None (as @ z # bs) None" and d: "distinct (as @ z # bs)" and hd: "head s = first_or (as @ z # bs) None"
  shows "unlink_item z s = retR (s\<lparr>hooks := unlinked z (last_or as None) (first_or bs None) (hooks s), head := first_or (as @ bs) None\<rparr>)"
proof -
  let ?h = "hooks s"
  have L: "linked ?h None as (Some z)" "predecessor (?h z) = last_or as None" "successor (?h z) = first_or bs None" "linked ?h (Some z) bs None"
    using l by (auto simp: linked_append)
  have pr: "successor (?h p) = Some z \<and> p \<noteq> z \<and> first_or bs None \<noteq> Some p \<and> as \<noteq> []" if "last_or as None = Some p" for p
  proof -
    have "as \<noteq> []" "last as = p" using that by (auto simp: last_or_def split: if_splits)
    then obtain as' where as: "as = as' @ [p]" by (metis append_butlast_last_id)
    then show ?thesis using L(1) d first_or_Some [of bs p] by (auto simp: linked_append)
  qed
  have su: "predecessor (?h q) = Some z \<and> q \<noteq> z" if "first_or bs None = Some q" for q
    using that L(4) d by (cases bs) auto
  have h0: "last_or as None = None \<Longrightarrow> as = []" by (auto simp: last_or_def split: if_splits)
  have h1: "first_or as (Some z) \<noteq> Some z" "first_or as (first_or bs None) = first_or as (Some z)" if "as \<noteq> []" using that d by (cases as; auto)+
  show ?thesis
  proof (cases "last_or as None")
    case None
    then have as: "as = []" by (rule h0)
    show ?thesis
    proof (cases "first_or bs None")
      case N: None
      show ?thesis using L as N hd by (auto simp: unlink_item_def Let_def upd_def unlinked_def fun_eq_iff intro!: rbtree.equality)
    next
      case (Some q)
      show ?thesis using L as Some hd su [OF Some] by (auto simp: unlink_item_def Let_def upd_def unlinked_def fun_eq_iff intro!: rbtree.equality)
    qed
  next
    case (Some p)
    note P = pr [OF Some]
    have hds: "head s = first_or as (Some z)" "head s \<noteq> Some z" "first_or (as @ bs) None = first_or as (Some z)" using hd h1 P by auto
    show ?thesis
    proof (cases "first_or bs None")
      case None
      show ?thesis using L Some None hds P by (auto simp: unlink_item_def Let_def upd_def unlinked_def fun_eq_iff intro!: rbtree.equality)
    next
      case S: (Some q)
      have "p \<noteq> q" using P S by auto
      then show ?thesis using L Some S hds P su [OF S] by (auto simp: unlink_item_def Let_def upd_def unlinked_def fun_eq_iff intro!: rbtree.equality)
    qed
  qed
qed

lemma unlinked_shape [simp]: "shape (unlinked z pr su h n) = shape (h n)"
  by (simp add: unlinked_def shape_def)

lemma unlinked_linked:
  assumes l: "linked h None (as @ z # bs) None" and d: "distinct (as @ z # bs)"
  shows "linked (unlinked z (last_or as None) (first_or bs None) h) None (as @ bs) None"
proof (rule linked_delete [OF l d])
  show "links (unlinked z (last_or as None) (first_or bs None) h x) = (if last_or as None = Some x then (predecessor (h x), first_or bs None) else links (h x))" if "x \<in> set as" for x
    using that d first_or_Some [of bs x] by (auto simp: unlinked_def links_def)
  show "links (unlinked z (last_or as None) (first_or bs None) h x) = (if first_or bs None = Some x then (last_or as None, successor (h x)) else links (h x))" if "x \<in> set bs" for x
    using that d last_or_Some [of as x] by (auto simp: unlinked_def links_def)
qed

section \<open>Removal\<close>

lemma focus_shape:
  assumes "focus s cs par p t" "\<And>n. shape (hooks s' n) = shape (hooks s n)" "root s' = root s"
  shows "focus s' cs par p t"
proof -
  have "tree_at (hooks s') par p t = tree_at (hooks s) par p t" by (rule tree_at_cong) (rule assms(2))
  moreover have "ctx_at (hooks s') (root s) p par cs = ctx_at (hooks s) (root s) p par cs" by (rule ctx_at_cong) (rule assms(2))
  ultimately show ?thesis using assms(1,3) by (simp add: focus_def)
qed

lemma balanced_root: "balanced s xs \<Longrightarrow> root s = None \<longleftrightarrow> xs = []"
proof -
  assume "balanced s xs"
  then obtain t where "focus s [] None (root s) t" "inorder t = xs" by (auto simp: balanced_def)
  then show ?thesis by (cases t) (auto simp: focus_top)
qed

lemma linked_head: "linked h None xs None \<Longrightarrow> first_or xs None = Some x \<Longrightarrow> predecessor (h x) = None"
  by (cases xs) auto

lemma remove_item_ok:
  assumes b: "balanced s (as @ z # bs)" and l: "linked (hooks s) None (as @ z # bs) None" and hd: "head s = first_or (as @ z # bs) None" and nh: "colour (nh s) = Black"
  shows "\<exists>s'. remove_item z s = retR s' \<and> balanced s' (as @ bs) \<and> linked (hooks s') None (as @ bs) None \<and> head s' = first_or (as @ bs) None \<and> rsize s' = rsize s"
proof -
  have d: "distinct (as @ z # bs)" using balanced_distinct [OF b] .
  let ?s1 = "s\<lparr>hooks := unlinked z (last_or as None) (first_or bs None) (hooks s), head := first_or (as @ bs) None\<rparr>"
  obtain t m where t: "focus s [] None (root s) t" "inorder t = as @ z # bs" "rb m t" "col t = Black" using b by (auto simp: balanced_def)
  obtain cs par c l' r where f: "focus s cs par (Some z) (Nd c l' z r)" "plug cs (Nd c l' z r) = t" using focus_find [OF t(1), of z] t(2) by auto
  obtain n where n: "rb n (Nd c l' z r)" "okc cs n c" using plug_rb [of m cs "Nd c l' z r"] f(2) t(3,4) by auto
  have f1: "focus ?s1 cs par (Some z) (Nd c l' z r)" by (rule focus_shape [OF f(1)]) simp_all
  obtain s2 x k where c: "cut_item z ?s1 = retR (s2, x, k)" "cut_state s2 x k (lhs cs @ inorder l' @ inorder r @ rhs cs)" "same_list ?s1 s2"
    using cut_ok [OF f1 n] nh by auto
  have "(lhs cs @ inorder l') @ z # (inorder r @ rhs cs) = as @ z # bs" using f(2) t(2) inorder_plug [of cs "Nd c l' z r"] by simp
  then have xs: "lhs cs @ inorder l' @ inorder r @ rhs cs = as @ bs" using d by (metis append.assoc append_Cons_eq_iff distinct.simps(2) distinct_append not_distinct_conv_prefix)
  obtain s3 where s3: "(if k = Black then remove_fixup x s2 else retR s2) = retR s3" "balanced s3 (as @ bs)" "same_list s2 s3" using cut_state_fixup [OF c(2)] xs by auto
  have sl: "same_list ?s1 s3" by (rule same_list_trans [OF c(3) s3(3)])
  have L: "linked (hooks s3) None (as @ bs) None" using same_list_linked [OF sl] unlinked_linked [OF l d] by simp
  have H: "head s3 = first_or (as @ bs) None" "rsize s3 = rsize s" using sl by (simp_all add: same_list_def)
  have run: "remove_item z s = (if root s3 = None then retR (s3\<lparr>head := None\<rparr>) else if head s3 = None \<or> predecessor (hook s3 (head s3)) \<noteq> None then failR Bug_on else retR s3)"
    unfolding remove_item_def by (simp only: unlink_state [OF l d hd] c(1) s3(1) bindR_simps prod.case)
  show ?thesis
  proof (cases "as @ bs")
    case Nil
    then have "root s3 = None" using balanced_root [OF s3(2)] by simp
    then have "remove_item z s = retR (s3\<lparr>head := None\<rparr>)" using run by simp
    then show ?thesis using s3(2) H Nil by (auto simp: balanced_def focus_def)
  next
    case (Cons y ys)
    then obtain rt where "root s3 = Some rt" "head s3 = Some y" "predecessor (hooks s3 y) = None" using balanced_root [OF s3(2)] H L by (cases "root s3") auto
    then have "remove_item z s = retR s3" using run by simp
    then show ?thesis using s3(2) L H by blast
  qed
qed

lemma remove_ok:
  assumes r: "rb_list s xs" and z: "z \<in> set xs" and n: "length xs < 2 ^ 64"
  shows "\<exists>s'. rb_remove z s = retR s' \<and> rb_list s' (queue_remove z xs)"
proof -
  obtain as bs where xs: "xs = as @ z # bs" using z by (meson split_list)
  have d: "distinct xs" using r balanced_distinct by (auto simp: rb_list_def)
  then have q: "queue_remove z xs = as @ bs" unfolding xs by (intro queue_remove_split) auto
  let ?s = "s\<lparr>nh := new_hook\<rparr>"
  have "balanced ?s xs" using r by (simp add: rb_list_def balanced_def focus_def)
  then obtain s' where s': "remove_item z ?s = retR s'" "balanced s' (as @ bs)" "linked (hooks s') None (as @ bs) None" "head s' = first_or (as @ bs) None" "rsize s' = rsize s"
    using remove_item_ok [of ?s as z bs] r xs by (auto simp: rb_list_def new_hook_def)
  have "rsize s \<noteq> 0"
  proof
    assume "rsize s = 0"
    then have "unat (of_nat (length xs) :: u64) = 0" using r by (simp add: rb_list_def)
    moreover have "unat (of_nat (length xs) :: u64) = length xs" using n by (simp add: unat_of_nat)
    ultimately show False using z by simp
  qed
  then have "rb_remove z s = retR (s'\<lparr>rsize := rsize s' - 1\<rparr>)" using s' by (simp add: rb_remove_def)
  moreover have "rsize s' - 1 = of_nat (length (as @ bs))" using s'(5) r xs by (simp add: rb_list_def)
  ultimately show ?thesis using s' q by (auto simp: rb_list_def balanced_def focus_def)
qed

section \<open>Depth\<close>

text \<open>Following the children from an item.\<close>

fun follow :: "rbtree \<Rightarrow> dir list \<Rightarrow> nat option \<Rightarrow> nat option" where
  "follow s [] p = p"
| "follow s (d # ds) p = (case p of None \<Rightarrow> None | Some x \<Rightarrow> follow s ds (child d (hook s p)))"

lemma rb_count: "rb n t \<Longrightarrow> 2 ^ n \<le> Suc (length (inorder t))"
proof (induction n t rule: rb.induct)
  case (3 n l x r)
  then obtain m where "n = Suc m" "rb m l" "rb m r" by auto
  then show ?case using 3(1,2) [of m] by auto
qed auto

lemma follow_depth:
  assumes "tree_at (hooks s) par p t" "rb n t" "follow s ds p = Some x"
  shows "length ds < 2 * n + (if col t = Red then 1 else 0)"
  using assms
proof (induction ds arbitrary: par p t n)
  case Nil
  then obtain c l r where "t = Nd c l x r" by (cases t) auto
  then show ?case using Nil.prems(2) by (cases c) auto
next
  case (Cons d ds)
  obtain y where p: "p = Some y" using Cons.prems(3) by (cases p) auto
  obtain c a b where t: "t = nd d c a y b" using Cons.prems(1) p by (cases rule: tree_cases [of t _ d]) auto
  obtain m where m: "n = up c m" "rb m a" "c = Red \<longrightarrow> col a = Black" using rb_ndD Cons.prems(2) t by blast
  have "length ds < 2 * m + (if col a = Red then 1 else 0)" using Cons.IH [of "Some y" "child d (hooks s y)" a m] Cons.prems(1,3) p t m by simp
  then show ?case using m t by (cases c) (auto split: if_splits)
qed

lemma depth_bound:
  assumes r: "rb_list s xs" and f: "follow s ds (root s) = Some x"
  shows "2 ^ Suc (length ds div 2) \<le> Suc (length xs)"
proof -
  obtain t n where t: "tree_at (hooks s) None (root s) t" "inorder t = xs" "rb n t" "col t = Black" using r by (auto simp: rb_list_def balanced_def focus_top)
  have "length ds < 2 * n" using follow_depth [OF t(1,3) f] t(4) by simp
  then have "(2::nat) ^ Suc (length ds div 2) \<le> 2 ^ n" by (intro power_increasing) auto
  then show ?thesis using rb_count [OF t(3)] t(2) by simp
qed

section \<open>Reading\<close>

context ordered_queue
begin

lemma le_lt_trans: "le a b \<Longrightarrow> lt b c \<Longrightarrow> lt a c"
  using not_lt le_trans by blast

lemma contains_walk:
  assumes "tree_at (hooks s) par p t" "sorted_wrt le (inorder t)"
  shows "contains_loop lt x p s = retR (\<exists>y \<in> nodes t. \<not> lt y x \<and> \<not> lt x y)"
  using assms
proof (induction t arbitrary: par p)
  case Lf
  then show ?case by (subst contains_loop.simps) simp
next
  case (Nd c l y r)
  have le: "\<And>w. w \<in> nodes l \<Longrightarrow> le w y" "\<And>w. w \<in> nodes r \<Longrightarrow> le y w" using Nd.prems(2) by (auto simp: sorted_wrt_append)
  have p: "p = Some y" "tree_at (hooks s) (Some y) (left (hooks s y)) l" "tree_at (hooks s) (Some y) (right (hooks s y)) r" using Nd.prems(1) by auto
  have srt: "sorted_wrt le (inorder l)" "sorted_wrt le (inorder r)" using Nd.prems(2) by (auto simp: sorted_wrt_append)
  consider "\<not> lt y x" "\<not> lt x y" | "lt x y" | "lt y x" "\<not> lt x y" by blast
  then show ?case
  proof cases
    case 1
    then show ?thesis using p(1) by (subst contains_loop.simps) auto
  next
    case 2
    then have "lt x w" if "w \<in> insert y (nodes r)" for w using that lt_le_trans le(2) by auto
    then have "(\<exists>w \<in> nodes (Nd c l y r). \<not> lt w x \<and> \<not> lt x w) = (\<exists>w \<in> nodes l. \<not> lt w x \<and> \<not> lt x w)" by auto
    then show ?thesis using 2 p(1) Nd.IH(1) [OF p(2) srt(1)] by (subst contains_loop.simps) simp
  next
    case 3
    then have "lt w x" if "w \<in> insert y (nodes l)" for w using that le_lt_trans le(1) by auto
    then have "(\<exists>w \<in> nodes (Nd c l y r). \<not> lt w x \<and> \<not> lt x w) = (\<exists>w \<in> nodes r. \<not> lt w x \<and> \<not> lt x w)" by auto
    then show ?thesis using 3 p(1) Nd.IH(2) [OF p(3) srt(2)] by (subst contains_loop.simps) simp
  qed
qed

lemma contains_ok:
  assumes "rb_list s xs" "sorted_wrt le xs"
  shows "rb_contains lt x s = retR (\<exists>y \<in> set xs. \<not> lt y x \<and> \<not> lt x y)"
proof -
  obtain t where "tree_at (hooks s) None (root s) t" "inorder t = xs" using assms(1) by (auto simp: rb_list_def balanced_def focus_top)
  then show ?thesis using contains_walk [of "s\<lparr>nh := new_hook\<rparr>" None "root s" t x] assms(2) by (simp add: rb_contains_def)
qed

end

lemma rhs_right: "(\<forall>f \<in> set rs. fst f = Rgt) \<Longrightarrow> rhs rs = []"
  by (induction rs) auto

lemma last_ok:
  assumes "rb_list s xs"
  shows "rb_last s = retR (last_or xs None)"
proof -
  let ?s = "s\<lparr>nh := new_hook\<rparr>"
  obtain t where t: "focus ?s [] None (root s) t" "inorder t = xs" using assms by (auto simp: rb_list_def balanced_def focus_def)
  show ?thesis
  proof (cases "root s")
    case None
    then have "xs = []" using t by (cases t) (auto simp: focus_top)
    then show ?thesis using None by (simp add: rb_last_def)
  next
    case (Some x)
    from extremum_ok [of ?s "[]" None x t Rgt] t(1) Some obtain y rs c u where
      y: "extremum_loop Rgt (Some x) ?s = retR (Some y)" "t = plug rs (nd Rgt c Lf y u)" "\<forall>f \<in> set rs. fst f = Rgt" by auto
    have "xs = (lhs rs @ inorder u) @ [y]" using t(2) y(2) rhs_right [OF y(3)] by (simp add: inorder_plug)
    then have "last_or xs None = Some y" by (simp only: last_or_simps)
    then show ?thesis using y(1) Some by (simp add: rb_last_def extremum_def)
  qed
qed

lemma linked_nth: "linked h p xs n \<Longrightarrow> i < length xs \<Longrightarrow>
    successor (h (xs ! i)) = (if Suc i < length xs then Some (xs ! Suc i) else n) \<and> predecessor (h (xs ! i)) = (if i = 0 then p else Some (xs ! (i - 1)))"
proof (induction xs arbitrary: p i)
  case (Cons x xs)
  show ?case
  proof (cases i)
    case 0
    then show ?thesis using Cons.prems by (cases xs) auto
  next
    case (Suc j)
    then show ?thesis using Cons.IH [of "Some x" j] Cons.prems by (cases j) auto
  qed
qed simp

section \<open>Sequences of operations\<close>

datatype rb_op = Ins nat | Rem nat

fun rb_do :: "(nat \<Rightarrow> nat \<Rightarrow> bool) \<Rightarrow> rb_op \<Rightarrow> rbtree \<Rightarrow> rbtree run" where
  "rb_do lt (Ins z) s = rb_insert lt z s"
| "rb_do lt (Rem z) s = rb_remove z s"

fun rb_ops :: "(nat \<Rightarrow> nat \<Rightarrow> bool) \<Rightarrow> rb_op list \<Rightarrow> rbtree \<Rightarrow> rbtree run" where
  "rb_ops lt [] s = retR s"
| "rb_ops lt (p # ps) s = bindR (rb_do lt p s) (rb_ops lt ps)"

text \<open>The same on lists, and which operations a caller may do: no item is inserted twice, only items of the tree are removed.\<close>

fun q_do :: "(nat \<Rightarrow> nat \<Rightarrow> bool) \<Rightarrow> rb_op \<Rightarrow> nat list \<Rightarrow> nat list" where
  "q_do lt (Ins z) xs = insert_by lt z xs"
| "q_do lt (Rem z) xs = queue_remove z xs"

fun q_ops :: "(nat \<Rightarrow> nat \<Rightarrow> bool) \<Rightarrow> rb_op list \<Rightarrow> nat list \<Rightarrow> nat list" where
  "q_ops lt [] xs = xs"
| "q_ops lt (p # ps) xs = q_ops lt ps (q_do lt p xs)"

fun op_ok :: "rb_op \<Rightarrow> nat list \<Rightarrow> bool" where
  "op_ok (Ins z) xs \<longleftrightarrow> z \<notin> set xs"
| "op_ok (Rem z) xs \<longleftrightarrow> z \<in> set xs"

fun ops_ok :: "(nat \<Rightarrow> nat \<Rightarrow> bool) \<Rightarrow> rb_op list \<Rightarrow> nat list \<Rightarrow> bool" where
  "ops_ok lt [] xs \<longleftrightarrow> True"
| "ops_ok lt (p # ps) xs \<longleftrightarrow> op_ok p xs \<and> ops_ok lt ps (q_do lt p xs)"

lemma q_do_length: "length (q_do lt p xs) \<le> Suc (length xs)"
  by (cases p) (auto simp: queue_remove_def intro: le_SucI)

context ordered_queue
begin

lemma q_do_sorted: "sorted_wrt le xs \<Longrightarrow> sorted_wrt le (q_do lt p xs)"
  by (cases p) (auto simp: insert_sorted queue_remove_def sorted_wrt_filter)

lemma do_ok:
  assumes "rb_list s xs" "sorted_wrt le xs" "op_ok p xs" "length xs < 2 ^ 64"
  shows "\<exists>s'. rb_do lt p s = retR s' \<and> rb_list s' (q_do lt p xs)"
  using assms insert_ok remove_ok by (cases p) auto

lemma ops_refine:
  assumes "rb_list s xs" "sorted_wrt le xs" "ops_ok lt ps xs" "length xs + length ps \<le> 2 ^ 64"
  shows "\<exists>s'. rb_ops lt ps s = retR s' \<and> rb_list s' (q_ops lt ps xs) \<and> sorted_wrt le (q_ops lt ps xs)"
  using assms
proof (induction ps arbitrary: s xs)
  case (Cons p ps)
  obtain s1 where s1: "rb_do lt p s = retR s1" "rb_list s1 (q_do lt p xs)" using do_ok [of s xs p] Cons.prems by auto
  have "length (q_do lt p xs) + length ps \<le> 2 ^ 64" using q_do_length [of lt p xs] Cons.prems(4) by simp
  from Cons.IH [OF s1(2) q_do_sorted _ this] show ?case using Cons.prems s1 by simp
qed auto

end

lemma rb_list_empty: "rb_list (rb_empty h) []"
proof -
  have "focus (rb_empty h) [] None (root (rb_empty h)) Lf" by (simp add: focus_top rb_empty_def)
  moreover have "rb 0 Lf" "col Lf = Black" "inorder Lf = []" by simp_all
  ultimately have "balanced (rb_empty h) []" unfolding balanced_def by blast
  then show ?thesis by (simp add: rb_list_def rb_empty_def)
qed

end
