(* ===== verification/Rbtree_Frame.thy ===== *)
theory Rbtree_Frame
  imports Rbtree_Remove
begin

text \<open>
  What the tree operations leave alone: they touch only hooks that can be reached from the tree, so trees of different items may keep
  their hooks in the same place.  The rules in \<open>frame\<close> follow the assignments of an operation one by one.
\<close>

section \<open>Footprints\<close>

definition ptrs :: "nat set \<Rightarrow> nat option set" where
  "ptrs N = insert None (Some ` N)"

definition hook_in :: "nat set \<Rightarrow> rbtree_hook \<Rightarrow> bool" where
  "hook_in N h \<longleftrightarrow> parent h \<in> ptrs N \<and> left h \<in> ptrs N \<and> right h \<in> ptrs N \<and> successor h \<in> ptrs N \<and> predecessor h \<in> ptrs N"

text \<open>Every pointer that can be reached from the tree leads to \<open>N\<close>, and the hooks outside \<open>N\<close> are those of \<open>h\<close>.\<close>

definition tree_within :: "nat set \<Rightarrow> (nat \<Rightarrow> rbtree_hook) \<Rightarrow> rbtree \<Rightarrow> bool" where
  "tree_within N h s \<longleftrightarrow> root s \<in> ptrs N \<and> head s \<in> ptrs N \<and> hook_in N (nh s) \<and> (\<forall>x \<in> N. hook_in N (hooks s x)) \<and> (\<forall>x. x \<notin> N \<longrightarrow> hooks s x = h x)"

definition run_keeps :: "('a \<Rightarrow> bool) \<Rightarrow> 'a run \<Rightarrow> bool" where
  "run_keeps Q r \<longleftrightarrow> (\<forall>v. r = Some (Inr v) \<longrightarrow> Q v)"

named_theorems frame

lemma None_ptrs [frame]: "None \<in> ptrs N"
  by (simp add: ptrs_def)

lemma Some_ptrs [frame]: "x \<in> N \<Longrightarrow> Some x \<in> ptrs N"
  by (simp add: ptrs_def)

lemma inside_root [frame]: "tree_within N h s \<Longrightarrow> root s \<in> ptrs N" "tree_within N h s \<Longrightarrow> head s \<in> ptrs N"
  by (simp_all add: tree_within_def)

lemma inside_hook: "tree_within N h s \<Longrightarrow> p \<in> ptrs N \<Longrightarrow> hook_in N (hook s p)"
  by (auto simp: tree_within_def ptrs_def)

lemma inside_ptrs [frame]:
  assumes "tree_within N h s" "p \<in> ptrs N"
  shows "parent (hook s p) \<in> ptrs N" "left (hook s p) \<in> ptrs N" "right (hook s p) \<in> ptrs N" "successor (hook s p) \<in> ptrs N" "predecessor (hook s p) \<in> ptrs N" "child d (hook s p) \<in> ptrs N"
  using inside_hook [OF assms] by (cases d; simp add: hook_in_def)+

lemma hook_in_updates [frame]:
  "hook_in N k \<Longrightarrow> q \<in> ptrs N \<Longrightarrow> hook_in N (k\<lparr>parent := q\<rparr>)" "hook_in N k \<Longrightarrow> q \<in> ptrs N \<Longrightarrow> hook_in N (k\<lparr>left := q\<rparr>)"
  "hook_in N k \<Longrightarrow> q \<in> ptrs N \<Longrightarrow> hook_in N (k\<lparr>right := q\<rparr>)" "hook_in N k \<Longrightarrow> q \<in> ptrs N \<Longrightarrow> hook_in N (k\<lparr>successor := q\<rparr>)"
  "hook_in N k \<Longrightarrow> q \<in> ptrs N \<Longrightarrow> hook_in N (k\<lparr>predecessor := q\<rparr>)" "hook_in N k \<Longrightarrow> hook_in N (k\<lparr>colour := c\<rparr>)"
  "hook_in N k \<Longrightarrow> q \<in> ptrs N \<Longrightarrow> hook_in N (set_child d q k)"
  by (cases d; simp add: hook_in_def)+

lemma inside_upd [frame]:
  assumes "tree_within N h s" "p \<in> ptrs N" "\<And>k. hook_in N k \<Longrightarrow> hook_in N (f k)"
  shows "tree_within N h (upd p f s)"
proof -
  have "hook_in N (f (hook s p))" using inside_hook [OF assms(1,2)] assms(3) by blast
  then show ?thesis using assms(1,2) by (cases p) (auto simp: tree_within_def ptrs_def)
qed

lemma inside_fields [frame]:
  "tree_within N h s \<Longrightarrow> p \<in> ptrs N \<Longrightarrow> tree_within N h (s\<lparr>root := p\<rparr>)" "tree_within N h s \<Longrightarrow> p \<in> ptrs N \<Longrightarrow> tree_within N h (s\<lparr>head := p\<rparr>)" "tree_within N h s \<Longrightarrow> tree_within N h (s\<lparr>rsize := n\<rparr>)"
  by (simp_all add: tree_within_def)

lemma inside_colour [frame]: "tree_within N h s \<Longrightarrow> p \<in> ptrs N \<Longrightarrow> tree_within N h (set_colour p c s)"
  unfolding set_colour_def by (intro frame)

lemma frame_if [frame]: "(b \<Longrightarrow> tree_within N h s) \<Longrightarrow> (\<not> b \<Longrightarrow> tree_within N h s') \<Longrightarrow> tree_within N h (if b then s else s')"
  by simp

lemma ptrs_if [frame]: "(b \<Longrightarrow> p \<in> ptrs N) \<Longrightarrow> (\<not> b \<Longrightarrow> q \<in> ptrs N) \<Longrightarrow> (if b then p else q) \<in> ptrs N"
  by simp

text \<open>Sequences of assignments: of what a variable held only that it is tree_within is kept.\<close>

lemma let_inside [frame]: "tree_within N h s \<Longrightarrow> (\<And>s. tree_within N h s \<Longrightarrow> tree_within N h (f s)) \<Longrightarrow> tree_within N h (let s = s in f s)"
  by simp

lemma let_ptrs [frame]: "p \<in> ptrs N \<Longrightarrow> (\<And>p. p \<in> ptrs N \<Longrightarrow> tree_within N h (f p)) \<Longrightarrow> tree_within N h (let p = p in f p)"
  by simp

lemma keeps_let_inside [frame]: "tree_within N h s \<Longrightarrow> (\<And>s. tree_within N h s \<Longrightarrow> run_keeps Q (f s)) \<Longrightarrow> run_keeps Q (let s = s in f s)"
  by simp

lemma keeps_let_ptrs [frame]: "p \<in> ptrs N \<Longrightarrow> (\<And>p. p \<in> ptrs N \<Longrightarrow> run_keeps Q (f p)) \<Longrightarrow> run_keeps Q (let p = p in f p)"
  by simp

lemma keeps_let_other [frame]: "(\<And>c. run_keeps Q (f c)) \<Longrightarrow> run_keeps Q (let c = (c :: colour) in f c)" "(\<And>d. run_keeps Q (g d)) \<Longrightarrow> run_keeps Q (let d = (d :: dir) in g d)"
  by simp_all

lemma keeps_simps [frame]: "Q v \<Longrightarrow> run_keeps Q (retR v)" "run_keeps Q (failR e)"
  by (simp_all add: run_keeps_def retR_def failR_def)

lemma keeps_if [frame]: "(b \<Longrightarrow> run_keeps Q r) \<Longrightarrow> (\<not> b \<Longrightarrow> run_keeps Q r') \<Longrightarrow> run_keeps Q (if b then r else r')"
  by simp

lemma keeps_bind: "run_keeps P m \<Longrightarrow> (\<And>v. P v \<Longrightarrow> run_keeps Q (f v)) \<Longrightarrow> run_keeps Q (bindR m f)"
  by (auto simp: run_keeps_def bindR_def split: option.splits sum.splits Option.bind_splits)

lemma rotate_keeps [frame]: "tree_within N h s \<Longrightarrow> x \<in> ptrs N \<Longrightarrow> run_keeps (tree_within N h) (rotate_side d x s)"
  unfolding rotate_side_def by (intro frame)

lemma bind_state [frame]: "run_keeps (tree_within N h) m \<Longrightarrow> (\<And>s. tree_within N h s \<Longrightarrow> run_keeps Q (f s)) \<Longrightarrow> run_keeps Q (bindR m f)"
  by (rule keeps_bind)

lemma bind_ptr [frame]: "run_keeps (\<lambda>p. p \<in> ptrs N) m \<Longrightarrow> (\<And>p. p \<in> ptrs N \<Longrightarrow> run_keeps Q (f p)) \<Longrightarrow> run_keeps Q (bindR m f)"
  by (rule keeps_bind)

lemma bind_pair [frame]: "run_keeps (\<lambda>(p, s). p \<in> ptrs N \<and> tree_within N h s) m \<Longrightarrow> (\<And>p s. p \<in> ptrs N \<Longrightarrow> tree_within N h s \<Longrightarrow> run_keeps Q (f p s)) \<Longrightarrow> run_keeps Q (bindR m (\<lambda>(p, s). f p s))"
  by (erule keeps_bind) auto

lemma bind_triple [frame]: "run_keeps (\<lambda>(s, p, k). p \<in> ptrs N \<and> tree_within N h s) m \<Longrightarrow> (\<And>s p k. p \<in> ptrs N \<Longrightarrow> tree_within N h s \<Longrightarrow> run_keeps Q (f s p k)) \<Longrightarrow> run_keeps Q (bindR m (\<lambda>(s, p, k). f s p k))"
  by (erule keeps_bind) auto

lemma keeps_pairs [frame]: "p \<in> ptrs N \<Longrightarrow> tree_within N h s \<Longrightarrow> (case (p, s) of (p, s) \<Rightarrow> p \<in> ptrs N \<and> tree_within N h s)"
  "p \<in> ptrs N \<Longrightarrow> tree_within N h s \<Longrightarrow> (case (s, p, k) of (s, p, k) \<Rightarrow> p \<in> ptrs N \<and> tree_within N h s)"
  by simp_all

lemma frame_option [frame]: "(p = None \<Longrightarrow> tree_within N h s) \<Longrightarrow> (\<And>n. p = Some n \<Longrightarrow> tree_within N h (f n)) \<Longrightarrow> tree_within N h (case p of None \<Rightarrow> s | Some n \<Rightarrow> f n)"
  by (simp split: option.splits)

lemma keeps_option [frame]: "(p = None \<Longrightarrow> run_keeps Q r) \<Longrightarrow> (\<And>n. p = Some n \<Longrightarrow> run_keeps Q (f n)) \<Longrightarrow> run_keeps Q (case p of None \<Rightarrow> r | Some n \<Rightarrow> f n)"
  by (simp split: option.splits)

lemma keeps_IH: "(\<And>y. r = Some y \<Longrightarrow> run_keeps Q (Some y)) \<Longrightarrow> run_keeps Q r"
  by (auto simp: run_keeps_def)

lemma insert_fixup_keeps [frame]: "tree_within N h s \<Longrightarrow> z \<in> ptrs N \<Longrightarrow> run_keeps (tree_within N h) (insert_fixup z s)"
proof (rule keeps_IH)
  show "run_keeps (tree_within N h) (Some r)" if "insert_fixup z s = Some r" "tree_within N h s" "z \<in> ptrs N" for r
  proof -
    have "tree_within N h s \<longrightarrow> z \<in> ptrs N \<longrightarrow> run_keeps (tree_within N h) (Some r)"
    proof (rule insert_fixup.raw_induct [where P = "\<lambda>z s r. tree_within N h s \<longrightarrow> z \<in> ptrs N \<longrightarrow> run_keeps (tree_within N h) (Some r)"])
      fix f z s r
      assume 1: "\<And>z s r. f z s = Some r \<Longrightarrow> tree_within N h s \<longrightarrow> z \<in> ptrs N \<longrightarrow> run_keeps (tree_within N h) (Some r)" and 2: "(if colour (hook s (parent_of s z)) = Red
      then let d = (if parent_of s z = left (hook s (parent_of s (parent_of s z))) then Lft else Rgt);
               y = child (opp d) (hook s (parent_of s (parent_of s z)))
           in if colour (hook s y) = Red
              then let s = set_colour (parent_of s z) Black s;
                       s = set_colour y Black s;
                       s = set_colour (parent_of s (parent_of s z)) Red s
                   in f (parent_of s (parent_of s z)) s
              else bindR (if z = child (opp d) (hook s (parent_of s z))
                          then let z = parent_of s z in bindR (rotate_side d z s) (\<lambda>s. retR (z, s))
                          else retR (z, s)) (\<lambda>(z, s).
                     let s = set_colour (parent_of s z) Black s;
                         s = set_colour (parent_of s (parent_of s z)) Red s
                     in bindR (rotate_side (opp d) (parent_of s (parent_of s z)) s) (\<lambda>s. f z s))
      else retR (set_colour (root s) Black s)) = Some r"
      have IH: "run_keeps (tree_within N h) (f z s)" if "tree_within N h s" "z \<in> ptrs N" for z s by (rule keeps_IH) (rule 1 [rule_format, OF _ that])
      show "tree_within N h s \<longrightarrow> z \<in> ptrs N \<longrightarrow> run_keeps (tree_within N h) (Some r)" unfolding 2 [symmetric] by (intro impI frame IH)
    qed (rule that(1))
    then show ?thesis using that by blast
  qed
qed

lemma insert_walk_keeps [frame]: "tree_within N h s \<Longrightarrow> x \<in> ptrs N \<Longrightarrow> y \<in> ptrs N \<Longrightarrow> run_keeps (\<lambda>p. p \<in> ptrs N) (insert_walk lt z x y s)"
proof (rule keeps_IH)
  show "run_keeps (\<lambda>p. p \<in> ptrs N) (Some r)" if "insert_walk lt z x y s = Some r" "tree_within N h s" "x \<in> ptrs N" "y \<in> ptrs N" for r
  proof -
    have "tree_within N h s \<longrightarrow> x \<in> ptrs N \<longrightarrow> y \<in> ptrs N \<longrightarrow> run_keeps (\<lambda>p. p \<in> ptrs N) (Some r)"
    proof (rule insert_walk.raw_induct [where xa = "((((lt, z), x), y), s)" and ya = r and P = "\<lambda>lt z x y s r. tree_within N h s \<longrightarrow> x \<in> ptrs N \<longrightarrow> y \<in> ptrs N \<longrightarrow> run_keeps (\<lambda>p. p \<in> ptrs N) (Some r)", unfolded prod.case])
      fix f lt z x y s r
      assume 1: "\<And>lt z x y s r. f lt z x y s = Some r \<Longrightarrow> tree_within N h s \<longrightarrow> x \<in> ptrs N \<longrightarrow> y \<in> ptrs N \<longrightarrow> run_keeps (\<lambda>p. p \<in> ptrs N) (Some r)"
        and 2: "(case x of None \<Rightarrow> retR y | Some n \<Rightarrow> if lt z n then f lt z (left (hook s x)) x s else f lt z (right (hook s x)) x s) = Some r"
      have IH: "run_keeps (\<lambda>p. p \<in> ptrs N) (f lt z x y s)" if "tree_within N h s" "x \<in> ptrs N" "y \<in> ptrs N" for lt z x y s by (rule keeps_IH) (rule 1 [rule_format, OF _ that])
      show "tree_within N h s \<longrightarrow> x \<in> ptrs N \<longrightarrow> y \<in> ptrs N \<longrightarrow> run_keeps (\<lambda>p. p \<in> ptrs N) (Some r)" unfolding 2 [symmetric] by (intro impI frame IH)
    qed (rule that(1))
    then show ?thesis using that by blast
  qed
qed

lemma link_keeps [frame]: "tree_within N h s \<Longrightarrow> z \<in> ptrs N \<Longrightarrow> y \<in> ptrs N \<Longrightarrow> tree_within N h (link_before z y s)" "tree_within N h s \<Longrightarrow> z \<in> ptrs N \<Longrightarrow> y \<in> ptrs N \<Longrightarrow> tree_within N h (link_after z y s)"
  unfolding link_before_def link_after_def by (intro frame; assumption)+

lemma insert_item_keeps [frame]: "tree_within N h s \<Longrightarrow> z \<in> N \<Longrightarrow> run_keeps (tree_within N h) (insert_item lt z s)"
  unfolding insert_item_def by (intro frame)

lemma transplant_keeps [frame]: "tree_within N h s \<Longrightarrow> u \<in> ptrs N \<Longrightarrow> v \<in> ptrs N \<Longrightarrow> tree_within N h (transplant u v s)"
  unfolding transplant_def by (intro frame)

lemma extremum_loop_keeps [frame]: "tree_within N h s \<Longrightarrow> x \<in> ptrs N \<Longrightarrow> run_keeps (\<lambda>p. p \<in> ptrs N) (extremum_loop d x s)"
proof (rule keeps_IH)
  show "run_keeps (\<lambda>p. p \<in> ptrs N) (Some r)" if "extremum_loop d x s = Some r" "tree_within N h s" "x \<in> ptrs N" for r
  proof -
    have "tree_within N h s \<longrightarrow> x \<in> ptrs N \<longrightarrow> run_keeps (\<lambda>p. p \<in> ptrs N) (Some r)"
    proof (rule extremum_loop.raw_induct [where P = "\<lambda>d x s r. tree_within N h s \<longrightarrow> x \<in> ptrs N \<longrightarrow> run_keeps (\<lambda>p. p \<in> ptrs N) (Some r)" and xa = "((d, x), s)" and y = r, unfolded prod.case])
      fix f d x s r
      assume 1: "\<And>d x s r. f d x s = Some r \<Longrightarrow> tree_within N h s \<longrightarrow> x \<in> ptrs N \<longrightarrow> run_keeps (\<lambda>p. p \<in> ptrs N) (Some r)" and 2: "(if child d (hook s x) \<noteq> None then f d (child d (hook s x)) s else retR x) = Some r"
      have IH: "run_keeps (\<lambda>p. p \<in> ptrs N) (f d x s)" if "tree_within N h s" "x \<in> ptrs N" for d x s by (rule keeps_IH) (rule 1 [rule_format, OF _ that])
      show "tree_within N h s \<longrightarrow> x \<in> ptrs N \<longrightarrow> run_keeps (\<lambda>p. p \<in> ptrs N) (Some r)" unfolding 2 [symmetric] by (intro impI frame IH)
    qed (rule that(1))
    then show ?thesis using that by blast
  qed
qed

lemma extremum_keeps [frame]: "tree_within N h s \<Longrightarrow> x \<in> ptrs N \<Longrightarrow> run_keeps (\<lambda>p. p \<in> ptrs N) (extremum d x s)"
  unfolding extremum_def by (intro frame)

lemma remove_fixup_keeps [frame]: "tree_within N h s \<Longrightarrow> x \<in> ptrs N \<Longrightarrow> run_keeps (tree_within N h) (remove_fixup x s)"
proof (rule keeps_IH)
  show "run_keeps (tree_within N h) (Some r)" if "remove_fixup x s = Some r" "tree_within N h s" "x \<in> ptrs N" for r
  proof -
    have "tree_within N h s \<longrightarrow> x \<in> ptrs N \<longrightarrow> run_keeps (tree_within N h) (Some r)"
    proof (rule remove_fixup.raw_induct [where P = "\<lambda>x s r. tree_within N h s \<longrightarrow> x \<in> ptrs N \<longrightarrow> run_keeps (tree_within N h) (Some r)" and xa = "(x, s)" and y = r, unfolded prod.case])
      fix f x s r
      assume 1: "\<And>x s r. f x s = Some r \<Longrightarrow> tree_within N h s \<longrightarrow> x \<in> ptrs N \<longrightarrow> run_keeps (tree_within N h) (Some r)" and 2: "(if x \<noteq> root s \<and> colour (hook s x) = Black
      then let d = (if x = left (hook s (parent_of s x)) then Lft else Rgt);
               w = child (opp d) (hook s (parent_of s x))
           in bindR (if colour (hook s w) = Red
                     then let s = set_colour w Black s;
                              s = set_colour (parent_of s x) Red s
                          in bindR (rotate_side d (parent_of s x) s) (\<lambda>s. retR (child (opp d) (hook s (parent_of s x)), s))
                     else retR (w, s)) (\<lambda>(w, s).
                if colour (hook s (child d (hook s w))) = Black \<and> colour (hook s (child (opp d) (hook s w))) = Black
                then let s = set_colour w Red s in f (parent_of s x) s
                else bindR (if colour (hook s (child (opp d) (hook s w))) = Black
                            then let s = set_colour (child d (hook s w)) Black s;
                                     s = set_colour w Red s
                                 in bindR (rotate_side (opp d) w s) (\<lambda>s. retR (child (opp d) (hook s (parent_of s x)), s))
                            else retR (w, s)) (\<lambda>(w, s).
                       let s = set_colour w (colour (hook s (parent_of s x))) s;
                           s = set_colour (parent_of s x) Black s;
                           s = set_colour (child (opp d) (hook s w)) Black s
                       in bindR (rotate_side d (parent_of s x) s) (\<lambda>s. f (root s) s)))
      else retR (set_colour x Black s)) = Some r"
      have IH: "run_keeps (tree_within N h) (f x s)" if "tree_within N h s" "x \<in> ptrs N" for x s by (rule keeps_IH) (rule 1 [rule_format, OF _ that])
      show "tree_within N h s \<longrightarrow> x \<in> ptrs N \<longrightarrow> run_keeps (tree_within N h) (Some r)" unfolding 2 [symmetric] by (intro impI frame IH)
    qed (rule that(1))
    then show ?thesis using that by blast
  qed
qed

lemma unlink_keeps [frame]: "tree_within N h s \<Longrightarrow> z \<in> N \<Longrightarrow> run_keeps (tree_within N h) (unlink_item z s)"
  unfolding unlink_item_def by (intro frame)

lemma cut_keeps [frame]: "tree_within N h s \<Longrightarrow> z \<in> N \<Longrightarrow> run_keeps (\<lambda>(s, p, k). p \<in> ptrs N \<and> tree_within N h s) (cut_item z s)"
  unfolding cut_item_def by (intro frame)

lemma remove_item_keeps [frame]: "tree_within N h s \<Longrightarrow> z \<in> N \<Longrightarrow> run_keeps (tree_within N h) (remove_item z s)"
  unfolding remove_item_def by (intro frame)

section \<open>What an operation leaves alone\<close>

lemma ptrs_mono: "p \<in> ptrs N \<Longrightarrow> N \<subseteq> M \<Longrightarrow> p \<in> ptrs M"
  by (auto simp: ptrs_def)

lemma tree_in:
  assumes "tree_at h par p t" "nodes t \<subseteq> N" "par \<in> ptrs N"
  shows "p \<in> ptrs N" "x \<in> nodes t \<Longrightarrow> parent (h x) \<in> ptrs N \<and> left (h x) \<in> ptrs N \<and> right (h x) \<in> ptrs N"
  using assms
proof (induction t arbitrary: par p)
  case Lf
  { case 1 then show ?case by (simp add: ptrs_def) next case 2 then show ?case by simp }
next
  case (Nd c l y r)
  { case 1 then show ?case by (auto simp: ptrs_def) }
  { case 2
    have y: "Some y \<in> ptrs N" using 2(3) by (auto simp: ptrs_def)
    have T: "tree_at h (Some y) (left (h y)) l" "tree_at h (Some y) (right (h y)) r" "parent (h y) = par" "nodes l \<subseteq> N" "nodes r \<subseteq> N" using 2(2,3) by auto
    consider "x = y" | "x \<in> nodes l" | "x \<in> nodes r" using 2(1) by auto
    then show ?case
    proof cases
      case 1
      then show ?thesis using Nd.IH(1) [OF T(1,4) y] Nd.IH(3) [OF T(2,5) y] T(3) 2(4) by simp
    next
      case x: 2
      show ?thesis by (rule Nd.IH(2) [OF x T(1,4) y])
    next
      case x: 3
      show ?thesis by (rule Nd.IH(4) [OF x T(2,5) y])
    qed }
qed

lemma linked_in: "linked h p xs n \<Longrightarrow> set xs \<subseteq> N \<Longrightarrow> p \<in> ptrs N \<Longrightarrow> n \<in> ptrs N \<Longrightarrow> x \<in> set xs \<Longrightarrow> successor (h x) \<in> ptrs N \<and> predecessor (h x) \<in> ptrs N"
proof (induction xs arbitrary: p)
  case (Cons y ys)
  show ?case
  proof (cases "x = y")
    case True
    then show ?thesis using Cons.prems by (cases ys) (auto simp: ptrs_def)
  next
    case False
    show ?thesis by (rule Cons.IH [of "Some y"]) (use Cons.prems False in \<open>auto simp: ptrs_def\<close>)
  qed
qed simp

lemma rb_list_hook_in:
  assumes r: "rb_list s xs" and N: "set xs \<subseteq> N"
  shows "root s \<in> ptrs N" "head s \<in> ptrs N" "x \<in> set xs \<Longrightarrow> hook_in N (hooks s x)"
proof -
  obtain t where t: "tree_at (hooks s) None (root s) t" "inorder t = xs" using r by (auto simp: rb_list_def balanced_def focus_top)
  note T = tree_in [OF t(1), of N, OF _ None_ptrs]
  show "root s \<in> ptrs N" by (rule T(1)) (use t(2) N in simp)
  show "head s \<in> ptrs N" using r N by (cases xs) (auto simp: rb_list_def ptrs_def)
  have l: "linked (hooks s) None xs None" using r by (simp add: rb_list_def)
  show "hook_in N (hooks s x)" if "x \<in> set xs"
    using T(2) [of x] linked_in [OF l N None_ptrs None_ptrs that] t(2) N that by (simp add: hook_in_def)
qed

lemma keepsD: "run_keeps Q r \<Longrightarrow> r = retR v \<Longrightarrow> Q v"
  by (simp add: run_keeps_def retR_def)

lemma new_hook_in: "hook_in N new_hook"
  by (simp add: hook_in_def new_hook_def ptrs_def)

lemma insert_tail_keeps:
  "tree_within N h s \<Longrightarrow> z \<in> N \<Longrightarrow> run_keeps (tree_within N h) (bindR (if root s = None then let s = s\<lparr>root := Some z\<rparr> in retR (s\<lparr>head := root s\<rparr>) else insert_item lt z s) (\<lambda>s. retR (s\<lparr>rsize := rsize s + 1\<rparr>)))"
  by (intro frame)

lemma insert_frame:
  assumes r: "rb_list s xs" and run: "rb_insert lt z s = retR s'" and n: "n \<notin> set xs" "n \<noteq> z"
  shows "hooks s' n = hooks s n"
proof -
  let ?N = "insert z (set xs)"
  let ?s = "upd (Some z) (\<lambda>_. new_hook) (s\<lparr>nh := new_hook\<rparr>)"
  note R = rb_list_hook_in [OF r, of ?N, OF subset_insertI]
  have i: "tree_within ?N (hooks s) ?s" using R new_hook_in by (auto simp: tree_within_def)
  have "run_keeps (tree_within ?N (hooks s)) (rb_insert lt z s)" unfolding rb_insert_def Let_def
    by (rule insert_tail_keeps [OF i, unfolded Let_def]) simp
  then have "tree_within ?N (hooks s) s'" using run by (rule keepsD)
  then show ?thesis using n by (simp add: tree_within_def)
qed

lemma remove_frame:
  assumes r: "rb_list s xs" and z: "z \<in> set xs" and run: "rb_remove z s = retR s'" and n: "n \<notin> set xs"
  shows "hooks s' n = hooks s n"
proof -
  have i: "tree_within (set xs) (hooks s) (s\<lparr>nh := new_hook\<rparr>)" using rb_list_hook_in [OF r subset_refl] new_hook_in by (auto simp: tree_within_def)
  have "run_keeps (tree_within (set xs) (hooks s)) (rb_remove z s)" unfolding rb_remove_def by (intro frame) (rule i z)+
  then have "tree_within (set xs) (hooks s) s'" using run by (rule keepsD)
  then show ?thesis using n by (simp add: tree_within_def)
qed

lemma rb_list_hooks:
  assumes r: "rb_list s xs" and h: "\<And>n. n \<in> set xs \<Longrightarrow> h n = hooks s n"
  shows "rb_list (s\<lparr>hooks := h\<rparr>) xs"
proof -
  obtain t m where t: "focus s [] None (root s) t" "inorder t = xs" "rb m t" "col t = Black" using r by (auto simp: rb_list_def balanced_def)
  have "tree_at h None (root s) t = tree_at (hooks s) None (root s) t" by (rule tree_at_cong) (use h t(2) in auto)
  then have "balanced (s\<lparr>hooks := h\<rparr>) xs" using t by (auto simp: balanced_def focus_top)
  moreover have "linked h None xs None = linked (hooks s) None xs None" by (rule linked_cong) (use h in auto)
  ultimately show ?thesis using r by (simp add: rb_list_def)
qed

text \<open>Another tree whose items have their hooks in the same place is not touched.\<close>

lemma insert_other_tree:
  assumes "rb_list s xs" "rb_insert lt z s = retR s'" "rb_list q ys" "hooks q = hooks s" "set xs \<inter> set ys = {}" "z \<notin> set ys"
  shows "rb_list (q\<lparr>hooks := hooks s'\<rparr>) ys"
proof (rule rb_list_hooks [OF assms(3)])
  fix n assume "n \<in> set ys"
  then have "n \<notin> set xs" "n \<noteq> z" using assms(5,6) by auto
  then show "hooks s' n = hooks q n" using insert_frame [OF assms(1,2)] assms(4) by simp
qed

lemma remove_other_tree:
  assumes "rb_list s xs" "z \<in> set xs" "rb_remove z s = retR s'" "rb_list q ys" "hooks q = hooks s" "set xs \<inter> set ys = {}"
  shows "rb_list (q\<lparr>hooks := hooks s'\<rparr>) ys"
proof (rule rb_list_hooks [OF assms(4)])
  fix n assume "n \<in> set ys"
  then have "n \<notin> set xs" using assms(6) by auto
  then show "hooks s' n = hooks q n" using remove_frame [OF assms(1,2,3)] assms(5) by simp
qed

end
