(* ===== verification/Rbtree_Queues.thy ===== *)
theory Rbtree_Queues
  imports Rbtree_Frame Sched_Props
begin

text \<open>
  The red-black trees as the queues of the scheduler: the lists of \<open>Sched\<close> are what the trees hold, through the two interpretations of
  \<open>ordered_queue\<close> on the scheduler's comparisons.
\<close>

section \<open>The queues of a processor\<close>

text \<open>
  The run queue and the sleep queue of a processor are two trees that use the same hook of a thread, so they share \<open>hooks\<close>.
  That the two queues have no thread in common is part of the scheduler's invariant \<open>cpu_core\<close>.
\<close>

definition queue_trees :: "sched \<Rightarrow> nat \<Rightarrow> rbtree \<Rightarrow> rbtree \<Rightarrow> bool" where
  "queue_trees st k run slp \<longleftrightarrow> rb_list run (queue (cpus st k)) \<and> rb_list slp (sleep_queue (cpus st k)) \<and> hooks slp = hooks run"

lemma queue_treesD:
  assumes "queue_trees st k run slp" "cpu_core st k"
  shows "rb_list run (queue (cpus st k))" "rb_list slp (sleep_queue (cpus st k))" "hooks slp = hooks run" "hooks run = hooks slp"
    "set (queue (cpus st k)) \<inter> set (sleep_queue (cpus st k)) = {}" "set (sleep_queue (cpus st k)) \<inter> set (queue (cpus st k)) = {}"
    "sorted_wrt (\<lambda>a b. vruntime (threads st a) \<le> vruntime (threads st b)) (queue (cpus st k))"
    "sorted_wrt (\<lambda>a b. opt_le (sleep_until (threads st a)) (sleep_until (threads st b))) (sleep_queue (cpus st k))"
  using assms by (auto simp: queue_trees_def cpu_core_def vr_sorted_def until_sorted_def Let_def)

lemma queues_of_cpu [simp]:
  "queue (cpus (queue_insert k t st) k) = insert_by (vr_less (threads st)) t (queue (cpus st k))" "sleep_queue (cpus (queue_insert k t st) k) = sleep_queue (cpus st k)"
  "sleep_queue (cpus (sleep_insert k t st) k) = insert_by (until_less (threads st)) t (sleep_queue (cpus st k))" "queue (cpus (sleep_insert k t st) k) = queue (cpus st k)"
  by (simp_all add: queue_insert_def sleep_insert_def set_cpu_def)

lemmas run_tree_insert = ordered_queue.insert_ok [OF run_order.ordered_queue_axioms]
lemmas sleep_tree_insert = ordered_queue.insert_ok [OF sleep_order.ordered_queue_axioms]

text \<open>
  Property C36. Inserting a thread that is in neither queue into the tree of the run queue returns, without a failing assertion and
  whatever colours and rotations it takes, with a red-black tree of the scheduler's run queue after \<open>queue_insert\<close>, and leaves the tree of the
  sleep queue, whose hooks are in the same place, intact.
\<close>

theorem run_queue_tree_insert:
  assumes "queue_trees st k run slp" "cpu_core st k" "t \<notin> set (queue (cpus st k))" "t \<notin> set (sleep_queue (cpus st k))"
  shows "\<exists>run'. rb_insert (vr_less (threads st)) t run = retR run' \<and> queue_trees (queue_insert k t st) k run' (slp\<lparr>hooks := hooks run'\<rparr>)"
proof -
  note Q = queue_treesD [OF assms(1,2)]
  obtain run' where run': "rb_insert (vr_less (threads st)) t run = retR run'" "rb_list run' (insert_by (vr_less (threads st)) t (queue (cpus st k)))"
    using run_tree_insert [OF Q(1,7) assms(3)] by blast
  have "rb_list (slp\<lparr>hooks := hooks run'\<rparr>) (sleep_queue (cpus st k))" by (rule insert_other_tree [OF Q(1) run'(1) Q(2,3,5) assms(4)])
  then show ?thesis using run' by (auto simp: queue_trees_def)
qed

text \<open>
  Property C37. The same for the sleep queue, whose tree is ordered by the time a thread sleeps until.
\<close>

theorem sleep_queue_tree_insert:
  assumes "queue_trees st k run slp" "cpu_core st k" "t \<notin> set (queue (cpus st k))" "t \<notin> set (sleep_queue (cpus st k))"
  shows "\<exists>slp'. rb_insert (until_less (threads st)) t slp = retR slp' \<and> queue_trees (sleep_insert k t st) k (run\<lparr>hooks := hooks slp'\<rparr>) slp'"
proof -
  note Q = queue_treesD [OF assms(1,2)]
  obtain slp' where slp': "rb_insert (until_less (threads st)) t slp = retR slp'" "rb_list slp' (insert_by (until_less (threads st)) t (sleep_queue (cpus st k)))"
    using sleep_tree_insert [OF Q(2,8) assms(4)] by blast
  have "rb_list (run\<lparr>hooks := hooks slp'\<rparr>) (queue (cpus st k))" by (rule insert_other_tree [OF Q(2) slp'(1) Q(1,4,6) assms(3)])
  then show ?thesis using slp' by (auto simp: queue_trees_def)
qed

text \<open>
  Property C38. Removing an item of a tree of fewer than \<open>2 ^ 64\<close> items returns, without a failing assertion, with a red-black tree of the
  other items in their order, and a tree of other items whose hooks are in the same place stays intact.
\<close>

theorem rb_remove_refines:
  assumes "rb_list s xs" "z \<in> set xs" "length xs < 2 ^ 64" "rb_list q ys" "hooks q = hooks s" "set xs \<inter> set ys = {}"
  shows "\<exists>s'. rb_remove z s = retR s' \<and> rb_list s' (queue_remove z xs) \<and> rb_list (q\<lparr>hooks := hooks s'\<rparr>) ys"
proof -
  obtain s' where s': "rb_remove z s = retR s'" "rb_list s' (queue_remove z xs)" using remove_ok [OF assms(1,2,3)] by blast
  then show ?thesis using remove_other_tree [OF assms(1,2) s'(1) assms(4,5,6)] by blast
qed

text \<open>
  Property C39. Any sequence of fewer than \<open>2 ^ 64\<close> insertions and removals that inserts no item twice and removes only items of the tree runs to its
  end, and at the end an item is at depth \<open>d\<close> only if the tree has at least \<open>2 ^ (d div 2 + 1) - 1\<close> items: no walk from the root is longer than twice the
  logarithm of the number of items.
\<close>

theorem rbtree_depth:
  assumes "ops_ok (vr_less th) ps []" "length ps < 2 ^ 64"
  shows "\<exists>s. rb_ops (vr_less th) ps (rb_empty h) = retR s \<and> rb_list s (q_ops (vr_less th) ps []) \<and>
    (\<forall>ds x. follow s ds (root s) = Some x \<longrightarrow> 2 ^ Suc (length ds div 2) \<le> Suc (length (q_ops (vr_less th) ps [])))"
proof -
  obtain s where s: "rb_ops (vr_less th) ps (rb_empty h) = retR s" "rb_list s (q_ops (vr_less th) ps [])"
    using ordered_queue.ops_refine [OF run_order.ordered_queue_axioms rb_list_empty, of th ps h] assms by auto
  then show ?thesis using depth_bound [OF s(2)] by blast
qed

text \<open>
  Property C40. What a reader sees of the tree of a run queue: \<open>first\<close> and \<open>last\<close> are the ends of the queue, an iterator visits the queue
  in its order in both directions, and \<open>contains\<close> finds exactly the virtual times that occur.
\<close>

theorem rb_readers:
  assumes "rb_list s q" "vr_sorted th q"
  shows "rb_first s = (if q = [] then None else Some (hd q)) \<and> rb_last s = retR (if q = [] then None else Some (last q)) \<and>
    (\<forall>i < length q. rb_next (Some (q ! i)) s = (if Suc i < length q then Some (q ! Suc i) else None) \<and>
       rb_prev (Some (q ! i)) s = (if i = 0 then None else Some (q ! (i - 1)))) \<and>
    rb_contains (vr_less th) x s = retR (\<exists>y \<in> set q. vruntime (th y) = vruntime (th x))"
proof -
  have "rb_contains (vr_less th) x s = retR (\<exists>y \<in> set q. \<not> vr_less th y x \<and> \<not> vr_less th x y)"
    by (rule ordered_queue.contains_ok [OF run_order.ordered_queue_axioms assms(1) assms(2) [unfolded vr_sorted_def]])
  moreover have "(\<not> vr_less th y x \<and> \<not> vr_less th x y) = (vruntime (th y) = vruntime (th x))" for y by (auto simp: vr_less_def)
  moreover have "rb_first s = (if q = [] then None else Some (hd q))" using assms(1) by (cases q) (auto simp: rb_first_def rb_list_def)
  moreover have "rb_last s = retR (if q = [] then None else Some (last q))" using last_ok [OF assms(1)] by (simp add: last_or_def)
  moreover have "rb_next (Some (q ! i)) s = (if Suc i < length q then Some (q ! Suc i) else None) \<and> rb_prev (Some (q ! i)) s = (if i = 0 then None else Some (q ! (i - 1)))"
    if "i < length q" for i using linked_nth [of "hooks s" None q None i] assms(1) that by (simp add: rb_list_def rb_next_def rb_prev_def)
  ultimately show ?thesis by simp
qed

section \<open>Witnesses\<close>

text \<open>The trees of \<open>sample_running\<close>: threads 2 and 3 in the run queue, 4 in the sleep queue.\<close>

definition sample_hooks :: "nat \<Rightarrow> rbtree_hook" where
  "sample_hooks = (\<lambda>_. new_hook)(2 := new_hook\<lparr>right := Some 3, successor := Some 3\<rparr>, 3 := new_hook\<lparr>parent := Some 2, predecessor := Some 2, colour := Red\<rparr>)"

definition sample_run_tree :: rbtree where
  "sample_run_tree = \<lparr>root = Some 2, head = Some 2, rsize = 2, hooks = sample_hooks, nh = new_hook\<rparr>"

definition sample_sleep_tree :: rbtree where
  "sample_sleep_tree = \<lparr>root = Some 4, head = Some 4, rsize = 1, hooks = sample_hooks, nh = new_hook\<rparr>"

lemma sample_trees: "rb_list sample_run_tree [2, 3]" "rb_list sample_sleep_tree [4]" "hooks sample_sleep_tree = hooks sample_run_tree"
proof -
  have "focus sample_run_tree [] None (root sample_run_tree) (Nd Black Lf 2 (Nd Red Lf 3 Lf))" "focus sample_sleep_tree [] None (root sample_sleep_tree) (Nd Black Lf 4 Lf)"
    by (simp_all add: focus_top sample_run_tree_def sample_sleep_tree_def sample_hooks_def new_hook_def)
  moreover have "inorder (Nd Black Lf 2 (Nd Red Lf 3 Lf)) = [2, 3]" "rb 1 (Nd Black Lf 2 (Nd Red Lf 3 Lf))" "inorder (Nd Black Lf 4 Lf) = [4]" "rb 1 (Nd Black Lf 4 Lf)" by simp_all
  ultimately have "balanced sample_run_tree [2, 3]" "balanced sample_sleep_tree [4]" unfolding balanced_def by (metis col.simps(2))+
  then show "rb_list sample_run_tree [2, 3]" "rb_list sample_sleep_tree [4]"
    by (simp_all add: rb_list_def sample_run_tree_def sample_sleep_tree_def sample_hooks_def new_hook_def)
  show "hooks sample_sleep_tree = hooks sample_run_tree" by (simp add: sample_run_tree_def sample_sleep_tree_def)
qed

lemma sample_queue_trees: "queue_trees (sample_running v) 0 sample_run_tree sample_sleep_tree" "cpu_core (sample_running v) 0"
  using sample_trees sample_running_simps sample_running_inv by (simp_all add: queue_trees_def cpu_inv_def)

theorem run_queue_tree_insert_witness:
  "\<forall>v. \<exists>run'. rb_insert (vr_less (threads (sample_running v))) 5 sample_run_tree = retR run' \<and>
    queue_trees (queue_insert 0 5 (sample_running v)) 0 run' (sample_sleep_tree\<lparr>hooks := hooks run'\<rparr>)"
  using run_queue_tree_insert [OF sample_queue_trees, of 5] sample_running_simps by simp

theorem sleep_queue_tree_insert_witness:
  "\<forall>v. \<exists>slp'. rb_insert (until_less (threads (sample_running v))) 5 sample_sleep_tree = retR slp' \<and>
    queue_trees (sleep_insert 0 5 (sample_running v)) 0 (sample_run_tree\<lparr>hooks := hooks slp'\<rparr>) slp'"
  using sleep_queue_tree_insert [OF sample_queue_trees, of 5] sample_running_simps by simp

theorem rb_remove_refines_witness:
  "\<exists>s'. rb_remove 2 sample_run_tree = retR s' \<and> rb_list s' [3] \<and> rb_list (sample_sleep_tree\<lparr>hooks := hooks s'\<rparr>) [4]"
  using rb_remove_refines [OF sample_trees(1) _ _ sample_trees(2,3), of 2] by (simp add: queue_remove_def)

theorem rbtree_depth_witness:
  "\<exists>s. rb_ops (vr_less (\<lambda>n. sample_thread\<lparr>vruntime := of_nat n\<rparr>)) [Ins 3, Ins 1, Ins 2, Rem 3] (rb_empty (\<lambda>_. new_hook)) = retR s \<and> rb_list s [1, 2]"
  using rbtree_depth [of "\<lambda>n. sample_thread\<lparr>vruntime := of_nat n\<rparr>" "[Ins 3, Ins 1, Ins 2, Rem 3]" "\<lambda>_. new_hook"]
  by (auto simp: vr_less_def queue_remove_def)

theorem rb_readers_witness:
  "rb_first sample_run_tree = Some 2 \<and> rb_last sample_run_tree = retR (Some 3) \<and> rb_next (Some 2) sample_run_tree = Some 3"
  using rb_readers [OF sample_trees(1), of "\<lambda>_. sample_thread"] by (auto simp: vr_sorted_def All_less_Suc)

end
