(* ===== verification/Spec2Isabelle.thy ===== *)
theory Spec2Isabelle
  imports Vmm_Ops Vfs_Files Locks Processes Rbtree_Queues
begin

text \<open>
  Verification of the Ilobilix kernel, an x86_64 kernel in C++ (paths below are relative to \<^verbatim>\<open>src/kernel/\<close>). The
  development is about the build with assertions: \<open>lib::bug_on\<close> and \<open>lib::panic\<close> are outcomes of
  the model, as is a loop that does not end.

  \<^bold>\<open>How code is modelled.\<close> A class or struct is a record with its members, an enum a datatype, \<open>size_t\<close> and addresses are
  64-bit words that wrap around. An operation is a function of the state it reads and returns the changed state. An operation
  that can panic returns a sum, one that can also run forever a \<open>run\<close>: \<open>None\<close> when it does not return,
  \<open>failR e\<close> when it panics, \<open>retR x\<close> when it returns (theory \<^verbatim>\<open>Prelude\<close>). Loops without an obvious bound are partial
  functions; that they return is part of the theorems. No definition has fuel. Errors that the code returns are values of
  \<open>vm_error\<close>, \<open>vfs_error\<close> or error numbers. Hardware is data: physical memory is a map from addresses to bytes or words, page tables are
  words in it, the memory map of the boot loader is an argument.

  \<^bold>\<open>Arithmetic and C library.\<close> \<^verbatim>\<open>Libmath\<close> has the helpers of \<^verbatim>\<open>interfaces/lib/math.cppm\<close>; \<^verbatim>\<open>Libc_String\<close> every function of
  \<^verbatim>\<open>source/libc/string.cpp\<close> and \<^verbatim>\<open>ctype.cpp\<close> on a byte memory. The unrolled \<open>memcpy\<close> and \<open>memset\<close> equal their
  byte loops, \<open>memmove\<close> is right for overlapping regions, searching and comparing meet their specifications.

  \<^bold>\<open>Physical memory.\<close> \<^verbatim>\<open>Pmm\<close> is \<^verbatim>\<open>source/system/memory/pmm.cpp\<close>: the buddy allocators on doubly linked
  free lists inside free memory and the page-frame database (\<open>heap\<close>, \<open>allocator\<close>), the three zones, the bootstrap allocator, \<open>alloc\<close>, \<open>free\<close> and \<open>pmm_init\<close>.
  \<^verbatim>\<open>Pmm_Lists\<close> abstracts the linked lists to lists of blocks, \<^verbatim>\<open>Pmm_Blocks\<close> has the invariant \<open>buddy_inv\<close> and its geometry, \<^verbatim>\<open>Pmm_Buddy\<close> the
  operations of one allocator, \<^verbatim>\<open>Pmm_Zones\<close> the zones together, runs of \<open>alloc\<close> and \<open>free\<close>, the state at boot and the interface \<open>page_source\<close>
  on which the page maps rest. Allocations are disjoint, free blocks and blocks marked allocated partition the memory, freeing a live block succeeds, and coalescing ends.

  \<^bold>\<open>Page maps.\<close> \<^verbatim>\<open>Pagemap\<close> is \<^verbatim>\<open>source/system/memory/pagemap.cpp\<close> with \<^verbatim>\<open>source/arch/x86_64/system/pagemap.cpp\<close>, on tables whose pages come
  from the model of the physical memory manager. \<^verbatim>\<open>Pagemap_Tree\<close> has flags and entries and the invariant of the tree of tables, \<^verbatim>\<open>Pagemap_Ops\<close> the operations: the three
  loops over pages are instances of the locale \<open>page_loop\<close>. The invariant \<open>pt_inv\<close> is about the user half (the first 256 entries of a root): its tables are pages taken from the
  memory manager and form a tree. The kernel half, with the tables made at boot and its large pages, is arbitrary and shown to stay as it is. \<open>pagemap_new_correct\<close>
  shows that the constructor of a process's page map establishes the invariant, and the examples start from page maps it builds. On ranges of 4 KiB pages of the user half, mapping, unmapping and protecting change
  exactly the pages of the range, and translation gives back what was mapped. \<open>vroom st live n\<close> says that \<open>n\<close> pages are free in the zones that tables and objects may come from: everything above 1 MiB, or
  only what is below 4 GiB when page tables have to be there.

  \<^bold>\<open>Virtual memory.\<close> \<^verbatim>\<open>Vmm\<close> is \<^verbatim>\<open>source/system/memory/vmm.cpp\<close>: memory objects with their pages, address spaces as ordered
  multisets of mappings, reference counts, page faults. The ordered containers are library code with the interface of \<open>std::map\<close> and \<open>std::multiset\<close>; they are lists
  in order with the behaviour the standard documents. \<^verbatim>\<open>Vmm_Objects\<close> shows that objects refine byte arrays (locale \<open>byte_store\<close>), \<^verbatim>\<open>Vmm_Space\<close>
  and \<^verbatim>\<open>Vmm_Ops\<close> that \<open>map\<close>, \<open>unmap\<close> and \<open>protect\<close> of an address space refine updates of a partial function from pages to object pages, in the tree and in the page
  tables, and that the fault handler maps the page the address space has. The invariant \<open>space_inv\<close> is about the user half too. \<open>map\<close> is covered for mappings
  that lie in the range or reach beyond it on both sides (\<open>cuts_well\<close>); otherwise the rest of a mapping is moved (\<open>map_moves_rest_of_mapping\<close>).

  \<^bold>\<open>Files.\<close> \<^verbatim>\<open>Vfs\<close> is \<^verbatim>\<open>source/system/vfs.cpp\<close> with tmpfs, devtmpfs and the character devices of \<^verbatim>\<open>source/drivers/fs/\<close> (entries, inodes, mounts, open files and
  descriptors are numbered tables in the record \<open>vfs\<close>), \<^verbatim>\<open>Syscalls\<close> is \<^verbatim>\<open>source/system/syscall/vfs.cpp\<close> and \<^verbatim>\<open>memory.cpp\<close>. The path functions of the cwalk
  library are the parameter \<open>cwalk\<close>; what is assumed of them is named in \<^verbatim>\<open>Vfs_Lookup\<close>. \<^verbatim>\<open>Vfs_Lookup\<close> has the invariant \<open>vfs_wf\<close> and lookups,
  \<^verbatim>\<open>Vfs_Tree\<close> that all operations keep it, what creating and removing names does to all paths, and links through themselves; \<^verbatim>\<open>Vfs_Files\<close> the contents of
  files through descriptors and anonymous \<open>mmap\<close>, which joins the system calls to the virtual memory manager.

  \<^bold>\<open>Locks.\<close> \<^verbatim>\<open>Spinlock\<close> is the ticket lock with every atomic access a step, for all interleavings; it refines a queue and serves
  its threads in order. \<^verbatim>\<open>Locks\<close> has the interrupt-disabling lock, semaphores, mutexes and reader-writer locks; locks that exclude meet the contract \<open>exclusive_lock\<close>.

  \<^bold>\<open>Scheduler and processes.\<close> \<^verbatim>\<open>Sched\<close> is \<^verbatim>\<open>source/system/scheduler.cpp\<close> with its x86_64 part, and the process calls of \<^verbatim>\<open>source/system/syscall/proc.cpp\<close>. The address
  space of a process is one of the virtual memory manager. \<^verbatim>\<open>Sched_Switch\<close> has the invariant of a processor and \<open>schedule\<close>:
  it picks the ready thread with the least virtual time, loses no thread, and switches contexts faithfully. \<^verbatim>\<open>Sched_Props\<close> has sleeping and waking, all
  processors together, and the start: whole operations one after the other keep every thread in one place. The relation \<open>sched_step\<close> has no step inside \<open>schedule\<close> and wakes no thread
  that still runs. The code allows both: \<open>wake_during_schedule_queues_twice\<close> splits \<open>schedule\<close> where it releases the sleep lock and shows
  that a wake-up there puts a thread into two queues. \<^verbatim>\<open>Processes\<close> has groups, sessions and the stacks of user threads.

  \<^bold>\<open>Red-black trees.\<close> \<^verbatim>\<open>Rbtree\<close> is \<^verbatim>\<open>interfaces/lib/rbtree.cppm\<close>, an intrusive tree on pointers that keeps its items also in a doubly linked list, for any comparison.
  \<^verbatim>\<open>Rbtree_Shape\<close> relates pointers to trees in a context (\<open>focus\<close>) and has rotations and colours, \<^verbatim>\<open>Rbtree_Insert\<close> insertion, \<^verbatim>\<open>Rbtree_Fixup\<close> and \<^verbatim>\<open>Rbtree_Remove\<close> removal, the readers and
  the depth, \<^verbatim>\<open>Rbtree_Frame\<close> what an operation does not touch. The tree refines an ordered list (\<open>rb_list\<close>, contract \<open>ordered_queue\<close> of \<^verbatim>\<open>Ordered_Queue\<close>); \<^verbatim>\<open>Rbtree_Queues\<close> concludes that the
  trees implement the queues of the scheduler, which share one hook per thread.

  \<^bold>\<open>Flaws.\<close> Some theorems show what the code does where it does not do what it means to: \<open>map_moves_rest_of_mapping\<close>, \<open>openat_new_file_panics\<close>,
  \<open>link_through_itself_never_returns\<close>, \<open>write_unlock_with_waiting_reader_panics\<close>, \<open>wake_during_schedule_queues_twice\<close>, \<open>destroying_user_thread_panics\<close>, \<open>setpgid_never_succeeds\<close>, and lemmas beside them.

  \<^bold>\<open>Not modelled.\<close> The hash maps (association lists stand for them); the lifetime of directory entries, inodes and mounts (the tables only grow, so a parent pointer, which is weak
  in the code, does not expire); the width of process numbers, descriptor numbers and the counter of a semaphore, which are unbounded integers; physical memory shared between processes in
  the scheduler's state (the address space of each process is a state of the memory managers of its own); time stamps of files; the locks taken by the memory managers and the file system, whose operations are atomic here; the user and group
  numbers of processes; the slab allocator, the compiler runtime and the libraries in submodules; hardware access (interrupt controllers, timers,
  descriptor tables, PCI, ACPI), output and logging, the aarch64 port; the initialisation graph, the loaders of executables and modules and
  the initial RAM file system, which are planned on top of the models of files and address spaces.
\<close>

end
